(* ===== verification/Json.thy ===== *)
theory Json
  imports Prelude
begin

text \<open>
  The data of \<open>serde_json::Value\<close>, the type of the documents that the program reads and
  forwards, and the total accessors the code calls on it. Parsing and printing text is
  the library's: components that parse or print take those functions as parameters.
\<close>

section \<open>Values\<close>

text \<open>
  Integers are kept exactly (a document holds those of \<open>i64\<close> and \<open>u64\<close>); any other
  number is kept as its text, since no code modelled here computes with it. An object
  is an association list: a lookup takes the first entry of a key, and no operation
  below adds a second one.
\<close>

datatype json =
    JNull
  | JBool bool
  | JInt int
  | JFloat string
  | JString string
  | JArray "json list"
  | JObject "(string \<times> json) list"

definition json_get :: "json \<Rightarrow> string \<Rightarrow> json option" where
  \<comment> \<open>\<open>value.get(key)\<close>\<close>
  "json_get v k = (case v of JObject kvs \<Rightarrow> map_of kvs k | _ \<Rightarrow> None)"

definition json_index :: "json \<Rightarrow> string \<Rightarrow> json" where
  \<comment> \<open>\<open>value[key]\<close>: null where the key is absent or the value is no object\<close>
  "json_index v k = (case json_get v k of None \<Rightarrow> JNull | Some x \<Rightarrow> x)"

fun json_pointer :: "json \<Rightarrow> string list \<Rightarrow> json option" where
  \<comment> \<open>\<open>value.pointer("/a/b")\<close> with the path already split; object keys only\<close>
  "json_pointer v [] = Some v"
| "json_pointer v (k # ks) =
     (case json_get v k of None \<Rightarrow> None | Some x \<Rightarrow> json_pointer x ks)"

definition as_str :: "json \<Rightarrow> string option" where
  "as_str v = (case v of JString s \<Rightarrow> Some s | _ \<Rightarrow> None)"

definition as_array :: "json \<Rightarrow> json list option" where
  "as_array v = (case v of JArray xs \<Rightarrow> Some xs | _ \<Rightarrow> None)"

definition as_object :: "json \<Rightarrow> (string \<times> json) list option" where
  "as_object v = (case v of JObject kvs \<Rightarrow> Some kvs | _ \<Rightarrow> None)"

definition as_i64 :: "json \<Rightarrow> int option" where
  "as_i64 v = (case v of
       JInt i \<Rightarrow> if - (2 ^ 63) \<le> i \<and> i < 2 ^ 63 then Some i else None
     | _ \<Rightarrow> None)"

definition as_u64 :: "json \<Rightarrow> int option" where
  "as_u64 v = (case v of
       JInt i \<Rightarrow> if 0 \<le> i \<and> i < 2 ^ 64 then Some i else None
     | _ \<Rightarrow> None)"

definition is_object :: "json \<Rightarrow> bool" where
  "is_object v = (as_object v \<noteq> None)"

text \<open>
  \<open>serde_json::Map\<close> and \<open>BTreeMap\<close> keep their entries sorted by key: \<open>value[key] = x\<close>
  replaces the entry, or inserts one at its place.
\<close>

fun assoc_put :: "'k::linorder \<Rightarrow> 'v \<Rightarrow> ('k \<times> 'v) list \<Rightarrow> ('k \<times> 'v) list" where
  "assoc_put k x [] = [(k, x)]"
| "assoc_put k x ((k', y) # kvs) =
     (if k = k' then (k, x) # kvs
      else if k < k' then (k, x) # (k', y) # kvs
      else (k', y) # assoc_put k x kvs)"

fun assoc_remove :: "'k \<Rightarrow> ('k \<times> 'v) list \<Rightarrow> ('k \<times> 'v) list" where
  "assoc_remove k [] = []"
| "assoc_remove k ((k', y) # kvs) = (if k = k' then kvs else (k', y) # assoc_remove k kvs)"

section \<open>Lemmas\<close>

lemma map_of_assoc_put [simp]: "map_of (assoc_put k x kvs) = (map_of kvs)(k \<mapsto> x)"
  by (induction kvs) (auto simp: fun_eq_iff)

lemma set_keys_assoc_put [simp]: "fst ` set (assoc_put k x kvs) = insert k (fst ` set kvs)"
  by (induction k x kvs rule: assoc_put.induct) (simp_all add: insert_commute)

lemma assoc_put_twice [simp]: "assoc_put k x (assoc_put k y kvs) = assoc_put k x kvs"
  by (induction kvs) auto

lemma assoc_put_commute:
  "k \<noteq> l \<Longrightarrow> assoc_put k x (assoc_put l y kvs) = assoc_put l y (assoc_put k x kvs)"
  by (induction kvs) auto

lemma strict_sorted_assoc_put:
  "sorted_wrt (<) (List.map fst kvs) \<Longrightarrow> sorted_wrt (<) (List.map fst (assoc_put k x kvs))"
  by (induction k x kvs rule: assoc_put.induct) (auto intro: less_trans simp: not_less_iff_gr_or_eq)

lemma map_of_assoc_remove:
  "distinct (List.map fst kvs) \<Longrightarrow> map_of (assoc_remove k kvs) = (map_of kvs)(k := None)"
  by (induction k kvs rule: assoc_remove.induct) (auto simp: fun_eq_iff map_of_eq_None_iff)

lemma assoc_remove_sorted:
  "sorted_wrt (<) (List.map fst kvs) \<Longrightarrow> sorted_wrt (<) (List.map fst (assoc_remove k kvs))"
proof -
  have "set (List.map fst (assoc_remove k kvs)) \<subseteq> set (List.map fst kvs)" for kvs :: "('a \<times> 'b) list"
    by (induction k kvs rule: assoc_remove.induct) auto
  then show "sorted_wrt (<) (List.map fst kvs) \<Longrightarrow> sorted_wrt (<) (List.map fst (assoc_remove k kvs))"
    by (induction k kvs rule: assoc_remove.induct) (fastforce simp: subset_iff)+
qed

lemma json_index_put [simp]:
  "json_index (JObject (assoc_put k x kvs)) k' =
     (if k' = k then x else json_index (JObject kvs) k')"
  by (simp add: json_index_def json_get_def)

lemma json_get_simps [simp]:
  "json_get (JObject kvs) k = map_of kvs k"
  "json_get JNull k = None"
  "json_get (JBool b) k = None"
  "json_get (JInt i) k = None"
  "json_get (JFloat f) k = None"
  "json_get (JString s) k = None"
  "json_get (JArray xs) k = None"
  by (simp_all add: json_get_def)

lemma as_str_simps [simp]:
  "as_str (JString s) = Some s"
  "as_str JNull = None"
  by (simp_all add: as_str_def)

lemma as_str_Some: "as_str v = Some s \<longleftrightarrow> v = JString s"
  by (auto simp: as_str_def split: json.splits)

lemma as_i64_Some:
  "as_i64 v = Some i \<longleftrightarrow> v = JInt i \<and> - (2 ^ 63) \<le> i \<and> i < 2 ^ 63"
  by (auto simp: as_i64_def split: json.splits)

lemma json_index_JNull [simp]: "json_index JNull k = JNull"
  by (simp add: json_index_def)

end
