(* ===== verification/Revision.thy ===== *)
theory Revision
  imports Json
begin

text \<open>
  The immutable facts that replicas exchange (\<open>Revision\<close> of
  \<open>src/src/fleet/native/distributed.rs\<close>), the list of replicated tables and their columns
  (\<open>capture.rs\<close>), and the validation of published pages (\<open>resources.rs\<close>, \<open>pages.rs\<close>).
  Strings are the bytes of their UTF-8 encoding.
\<close>

section \<open>Library functions\<close>

text \<open>
  JSON text and hashing are the libraries' (\<open>serde_json\<close>, \<open>sha2\<close>, \<open>base64\<close>,
  \<open>flate2\<close>); definitions that use them take this record of functions. \<open>round_trip\<close> is
  what the code relies on: printing and parsing a value gives the value back; and
  \<open>inflates\<close> likewise of compression.
\<close>

record codec =
  parse_json :: "string \<Rightarrow> json option"
  print_json :: "json \<Rightarrow> string"
  digest :: "string \<Rightarrow> string"
  base64_decode :: "string \<Rightarrow> string option"
  gzip :: "string \<Rightarrow> string"
  gunzip :: "string \<Rightarrow> nat \<Rightarrow> string option" \<comment> \<open>\<open>compression::decode\<close> with its limit\<close>

definition round_trip :: "codec \<Rightarrow> json set \<Rightarrow> bool" where
  "round_trip C V \<longleftrightarrow> (\<forall>v \<in> V. parse_json C (print_json C v) = Some v)"

definition inflates :: "codec \<Rightarrow> string set \<Rightarrow> bool" where
  "inflates C B \<longleftrightarrow> (\<forall>b \<in> B. \<forall>limit. length b \<le> limit \<longrightarrow> gunzip C (gzip C b) limit = Some b)"

section \<open>Facts\<close>

type_synonym stamp = "int \<times> string" \<comment> \<open>Lamport clock and origin, compared in this order\<close>

record resource =
  res_kind :: string
  res_id :: string
  res_digest :: string
  res_bytes :: string

record revision =
  fact_protocol :: int
  fact_origin :: string
  fact_clock :: int
  fact_table :: string
  fact_before :: "json option"
  fact_after :: "json option"
  fact_resource :: "resource option"

definition PROTOCOL :: int where
  "PROTOCOL = 2"

abbreviation fact_stamp :: "revision \<Rightarrow> stamp" where
  "fact_stamp f \<equiv> (fact_clock f, fact_origin f)"

section \<open>Replicated tables\<close>

definition TABLES :: "string list" where
  "TABLES = [''projects'', ''agents'', ''issues'', ''issue_status_updates'',
     ''github_fetch_status'', ''issue_github_watches'', ''issue_agent_launches'',
     ''issue_subtasks'', ''comments'', ''events'', ''issue_commits'', ''commit_reviews'',
     ''commit_review_comments'', ''project_settings'', ''project_config_revisions'',
     ''global_settings'', ''dictation_vocabulary'', ''issue_pull_requests'', ''artifacts'',
     ''artifact_comments'', ''artifact_links'', ''file_attachments'', ''published_pages'',
     ''page_exports'', ''published_publications'', ''published_page_chunks'',
     ''published_deployments'', ''published_chunks'', ''scheduled_jobs'',
     ''scheduled_job_revisions'', ''scheduled_job_runs'', ''scheduled_job_logs'',
     ''worker_runs'', ''worker_allocations'', ''distributed_members'']"

text \<open>
  The schema is read from the database: each column of a table with its position in the
  primary key, 0 where it is not part of it.
\<close>

type_synonym schema = "string \<Rightarrow> (string \<times> nat) list"

definition local_column :: "string \<Rightarrow> bool" where
  "local_column c \<longleftrightarrow> c \<in> {''archive_cleanup'', ''archive_restoring'', ''archive_touched_at''}"

definition shared_column :: "string \<Rightarrow> string \<Rightarrow> bool" where
  "shared_column table c =
     (if table = ''project_settings'' then c \<noteq> ''mindmaps_enabled''
      else if table = ''projects'' then c \<noteq> ''next_number''
      else if table = ''issues'' then \<not> local_column c \<and> c \<noteq> ''attempt_hold''
      else if table = ''worker_runs'' then
        c \<in> {''id'', ''project_id'', ''issue_number'', ''actor_id'', ''session_id'', ''state'',
             ''machine'', ''started_at'', ''finished_at'', ''summary'', ''worker_id'',
             ''retry_at'', ''retry_count'', ''retry_allowed''}
      else if table = ''scheduled_jobs'' then c \<noteq> ''next_at''
      else if table = ''scheduled_job_runs'' then c \<noteq> ''sequence''
      else True)"

definition columns :: "schema \<Rightarrow> string \<Rightarrow> string list result" where
  "columns S table =
     (if table \<in> set TABLES then Inr (filter (shared_column table) (List.map fst (S table)))
      else Inl ''Unknown distributed table'')"

definition retired_table :: "string \<Rightarrow> bool" where
  "retired_table table \<longleftrightarrow> table \<in> {''mindmaps'', ''mindmap_nodes'', ''mindmap_links''}"

section \<open>Published pages\<close>

definition CHUNK_SIZE :: int where "CHUNK_SIZE = 1024 * 1024"
definition SITE_LIMIT :: int where "SITE_LIMIT = 256 * 1024 * 1024"
definition FILE_LIMIT :: nat where "FILE_LIMIT = 10000"

abbreviation byte :: "char \<Rightarrow> nat" where
  "byte c \<equiv> of_char c"

definition hex_digit :: "char \<Rightarrow> bool" where
  "hex_digit c \<longleftrightarrow> ascii_digit c \<or> (97 \<le> byte c \<and> byte c \<le> 102)"

definition valid_hash :: "string \<Rightarrow> bool" where
  "valid_hash h \<longleftrightarrow> length h = 64 \<and> list_all hex_digit h"

definition ascii_lower :: "char \<Rightarrow> bool" where
  "ascii_lower c \<longleftrightarrow> 97 \<le> byte c \<and> byte c \<le> 122"

definition ascii_upper :: "char \<Rightarrow> bool" where
  "ascii_upper c \<longleftrightarrow> 65 \<le> byte c \<and> byte c \<le> 90"

definition valid_name :: "string \<Rightarrow> unit result" where
  "valid_name name = ensure
     (\<not> (name = [] \<or> length name > 63
         \<or> \<not> (ascii_lower (hd name) \<or> ascii_upper (hd name) \<or> ascii_digit (hd name))
         \<or> last name = CHR ''-''
         \<or> \<not> list_all (\<lambda>b. ascii_lower b \<or> ascii_digit b \<or> b = CHR ''-'') name))
     ''Page name must be 1-63 lowercase letters, digits or hyphens''"

text \<open>\<open>char::is_control\<close> on UTF-8: the C0 controls, delete, and U+0080 to U+009F.\<close>

fun has_control :: "string \<Rightarrow> bool" where
  "has_control [] = False"
| "has_control (c # cs) =
     (byte c < 32 \<or> byte c = 127
      \<or> (byte c = 194 \<and> (case cs of [] \<Rightarrow> False | d # _ \<Rightarrow> 128 \<le> byte d \<and> byte d \<le> 159))
      \<or> has_control cs)"

fun split_on :: "char \<Rightarrow> string \<Rightarrow> string list" where
  "split_on d [] = [[]]"
| "split_on d (c # cs) =
     (if c = d then [] # split_on d cs
      else (case split_on d cs of [] \<Rightarrow> [[c]] | p # ps \<Rightarrow> (c # p) # ps))"

definition valid_path :: "string \<Rightarrow> bool" where
  "valid_path path \<longleftrightarrow> path \<noteq> [] \<and> length path \<le> 1024
     \<and> \<not> (CHR 0x5C \<in> set path \<or> CHR 0x00 \<in> set path)
     \<and> \<not> has_control path
     \<and> list_all (\<lambda>p. p \<noteq> [] \<and> hd p \<noteq> CHR ''.'') (split_on (CHR ''/'') path)"

record asset =
  asset_size :: int
  asset_chunks :: "string list"

type_synonym manifest = "(string \<times> asset) list"

definition valid_asset :: "string \<times> asset \<Rightarrow> bool" where
  "valid_asset = (\<lambda>(path, asset). valid_path path \<and> asset_size asset \<le> SITE_LIMIT
     \<and> int (length (asset_chunks asset)) = (asset_size asset + CHUNK_SIZE - 1) div CHUNK_SIZE
     \<and> list_all valid_hash (asset_chunks asset))"

definition validate_manifest :: "manifest \<Rightarrow> unit result" where
  "validate_manifest manifest =
     (if ''index.html'' \<notin> fst ` set manifest \<or> length manifest > FILE_LIMIT
      then Inl ''Publish a site with index.html and at most 10,000 files''
      else and_then
        (fold_result (\<lambda>entry total.
             if \<not> valid_asset entry then Inl ''Invalid published file manifest''
             else if total + asset_size (snd entry) \<ge> 2 ^ 64 then Inl ''Site too large''
             else Inr (total + asset_size (snd entry))) manifest 0)
        (\<lambda>total. if total > SITE_LIMIT then Inl ''Published site exceeds 256 MiB'' else Inr ()))"

definition resource_bytes :: "codec \<Rightarrow> resource \<Rightarrow> string option" where
  "resource_bytes C r =
     (case base64_decode C (res_bytes r) of
        None \<Rightarrow> None
      | Some bytes \<Rightarrow>
          if res_kind r = ''published_chunk_gzip'' then gunzip C bytes (nat CHUNK_SIZE)
          else Some bytes)"

text \<open>The manifest of a stored text: an object of sizes and chunk lists.\<close>

definition read_asset :: "json \<Rightarrow> asset option" where
  "read_asset v =
     (case (as_object v, as_u64 (json_index v ''size''), as_array (json_index v ''chunks'')) of
        (Some kvs, Some n, Some chunks) \<Rightarrow>
          if list_all (\<lambda>(k, _). k \<in> {''size'', ''chunks''}) kvs \<and> list_all (\<lambda>x. as_str x \<noteq> None) chunks
          then Some \<lparr>asset_size = n, asset_chunks = List.map (\<lambda>x. the (as_str x)) chunks\<rparr>
          else None
      | _ \<Rightarrow> None)"

definition read_manifest :: "codec \<Rightarrow> string \<Rightarrow> manifest option" where
  "read_manifest C text =
     (case parse_json C text of
        Some (JObject kvs) \<Rightarrow>
          if list_all (\<lambda>(_, v). read_asset v \<noteq> None) kvs
          then Some (List.map (\<lambda>(k, v). (k, the (read_asset v))) kvs)
          else None
      | _ \<Rightarrow> None)"

definition starts_with :: "string \<Rightarrow> string \<Rightarrow> bool" where
  "starts_with p s \<longleftrightarrow> take (length p) s = p"

definition str_and :: "json \<Rightarrow> (string \<Rightarrow> bool) \<Rightarrow> bool" where
  \<comment> \<open>\<open>value.as_str().is_some_and(p)\<close>\<close>
  "str_and v P = (case as_str v of None \<Rightarrow> False | Some s \<Rightarrow> P s)"

definition i64_and :: "json \<Rightarrow> (int \<Rightarrow> bool) \<Rightarrow> bool" where
  \<comment> \<open>\<open>value.as_i64().is_some_and(p)\<close>\<close>
  "i64_and v P = (case as_i64 v of None \<Rightarrow> False | Some i \<Rightarrow> P i)"

definition validate_chunk :: "codec \<Rightarrow> revision \<Rightarrow> json \<Rightarrow> unit result" where
  "validate_chunk C revn row =
     (case as_str (json_index row ''hash'') of
        None \<Rightarrow> Inl ''Missing chunk hash''
      | Some hash \<Rightarrow>
          (case fact_resource revn of
             None \<Rightarrow> Inl ''Missing published chunk''
           | Some r \<Rightarrow> ensure
               (valid_hash hash
                \<and> res_kind r \<in> {''published_chunk'', ''published_chunk_gzip''}
                \<and> res_id r = hash \<and> res_digest r = hash
                \<and> (case as_u64 (json_index row ''size'') of
                     None \<Rightarrow> False
                   | Some n \<Rightarrow> n \<noteq> 0 \<and> n \<le> CHUNK_SIZE
                       \<and> (case resource_bytes C r of
                            None \<Rightarrow> False | Some b \<Rightarrow> int (length b) = n)))
               ''Invalid published chunk record''))"

definition validate_page :: "codec \<Rightarrow> revision \<Rightarrow> unit result" where
  "validate_page C revn =
     (let table = fact_table revn in
      if \<not> starts_with ''published_'' table then Inr ()
      else case fact_after revn of
        None \<Rightarrow> Inl ''Published history uses tombstones, not row deletion''
      | Some row \<Rightarrow>
          if table = ''published_page_chunks'' \<and> \<not> str_and (json_index row ''publication'') valid_hash
             \<or> table = ''published_publications'' \<and> \<not> str_and (json_index row ''id'') valid_hash
          then Inl ''Invalid publication identity''
          else if table \<in> {''published_chunks'', ''published_page_chunks''}
          then validate_chunk C revn row
          else if table \<in> {''published_deployments'', ''published_publications''} then
            (case as_str (json_index row ''manifest'') of
               None \<Rightarrow> Inl ''Missing deployment manifest''
             | Some manifest \<Rightarrow>
                 if table = ''published_deployments''
                    \<and> json_index row ''id'' \<noteq> JString (digest C manifest)
                 then Inl ''Invalid deployment identity''
                 else case read_manifest C manifest of
                   None \<Rightarrow> Inl ''JSON''
                 | Some m \<Rightarrow> validate_manifest m)
          else if table = ''published_pages'' then
            and_then (valid_name (case as_str (json_index row ''name'') of None \<Rightarrow> [] | Some s \<Rightarrow> s))
              (\<lambda>_. ensure
                 (str_and (json_index row ''deployment'') valid_hash
                  \<and> i64_and (json_index row ''deleted'') (\<lambda>i. i = 0 \<or> i = 1)
                  \<and> i64_and (json_index row ''updated_at'') (\<lambda>i. 0 \<le> i)
                  \<and> str_and (json_index row ''machine'') (\<lambda>s. length s \<le> 1024)
                  \<and> (case json_get row ''generation'' of
                       None \<Rightarrow> True
                     | Some g \<Rightarrow> str_and g (\<lambda>s. s = [] \<or> valid_hash s)))
                 ''Invalid published page record'')
          else Inl ''Unknown published table'')"

end
