(* ===== verification/Delivery.thy ===== *)
theory Delivery
  imports Prelude
begin

text \<open>
  The interface between the replication log and the tables derived from it. A replica
  receives immutable facts in any order, possibly more than once, and folds each into
  its tables. The contract says which state a \<^emph>\<open>set\<close> of facts stands for; whoever
  provides it may deliver in any order, and whoever relies on it may compare replicas
  by the facts they have seen.
\<close>

section \<open>Replicas that represent the set of facts received\<close>

locale replica =
  fixes init :: 's
    and deliver :: "'f \<Rightarrow> 's \<Rightarrow> 's result"
    and consistent :: "'f set \<Rightarrow> bool"
    and represents :: "'f set \<Rightarrow> 's \<Rightarrow> bool"
    and view :: "'s \<Rightarrow> 'v"
  assumes represents_init: "represents {} init"
    and represents_deliver:
      "consistent (insert f F) \<Longrightarrow> represents F s \<Longrightarrow>
         \<exists>t. deliver f s = Inr t \<and> represents (insert f F) t"
    and represents_view:
      "consistent F \<Longrightarrow> represents F s \<Longrightarrow> represents F t \<Longrightarrow> view s = view t"
    and consistent_subset: "consistent F \<Longrightarrow> G \<subseteq> F \<Longrightarrow> consistent G"
begin

lemma delivered:
  assumes "consistent (set fs \<union> F)" and "represents F s"
  shows "\<exists>t. fold_result deliver fs s = Inr t \<and> represents (set fs \<union> F) t"
  using assms
proof (induction fs arbitrary: s F)
  case Nil
  then show ?case by simp
next
  case (Cons f fs)
  have "consistent (insert f F)"
    using Cons.prems(1) by (rule consistent_subset) auto
  with Cons.prems(2) obtain u where u: "deliver f s = Inr u" "represents (insert f F) u"
    using represents_deliver by blast
  moreover have "consistent (set fs \<union> insert f F)"
    using Cons.prems(1) by simp
  ultimately show ?case
    using Cons.IH [of "insert f F" u] by auto
qed

text \<open>No delivery fails, and the tables a reader sees depend on the set of facts only.\<close>

lemma progress:
  assumes "consistent (set fs)"
  shows "\<exists>t. fold_result deliver fs init = Inr t \<and> represents (set fs) t"
  using delivered [of fs "{}" init] assms represents_init by simp

lemma convergence:
  assumes "consistent (set fs)" and "set fs = set gs"
    and "fold_result deliver fs init = Inr s"
    and "fold_result deliver gs init = Inr t"
  shows "view s = view t"
  using assms progress [of fs] progress [of gs] represents_view [of "set fs" s t] by auto

lemma redelivery:
  assumes "consistent (set fs)" and "fold_result deliver fs init = Inr s"
    and "f \<in> set fs" and "deliver f s = Inr t"
  shows "view t = view s"
proof -
  have "fold_result deliver (fs @ [f]) init = Inr t"
    using assms(2,4) by (auto simp: fold_result_append)
  moreover have "set (fs @ [f]) = set fs" using assms(3) by auto
  ultimately show ?thesis
    using convergence [of "fs @ [f]" fs t s] assms(1,2) by simp
qed

end

section \<open>Replicas whose deliveries commute\<close>

text \<open>
  The strongest contract: deliveries never fail, commute and are idempotent. Every such
  replica is one in the sense above, its state being the fold of the facts.
\<close>

locale commuting_replica =
  fixes start :: 's
    and put :: "'f \<Rightarrow> 's \<Rightarrow> 's"
  assumes put_commute: "put a (put b s) = put b (put a s)"
    and put_idem: "put a (put a s) = put a s"
begin

lemma comp_fun_idem_put: "comp_fun_idem_on UNIV put"
  by unfold_locales (auto simp: fun_eq_iff put_commute put_idem)

lemma fold_set_eq: "set fs = set gs \<Longrightarrow> fold put fs s = fold put gs s"
  by (metis comp_fun_idem_on.fold_set_fold [OF comp_fun_idem_put] subset_UNIV)

lemma put_known: "f \<in> set fs \<Longrightarrow> put f (fold put fs s) = fold put fs s"
  using fold_set_eq [of "fs @ [f]" fs s] by (simp add: insert_absorb)

sublocale replica start "\<lambda>f s. Inr (put f s)" finite
  "\<lambda>F s. \<exists>fs. set fs = F \<and> s = fold put fs start" "\<lambda>s. s"
proof unfold_locales
  show "\<exists>fs. set fs = {} \<and> start = fold put fs start" by simp
next
  fix f F s
  assume "\<exists>fs. set fs = F \<and> s = fold put fs start"
  then obtain fs where "set fs = F" "s = fold put fs start" by blast
  then have "set (fs @ [f]) = insert f F \<and> put f s = fold put (fs @ [f]) start"
    by auto
  then show "\<exists>t. Inr (put f s) = Inr t \<and> (\<exists>fs. set fs = insert f F \<and> t = fold put fs start)"
    by blast
qed (auto intro: fold_set_eq finite_subset)

end

end
