(* ===== verification/Ordering.thy ===== *)
theory Ordering
  imports Revision Delivery
begin

text \<open>
  The replicated issue queue (\<open>src/src/fleet/native/distributed/ordering.rs\<close>). A replica
  stores, per issue, the winning base coordinate (\<open>distributed_fields\<close>, field
  \<open>sort_order\<close>), every queue rotation it has received (\<open>distributed_order_rotations\<close>)
  and the derived position of each issue (\<open>distributed_order_positions\<close>). A new rotation
  shifts the positions in place when it is the latest of its project and rebuilds them
  otherwise. The lemmas show that both ways keep the positions equal to the replay of
  the later rotations over the base, so that replicas agree whatever the delivery order.
\<close>

section \<open>Tables\<close>

record coordinate = \<comment> \<open>a row of \<open>distributed_fields\<close> for an issue's \<open>sort_order\<close>\<close>
  c_project :: string
  c_number :: int
  c_stamp :: stamp
  c_value :: string \<comment> \<open>JSON text\<close>

record rotation = \<comment> \<open>a row of \<open>distributed_order_rotations\<close>\<close>
  r_project :: string
  r_stamp :: stamp
  r_first :: int
  r_last :: int
  r_number :: "int option"

record order_db =
  base_fields :: "coordinate list"
  rotations :: "rotation list"
  positions :: "string \<times> int \<rightharpoonup> stamp \<times> int"
  order_dirty :: "string set"
  order_clock :: int

definition empty_order :: order_db where
  "empty_order = \<lparr>base_fields = [], rotations = [], positions = Map.empty,
     order_dirty = {}, order_clock = 0\<rparr>"

section \<open>Operations\<close>

definition rotate_position :: "int \<Rightarrow> int \<Rightarrow> int \<Rightarrow> int \<Rightarrow> int option \<Rightarrow> int" where
  "rotate_position position number from to moved =
     (if position < min from to \<or> position > max from to then position
      else if (case moved of None \<Rightarrow> position = from | Some m \<Rightarrow> m = number) then to
      else if to < from then position + 1
      else position - 1)"

definition later_rotations :: "order_db \<Rightarrow> string \<Rightarrow> stamp \<Rightarrow> rotation list" where
  "later_rotations db project st =
     sort_key r_stamp (filter (\<lambda>r. r_project r = project \<and> st < r_stamp r) (rotations db))"

definition replay :: "int \<Rightarrow> rotation list \<Rightarrow> int \<Rightarrow> int" where
  "replay number =
     fold (\<lambda>r position. rotate_position position number (r_first r) (r_last r) (r_number r))"

definition base_of :: "order_db \<Rightarrow> string \<times> int \<Rightarrow> coordinate option" where
  "base_of db key = find (\<lambda>c. (c_project c, c_number c) = key) (base_fields db)"

definition seed :: "(string \<Rightarrow> int option) \<Rightarrow> string \<times> int \<Rightarrow> order_db \<Rightarrow> order_db result" where
  "seed parse key db =
     (case base_of db key of
        None \<Rightarrow> Inr db
      | Some c \<Rightarrow>
          (case parse (c_value c) of
             None \<Rightarrow> Inl ''JSON''
           | Some v \<Rightarrow>
               Inr (db\<lparr>positions := (positions db)(key \<mapsto>
                         (c_stamp c, replay (snd key) (later_rotations db (fst key) (c_stamp c)) v)),
                       order_dirty := insert (fst key) (order_dirty db)\<rparr>)))"

text \<open>
  The conditional upsert of a field: a newer revision wins, a reused clock and origin
  falls back to the text of the value. The flag says whether the row was written.
\<close>

definition accept_coordinate :: "coordinate \<Rightarrow> coordinate list \<Rightarrow> coordinate list \<times> bool" where
  "accept_coordinate c rows =
     (case find (\<lambda>b. (c_project b, c_number b) = (c_project c, c_number c)) rows of
        None \<Rightarrow> (rows @ [c], True)
      | Some b \<Rightarrow>
          if (c_stamp b, c_value b) < (c_stamp c, c_value c)
          then (map (\<lambda>b. if (c_project b, c_number b) = (c_project c, c_number c)
                         then c else b) rows, True)
          else (rows, False))"

definition reduce_coordinate ::
    "(string \<Rightarrow> int option) \<Rightarrow> coordinate \<Rightarrow> order_db \<Rightarrow> order_db result" where
  "reduce_coordinate parse c db =
     (let (rows, order_changed) = accept_coordinate c (base_fields db);
          db = db\<lparr>base_fields := rows\<rparr>
      in and_then (if order_changed then seed parse (c_project c, c_number c) db else Inr db)
           (\<lambda>db. Inr (db\<lparr>order_clock := max (order_clock db) (fst (c_stamp c))\<rparr>)))"

text \<open>The in-place shift of one position by the latest rotation (the SQL \<open>CASE\<close>).\<close>

definition shift_row :: "rotation \<Rightarrow> string \<times> int \<Rightarrow> stamp \<times> int \<Rightarrow> stamp \<times> int" where
  "shift_row r key row =
     (let from = r_first r; to = r_last r; (st, position) = row in
      if fst key = r_project r \<and> st < r_stamp r
         \<and> min from to \<le> position \<and> position \<le> max from to
      then (st, if (case r_number r of None \<Rightarrow> position = from | Some m \<Rightarrow> snd key = m) then to
                else if to < from then position + 1
                else position - 1)
      else row)"

definition record_rotation ::
    "(string \<Rightarrow> int option) \<Rightarrow> rotation \<Rightarrow> order_db \<Rightarrow> order_db result" where
  "record_rotation parse r db =
     (case find (\<lambda>s. r_project s = r_project r \<and> r_stamp s = r_stamp r) (rotations db) of
        Some saved \<Rightarrow>
          if (r_first saved, r_last saved, r_number saved) = (r_first r, r_last r, r_number r)
          then Inr db
          else Inl ''A replica reused a queue revision''
      | None \<Rightarrow>
          let late = (\<exists>s \<in> set (rotations db). r_project s = r_project r \<and> r_stamp r < r_stamp s);
              db = db\<lparr>rotations := rotations db @ [r]\<rparr>
          in and_then
               (if late
                then fold_result (seed parse)
                       (map (\<lambda>c. (c_project c, c_number c))
                          (filter (\<lambda>c. c_project c = r_project r) (base_fields db))) db
                else Inr (db\<lparr>positions := (\<lambda>key. map_option (shift_row r key) (positions db key))\<rparr>))
               (\<lambda>db. Inr (db\<lparr>order_dirty := insert (r_project r) (order_dirty db),
                             order_clock := max (order_clock db) (fst (r_stamp r))\<rparr>)))"

text \<open>The checks on a received revision, in the order of the code.\<close>

definition rotation_of :: "revision \<Rightarrow> rotation result" where
  "rotation_of revn =
     (case fact_after revn of
        None \<Rightarrow> Inl ''Missing queue rotation''
      | Some row \<Rightarrow>
          (case as_str (json_index row ''project_id'') of
             None \<Rightarrow> Inl ''Missing queue project''
           | Some project \<Rightarrow>
               if project = [] then Inl ''Missing queue project''
               else
                 (case (as_i64 (json_index row ''from''), as_i64 (json_index row ''to'')) of
                    (Some from, Some to) \<Rightarrow>
                      and_then
                        (case json_get row ''number'' of
                           None \<Rightarrow> Inr None
                         | Some n \<Rightarrow>
                             (case as_i64 n of
                                Some i \<Rightarrow> if i > 0 then Inr (Some i) else Inl ''Invalid moved issue''
                              | None \<Rightarrow> Inl ''Invalid moved issue''))
                        (\<lambda>number.
                           if fact_before revn \<noteq> None \<or> from = to
                              \<or> (case as_object row of
                                   None \<Rightarrow> True
                                 | Some r \<Rightarrow> length r \<noteq> 3 + (if number \<noteq> None then 1 else 0))
                              \<or> fact_clock revn = 0
                           then Inl ''Invalid queue rotation''
                           else Inr \<lparr>r_project = project,
                                  r_stamp = (fact_clock revn, fact_origin revn),
                                  r_first = from, r_last = to, r_number = number\<rparr>)
                  | _ \<Rightarrow> Inl ''Invalid queue position'')))"

definition reduce_order ::
    "(string \<Rightarrow> int option) \<Rightarrow> revision \<Rightarrow> order_db \<Rightarrow> order_db result" where
  "reduce_order parse revn db = and_then (rotation_of revn) (\<lambda>r. record_rotation parse r db)"

definition position_of :: "order_db \<Rightarrow> string \<times> int \<Rightarrow> int option" where
  "position_of db key = map_option snd (positions db key)"


text \<open>
  Writing the derived positions to the \<open>sort_order\<close> of the issues of the projects marked
  dirty.
\<close>

definition apply_order ::
    "order_db \<Rightarrow> (string \<times> int \<rightharpoonup> int) \<Rightarrow> order_db \<times> (string \<times> int \<rightharpoonup> int)" where
  "apply_order db issues =
     (db\<lparr>order_dirty := {}\<rparr>,
      \<lambda>key. case issues key of
         None \<Rightarrow> None
       | Some old \<Rightarrow>
           Some (if fst key \<in> order_dirty db
                 then (case position_of db key of None \<Rightarrow> old | Some p \<Rightarrow> p)
                 else old))"

section \<open>The local move\<close>

text \<open>
  \<open>Operation::Move\<close> of \<open>src/src/issues/store.rs\<close> with the local rotation of
  \<open>src/src/issues/ordering.rs\<close>, on the \<open>(number, sort_order)\<close> columns of a project's
  issues. The issue goes right before or right after an anchor, or last.
  The operation is that of a replica whose queue is there: the refusal of a move while the
  coordinates of the first copy still arrive is left out. Positions are integers, the
  source's are of 64 bits: they differ only for a position next to the largest one.
\<close>

definition rotate_issues :: "int \<Rightarrow> int \<Rightarrow> int \<Rightarrow> (int \<times> int) list \<Rightarrow> (int \<times> int) list" where
  "rotate_issues number from to rows =
     map (\<lambda>(n, position).
       if min from to \<le> position \<and> position \<le> max from to
       then (n, if n = number then to else if to < from then position + 1 else position - 1)
       else (n, position)) rows"

definition get_order :: "(int \<times> int) list \<Rightarrow> int \<Rightarrow> int result" where
  "get_order rows number =
     (case map_of rows number of None \<Rightarrow> Inl ''not_found'' | Some p \<Rightarrow> Inr p)"

definition move_target ::
    "(int \<times> int) list \<Rightarrow> int \<Rightarrow> int option \<Rightarrow> int option \<Rightarrow> int result" where
  "move_target rows old before_of after_of =
     (case before_of of
        Some a \<Rightarrow> and_then (get_order rows a)
                    (\<lambda>anchor. Inr (anchor - (if anchor > old then 1 else 0)))
      | None \<Rightarrow>
          (case after_of of
             Some a \<Rightarrow> and_then (get_order rows a)
                         (\<lambda>anchor. Inr (anchor + (if anchor < old then 1 else 0)))
           | None \<Rightarrow> Inr (foldr max (map snd rows) old)))"

definition move_issue ::
    "(int \<times> int) list \<Rightarrow> int \<Rightarrow> int \<Rightarrow> int option \<Rightarrow> int option \<Rightarrow> int option \<Rightarrow>
       ((int \<times> int) list \<times> int) result" where
  "move_issue rows order_version number before_of after_of if_order_version =
     (if (case if_order_version of None \<Rightarrow> False | Some v \<Rightarrow> v \<noteq> order_version)
      then Inl ''conflict''
      else and_then (get_order rows number) (\<lambda>old.
             and_then (move_target rows old before_of after_of) (\<lambda>target.
               if old \<noteq> target
               then Inr (rotate_issues number old target rows, order_version + 1)
               else Inr (rows, order_version))))"

text \<open>
  The fact that the move leaves in the outbox for the other replicas: the interval and
  the identity of the moved issue, under the incremented clock.
\<close>

definition capture_rotation :: "string \<Rightarrow> int \<Rightarrow> int \<Rightarrow> int \<Rightarrow> int \<Rightarrow> string \<Rightarrow> revision" where
  "capture_rotation project number from to clock origin =
     \<lparr>fact_protocol = PROTOCOL, fact_origin = origin, fact_clock = clock + 1,
      fact_table = ''issue_order'', fact_before = None,
      fact_after = Some (JObject [(''project_id'', JString project), (''from'', JInt from),
                                  (''to'', JInt to), (''number'', JInt number)]),
      fact_resource = None\<rparr>"

section \<open>The positions are the replay of the later rotations\<close>

abbreviation ckey :: "coordinate \<Rightarrow> string \<times> int" where
  "ckey c \<equiv> (c_project c, c_number c)"

abbreviation rkey :: "rotation \<Rightarrow> string \<times> stamp" where
  "rkey r \<equiv> (r_project r, r_stamp r)"

definition expected :: "(string \<Rightarrow> int option) \<Rightarrow> order_db \<Rightarrow> string \<times> int \<Rightarrow> (stamp \<times> int) option" where
  "expected parse db key =
     (case base_of db key of
        None \<Rightarrow> None
      | Some c \<Rightarrow>
          map_option (\<lambda>v. (c_stamp c, replay (snd key) (later_rotations db (fst key) (c_stamp c)) v))
            (parse (c_value c)))"

definition order_inv :: "(string \<Rightarrow> int option) \<Rightarrow> order_db \<Rightarrow> bool" where
  "order_inv parse db \<longleftrightarrow>
     distinct (map rkey (rotations db)) \<and>
     (\<forall>c \<in> set (base_fields db). parse (c_value c) \<noteq> None) \<and>
     (\<forall>key. positions db key = expected parse db key)"

lemma base_of_Some: "base_of db key = Some c \<Longrightarrow> c \<in> set (base_fields db) \<and> ckey c = key"
  unfolding base_of_def by (drule find_SomeD) simp

lemma base_of_None: "base_of db key = None \<longleftrightarrow> key \<notin> ckey ` set (base_fields db)"
  by (auto simp: base_of_def find_None_iff)

lemma base_of_cong: "base_fields db = base_fields db' \<Longrightarrow> base_of db = base_of db'"
  by (simp add: base_of_def fun_eq_iff)

lemma later_rotations_cong: "rotations db = rotations db' \<Longrightarrow> later_rotations db = later_rotations db'"
  by (simp add: later_rotations_def fun_eq_iff)

lemma expected_cong:
  "base_fields db = base_fields db' \<Longrightarrow> rotations db = rotations db' \<Longrightarrow>
     expected parse db = expected parse db'"
proof -
  assume "base_fields db = base_fields db'" and "rotations db = rotations db'"
  note cong = base_of_cong [OF this(1)] later_rotations_cong [OF this(2)]
  show ?thesis unfolding expected_def cong by (rule refl)
qed

lemma replay_append [simp]: "replay n (rs @ [r]) v =
   rotate_position (replay n rs v) n (r_first r) (r_last r) (r_number r)"
  by (simp add: replay_def)

lemma sort_key_snoc:
  assumes "\<forall>y \<in> set xs. k y < k x"
  shows "sort_key k (xs @ [x]) = sort_key k xs @ [x]"
proof -
  have "insort_key k a (ys @ [x]) = insort_key k a ys @ [x]" if "k a < k x" for a ys
    using that by (induction ys) auto
  with assms have "foldr (insort_key k) xs [x] = foldr (insort_key k) xs [] @ [x]"
    by (induction xs) auto
  then show ?thesis by (simp add: sort_key_def)
qed

lemma later_rotations_snoc:
  assumes "\<forall>s \<in> set (rotations db). r_project s = r_project r \<longrightarrow> r_stamp s < r_stamp r"
  shows "later_rotations (db\<lparr>rotations := rotations db @ [r]\<rparr>) p st =
     later_rotations db p st @ (if r_project r = p \<and> st < r_stamp r then [r] else [])"
  using assms by (auto simp: later_rotations_def intro!: sort_key_snoc)

lemma later_rotations_other:
  "r_project r \<noteq> p \<Longrightarrow>
     later_rotations (db\<lparr>rotations := rotations db @ [r]\<rparr>) p st = later_rotations db p st"
  by (simp add: later_rotations_def)

lemma shift_row_rotate:
  "shift_row r key (st, position) =
     (st, if fst key = r_project r \<and> st < r_stamp r
          then rotate_position position (snd key) (r_first r) (r_last r) (r_number r)
          else position)"
  by (auto simp: shift_row_def rotate_position_def Let_def split: option.splits)

lemma expected_snoc:
  assumes "\<forall>s \<in> set (rotations db). r_project s = r_project r \<longrightarrow> r_stamp s < r_stamp r"
  shows "expected parse (db\<lparr>rotations := rotations db @ [r]\<rparr>) key =
     map_option (shift_row r key) (expected parse db key)"
  using assms
  by (auto simp: expected_def later_rotations_snoc shift_row_rotate base_of_def
      option.map_comp o_def split: option.splits)

section \<open>Seeding\<close>

text \<open>What a successful seed of some keys does: nothing but fill those positions in.\<close>

definition seeded :: "(string \<Rightarrow> int option) \<Rightarrow> (string \<times> int) set \<Rightarrow> order_db \<Rightarrow> order_db \<Rightarrow> bool" where
  "seeded parse K db t \<longleftrightarrow>
     base_fields t = base_fields db \<and> rotations t = rotations db \<and>
     order_clock t = order_clock db \<and>
     positions t = (\<lambda>k. if k \<in> K \<and> base_of db k \<noteq> None then expected parse db k
                        else positions db k)"

lemma seeded_trans:
  assumes "seeded parse K db t" and "seeded parse L t u"
  shows "seeded parse (K \<union> L) db u"
proof -
  from assms(1) have "base_fields t = base_fields db" "rotations t = rotations db"
    by (simp_all add: seeded_def)
  with assms expected_cong [OF this, of parse] base_of_cong [OF this(1)]
  show ?thesis by (auto simp: seeded_def)
qed

lemma seed_ok:
  assumes "\<forall>c \<in> set (base_fields db). parse (c_value c) \<noteq> None"
  shows "\<exists>t. seed parse key db = Inr t \<and> seeded parse {key} db t"
proof (cases "base_of db key")
  case None
  then have "positions db = (\<lambda>k. if k \<in> {key} \<and> base_of db k \<noteq> None then expected parse db k
      else positions db k)"
    by (intro ext) auto
  with None show ?thesis by (simp add: seed_def seeded_def)
next
  case (Some c)
  with assms base_of_Some [OF Some] obtain v where v: "parse (c_value c) = Some v" by blast
  with Some have "expected parse db key =
      Some (c_stamp c, replay (snd key) (later_rotations db (fst key) (c_stamp c)) v)"
    by (simp add: expected_def)
  with Some v show ?thesis by (simp add: seed_def seeded_def fun_eq_iff)
qed

lemma seed_all_ok:
  assumes "\<forall>c \<in> set (base_fields db). parse (c_value c) \<noteq> None"
  shows "\<exists>t. fold_result (seed parse) keys db = Inr t \<and> seeded parse (set keys) db t"
  using assms
proof (induction keys arbitrary: db)
  case Nil
  then show ?case by (simp add: seeded_def)
next
  case (Cons key keys)
  obtain t where t: "seed parse key db = Inr t" "seeded parse {key} db t"
    using seed_ok [where key = key, OF Cons.prems] by blast
  then have "base_fields t = base_fields db" by (simp add: seeded_def)
  with Cons obtain u where u: "fold_result (seed parse) keys t = Inr u" "seeded parse (set keys) t u"
    by metis
  from seeded_trans [OF t(2) u(2)] t(1) u(1) show ?case by auto
qed

section \<open>Recording a rotation\<close>

lemma positions_eq_expected: "order_inv parse db \<Longrightarrow> positions db = expected parse db"
  by (auto simp: order_inv_def)

lemma expected_other_project:
  "fst key \<noteq> r_project r \<Longrightarrow>
     expected parse (db\<lparr>rotations := rotations db @ [r]\<rparr>) key = expected parse db key"
  by (simp add: expected_def base_of_def later_rotations_other [of r "fst key"] cong: option.case_cong)

lemma find_rotation_None:
  "find (\<lambda>s. r_project s = r_project r \<and> r_stamp s = r_stamp r) rs = None \<longleftrightarrow> rkey r \<notin> rkey ` set rs"
  by (auto simp: find_None_iff image_iff)

lemma expected_clock [simp]:
  "expected parse (db\<lparr>order_dirty := d, order_clock := c\<rparr>) = expected parse db"
  "expected parse (db\<lparr>positions := p\<rparr>) = expected parse db"
  "expected parse (db\<lparr>order_clock := c\<rparr>) = expected parse db"
  "expected parse (db\<lparr>order_dirty := d\<rparr>) = expected parse db"
  by (rule expected_cong; simp)+

lemma expected_appended_late:
  assumes exact: "positions db = expected parse db"
    and s: "seeded parse (ckey ` {c \<in> set (base_fields db). c_project c = r_project r}) db' t"
    and db': "db' = db\<lparr>rotations := rotations db @ [r]\<rparr>"
  shows "positions t = expected parse t"
proof (rule ext)
  fix key
  have t: "expected parse t = expected parse db'"
    using s by (intro expected_cong) (simp_all add: seeded_def)
  have base: "base_of db' = base_of db" by (rule base_of_cong) (simp add: db')
  have old: "positions db key = expected parse db key"
    by (simp add: exact)
  show "positions t key = expected parse t key"
  proof (cases "base_of db key")
    case None
    then have "expected parse db' key = None" "expected parse db key = None"
      by (simp_all add: expected_def base)
    with s old t None show ?thesis by (simp add: seeded_def base db')
  next
    case (Some c)
    then have c: "c \<in> set (base_fields db)" "ckey c = key" by (auto dest: base_of_Some)
    show ?thesis
    proof (cases "fst key = r_project r")
      case True
      with c have "key \<in> ckey ` {c \<in> set (base_fields db). c_project c = r_project r}" by auto
      with s t Some show ?thesis by (simp add: seeded_def base)
    next
      case False
      with c have "key \<notin> ckey ` {c \<in> set (base_fields db). c_project c = r_project r}" by auto
      with s have "positions t key = positions db key" by (auto simp: seeded_def db')
      also have "\<dots> = expected parse db' key"
        unfolding db' using False old by (simp add: expected_other_project)
      finally show ?thesis by (simp add: t)
    qed
  qed
qed

lemma record_rotation_new:
  assumes inv: "order_inv parse db" and new: "rkey r \<notin> rkey ` set (rotations db)"
  shows "\<exists>t. record_rotation parse r db = Inr t \<and> order_inv parse t \<and>
     base_fields t = base_fields db \<and> rotations t = rotations db @ [r]"
proof -
  define db' where "db' = db\<lparr>rotations := rotations db @ [r]\<rparr>"
  define keys where "keys = map ckey (filter (\<lambda>c. c_project c = r_project r) (base_fields db))"
  define late where
    "late \<longleftrightarrow> (\<exists>s \<in> set (rotations db). r_project s = r_project r \<and> r_stamp r < r_stamp s)"
  have "\<forall>c \<in> set (base_fields db'). parse (c_value c) \<noteq> None"
    using inv by (simp add: order_inv_def db'_def)
  then obtain t where t: "fold_result (seed parse) keys db' = Inr t" "seeded parse (set keys) db' t"
    using seed_all_ok by blast
  define u where "u = (if late then t
      else db'\<lparr>positions := (\<lambda>key. map_option (shift_row r key) (positions db key))\<rparr>)"
  from new have new': "find (\<lambda>s. r_project s = r_project r \<and> r_stamp s = r_stamp r) (rotations db) = None"
    by (simp add: find_rotation_None)
  have rec: "record_rotation parse r db =
      Inr (u\<lparr>order_dirty := insert (r_project r) (order_dirty u),
             order_clock := max (order_clock u) (fst (r_stamp r))\<rparr>)"
    using t(1) by (auto simp: record_rotation_def new' u_def db'_def keys_def late_def Let_def)
  have u: "base_fields u = base_fields db" "rotations u = rotations db @ [r]"
    using t(2) by (simp_all add: u_def seeded_def db'_def)
  have "positions u = expected parse u"
  proof (cases late)
    case True
    then show ?thesis
      using expected_appended_late [OF positions_eq_expected [OF inv] _ db'_def, of t] t(2) by (simp add: u_def keys_def)
  next
    case False
    have "r_stamp s < r_stamp r" if "s \<in> set (rotations db)" "r_project s = r_project r" for s
    proof -
      from new that have "r_stamp s \<noteq> r_stamp r" by (auto simp: image_iff)
      with False that show ?thesis by (auto simp: late_def)
    qed
    then have "expected parse db' key = map_option (shift_row r key) (expected parse db key)" for key
      unfolding db'_def by (intro expected_snoc) simp
    then show ?thesis
      using positions_eq_expected [OF inv] False by (simp add: u_def fun_eq_iff)
  qed
  with inv new u have "order_inv parse (u\<lparr>order_dirty := insert (r_project r) (order_dirty u),
      order_clock := max (order_clock u) (fst (r_stamp r))\<rparr>)"
    by (auto simp: order_inv_def)
  with rec u show ?thesis by simp
qed

lemma record_rotation_ok:
  assumes inv: "order_inv parse db"
    and unique: "\<And>s. s \<in> set (rotations db) \<Longrightarrow> rkey s = rkey r \<Longrightarrow> s = r"
  shows "\<exists>t. record_rotation parse r db = Inr t \<and> order_inv parse t \<and>
     base_fields t = base_fields db \<and> set (rotations t) = insert r (set (rotations db))"
proof (cases "find (\<lambda>s. r_project s = r_project r \<and> r_stamp s = r_stamp r) (rotations db)")
  case None
  then show ?thesis
    using record_rotation_new [OF inv, of r] by (auto simp: find_rotation_None)
next
  case (Some s)
  then have "s \<in> set (rotations db)" "rkey s = rkey r" by (auto dest: find_SomeD)
  with unique have "s = r" by blast
  with Some \<open>s \<in> set (rotations db)\<close> inv show ?thesis
    by (auto simp: record_rotation_def)
qed

text \<open>
  Without any assumption on the values: whenever a rotation is recorded at all, the
  positions stay the replay of the later rotations.
\<close>

definition order_exact :: "(string \<Rightarrow> int option) \<Rightarrow> order_db \<Rightarrow> bool" where
  "order_exact parse db \<longleftrightarrow>
     distinct (map rkey (rotations db)) \<and> positions db = expected parse db"

lemma seed_done:
  assumes "seed parse key db = Inr t"
  shows "seeded parse {key} db t"
  using assms by (auto simp: seed_def seeded_def expected_def fun_eq_iff split: option.splits)

lemma seed_all_done:
  "fold_result (seed parse) keys db = Inr t \<Longrightarrow> seeded parse (set keys) db t"
proof (induction keys arbitrary: db)
  case Nil
  then show ?case by (simp add: seeded_def)
next
  case (Cons key keys)
  then obtain u where u: "seed parse key db = Inr u" "fold_result (seed parse) keys u = Inr t" by auto
  from seeded_trans [OF seed_done [OF u(1)] Cons.IH [OF u(2)]] show ?case by simp
qed

lemma record_rotation_latest:
  assumes "\<not> (\<exists>s \<in> set (rotations db). r_project s = r_project r \<and> r_stamp r < r_stamp s)"
    and "rkey r \<notin> rkey ` set (rotations db)"
  shows "expected parse (db\<lparr>rotations := rotations db @ [r]\<rparr>) =
     (\<lambda>key. map_option (shift_row r key) (expected parse db key))"
proof -
  have "r_stamp s < r_stamp r" if "s \<in> set (rotations db)" "r_project s = r_project r" for s
  proof -
    from assms(2) that have "r_stamp s \<noteq> r_stamp r" by (auto simp: image_iff)
    with assms(1) that show ?thesis by auto
  qed
  then show ?thesis by (intro ext expected_snoc) simp
qed

lemma record_rotation_exact:
  assumes ex: "order_exact parse db" and run: "record_rotation parse r db = Inr t"
  shows "order_exact parse t \<and> base_fields t = base_fields db \<and>
     set (rotations t) = insert r (set (rotations db))"
proof (cases "find (\<lambda>s. r_project s = r_project r \<and> r_stamp s = r_stamp r) (rotations db)")
  case (Some s)
  with run have "t = db" "s = r" "s \<in> set (rotations db)"
    by (auto simp: record_rotation_def dest: find_SomeD split: if_splits)
  with ex show ?thesis by auto
next
  case None
  define db' where "db' = db\<lparr>rotations := rotations db @ [r]\<rparr>"
  define late where
    "late \<longleftrightarrow> (\<exists>s \<in> set (rotations db). r_project s = r_project r \<and> r_stamp r < r_stamp s)"
  have new: "rkey r \<notin> rkey ` set (rotations db)" using None by (simp add: find_rotation_None)
  have pos: "positions db = expected parse db" and d: "distinct (map rkey (rotations db))"
    using ex by (simp_all add: order_exact_def)
  define keys where "keys = map ckey (filter (\<lambda>c. c_project c = r_project r) (base_fields db))"
  obtain u where t: "t = u\<lparr>order_dirty := insert (r_project r) (order_dirty u),
             order_clock := max (order_clock u) (fst (r_stamp r))\<rparr>"
    and u: "(if late then fold_result (seed parse) keys db'
       else Inr (db'\<lparr>positions := (\<lambda>key. map_option (shift_row r key) (positions db key))\<rparr>)) = Inr u"
  proof -
    have "and_then (if late then fold_result (seed parse) keys db'
        else Inr (db'\<lparr>positions := (\<lambda>key. map_option (shift_row r key) (positions db key))\<rparr>))
      (\<lambda>u. Inr (u\<lparr>order_dirty := insert (r_project r) (order_dirty u),
             order_clock := max (order_clock u) (fst (r_stamp r))\<rparr>)) = Inr t"
      using run by (auto simp: record_rotation_def None db'_def keys_def late_def Let_def split: if_splits)
    then show ?thesis by (auto intro: that)
  qed
  have same: "base_fields u = base_fields db \<and> rotations u = rotations db @ [r]"
    using u by (auto simp: seeded_def db'_def dest!: seed_all_done split: if_splits)
  have "positions u = expected parse u"
  proof (cases late)
    case True
    then show ?thesis
      using expected_appended_late [OF pos _ db'_def, of u] seed_all_done [of parse keys db' u] u
      by (simp add: keys_def)
  next
    case False
    with u have "u = db'\<lparr>positions := (\<lambda>key. map_option (shift_row r key) (positions db key))\<rparr>"
      by simp
    moreover from False new have "expected parse db' = (\<lambda>key. map_option (shift_row r key) (expected parse db key))"
      unfolding db'_def late_def by (rule record_rotation_latest)
    ultimately show ?thesis by (simp add: pos)
  qed
  with same new d show ?thesis by (auto simp: order_exact_def t)
qed

lemma expected_unique:
  assumes "base_of s = base_of t" and "set (rotations s) = set (rotations t)"
    and "distinct (map rkey (rotations s))" and "distinct (map rkey (rotations t))"
  shows "expected parse s = expected parse t"
proof -
  have "later_rotations s p st = later_rotations t p st" for p st
    unfolding later_rotations_def
  proof (rule sort_key_set_unique)
    show "inj_on r_stamp (set (filter (\<lambda>r. r_project r = p \<and> st < r_stamp r) (rotations s)))"
      using assms(3) by (auto simp: distinct_map inj_on_def)
  qed (use assms in \<open>auto simp: distinct_map intro: distinct_filter\<close>)
  then show ?thesis unfolding expected_def assms(1) by presburger
qed

lemma order_exact_unique:
  assumes "order_exact parse s" and "order_exact parse t"
    and "base_of s = base_of t" and "set (rotations s) = set (rotations t)"
  shows "positions s = positions t"
  using assms expected_unique [OF assms(3,4), of parse] by (simp add: order_exact_def)

section \<open>Recording a base coordinate\<close>

abbreviation cvalue :: "coordinate \<Rightarrow> stamp \<times> string" where
  "cvalue c \<equiv> (c_stamp c, c_value c)"


text \<open>The upsert keeps, per issue, the greatest row offered, and tells whether it wrote.\<close>

definition greater_coordinate :: "coordinate \<Rightarrow> coordinate option \<Rightarrow> coordinate" where
  "greater_coordinate c old =
     (case old of None \<Rightarrow> c | Some b \<Rightarrow> if cvalue b < cvalue c then c else b)"

lemma find_append_row:
  "find P (xs @ [c]) = (case find P xs of None \<Rightarrow> if P c then Some c else None | Some b \<Rightarrow> Some b)"
  by (induction xs) auto

lemma find_replace_row:
  "find (\<lambda>b. ckey b = key) (map (\<lambda>b. if ckey b = ckey c then c else b) xs) =
     (if key = ckey c then map_option (\<lambda>_. c) (find (\<lambda>b. ckey b = key) xs)
      else find (\<lambda>b. ckey b = key) xs)"
  by (induction xs) auto

lemma accept_coordinate_find:
  assumes "accept_coordinate c rows = (rows', w)"
  shows "find (\<lambda>b. ckey b = key) rows' =
     (if key = ckey c then Some (greater_coordinate c (find (\<lambda>b. ckey b = key) rows))
      else find (\<lambda>b. ckey b = key) rows)"
proof (cases "find (\<lambda>b. ckey b = ckey c) rows")
  case None
  with assms have "rows' = rows @ [c]" by (simp add: accept_coordinate_def)
  with None show ?thesis
    by (auto simp: find_append_row greater_coordinate_def split: option.splits)
next
  case (Some b)
  show ?thesis
  proof (cases "cvalue b < cvalue c")
    case True
    with assms Some have "rows' = map (\<lambda>b. if ckey b = ckey c then c else b) rows"
      by (simp add: accept_coordinate_def)
    then show ?thesis using Some True by (simp only: find_replace_row) (simp add: greater_coordinate_def)
  next
    case False
    with assms Some have "rows' = rows" by (auto simp: accept_coordinate_def)
    with Some False show ?thesis by (auto simp: greater_coordinate_def)
  qed
qed

lemma accept_coordinate_rows:
  assumes "accept_coordinate c rows = (rows', w)"
  shows "set rows' \<subseteq> insert c (set rows)" and "\<not> w \<Longrightarrow> rows' = rows"
  using assms by (auto simp: accept_coordinate_def split: option.splits if_splits)

lemma reduce_coordinate_ok:
  assumes inv: "order_inv parse db" and c: "parse (c_value c) \<noteq> None"
  shows "\<exists>t. reduce_coordinate parse c db = Inr t \<and> order_inv parse t \<and>
     rotations t = rotations db \<and>
     base_of t = (base_of db)(ckey c \<mapsto> greater_coordinate c (base_of db (ckey c)))"
proof -
  obtain rows w where acc: "accept_coordinate c (base_fields db) = (rows, w)" by force
  define db' where "db' = db\<lparr>base_fields := rows\<rparr>"
  have base: "base_of db' = (base_of db)(ckey c \<mapsto> greater_coordinate c (base_of db (ckey c)))"
    using accept_coordinate_find [OF acc] by (simp add: base_of_def db'_def fun_eq_iff)
  have ok: "\<forall>c \<in> set (base_fields db'). parse (c_value c) \<noteq> None"
    using inv c accept_coordinate_rows(1) [OF acc] by (auto simp: order_inv_def db'_def)
  obtain t where t: "seed parse (ckey c) db' = Inr t" "seeded parse {ckey c} db' t"
    using seed_ok [OF ok] by blast
  define u where "u = (if w then t else db')"
  have run: "reduce_coordinate parse c db =
      Inr (u\<lparr>order_clock := max (order_clock u) (fst (c_stamp c))\<rparr>)"
    using t(1) by (simp add: reduce_coordinate_def acc u_def db'_def)
  have u: "base_fields u = rows" "rotations u = rotations db"
    using t(2) by (simp_all add: u_def seeded_def db'_def)
  have exp: "expected parse u = expected parse db'"
    by (rule expected_cong) (simp_all add: u db'_def)
  have other: "expected parse db' key = positions db key" if "key \<noteq> ckey c" for key
  proof -
    have "base_of db' key = base_of db key" using that base by simp
    moreover have "later_rotations db' = later_rotations db"
      by (rule later_rotations_cong) (simp add: db'_def)
    ultimately have "expected parse db' key = expected parse db key"
      unfolding expected_def by presburger
    then show ?thesis using positions_eq_expected [OF inv] by simp
  qed
  have "positions u key = expected parse u key" for key
  proof (cases w)
    case True
    with t(2) base show ?thesis
      unfolding exp by (cases "key = ckey c") (auto simp: u_def seeded_def db'_def other [unfolded db'_def])
  next
    case False
    then have "db' = db" using accept_coordinate_rows(2) [OF acc] by (simp add: db'_def)
    with False show ?thesis using positions_eq_expected [OF inv] by (simp add: u_def)
  qed
  with inv ok u have "order_inv parse (u\<lparr>order_clock := max (order_clock u) (fst (c_stamp c))\<rparr>)"
    by (simp add: order_inv_def db'_def)
  moreover have "base_of u = base_of db'" by (rule base_of_cong) (simp add: u db'_def)
  ultimately show ?thesis
    using run u base base_of_cong [of "u\<lparr>order_clock := max (order_clock u) (fst (c_stamp c))\<rparr>" u]
    by simp
qed

section \<open>Convergence\<close>

text \<open>
  The two kinds of facts that move the queue, and the delivery of one. Facts are
  consistent when no replica reuses a revision for two rotations and every coordinate
  holds a number.
\<close>

datatype order_fact = Coordinate coordinate | Rotation rotation

fun deliver_order :: "(string \<Rightarrow> int option) \<Rightarrow> order_fact \<Rightarrow> order_db \<Rightarrow> order_db result" where
  "deliver_order parse (Coordinate c) db = reduce_coordinate parse c db"
| "deliver_order parse (Rotation r) db = record_rotation parse r db"

definition order_consistent :: "(string \<Rightarrow> int option) \<Rightarrow> order_fact set \<Rightarrow> bool" where
  "order_consistent parse F \<longleftrightarrow>
     (\<forall>r s. Rotation r \<in> F \<longrightarrow> Rotation s \<in> F \<longrightarrow> rkey r = rkey s \<longrightarrow> r = s) \<and>
     (\<forall>c. Coordinate c \<in> F \<longrightarrow> parse (c_value c) \<noteq> None)"

definition greatest_coordinate :: "order_fact set \<Rightarrow> string \<times> int \<Rightarrow> coordinate option \<Rightarrow> bool" where
  "greatest_coordinate F key b =
     (case b of
        None \<Rightarrow> \<forall>c. Coordinate c \<in> F \<longrightarrow> ckey c \<noteq> key
      | Some b \<Rightarrow> Coordinate b \<in> F \<and> ckey b = key \<and>
          (\<forall>c. Coordinate c \<in> F \<longrightarrow> ckey c = key \<longrightarrow> cvalue c \<le> cvalue b))"

definition order_represents ::
    "(string \<Rightarrow> int option) \<Rightarrow> order_fact set \<Rightarrow> order_db \<Rightarrow> bool" where
  "order_represents parse F db \<longleftrightarrow>
     order_inv parse db \<and> set (rotations db) = {r. Rotation r \<in> F} \<and>
     (\<forall>key. greatest_coordinate F key (base_of db key))"

lemma greatest_coordinate_unique:
  assumes "greatest_coordinate F key a" and "greatest_coordinate F key b"
  shows "a = b"
proof (cases a)
  case None
  then show ?thesis using assms by (auto simp: greatest_coordinate_def split: option.splits)
next
  case (Some c)
  with assms obtain d where d: "b = Some d" by (cases b) (auto simp: greatest_coordinate_def)
  with Some assms have "ckey c = ckey d" "cvalue c \<le> cvalue d" "cvalue d \<le> cvalue c"
    by (auto simp: greatest_coordinate_def)
  then have "c = d" by (intro coordinate.equality) auto
  with Some d show ?thesis by simp
qed

lemma greatest_coordinate_insert:
  assumes "greatest_coordinate F key b"
  shows "greatest_coordinate (insert (Coordinate c) F) key
     (if key = ckey c then Some (greater_coordinate c b) else b)"
  using assms
  by (cases b) (auto simp: greatest_coordinate_def greater_coordinate_def not_less)

lemma greatest_coordinate_rotation:
  "greatest_coordinate (insert (Rotation r) F) key b = greatest_coordinate F key b"
  by (cases b) (auto simp: greatest_coordinate_def)

lemma order_represents_deliver:
  assumes cons: "order_consistent parse (insert f F)" and rep: "order_represents parse F db"
  shows "\<exists>t. deliver_order parse f db = Inr t \<and> order_represents parse (insert f F) t"
proof (cases f)
  case (Coordinate c)
  with cons have "parse (c_value c) \<noteq> None" by (simp add: order_consistent_def)
  with rep obtain t where t: "reduce_coordinate parse c db = Inr t" "order_inv parse t"
      "rotations t = rotations db"
      "base_of t = (base_of db)(ckey c \<mapsto> greater_coordinate c (base_of db (ckey c)))"
    using reduce_coordinate_ok unfolding order_represents_def by blast
  have "greatest_coordinate F key (base_of db key)" for key
    using rep unfolding order_represents_def by blast
  note new = greatest_coordinate_insert [OF this, where c = c]
  have "greatest_coordinate (insert f F) key (base_of t key)" for key
    using new [of key] by (cases "key = ckey c") (simp_all add: Coordinate t(4))
  moreover have "set (rotations t) = {r. Rotation r \<in> insert f F}"
    using rep t(3) by (simp add: Coordinate order_represents_def)
  ultimately have "order_represents parse (insert f F) t"
    unfolding order_represents_def using t(2) by blast
  with t(1) show ?thesis by (simp add: Coordinate)
next
  case (Rotation r)
  have "s = r" if "s \<in> set (rotations db)" "rkey s = rkey r" for s
    using that cons rep by (auto simp: Rotation order_consistent_def order_represents_def)
  with rep obtain t where t: "record_rotation parse r db = Inr t" "order_inv parse t"
      "base_fields t = base_fields db" "set (rotations t) = insert r (set (rotations db))"
    using record_rotation_ok unfolding order_represents_def by blast
  moreover have "base_of t = base_of db" using t(3) by (rule base_of_cong)
  ultimately show ?thesis
    using rep by (auto simp: Rotation order_represents_def greatest_coordinate_rotation)
qed

lemma order_represents_view:
  assumes "order_represents parse F s" and "order_represents parse F t"
  shows "positions s = positions t"
proof -
  have base: "base_of s = base_of t"
  proof (rule ext)
    fix key
    from assms have "greatest_coordinate F key (base_of s key)" "greatest_coordinate F key (base_of t key)"
      unfolding order_represents_def by blast+
    then show "base_of s key = base_of t key" by (rule greatest_coordinate_unique)
  qed
  have rot: "set (rotations s) = set (rotations t)" "distinct (map rkey (rotations s))"
      "distinct (map rkey (rotations t))"
    using assms by (auto simp: order_represents_def order_inv_def)
  have "expected parse s = expected parse t"
    using base rot assms by (intro expected_unique) (auto simp: fun_eq_iff)
  moreover from assms have "order_inv parse s" "order_inv parse t"
    by (simp_all add: order_represents_def)
  ultimately show ?thesis using positions_eq_expected by metis
qed

text \<open>The model of the code provides the delivery contract.\<close>

interpretation order_replica: replica empty_order "deliver_order parse" "order_consistent parse"
    "order_represents parse" positions for parse
proof unfold_locales
  show "order_represents parse {} empty_order"
    by (auto simp: order_represents_def order_inv_def empty_order_def expected_def base_of_def
        greatest_coordinate_def)
next
  fix f F s
  assume "order_consistent parse (insert f F)" "order_represents parse F s"
  then show "\<exists>t. deliver_order parse f s = Inr t \<and> order_represents parse (insert f F) t"
    by (rule order_represents_deliver)
next
  fix F s t
  assume "order_represents parse F s" "order_represents parse F t"
  then show "positions s = positions t" by (rule order_represents_view)
next
  fix F G
  assume "order_consistent parse F" "G \<subseteq> F"
  then show "order_consistent parse G" unfolding order_consistent_def by blast
qed

section \<open>The move keeps the queue a queue\<close>

lemma rotate_issues_eq:
  "rotate_issues n f t rows = map (\<lambda>(m, p). (m, rotate_position p m f t (Some n))) rows"
  by (auto simp: rotate_issues_def rotate_position_def)

lemma rotate_issues_numbers [simp]: "map fst (rotate_issues n f t rows) = map fst rows"
  by (induction rows) (auto simp: rotate_issues_eq)

lemma rotate_issues_lookup:
  "map_of (rotate_issues n f t rows) m =
     map_option (\<lambda>p. rotate_position p m f t (Some n)) (map_of rows m)"
  by (induction rows) (auto simp: rotate_issues_eq)

lemma rotate_position_less:
  assumes "m \<noteq> n" and "k \<noteq> n" and "p \<noteq> f" and "q \<noteq> f" and "p < q"
  shows "rotate_position p m f t (Some n) < rotate_position q k f t (Some n)"
  using assms by (auto simp: rotate_position_def)

lemma rotate_position_less_iff:
  assumes "m \<noteq> n" and "k \<noteq> n" and "p \<noteq> f" and "q \<noteq> f"
  shows "rotate_position p m f t (Some n) < rotate_position q k f t (Some n) \<longleftrightarrow> p < q"
  using rotate_position_less [OF assms] rotate_position_less [of k n m q f p t] assms
  by (cases p q rule: linorder_cases) (auto simp: rotate_position_def)

lemma rotate_position_moved: "rotate_position f n f t (Some n) = t"
  by (auto simp: rotate_position_def)

lemma rotate_position_free:
  "m \<noteq> n \<Longrightarrow> p \<noteq> f \<Longrightarrow> f \<noteq> t \<Longrightarrow> rotate_position p m f t (Some n) \<noteq> t"
  by (auto simp: rotate_position_def)

lemma distinct_positions_iff:
  assumes "distinct (map fst rows)"
  shows "distinct (map snd rows) \<longleftrightarrow>
    (\<forall>a b p. map_of rows a = Some p \<longrightarrow> map_of rows b = Some p \<longrightarrow> a = b)"
proof -
  have "distinct rows" using assms by (simp add: distinct_map)
  then have "distinct (map snd rows) \<longleftrightarrow> inj_on snd (set rows)" by (simp add: distinct_map)
  also have "\<dots> \<longleftrightarrow> (\<forall>a b p. (a, p) \<in> set rows \<longrightarrow> (b, p) \<in> set rows \<longrightarrow> a = b)"
    by (force simp: inj_on_def)
  finally show ?thesis using assms by simp
qed

lemma rotate_issues_distinct:
  assumes "distinct (map fst rows)" and "distinct (map snd rows)"
    and "map_of rows n = Some f" and "f \<noteq> t"
  shows "distinct (map snd (rotate_issues n f t rows))"
proof -
  have unique: "a = b" if "map_of rows a = Some p" "map_of rows b = Some p" for a b p
    using that assms(1,2) distinct_positions_iff by blast
  have "a = b" if "map_of (rotate_issues n f t rows) a = Some p"
      "map_of (rotate_issues n f t rows) b = Some p" for a b p
  proof -
    from that obtain x y where x: "map_of rows a = Some x" "rotate_position x a f t (Some n) = p"
      and y: "map_of rows b = Some y" "rotate_position y b f t (Some n) = p"
      by (auto simp: rotate_issues_lookup)
    have "x = f \<longleftrightarrow> a = n" "y = f \<longleftrightarrow> b = n" using unique assms(3) x(1) y(1) by auto
    then have "x = y" using x y assms(4) rotate_position_free [of a n x f t]
        rotate_position_free [of b n y f t] rotate_position_less_iff [of a n b x f y t]
        rotate_position_less_iff [of b n a y f x t]
      by (cases "a = n"; cases "b = n") (auto simp: rotate_position_moved)
    with x y show ?thesis using unique by blast
  qed
  then show ?thesis using distinct_positions_iff [of "rotate_issues n f t rows"] assms(1) by simp
qed

lemma foldr_max_ge: "(x :: int) \<in> set xs \<Longrightarrow> x \<le> foldr max xs y"
  by (induction xs) auto

lemma foldr_max_start: "(y :: int) \<le> foldr max xs y"
  by (induction xs) auto

lemma moved_last:
  assumes "move_target rows old b a = Inr target" and "b = None" and "a = None"
  shows "old \<le> target \<and> (\<forall>m p. map_of rows m = Some p \<longrightarrow> p \<le> target)"
proof -
  have "p \<in> set (map snd rows)" if "map_of rows m = Some p" for m p
    using map_of_SomeD [OF that] by force
  with assms foldr_max_ge foldr_max_start show ?thesis by (auto simp: move_target_def)
qed

lemma move_issue_cases:
  assumes "move_issue rows v n b a u = Inr (rows', v')"
  obtains old target where "map_of rows n = Some old" "move_target rows old b a = Inr target"
    "rows' = (if old \<noteq> target then rotate_issues n old target rows else rows)"
    "v' = (if old \<noteq> target then v + 1 else v)"
  using assms
  by (auto simp: move_issue_def get_order_def split: if_splits option.splits)

section \<open>A published move\<close>

lemma order_clock_bounds:
  assumes "fold_result (deliver_order parse) fs empty_order = Inr db"
  shows "0 \<le> order_clock db \<and> (\<forall>r \<in> set (rotations db). fst (r_stamp r) \<le> order_clock db) \<and>
         (\<forall>c \<in> set (base_fields db). fst (c_stamp c) \<le> order_clock db)" (is "?P db")
  using assms
proof (rule fold_result_invariant [where P = ?P])
  show "?P empty_order" by (simp add: empty_order_def)
next
  fix f s t
  assume P: "?P s" and run: "deliver_order parse f s = Inr t"
  show "?P t"
  proof (cases f)
    case (Coordinate c)
    obtain rows w where acc: "accept_coordinate c (base_fields s) = (rows, w)" by force
    from run obtain u where u: "(if w then seed parse (ckey c) (s\<lparr>base_fields := rows\<rparr>)
        else Inr (s\<lparr>base_fields := rows\<rparr>)) = Inr u"
      and t: "t = u\<lparr>order_clock := max (order_clock u) (fst (c_stamp c))\<rparr>"
      by (auto simp: Coordinate reduce_coordinate_def acc Let_def)
    from u have "base_fields u = rows" "rotations u = rotations s" "order_clock u = order_clock s"
      by (auto simp: seed_def split: if_splits option.splits)
    with P t accept_coordinate_rows(1) [OF acc] show ?thesis by (auto simp: le_max_iff_disj)
  next
    case (Rotation r)
    have seeds: "base_fields v = base_fields u \<and> rotations v = rotations u \<and> order_clock v = order_clock u"
      if "fold_result (seed parse) ks u = Inr v" for ks u v
      using that
      by (rule fold_result_invariant [where P = "\<lambda>v. base_fields v = base_fields u \<and>
            rotations v = rotations u \<and> order_clock v = order_clock u"])
        (auto simp: seed_def split: option.splits)
    from run P show ?thesis
      by (auto simp: Rotation record_rotation_def Let_def le_max_iff_disj dest!: seeds
          split: option.splits if_splits)
  qed
qed

lemma reduce_captured:
  assumes "project \<noteq> []" and "from \<noteq> to" and "0 < number" and "0 \<le> clock"
    and "number < 2 ^ 63"
    and "- (2 ^ 63) \<le> from" "from < 2 ^ 63" and "- (2 ^ 63) \<le> to" "to < 2 ^ 63"
  shows "rotation_of (capture_rotation project number from to clock origin) =
    Inr \<lparr>r_project = project, r_stamp = (clock + 1, origin), r_first = from, r_last = to,
         r_number = Some number\<rparr>"
  using assms
  by (simp add: rotation_of_def capture_rotation_def json_index_def as_i64_def as_object_def)

lemma record_latest:
  assumes "\<forall>s \<in> set (rotations db). r_project s = r_project r \<longrightarrow> r_stamp s < r_stamp r"
  shows "\<exists>t. record_rotation parse r db = Inr t \<and>
     positions t = (\<lambda>key. map_option (shift_row r key) (positions db key))"
proof -
  have "find (\<lambda>s. r_project s = r_project r \<and> r_stamp s = r_stamp r) (rotations db) = None"
    using assms by (auto simp: find_None_iff)
  moreover have "\<not> (\<exists>s \<in> set (rotations db). r_project s = r_project r \<and> r_stamp r < r_stamp s)"
    using assms by (auto dest: less_asym)
  ultimately show ?thesis by (simp add: record_rotation_def del: bex_simps)
qed

section \<open>Properties\<close>

text \<open>
  C1. Replicas that have received the same queue facts show the same queue: whatever the
  order and however often each fact was delivered, no delivery fails and the derived
  positions of all issues are equal.
\<close>

theorem queue_replicas_agree:
  assumes "order_consistent parse (set fs)" and "set fs = set gs"
  shows "\<exists>s t. fold_result (deliver_order parse) fs empty_order = Inr s \<and>
               fold_result (deliver_order parse) gs empty_order = Inr t \<and>
               positions s = positions t"
proof -
  obtain s t where "fold_result (deliver_order parse) fs empty_order = Inr s"
    and "fold_result (deliver_order parse) gs empty_order = Inr t"
    using order_replica.progress [of parse fs] order_replica.progress [of parse gs] assms by auto
  with order_replica.convergence [OF assms] show ?thesis by blast
qed

definition order_example :: "order_fact list" where
  "order_example =
     [Coordinate \<lparr>c_project = ''p'', c_number = 1, c_stamp = (1, ''a''), c_value = ''1''\<rparr>,
      Rotation \<lparr>r_project = ''p'', r_stamp = (3, ''a''), r_first = 2, r_last = 1, r_number = Some 2\<rparr>,
      Coordinate \<lparr>c_project = ''p'', c_number = 2, c_stamp = (1, ''a''), c_value = ''2''\<rparr>,
      Rotation \<lparr>r_project = ''p'', r_stamp = (2, ''b''), r_first = 1, r_last = 2, r_number = Some 1\<rparr>]"

theorem queue_replicas_agree_witness:
  "\<exists>s t. fold_result (deliver_order (\<lambda>v. Some (int (read_nat v)))) order_example empty_order = Inr s \<and>
         fold_result (deliver_order (\<lambda>v. Some (int (read_nat v)))) (rev order_example) empty_order = Inr t \<and>
         positions s = positions t"
  by (rule queue_replicas_agree) (auto simp: order_consistent_def order_example_def)

text \<open>
  C19. The in-place shift and the rebuild implement one specification: after any delivery,
  the stored position of an issue is its winning base coordinate carried through the
  later rotations in stamp order.
\<close>

theorem queue_positions_are_replayed:
  assumes "order_consistent parse (set fs)"
    and "fold_result (deliver_order parse) fs empty_order = Inr db"
    and "base_of db key = Some c" and "parse (c_value c) = Some v"
  shows "position_of db key = Some (replay (snd key) (later_rotations db (fst key) (c_stamp c)) v)"
proof -
  have "order_represents parse (set fs) db"
    using order_replica.progress [OF assms(1)] assms(2) by auto
  then have "order_inv parse db" by (simp add: order_represents_def)
  from positions_eq_expected [OF this] have "positions db key = expected parse db key" by simp
  then show ?thesis using assms(3,4) by (simp add: position_of_def expected_def)
qed

theorem queue_positions_are_replayed_witness:
  "position_of
     \<lparr>base_fields = [\<lparr>c_project = ''p'', c_number = 1, c_stamp = (1, ''a''), c_value = ''7''\<rparr>],
      rotations = [\<lparr>r_project = ''p'', r_stamp = (2, ''b''), r_first = 7, r_last = 9, r_number = None\<rparr>],
      positions = [(''p'', 1) \<mapsto> ((1, ''a''), 9)], order_dirty = {''p''}, order_clock = 2\<rparr> (''p'', 1) =
   Some (replay 1 [\<lparr>r_project = ''p'', r_stamp = (2, ''b''), r_first = 7, r_last = 9, r_number = None\<rparr>] 7)"
proof -
  let ?c = "\<lparr>c_project = ''p'', c_number = 1, c_stamp = (1, ''a''), c_value = ''7''\<rparr>"
  let ?r = "\<lparr>r_project = ''p'', r_stamp = (2, ''b''), r_first = 7, r_last = 9, r_number = None\<rparr>"
  let ?db = "\<lparr>base_fields = [?c], rotations = [?r], positions = [(''p'', 1) \<mapsto> ((1, ''a''), 9)],
      order_dirty = {''p''}, order_clock = 2\<rparr>"
  let ?parse = "\<lambda>v. if v = ''7'' then Some 7 else None"
  have "order_consistent ?parse (set [Coordinate ?c, Rotation ?r])"
    by (auto simp: order_consistent_def)
  moreover have "fold_result (deliver_order ?parse) [Coordinate ?c, Rotation ?r] empty_order = Inr ?db"
    by (simp add: reduce_coordinate_def record_rotation_def accept_coordinate_def empty_order_def
        seed_def base_of_def later_rotations_def replay_def shift_row_def fun_eq_iff)
  moreover have "base_of ?db (''p'', 1) = Some ?c" by (simp add: base_of_def)
  moreover have "later_rotations ?db ''p'' (1, ''a'') = [?r]" by (simp add: later_rotations_def)
  ultimately show ?thesis
    using queue_positions_are_replayed [of ?parse "[Coordinate ?c, Rotation ?r]" ?db "(''p'', 1)" ?c 7]
    by simp
qed

text \<open>
  C27. A move puts the issue right before or right after its anchor, or last, and is
  invisible to everybody else: numbers and distinct positions are kept, and any two
  other issues keep their relative order.
\<close>

theorem move_places_issue:
  assumes "distinct (map fst rows)" and "distinct (map snd rows)"
    and "move_issue rows v n before_of after_of if_v = Inr (rows', v')"
  shows "map fst rows' = map fst rows \<and> distinct (map snd rows') \<and>
    (\<forall>a p q. before_of = Some a \<and> a \<noteq> n \<and> map_of rows' n = Some p \<and> map_of rows' a = Some q
       \<longrightarrow> p + 1 = q) \<and>
    (\<forall>a p q. before_of = None \<and> after_of = Some a \<and> a \<noteq> n \<and> map_of rows' n = Some p
       \<and> map_of rows' a = Some q \<longrightarrow> p = q + 1) \<and>
    (\<forall>m p q. before_of = None \<and> after_of = None \<and> map_of rows' n = Some p
       \<and> map_of rows' m = Some q \<longrightarrow> q \<le> p) \<and>
    (\<forall>a b p q p' q'. a \<noteq> n \<and> b \<noteq> n \<and> map_of rows a = Some p \<and> map_of rows b = Some q
       \<and> map_of rows' a = Some p' \<and> map_of rows' b = Some q' \<longrightarrow> (p' < q' \<longleftrightarrow> p < q))"
proof -
  obtain old target where old: "map_of rows n = Some old"
    and target: "move_target rows old before_of after_of = Inr target"
    and rows': "rows' = (if old \<noteq> target then rotate_issues n old target rows else rows)"
    using assms(3) by (rule move_issue_cases)
  have unique: "a = b" if "map_of rows a = Some p" "map_of rows b = Some p" for a b p
    using that assms(1,2) distinct_positions_iff by blast
  show ?thesis
  proof (cases "old = target")
    case True
    have "a = n \<or> q = old + 1" if "before_of = Some a" "map_of rows a = Some q" for a q
      using that target True unique [of a q n] old by (auto simp: move_target_def get_order_def split: if_splits)
    moreover have "a = n \<or> old = q + 1"
      if "before_of = None" "after_of = Some a" "map_of rows a = Some q" for a q
      using that target True unique [of a q n] old by (auto simp: move_target_def get_order_def split: if_splits)
    ultimately show ?thesis
      using True rows' assms(1,2) old moved_last [OF target] by fastforce
  next
    case False
    then have rows': "rows' = rotate_issues n old target rows" using rows' by simp
    note look = rotate_issues_lookup [of n old target rows, folded rows']
    have other: "x \<noteq> old" if "a \<noteq> n" "map_of rows a = Some x" for a x
      using that unique old by auto
    have "target + 1 = q"
      if "before_of = Some a" "a \<noteq> n" "map_of rows' a = Some q" for a q
      using that target other by (auto simp: move_target_def get_order_def look rotate_position_def split: if_splits)
    moreover have "target = q + 1"
      if "before_of = None" "after_of = Some a" "a \<noteq> n" "map_of rows' a = Some q" for a q
      using that target other by (auto simp: move_target_def get_order_def look rotate_position_def split: if_splits)
    moreover have "q \<le> target"
      if none: "before_of = None" "after_of = None" and q: "map_of rows' m = Some q" for m q
    proof -
      from q obtain x where "map_of rows m = Some x" "q = rotate_position x m old target (Some n)"
        by (auto simp: look)
      then show ?thesis using moved_last [OF target none] old False
        by (fastforce simp: rotate_position_def)
    qed
    moreover have "map_of rows' n = Some target" using old by (simp add: look rotate_position_moved)
    moreover have "p' < q' \<longleftrightarrow> p < q"
      if "a \<noteq> n" "b \<noteq> n" "map_of rows a = Some p" "map_of rows b = Some q"
        "map_of rows' a = Some p'" "map_of rows' b = Some q'" for a b p q p' q'
      using that other rotate_position_less_iff [of a n b p old q target] by (auto simp: look)
    ultimately show ?thesis
      using rows' rotate_issues_distinct [OF assms(1,2) old False] by auto
  qed
qed

theorem move_places_issue_witness:
  "distinct (map snd [(1, 3), (2, 1), (3 :: int, 2 :: int)])"
proof -
  have "move_issue [(1, 1), (2, 2), (3, 3)] 5 1 None None (Some 5) =
      Inr ([(1, 3), (2, 1), (3, 2)], 6)"
    by (simp add: move_issue_def get_order_def move_target_def rotate_issues_def)
  then show ?thesis
    using move_places_issue [of "[(1, 1), (2, 2), (3, 3)]" 5 1 None None "Some 5"
        "[(1, 3), (2, 1), (3, 2)]" 6] by simp
qed

text \<open>
  C23. A move made on one replica and published has the same effect on every replica that
  showed the same queue: the revision left in the outbox passes the receiver's checks,
  and the derived positions become those of the locally rotated rows, other projects
  staying as they were.
\<close>

theorem published_move_is_replicated:
  assumes "order_consistent parse (set fs)"
    and "fold_result (deliver_order parse) fs empty_order = Inr db"
    and "\<forall>m. position_of db (project, m) = map_of rows m"
    and "project \<noteq> []" and "from \<noteq> to" and "0 < number" and "number < 2 ^ 63"
    and "- (2 ^ 63) \<le> from" "from < 2 ^ 63" "- (2 ^ 63) \<le> to" "to < 2 ^ 63"
  shows "\<exists>t. reduce_order parse
          (capture_rotation project number from to (order_clock db) origin) db = Inr t \<and>
     (\<forall>m. position_of t (project, m) = map_of (rotate_issues number from to rows) m) \<and>
     (\<forall>key. fst key \<noteq> project \<longrightarrow> position_of t key = position_of db key)"
proof -
  let ?r = "\<lparr>r_project = project, r_stamp = (order_clock db + 1, origin), r_first = from,
    r_last = to, r_number = Some number\<rparr>"
  note bounds = order_clock_bounds [OF assms(2)]
  have rot: "rotation_of (capture_rotation project number from to (order_clock db) origin) = Inr ?r"
    using assms bounds by (intro reduce_captured) auto
  have latest: "\<forall>s \<in> set (rotations db). r_project s = r_project ?r \<longrightarrow> r_stamp s < r_stamp ?r"
    using bounds by (force simp: less_prod_def')
  obtain t where t: "record_rotation parse ?r db = Inr t"
    "positions t = (\<lambda>key. map_option (shift_row ?r key) (positions db key))"
    using record_latest [OF latest] by blast
  have "order_represents parse (set fs) db"
    using order_replica.progress [OF assms(1)] assms(2) by auto
  then have inv: "order_inv parse db" by (simp add: order_represents_def)
  have stamp: "st < r_stamp ?r" if "positions db key = Some (st, p)" for key st p
  proof -
    from that obtain c where "base_of db key = Some c" "c_stamp c = st"
      by (auto simp: positions_eq_expected [OF inv] expected_def split: option.splits)
    then have "fst st \<le> order_clock db" using bounds base_of_Some by blast
    then show ?thesis by (auto simp: less_prod_def')
  qed
  have "position_of t (project, m) = map_of (rotate_issues number from to rows) m" for m
  proof (cases "positions db (project, m)")
    case None
    with assms(3) [rule_format, of m] show ?thesis
      by (simp add: position_of_def t(2) rotate_issues_lookup)
  next
    case (Some row)
    obtain st p where row: "row = (st, p)" by (rule prod.exhaust)
    with Some assms(3) [rule_format, of m] have "map_of rows m = Some p"
      by (simp add: position_of_def)
    with Some row stamp [OF Some [unfolded row]] show ?thesis
      by (auto simp: position_of_def t(2) rotate_issues_lookup shift_row_rotate)
  qed
  moreover have "position_of t key = position_of db key" if "fst key \<noteq> project" for key
    using that by (cases "positions db key") (auto simp: position_of_def t(2) shift_row_def Let_def split: prod.splits)
  ultimately show ?thesis using rot t(1) by (auto simp: reduce_order_def)
qed

theorem published_move_is_replicated_witness:
  "\<exists>t. reduce_order (\<lambda>v. Some (int (length v)))
       (capture_rotation ''p'' 2 2 1 1 ''b'')
       \<lparr>base_fields = [\<lparr>c_project = ''p'', c_number = 1, c_stamp = (1, ''a''), c_value = ''x''\<rparr>,
                      \<lparr>c_project = ''p'', c_number = 2, c_stamp = (1, ''a''), c_value = ''xx''\<rparr>],
        rotations = [],
        positions = [(''p'', 1) \<mapsto> ((1, ''a''), 1), (''p'', 2) \<mapsto> ((1, ''a''), 2)],
        order_dirty = {''p''}, order_clock = 1\<rparr> = Inr t \<and>
     (\<forall>m. position_of t (''p'', m) = map_of [(1, 2), (2, 1)] m)"
proof -
  let ?c = "\<lambda>n v. \<lparr>c_project = ''p'', c_number = n, c_stamp = (1, ''a''), c_value = v\<rparr>"
  let ?db = "\<lparr>base_fields = [?c 1 ''x'', ?c 2 ''xx''], rotations = [],
      positions = [(''p'', 1) \<mapsto> ((1, ''a''), 1), (''p'', 2) \<mapsto> ((1, ''a''), 2)],
      order_dirty = {''p''}, order_clock = 1\<rparr>"
  let ?parse = "\<lambda>v. Some (int (length v))"
  have "order_consistent ?parse (set [Coordinate (?c 1 ''x''), Coordinate (?c 2 ''xx'')])"
    by (auto simp: order_consistent_def)
  moreover have "fold_result (deliver_order ?parse) [Coordinate (?c 1 ''x''), Coordinate (?c 2 ''xx'')]
      empty_order = Inr ?db"
    by (simp add: reduce_coordinate_def accept_coordinate_def empty_order_def
        seed_def base_of_def later_rotations_def replay_def fun_eq_iff)
  moreover have "\<forall>m. position_of ?db (''p'', m) = map_of [(1, 1), (2, 2)] m"
    by (simp add: position_of_def)
  moreover have "rotate_issues 2 2 1 [(1, 1), (2, 2)] = [(1, 2), (2, 1)]"
    by (simp add: rotate_issues_def)
  ultimately show ?thesis
    using published_move_is_replicated [of ?parse
        "[Coordinate (?c 1 ''x''), Coordinate (?c 2 ''xx'')]" ?db "''p''" "[(1, 1), (2, 2)]" 2 1 2 "''b''"]
    by auto
qed

text \<open>
  Convergence is all that the rotations promise: two moves made concurrently can give
  two issues the same position. Here issue 3 is moved before 2 on one replica while
  issue 2 is moved after 3 on another, and issues 1 and 3 end up tied.
\<close>

theorem concurrent_moves_can_tie:
  "\<exists>t. fold_result (deliver_order (\<lambda>v. Some (int (length v))))
       [Coordinate \<lparr>c_project = ''p'', c_number = 1, c_stamp = (1, ''a''), c_value = ''x''\<rparr>,
        Coordinate \<lparr>c_project = ''p'', c_number = 2, c_stamp = (1, ''a''), c_value = ''xx''\<rparr>,
        Coordinate \<lparr>c_project = ''p'', c_number = 3, c_stamp = (1, ''a''), c_value = ''xxx''\<rparr>,
        Rotation \<lparr>r_project = ''p'', r_stamp = (2, ''a''), r_first = 3, r_last = 2, r_number = Some 3\<rparr>,
        Rotation \<lparr>r_project = ''p'', r_stamp = (2, ''b''), r_first = 2, r_last = 3, r_number = Some 2\<rparr>]
       empty_order = Inr t \<and>
     position_of t (''p'', 1) = Some 1 \<and> position_of t (''p'', 3) = Some 1 \<and>
     position_of t (''p'', 2) = Some 3"
  by (simp add: reduce_coordinate_def accept_coordinate_def empty_order_def seed_def base_of_def
      later_rotations_def replay_def record_rotation_def shift_row_def position_of_def)

end
