(* ===== verification/Pages.thy ===== *)
theory Pages
  imports Revision
begin

text \<open>
  Ownership of published pages (\<open>src/src/pages/storage.rs\<close>): which publication belongs to
  which lifetime of a page name, which deletions cover it, and when its content is
  retired for good. The garbage collection over these tables is in \<open>Page_Storage\<close>.
\<close>

section \<open>Last writer wins\<close>

text \<open>
  The conditional upsert that all replicated tables use: a row is written when its key is
  new or its value greater than the stored one. The flag says whether it was written.
\<close>

definition lww_put :: "'k::linorder \<Rightarrow> 'w::linorder \<Rightarrow> ('k \<times> 'w) list \<Rightarrow> ('k \<times> 'w) list \<times> bool" where
  "lww_put k w t =
     (case map_of t k of
        None \<Rightarrow> (assoc_put k w t, True)
      | Some old \<Rightarrow> if old < w then (assoc_put k w t, True) else (t, False))"

lemma lww_put_lookup:
  "map_of (fst (lww_put k w t)) j =
     (if j = k then Some (case map_of t k of None \<Rightarrow> w | Some old \<Rightarrow> max old w) else map_of t j)"
  by (auto simp: lww_put_def max_def split: option.splits)

lemma lww_put_commute:
  "fst (lww_put k w (fst (lww_put l v t))) = fst (lww_put l v (fst (lww_put k w t)))"
proof (cases "k = l")
  case True
  then show ?thesis by (cases "map_of t l") (auto simp: lww_put_def)
next
  case False
  then show ?thesis
    by (cases "map_of t k"; cases "map_of t l")
      (auto simp: lww_put_def assoc_put_commute)
qed

lemma lww_put_idem: "fst (lww_put k w (fst (lww_put k w t))) = fst (lww_put k w t)"
  by (cases "map_of t k") (auto simp: lww_put_def)

lemma lww_put_keys: "fst ` set (fst (lww_put k w t)) = insert k (fst ` set t)"
  by (auto simp: lww_put_def split: option.splits dest: map_of_SomeD) (metis fst_conv image_eqI map_of_SomeD)+

lemma lww_put_sorted:
  "sorted_wrt (<) (List.map fst t) \<Longrightarrow> sorted_wrt (<) (List.map fst (fst (lww_put k w t)))"
  by (auto simp: lww_put_def strict_sorted_assoc_put split: option.splits)

section \<open>Tables\<close>

record owner = \<comment> \<open>a row of \<open>published_owners\<close>, without its id\<close>
  own_name :: string
  own_deployment :: string
  own_stamp :: stamp
  own_generation :: string

record pages_db =
  owners :: "(string \<times> owner) list"
  deletions :: "(string \<times> stamp) list"
  page_rows :: "(string \<times> (string \<times> bool)) list" \<comment> \<open>name, deployment, deleted\<close>
  live_pages :: "(string \<times> string) list"
  chunks :: "string list"
  deployments :: "(string \<times> string) list"
  publications :: "(string \<times> string) list"
  page_chunks :: "(string \<times> string) list"
  journal_records :: "(string \<times> string \<times> string \<times> string) list"
  garbage :: "string list"
  stored_files :: "string list"
  store_clock :: int
  store_dirty :: bool
  store_indexed :: int

section \<open>Operations\<close>

definition generation :: "codec \<Rightarrow> json \<Rightarrow> string" where
  "generation C row =
     (case as_str (json_index row ''generation'') of
        Some (c # s) \<Rightarrow> c # s
      | _ \<Rightarrow> digest C (print_json C (JArray
               [json_index row ''name'', json_index row ''deployment'',
                json_index row ''updated_at'', json_index row ''machine''])))"

definition publication :: "codec \<Rightarrow> json \<Rightarrow> string" where
  "publication C row = digest C (print_json C (JArray
     [json_index row ''name'', json_index row ''deployment'', json_index row ''updated_at'',
      json_index row ''machine'', JString (generation C row)]))"

definition remember_owner :: "string \<Rightarrow> owner \<Rightarrow> (string \<times> owner) list \<Rightarrow> (string \<times> owner) list" where
  "remember_owner oid new t =
     (case map_of t oid of
        None \<Rightarrow> assoc_put oid new t
      | Some old \<Rightarrow>
          if own_stamp old < own_stamp new
          then assoc_put oid (old\<lparr>own_stamp := own_stamp new\<rparr>) t else t)"

text \<open>
  A missing name or deployment violates a \<open>NOT NULL\<close> constraint. The flag says that the
  page is marked dirty for the projection of a distributed store.
\<close>

definition remember ::
    "codec \<Rightarrow> json \<Rightarrow> int \<Rightarrow> string \<Rightarrow> pages_db \<Rightarrow> (pages_db \<times> bool) result" where
  "remember C row clock origin db =
     and_then
       (case as_str (json_index row ''name'') of
          None \<Rightarrow> Inl ''NOT NULL constraint failed''
        | Some name \<Rightarrow>
            if json_index row ''deleted'' = JInt 1
            then Inr (db\<lparr>deletions := fst (lww_put name (clock, origin) (deletions db))\<rparr>, True)
            else (case as_str (json_index row ''deployment'') of
                    None \<Rightarrow> Inl ''NOT NULL constraint failed''
                  | Some d \<Rightarrow>
                      Inr (db\<lparr>owners := remember_owner (publication C row)
                                \<lparr>own_name = name, own_deployment = d, own_stamp = (clock, origin),
                                 own_generation = generation C row\<rparr> (owners db)\<rparr>, False)))
       (\<lambda>(db, dirty). Inr (db\<lparr>store_clock := max (store_clock db) clock, store_dirty := True\<rparr>, dirty))"

definition retired :: "pages_db \<Rightarrow> string \<Rightarrow> bool" where
  "retired db i =
     (\<exists>(oid, o') \<in> set (owners db). \<exists>(bid, birth) \<in> set (owners db). \<exists>(name, st) \<in> set (deletions db).
        own_generation birth = own_generation o' \<and> name = own_name birth
        \<and> (oid = i \<or> own_generation o' = i) \<and> own_stamp birth \<le> st)"

end
