(* ===== verification/Projection.thy ===== *)
theory Projection
  imports Ordering Pages
begin

text \<open>
  The projection of the replication journal
  (\<open>src/src/fleet/native/distributed/projection.rs\<close>): each revision is checked, split into
  fields, and merged field by field into \<open>distributed_fields\<close>, the newest clock and origin
  winning. \<open>row\<close> reads a merged row back. The lemmas show that replicas converge, and what
  a merged issue can claim about its own completion.
\<close>

section \<open>State\<close>

type_synonym cell_key = "string \<times> string \<times> string" \<comment> \<open>table, entity, field\<close>
type_synonym cell_value = "stamp \<times> string" \<comment> \<open>clock and origin, JSON text\<close>
type_synonym cells = "(cell_key \<times> cell_value) list"

text \<open>A row of \<open>distributed_issue_graph\<close>: project, proposed blockers, alive.\<close>

type_synonym graph_row = "string option \<times> string option \<times> bool option"

record dist_db =
  cells :: cells
  issue_graph :: "(string \<times> graph_row) list"
  dirty_rows :: "(string \<times> string) set"
  history_edits :: "(string \<times> int) set"
  dist_rotations :: "rotation list"
  dist_positions :: "string \<times> int \<rightharpoonup> stamp \<times> int"
  dist_order_dirty :: "string set"
  dist_clock :: int
  pages :: pages_db

text \<open>
  The queue reads its base coordinates from the \<open>sort_order\<close> cells; a query of them by
  entity is a query by the project and number that the entity's text holds.
\<close>

definition parse_i64 :: "codec \<Rightarrow> string \<Rightarrow> int option" where
  "parse_i64 C s = (case parse_json C s of None \<Rightarrow> None | Some v \<Rightarrow> as_i64 v)"

definition order_key :: "json \<Rightarrow> (string \<times> int) option" where
  "order_key key =
     (case (as_str (json_index key ''project_id''), as_i64 (json_index key ''number'')) of
        (Some p, Some n) \<Rightarrow> Some (p, n)
      | _ \<Rightarrow> None)"

definition coordinate_of :: "codec \<Rightarrow> cell_key \<times> cell_value \<Rightarrow> coordinate option" where
  "coordinate_of C = (\<lambda>((table, entity, field), (st, value)).
     if table = ''issues'' \<and> field = ''sort_order'' then
       (case parse_json C entity of
          None \<Rightarrow> None
        | Some key \<Rightarrow>
            (case order_key key of
               None \<Rightarrow> None
             | Some (p, n) \<Rightarrow>
                 Some \<lparr>c_project = p, c_number = n, c_stamp = st, c_value = value\<rparr>))
     else None)"

definition order_view :: "codec \<Rightarrow> dist_db \<Rightarrow> order_db" where
  "order_view C db =
     \<lparr>base_fields = List.map_filter (coordinate_of C) (cells db), rotations = dist_rotations db,
      positions = dist_positions db, order_dirty = dist_order_dirty db,
      order_clock = dist_clock db\<rparr>"

definition with_order :: "dist_db \<Rightarrow> order_db \<Rightarrow> dist_db" where
  "with_order db q = db\<lparr>dist_rotations := rotations q, dist_positions := positions q,
     dist_order_dirty := order_dirty q, dist_clock := order_clock q\<rparr>"

definition empty_pages :: pages_db where
  "empty_pages = \<lparr>owners = [], deletions = [], page_rows = [], live_pages = [], chunks = [],
     deployments = [], publications = [], page_chunks = [], journal_records = [], garbage = [],
     stored_files = [], store_clock = 0, store_dirty = True, store_indexed = 0\<rparr>"

definition empty_dist :: dist_db where
  "empty_dist = \<lparr>cells = [], issue_graph = [], dirty_rows = {}, history_edits = {},
     dist_rotations = [], dist_positions = Map.empty, dist_order_dirty = {}, dist_clock = 0,
     pages = empty_pages\<rparr>"

section \<open>Identity and fields of a row\<close>

definition keys :: "schema \<Rightarrow> string \<Rightarrow> string list result" where
  "keys S table =
     (if table \<notin> set TABLES then Inl ''Unknown distributed table''
      else if table = ''scheduled_job_runs'' then Inr [''id'']
      else Inr (List.map fst (filter (\<lambda>c. snd c > 0) (sort_key snd (S table)))))"

definition scalar :: "json \<Rightarrow> bool" where
  "scalar v = (case v of JNull \<Rightarrow> False | JObject _ \<Rightarrow> False | JArray _ \<Rightarrow> False | _ \<Rightarrow> True)"

definition row_key :: "schema \<Rightarrow> string \<Rightarrow> json \<Rightarrow> json result" where
  "row_key S table r =
     and_then (keys S table) (\<lambda>names.
       and_then
         (fold_result (\<lambda>name key.
            case json_get r name of
              Some v \<Rightarrow> if scalar v then Inr (assoc_put name v key)
                        else Inl ''Missing distributed row identity''
            | None \<Rightarrow> Inl ''Missing distributed row identity'') names [])
         (\<lambda>key. if key = [] then Inl ''Missing distributed primary key'' else Inr (JObject key)))"

definition group :: "string \<Rightarrow> string \<Rightarrow> string" where
  "group table column =
     (if table = ''issues'' \<and> column \<in> {''state'', ''assignee'', ''closed_by'', ''closed_at'',
           ''deleted_at'', ''draft'', ''manual_blocked'', ''blockers''} then ''@lifecycle''
      else if table = ''issues'' \<and> column \<in> {''archive_key'', ''archived_comments''} then ''@storage''
      else if table \<in> {''scheduled_jobs'', ''project_config_revisions'', ''scheduled_job_revisions'',
           ''scheduled_job_runs'', ''worker_runs'', ''worker_allocations'', ''published_chunks'',
           ''published_deployments'', ''published_pages'', ''page_exports'',
           ''published_publications'', ''published_page_chunks''} then ''@row''
      else column)"

definition object_entries :: "json \<Rightarrow> (string \<times> json) list" where
  "object_entries v = (case as_object v of None \<Rightarrow> [] | Some kvs \<Rightarrow> kvs)"

definition fields_step ::
    "string \<Rightarrow> string \<times> json \<Rightarrow> (string \<times> json) list \<Rightarrow> (string \<times> json) list" where
  "fields_step table = (\<lambda>(name, value) fs.
     if table = ''project_settings'' \<and> name = ''mindmaps_enabled'' then fs
     else
       let g = group table name in
       if starts_with ''@'' g
       then assoc_put g (JObject (assoc_put name value
              (case map_of fs g of None \<Rightarrow> [] | Some v \<Rightarrow> object_entries v))) fs
       else assoc_put name value fs)"

definition fields :: "string \<Rightarrow> json \<Rightarrow> (string \<times> json) list result" where
  "fields table r =
     (case as_object r of
        None \<Rightarrow> Inl ''Invalid distributed row''
      | Some kvs \<Rightarrow> Inr (fold (fields_step table) kvs []))"

definition fields_or_empty :: "string \<Rightarrow> json option \<Rightarrow> (string \<times> json) list result" where
  "fields_or_empty table r = (case r of None \<Rightarrow> Inr [] | Some r \<Rightarrow> fields table r)"

section \<open>Checks\<close>

definition history_table :: "string \<Rightarrow> bool" where
  "history_table table \<longleftrightarrow> table \<in> {''comments'', ''events'', ''issue_status_updates''}"

definition envelope_ok :: "revision \<Rightarrow> bool" where
  "envelope_ok revn \<longleftrightarrow>
     \<not> (fact_protocol revn \<noteq> PROTOCOL \<or> fact_clock revn < 0 \<or> fact_origin revn = []
        \<or> length (fact_origin revn) > 128
        \<or> (fact_before revn = None \<and> fact_after revn = None))"

definition check_allocation :: "revision \<Rightarrow> unit result" where
  "check_allocation revn =
     (case fact_after revn of
        None \<Rightarrow> Inl ''Allocation history cannot be deleted''
      | Some r \<Rightarrow>
          let owner = hd (split_on (CHR '':'') (fact_origin revn)) in
          if json_index r ''machine'' \<noteq> JString owner
             \<or> \<not> i64_and (json_index r ''ticket'') (\<lambda>v. 0 \<le> v)
             \<or> \<not> i64_and (json_index r ''settle_ms'') (\<lambda>v. 0 < v)
             \<or> \<not> i64_and (json_index r ''lease_ms'') (\<lambda>v. 0 < v)
             \<or> \<not> i64_and (json_index r ''presence_after'') (\<lambda>v. 0 \<le> v)
             \<or> \<not> i64_and (json_index r ''released'') (\<lambda>v. v = 0 \<or> v = 1)
             \<or> (json_index r ''launched'' \<noteq> JNull
                \<and> \<not> i64_and (json_index r ''launched'') (\<lambda>v. 0 \<le> v))
          then Inl ''Invalid allocation owner or timing''
          else
            (case fact_before revn of
               None \<Rightarrow> Inr ()
             | Some b \<Rightarrow>
                 if (\<exists>key \<in> set [''id'', ''project_id'', ''issue_number'', ''machine'', ''ticket'',
                        ''settle_ms'', ''lease_ms'', ''presence_after''].
                       json_index b key \<noteq> json_index r key)
                    \<or> (json_index b ''released'' = JInt 1 \<and> json_index r ''released'' \<noteq> JInt 1)
                    \<or> (json_index b ''launched'' \<noteq> JNull
                       \<and> json_index b ''launched'' \<noteq> json_index r ''launched'')
                 then Inl ''Allocation identity and launch order are immutable''
                 else Inr ()))"

definition check_columns :: "string \<Rightarrow> string list \<Rightarrow> json option \<Rightarrow> unit result" where
  "check_columns table cols r =
     (case r of
        None \<Rightarrow> Inr ()
      | Some r \<Rightarrow>
          (case as_object r of
             None \<Rightarrow> Inl ''Invalid distributed row''
           | Some kvs \<Rightarrow>
               if \<exists>(c, _) \<in> set kvs. c \<notin> set cols
                    \<and> \<not> (table = ''project_settings'' \<and> c = ''mindmaps_enabled'')
               then Inl ''Unsupported distributed column; upgrade both peers''
               else Inr ()))"

definition key_of :: "schema \<Rightarrow> string \<Rightarrow> json option \<Rightarrow> json option result" where
  "key_of S table r =
     (case r of None \<Rightarrow> Inr None | Some r \<Rightarrow> and_then (row_key S table r) (\<lambda>k. Inr (Some k)))"

text \<open>The identity of the row that a revision is about, after the column checks.\<close>

definition revision_entity :: "schema \<Rightarrow> revision \<Rightarrow> json result" where
  "revision_entity S revn =
     (let table = fact_table revn in
      and_then (columns S table) (\<lambda>cols.
      and_then (check_columns table cols (fact_before revn)) (\<lambda>_.
      and_then (check_columns table cols (fact_after revn)) (\<lambda>_.
      and_then (key_of S table (fact_before revn)) (\<lambda>before_key.
      and_then (key_of S table (fact_after revn)) (\<lambda>after_key.
        if before_key \<noteq> None \<and> after_key \<noteq> None \<and> before_key \<noteq> after_key
        then Inl ''Distributed primary keys are immutable''
        else
          (case after_key of
             Some k \<Rightarrow> Inr k
           | None \<Rightarrow> (case before_key of Some k \<Rightarrow> Inr k | None \<Rightarrow> Inl ''unwrap''))))))))"

section \<open>The merge\<close>

definition requirements :: "json \<Rightarrow> json" where
  "requirements r =
     JArray [json_index r ''title'', json_index r ''body'', json_index r ''labels'']"

definition annotate :: "string \<Rightarrow> string \<Rightarrow> json \<Rightarrow> (string \<times> json) list \<Rightarrow> (string \<times> json) list" where
  "annotate g name v cs =
     (case map_of cs g of
        None \<Rightarrow> cs
      | Some w \<Rightarrow> assoc_put g (JObject (assoc_put name v (object_entries w))) cs)"

definition changed_fields ::
    "(string \<times> json) list \<Rightarrow> (string \<times> json) list \<Rightarrow> (string \<times> json) list" where
  "changed_fields before_fields = filter (\<lambda>(name, value). map_of before_fields name \<noteq> Some value)"

definition after_row :: "revision \<Rightarrow> json" where
  "after_row revn = (case fact_after revn of None \<Rightarrow> JNull | Some r \<Rightarrow> r)"

definition annotate_issue :: "json \<Rightarrow> (string \<times> json) list \<Rightarrow> (string \<times> json) list" where
  "annotate_issue r cs =
     annotate ''@storage'' ''@archived_body'' (json_index r ''body'')
       (annotate ''@lifecycle'' ''@requirements'' (requirements r) cs)"

definition changes :: "revision \<Rightarrow> (string \<times> json) list result" where
  "changes revn =
     and_then (fields_or_empty (fact_table revn) (fact_before revn)) (\<lambda>before_fields.
     and_then (fields_or_empty (fact_table revn) (fact_after revn)) (\<lambda>after_fields.
       let cs = changed_fields before_fields after_fields;
           cs = (if fact_table revn = ''issues'' then annotate_issue (after_row revn) cs else cs);
           cs = (if fact_before revn = None then assoc_put ''@alive'' (JBool True) cs else cs)
       in Inr (if fact_after revn = None then assoc_put ''@alive'' (JBool False) cs else cs)))"

definition sql_extract :: "codec \<Rightarrow> string \<Rightarrow> string \<Rightarrow> string option" where
  \<comment> \<open>\<open>json_extract(text,'$.k')\<close> stored in a TEXT column; a boolean reads as 1 or 0\<close>
  "sql_extract C text k =
     (case parse_json C text of
        None \<Rightarrow> None
      | Some v \<Rightarrow>
          (case json_get v k of
             None \<Rightarrow> None
           | Some JNull \<Rightarrow> None
           | Some (JString s) \<Rightarrow> Some s
           | Some (JBool b) \<Rightarrow> Some (if b then ''1'' else ''0'')
           | Some x \<Rightarrow> Some (print_json C x)))"

text \<open>The trigger on \<open>distributed_fields\<close> that maintains the dependency graph.\<close>

definition graph_trigger ::
    "codec \<Rightarrow> string \<Rightarrow> string \<Rightarrow> string \<Rightarrow> string \<Rightarrow> (string \<times> graph_row) list \<Rightarrow> (string \<times> graph_row) list" where
  "graph_trigger C table entity field value g =
     (if table = ''issues'' \<and> field \<in> {''@alive'', ''@lifecycle''} then
        let blockers = (if field = ''@lifecycle''
                        then Some (case sql_extract C value ''blockers'' of None \<Rightarrow> ''[]'' | Some b \<Rightarrow> b)
                        else None);
            alive = (if field = ''@alive'' then Some (value = ''true'') else None)
        in (case map_of g entity of
              None \<Rightarrow> assoc_put entity (sql_extract C entity ''project_id'', blockers, alive) g
            | Some (p, b, a) \<Rightarrow>
                assoc_put entity (p, (if blockers = None then b else blockers),
                                     (if alive = None then a else alive)) g)
      else g)"

definition upsert_field ::
    "codec \<Rightarrow> string \<Rightarrow> string \<Rightarrow> stamp \<Rightarrow> string \<Rightarrow> json \<Rightarrow> dist_db \<Rightarrow> dist_db \<times> bool" where
  "upsert_field C table entity st field value db =
     (let encoded = print_json C value;
          (cs, accepted) = lww_put (table, entity, field) (st, encoded) (cells db)
      in (db\<lparr>cells := cs,
             issue_graph := (if accepted then graph_trigger C table entity field encoded (issue_graph db)
                             else issue_graph db)\<rparr>, accepted))"

definition upsert_step ::
    "codec \<Rightarrow> string \<Rightarrow> string \<Rightarrow> stamp \<Rightarrow> string \<times> json \<Rightarrow> dist_db \<times> bool \<times> bool \<Rightarrow> dist_db \<times> bool \<times> bool" where
  "upsert_step C table entity st = (\<lambda>(field, value) (db, changed, order_changed).
     let (db, accepted) = upsert_field C table entity st field value db
     in (db, changed \<or> accepted,
         order_changed \<or> (accepted \<and> table = ''issues'' \<and> field = ''sort_order'')))"

definition upsert_all ::
    "codec \<Rightarrow> string \<Rightarrow> string \<Rightarrow> stamp \<Rightarrow> (string \<times> json) list \<Rightarrow> dist_db \<Rightarrow> dist_db \<times> bool \<times> bool" where
  "upsert_all C table entity st cs db = fold (upsert_step C table entity st) cs (db, False, False)"

definition issue_entity :: "codec \<Rightarrow> json \<Rightarrow> json \<Rightarrow> string" where
  "issue_entity C project number =
     print_json C (JObject [(''number'', number), (''project_id'', project)])"

definition subtask_entities :: "codec \<Rightarrow> json \<Rightarrow> dist_db \<Rightarrow> (string \<times> string) set" where
  "subtask_entities C project db =
     (case as_str project of
        None \<Rightarrow> {}
      | Some p \<Rightarrow> (\<lambda>((t, e, _), _). (t, e)) ` set (filter (\<lambda>((t, e, field), _).
           t = ''issue_subtasks'' \<and> field = ''@alive''
           \<and> sql_extract C e ''project_id'' = Some p) (cells db)))"

definition json_array_length :: "codec \<Rightarrow> string option \<Rightarrow> nat" where
  "json_array_length C text =
     (case text of None \<Rightarrow> 0
      | Some s \<Rightarrow> (case parse_json C s of Some (JArray xs) \<Rightarrow> length xs | _ \<Rightarrow> 0))"

definition dirty_dependents :: "codec \<Rightarrow> string \<Rightarrow> dist_db \<Rightarrow> dist_db" where
  "dirty_dependents C project db =
     db\<lparr>dirty_rows := dirty_rows db \<union>
          (\<lambda>(entity, _). (''issues'', entity)) ` set (filter (\<lambda>(_, (p, b, _)).
             p = Some project \<and> json_array_length C b > 0) (issue_graph db))\<rparr>"

definition proposed_blockers :: "json option \<Rightarrow> string" where
  "proposed_blockers r =
     (case r of None \<Rightarrow> ''[]''
      | Some r \<Rightarrow> (case as_str (json_index r ''blockers'') of None \<Rightarrow> ''[]'' | Some b \<Rightarrow> b))"

text \<open>The rows that a merge leaves to be projected again.\<close>

definition mark_dirty :: "codec \<Rightarrow> revision \<Rightarrow> string \<Rightarrow> bool \<Rightarrow> dist_db \<Rightarrow> dist_db" where
  "mark_dirty C revn entity changed db =
     (let table = fact_table revn;
          r = (case fact_after revn of Some r \<Rightarrow> r
               | None \<Rightarrow> (case fact_before revn of Some r \<Rightarrow> r | None \<Rightarrow> JNull));
          db = (if changed \<and> fact_clock revn > 0 \<and> history_table table
                then db\<lparr>history_edits :=
                          (case (as_str (json_index r ''project_id''), as_i64 (json_index r ''issue_number'')) of
                             (Some p, Some n) \<Rightarrow> insert (p, n) (history_edits db)
                           | _ \<Rightarrow> history_edits db),
                        dirty_rows := insert (''issues'', issue_entity C (json_index r ''project_id'')
                                                 (json_index r ''issue_number'')) (dirty_rows db)\<rparr>
                else db);
          db = (if changed then db\<lparr>dirty_rows := insert (table, entity) (dirty_rows db)\<rparr> else db);
          db = (if changed \<and> table = ''issues''
                then db\<lparr>dirty_rows := dirty_rows db \<union> subtask_entities C (json_index r ''project_id'') db\<rparr>
                else db);
          db = (if changed \<and> table = ''issues''
                   \<and> proposed_blockers (fact_before revn) \<noteq> proposed_blockers (fact_after revn)
                then (case as_str (json_index r ''project_id'') of
                        None \<Rightarrow> db
                      | Some p \<Rightarrow> dirty_dependents C p db)
                else db)
      in (if table = ''worker_runs''
          then (case fact_after revn of
                  None \<Rightarrow> db
                | Some r \<Rightarrow>
                    if json_index r ''finished_at'' \<noteq> JNull
                    then db\<lparr>dirty_rows := insert (''issues'', issue_entity C (json_index r ''project_id'')
                                                      (json_index r ''issue_number'')) (dirty_rows db)\<rparr>
                    else db)
          else db))"

definition seed_position :: "codec \<Rightarrow> json \<Rightarrow> dist_db \<Rightarrow> dist_db result" where
  "seed_position C key db =
     (case order_key key of
        None \<Rightarrow> Inl ''unwrap''
      | Some k \<Rightarrow> and_then (seed (parse_i64 C) k (order_view C db)) (\<lambda>q. Inr (with_order db q)))"

definition merge_revision :: "codec \<Rightarrow> revision \<Rightarrow> json \<Rightarrow> dist_db \<Rightarrow> dist_db result" where
  "merge_revision C revn key db =
     and_then (changes revn) (\<lambda>cs.
       let entity = print_json C key;
           (db, changed, order_changed) =
             upsert_all C (fact_table revn) entity (fact_stamp revn) cs db
       in and_then
            (if order_changed
             then (case parse_json C entity of None \<Rightarrow> Inl ''JSON'' | Some k \<Rightarrow> seed_position C k db)
             else Inr db)
            (\<lambda>db. Inr (mark_dirty C revn entity changed
                         (db\<lparr>dist_clock := max (dist_clock db) (fact_clock revn)\<rparr>))))"

definition remember_page :: "codec \<Rightarrow> revision \<Rightarrow> dist_db \<Rightarrow> dist_db result" where
  "remember_page C revn db =
     (if fact_table revn = ''published_pages'' then
        (case fact_after revn of
           None \<Rightarrow> Inl ''unwrap''
         | Some r \<Rightarrow>
             and_then (remember C r (fact_clock revn) (fact_origin revn) (pages db)) (\<lambda>(p, dirty).
               Inr (db\<lparr>pages := p,
                       dirty_rows := (if dirty
                         then insert (''published_pages'',
                                print_json C (JObject [(''name'', json_index r ''name'')])) (dirty_rows db)
                         else dirty_rows db)\<rparr>)))
      else Inr db)"

text \<open>
  \<open>reduce\<close> calls itself once at most, on the baseline of a history row, which has no
  before-image; \<open>reduce_with\<close> takes that call as an argument.
\<close>

definition reduce_with ::
    "(json \<Rightarrow> dist_db \<Rightarrow> dist_db result) \<Rightarrow> codec \<Rightarrow> schema \<Rightarrow> revision \<Rightarrow> dist_db \<Rightarrow> dist_db result" where
  "reduce_with history C S revn db =
     and_then (validate_page C revn) (\<lambda>_.
     if \<not> envelope_ok revn then Inl ''Invalid distributed revision''
     else if retired_table (fact_table revn) then Inr db
     else if fact_table revn = ''issue_order'' then
       and_then (reduce_order (parse_i64 C) revn (order_view C db)) (\<lambda>q. Inr (with_order db q))
     else
       and_then (if fact_table revn = ''worker_allocations'' then check_allocation revn else Inr ()) (\<lambda>_.
       and_then (remember_page C revn db) (\<lambda>db.
       and_then (revision_entity S revn) (\<lambda>key.
       and_then (case fact_before revn of
                   Some b \<Rightarrow> if history_table (fact_table revn) then history b db else Inr db
                 | None \<Rightarrow> Inr db) (\<lambda>db.
         merge_revision C revn key db)))))"

definition baseline :: "codec \<Rightarrow> string \<Rightarrow> string \<Rightarrow> json \<Rightarrow> revision" where
  "baseline C table source r =
     \<lparr>fact_protocol = PROTOCOL,
      fact_origin = ''!'' @ source @ '':'' @ digest C (print_json C r),
      fact_clock = 0, fact_table = table, fact_before = None, fact_after = Some r,
      fact_resource = None\<rparr>"

definition seed_history ::
    "codec \<Rightarrow> schema \<Rightarrow> string \<Rightarrow> string \<Rightarrow> json \<Rightarrow> dist_db \<Rightarrow> dist_db result" where
  "seed_history C S table source r =
     reduce_with (\<lambda>_ _. Inl ''unreachable'') C S (baseline C table source r)"

definition reduce :: "codec \<Rightarrow> schema \<Rightarrow> revision \<Rightarrow> dist_db \<Rightarrow> dist_db result" where
  "reduce C S revn =
     reduce_with (seed_history C S (fact_table revn) ''before'') C S revn"

section \<open>Reading a merged row\<close>

definition entity_cells :: "dist_db \<Rightarrow> string \<Rightarrow> string \<Rightarrow> (string \<times> string) list" where
  "entity_cells db table entity =
     sort_key fst (List.map (\<lambda>((_, _, field), (_, value)). (field, value))
       (filter (\<lambda>((t, e, _), _). t = table \<and> e = entity) (cells db)))"

definition read_field ::
    "codec \<Rightarrow> string \<times> string \<Rightarrow> (string \<times> json) list \<times> bool \<Rightarrow> ((string \<times> json) list \<times> bool) result" where
  "read_field C = (\<lambda>(name, text) (r, alive).
     case parse_json C text of
       None \<Rightarrow> Inl ''JSON''
     | Some value \<Rightarrow>
         if name = ''@alive'' then Inr (r, value = JBool True)
         else if name \<in> {''@row'', ''@lifecycle'', ''@storage'', ''@content''} then
           let r = (if name = ''@content'' then assoc_put ''@archived_body'' (json_index value ''body'') r else r)
           in (case as_object value of
                 None \<Rightarrow> Inl ''Invalid atomic field group''
               | Some kvs \<Rightarrow> Inr (fold (\<lambda>(k, v). assoc_put k v) kvs r, alive))
         else Inr (assoc_put name value r, alive))"

definition finish_issue :: "int option \<Rightarrow> (string \<times> json) list \<Rightarrow> (string \<times> json) list" where
  "finish_issue position r =
     (let r = (case position of None \<Rightarrow> r | Some p \<Rightarrow> assoc_put ''sort_order'' (JInt p) r);
          archived_body = map_of r ''@archived_body'';
          r = assoc_remove ''@archived_body'' r;
          r = (if json_index (JObject r) ''archive_key'' \<noteq> JNull
                  \<and> archived_body \<noteq> Some (json_index (JObject r) ''body'')
               then assoc_put ''archived_comments'' (JInt 0) (assoc_put ''archive_key'' JNull r)
               else r);
          snapshot = map_of r ''@requirements'';
          r = assoc_remove ''@requirements'' r
      in (if json_index (JObject r) ''state'' \<in> {JString ''closed'', JString ''ready''}
             \<and> snapshot \<noteq> Some (requirements (JObject r))
          then assoc_put ''closed_at'' JNull (assoc_put ''closed_by'' JNull
                 (assoc_put ''assignee'' JNull (assoc_put ''state'' (JString ''open'') r)))
          else r))"

definition row :: "codec \<Rightarrow> dist_db \<Rightarrow> string \<Rightarrow> json \<Rightarrow> json option result" where
  "row C db table key =
     and_then (fold_result (read_field C) (entity_cells db table (print_json C key))
                 (object_entries key, False))
       (\<lambda>(r, alive).
          if \<not> alive then Inr None
          else if table = ''issues''
          then Inr (Some (JObject (finish_issue
                 (case order_key key of None \<Rightarrow> None | Some k \<Rightarrow> position_of (order_view C db) k) r)))
          else Inr (Some (JObject r)))"


section \<open>The cells are the fold of the writes\<close>

definition put_cell :: "cell_key \<times> cell_value \<Rightarrow> cells \<Rightarrow> cells" where
  "put_cell = (\<lambda>(k, w) t. fst (lww_put k w t))"

text \<open>The merge of cells provides the strongest delivery contract.\<close>

interpretation cell_replica: commuting_replica "[] :: cells" put_cell
  by unfold_locales (auto simp: put_cell_def lww_put_commute lww_put_idem)

definition field_writes ::
    "codec \<Rightarrow> revision \<Rightarrow> json \<Rightarrow> (string \<times> json) list \<Rightarrow> (cell_key \<times> cell_value) list" where
  "field_writes C revn key cs =
     List.map (\<lambda>(field, value).
       ((fact_table revn, print_json C key, field), (fact_stamp revn, print_json C value))) cs"

definition own_writes :: "codec \<Rightarrow> schema \<Rightarrow> revision \<Rightarrow> (cell_key \<times> cell_value) list" where
  "own_writes C S revn =
     (if retired_table (fact_table revn) \<or> fact_table revn = ''issue_order'' then []
      else case (revision_entity S revn, changes revn) of
             (Inr key, Inr cs) \<Rightarrow> field_writes C revn key cs
           | _ \<Rightarrow> [])"

definition writes :: "codec \<Rightarrow> schema \<Rightarrow> revision \<Rightarrow> (cell_key \<times> cell_value) list" where
  "writes C S revn =
     (case fact_before revn of
        Some b \<Rightarrow> if history_table (fact_table revn)
                  then own_writes C S (baseline C (fact_table revn) ''before'' b) else []
      | None \<Rightarrow> []) @ own_writes C S revn"

lemma upsert_field_cells:
  "cells (fst (upsert_field C table entity st field value db)) =
     put_cell ((table, entity, field), (st, print_json C value)) (cells db)"
  by (simp add: upsert_field_def put_cell_def Let_def split: prod.splits)

lemma upsert_step_cells:
  "cells (fst (upsert_step C table entity st c dbs)) =
     put_cell ((table, entity, fst c), (st, print_json C (snd c))) (cells (fst dbs))"
  using upsert_field_cells [of C table entity st "fst c" "snd c" "fst dbs"]
  by (auto simp: upsert_step_def split: prod.splits)

lemma upsert_fold_cells:
  "cells (fst (fold (upsert_step C table entity st) cs dbs)) =
     fold put_cell (List.map (\<lambda>(field, value).
       ((table, entity, field), (st, print_json C value))) cs) (cells (fst dbs))"
  by (induction cs arbitrary: dbs) (auto simp: upsert_step_cells)

lemma upsert_all_cells:
  "cells (fst (upsert_all C table entity st cs db)) =
     fold put_cell (List.map (\<lambda>(field, value).
       ((table, entity, field), (st, print_json C value))) cs) (cells db)"
  by (simp add: upsert_all_def upsert_fold_cells)

lemma mark_dirty_cells [simp]: "cells (mark_dirty C revn entity changed db) = cells db"
  by (simp add: mark_dirty_def dirty_dependents_def Let_def split: option.splits)

lemma seed_position_cells: "seed_position C key db = Inr t \<Longrightarrow> cells t = cells db"
  by (auto simp: seed_position_def with_order_def split: option.splits)

lemma merge_revision_cells:
  assumes "merge_revision C revn key db = Inr t"
  shows "\<exists>cs. changes revn = Inr cs \<and> cells t = fold put_cell (field_writes C revn key cs) (cells db)"
proof -
  from assms obtain cs where cs: "changes revn = Inr cs"
    by (auto simp: merge_revision_def)
  obtain u x y where u: "upsert_all C (fact_table revn) (print_json C key) (fact_stamp revn) cs db = (u, x, y)"
    by (rule prod_cases3)
  with upsert_all_cells [of C "fact_table revn" "print_json C key" "fact_stamp revn" cs db]
  have "cells u = fold put_cell (field_writes C revn key cs) (cells db)"
    by (simp add: field_writes_def)
  with assms cs u show ?thesis
    by (auto simp: merge_revision_def Let_def dest!: seed_position_cells
        split: if_splits option.splits)
qed

lemma remember_page_cells: "remember_page C revn db = Inr t \<Longrightarrow> cells t = cells db"
  by (auto simp: remember_page_def split: if_splits option.splits)

lemma reduce_with_cells:
  assumes "reduce_with history C S revn db = Inr t"
    and "\<And>b db t. fact_before revn = Some b \<Longrightarrow> history_table (fact_table revn) \<Longrightarrow>
           history b db = Inr t \<Longrightarrow> cells t = fold put_cell (early b) (cells db)"
  shows "cells t = fold put_cell
     ((case fact_before revn of
         Some b \<Rightarrow> if history_table (fact_table revn) then early b else []
       | None \<Rightarrow> []) @ own_writes C S revn) (cells db)"
proof (cases "retired_table (fact_table revn) \<or> fact_table revn = ''issue_order''")
  case True
  then have "\<not> history_table (fact_table revn)"
    by (auto simp: retired_table_def history_table_def)
  with True assms(1) show ?thesis
    by (auto simp: reduce_with_def own_writes_def with_order_def split: if_splits option.splits)
next
  case False
  with assms(1) obtain p key h where p: "remember_page C revn db = Inr p"
    and key: "revision_entity S revn = Inr key"
    and h: "(case fact_before revn of
               Some b \<Rightarrow> if history_table (fact_table revn) then history b p else Inr p
             | None \<Rightarrow> Inr p) = Inr h"
    and t: "merge_revision C revn key h = Inr t"
    by (auto simp: reduce_with_def split: if_splits)
  from merge_revision_cells [OF t] obtain cs where "changes revn = Inr cs"
    "cells t = fold put_cell (field_writes C revn key cs) (cells h)" by blast
  then have "cells t = fold put_cell (own_writes C S revn) (cells h)"
    using False key by (simp add: own_writes_def)
  moreover have "cells h = fold put_cell (case fact_before revn of
         Some b \<Rightarrow> if history_table (fact_table revn) then early b else []
       | None \<Rightarrow> []) (cells db)"
    using h assms(2) remember_page_cells [OF p] by (auto split: option.splits if_splits)
  ultimately show ?thesis by simp
qed

lemma seed_history_cells:
  assumes "seed_history C S table source r db = Inr t"
  shows "cells t = fold put_cell (own_writes C S (baseline C table source r)) (cells db)"
  using reduce_with_cells [OF assms [unfolded seed_history_def], where early = "\<lambda>_. []"]
  by (simp add: baseline_def)

lemma reduce_cells:
  assumes "reduce C S revn db = Inr t"
  shows "cells t = fold put_cell (writes C S revn) (cells db)"
  using reduce_with_cells [OF assms [unfolded reduce_def],
      where early = "\<lambda>b. own_writes C S (baseline C (fact_table revn) ''before'' b)"]
  by (simp add: writes_def seed_history_cells)

lemma reduce_all_cells:
  "fold_result (reduce C S) fs db = Inr t \<Longrightarrow>
     cells t = fold put_cell (concat (List.map (writes C S) fs)) (cells db)"
proof (induction fs arbitrary: db)
  case Nil
  then show ?case by simp
next
  case (Cons f fs)
  then obtain u where "reduce C S f db = Inr u" "fold_result (reduce C S) fs u = Inr t" by auto
  with Cons.IH [of u] reduce_cells [of C S f db u] show ?case by simp
qed

lemma put_cell_subset: "set (put_cell c t) \<subseteq> insert c (set t)"
proof -
  have "set (assoc_put k w t) \<subseteq> insert (k, w) (set t)" for k w and t :: cells
    by (induction k w t rule: assoc_put.induct) auto
  then show ?thesis by (auto simp: put_cell_def lww_put_def split: prod.splits option.splits)
qed

lemma fold_put_subset: "set (fold put_cell cs t) \<subseteq> set cs \<union> set t"
proof (induction cs arbitrary: t)
  case Nil
  then show ?case by simp
next
  case (Cons c cs)
  then show ?case using put_cell_subset [of c t] by fastforce
qed


section \<open>The queue inside the merged rows\<close>

text \<open>
  The base coordinates are the \<open>sort_order\<close> cells. A merge that writes one seeds the
  position of its issue, so the positions are at every moment the replay of the later
  rotations over the cells.
\<close>

definition queue_exact :: "codec \<Rightarrow> dist_db \<Rightarrow> bool" where
  "queue_exact C db \<longleftrightarrow> order_exact (parse_i64 C) (order_view C db)"

definition same_queue :: "dist_db \<Rightarrow> dist_db \<Rightarrow> bool" where
  "same_queue s t \<longleftrightarrow> dist_rotations s = dist_rotations t \<and> dist_positions s = dist_positions t"

definition coordinates :: "codec \<Rightarrow> cells \<Rightarrow> string \<times> int \<Rightarrow> coordinate option" where
  "coordinates C cs k = find (\<lambda>c. ckey c = k) (List.map_filter (coordinate_of C) cs)"

lemma base_of_view: "base_of (order_view C db) = coordinates C (cells db)"
  by (simp add: base_of_def order_view_def coordinates_def fun_eq_iff)

lemma queue_exact_iff:
  "queue_exact C db \<longleftrightarrow> distinct (List.map rkey (dist_rotations db)) \<and>
     dist_positions db = expected (parse_i64 C) (order_view C db)"
  by (simp add: queue_exact_def order_exact_def order_view_def)

lemma expected_view_cong:
  assumes "coordinates C (cells s) k = coordinates C (cells t) k"
    and "dist_rotations s = dist_rotations t"
  shows "expected parse (order_view C s) k = expected parse (order_view C t) k"
proof -
  have "later_rotations (order_view C s) = later_rotations (order_view C t)"
    using assms(2) by (intro later_rotations_cong) (simp add: order_view_def)
  with assms(1) show ?thesis unfolding expected_def base_of_view by presburger
qed

lemma queue_exact_cong:
  assumes "same_queue s t" and "coordinates C (cells s) = coordinates C (cells t)"
  shows "queue_exact C s \<longleftrightarrow> queue_exact C t"
proof -
  have "expected (parse_i64 C) (order_view C s) = expected (parse_i64 C) (order_view C t)"
    using assms by (intro ext expected_view_cong) (simp_all add: same_queue_def)
  with assms(1) show ?thesis by (simp add: queue_exact_iff same_queue_def)
qed

lemma coordinates_Cons:
  "coordinates C (x # cs) k =
     (case coordinate_of C x of
        None \<Rightarrow> coordinates C cs k
      | Some c \<Rightarrow> if ckey c = k then Some c else coordinates C cs k)"
  by (simp add: coordinates_def List.map_filter_simps split: option.split)

lemma coordinates_Nil [simp]: "coordinates C [] k = None"
  by (simp add: coordinates_def List.map_filter_simps)

lemma coordinates_assoc_put:
  assumes "\<And>v c. coordinate_of C (key, v) = Some c \<Longrightarrow> ckey c \<noteq> k"
  shows "coordinates C (assoc_put key w cs) k = coordinates C cs k"
proof -
  have skip: "coordinates C ((key, v) # cs) k = coordinates C cs k" for v cs
    using assms by (simp add: coordinates_Cons split: option.split)
  show ?thesis
  proof (induction cs)
    case Nil
    then show ?case using skip by simp
  next
    case (Cons x cs)
    obtain j v where x: "x = (j, v)" by (rule prod.exhaust)
    show ?case
    proof (cases "key = j")
      case True
      then show ?thesis using skip by (simp add: x True [symmetric])
    next
      case False
      with Cons show ?thesis by (simp add: x skip coordinates_Cons [of C "(j, v)"] split: option.split)
    qed
  qed
qed

text \<open>The issue that the coordinate of a row's text belongs to.\<close>

definition queue_key :: "codec \<Rightarrow> string \<Rightarrow> (string \<times> int) option" where
  "queue_key C entity =
     (case parse_json C entity of None \<Rightarrow> None | Some k \<Rightarrow> order_key k)"

lemma coordinate_of_key:
  "coordinate_of C ((table, entity, field), w) = Some c \<Longrightarrow>
     table = ''issues'' \<and> field = ''sort_order'' \<and> queue_key C entity = Some (ckey c)"
  by (auto simp: coordinate_of_def queue_key_def split: if_splits option.splits prod.splits)

lemma upsert_field_queue:
  assumes "upsert_field C table entity st field value db = (db', accepted)"
  shows "same_queue db' db"
    and "queue_key C entity \<noteq> Some k \<or> \<not> (accepted \<and> table = ''issues'' \<and> field = ''sort_order'')
      \<Longrightarrow> coordinates C (cells db') k = coordinates C (cells db) k"
proof -
  show "same_queue db' db"
    using assms by (auto simp: upsert_field_def same_queue_def Let_def split: prod.splits)
  have put: "lww_put (table, entity, field) (st, print_json C value) (cells db) = (cells db', accepted)"
    using assms by (auto simp: upsert_field_def Let_def split: prod.splits)
  assume "queue_key C entity \<noteq> Some k \<or> \<not> (accepted \<and> table = ''issues'' \<and> field = ''sort_order'')"
  then consider "\<not> accepted"
    | "\<forall>v c. coordinate_of C ((table, entity, field), v) = Some c \<longrightarrow> ckey c \<noteq> k"
    using coordinate_of_key by metis
  then show "coordinates C (cells db') k = coordinates C (cells db) k"
  proof cases
    case 1
    with put show ?thesis by (auto simp: lww_put_def split: option.splits if_splits)
  next
    case 2
    then have same: "coordinates C (assoc_put (table, entity, field) w cs) k = coordinates C cs k" for w cs
      by (intro coordinates_assoc_put) blast
    from put have "cells db' = cells db \<or>
        cells db' = assoc_put (table, entity, field) (st, print_json C value) (cells db)"
      by (auto simp: lww_put_def split: option.splits if_splits)
    with same show ?thesis by metis
  qed
qed

lemma same_queue_trans: "same_queue s t \<Longrightarrow> same_queue t u \<Longrightarrow> same_queue s u"
  by (simp add: same_queue_def)

lemma upsert_fold_queue:
  "fold (upsert_step C table entity st) cs (db, changed, oc) = (db', changed', oc') \<Longrightarrow>
     same_queue db' db \<and> (oc \<longrightarrow> oc') \<and>
     (queue_key C entity \<noteq> Some k \<or> \<not> oc' \<longrightarrow>
        coordinates C (cells db') k = coordinates C (cells db) k)"
proof (induction cs arbitrary: db changed oc)
  case Nil
  then show ?case by (simp add: same_queue_def)
next
  case (Cons c cs)
  obtain field v where c: "c = (field, v)" by (rule prod.exhaust)
  obtain u a where u: "upsert_field C table entity st field v db = (u, a)" by (rule prod.exhaust)
  define oc1 where "oc1 \<longleftrightarrow> oc \<or> a \<and> table = ''issues'' \<and> field = ''sort_order''"
  have "fold (upsert_step C table entity st) cs (u, changed \<or> a, oc1) = (db', changed', oc')"
    using Cons.prems by (simp add: c upsert_step_def u oc1_def)
  note IH = Cons.IH [OF this]
  have "same_queue db' db" using same_queue_trans [of db' u db] IH upsert_field_queue(1) [OF u] by blast
  moreover have "oc \<longrightarrow> oc'" using IH by (simp add: oc1_def)
  moreover have "coordinates C (cells db') k = coordinates C (cells db) k"
    if "queue_key C entity \<noteq> Some k \<or> \<not> oc'"
  proof -
    have "queue_key C entity \<noteq> Some k \<or> \<not> (a \<and> table = ''issues'' \<and> field = ''sort_order'')"
      using that IH by (auto simp: oc1_def)
    from upsert_field_queue(2) [OF u this] IH that show ?thesis by simp
  qed
  ultimately show ?case by blast
qed

lemma seed_position_queue:
  assumes "seed_position C key db = Inr t"
  obtains k where "order_key key = Some k" "cells t = cells db"
    "dist_rotations t = dist_rotations db"
    "\<And>j. dist_positions t j = (if j = k \<and> coordinates C (cells db) j \<noteq> None
       then expected (parse_i64 C) (order_view C db) j else dist_positions db j)"
proof -
  from assms obtain k q where k: "order_key key = Some k"
    and q: "seed (parse_i64 C) k (order_view C db) = Inr q" and t: "t = with_order db q"
    by (auto simp: seed_position_def split: option.splits)
  from seed_done [OF q] show ?thesis
    by (intro that [OF k])
      (auto simp: t with_order_def seeded_def base_of_view, simp_all add: order_view_def)
qed

lemma mark_dirty_rotations [simp]:
  "dist_rotations (mark_dirty C revn entity changed db) = dist_rotations db"
  by (simp add: mark_dirty_def dirty_dependents_def Let_def split: option.splits)

lemma mark_dirty_positions [simp]:
  "dist_positions (mark_dirty C revn entity changed db) = dist_positions db"
  by (simp add: mark_dirty_def dirty_dependents_def Let_def split: option.splits)

text \<open>The issue whose coordinate a cell holds depends on the cell's key only.\<close>

definition cell_queue_key :: "codec \<Rightarrow> cell_key \<Rightarrow> (string \<times> int) option" where
  "cell_queue_key C = (\<lambda>(table, entity, field).
     if table = ''issues'' \<and> field = ''sort_order'' then queue_key C entity else None)"

lemma coordinate_of_cell: "map_option ckey (coordinate_of C (key, w)) = cell_queue_key C key"
  by (cases key; cases w)
    (auto simp: coordinate_of_def cell_queue_key_def queue_key_def split: option.split)

lemma coordinates_None:
  "coordinates C cs k = None \<longleftrightarrow> (\<forall>key \<in> fst ` set cs. cell_queue_key C key \<noteq> Some k)"
proof (induction cs)
  case Nil
  then show ?case by simp
next
  case (Cons x cs)
  obtain key w where x: "x = (key, w)" by (rule prod.exhaust)
  from Cons coordinate_of_cell [of C key w] show ?case
    by (cases "coordinate_of C (key, w)") (auto simp: x coordinates_Cons)
qed

lemma coordinates_kept:
  assumes "coordinates C (assoc_put key w cs) k = None"
  shows "coordinates C cs k = None"
proof -
  have "fst ` set cs \<subseteq> fst ` set (assoc_put key w cs)"
    by (induction key w cs rule: assoc_put.induct) auto
  with assms show ?thesis unfolding coordinates_None by blast
qed

lemma put_cell_kept:
  "coordinates C (put_cell c cs) k = None \<Longrightarrow> coordinates C cs k = None"
  using coordinates_kept [of C "fst c" "snd c" cs k]
  by (cases c) (auto simp: put_cell_def lww_put_def simp del: assoc_put.simps
      split: option.splits if_splits)

lemma fold_put_kept:
  "coordinates C (fold put_cell ws cs) k = None \<Longrightarrow> coordinates C cs k = None"
  by (induction ws arbitrary: cs) (auto dest: put_cell_kept)

lemma upsert_all_kept:
  assumes "upsert_all C table entity st ws db = (u, changed, oc)"
    and "coordinates C (cells u) k = None"
  shows "coordinates C (cells db) k = None"
  using upsert_all_cells [of C table entity st ws db] assms fold_put_kept
  by (metis fst_conv)

lemma merge_revision_queue:
  assumes ex: "queue_exact C db" and run: "merge_revision C revn key db = Inr t"
  shows "queue_exact C t \<and> dist_rotations t = dist_rotations db"
proof -
  let ?e = "print_json C key"
  obtain cs u changed oc v where
    up: "upsert_all C (fact_table revn) ?e (fact_stamp revn) cs db = (u, changed, oc)"
    and v: "(if oc then (case parse_json C ?e of None \<Rightarrow> Inl ''JSON'' | Some k \<Rightarrow> seed_position C k u)
       else Inr u) = Inr v"
    and t: "t = mark_dirty C revn ?e changed (v\<lparr>dist_clock := max (dist_clock v) (fact_clock revn)\<rparr>)"
  proof -
    from run obtain cs where cs: "changes revn = Inr cs" by (auto simp: merge_revision_def)
    obtain u changed oc where up: "upsert_all C (fact_table revn) ?e (fact_stamp revn) cs db = (u, changed, oc)"
      by (rule prod_cases3)
    from run that [OF up] show ?thesis by (auto simp: merge_revision_def Let_def cs up)
  qed
  note up' = up [unfolded upsert_all_def]
  have u: "same_queue u db"
    "queue_key C ?e \<noteq> Some k \<or> \<not> oc \<Longrightarrow> coordinates C (cells u) k = coordinates C (cells db) k" for k
    using upsert_fold_queue [OF up'] by blast+
  have pos: "dist_positions db = expected (parse_i64 C) (order_view C db)"
    using ex by (simp add: queue_exact_iff)
  have "queue_exact C v \<and> dist_rotations v = dist_rotations db"
  proof (cases oc)
    case False
    with v u show ?thesis
      using queue_exact_cong [OF u(1), of C] ex by (auto simp: same_queue_def fun_eq_iff)
  next
    case True
    with v obtain pk where pk: "parse_json C ?e = Some pk" "seed_position C pk u = Inr v"
      by (auto split: option.splits)
    from pk(2) obtain k where k: "order_key pk = Some k" "cells v = cells u"
      "dist_rotations v = dist_rotations u"
      and set: "\<And>j. dist_positions v j = (if j = k \<and> coordinates C (cells u) j \<noteq> None
         then expected (parse_i64 C) (order_view C u) j else dist_positions u j)"
      by (rule seed_position_queue) (rule that; assumption)
    have "dist_positions v j = expected (parse_i64 C) (order_view C u) j" for j
    proof (cases "j = k \<and> coordinates C (cells u) j \<noteq> None")
      case True
      then show ?thesis by (subst set) (rule if_P)
    next
      case False
      then have "coordinates C (cells u) j = coordinates C (cells db) j"
        using u(2) [of j] upsert_all_kept [OF up, of j] pk(1) k(1)
        by (cases "j = k") (simp_all add: queue_key_def)
      then have "expected (parse_i64 C) (order_view C u) j = dist_positions db j"
        using expected_view_cong [of C u j db] u(1) pos by (simp add: same_queue_def)
      with set False u(1) show ?thesis by (auto simp: same_queue_def)
    qed
    moreover have "expected (parse_i64 C) (order_view C v) = expected (parse_i64 C) (order_view C u)"
      using k by (intro ext expected_view_cong) simp_all
    ultimately show ?thesis using ex k(3) u(1) by (simp add: queue_exact_iff same_queue_def fun_eq_iff)
  qed
  moreover have "same_queue t v"
    by (simp add: t same_queue_def)
  moreover have "cells t = cells v" by (simp add: t)
  ultimately show ?thesis using queue_exact_cong [of t v C] by (simp add: same_queue_def)
qed

definition queue_rotations :: "revision \<Rightarrow> rotation set" where
  "queue_rotations revn =
     (if fact_table revn = ''issue_order''
      then (case rotation_of revn of Inl _ \<Rightarrow> {} | Inr r \<Rightarrow> {r}) else {})"

lemma remember_page_queue: "remember_page C revn db = Inr t \<Longrightarrow> same_queue t db"
  by (auto simp: remember_page_def same_queue_def split: if_splits option.splits)

lemma reduce_with_queue:
  assumes ex: "queue_exact C db" and run: "reduce_with history C S revn db = Inr t"
    and early: "\<And>b db t. history_table (fact_table revn) \<Longrightarrow> queue_exact C db \<Longrightarrow>
       history b db = Inr t \<Longrightarrow> queue_exact C t \<and> dist_rotations t = dist_rotations db"
  shows "queue_exact C t \<and> set (dist_rotations t) = queue_rotations revn \<union> set (dist_rotations db)"
proof (cases "fact_table revn = ''issue_order''")
  case True
  then have "\<not> retired_table (fact_table revn)" by (simp add: retired_table_def)
  with True run obtain q where q: "reduce_order (parse_i64 C) revn (order_view C db) = Inr q"
    and t: "t = with_order db q"
    by (auto simp: reduce_with_def split: if_splits)
  from q obtain r where r: "rotation_of revn = Inr r"
    "record_rotation (parse_i64 C) r (order_view C db) = Inr q" by (auto simp: reduce_order_def)
  from record_rotation_exact [OF ex [unfolded queue_exact_def] r(2)]
  have q: "order_exact (parse_i64 C) q" "base_fields q = base_fields (order_view C db)"
    "set (rotations q) = insert r (set (dist_rotations db))" by (auto simp: order_view_def)
  have "order_view C t = q"
    using q(2) by (simp add: t with_order_def order_view_def)
  with q r True show ?thesis by (simp add: queue_exact_def queue_rotations_def t with_order_def)
next
  case False
  show ?thesis
  proof (cases "retired_table (fact_table revn)")
    case True
    with False run ex show ?thesis by (auto simp: reduce_with_def queue_rotations_def split: if_splits)
  next
    case retired: False
    with False run obtain p key h where p: "remember_page C revn db = Inr p"
      and h: "(case fact_before revn of
               Some b \<Rightarrow> if history_table (fact_table revn) then history b p else Inr p
             | None \<Rightarrow> Inr p) = Inr h"
      and t: "merge_revision C revn key h = Inr t"
      by (auto simp: reduce_with_def split: if_splits)
    have "queue_exact C p" "dist_rotations p = dist_rotations db"
      using queue_exact_cong [OF remember_page_queue [OF p], of C] remember_page_cells [OF p]
        remember_page_queue [OF p] ex by (auto simp: same_queue_def)
    with h early have "queue_exact C h" "dist_rotations h = dist_rotations db"
      by (auto split: option.splits if_splits)
    with merge_revision_queue [OF _ t] False show ?thesis by (simp add: queue_rotations_def)
  qed
qed

lemma seed_history_queue:
  assumes "queue_exact C db" and "seed_history C S table source r db = Inr t"
    and "history_table table"
  shows "queue_exact C t \<and> dist_rotations t = dist_rotations db"
proof -
  have table: "table \<noteq> ''issue_order''" "\<not> retired_table table"
    using assms(3) by (auto simp: history_table_def retired_table_def)
  from assms(2) obtain p key where "remember_page C (baseline C table source r) db = Inr p"
    "merge_revision C (baseline C table source r) key p = Inr t"
    using table by (auto simp: seed_history_def reduce_with_def baseline_def split: if_splits)
  moreover have "p = db" using assms(3) calculation(1)
    by (auto simp: remember_page_def baseline_def history_table_def)
  ultimately show ?thesis using merge_revision_queue [OF assms(1)] by blast
qed

lemma reduce_queue:
  assumes "queue_exact C db" and "reduce C S revn db = Inr t"
  shows "queue_exact C t \<and> set (dist_rotations t) = queue_rotations revn \<union> set (dist_rotations db)"
  using reduce_with_queue [OF assms(1) assms(2) [unfolded reduce_def]] seed_history_queue by blast

lemma reduce_all_queue:
  "fold_result (reduce C S) fs db = Inr t \<Longrightarrow> queue_exact C db \<Longrightarrow>
     queue_exact C t \<and>
     set (dist_rotations t) = (\<Union>f \<in> set fs. queue_rotations f) \<union> set (dist_rotations db)"
proof (induction fs arbitrary: db)
  case Nil
  then show ?case by simp
next
  case (Cons f fs)
  then obtain u where u: "reduce C S f db = Inr u" "fold_result (reduce C S) fs u = Inr t" by auto
  from reduce_queue [OF Cons.prems(2) u(1)] Cons.IH [OF u(2)] show ?case by auto
qed

lemma empty_dist_queue: "queue_exact C empty_dist"
  by (auto simp: queue_exact_iff empty_dist_def expected_def base_of_def order_view_def
      List.map_filter_simps fun_eq_iff)

section \<open>What a revision writes\<close>

definition canonical_object :: "json option \<Rightarrow> bool" where
  \<comment> \<open>the keys of a map are distinct\<close>
  "canonical_object r =
     (case r of None \<Rightarrow> True | Some v \<Rightarrow> distinct (List.map fst (object_entries v)))"

abbreviation sorted_keys :: "(string \<times> 'v) list \<Rightarrow> bool" where
  "sorted_keys kvs \<equiv> sorted_wrt (<) (List.map fst kvs)"

lemma sorted_keys_distinct: "sorted_keys kvs \<Longrightarrow> distinct (List.map fst kvs)"
  by (simp add: strict_sorted_iff)

lemma map_of_rev: "distinct (List.map fst kvs) \<Longrightarrow> map_of (rev kvs) = map_of kvs"
proof (rule ext)
  fix k
  assume d: "distinct (List.map fst kvs)"
  then have r: "distinct (List.map fst (rev kvs))" by (simp flip: rev_map)
  show "map_of (rev kvs) k = map_of kvs k"
  proof (cases "map_of kvs k")
    case None
    then have "map_of (rev kvs) k = None" by (simp add: map_of_eq_None_iff)
    with None show ?thesis by simp
  next
    case (Some v)
    with d have "(k, v) \<in> set (rev kvs)" by simp
    with r Some show ?thesis by simp
  qed
qed

definition group_entries :: "(string \<times> json) list \<Rightarrow> string \<Rightarrow> (string \<times> json) list" where
  "group_entries fs g = (case map_of fs g of None \<Rightarrow> [] | Some v \<Rightarrow> object_entries v)"

lemma object_entries_JObject [simp]: "object_entries (JObject kvs) = kvs"
  by (simp add: object_entries_def as_object_def)

lemma group_plain:
  assumes "\<not> starts_with ''@'' (group table n)"
  shows "group table n = n"
proof -
  have "group table n \<in> {''@lifecycle'', ''@storage'', ''@row'', n}"
    unfolding group_def by (simp split: if_split)
  moreover have "starts_with ''@'' ''@lifecycle''" "starts_with ''@'' ''@storage''" "starts_with ''@'' ''@row''"
    by (simp_all add: starts_with_def)
  ultimately show ?thesis using assms by fastforce
qed

lemma fields_step_group:
  assumes "table \<noteq> ''project_settings''" and "starts_with ''@'' g"
  shows "group_entries (fields_step table (n, v) fs) g =
     (if group table n = g then assoc_put n v (group_entries fs g) else group_entries fs g)"
proof (cases "starts_with ''@'' (group table n)")
  case True
  with assms(1) show ?thesis by (simp add: fields_step_def group_entries_def Let_def)
next
  case False
  with group_plain [OF False] assms show ?thesis
    by (auto simp: fields_step_def group_entries_def Let_def)
qed

lemma fields_step_sorted: "sorted_keys fs \<Longrightarrow> sorted_keys (fields_step table c fs)"
  by (auto simp: fields_step_def Let_def strict_sorted_assoc_put split: prod.splits)

lemma fold_fields_sorted: "sorted_keys fs \<Longrightarrow> sorted_keys (fold (fields_step table) kvs fs)"
  by (induction kvs arbitrary: fs) (auto simp: fields_step_sorted)

lemma fold_fields_group:
  assumes "table \<noteq> ''project_settings''" and "starts_with ''@'' g"
  shows "map_of (group_entries (fold (fields_step table) kvs fs) g) n =
     (if group table n = g
      then (case map_of (rev kvs) n of None \<Rightarrow> map_of (group_entries fs g) n | Some v \<Rightarrow> Some v)
      else map_of (group_entries fs g) n)"
proof (induction kvs rule: rev_induct)
  case Nil
  then show ?case by simp
next
  case (snoc c kvs)
  obtain k v where "c = (k, v)" by (rule prod.exhaust)
  with snoc assms show ?case by (auto simp: fields_step_group)
qed

definition groups_are_objects :: "(string \<times> json) list \<Rightarrow> bool" where
  "groups_are_objects fs \<longleftrightarrow>
     (\<forall>g v. (g, v) \<in> set fs \<longrightarrow> starts_with ''@'' g \<longrightarrow> (\<exists>kvs. v = JObject kvs \<and> sorted_keys kvs))"

lemma set_assoc_put: "set (assoc_put k w t) \<subseteq> insert (k, w) (set t)"
  by (induction k w t rule: assoc_put.induct) auto

lemma groups_are_objects_put:
  assumes "groups_are_objects fs"
    and "starts_with ''@'' g \<Longrightarrow> \<exists>kvs. v = JObject kvs \<and> sorted_keys kvs"
  shows "groups_are_objects (assoc_put g v fs)"
  using assms set_assoc_put [of g v fs] unfolding groups_are_objects_def by blast

lemma groups_are_objects_entries:
  assumes "groups_are_objects fs" and "starts_with ''@'' g"
  shows "sorted_keys (case map_of fs g of None \<Rightarrow> [] | Some v \<Rightarrow> object_entries v)"
proof (cases "map_of fs g")
  case None
  then show ?thesis by simp
next
  case (Some v)
  then have "(g, v) \<in> set fs" by (rule map_of_SomeD)
  with assms obtain kvs where "v = JObject kvs" "sorted_keys kvs"
    unfolding groups_are_objects_def by blast
  with Some show ?thesis by simp
qed

lemma fields_step_groups:
  assumes "groups_are_objects fs"
  shows "groups_are_objects (fields_step table c fs)"
proof -
  obtain n v where c: "c = (n, v)" by (rule prod.exhaust)
  show ?thesis
  proof (cases "starts_with ''@'' (group table n)")
    case True
    with assms show ?thesis
      by (auto simp: c fields_step_def Let_def intro!: groups_are_objects_put
          strict_sorted_assoc_put groups_are_objects_entries)
  next
    case False
    with group_plain [OF False] assms show ?thesis
      by (auto simp: c fields_step_def Let_def intro!: groups_are_objects_put)
  qed
qed

lemma fold_fields_groups:
  "groups_are_objects fs \<Longrightarrow> groups_are_objects (fold (fields_step table) kvs fs)"
  by (induction kvs arbitrary: fs) (auto simp: fields_step_groups)

lemma fields_or_empty_ok:
  assumes "fields_or_empty table r = Inr fs"
  shows "sorted_keys fs \<and> groups_are_objects fs"
  using assms fold_fields_sorted [of "[]" table] fold_fields_groups [of "[]" table]
  by (auto simp: fields_or_empty_def fields_def groups_are_objects_def split: option.splits)

lemma filter_sorted_keys: "sorted_keys fs \<Longrightarrow> sorted_keys (filter P fs)"
  by (induction fs) auto

lemma annotate_sorted: "sorted_keys cs \<Longrightarrow> sorted_keys (annotate g n v cs)"
  by (simp add: annotate_def strict_sorted_assoc_put split: option.split)

lemma annotate_keys: "fst ` set (annotate g n v cs) = fst ` set cs"
  by (auto simp: annotate_def split: option.split dest: map_of_SomeD) (force dest: map_of_SomeD)+

lemma annotate_lookup:
  "map_of (annotate g n v cs) k =
     (if k = g then map_option (\<lambda>w. JObject (assoc_put n v (object_entries w))) (map_of cs g)
      else map_of cs k)"
  by (simp add: annotate_def split: option.split)

lemma changes_sorted: "changes revn = Inr cs \<Longrightarrow> sorted_keys cs"
  by (auto simp: changes_def annotate_issue_def changed_fields_def Let_def
      dest!: fields_or_empty_ok intro!: strict_sorted_assoc_put filter_sorted_keys annotate_sorted)

text \<open>
  A written group holds the columns of the group in the after-image, and the lifecycle
  group a snapshot of the requirements.
\<close>

lemma changed_group:
  assumes "fields_or_empty table (fact_after revn) = Inr af" and "map_of (filter P af) g = Some w"
    and "starts_with ''@'' g" and "table \<noteq> ''project_settings''"
    and "canonical_object (fact_after revn)"
  shows "\<exists>a. fact_after revn = Some a \<and> sorted_keys (object_entries w) \<and>
     (\<forall>c. map_of (object_entries w) c =
        (if group table c = g then map_of (object_entries a) c else None))"
proof -
  have "(g, w) \<in> set af" using map_of_SomeD [OF assms(2)] by auto
  with fields_or_empty_ok [OF assms(1)] have look: "map_of af g = Some w"
    by (simp add: sorted_keys_distinct)
  with groups_are_objects_entries [of af g] fields_or_empty_ok [OF assms(1)] assms(3)
  have sorted: "sorted_keys (object_entries w)" by simp
  from look assms(1) obtain a kvs where a: "fact_after revn = Some a" "as_object a = Some kvs"
    and af: "af = fold (fields_step table) kvs []"
    by (auto simp: fields_or_empty_def fields_def split: option.splits)
  from a have entries: "object_entries a = kvs" by (simp add: object_entries_def)
  have "map_of (object_entries w) c = (if group table c = g then map_of kvs c else None)" for c
  proof -
    have "map_of (group_entries af g) c = (if group table c = g
      then (case map_of (rev kvs) c of None \<Rightarrow> map_of (group_entries [] g) c | Some v \<Rightarrow> Some v)
      else map_of (group_entries [] g) c)"
      unfolding af by (rule fold_fields_group [OF assms(4,3)])
    moreover have "map_of (rev kvs) = map_of kvs"
      using assms(5) a entries by (intro map_of_rev) (simp add: canonical_object_def)
    ultimately show ?thesis
      using look by (auto simp: group_entries_def split: option.splits)
  qed
  with a entries sorted show ?thesis by blast
qed

lemma changes_issues:
  assumes "fact_table revn = ''issues''" and "changes revn = Inr cs"
  obtains bf af where "fields_or_empty ''issues'' (fact_after revn) = Inr af"
    and "\<forall>g. g \<noteq> ''@alive'' \<longrightarrow>
      map_of cs g = map_of (annotate_issue (after_row revn) (changed_fields bf af)) g"
    and "fst ` set cs \<subseteq> insert ''@alive'' (fst ` set af)"
proof -
  from assms(2) obtain bf af where bf: "fields_or_empty ''issues'' (fact_before revn) = Inr bf"
    and af: "fields_or_empty ''issues'' (fact_after revn) = Inr af"
    by (auto simp: changes_def assms(1))
  let ?cs = "annotate_issue (after_row revn) (changed_fields bf af)"
  have "cs = ?cs \<or> (\<exists>b. cs = assoc_put ''@alive'' b ?cs)
      \<or> (\<exists>b c. cs = assoc_put ''@alive'' b (assoc_put ''@alive'' c ?cs))"
    using assms(2) by (auto simp: changes_def assms(1) bf af Let_def split: if_splits)
  then have *: "g \<noteq> ''@alive'' \<Longrightarrow> map_of cs g = map_of ?cs g"
    "fst ` set cs \<subseteq> insert ''@alive'' (fst ` set ?cs)" for g
    by (elim disjE exE; simp; blast)+
  have "fst ` set ?cs \<subseteq> fst ` set af"
    by (auto simp: annotate_issue_def annotate_keys changed_fields_def)
  with * have "fst ` set cs \<subseteq> insert ''@alive'' (fst ` set af)" by blast
  with that [OF af] *(1) show ?thesis by blast
qed

lemma changes_annotated:
  assumes "fact_table revn = ''issues''" and "changes revn = Inr cs" and "(g, v) \<in> set cs"
    and "canonical_object (fact_after revn)"
    and g: "g = ''@lifecycle'' \<and> n = ''@requirements'' \<and> x = requirements (after_row revn)
       \<or> g = ''@storage'' \<and> n = ''@archived_body'' \<and> x = json_index (after_row revn) ''body''"
  shows "\<exists>a kvs. fact_after revn = Some a \<and> v = JObject kvs \<and> sorted_keys kvs \<and>
     map_of kvs n = Some x \<and>
     (\<forall>c. c \<noteq> n \<longrightarrow> map_of kvs c =
        (if group ''issues'' c = g then map_of (object_entries a) c else None))"
proof -
  obtain bf af where af: "fields_or_empty ''issues'' (fact_after revn) = Inr af"
    and cs: "\<forall>g. g \<noteq> ''@alive'' \<longrightarrow>
      map_of cs g = map_of (annotate_issue (after_row revn) (changed_fields bf af)) g"
    and "fst ` set cs \<subseteq> insert ''@alive'' (fst ` set af)"
    using assms(1,2) by (rule changes_issues) blast
  have "map_of cs g = Some v"
    using assms(3) sorted_keys_distinct [OF changes_sorted [OF assms(2)]] by simp
  moreover have "map_of cs g = map_option (\<lambda>w. JObject (assoc_put n x (object_entries w)))
      (map_of (changed_fields bf af) g)"
    using g cs by (auto simp: annotate_issue_def annotate_lookup)
  ultimately obtain w where w: "map_of (changed_fields bf af) g = Some w"
    and v: "v = JObject (assoc_put n x (object_entries w))" by auto
  from g have "starts_with ''@'' g" by (auto simp: starts_with_def)
  from changed_group [OF af w [unfolded changed_fields_def] this] assms(4)
  obtain a where a: "fact_after revn = Some a" "sorted_keys (object_entries w)"
    "\<forall>c. map_of (object_entries w) c =
        (if group ''issues'' c = g then map_of (object_entries a) c else None)" by auto
  have "sorted_keys (assoc_put n x (object_entries w))"
    using a(2) by (rule strict_sorted_assoc_put)
  moreover have "map_of (assoc_put n x (object_entries w)) n = Some x" by simp
  moreover have "\<forall>c. c \<noteq> n \<longrightarrow> map_of (assoc_put n x (object_entries w)) c =
        (if group ''issues'' c = g then map_of (object_entries a) c else None)" using a(3) by simp
  ultimately show ?thesis using a(1) v by blast
qed

lemma fold_fields_keys:
  "fst ` set (fold (fields_step table) kvs fs) \<subseteq> group table ` fst ` set kvs \<union> fst ` set fs"
proof (induction kvs arbitrary: fs)
  case Nil
  then show ?case by simp
next
  case (Cons c kvs)
  obtain n v where c: "c = (n, v)" by (rule prod.exhaust)
  have "fst ` set (fields_step table c fs) \<subseteq> insert (group table n) (fst ` set fs)"
    using group_plain [of table n]
    by (cases "starts_with ''@'' (group table n)") (auto simp: c fields_step_def Let_def)
  with Cons.IH [of "fields_step table c fs"] show ?case unfolding c by simp blast
qed

section \<open>Reading back what was written\<close>

text \<open>A cell leaves a column of the row alone unless it is the column's field or group.\<close>

definition leaves :: "codec \<Rightarrow> string \<Rightarrow> string \<times> string \<Rightarrow> bool" where
  "leaves C name = (\<lambda>(field, text). field \<noteq> ''@content'' \<and> field \<noteq> name \<and>
     (field \<in> {''@row'', ''@lifecycle'', ''@storage''} \<longrightarrow>
        (\<forall>v. parse_json C text = Some v \<longrightarrow> map_of (rev (object_entries v)) name = None)))"

lemma map_of_fold_put:
  "map_of (fold (\<lambda>(k, v). assoc_put k v) kvs r) name =
     (case map_of (rev kvs) name of None \<Rightarrow> map_of r name | Some v \<Rightarrow> Some v)"
  by (induction kvs arbitrary: r) (auto split: option.splits prod.splits)

lemma read_field_cases:
  assumes "read_field C (f, s) (r, alive) = Inr (r', alive')"
  obtains (alive) "f = ''@alive''" "r' = r"
  | (group) kvs where "f \<in> {''@row'', ''@lifecycle'', ''@storage'', ''@content''}"
      "parse_json C s = Some (JObject kvs)"
      "r' = fold (\<lambda>(k, v). assoc_put k v) kvs (if f = ''@content''
         then assoc_put ''@archived_body'' (json_index (JObject kvs) ''body'') r else r)"
  | (plain) v where "f \<notin> {''@alive'', ''@row'', ''@lifecycle'', ''@storage'', ''@content''}"
      "r' = assoc_put f v r"
proof -
  from assms obtain v where v: "parse_json C s = Some v"
    by (cases "parse_json C s") (simp_all add: read_field_def)
  consider "f = ''@alive''" | "f \<in> {''@row'', ''@lifecycle'', ''@storage'', ''@content''}"
    | "f \<notin> {''@alive'', ''@row'', ''@lifecycle'', ''@storage'', ''@content''}" by blast
  then show ?thesis
  proof cases
    case 1
    with assms v show ?thesis by (intro alive) (simp_all add: read_field_def)
  next
    case 2
    then have "f \<noteq> ''@alive''" by fastforce
    with assms v 2 obtain kvs where "v = JObject kvs" "r' = fold (\<lambda>(k, v). assoc_put k v) kvs
        (if f = ''@content'' then assoc_put ''@archived_body'' (json_index v ''body'') r else r)"
      by (cases v) (simp_all only: read_field_def prod.case option.case Let_def as_object_def
          json.case if_False if_True sum.inject prod.inject sum.distinct)
    with v 2 show ?thesis by (intro group) (simp_all only:)
  next
    case 3
    with assms v show ?thesis
      by (intro plain [of v]) (simp_all add: read_field_def)
  qed
qed

lemma read_field_leaves:
  assumes "read_field C c (r, alive) = Inr (r', alive')" and "leaves C name c"
  shows "map_of r' name = map_of r name"
proof -
  obtain f s where c: "c = (f, s)" by (rule prod.exhaust)
  from assms(2) c have l: "f \<noteq> ''@content''" "f \<noteq> name"
    "\<And>kvs. f \<in> {''@row'', ''@lifecycle'', ''@storage''} \<Longrightarrow> parse_json C s = Some (JObject kvs) \<Longrightarrow>
       map_of (rev kvs) name = None"
    by (fastforce simp: leaves_def)+
  show ?thesis
    using assms(1) unfolding c
  proof (cases rule: read_field_cases)
    case alive
    then show ?thesis by simp
  next
    case (group kvs)
    with l have "map_of (rev kvs) name = None" by (intro l(3)) simp_all
    with group(3) l(1) show ?thesis by (simp add: map_of_fold_put)
  next
    case plain
    with l(2) show ?thesis by simp
  qed
qed

lemma read_fields_leave:
  assumes "fold_result (read_field C) cs (r, alive) = Inr (r', alive')"
    and "\<forall>c \<in> set cs. leaves C name c"
  shows "map_of r' name = map_of r name"
  using assms
proof (induction cs arbitrary: r alive)
  case Nil
  then show ?case by simp
next
  case (Cons c cs)
  then obtain u b where "read_field C c (r, alive) = Inr (u, b)"
    "fold_result (read_field C) cs (u, b) = Inr (r', alive')" by auto
  with Cons read_field_leaves [of C c r alive u b name] show ?case by auto
qed

lemma read_field_sorted:
  assumes "read_field C c (r, alive) = Inr (r', alive')" and "sorted_keys r"
  shows "sorted_keys r'"
proof -
  have put: "sorted_keys (fold (\<lambda>(k, v). assoc_put k v) kvs r)" if "sorted_keys r" for kvs and r :: "(string \<times> json) list"
    using that by (induction kvs arbitrary: r) (auto simp: strict_sorted_assoc_put)
  obtain f s where "c = (f, s)" by (rule prod.exhaust)
  with assms(1) have "read_field C (f, s) (r, alive) = Inr (r', alive')" by simp
  then show ?thesis
    by (cases rule: read_field_cases) (simp_all add: assms(2) put strict_sorted_assoc_put)
qed

lemma read_fields_sorted:
  assumes "fold_result (read_field C) cs (r, alive) = Inr (r', alive')" and "sorted_keys r"
  shows "sorted_keys r'"
  using fold_result_invariant [OF assms(1), where P = "\<lambda>(r, _). sorted_keys r"] assms(2)
    read_field_sorted by fast

text \<open>The row read from the cells has the column of the one cell that does not leave it.\<close>

lemma read_fields_from_group:
  assumes "fold_result (read_field C) cs (r, alive) = Inr (r', alive')"
    and "(''@lifecycle'', text) \<in> set cs" and "distinct (List.map fst cs)"
    and "parse_json C text = Some (JObject kvs)" and "sorted_keys kvs"
    and "\<forall>c \<in> set cs. fst c \<noteq> ''@lifecycle'' \<longrightarrow> leaves C name c"
  shows "map_of r' name = (case map_of kvs name of None \<Rightarrow> map_of r name | Some v \<Rightarrow> Some v)"
proof -
  from assms(2) obtain as bs where cs: "cs = as @ (''@lifecycle'', text) # bs"
    by (meson split_list)
  with assms(1) obtain u a w b where
    as: "fold_result (read_field C) as (r, alive) = Inr (u, a)" and
    mid: "read_field C (''@lifecycle'', text) (u, a) = Inr (w, b)" and
    bs: "fold_result (read_field C) bs (w, b) = Inr (r', alive')"
    by (auto simp: fold_result_append)
  from assms(3) cs have "\<forall>c \<in> set as \<union> set bs. fst c \<noteq> ''@lifecycle''"
    by (force simp: image_iff)
  with assms(6) cs have l: "\<forall>c \<in> set as. leaves C name c" "\<forall>c \<in> set bs. leaves C name c" by auto
  from mid assms(4) have "w = fold (\<lambda>(k, v). assoc_put k v) kvs u"
    by (auto simp: read_field_def as_object_def)
  then show ?thesis
    using read_fields_leave [OF as l(1)] read_fields_leave [OF bs l(2)]
      map_of_rev [OF sorted_keys_distinct [OF assms(5)]]
    by (simp add: map_of_fold_put split: option.split)
qed

text \<open>
  A finished issue is closed or ready only with the requirements of its snapshot.
\<close>

lemma requirements_cong:
  "json_index r ''title'' = json_index s ''title'' \<Longrightarrow> json_index r ''body'' = json_index s ''body'' \<Longrightarrow>
     json_index r ''labels'' = json_index s ''labels'' \<Longrightarrow> requirements r = requirements s"
  by (simp add: requirements_def)

lemma json_index_JObject: "json_index (JObject kvs) k = (case map_of kvs k of None \<Rightarrow> JNull | Some v \<Rightarrow> v)"
  by (simp add: json_index_def)

lemma finish_issue_done:
  assumes "sorted_keys r"
    and "json_index (JObject (finish_issue position r)) ''state'' \<in> {JString ''closed'', JString ''ready''}"
  shows "map_of r ''@requirements'' = Some (requirements (JObject (finish_issue position r))) \<and>
     map_of r ''state'' = Some (json_index (JObject (finish_issue position r)) ''state'')"
proof -
  define r1 where "r1 = (case position of None \<Rightarrow> r | Some p \<Rightarrow> assoc_put ''sort_order'' (JInt p) r)"
  define r2 where "r2 = assoc_remove ''@archived_body'' r1"
  define r3 where "r3 = (if json_index (JObject r2) ''archive_key'' \<noteq> JNull
      \<and> map_of r1 ''@archived_body'' \<noteq> Some (json_index (JObject r2) ''body'')
    then assoc_put ''archived_comments'' (JInt 0) (assoc_put ''archive_key'' JNull r2) else r2)"
  define r4 where "r4 = assoc_remove ''@requirements'' r3"
  have finish: "finish_issue position r =
      (if json_index (JObject r4) ''state'' \<in> {JString ''closed'', JString ''ready''}
          \<and> map_of r3 ''@requirements'' \<noteq> Some (requirements (JObject r4))
       then assoc_put ''closed_at'' JNull (assoc_put ''closed_by'' JNull
              (assoc_put ''assignee'' JNull (assoc_put ''state'' (JString ''open'') r4)))
       else r4)"
    by (simp only: finish_issue_def r1_def r2_def r3_def r4_def Let_def)
  have "sorted_keys r1" using assms(1) by (simp add: r1_def strict_sorted_assoc_put split: option.split)
  then have r2: "map_of r2 = (map_of r1)(''@archived_body'' := None)" "sorted_keys r2"
    by (auto simp: r2_def map_of_assoc_remove sorted_keys_distinct assoc_remove_sorted)
  then have "sorted_keys r3" by (simp add: r3_def strict_sorted_assoc_put)
  then have r4: "map_of r4 = (map_of r3)(''@requirements'' := None)"
    by (simp add: r4_def map_of_assoc_remove sorted_keys_distinct)
  have r3: "map_of r3 k = map_of r k"
    if "k \<notin> {''archived_comments'', ''archive_key'', ''@archived_body'', ''sort_order''}" for k
    using that r2(1) by (auto simp: r3_def r1_def split: option.split)
  have same: "map_of r4 ''state'' = map_of r ''state''"
    "map_of r3 ''@requirements'' = map_of r ''@requirements''"
    by (simp_all add: r4 r3)
  have snapshot: "map_of r3 ''@requirements'' = Some (requirements (JObject r4))"
    and r4_finish: "finish_issue position r = r4"
    using assms(2) unfolding finish by (auto split: if_splits simp: json_index_JObject)
  from assms(2) have "map_of r4 ''state'' = Some (json_index (JObject r4) ''state'')"
    unfolding r4_finish by (auto simp: json_index_JObject split: option.splits)
  with snapshot same show ?thesis unfolding r4_finish by simp
qed


section \<open>Where the cells of an issue come from\<close>

lemma own_writes_cases:
  assumes "((table, entity, field), (st, text)) \<in> set (own_writes C S f)"
  obtains key cs v where "fact_table f = table" "revision_entity S f = Inr key" "changes f = Inr cs"
    "entity = print_json C key" "st = fact_stamp f" "(field, v) \<in> set cs" "text = print_json C v"
proof -
  from assms obtain key cs where *: "revision_entity S f = Inr key" "changes f = Inr cs"
    by (cases "revision_entity S f"; cases "changes f") (auto simp: own_writes_def split: if_splits)
  with assms obtain v where "(field, v) \<in> set cs" "fact_table f = table"
    "entity = print_json C key" "st = fact_stamp f" "text = print_json C v"
    by (auto simp: own_writes_def field_writes_def split: if_splits)
  with * that show ?thesis by blast
qed

lemma writes_cases:
  assumes "((table, entity, field), (st, text)) \<in> set (writes C S f)"
    and "\<not> history_table table"
  shows "((table, entity, field), (st, text)) \<in> set (own_writes C S f)"
  using assms
  by (auto simp: writes_def baseline_def split: option.splits if_splits elim!: own_writes_cases)

lemma cell_written:
  assumes "fold_result (reduce C S) fs empty_dist = Inr db" and "c \<in> set (cells db)"
  shows "\<exists>f \<in> set fs. c \<in> set (writes C S f)"
  using reduce_all_cells [OF assms(1)] assms(2) fold_put_subset
  by (fastforce simp: empty_dist_def)

lemma cells_sorted:
  assumes "fold_result (reduce C S) fs empty_dist = Inr db"
  shows "sorted_wrt (<) (List.map fst (cells db))"
proof -
  have "sorted_wrt (<) (List.map fst (fold put_cell cs t))" if "sorted_wrt (<) (List.map fst t)" for cs t
    using that by (induction cs arbitrary: t) (auto simp: put_cell_def lww_put_sorted)
  with reduce_all_cells [OF assms] show ?thesis by (simp add: empty_dist_def)
qed

lemma sorted_keys_cells:
  "fold_result (reduce C S) fs empty_dist = Inr db \<Longrightarrow> distinct (List.map fst (cells db))"
  using cells_sorted by (simp add: strict_sorted_iff)

lemma entity_cells_iff:
  "(f, s) \<in> set (entity_cells db table entity) \<longleftrightarrow> (\<exists>st. ((table, entity, f), (st, s)) \<in> set (cells db))"
  by (force simp: entity_cells_def)

lemma entity_cells_distinct:
  assumes "distinct (List.map fst (cells db))"
  shows "distinct (List.map fst (entity_cells db table entity))"
proof -
  let ?cs = "filter (\<lambda>((t, e, _), _). t = table \<and> e = entity) (cells db)"
  have "distinct (List.map fst ?cs)" using assms by (simp add: distinct_map inj_on_def)
  moreover have "inj_on (\<lambda>((_, _, field), (_, value)). field) (set ?cs)"
    using calculation by (force simp: inj_on_def distinct_map)
  ultimately have "distinct (List.map (\<lambda>((_, _, field), (_, value)). field) ?cs)"
    by (simp add: distinct_map)
  then have "distinct (List.map fst (List.map (\<lambda>((_, _, field), (_, value)). (field, value)) ?cs))"
    by (simp add: comp_def case_prod_beta')
  moreover have "distinct (List.map fst (sort_key fst xs)) \<longleftrightarrow> distinct (List.map fst xs)"
    for xs :: "(string \<times> string) list" by (simp add: distinct_map)
  ultimately show ?thesis unfolding entity_cells_def by blast
qed

lemma columns_entity:
  assumes "revision_entity S f = Inr key" and "fact_after f = Some a" and "fact_table f = table"
    and "table \<noteq> ''project_settings''"
  shows "fst ` set (object_entries a) \<subseteq> fst ` set (S table)"
  using assms
  by (fastforce simp: revision_entity_def check_columns_def columns_def object_entries_def Let_def
      split: option.splits if_splits)

text \<open>The fields an issue revision writes: three groups and plain columns.\<close>

lemma issue_write_fields:
  assumes "revision_entity S f = Inr key" and "fact_table f = ''issues''" and "changes f = Inr cs"
    and "(field, v) \<in> set cs" and "\<forall>c \<in> fst ` set (S ''issues''). \<not> starts_with ''@'' c"
  shows "field \<in> {''@alive'', ''@lifecycle'', ''@storage''} \<or>
     (\<not> starts_with ''@'' field \<and> group ''issues'' field = field)"
proof (cases "field \<in> {''@alive'', ''@lifecycle'', ''@storage''}")
  case False
  obtain bf af where af: "fields_or_empty ''issues'' (fact_after f) = Inr af"
    and "\<forall>g. g \<noteq> ''@alive'' \<longrightarrow>
      map_of cs g = map_of (annotate_issue (after_row f) (changed_fields bf af)) g"
    and sub: "fst ` set cs \<subseteq> insert ''@alive'' (fst ` set af)"
    using assms(2,3) by (rule changes_issues) blast
  have "field \<in> fst ` set cs" using assms(4) by force
  with sub False have "field \<in> fst ` set af" by blast
  then obtain a where a: "fact_after f = Some a" and "field \<in> fst ` set (fold (fields_step ''issues'') (object_entries a) [])"
    using af by (auto simp: fields_or_empty_def fields_def object_entries_def split: option.splits)
  moreover have "fst ` set (fold (fields_step ''issues'') (object_entries a) [])
      \<subseteq> group ''issues'' ` fst ` set (object_entries a)"
    using fold_fields_keys [of "''issues''" "object_entries a" "[]"] by simp
  ultimately obtain n where n: "n \<in> fst ` set (object_entries a)" "field = group ''issues'' n"
    by blast
  have "fst ` set (object_entries a) \<subseteq> fst ` set (S ''issues'')"
    by (rule columns_entity [OF assms(1) a assms(2)]) simp
  with n(1) assms(5) have "\<not> starts_with ''@'' n" by blast
  moreover have "group ''issues'' n \<in> {''@lifecycle'', ''@storage'', n}"
    by (simp add: group_def)
  ultimately show ?thesis using n(2) False by auto
qed simp

lemma issue_cell_leaves:
  assumes p: "parse_json C (print_json C v) = Some v" and "fact_table f = ''issues''"
    and plain: "\<forall>c \<in> fst ` set (S ''issues''). \<not> starts_with ''@'' c"
    and can: "canonical_object (fact_after f)"
    and key: "revision_entity S f = Inr key" and cs: "changes f = Inr cs"
    and v: "(field, v) \<in> set cs" and "field \<noteq> ''@lifecycle''"
    and name: "name = ''state'' \<or> name = ''@requirements''"
  shows "leaves C name (field, print_json C v)"
proof -
  have at: "starts_with ''@'' ''@requirements''" "starts_with ''@'' ''@row''" "starts_with ''@'' ''@storage''"
    "starts_with ''@'' ''@content''" by (simp_all add: starts_with_def)
  have st: "group ''issues'' ''state'' = ''@lifecycle''" "group ''issues'' ''@requirements'' = ''@requirements''"
    by (simp_all add: group_def)
  consider "field = ''@alive''" | "field = ''@storage''"
    | "\<not> starts_with ''@'' field" "group ''issues'' field = field"
    using issue_write_fields [OF key assms(2) cs v plain] assms(8) by blast
  then show ?thesis
  proof cases
    case 1
    with name show ?thesis by (auto simp: leaves_def)
  next
    case 2
    with changes_annotated [OF assms(2) cs v can, of "''@archived_body''"] obtain a kvs
      where kvs: "v = JObject kvs" "sorted_keys kvs" "\<forall>c. c \<noteq> ''@archived_body'' \<longrightarrow> map_of kvs c =
        (if group ''issues'' c = ''@storage'' then map_of (object_entries a) c else None)" by auto
    moreover have "name \<noteq> ''@archived_body''" "group ''issues'' name \<noteq> ''@storage''"
      using name st by auto
    ultimately have "map_of (rev kvs) name = None"
      by (simp add: map_of_rev sorted_keys_distinct)
    with 2 p kvs(1) name show ?thesis by (auto simp: leaves_def)
  next
    case 3
    then have "field \<noteq> name" "field \<noteq> ''@row''" "field \<noteq> ''@storage''" "field \<noteq> ''@content''"
      using name st at by auto
    with assms(8) show ?thesis by (simp add: leaves_def)
  qed
qed


section \<open>The dependency index\<close>

text \<open>What the rows of \<open>distributed_issue_graph\<close> stand for, read off the fields.\<close>

definition blockers_text :: "codec \<Rightarrow> string \<Rightarrow> string" where
  "blockers_text C value = (case sql_extract C value ''blockers'' of None \<Rightarrow> ''[]'' | Some b \<Rightarrow> b)"

definition graph_of :: "codec \<Rightarrow> cells \<Rightarrow> string \<Rightarrow> graph_row option" where
  "graph_of C cs entity =
     (let l = map_of cs (''issues'', entity, ''@lifecycle'');
          a = map_of cs (''issues'', entity, ''@alive'')
      in if l = None \<and> a = None then None
         else Some (sql_extract C entity ''project_id'', map_option (\<lambda>w. blockers_text C (snd w)) l,
                    map_option (\<lambda>w. snd w = ''true'') a))"

definition graph_inv :: "codec \<Rightarrow> dist_db \<Rightarrow> bool" where
  "graph_inv C db \<longleftrightarrow> (\<forall>entity. map_of (issue_graph db) entity = graph_of C (cells db) entity)"

lemma graph_inv_cong:
  "cells s = cells t \<Longrightarrow> issue_graph s = issue_graph t \<Longrightarrow> graph_inv C s = graph_inv C t"
  by (simp add: graph_inv_def)

lemma graph_of_put:
  "graph_of C (assoc_put (table, entity, field) (st, value) cs) =
     (if table = ''issues'' \<and> field \<in> {''@alive'', ''@lifecycle''}
      then (graph_of C cs)(entity \<mapsto>
        (let l = (if field = ''@lifecycle'' then Some (st, value)
                  else map_of cs (''issues'', entity, ''@lifecycle''));
             a = (if field = ''@alive'' then Some (st, value)
                  else map_of cs (''issues'', entity, ''@alive''))
         in (sql_extract C entity ''project_id'', map_option (\<lambda>w. blockers_text C (snd w)) l,
             map_option (\<lambda>w. snd w = ''true'') a)))
      else graph_of C cs)"
  by (rule ext) (auto simp: graph_of_def Let_def)

lemma upsert_field_graph:
  assumes "graph_inv C db"
  shows "graph_inv C (fst (upsert_field C table entity st field value db))"
proof -
  let ?cs = "assoc_put (table, entity, field) (st, print_json C value) (cells db)"
  let ?g = "graph_trigger C table entity field (print_json C value) (issue_graph db)"
  have g: "map_of (issue_graph db) = graph_of C (cells db)"
    using assms by (simp add: graph_inv_def fun_eq_iff)
  have "map_of ?g = graph_of C ?cs"
  proof (cases "table = ''issues'' \<and> field \<in> {''@alive'', ''@lifecycle''}")
    case False
    then show ?thesis by (auto simp: graph_trigger_def graph_of_put g)
  next
    case True
    then consider "table = ''issues''" "field = ''@alive''" | "table = ''issues''" "field = ''@lifecycle''"
      by blast
    then show ?thesis
    proof cases
      case 1
      then show ?thesis
        by (cases "graph_of C (cells db) entity")
          (auto simp: graph_trigger_def graph_of_put g graph_of_def Let_def split: if_splits)
    next
      case 2
      then show ?thesis
        by (cases "graph_of C (cells db) entity")
          (auto simp: graph_trigger_def graph_of_put g graph_of_def blockers_text_def Let_def split: if_splits)
    qed
  qed
  then have "graph_inv C (db\<lparr>cells := ?cs, issue_graph := ?g\<rparr>)" by (simp add: graph_inv_def)
  moreover have "graph_inv C (db\<lparr>cells := cells db, issue_graph := issue_graph db\<rparr>)"
    using assms by simp
  ultimately show ?thesis
    by (auto simp: upsert_field_def lww_put_def Let_def split: option.split)
qed

lemma upsert_all_graph:
  assumes "graph_inv C db"
  shows "graph_inv C (fst (upsert_all C table entity st cs db))"
proof -
  have "graph_inv C (fst (fold (upsert_step C table entity st) cs dbs))" if "graph_inv C (fst dbs)" for dbs
    using that
  proof (induction cs arbitrary: dbs)
    case Nil
    then show ?case by simp
  next
    case (Cons c cs)
    have "graph_inv C (fst (upsert_step C table entity st c dbs))"
      using upsert_field_graph [OF Cons.prems, of table entity st "fst c" "snd c"]
      by (auto simp: upsert_step_def split: prod.splits)
    with Cons.IH show ?case by simp
  qed
  with assms show ?thesis by (simp add: upsert_all_def)
qed

lemma mark_dirty_graph [simp]: "issue_graph (mark_dirty C revn entity changed db) = issue_graph db"
  by (simp add: mark_dirty_def dirty_dependents_def Let_def split: option.splits)

lemma with_order_fields [simp]:
  "cells (with_order db q) = cells db" "issue_graph (with_order db q) = issue_graph db"
  by (simp_all add: with_order_def)

lemma merge_revision_graph:
  assumes "merge_revision C revn key db = Inr t" and "graph_inv C db"
  shows "graph_inv C t"
proof -
  from assms(1) obtain cs where cs: "changes revn = Inr cs" by (auto simp: merge_revision_def)
  obtain u x y where u: "upsert_all C (fact_table revn) (print_json C key) (fact_stamp revn) cs db = (u, x, y)"
    by (rule prod_cases3)
  with upsert_all_graph [OF assms(2)] have "graph_inv C u" by (metis fst_conv)
  moreover from assms(1) cs u have "cells t = cells u \<and> issue_graph t = issue_graph u"
    by (auto simp: merge_revision_def Let_def seed_position_def split: if_splits option.splits)
  ultimately show ?thesis using graph_inv_cong by blast
qed

lemma reduce_with_graph:
  assumes "reduce_with history C S revn db = Inr t" and "graph_inv C db"
    and "\<And>b db t. history b db = Inr t \<Longrightarrow> graph_inv C db \<Longrightarrow> graph_inv C t"
  shows "graph_inv C t"
proof (cases "retired_table (fact_table revn) \<or> fact_table revn = ''issue_order''")
  case True
  with assms(1,2) show ?thesis
    by (auto simp: reduce_with_def graph_inv_def split: if_splits)
next
  case False
  with assms(1) obtain p key h where p: "remember_page C revn db = Inr p"
    and h: "(case fact_before revn of
               Some b \<Rightarrow> if history_table (fact_table revn) then history b p else Inr p
             | None \<Rightarrow> Inr p) = Inr h"
    and t: "merge_revision C revn key h = Inr t"
    by (auto simp: reduce_with_def split: if_splits)
  have "graph_inv C p"
    using p assms(2) by (auto simp: remember_page_def graph_inv_def split: if_splits option.splits)
  then have "graph_inv C h" using h assms(3) by (auto split: option.splits if_splits)
  then show ?thesis by (rule merge_revision_graph [OF t])
qed

lemma reduce_graph:
  assumes "reduce C S revn db = Inr t" and "graph_inv C db"
  shows "graph_inv C t"
  using assms unfolding reduce_def
proof (rule reduce_with_graph)
  show "graph_inv C v" if "seed_history C S (fact_table revn) ''before'' b u = Inr v" "graph_inv C u" for b u v
    using that unfolding seed_history_def by (rule reduce_with_graph) simp
qed

lemma reduced_once:
  "fold_result (reduce C S) fs db = Inr t \<Longrightarrow> f \<in> set fs \<Longrightarrow> \<exists>u v. reduce C S f u = Inr v"
  by (induction fs arbitrary: db) auto

section \<open>The values that are printed\<close>

definition json_values :: "schema \<Rightarrow> revision \<Rightarrow> json list" where
  "json_values S f =
     (case revision_entity S f of Inl _ \<Rightarrow> [] | Inr key \<Rightarrow> [key]) @
     (case changes f of Inl _ \<Rightarrow> [] | Inr cs \<Rightarrow> List.map snd cs)"

definition printed :: "schema \<Rightarrow> revision list \<Rightarrow> json set" where
  "printed S fs = set (concat (List.map (json_values S) fs))"

lemma printed_field:
  "f \<in> set fs \<Longrightarrow> changes f = Inr cs \<Longrightarrow> (n, v) \<in> set cs \<Longrightarrow> v \<in> printed S fs"
  by (force simp: printed_def json_values_def)

lemma printed_key: "f \<in> set fs \<Longrightarrow> revision_entity S f = Inr key \<Longrightarrow> key \<in> printed S fs"
  by (force simp: printed_def json_values_def)

text \<open>A concrete codec for a list of values: the text of a value is its index.\<close>

fun position :: "'a \<Rightarrow> 'a list \<Rightarrow> nat" where
  "position x [] = 0"
| "position x (y # ys) = (if x = y then 0 else Suc (position x ys))"

definition table_codec :: "json list \<Rightarrow> codec" where
  "table_codec vs =
     \<lparr>parse_json = \<lambda>s. if read_nat s < length vs then Some (vs ! read_nat s) else None,
      print_json = \<lambda>v. show_nat (position v vs),
      digest = \<lambda>s. s, base64_decode = Some, gzip = \<lambda>s. s, gunzip = \<lambda>s _. Some s\<rparr>"

lemma position_nth: "x \<in> set xs \<Longrightarrow> position x xs < length xs \<and> xs ! position x xs = x"
  by (induction xs) auto

lemma round_trip_table: "V \<subseteq> set vs \<Longrightarrow> round_trip (table_codec vs) V"
  using position_nth by (fastforce simp: round_trip_def table_codec_def)

section \<open>A concrete history\<close>

definition example_issue :: "string \<Rightarrow> json" where
  "example_issue state = JObject [(''body'', JString ''b''), (''labels'', JString ''[]''),
     (''number'', JInt 1), (''project_id'', JString ''p''), (''state'', JString state), (''title'', JString ''t'')]"
definition example_schema :: schema where
  "example_schema table =
     (if table = ''issues'' then [(''project_id'', 1), (''number'', 2), (''title'', 0), (''body'', 0),
        (''labels'', 0), (''state'', 0)] 
      else if table = ''worker_allocations'' then [(''id'', 1), (''machine'', 0), (''ticket'', 0),
        (''settle_ms'', 0), (''lease_ms'', 0), (''presence_after'', 0), (''released'', 0)] else [])"
definition example_fact :: "int \<Rightarrow> string \<Rightarrow> json option \<Rightarrow> json \<Rightarrow> revision" where
  "example_fact clock table b a = \<lparr>fact_protocol = PROTOCOL, fact_origin = ''a:1'', fact_clock = clock,
     fact_table = table, fact_before = b, fact_after = Some a, fact_resource = None\<rparr>"
definition example_allocation :: json where
  "example_allocation = JObject [(''id'', JString ''i''), (''lease_ms'', JInt 1),
     (''machine'', JString ''a''), (''presence_after'', JInt 0), (''released'', JInt 0),
     (''settle_ms'', JInt 1), (''ticket'', JInt 0)]"
definition example_facts :: "revision list" where
  "example_facts = [example_fact 1 ''issues'' None (example_issue ''open''),
     example_fact 2 ''issues'' (Some (example_issue ''open'')) (example_issue ''closed''),
     example_fact 3 ''worker_allocations'' None example_allocation]"
definition example_key :: json where
  "example_key = JObject [(''number'', JInt 1), (''project_id'', JString ''p'')]"

definition example_values :: "json list" where
  "example_values = [example_key, JBool True,
     JObject [(''@requirements'', JArray [JString ''t'', JString ''b'', JString ''[]'']), (''state'', JString ''open'')],
     JString ''b'', JString ''[]'', JInt 1, JString ''p'', JString ''t'',
     JObject [(''@requirements'', JArray [JString ''t'', JString ''b'', JString ''[]'']), (''state'', JString ''closed'')],
     JObject [(''id'', JString ''i'')], example_allocation]"

definition example_codec :: codec where
  "example_codec = table_codec example_values"

definition example_run :: "dist_db result" where
  "example_run = fold_result (reduce example_codec example_schema) example_facts empty_dist"

lemma example_printed: "insert example_key (printed example_schema example_facts) \<subseteq> set example_values"
proof -
  have "list_all (\<lambda>f. list_all (\<lambda>v. List.member example_values v) (json_values example_schema f)) example_facts"
    by code_simp
  then show ?thesis
    by (auto simp: printed_def list_all_iff List.member_iff) (simp add: example_values_def)
qed

lemma example_round_trip:
  "round_trip example_codec (insert example_key (printed example_schema example_facts))"
  unfolding example_codec_def using example_printed by (rule round_trip_table)

lemma example_outcome:
  "case example_run of Inl _ \<Rightarrow> False
   | Inr db \<Rightarrow> row example_codec db ''issues'' example_key = Inr (Some (example_issue ''closed'')) \<and>
       List.member (cells db) ((''worker_allocations'', ''9'', ''@row''), ((3, ''a:1''), ''10'')) \<and>
       map_of (issue_graph db) ''0'' = Some (Some ''p'', Some ''[]'', Some False)"
  by code_simp

lemma example_canonical: "list_all (\<lambda>f. canonical_object (fact_after f)) example_facts"
  by code_simp

lemma example_again:
  "is_ok (fold_result (reduce example_codec example_schema) (example_facts @ example_facts) empty_dist)"
  by code_simp

lemma example_plain: "list_all (\<lambda>c. \<not> starts_with ''@'' (fst c)) (example_schema ''issues'')"
  by code_simp

lemma example_done:
  obtains db where "fold_result (reduce example_codec example_schema) example_facts empty_dist = Inr db"
    and "row example_codec db ''issues'' example_key = Inr (Some (example_issue ''closed''))"
    and "((''worker_allocations'', ''9'', ''@row''), ((3, ''a:1''), ''10'')) \<in> set (cells db)"
  using example_outcome by (auto simp: example_run_def List.member_iff split: sum.splits)

section \<open>Properties\<close>

text \<open>
  C2. Replicas that have reduced the same revisions, whatever the order and however often
  each revision arrived, hold the same fields, derive the same queue positions, and read
  the same row for every entity of every table, the issues with their positions included.
\<close>

theorem replicas_converge:
  assumes "set fs = set gs"
    and "fold_result (reduce C S) fs empty_dist = Inr s"
    and "fold_result (reduce C S) gs empty_dist = Inr t"
  shows "cells s = cells t \<and> position_of (order_view C s) = position_of (order_view C t) \<and>
    row C s table key = row C t table key"
proof -
  have "set (concat (List.map (writes C S) fs)) = set (concat (List.map (writes C S) gs))"
    using assms(1) by simp
  then have cells: "cells s = cells t"
    using cell_replica.fold_set_eq reduce_all_cells [OF assms(2)] reduce_all_cells [OF assms(3)]
    by (simp add: empty_dist_def)
  have "positions (order_view C s) = positions (order_view C t)"
    using reduce_all_queue [OF assms(2) empty_dist_queue] reduce_all_queue [OF assms(3) empty_dist_queue]
      assms(1) cells
    by (intro order_exact_unique [of "parse_i64 C"])
      (auto simp: queue_exact_def base_of_view, simp_all add: order_view_def)
  then have pos: "position_of (order_view C s) = position_of (order_view C t)"
    by (simp add: position_of_def fun_eq_iff)
  have "row C s table key = row C t table key"
    unfolding row_def pos by (simp add: entity_cells_def cells)
  with cells pos show ?thesis by blast
qed

theorem replicas_converge_witness:
  "\<exists>s t. fold_result (reduce example_codec example_schema) example_facts empty_dist = Inr s \<and>
     fold_result (reduce example_codec example_schema) (example_facts @ example_facts) empty_dist = Inr t \<and>
     cells s = cells t"
proof -
  obtain s where s: "fold_result (reduce example_codec example_schema) example_facts empty_dist = Inr s"
    by (rule example_done)
  obtain t where t: "fold_result (reduce example_codec example_schema) (example_facts @ example_facts) empty_dist = Inr t"
    using example_again by (auto simp: is_ok_iff)
  from replicas_converge [OF _ s t] s t show ?thesis by auto
qed

text \<open>
  C4. An issue that a replica shows as closed or ready was closed by some revision whose
  title, body and labels are exactly those shown: a completion never survives a merge
  with edited requirements.
\<close>

theorem completion_has_its_requirements:
  assumes rt: "round_trip C (insert key (printed S fs))"
    and plain: "\<forall>c \<in> fst ` set (S ''issues''). \<not> starts_with ''@'' c"
    and can: "\<forall>f \<in> set fs. canonical_object (fact_after f)"
    and run: "fold_result (reduce C S) fs empty_dist = Inr db"
    and key: "key = JObject [(''number'', n), (''project_id'', p)]"
    and shown: "row C db ''issues'' key = Inr (Some r)"
    and complete: "json_index r ''state'' = JString ''closed'' \<or> json_index r ''state'' = JString ''ready''"
  shows "\<exists>f \<in> set fs. \<exists>a. fact_table f = ''issues'' \<and> revision_entity S f = Inr key \<and>
     fact_after f = Some a \<and> json_index a ''state'' = json_index r ''state'' \<and>
     requirements a = requirements r"
proof -
  let ?cs = "entity_cells db ''issues'' (print_json C key)"
  let ?pos = "case order_key key of None \<Rightarrow> None | Some k \<Rightarrow> position_of (order_view C db) k"
  from shown obtain r0 where read: "fold_result (read_field C) ?cs (object_entries key, False) = Inr (r0, True)"
    and r: "r = JObject (finish_issue ?pos r0)"
    by (auto simp: row_def split: if_splits)
  have "sorted_keys (object_entries key)" by (simp add: key)
  then have "sorted_keys r0" by (rule read_fields_sorted [OF read])
  from finish_issue_done [OF this, of ?pos] complete r
  have fin: "map_of r0 ''@requirements'' = Some (requirements r)"
    "map_of r0 ''state'' = Some (json_index r ''state'')" by auto
  have cell: "\<exists>g \<in> set fs. \<exists>cs v. fact_table g = ''issues'' \<and> revision_entity S g = Inr key \<and>
      changes g = Inr cs \<and> (f, v) \<in> set cs \<and> s = print_json C v" if c: "(f, s) \<in> set ?cs" for f s
  proof -
    from c obtain st where st: "((''issues'', print_json C key, f), (st, s)) \<in> set (cells db)"
      unfolding entity_cells_iff by blast
    from cell_written [OF run st] obtain g where g: "g \<in> set fs"
      "((''issues'', print_json C key, f), (st, s)) \<in> set (writes C S g)" by blast
    have "((''issues'', print_json C key, f), (st, s)) \<in> set (own_writes C S g)"
      using g(2) by (rule writes_cases) (simp add: history_table_def)
    then obtain k cs v where "fact_table g = ''issues''" "revision_entity S g = Inr k"
      "changes g = Inr cs" "print_json C key = print_json C k" "(f, v) \<in> set cs" "s = print_json C v"
      by (rule own_writes_cases) blast
    moreover have "k = key"
      using rt printed_key [OF g(1) calculation(2)] calculation(4) unfolding round_trip_def
      by (metis insertCI option.inject)
    ultimately show ?thesis using g(1) by blast
  qed
  have leaves: "leaves C name c" if "c \<in> set ?cs" "fst c \<noteq> ''@lifecycle''"
    "name = ''state'' \<or> name = ''@requirements''" for c name
  proof -
    obtain f s where "c = (f, s)" by (rule prod.exhaust)
    with that(1) cell obtain g cs v where "g \<in> set fs" "fact_table g = ''issues''"
      "revision_entity S g = Inr key" "changes g = Inr cs" "(f, v) \<in> set cs" "s = print_json C v"
      by blast
    moreover from this rt have "parse_json C (print_json C v) = Some v"
      using printed_field unfolding round_trip_def by blast
    ultimately show ?thesis
      using issue_cell_leaves [where f = g and C = C and S = S] that(2,3) can plain \<open>c = (f, s)\<close> by simp
  qed
  have "\<exists>s. (''@lifecycle'', s) \<in> set ?cs"
  proof (rule ccontr)
    assume "\<nexists>s. (''@lifecycle'', s) \<in> set ?cs"
    then have "\<forall>c \<in> set ?cs. leaves C ''state'' c" using leaves by fastforce
    from read_fields_leave [OF read this] fin(2) key show False by simp
  qed
  then obtain s where s: "(''@lifecycle'', s) \<in> set ?cs" by blast
  from cell [OF s] obtain g cs v where g: "g \<in> set fs" "fact_table g = ''issues''"
    "revision_entity S g = Inr key" "changes g = Inr cs" "(''@lifecycle'', v) \<in> set cs" "s = print_json C v"
    by blast
  from can g(1) have "canonical_object (fact_after g)" by blast
  from changes_annotated [OF g(2,4,5) this, of "''@requirements''"] obtain a kvs where a: "fact_after g = Some a"
    "v = JObject kvs" "sorted_keys kvs" "map_of kvs ''@requirements'' = Some (requirements a)"
    "\<forall>c. c \<noteq> ''@requirements'' \<longrightarrow> map_of kvs c =
        (if group ''issues'' c = ''@lifecycle'' then map_of (object_entries a) c else None)"
    by (auto simp: after_row_def)
  have p: "parse_json C s = Some (JObject kvs)"
    using rt g(6) a(2) printed_field [OF g(1,4,5)] by (simp add: round_trip_def)
  note dist = entity_cells_distinct [OF sorted_keys_cells [OF run]]
  have look: "map_of r0 name = (case map_of kvs name of None \<Rightarrow> map_of (object_entries key) name | Some v \<Rightarrow> Some v)"
    if "name = ''state'' \<or> name = ''@requirements''" for name
    using read_fields_from_group [OF read s dist p a(3)] leaves that by blast
  have "requirements a = requirements r" using look [of "''@requirements''"] fin(1) a(4) by simp
  moreover have "map_of kvs ''state'' = map_of (object_entries a) ''state''" using a(5) by (simp add: group_def)
  then have "json_index a ''state'' = json_index r ''state''"
    using look [of "''state''"] fin(2) key
    by (cases a) (auto simp: json_index_def object_entries_def as_object_def split: option.splits)
  ultimately show ?thesis using g a(1) by blast
qed

theorem completion_has_its_requirements_witness:
  "\<exists>f \<in> set example_facts. \<exists>a. fact_table f = ''issues'' \<and>
     revision_entity example_schema f = Inr example_key \<and> fact_after f = Some a \<and>
     requirements a = requirements (example_issue ''closed'')"
proof -
  obtain db where run: "fold_result (reduce example_codec example_schema) example_facts empty_dist = Inr db"
    "row example_codec db ''issues'' example_key = Inr (Some (example_issue ''closed''))"
    by (rule example_done)
  have closed: "json_index (example_issue ''closed'') ''state'' = JString ''closed''"
    by (simp add: example_issue_def json_index_def)
  have "\<forall>c \<in> fst ` set (example_schema ''issues''). \<not> starts_with ''@'' c"
    "\<forall>f \<in> set example_facts. canonical_object (fact_after f)"
    using example_plain example_canonical by (auto simp: list_all_iff)
  from completion_has_its_requirements [OF example_round_trip this run(1) example_key_def run(2)] closed
  show ?thesis by blast
qed


text \<open>
  C31. The dependency index is exact: after any deliveries each of its rows holds the
  proposed blockers of the winning lifecycle and the winning life of the issue, and
  there is a row for each issue with either.
\<close>

theorem dependency_index_is_exact:
  assumes "fold_result (reduce C S) fs empty_dist = Inr db"
  shows "map_of (issue_graph db) entity = graph_of C (cells db) entity"
proof -
  have "graph_inv C db"
    using assms
  proof (rule fold_result_invariant [where P = "graph_inv C"])
    show "graph_inv C empty_dist" by (simp add: graph_inv_def empty_dist_def graph_of_def)
  qed (rule reduce_graph)
  then show ?thesis by (simp add: graph_inv_def)
qed

theorem dependency_index_is_exact_witness:
  "\<exists>db. fold_result (reduce example_codec example_schema) example_facts empty_dist = Inr db \<and>
     map_of (issue_graph db) ''0'' = graph_of example_codec (cells db) ''0''"
proof -
  obtain db where run: "fold_result (reduce example_codec example_schema) example_facts empty_dist = Inr db"
    by (rule example_done)
  from dependency_index_is_exact [OF run] run show ?thesis by blast
qed

text \<open>
  An allocation is written by its own machine only: the machine named in the merged
  row is the one whose revision won it.
\<close>

theorem allocations_are_written_by_their_machine:
  assumes "round_trip C (printed S fs)" and "\<forall>f \<in> set fs. canonical_object (fact_after f)"
    and "fold_result (reduce C S) fs empty_dist = Inr db"
    and "((''worker_allocations'', entity, ''@row''), ((clock, origin), text)) \<in> set (cells db)"
  shows "\<exists>v. parse_json C text = Some v \<and>
     json_index v ''machine'' = JString (hd (split_on (CHR '':'') origin))"
proof -
  from cell_written [OF assms(3,4)] obtain f where f: "f \<in> set fs"
    "((''worker_allocations'', entity, ''@row''), ((clock, origin), text)) \<in> set (writes C S f)" by blast
  have "((''worker_allocations'', entity, ''@row''), ((clock, origin), text)) \<in> set (own_writes C S f)"
    using f(2) by (rule writes_cases) (simp add: history_table_def)
  then obtain key cs v where table: "fact_table f = ''worker_allocations''"
    and cs: "changes f = Inr cs" "(''@row'', v) \<in> set cs" and origin: "fact_origin f = origin"
    and enc: "text = print_json C v"
    by (rule own_writes_cases) simp
  from cs(1) obtain bf af where af: "fields_or_empty ''worker_allocations'' (fact_after f) = Inr af"
    and look: "map_of cs ''@row'' = map_of (changed_fields bf af) ''@row''"
    by (auto simp: changes_def table Let_def split: if_splits)
  have "map_of cs ''@row'' = Some v"
    using cs(2) sorted_keys_distinct [OF changes_sorted [OF cs(1)]] by simp
  then have "map_of (changed_fields bf af) ''@row'' = Some v" by (simp add: look)
  from changed_group [OF af this [unfolded changed_fields_def]] assms(2) f(1) obtain a where a: "fact_after f = Some a"
    "map_of (object_entries v) ''machine'' = map_of (object_entries a) ''machine''"
    by (auto simp: starts_with_def group_def)
  from reduced_once [OF assms(3) f(1)] have "check_allocation f = Inr ()"
    by (auto simp: reduce_def reduce_with_def table retired_table_def split: if_splits)
  with a(1) origin have "json_index a ''machine'' = JString (hd (split_on (CHR '':'') origin))"
    by (auto simp: check_allocation_def Let_def split: if_splits)
  then have "map_of (object_entries a) ''machine'' = Some (JString (hd (split_on (CHR '':'') origin)))"
    by (cases a) (auto simp: json_index_def object_entries_def as_object_def split: option.splits)
  with a(2) have "json_index v ''machine'' = JString (hd (split_on (CHR '':'') origin))"
    by (cases v) (auto simp: json_index_def object_entries_def as_object_def split: option.splits)
  with assms(1) enc printed_field [OF f(1) cs] show ?thesis by (simp add: round_trip_def)
qed

theorem allocations_are_written_by_their_machine_witness:
  "\<exists>v. parse_json example_codec ''10'' = Some v \<and> json_index v ''machine'' = JString ''a''"
proof -
  obtain db where run: "fold_result (reduce example_codec example_schema) example_facts empty_dist = Inr db"
    "((''worker_allocations'', ''9'', ''@row''), ((3, ''a:1''), ''10'')) \<in> set (cells db)"
    by (rule example_done)
  have "round_trip example_codec (printed example_schema example_facts)"
    using example_round_trip by (simp add: round_trip_def)
  moreover have "\<forall>f \<in> set example_facts. canonical_object (fact_after f)"
    using example_canonical by (simp add: list_all_iff)
  moreover have "hd (split_on (CHR '':'') ''a:1'') = ''a''" by simp
  ultimately show ?thesis
    using allocations_are_written_by_their_machine [OF _ _ run] by simp
qed

end
