(* ===== verification/Graph.thy ===== *)
theory Graph
  imports Revision "HOL-Library.Multiset"
begin

text \<open>
  The dependency graph of a project (\<open>src/src/fleet/native/distributed/graph.rs\<close>): the
  edges that replicas propose are admitted one by one, in the order of issue numbers, and
  an edge that would close a cycle is set aside. The lemmas show that the admitted graph
  is acyclic, that nothing else is dropped, and that every replica admits the same edges.
\<close>

section \<open>Reachability\<close>

type_synonym edge_map = "(string \<times> string list) list" \<comment> \<open>\<open>BTreeMap<String, Vec<String>>\<close>\<close>

definition successors :: "edge_map \<Rightarrow> string \<Rightarrow> string list" where
  "successors edges node = (case map_of edges node of None \<Rightarrow> [] | Some ns \<Rightarrow> ns)"

text \<open>
  The head of the list is the top of the stack: \<open>extend\<close> pushes the successors in order,
  so the last of them is popped first.
\<close>

function search :: "edge_map \<Rightarrow> string \<Rightarrow> string list \<Rightarrow> string set \<Rightarrow> bool" where
  "search edges target [] seen = False"
| "search edges target (node # pending) seen =
     (if node = target then True
      else if node \<in> seen then search edges target pending seen
      else search edges target (rev (successors edges node) @ pending) (insert node seen))"
  by pat_completeness auto

termination
proof (relation "inv_image (less_than <*lex*> less_than)
    (\<lambda>(edges, _, pending, seen). (card (fst ` set edges - seen), length pending))", goal_cases)
  case 1
  show ?case by (intro wf_inv_image wf_lex_prod wf_less_than)
next
  case (2 edges target node pending seen)
  then show ?case by simp
next
  case (3 edges target node pending seen)
  show ?case
  proof (cases "node \<in> fst ` set edges")
    case True
    then have "card (fst ` set edges - insert node seen) < card (fst ` set edges - seen)"
      using 3 by (intro psubset_card_mono) auto
    then show ?thesis by simp
  next
    case False
    then have "successors edges node = []"
      by (simp add: successors_def map_of_eq_None_iff [THEN iffD2])
    moreover from False have "fst ` set edges - insert node seen = fst ` set edges - seen" by blast
    ultimately show ?thesis by simp
  qed
qed

definition reaches :: "edge_map \<Rightarrow> string \<Rightarrow> string \<Rightarrow> bool" where
  "reaches edges from target = search edges target [from] {}"

section \<open>Admitting the proposed edges\<close>

type_synonym graph_rows = "(string \<times> string option \<times> string option \<times> bool option) list"

definition read_numbers :: "codec \<Rightarrow> string \<Rightarrow> int list option" where
  \<comment> \<open>\<open>serde_json::from_str::<Vec<i64>>\<close>\<close>
  "read_numbers C text =
     (case parse_json C text of
        Some (JArray xs) \<Rightarrow>
          if list_all (\<lambda>x. as_i64 x \<noteq> None) xs then Some (List.map (\<lambda>x. the (as_i64 x)) xs) else None
      | _ \<Rightarrow> None)"

definition proposal :: "codec \<Rightarrow> string \<times> string \<Rightarrow> (int \<times> int list) result" where
  "proposal C = (\<lambda>(entity, text).
     case parse_json C entity of
       None \<Rightarrow> Inl ''JSON''
     | Some key \<Rightarrow>
         (case as_i64 (json_index key ''number'') of
            None \<Rightarrow> Inl ''Invalid task graph identity''
          | Some number \<Rightarrow>
              (case read_numbers C text of
                 None \<Rightarrow> Inl ''JSON'' | Some bs \<Rightarrow> Inr (number, bs))))"

definition proposed_rows :: "string \<Rightarrow> graph_rows \<Rightarrow> (string \<times> string) list" where
  "proposed_rows project rows =
     List.map (\<lambda>(entity, _, b, _). (entity, the b))
       (filter (\<lambda>(_, p, b, alive). p = Some project \<and> alive = Some True \<and> b \<noteq> None) rows)"

type_synonym admission = "edge_map \<times> int list \<times> int list" \<comment> \<open>edges, accepted, skipped\<close>

definition admit_edge :: "int \<Rightarrow> int \<Rightarrow> admission \<Rightarrow> admission" where
  "admit_edge number blocker = (\<lambda>(edges, accepted, skipped).
     if blocker > 0 \<and> \<not> reaches edges (show_int blocker) (show_int number)
     then (assoc_put (show_int number) (successors edges (show_int number) @ [show_int blocker]) edges,
           accepted @ [blocker], skipped)
     else (edges, accepted, skipped @ [blocker]))"

record graph_result =
  edges :: edge_map
  admitted :: "(int \<times> int list) list"
  rejected :: "(int \<times> int list) list"

definition admit_issue :: "int \<times> int list \<Rightarrow> graph_result \<Rightarrow> graph_result" where
  "admit_issue = (\<lambda>(number, proposed) g.
     let (es, accepted, skipped) =
           fold (admit_edge number) (remdups_adj (sort proposed)) (edges g, [], [])
     in g\<lparr>edges := es, admitted := assoc_put number accepted (admitted g),
          rejected := (if skipped = [] then rejected g else rejected g @ [(number, skipped)])\<rparr>)"

definition proposals :: "codec \<Rightarrow> (string \<times> string) list \<Rightarrow> (int \<times> int list) list result" where
  "proposals C rows =
     fold_result (\<lambda>r ps. and_then (proposal C r) (\<lambda>p. Inr (ps @ [p]))) rows []"

definition blockers :: "codec \<Rightarrow> string \<Rightarrow> graph_rows \<Rightarrow> graph_result result" where
  "blockers C project rows =
     and_then (proposals C (proposed_rows project rows))
       (\<lambda>proposed. Inr (fold admit_issue (sort_key fst proposed)
                          \<lparr>edges = [], admitted = [], rejected = []\<rparr>))"

section \<open>The search decides reachability\<close>

definition edge_rel :: "edge_map \<Rightarrow> (string \<times> string) set" where
  "edge_rel es = {(a, b). b \<in> set (successors es a)}"

lemma exits_seen:
  assumes "(a, t) \<in> (edge_rel es)\<^sup>*" and "a \<in> seen" and "t \<notin> seen"
    and "\<forall>x \<in> seen. set (successors es x) \<subseteq> seen \<union> P"
  shows "\<exists>p \<in> P. p \<notin> seen \<and> (p, t) \<in> (edge_rel es)\<^sup>*"
  using assms(1,2)
proof (induction rule: converse_rtrancl_induct)
  case base
  with assms(3) show ?case by simp
next
  case (step a b)
  then show ?case
    using assms(4) by (cases "b \<in> seen") (auto simp: edge_rel_def)
qed

lemma search_iff:
  assumes "target \<notin> seen" and "\<forall>x \<in> seen. set (successors es x) \<subseteq> seen \<union> set pending"
  shows "search es target pending seen \<longleftrightarrow> (\<exists>p \<in> set pending. (p, target) \<in> (edge_rel es)\<^sup>*)"
  using assms
proof (induction es target pending seen rule: search.induct)
  case (1 es target seen)
  then show ?case by simp
next
  case (2 es target node pending seen)
  consider "node = target" | "node \<noteq> target" "node \<in> seen" | "node \<noteq> target" "node \<notin> seen" by blast
  then show ?case
  proof cases
    case 1
    then show ?thesis by auto
  next
    case seen: 2
    have "\<exists>p \<in> set pending. (p, target) \<in> (edge_rel es)\<^sup>*" if "(node, target) \<in> (edge_rel es)\<^sup>*"
      using exits_seen [OF that seen(2) "2.prems"(1), of "set (node # pending)"] "2.prems"(2) seen(2)
      by auto
    moreover have "search es target pending seen \<longleftrightarrow> (\<exists>p \<in> set pending. (p, target) \<in> (edge_rel es)\<^sup>*)"
      using "2.IH"(1) [OF seen] "2.prems" seen(2) by auto
    ultimately show ?thesis using seen by auto
  next
    case new: 3
    have "search es target (rev (successors es node) @ pending) (insert node seen) \<longleftrightarrow>
        (\<exists>p \<in> set (rev (successors es node) @ pending). (p, target) \<in> (edge_rel es)\<^sup>*)"
      using "2.IH"(2) [OF new] "2.prems" new by auto
    moreover have "(node, target) \<in> (edge_rel es)\<^sup>* \<longleftrightarrow>
        (\<exists>p \<in> set (successors es node). (p, target) \<in> (edge_rel es)\<^sup>*)"
      using new(1) by (auto simp: edge_rel_def elim: converse_rtranclE intro: converse_rtrancl_into_rtrancl)
    ultimately show ?thesis using new by auto
  qed
qed

lemma reaches_iff: "reaches es a b \<longleftrightarrow> (a, b) \<in> (edge_rel es)\<^sup>*"
  using search_iff [of b "{}" es "[a]"] by (simp add: reaches_def)

section \<open>Admission\<close>

lemma edge_rel_put:
  "edge_rel (assoc_put a (successors es a @ [b]) es) = insert (a, b) (edge_rel es)"
  by (auto simp: edge_rel_def successors_def split: if_splits option.splits)

lemma edge_rel_empty [simp]: "edge_rel [] = {}"
  by (simp add: edge_rel_def successors_def)

text \<open>What the admission of one issue's edges does to the graph.\<close>

definition edges_from :: "int \<Rightarrow> int list \<Rightarrow> (string \<times> string) set" where
  "edges_from n bs = {(show_int n, show_int b) | b. b \<in> set bs}"

lemma edges_from_simps [simp]:
  "edges_from n [] = {}"
  "edges_from n (bs @ [b]) = insert (show_int n, show_int b) (edges_from n bs)"
  by (auto simp: edges_from_def)

lemma admit_edges:
  assumes "acyclic (edge_rel es)"
    and "fold (admit_edge n) bs (es, [], []) = (es', acc, sk)"
  shows "acyclic (edge_rel es') \<and> edge_rel es' = edge_rel es \<union> edges_from n acc \<and>
     set bs = set acc \<union> set sk \<and> (\<forall>b \<in> set acc. b > 0) \<and>
     (\<forall>b \<in> set sk. b > 0 \<longrightarrow> (show_int b, show_int n) \<in> (edge_rel es')\<^sup>*)"
  using assms(2)
proof (induction bs arbitrary: es' acc sk rule: rev_induct)
  case Nil
  with assms(1) show ?case by auto
next
  case (snoc b bs)
  obtain es1 acc1 sk1 where mid: "fold (admit_edge n) bs (es, [], []) = (es1, acc1, sk1)"
    by (rule prod_cases3)
  note IH = snoc.IH [OF mid]
  from snoc.prems mid have step: "admit_edge n b (es1, acc1, sk1) = (es', acc, sk)" by simp
  show ?case
  proof (cases "b > 0 \<and> \<not> reaches es1 (show_int b) (show_int n)")
    case True
    with step have new: "es' = assoc_put (show_int n) (successors es1 (show_int n) @ [show_int b]) es1"
      "acc = acc1 @ [b]" "sk = sk1"
      by (auto simp: admit_edge_def)
    have rel: "edge_rel es' = insert (show_int n, show_int b) (edge_rel es1)"
      unfolding new(1) by (rule edge_rel_put)
    have "(edge_rel es1)\<^sup>* \<subseteq> (edge_rel es')\<^sup>*" unfolding rel by (rule rtrancl_mono) blast
    with IH True rel new show ?thesis
      by (auto simp: acyclic_insert reaches_iff)
  next
    case False
    with step have "es' = es1" "acc = acc1" "sk = sk1 @ [b]"
      by (auto simp: admit_edge_def)
    with IH False show ?thesis by (auto simp: reaches_iff)
  qed
qed


definition graph_edges :: "(int \<times> int list) list \<Rightarrow> (int \<times> int) set" where
  "graph_edges adm = {(n, b). \<exists>bs. (n, bs) \<in> set adm \<and> b \<in> set bs}"

lemma admitted_edges_image:
  "(\<Union>(n, bs) \<in> set adm. edges_from n bs) = map_prod show_int show_int ` graph_edges adm"
  by (force simp: edges_from_def graph_edges_def)

lemma rtrancl_image_inj:
  assumes "(x, y) \<in> (map_prod f f ` R)\<^sup>*" and "x = f a" and "inj f"
  shows "\<exists>b. y = f b \<and> (a, b) \<in> R\<^sup>*"
  using assms(1)
proof (induction rule: rtrancl_induct)
  case base
  with assms(2) show ?case by blast
next
  case (step y z)
  then obtain b where "y = f b" "(a, b) \<in> R\<^sup>*" by blast
  moreover from step(2) obtain c d where "y = f c" "z = f d" "(c, d) \<in> R" by auto
  ultimately show ?case using assms(3) by (metis injD rtrancl.rtrancl_into_rtrancl)
qed

lemma acyclic_image: "acyclic (map_prod f f ` R) \<Longrightarrow> acyclic R"
proof -
  have "(f a, f b) \<in> (map_prod f f ` R)\<^sup>+" if "(a, b) \<in> R\<^sup>+" for a b
    using that by (induction rule: trancl_induct) (auto intro: trancl_into_trancl r_into_trancl)
  then show "acyclic (map_prod f f ` R) \<Longrightarrow> acyclic R" unfolding acyclic_def by blast
qed

lemma inj_show_int: "inj show_int"
  by (simp add: inj_def)

text \<open>An issue is settled when its proposed edges are admitted, or dropped for a reason.\<close>

definition settled :: "(int \<times> int list) list \<Rightarrow> (int \<times> int list) list \<Rightarrow> int \<Rightarrow> int list \<Rightarrow> bool" where
  "settled adm rej n bs \<longleftrightarrow>
     (\<exists>acc. (n, acc) \<in> set adm \<and> set acc \<subseteq> set bs \<and> (\<forall>b \<in> set acc. b > 0) \<and>
        (\<forall>b \<in> set bs. b \<in> set acc \<or> b \<le> 0 \<or> (b, n) \<in> (graph_edges adm)\<^sup>*) \<and>
        (set acc \<noteq> set bs \<longrightarrow> n \<in> fst ` set rej))"

lemma settled_mono:
  assumes "settled adm rej n bs" and "set adm \<subseteq> set adm'" and "set rej \<subseteq> set rej'"
  shows "settled adm' rej' n bs"
proof -
  from assms(1) obtain acc where acc: "(n, acc) \<in> set adm" "set acc \<subseteq> set bs" "\<forall>b \<in> set acc. b > 0"
    "\<forall>b \<in> set bs. b \<in> set acc \<or> b \<le> 0 \<or> (b, n) \<in> (graph_edges adm)\<^sup>*"
    "set acc \<noteq> set bs \<longrightarrow> n \<in> fst ` set rej"
    unfolding settled_def by blast
  have "graph_edges adm \<subseteq> graph_edges adm'" using assms(2) unfolding graph_edges_def by blast
  then have "(graph_edges adm)\<^sup>* \<subseteq> (graph_edges adm')\<^sup>*" by (rule rtrancl_mono)
  with acc assms(2,3) show ?thesis
    unfolding settled_def by (intro exI [of _ acc]) blast
qed

text \<open>The state of the loop over the issues, in terms of those already processed.\<close>

definition graph_inv :: "(int \<times> int list) list \<Rightarrow> graph_result \<Rightarrow> bool" where
  "graph_inv ps g \<longleftrightarrow>
     acyclic (edge_rel (edges g)) \<and>
     edge_rel (edges g) = map_prod show_int show_int ` graph_edges (admitted g) \<and>
     sorted_wrt (<) (List.map fst (admitted g)) \<and>
     fst ` set (admitted g) = fst ` set ps \<and>
     (\<forall>n bs. (n, bs) \<in> set ps \<longrightarrow> settled (admitted g) (rejected g) n bs)"

lemma graph_inv_acyclic: "graph_inv ps g \<Longrightarrow> acyclic (graph_edges (admitted g))"
  unfolding graph_inv_def by (metis acyclic_image)

lemma graph_inv_distinct: "graph_inv ps g \<Longrightarrow> distinct (List.map fst (admitted g))"
  by (simp add: graph_inv_def strict_sorted_iff)

lemma set_assoc_put_new:
  "k \<notin> fst ` set kvs \<Longrightarrow> set (assoc_put k v kvs) = insert (k, v) (set kvs)"
  by (induction k v kvs rule: assoc_put.induct) auto

lemma admit_issue_inv:
  assumes inv: "graph_inv ps g" and new: "n \<notin> fst ` set ps"
  shows "graph_inv (ps @ [(n, bs)]) (admit_issue (n, bs) g)"
proof -
  obtain es acc sk where fold: "fold (admit_edge n) (remdups_adj (sort bs)) (edges g, [], []) = (es, acc, sk)"
    by (rule prod_cases3)
  let ?g = "admit_issue (n, bs) g"
  have g: "edges ?g = es" "admitted ?g = assoc_put n acc (admitted g)"
    "rejected ?g = (if sk = [] then rejected g else rejected g @ [(n, sk)])"
    by (simp_all add: admit_issue_def fold)
  from admit_edges [OF _ fold] inv have adm: "acyclic (edge_rel es)"
    "edge_rel es = edge_rel (edges g) \<union> edges_from n acc" "set bs = set acc \<union> set sk"
    "\<forall>b \<in> set acc. b > 0" "\<forall>b \<in> set sk. b > 0 \<longrightarrow> (show_int b, show_int n) \<in> (edge_rel es)\<^sup>*"
    by (auto simp: graph_inv_def)
  from inv new have fresh: "n \<notin> fst ` set (admitted g)" by (simp add: graph_inv_def)
  have set: "set (admitted ?g) = insert (n, acc) (set (admitted g))"
    unfolding g by (rule set_assoc_put_new [OF fresh])
  then have ge: "graph_edges (admitted ?g) = graph_edges (admitted g) \<union> {n} \<times> set acc"
    by (auto simp: graph_edges_def)
  have rel: "edge_rel (edges ?g) = map_prod show_int show_int ` graph_edges (admitted ?g)"
    using inv adm(2) unfolding g(1) ge by (auto simp: graph_inv_def edges_from_def)
  have sk: "(b, n) \<in> (graph_edges (admitted ?g))\<^sup>*" if "b \<in> set sk" "b > 0" for b
  proof -
    from that adm(5) rel have "(show_int b, show_int n) \<in>
        (map_prod show_int show_int ` graph_edges (admitted ?g))\<^sup>*" by (simp add: g)
    from rtrancl_image_inj [OF this refl inj_show_int] show ?thesis by auto
  qed
  have rej: "set (rejected g) \<subseteq> set (rejected ?g)" "sk \<noteq> [] \<Longrightarrow> n \<in> fst ` set (rejected ?g)"
    by (auto simp: g)
  have "settled (admitted ?g) (rejected ?g) n bs"
    unfolding settled_def
  proof (intro exI conjI)
    show "(n, acc) \<in> set (admitted ?g)" by (simp add: set)
    show "\<forall>b \<in> set bs. b \<in> set acc \<or> b \<le> 0 \<or> (b, n) \<in> (graph_edges (admitted ?g))\<^sup>*"
      using adm(3) sk by (auto intro: linorder_not_less [THEN iffD1])
    show "set acc \<noteq> set bs \<longrightarrow> n \<in> fst ` set (rejected ?g)" using adm(3) rej(2) by (cases "sk = []") auto
  qed (use adm in auto)
  moreover have "settled (admitted ?g) (rejected ?g) m cs" if "(m, cs) \<in> set ps" for m cs
  proof (rule settled_mono)
    show "settled (admitted g) (rejected g) m cs" using inv that unfolding graph_inv_def by blast
    show "set (admitted g) \<subseteq> set (admitted ?g)" unfolding set by (rule subset_insertI)
  qed (rule rej(1))
  ultimately have settled: "\<forall>m cs. (m, cs) \<in> set (ps @ [(n, bs)]) \<longrightarrow> settled (admitted ?g) (rejected ?g) m cs"
    by auto
  have "sorted_wrt (<) (List.map fst (admitted ?g))"
    using inv strict_sorted_assoc_put by (auto simp: g graph_inv_def)
  moreover have "fst ` set (admitted ?g) = fst ` set (ps @ [(n, bs)])"
    using inv by (auto simp: set graph_inv_def)
  moreover have "acyclic (edge_rel (edges ?g))" using adm(1) g(1) by simp
  ultimately show ?thesis using rel settled unfolding graph_inv_def by blast
qed

lemma admit_all_inv:
  assumes "distinct (List.map fst ps)"
  shows "graph_inv ps (fold admit_issue ps \<lparr>edges = [], admitted = [], rejected = []\<rparr>)"
  using assms
proof (induction ps rule: rev_induct)
  case Nil
  show ?case by (simp add: graph_inv_def graph_edges_def acyclic_def)
next
  case (snoc p ps)
  obtain n bs where "p = (n, bs)" by (rule prod.exhaust)
  with snoc admit_issue_inv [of ps _ n bs] show ?case by auto
qed

lemma proposals_ok:
  "proposals C rows = Inr ps \<longleftrightarrow> List.map (proposal C) rows = List.map Inr ps"
proof -
  have "fold_result (\<lambda>r ps. and_then (proposal C r) (\<lambda>p. Inr (ps @ [p]))) rows qs = Inr ps \<longleftrightarrow>
      (\<exists>rs. ps = qs @ rs \<and> List.map (proposal C) rows = List.map Inr rs)" for qs
  proof (induction rows arbitrary: qs)
    case Nil
    then show ?case by auto
  next
    case (Cons r rows)
    show ?case
    proof (cases "proposal C r")
      case (Inl e)
      then show ?thesis by auto
    next
      case (Inr p)
      then show ?thesis using Cons.IH [of "qs @ [p]"] by (auto simp: Cons_eq_map_conv)
    qed
  qed
  from this [of "[]"] show ?thesis by (simp add: proposals_def)
qed


lemma blockers_inv:
  assumes "proposals C (proposed_rows project rows) = Inr ps" and "distinct (List.map fst ps)"
    and "blockers C project rows = Inr g"
  shows "graph_inv (sort_key fst ps) g"
proof -
  have "distinct (List.map fst (sort_key fst ps))" using assms(2) by (simp add: distinct_map)
  from admit_all_inv [OF this] show ?thesis using assms(1,3) by (simp add: blockers_def)
qed

section \<open>Properties\<close>

text \<open>
  The iterative search answers reachability in the edge map, on every graph, cyclic
  ones included.
\<close>

theorem reaches_decides_reachability:
  "reaches es a b \<longleftrightarrow> (a, b) \<in> {(x, y). y \<in> set (successors es x)}\<^sup>*"
  unfolding reaches_iff edge_rel_def ..

text \<open>
  C7. The admitted dependency graph is acyclic, and nothing is dropped without reason: a
  proposed blocker of an issue is admitted, or is no issue number, or would have closed a
  cycle; issues with dropped blockers are reported.
\<close>

theorem blockers_admit_acyclic_graph:
  assumes "proposals C (proposed_rows project rows) = Inr ps" and "distinct (List.map fst ps)"
    and "blockers C project rows = Inr g"
  shows "acyclic (graph_edges (admitted g)) \<and>
    (\<forall>n bs. (n, bs) \<in> set ps \<longrightarrow> (\<exists>acc. map_of (admitted g) n = Some acc \<and>
        set acc \<subseteq> set bs \<and> (\<forall>b \<in> set acc. b > 0) \<and>
        (\<forall>b \<in> set bs. b \<in> set acc \<or> b \<le> 0 \<or> (b, n) \<in> (graph_edges (admitted g))\<^sup>*) \<and>
        (set acc \<noteq> set bs \<longrightarrow> n \<in> fst ` set (rejected g))))"
proof -
  note inv = blockers_inv [OF assms]
  have "settled (admitted g) (rejected g) n bs" if "(n, bs) \<in> set ps" for n bs
    using inv that by (simp add: graph_inv_def)
  then show ?thesis
    using graph_inv_acyclic [OF inv] graph_inv_distinct [OF inv] unfolding settled_def
    by (metis map_of_is_SomeI)
qed

theorem blockers_admit_acyclic_graph_witness:
  "acyclic (graph_edges [(1, [2 :: int]), (2 :: int, [])])"
proof -
  let ?C = "\<lparr>parse_json = \<lambda>s. if s = ''a'' then Some (JObject [(''number'', JInt 1)])
      else if s = ''b'' then Some (JObject [(''number'', JInt 2)])
      else if s = ''[2]'' then Some (JArray [JInt 2]) else Some (JArray [JInt 1, JInt 2]),
    print_json = \<lambda>_. [], digest = \<lambda>s. s, base64_decode = Some, gzip = \<lambda>s. s, gunzip = \<lambda>s _. Some s\<rparr>"
  let ?rows = "[(''a'', Some ''p'', Some ''[2]'', Some True), (''b'', Some ''p'', Some ''[1,2]'', Some True)]"
  have ps: "proposals ?C (proposed_rows ''p'' ?rows) = Inr [(1, [2]), (2, [1, 2])]"
    by (simp add: proposals_def proposed_rows_def proposal_def read_numbers_def json_index_def as_i64_def)
  have "fold admit_issue [(1, [2]), (2, [1, 2])] \<lparr>edges = [], admitted = [], rejected = []\<rparr> =
      \<lparr>edges = [(''1'', [''2''])], admitted = [(1, [2]), (2, [])], rejected = [(2, [1, 2])]\<rparr>"
    by code_simp
  then have "blockers ?C ''p'' ?rows =
      Inr \<lparr>edges = [(''1'', [''2''])], admitted = [(1, [2]), (2, [])], rejected = [(2, [1, 2])]\<rparr>"
    by (simp add: blockers_def ps)
  from blockers_admit_acyclic_graph [OF ps _ this] show ?thesis by simp
qed

text \<open>
  A project whose proposed dependencies are acyclic keeps them all: every issue is
  blocked by exactly what was proposed for it, and nothing is reported.
\<close>

theorem blockers_keep_acyclic_proposals:
  assumes "proposals C (proposed_rows project rows) = Inr ps" and "distinct (List.map fst ps)"
    and "blockers C project rows = Inr g"
    and "acyclic (graph_edges ps)" and "\<forall>(n, bs) \<in> set ps. \<forall>b \<in> set bs. b > 0"
    and "(n, bs) \<in> set ps"
  shows "\<exists>acc. map_of (admitted g) n = Some acc \<and> set acc = set bs"
proof -
  note inv = blockers_inv [OF assms(1-3)]
  note dist = graph_inv_distinct [OF inv]
  have settled: "settled (admitted g) (rejected g) m cs" if "(m, cs) \<in> set ps" for m cs
    using inv that by (simp add: graph_inv_def)
  have "graph_edges (admitted g) \<subseteq> graph_edges ps"
  proof (rule subrelI)
    fix m b
    assume "(m, b) \<in> graph_edges (admitted g)"
    then obtain acc where e: "(m, acc) \<in> set (admitted g)" "b \<in> set acc"
      by (auto simp: graph_edges_def)
    then have "m \<in> fst ` set (admitted g)" by force
    also have "\<dots> = fst ` set ps" using inv by (simp add: graph_inv_def)
    finally obtain cs where cs: "(m, cs) \<in> set ps" by auto
    with settled obtain acc' where acc': "(m, acc') \<in> set (admitted g)" "set acc' \<subseteq> set cs"
      unfolding settled_def by blast
    then have "acc' = acc" using e(1) dist by (metis map_of_is_SomeI option.inject)
    with e acc' cs show "(m, b) \<in> graph_edges ps" by (auto simp: graph_edges_def)
  qed
  then have mono: "(graph_edges (admitted g))\<^sup>* \<subseteq> (graph_edges ps)\<^sup>*" by (rule rtrancl_mono)
  from settled [OF assms(6)] obtain acc where acc: "(n, acc) \<in> set (admitted g)" "set acc \<subseteq> set bs"
    "\<forall>b \<in> set bs. b \<in> set acc \<or> b \<le> 0 \<or> (b, n) \<in> (graph_edges (admitted g))\<^sup>*"
    unfolding settled_def by blast
  have "b \<in> set acc" if b: "b \<in> set bs" for b
  proof (rule ccontr)
    assume "b \<notin> set acc"
    moreover have "b > 0" using assms(5,6) b by auto
    ultimately have "(b, n) \<in> (graph_edges ps)\<^sup>*" using acc(3) b mono by fastforce
    moreover have "(n, b) \<in> graph_edges ps" using assms(6) b by (auto simp: graph_edges_def)
    ultimately show False using assms(4) by (auto simp: acyclic_def dest: rtrancl_into_trancl2)
  qed
  with acc dist show ?thesis by (auto intro!: exI [of _ acc])
qed

theorem blockers_keep_acyclic_proposals_witness:
  "\<exists>acc. map_of [(1 :: int, [2 :: int]), (2, [])] 1 = Some acc \<and> set acc = set [2]"
proof -
  let ?C = "\<lparr>parse_json = \<lambda>s. if s = ''a'' then Some (JObject [(''number'', JInt 1)])
      else if s = ''b'' then Some (JObject [(''number'', JInt 2)])
      else if s = ''[2]'' then Some (JArray [JInt 2]) else Some (JArray []),
    print_json = \<lambda>_. [], digest = \<lambda>s. s, base64_decode = Some, gzip = \<lambda>s. s, gunzip = \<lambda>s _. Some s\<rparr>"
  let ?rows = "[(''a'', Some ''p'', Some ''[2]'', Some True), (''b'', Some ''p'', Some ''[]'', Some True)]"
  have ps: "proposals ?C (proposed_rows ''p'' ?rows) = Inr [(1, [2]), (2, [])]"
    by (simp add: proposals_def proposed_rows_def proposal_def read_numbers_def json_index_def as_i64_def)
  have "fold admit_issue [(1, [2]), (2, [])] \<lparr>edges = [], admitted = [], rejected = []\<rparr> =
      \<lparr>edges = [(''1'', [''2''])], admitted = [(1, [2]), (2, [])], rejected = []\<rparr>"
    by code_simp
  then have g: "blockers ?C ''p'' ?rows =
      Inr \<lparr>edges = [(''1'', [''2''])], admitted = [(1, [2]), (2, [])], rejected = []\<rparr>"
    by (simp add: blockers_def ps)
  have "graph_edges [(1, [2]), (2, [])] = {(1 :: int, 2 :: int)}" by (auto simp: graph_edges_def)
  then have "acyclic (graph_edges [(1, [2]), (2 :: int, [] :: int list)])"
    by (simp add: acyclic_def trancl_insert)
  from blockers_keep_acyclic_proposals [OF ps _ g this, of 1 "[2]"] show ?thesis by simp
qed

text \<open>
  The admission does not depend on the order in which the rows are stored: replicas
  with the same proposals resolve cycles the same way.
\<close>

theorem blockers_independent_of_storage_order:
  assumes "proposals C (proposed_rows project rows) = Inr ps" and "distinct (List.map fst ps)"
    and "distinct rows" and "distinct rows'" and "set rows' = set rows"
  shows "blockers C project rows' = blockers C project rows"
proof -
  let ?pr = "proposed_rows project"
  from assms(3-5) have "mset rows' = mset rows" by (simp add: set_eq_iff_mset_eq_distinct)
  then have m: "mset (?pr rows') = mset (?pr rows)" by (simp add: proposed_rows_def)
  from assms(1) have ok: "List.map (proposal C) (?pr rows) = List.map Inr ps" by (simp add: proposals_ok)
  have "\<exists>p. proposal C r = Inr p" if "r \<in> set (?pr rows')" for r
  proof -
    from that m have "r \<in> set (?pr rows)" by (metis mset_eq_setD)
    then have "proposal C r \<in> set (List.map (proposal C) (?pr rows))" by simp
    then show ?thesis unfolding ok by auto
  qed
  then have ok': "List.map (proposal C) (?pr rows') = List.map Inr (List.map (\<lambda>r. projr (proposal C r)) (?pr rows'))"
    by (fastforce simp: comp_def)
  let ?qs = "List.map (\<lambda>r. projr (proposal C r)) (?pr rows')"
  from ok' have qs: "proposals C (?pr rows') = Inr ?qs" by (simp only: proposals_ok)
  have "ps = List.map (\<lambda>r. projr (proposal C r)) (?pr rows)"
    using arg_cong [OF ok, of "List.map projr"] by (simp add: comp_def)
  then have "mset ?qs = mset ps" using m by simp
  then have same: "set ?qs = set ps" "distinct ?qs = distinct ps"
    by (rule mset_eq_setD, rule mset_eq_imp_distinct_iff)
  from assms(2) have "distinct ps" "inj_on fst (set ps)" by (simp_all add: distinct_map)
  then have "sort_key fst ?qs = sort_key fst ps"
    by (intro sort_key_set_unique) (simp_all only: same)
  then show ?thesis unfolding blockers_def qs assms(1) by simp
qed

theorem blockers_independent_of_storage_order_witness:
  "blockers \<lparr>parse_json = \<lambda>s. if s = ''a'' then Some (JObject [(''number'', JInt 1)])
      else if s = ''b'' then Some (JObject [(''number'', JInt 2)]) else Some (JArray [JInt 1, JInt 2]),
    print_json = \<lambda>_. [], digest = \<lambda>s. s, base64_decode = Some, gzip = \<lambda>s. s, gunzip = \<lambda>s _. Some s\<rparr> ''p''
     [(''b'', Some ''p'', Some ''[1,2]'', Some True), (''a'', Some ''p'', Some ''[1,2]'', Some True)] =
   blockers \<lparr>parse_json = \<lambda>s. if s = ''a'' then Some (JObject [(''number'', JInt 1)])
      else if s = ''b'' then Some (JObject [(''number'', JInt 2)]) else Some (JArray [JInt 1, JInt 2]),
    print_json = \<lambda>_. [], digest = \<lambda>s. s, base64_decode = Some, gzip = \<lambda>s. s, gunzip = \<lambda>s _. Some s\<rparr> ''p''
     [(''a'', Some ''p'', Some ''[1,2]'', Some True), (''b'', Some ''p'', Some ''[1,2]'', Some True)]"
  by (rule blockers_independent_of_storage_order [where ps = "[(1, [1, 2]), (2, [1, 2])]"])
    (auto simp: proposals_def proposed_rows_def proposal_def read_numbers_def json_index_def as_i64_def)

end
