(* ===== verification/Wire.thy ===== *)
theory Wire
  imports Revision
begin

text \<open>
  The byte stream between two replicas (\<open>src/packages/hey-boss-sync/src/wire.rs\<close> and
  \<open>compression.rs\<close>): length-delimited JSON frames, compressed when that is shorter, with
  the compression flag in the top bit of the big-endian header.
\<close>

unbundle bit_operations_syntax

section \<open>Stored payloads\<close>

definition MAX_PAYLOAD :: nat where "MAX_PAYLOAD = 32 * 1024 * 1024"
definition PAGE_BYTES :: nat where "PAGE_BYTES = 8 * 1024 * 1024"

datatype stored = Text string | Blob string \<comment> \<open>a value of the payload column\<close>

definition stored_payload :: "codec \<Rightarrow> string \<Rightarrow> stored" where
  "stored_payload C payload =
     (if length payload \<ge> 1024 \<and> length (gzip C payload) < length payload
      then Blob (gzip C payload) else Text payload)"

definition read_payload :: "codec \<Rightarrow> stored \<Rightarrow> string result" where
  "read_payload C v =
     (case v of
        Text s \<Rightarrow> Inr s
      | Blob b \<Rightarrow> (case gunzip C b MAX_PAYLOAD of None \<Rightarrow> Inl ''gzip'' | Some s \<Rightarrow> Inr s))"

section \<open>Frames\<close>

definition MAX_FRAME :: nat where "MAX_FRAME = 48 * 1024 * 1024"
definition GZIP :: "32 word" where "GZIP = push_bit 31 1"

definition to_be_bytes :: "32 word \<Rightarrow> string" where
  "to_be_bytes w = List.map (\<lambda>n. char_of (unat (drop_bit n w))) [24, 16, 8, 0]"

definition from_be_bytes :: "string \<Rightarrow> 32 word" where
  "from_be_bytes bs = foldl (\<lambda>w b. push_bit 8 w OR of_nat (of_char b)) 0 bs"

definition send :: "codec \<Rightarrow> json \<Rightarrow> string result" where
  "send C v =
     (let text = print_json C v in
      if length text > MAX_FRAME then Inl ''Replication frame exceeds limit''
      else
        let compressed = (if length text \<ge> 1024 then gzip C text else []);
            (body, flag) = (if compressed \<noteq> [] \<and> length compressed < length text
                            then (compressed, GZIP) else (text, 0))
        in Inr (to_be_bytes (of_nat (length body) OR flag) @ body))"

text \<open>
  \<open>receive\<close> takes the bytes that arrive until the stream ends and returns the message, if
  any, with the bytes after it. An end in the middle of a frame is an error.
\<close>

definition receive :: "codec \<Rightarrow> string \<Rightarrow> (json option \<times> string) result" where
  "receive C stream =
     (if stream = [] then Inr (None, [])
      else if length stream < 4 then Inl ''UnexpectedEof''
      else
        let header = from_be_bytes (take 4 stream);
            n = unat (header AND NOT GZIP);
            body = take n (drop 4 stream);
            rest = drop n (drop 4 stream)
        in if n = 0 \<or> n > MAX_FRAME then Inl ''Invalid replication frame length''
           else if length body < n then Inl ''UnexpectedEof''
           else
             (case (if header AND GZIP \<noteq> 0 then gunzip C body MAX_FRAME else Some body) of
                None \<Rightarrow> Inl ''Decompressed content exceeds limit''
              | Some text \<Rightarrow>
                  (case parse_json C text of None \<Rightarrow> Inl ''JSON'' | Some v \<Rightarrow> Inr (Some v, rest))))"

section \<open>Headers\<close>

lemma stored_payload_read:
  assumes "inflates C {payload}" and "length payload \<le> MAX_PAYLOAD"
  shows "read_payload C (stored_payload C payload) = Inr payload"
  using assms by (simp add: stored_payload_def read_payload_def inflates_def)

lemma stored_payload_empty [simp]: "stored_payload C payload = Text [] \<longleftrightarrow> payload = []"
  by (auto simp: stored_payload_def)

lemma take_byte: "(of_nat (unat (w :: 32 word) mod 256) :: 32 word) = take_bit 8 w"
proof -
  have "unat w mod 256 = unat (take_bit 8 w)"
    by (simp add: take_bit_eq_mod unat_mod_distrib)
  then show ?thesis by simp
qed

lemma be_bytes_round_trip [simp]: "from_be_bytes (to_be_bytes w) = w"
proof -
  have "from_be_bytes (to_be_bytes w) =
      push_bit 8 (push_bit 8 (push_bit 8 (take_bit 8 (drop_bit 24 w)) OR take_bit 8 (drop_bit 16 w))
        OR take_bit 8 (drop_bit 8 w)) OR take_bit 8 w"
    by (simp add: from_be_bytes_def to_be_bytes_def take_byte)
  also have "\<dots> = w"
  proof (rule bit_word_eqI)
    fix n
    assume "n < LENGTH(32)"
    then consider "n < 8" | "8 \<le> n" "n < 16" | "16 \<le> n" "n < 24" | "24 \<le> n" "n < 32" by force
    then show "bit (push_bit 8 (push_bit 8 (push_bit 8 (take_bit 8 (drop_bit 24 w)) OR take_bit 8 (drop_bit 16 w))
        OR take_bit 8 (drop_bit 8 w)) OR take_bit 8 w) n = bit w n"
      by cases (simp_all add: bit_simps less_diff_conv2)
  qed
  finally show ?thesis .
qed

lemma length_be_bytes [simp]: "length (to_be_bytes w) = 4"
  by (simp add: to_be_bytes_def)

lemma bit_GZIP [simp]: "bit GZIP k \<longleftrightarrow> k = 31"
  unfolding GZIP_def bit_push_bit_iff by (auto simp: bit_1_iff)

text \<open>A length below the flag and the flag do not disturb each other.\<close>

lemma flag_free:
  assumes "n < 2 ^ 31"
  shows "(of_nat n :: 32 word) AND GZIP = 0"
proof (rule bit_word_eqI)
  fix k
  have "\<not> bit n 31" using assms by (simp add: bit_iff_odd)
  then show "bit ((of_nat n :: 32 word) AND GZIP) k = bit (0 :: 32 word) k"
    by (auto simp: bit_simps)
qed

lemma header_length:
  assumes "n < 2 ^ 31" and "flag = 0 \<or> flag = GZIP"
  shows "unat ((of_nat n OR flag :: 32 word) AND NOT GZIP) = n"
    and "(of_nat n OR flag) AND GZIP \<noteq> 0 \<longleftrightarrow> flag = GZIP"
proof -
  have "(of_nat n OR flag :: 32 word) AND NOT GZIP = of_nat n"
  proof (rule bit_word_eqI)
    fix k
    have "\<not> bit n 31" using assms(1) by (simp add: bit_iff_odd)
    then show "bit ((of_nat n OR flag :: 32 word) AND NOT GZIP) k = bit (of_nat n :: 32 word) k"
      using assms(2) by (auto simp: bit_simps)
  qed
  then show "unat ((of_nat n OR flag :: 32 word) AND NOT GZIP) = n"
    using assms(1) by (simp add: unat_of_nat)
  have "GZIP \<noteq> 0" by (simp add: GZIP_def)
  with flag_free [OF assms(1)] assms(2) show "(of_nat n OR flag) AND GZIP \<noteq> 0 \<longleftrightarrow> flag = GZIP"
    by (auto simp: bit.conj_disj_distrib2)
qed

lemma send_frame:
  assumes "send C v = Inr frame" and "print_json C v \<noteq> []"
  obtains body flag where "frame = to_be_bytes (of_nat (length body) OR flag) @ body"
    and "flag = 0 \<and> body = print_json C v \<or> flag = GZIP \<and> body = gzip C (print_json C v)"
    and "0 < length body" and "length body \<le> MAX_FRAME" and "length (print_json C v) \<le> MAX_FRAME"
proof (cases "length (print_json C v) \<ge> 1024 \<and> gzip C (print_json C v) \<noteq> []
    \<and> length (gzip C (print_json C v)) < length (print_json C v)")
  case True
  with assms show ?thesis
    by (intro that [of "gzip C (print_json C v)" GZIP]) (auto simp: send_def Let_def split: if_splits)
next
  case False
  with assms show ?thesis
    by (intro that [of "print_json C v" 0]) (auto simp: send_def Let_def split: if_splits)
qed

section \<open>Properties\<close>

text \<open>
  C32. What is sent is received: a frame written by \<open>send\<close> is read back as the same
  message, compressed or not, and the bytes that follow it are left for the next message.
\<close>

theorem frames_round_trip:
  assumes "send C v = Inr frame" and "round_trip C {v}" and "inflates C {print_json C v}"
    and "print_json C v \<noteq> []"
  shows "receive C (frame @ rest) = Inr (Some v, rest)"
proof -
  obtain body flag where frame: "frame = to_be_bytes (of_nat (length body) OR flag) @ body"
    and flag: "flag = 0 \<and> body = print_json C v \<or> flag = GZIP \<and> body = gzip C (print_json C v)"
    and len: "0 < length body" "length body \<le> MAX_FRAME" "length (print_json C v) \<le> MAX_FRAME"
    using assms(1,4) by (rule send_frame)
  have n: "length body < 2 ^ 31" using len(2) by (simp add: MAX_FRAME_def)
  from flag have flags: "flag = 0 \<or> flag = GZIP" by blast
  have g: "GZIP \<noteq> 0" by (simp add: GZIP_def)
  from header_length [OF n flags] flag len assms(2,3) g show ?thesis
    by (auto simp: receive_def frame Let_def round_trip_def inflates_def)
qed

theorem frames_round_trip_witness:
  "receive \<lparr>parse_json = \<lambda>s. if s = ''[]'' then Some (JArray []) else None,
      print_json = \<lambda>_. ''[]'', digest = \<lambda>s. s, base64_decode = Some, gzip = \<lambda>s. s,
      gunzip = \<lambda>s n. if length s \<le> n then Some s else None\<rparr>
     (to_be_bytes 2 @ ''[]'' @ ''next'') = Inr (Some (JArray []), ''next'')"
proof -
  let ?C = "\<lparr>parse_json = \<lambda>s. if s = ''[]'' then Some (JArray []) else None,
      print_json = \<lambda>_. ''[]'', digest = \<lambda>s. s, base64_decode = Some, gzip = \<lambda>s. s,
      gunzip = \<lambda>s n. if length s \<le> n then Some s else None\<rparr>"
  have "send ?C (JArray []) = Inr (to_be_bytes 2 @ ''[]'')"
    by (simp add: send_def MAX_FRAME_def)
  from frames_round_trip [OF this, of "''next''"] show ?thesis
    by (simp add: round_trip_def inflates_def)
qed

text \<open>
  No frame makes the receiver allocate or inflate more than its limit: a received
  body is at most 48 MiB, and a header that announces more, or nothing, is refused before
  its body is read.
\<close>

theorem receive_bounds_frames:
  assumes "4 \<le> length stream"
    and "unat (from_be_bytes (take 4 stream) AND NOT GZIP) \<notin> {1..MAX_FRAME}"
  shows "receive C stream = Inl ''Invalid replication frame length''"
proof -
  from assms(1) have "stream \<noteq> []" by auto
  moreover from assms(2) have "unat (from_be_bytes (take 4 stream) AND NOT GZIP) = 0
      \<or> unat (from_be_bytes (take 4 stream) AND NOT GZIP) > MAX_FRAME" by auto
  ultimately show ?thesis using assms(1) by (auto simp: receive_def Let_def)
qed

theorem receive_bounds_frames_witness:
  "receive \<lparr>parse_json = \<lambda>_. None, print_json = \<lambda>_. [], digest = \<lambda>s. s, base64_decode = Some,
      gzip = \<lambda>s. s, gunzip = \<lambda>s n. Some s\<rparr> (to_be_bytes 0 @ ''x'') =
   Inl ''Invalid replication frame length''"
  by (rule receive_bounds_frames) simp_all

end
