(* ===== verification/Engine.thy ===== *)
theory Engine
  imports Wire
begin

text \<open>
  The replicated journal (\<open>src/packages/hey-boss-sync/src/lib.rs\<close>): records keyed by the
  hash of their payload, a local delivery log that numbers them in order of arrival, and
  per peer the position received and the position acknowledged. The lemmas show that a
  batch that one replica makes is accepted by every other, that a receipt is proof of
  everything before it, and that repeated exchanges reach the end of the log.
\<close>

section \<open>State\<close>

record meta = \<comment> \<open>the clock that cr-sqlite keeps for a column\<close>
  m_site :: string
  m_version :: int
  m_sequence :: int
  m_timestamp :: string

text \<open>
  The cr-sqlite extension: the clock of the n-th local write of a row, and the outcome of
  inserting a change over the row that is there.
\<close>

record extension =
  local_meta :: "nat \<Rightarrow> string \<Rightarrow> meta"
  merge_change :: "(stored \<times> meta) option \<Rightarrow> stored \<times> meta \<Rightarrow> stored \<times> meta"

record engine =
  e_id :: string
  e_records :: "string \<rightharpoonup> stored \<times> meta"
  e_delivery :: "string list" \<comment> \<open>position \<open>i + 1\<close> holds the id at index \<open>i\<close>\<close>
  e_receipts :: "string \<rightharpoonup> int"
  e_sent :: "string \<rightharpoonup> int"
  e_compressed :: int
  e_writes :: nat

record change =
  ch_position :: int
  ch_id :: string
  ch_payload :: string
  ch_meta :: meta

record batch =
  b_replica :: string
  b_after :: int
  b_through :: int
  b_records :: "change list"

section \<open>Local operations\<close>

text \<open>An insertion fires the trigger that appends the id to the delivery log.\<close>

definition deliver :: "string \<Rightarrow> engine \<Rightarrow> engine" where
  "deliver i e = (if i \<in> set (e_delivery e) then e else e\<lparr>e_delivery := e_delivery e @ [i]\<rparr>)"

definition local_write :: "extension \<Rightarrow> string \<Rightarrow> stored \<Rightarrow> engine \<Rightarrow> engine" where
  "local_write X i v e =
     e\<lparr>e_records := (e_records e)(i \<mapsto> (v, local_meta X (e_writes e) i)), e_writes := e_writes e + 1\<rparr>"

definition put :: "codec \<Rightarrow> extension \<Rightarrow> string \<Rightarrow> engine \<Rightarrow> (engine \<times> string) result" where
  "put C X payload e =
     (if payload = [] \<or> length payload > MAX_PAYLOAD then Inl ''Invalid replication payload length''
      else
        let i = digest C payload
        in Inr (if e_records e i \<noteq> None then e
                else deliver i (local_write X i (stored_payload C payload) e), i))"

definition payload :: "codec \<Rightarrow> engine \<Rightarrow> string \<Rightarrow> string option result" where
  "payload C e i =
     (case e_records e i of
        None \<Rightarrow> Inr None
      | Some (v, _) \<Rightarrow> if v = Text [] then Inr None else and_then (read_payload C v) (\<lambda>p. Inr (Some p)))"

definition prune_one :: "extension \<Rightarrow> string \<Rightarrow> engine \<Rightarrow> engine" where
  "prune_one X i e =
     (case e_records e i of
        None \<Rightarrow> e
      | Some (v, _) \<Rightarrow> if v = Text [] then e else local_write X i (Text []) e)"

definition prune :: "extension \<Rightarrow> string list \<Rightarrow> engine \<Rightarrow> engine" where
  "prune X ids e = fold (prune_one X) ids e"

definition head :: "engine \<Rightarrow> int" where
  "head e = int (length (e_delivery e))"

definition received :: "engine \<Rightarrow> string \<Rightarrow> int" where
  "received e r = (case e_receipts e r of None \<Rightarrow> 0 | Some p \<Rightarrow> p)"

definition sent :: "engine \<Rightarrow> string \<Rightarrow> int" where
  "sent e r = (case e_sent e r of None \<Rightarrow> 0 | Some p \<Rightarrow> p)"

definition acknowledge :: "string \<Rightarrow> int \<Rightarrow> engine \<Rightarrow> engine result" where
  "acknowledge r position e =
     (if position < 0 \<or> position > head e then Inl ''Peer acknowledged an invalid position''
      else if position \<le> sent e r then Inr e
      else Inr (e\<lparr>e_sent := (e_sent e)(r \<mapsto>
                 (case e_sent e r of None \<Rightarrow> position | Some old \<Rightarrow> max old position))\<rparr>))"

section \<open>Reading the log\<close>

type_synonym log_row = "int \<times> string \<times> stored \<times> meta"
type_synonym read_row = "int \<times> string \<times> string \<times> meta"

definition delivered :: "engine \<Rightarrow> log_row list" where
  \<comment> \<open>\<open>delivery JOIN records ORDER BY position\<close>\<close>
  "delivered e = List.map_filter (\<lambda>(i, d).
     case e_records e d of None \<Rightarrow> None | Some (v, m) \<Rightarrow> Some (int i, d, v, m))
     (List.enumerate 1 (e_delivery e))"

definition rows_between :: "engine \<Rightarrow> int \<Rightarrow> int \<Rightarrow> log_row list" where
  "rows_between e after through = filter (\<lambda>(p, _). after < p \<and> p \<le> through) (delivered e)"

text \<open>A page of at most the given bytes, but at least one record; whether it was cut.\<close>

fun page :: "codec \<Rightarrow> bool \<Rightarrow> nat \<Rightarrow> log_row list \<Rightarrow> (read_row list \<times> bool) result" where
  "page C started bytes [] = Inr ([], False)"
| "page C started bytes ((p, i, v, m) # rows) =
     and_then (read_payload C v) (\<lambda>s.
       if started \<and> bytes + length s > PAGE_BYTES then Inr ([], True)
       else and_then (page C True (bytes + length s) rows) (\<lambda>(rs, cut).
              Inr ((p, i, s, m) # rs, cut)))"

definition batch :: "codec \<Rightarrow> engine \<Rightarrow> int \<Rightarrow> batch result" where
  "batch C e after =
     (if after < 0 \<or> after > head e
      then Inl ''Replication cursor is beyond retained history; restore requires a new replica identity''
      else and_then (page C False 0 (take 128 (rows_between e after (head e)))) (\<lambda>(rs, _).
        Inr \<lparr>b_replica = e_id e, b_after = after,
             b_through = (if rs = [] then after else fst (last rs)),
             b_records = List.map (\<lambda>(p, i, s, m).
               \<lparr>ch_position = p, ch_id = i, ch_payload = s, ch_meta = m\<rparr>) rs\<rparr>))"

definition pending :: "codec \<Rightarrow> engine \<Rightarrow> int \<Rightarrow> read_row list result" where
  "pending C e after =
     and_then (page C False 0 (take 128 (rows_between e after (head e)))) (\<lambda>(rs, _). Inr rs)"

text \<open>The matching rows of a range, with the position up to which the scan is complete.\<close>

definition scan ::
    "codec \<Rightarrow> (string \<Rightarrow> bool) \<Rightarrow> engine \<Rightarrow> int \<Rightarrow> int \<Rightarrow> (int \<times> read_row list) result" where
  "scan C match_text e after through =
     (let matching = filter (\<lambda>(_, _, v, _).
            case read_payload C v of Inl _ \<Rightarrow> False | Inr s \<Rightarrow> match_text s)
            (rows_between e after through)
      in and_then (page C False 0 (take 128 matching)) (\<lambda>(rs, cut).
           Inr (if cut \<or> length rs = 128 then fst (last rs) else through, rs)))"

definition pending_prefix :: "codec \<Rightarrow> string \<Rightarrow> engine \<Rightarrow> int \<Rightarrow> (int \<times> read_row list) result" where
  "pending_prefix C prefix e after = scan C (starts_with prefix) e after (head e)"

definition contains :: "string \<Rightarrow> string \<Rightarrow> bool" where
  "contains needle s \<longleftrightarrow> needle \<noteq> [] \<and>
     list_ex (\<lambda>k. take (length needle) (drop k s) = needle) [0..<length s]"

definition pending_header :: "codec \<Rightarrow> string \<Rightarrow> engine \<Rightarrow> int \<Rightarrow> (int \<times> read_row list) result" where
  "pending_header C needle e after =
     scan C (\<lambda>s. contains needle (take 512 s)) e after (min (head e) (after + 4096))"

section \<open>Compressing retained facts\<close>

definition char_length :: "string \<Rightarrow> nat" where
  \<comment> \<open>SQL \<open>length\<close>: the characters before the first NUL\<close>
  "char_length s = length (filter (\<lambda>c. byte c < 128 \<or> 192 \<le> byte c)
     (takeWhile (\<lambda>c. c \<noteq> CHR 0x00) s))"

fun compress_scan ::
    "codec \<Rightarrow> nat \<Rightarrow> int \<Rightarrow> log_row list \<Rightarrow> ((string \<times> string) list \<times> int) result" where
  "compress_scan C size_so_far through [] = Inr ([], through)"
| "compress_scan C size_so_far through ((p, i, v, m) # rows) =
     (case v of
        Blob _ \<Rightarrow> compress_scan C size_so_far through rows
      | Text s \<Rightarrow>
          if size_so_far > 0 \<and> size_so_far + length s > PAGE_BYTES then Inr ([], through)
          else if digest C s \<noteq> i then Inl ''Retained fact failed its integrity check''
          else and_then (compress_scan C (size_so_far + length s) p rows) (\<lambda>(us, t).
                 Inr (case stored_payload C s of Blob b \<Rightarrow> ((i, b) # us, t) | Text _ \<Rightarrow> (us, t))))"

definition compress_history :: "codec \<Rightarrow> extension \<Rightarrow> engine \<Rightarrow> (engine \<times> bool) result" where
  "compress_history C X e =
     (let after = e_compressed e in
      if after \<ge> head e then Inr (e, False)
      else
        let rows = take 128 (filter (\<lambda>(_, _, v, _).
              case v of Text s \<Rightarrow> char_length s \<ge> 1024 | Blob _ \<Rightarrow> False)
              (rows_between e after (head e)))
        in and_then (compress_scan C 0 (head e) rows) (\<lambda>(updates, through).
             Inr ((fold (\<lambda>(i, b). local_write X i (Blob b)) updates e)\<lparr>e_compressed := through\<rparr>, True)))"

section \<open>Receiving a batch\<close>

definition hex_any :: "char \<Rightarrow> bool" where
  \<comment> \<open>\<open>is_ascii_hexdigit\<close>\<close>
  "hex_any c \<longleftrightarrow> hex_digit c \<or> (65 \<le> byte c \<and> byte c \<le> 70)"

definition parses_u64 :: "string \<Rightarrow> bool" where
  "parses_u64 s =
     (let d = (case s of c # cs \<Rightarrow> if c = CHR ''+'' then cs else s | [] \<Rightarrow> s)
      in d \<noteq> [] \<and> list_all ascii_digit d \<and> read_nat d < 2 ^ 64)"

definition batch_ok :: "batch \<Rightarrow> bool" where
  "batch_ok b \<longleftrightarrow>
     \<not> (length (b_replica b) \<noteq> 32 \<or> \<not> list_all hex_any (b_replica b)
        \<or> b_after b < 0 \<or> b_through b < b_after b
        \<or> b_through b - b_after b \<noteq> int (length (b_records b))
        \<or> length (b_records b) > 128)"

definition record_ok :: "codec \<Rightarrow> int \<Rightarrow> change \<Rightarrow> bool" where
  "record_ok C position r \<longleftrightarrow>
     \<not> (ch_position r \<noteq> position
        \<or> length (m_site (ch_meta r)) \<noteq> 16 \<or> m_version (ch_meta r) < 1
        \<or> m_sequence (ch_meta r) < 0 \<or> \<not> parses_u64 (m_timestamp (ch_meta r))
        \<or> length (ch_payload r) > MAX_PAYLOAD
        \<or> length (ch_id r) \<noteq> 64 \<or> \<not> list_all hex_any (ch_id r)
        \<or> (ch_payload r \<noteq> [] \<and> ch_id r \<noteq> digest C (ch_payload r)))"

definition merge_record :: "codec \<Rightarrow> extension \<Rightarrow> change \<Rightarrow> engine \<Rightarrow> engine" where
  "merge_record C X r e =
     (let i = ch_id r; old = e_records e i in
      if (case old of Some (v, _) \<Rightarrow> v = Text [] | None \<Rightarrow> False) then e
      else
        let e = e\<lparr>e_records := (e_records e)(i \<mapsto>
                  merge_change X old (stored_payload C (ch_payload r), ch_meta r))\<rparr>;
            e = (if old = None then deliver i e else e)
        in (if ch_payload r = [] then local_write X i (Text []) e else e))"

definition ingest :: "codec \<Rightarrow> extension \<Rightarrow> batch \<Rightarrow> engine \<Rightarrow> engine result" where
  "ingest C X b e =
     (if \<not> batch_ok b then Inl ''Invalid replication batch envelope''
      else if \<not> list_all (\<lambda>(k, r). record_ok C (b_after b + int k + 1) r) (List.enumerate 0 (b_records b))
      then Inl ''Invalid or corrupt replication record''
      else if b_records b = [] \<and> b_through b \<le> received e (b_replica b) then Inr e
      else if b_after b > received e (b_replica b)
      then Inl ''Replication batch leaves an unacknowledged gap''
      else
        let e = fold (merge_record C X) (b_records b) e
        in Inr (e\<lparr>e_receipts := (e_receipts e)(b_replica b \<mapsto>
                  (case e_receipts e (b_replica b) of
                     None \<Rightarrow> b_through b | Some old \<Rightarrow> max old (b_through b)))\<rparr>))"


section \<open>Well-formed engines\<close>

definition codec_ok :: "codec \<Rightarrow> bool" where
  "codec_ok C \<longleftrightarrow> inflates C UNIV \<and> (\<forall>s. length (digest C s) = 64 \<and> list_all hex_digit (digest C s))"

definition meta_ok :: "meta \<Rightarrow> bool" where
  "meta_ok m \<longleftrightarrow> length (m_site m) = 16 \<and> m_version m \<ge> 1 \<and> m_sequence m \<ge> 0 \<and> parses_u64 (m_timestamp m)"

text \<open>
  What the journal relies on in cr-sqlite: clocks are well-formed, a change to a missing
  row is taken as it is, and a merge keeps one of the two values.
\<close>

definition extension_ok :: "extension \<Rightarrow> bool" where
  "extension_ok X \<longleftrightarrow>
     (\<forall>n i. meta_ok (local_meta X n i)) \<and>
     (\<forall>new. merge_change X None new = new) \<and>
     (\<forall>old new. fst (merge_change X (Some old) new) \<in> {fst old, fst new} \<and>
        (meta_ok (snd old) \<longrightarrow> meta_ok (snd new) \<longrightarrow> meta_ok (snd (merge_change X (Some old) new))))"

definition value_ok :: "codec \<Rightarrow> string \<Rightarrow> stored \<Rightarrow> bool" where
  "value_ok C i v \<longleftrightarrow>
     (\<exists>s. read_payload C v = Inr s \<and> length s \<le> MAX_PAYLOAD \<and> (s = [] \<longleftrightarrow> v = Text []) \<and>
        (s \<noteq> [] \<longrightarrow> digest C s = i))"

definition id_ok :: "string \<Rightarrow> bool" where
  "id_ok i \<longleftrightarrow> length i = 64 \<and> list_all hex_any i"

definition engine_ok :: "codec \<Rightarrow> engine \<Rightarrow> bool" where
  "engine_ok C e \<longleftrightarrow>
     distinct (e_delivery e) \<and> set (e_delivery e) = dom (e_records e) \<and>
     (\<forall>i v m. e_records e i = Some (v, m) \<longrightarrow> meta_ok m \<and> id_ok i \<and> value_ok C i v) \<and>
     (\<forall>r. 0 \<le> received e r) \<and> (\<forall>r. 0 \<le> sent e r \<and> sent e r \<le> head e)"

text \<open>The log only grows, and a tombstone stays one.\<close>

definition tombstone :: "engine \<Rightarrow> string \<Rightarrow> bool" where
  "tombstone e i \<longleftrightarrow> (\<exists>m. e_records e i = Some (Text [], m))"

definition grows :: "engine \<Rightarrow> engine \<Rightarrow> bool" where
  "grows e f \<longleftrightarrow> e_id f = e_id e \<and> (\<exists>new. e_delivery f = e_delivery e @ new) \<and>
     (\<forall>i. tombstone e i \<longrightarrow> tombstone f i)"

lemma grows_refl [simp]: "grows e e"
  by (simp add: grows_def)

lemma grows_trans: "grows e f \<Longrightarrow> grows f g \<Longrightarrow> grows e g"
  unfolding grows_def by (metis append_assoc)

lemma grows_delivery: "grows e f \<Longrightarrow> set (e_delivery e) \<subseteq> set (e_delivery f)"
  by (auto simp: grows_def)

lemma value_ok_stored:
  assumes "codec_ok C" and "length p \<le> MAX_PAYLOAD" and "p \<noteq> [] \<longrightarrow> digest C p = i"
  shows "value_ok C i (stored_payload C p)"
proof -
  have "read_payload C (stored_payload C p) = Inr p"
    using assms by (intro stored_payload_read) (auto simp: codec_ok_def inflates_def)
  with assms(2,3) show ?thesis by (auto simp: value_ok_def)
qed

lemma value_ok_tombstone [simp]: "value_ok C i (Text [])"
  by (simp add: value_ok_def read_payload_def)

lemma digest_id_ok: "codec_ok C \<Longrightarrow> id_ok (digest C s)"
  by (auto simp: codec_ok_def id_ok_def hex_any_def list_all_iff)

text \<open>Writing a good value to a row, new or old, keeps the engine well-formed.\<close>

lemma local_write_ok:
  assumes "extension_ok X" and "engine_ok C e" and "id_ok i" and "value_ok C i v"
    and "i \<in> set (e_delivery e)"
  shows "engine_ok C (local_write X i v e)"
  using assms
  by (auto simp: engine_ok_def local_write_def extension_ok_def received_def sent_def head_def)

lemma deliver_write_ok:
  assumes "extension_ok X" and "engine_ok C e" and "id_ok i" and "value_ok C i v"
  shows "engine_ok C (deliver i (local_write X i v e))"
  using assms
  by (auto simp: engine_ok_def deliver_def local_write_def extension_ok_def received_def sent_def head_def
      intro: le_less_trans [THEN less_imp_le] order_trans)

lemma insert_ok:
  assumes "engine_ok C e" and "id_ok i" and "value_ok C i v" and "meta_ok m"
  shows "engine_ok C (deliver i (e\<lparr>e_records := (e_records e)(i \<mapsto> (v, m))\<rparr>))"
  using assms
  by (auto simp: engine_ok_def deliver_def received_def sent_def head_def
      intro: le_less_trans [THEN less_imp_le] order_trans)

lemma put_ok:
  assumes "codec_ok C" and "extension_ok X" and "engine_ok C e" and "put C X p e = Inr (f, i)"
  shows "engine_ok C f \<and> grows e f \<and> i \<in> set (e_delivery f)"
proof (cases "e_records e (digest C p)")
  case None
  with assms(4) have f: "f = deliver (digest C p) (local_write X (digest C p) (stored_payload C p) e)"
    and i: "i = digest C p" and len: "length p \<le> MAX_PAYLOAD"
    by (auto simp: put_def Let_def split: if_splits)
  have "engine_ok C f"
    unfolding f using assms len by (intro deliver_write_ok digest_id_ok value_ok_stored) auto
  moreover have "grows e f"
    using None by (auto simp: f grows_def deliver_def local_write_def tombstone_def)
  ultimately show ?thesis using i f by (auto simp: deliver_def local_write_def)
next
  case (Some r)
  with assms(4) have "f = e" "i = digest C p" by (auto simp: put_def Let_def split: if_splits)
  with Some assms(3) show ?thesis by (auto simp: engine_ok_def)
qed

lemma prune_one_ok:
  assumes "extension_ok X" and "engine_ok C e"
  shows "engine_ok C (prune_one X i e) \<and> grows e (prune_one X i e)"
proof (cases "e_records e i")
  case None
  with assms show ?thesis by (simp add: prune_one_def)
next
  case (Some r)
  obtain v m where r: "r = (v, m)" by (rule prod.exhaust)
  show ?thesis
  proof (cases "v = Text []")
    case True
    with assms Some r show ?thesis by (simp add: prune_one_def)
  next
    case False
    have "engine_ok C (local_write X i (Text []) e)"
      using assms Some r by (intro local_write_ok) (auto simp: engine_ok_def)
    moreover have "grows e (local_write X i (Text []) e)"
      by (auto simp: grows_def local_write_def tombstone_def)
    ultimately show ?thesis using False Some r by (simp add: prune_one_def)
  qed
qed

lemma prune_ok:
  assumes "extension_ok X" and "engine_ok C e"
  shows "engine_ok C (prune X ids e) \<and> grows e (prune X ids e)"
  using assms(2)
proof (induction ids arbitrary: e)
  case Nil
  then show ?case by (simp add: prune_def)
next
  case (Cons i ids)
  with prune_one_ok [OF assms(1) Cons.prems, of i] show ?case
    by (auto simp: prune_def intro: grows_trans)
qed

lemma acknowledge_ok:
  assumes "acknowledge r p e = Inr f" and "engine_ok C e"
  shows "engine_ok C f \<and> grows e f \<and> e_records f = e_records e \<and> e_delivery f = e_delivery e
     \<and> e_receipts f = e_receipts e \<and> sent e r \<le> sent f r \<and> p \<le> sent f r"
  using assms
  by (auto simp: acknowledge_def engine_ok_def sent_def head_def received_def grows_def tombstone_def
      split: if_splits option.splits)

lemma extension_merge:
  assumes "extension_ok X"
  shows "fst (merge_change X (Some old) new) = fst old \<or> fst (merge_change X (Some old) new) = fst new"
    and "meta_ok (snd old) \<Longrightarrow> meta_ok (snd new) \<Longrightarrow> meta_ok (snd (merge_change X (Some old) new))"
  using assms unfolding extension_ok_def by blast+

lemma merge_record_ok:
  assumes C: "codec_ok C" and X: "extension_ok X" and e: "engine_ok C e" and r: "record_ok C n r"
  shows "engine_ok C (merge_record C X r e) \<and> grows e (merge_record C X r e) \<and>
     ch_id r \<in> set (e_delivery (merge_record C X r e)) \<and>
     (ch_payload r = [] \<longrightarrow> tombstone (merge_record C X r e) (ch_id r)) \<and>
     e_receipts (merge_record C X r e) = e_receipts e"
proof -
  let ?i = "ch_id r"
  from r have good: "id_ok ?i" "meta_ok (ch_meta r)" "length (ch_payload r) \<le> MAX_PAYLOAD"
    "ch_payload r \<noteq> [] \<longrightarrow> digest C (ch_payload r) = ?i"
    by (auto simp: record_ok_def id_ok_def meta_ok_def)
  have new: "value_ok C ?i (stored_payload C (ch_payload r))"
    using C good by (intro value_ok_stored) auto
  show ?thesis
  proof (cases "tombstone e ?i")
    case True
    with e show ?thesis by (auto simp: merge_record_def tombstone_def engine_ok_def)
  next
    case False
    define f where "f = e\<lparr>e_records := (e_records e)(?i \<mapsto>
        merge_change X (e_records e ?i) (stored_payload C (ch_payload r), ch_meta r))\<rparr>"
    define g where "g = (if e_records e ?i = None then deliver ?i f else f)"
    have run: "merge_record C X r e = (if ch_payload r = [] then local_write X ?i (Text []) g else g)"
      using False by (auto simp: merge_record_def f_def g_def Let_def tombstone_def split: option.splits)
    have merged: "value_ok C ?i (fst (merge_change X (e_records e ?i) (stored_payload C (ch_payload r), ch_meta r)))
        \<and> meta_ok (snd (merge_change X (e_records e ?i) (stored_payload C (ch_payload r), ch_meta r)))"
    proof (cases "e_records e ?i")
      case None
      with X new good(2) show ?thesis by (simp add: extension_ok_def)
    next
      case (Some old)
      then have "value_ok C ?i (fst old)" "meta_ok (snd old)"
        using e by (cases old; simp add: engine_ok_def)+
      with new good(2) extension_merge [OF X, of old "(stored_payload C (ch_payload r), ch_meta r)"]
      show ?thesis unfolding Some by auto
    qed
    obtain v m where vm: "merge_change X (e_records e ?i) (stored_payload C (ch_payload r), ch_meta r) = (v, m)"
      by (rule prod.exhaust)
    have f_vm: "f = e\<lparr>e_records := (e_records e)(?i \<mapsto> (v, m))\<rparr>" by (simp add: f_def vm)
    have "g = deliver ?i (e\<lparr>e_records := (e_records e)(?i \<mapsto> (v, m))\<rparr>)"
      using e by (auto simp: g_def f_vm deliver_def engine_ok_def)
    with merged vm insert_ok [OF e good(1), of v m]
    have g: "engine_ok C g \<and> ?i \<in> set (e_delivery g) \<and> e_receipts g = e_receipts e"
      by (auto simp: deliver_def)
    have grow: "grows e g"
      using False by (auto simp: g_def deliver_def f_def grows_def tombstone_def)
    show ?thesis
    proof (cases "ch_payload r = []")
      case True
      have "engine_ok C (local_write X ?i (Text []) g)"
        using X g good(1) by (intro local_write_ok) auto
      moreover have "grows g (local_write X ?i (Text []) g)"
        by (auto simp: grows_def local_write_def tombstone_def)
      ultimately show ?thesis
        using g grow True run grows_trans by (auto simp: local_write_def tombstone_def)
    qed (use g grow run in auto)
  qed
qed


lemma merge_all_ok:
  assumes "codec_ok C" and "extension_ok X" and "engine_ok C e"
    and "\<forall>r \<in> set rs. \<exists>n. record_ok C n r"
  shows "engine_ok C (fold (merge_record C X) rs e) \<and> grows e (fold (merge_record C X) rs e) \<and>
     ch_id ` set rs \<subseteq> set (e_delivery (fold (merge_record C X) rs e)) \<and>
     (\<forall>r \<in> set rs. ch_payload r = [] \<longrightarrow> tombstone (fold (merge_record C X) rs e) (ch_id r)) \<and>
     e_receipts (fold (merge_record C X) rs e) = e_receipts e"
  using assms(3,4)
proof (induction rs arbitrary: e)
  case Nil
  then show ?case by simp
next
  case (Cons r rs)
  let ?f = "merge_record C X r e"
  from Cons.prems(2) obtain n where "record_ok C n r" by auto
  note step = merge_record_ok [OF assms(1,2) Cons.prems(1) this]
  with Cons have IH: "engine_ok C (fold (merge_record C X) rs ?f) \<and> grows ?f (fold (merge_record C X) rs ?f) \<and>
     ch_id ` set rs \<subseteq> set (e_delivery (fold (merge_record C X) rs ?f)) \<and>
     (\<forall>r \<in> set rs. ch_payload r = [] \<longrightarrow> tombstone (fold (merge_record C X) rs ?f) (ch_id r)) \<and>
     e_receipts (fold (merge_record C X) rs ?f) = e_receipts ?f" by simp
  then have "grows e (fold (merge_record C X) rs ?f)" using step grows_trans by blast
  moreover have "ch_id r \<in> set (e_delivery (fold (merge_record C X) rs ?f))"
    using step IH grows_delivery by blast
  moreover have "ch_payload r = [] \<longrightarrow> tombstone (fold (merge_record C X) rs ?f) (ch_id r)"
    using step IH unfolding grows_def by blast
  ultimately show ?case using step IH by simp
qed

section \<open>A batch\<close>

text \<open>On a well-formed engine the join finds every delivered record.\<close>

definition log_row :: "engine \<Rightarrow> nat \<Rightarrow> log_row" where
  "log_row e k = (int k + 1, e_delivery e ! k, the (e_records e (e_delivery e ! k)))"

lemma delivered_ok:
  assumes "engine_ok C e"
  shows "delivered e = List.map (log_row e) [0..<length (e_delivery e)]"
proof -
  have "List.map_filter (\<lambda>(i, d). case e_records e d of None \<Rightarrow> None | Some (v, m) \<Rightarrow> Some (int i, d, v, m))
      (List.enumerate (Suc k) ds) =
      List.map (\<lambda>j. (int (k + j) + 1, ds ! j, the (e_records e (ds ! j)))) [0..<length ds]"
    if "set ds \<subseteq> dom (e_records e)" for k ds
    using that
  proof (induction ds arbitrary: k)
    case Nil
    then show ?case by (simp add: List.map_filter_simps)
  next
    case (Cons d ds)
    then obtain v m where d: "e_records e d = Some (v, m)" by (auto simp: dom_def)
    have "[0..<length (d # ds)] = 0 # List.map Suc [0..<length ds]"
      by (simp add: upt_conv_Cons map_Suc_upt del: upt_Suc)
    with Cons.IH [of "Suc k"] Cons.prems d show ?case
      by (simp add: List.map_filter_simps comp_def algebra_simps)
  qed
  from this [of "e_delivery e" 0] assms show ?thesis
    by (simp add: delivered_def log_row_def engine_ok_def)
qed

lemma rows_between_ok:
  assumes "engine_ok C e" and "0 \<le> after" and "after \<le> head e"
  shows "rows_between e after (head e) = List.map (log_row e) [nat after..<length (e_delivery e)]"
proof -
  have "filter (\<lambda>k. after < int k + 1 \<and> int k + 1 \<le> head e) [0..<length (e_delivery e)] =
      [nat after..<length (e_delivery e)]"
  proof -
    have "[0..<length (e_delivery e)] = [0..<nat after] @ [nat after..<length (e_delivery e)]"
      using upt_add_eq_append [of 0 "nat after" "length (e_delivery e) - nat after"] assms(2,3)
      by (simp add: head_def)
    moreover have "filter (\<lambda>k. after < int k + 1 \<and> int k + 1 \<le> head e) [0..<nat after] = []"
      by (auto simp: filter_empty_conv)
    moreover have "filter (\<lambda>k. after < int k + 1 \<and> int k + 1 \<le> head e) [nat after..<length (e_delivery e)] =
        [nat after..<length (e_delivery e)]"
      using assms(2) by (auto simp: filter_id_conv head_def)
    ultimately show ?thesis by simp
  qed
  then show ?thesis
    by (simp add: rows_between_def delivered_ok [OF assms(1)] filter_map comp_def log_row_def split_def)
qed

definition read_row :: "codec \<Rightarrow> log_row \<Rightarrow> read_row" where
  "read_row C = (\<lambda>(p, i, v, m). (p, i, projr (read_payload C v), m))"

lemma page_prefix:
  assumes "\<forall>(p, i, v, m) \<in> set rows. is_ok (read_payload C v)"
  shows "\<exists>k cut. page C started bytes rows = Inr (List.map (read_row C) (take k rows), cut) \<and>
     k \<le> length rows \<and> (\<not> started \<longrightarrow> rows \<noteq> [] \<longrightarrow> 0 < k) \<and>
     (\<not> cut \<longrightarrow> k = length rows)"
  using assms
proof (induction rows arbitrary: started bytes)
  case Nil
  show ?case by (intro exI [of _ 0] exI [of _ False]) simp
next
  case (Cons row rows)
  obtain p i v m where row: "row = (p, i, v, m)" by (rule prod_cases4)
  with Cons.prems obtain s where s: "read_payload C v = Inr s" by (auto simp: is_ok_iff)
  show ?case
  proof (cases "started \<and> bytes + length s > PAGE_BYTES")
    case True
    then have "page C started bytes (row # rows) = Inr (List.map (read_row C) (take 0 (row # rows)), True)"
      by (simp add: row s)
    with True show ?thesis by blast
  next
    case False
    from Cons.prems have "\<forall>(p, i, v, m) \<in> set rows. is_ok (read_payload C v)" by simp
    from Cons.IH [OF this, of True "bytes + length s"] obtain k cut where "page C True (bytes + length s) rows = Inr (List.map (read_row C) (take k rows), cut)"
      "k \<le> length rows" "\<not> cut \<longrightarrow> k = length rows" by blast
    with False have "page C started bytes (row # rows) =
        Inr (List.map (read_row C) (take (Suc k) (row # rows)), cut)"
      by (simp add: row s read_row_def)
    with \<open>k \<le> length rows\<close> \<open>\<not> cut \<longrightarrow> k = length rows\<close> show ?thesis
      by (intro exI [of _ "Suc k"] exI [of _ cut]) simp
  qed
qed

lemma log_row_readable:
  assumes "engine_ok C e" and "k < length (e_delivery e)"
  obtains v m s where "log_row e k = (int k + 1, e_delivery e ! k, v, m)"
    and "read_payload C v = Inr s" and "length s \<le> MAX_PAYLOAD"
    and "s \<noteq> [] \<longrightarrow> digest C s = e_delivery e ! k" and "meta_ok m" and "id_ok (e_delivery e ! k)"
    and "s = [] \<longleftrightarrow> tombstone e (e_delivery e ! k)"
proof -
  from assms have "e_delivery e ! k \<in> dom (e_records e)" by (metis engine_ok_def nth_mem)
  then obtain v m where r: "e_records e (e_delivery e ! k) = Some (v, m)" by auto
  with assms(1) have "meta_ok m" "id_ok (e_delivery e ! k)" "value_ok C (e_delivery e ! k) v"
    by (auto simp: engine_ok_def)
  moreover from this(3) obtain s where "read_payload C v = Inr s" "length s \<le> MAX_PAYLOAD"
    "s = [] \<longleftrightarrow> v = Text []" "s \<noteq> [] \<longrightarrow> digest C s = e_delivery e ! k" by (auto simp: value_ok_def)
  ultimately show ?thesis using r by (intro that) (auto simp: log_row_def tombstone_def)
qed

text \<open>
  A batch is a contiguous stretch of the log after the cursor, never empty before its
  end.
\<close>

lemma batch_stretch:
  assumes "engine_ok C e" and "0 \<le> after" and "after \<le> head e"
  shows "\<exists>b. batch C e after = Inr b \<and> b_replica b = e_id e \<and> b_after b = after \<and>
     b_through b = after + int (length (b_records b)) \<and> b_through b \<le> head e \<and>
     length (b_records b) \<le> 128 \<and> (after < head e \<longrightarrow> after < b_through b) \<and>
     (\<forall>k < length (b_records b).
        record_ok C (after + int k + 1) (b_records b ! k) \<and>
        ch_id (b_records b ! k) = e_delivery e ! (nat after + k) \<and>
        (ch_payload (b_records b ! k) = [] \<longleftrightarrow> tombstone e (e_delivery e ! (nat after + k))))"
proof -
  define rows where "rows = take 128 (List.map (log_row e) [nat after..<length (e_delivery e)])"
  have len: "length rows = min 128 (length (e_delivery e) - nat after)" by (simp add: rows_def)
  have in_log: "nat after + k < length (e_delivery e)" if "k < length rows" for k
    using that len by (simp add: less_diff_conv add.commute)
  have nth: "rows ! k = log_row e (nat after + k)" if "k < length rows" for k
    using that in_log [OF that] by (simp add: rows_def nth_upt)
  have "is_ok (read_payload C v)" if "(p, i, v, m) \<in> set rows" for p i v m
  proof -
    from that obtain k where k: "k < length rows" "rows ! k = (p, i, v, m)" by (meson in_set_conv_nth)
    from log_row_readable [OF assms(1) in_log [OF k(1)]] nth [OF k(1)] k(2) show ?thesis by force
  qed
  then obtain k cut where page: "page C False 0 rows = Inr (List.map (read_row C) (take k rows), cut)"
    and k: "k \<le> length rows" "rows \<noteq> [] \<longrightarrow> 0 < k"
    using page_prefix [of rows C False 0] by fastforce
  define rs where "rs = List.map (read_row C) (take k rows)"
  define b where "b = \<lparr>b_replica = e_id e, b_after = after,
      b_through = (if rs = [] then after else fst (last rs)),
      b_records = List.map (\<lambda>(p, i, s, m). \<lparr>ch_position = p, ch_id = i, ch_payload = s, ch_meta = m\<rparr>) rs\<rparr>"
  have run: "batch C e after = Inr b"
    using assms(2,3) page
    unfolding batch_def rows_between_ok [OF assms] rows_def [symmetric] rs_def [symmetric]
    by (simp add: b_def)
  have lrs: "length rs = k" using k(1) by (simp add: rs_def)
  have rec: "record_ok C (after + int j + 1) (b_records b ! j) \<and>
      ch_id (b_records b ! j) = e_delivery e ! (nat after + j) \<and>
      ch_position (b_records b ! j) = after + int j + 1 \<and> fst (rs ! j) = after + int j + 1 \<and>
      (ch_payload (b_records b ! j) = [] \<longleftrightarrow> tombstone e (e_delivery e ! (nat after + j)))"
    if j: "j < k" for j
  proof -
    have "j < length rows" using j k(1) by simp
    from log_row_readable [OF assms(1) in_log [OF this]] obtain v m s where row:
      "log_row e (nat after + j) = (int (nat after + j) + 1, e_delivery e ! (nat after + j), v, m)"
      "read_payload C v = Inr s" "length s \<le> MAX_PAYLOAD"
      "s \<noteq> [] \<longrightarrow> digest C s = e_delivery e ! (nat after + j)" "meta_ok m"
      "id_ok (e_delivery e ! (nat after + j))"
      "s = [] \<longleftrightarrow> tombstone e (e_delivery e ! (nat after + j))" by blast
    have "rs ! j = (after + int j + 1, e_delivery e ! (nat after + j), s, m)"
      using j k(1) nth [OF \<open>j < length rows\<close>] row(1,2) assms(2) by (simp add: rs_def read_row_def)
    moreover from this have "b_records b ! j = \<lparr>ch_position = after + int j + 1,
        ch_id = e_delivery e ! (nat after + j), ch_payload = s, ch_meta = m\<rparr>"
      using j lrs by (simp add: b_def)
    ultimately show ?thesis
      using row by (auto simp: record_ok_def meta_ok_def id_ok_def)
  qed
  have "b_through b = after + int k"
  proof (cases "k = 0")
    case True
    with lrs show ?thesis by (simp add: b_def)
  next
    case False
    with lrs have "rs \<noteq> []" "last rs = rs ! (k - 1)" by (auto simp: last_conv_nth)
    with rec [of "k - 1"] False show ?thesis by (simp add: b_def)
  qed
  moreover have "after < head e \<longrightarrow> 0 < k"
    using k(2) len assms(2) by (auto simp: head_def)
  moreover have "after + int k \<le> head e"
  proof -
    have "nat after \<le> length (e_delivery e)" using assms(3) by (simp add: head_def)
    moreover have "k \<le> length (e_delivery e) - nat after" using k(1) len by simp
    ultimately have "k + nat after \<le> length (e_delivery e)" by (simp add: le_diff_conv2)
    then show ?thesis using assms(2) by (simp add: head_def)
  qed
  ultimately show ?thesis
    using run rec lrs k(1) len by (intro exI [of _ b]) (auto simp: b_def)
qed


section \<open>Receiving a batch\<close>

lemma batch_accepted:
  assumes C: "codec_ok C" and X: "extension_ok X" and A: "engine_ok C a" and B: "engine_ok C e"
    and id: "length (e_id a) = 32" "list_all hex_any (e_id a)"
    and cursor: "0 \<le> after" "after \<le> head a" "after \<le> received e (e_id a)"
  shows "\<exists>b f. batch C a after = Inr b \<and> ingest C X b e = Inr f \<and> engine_ok C f \<and> grows e f \<and>
     received f (e_id a) = max (received e (e_id a)) (b_through b) \<and>
     (\<forall>r. r \<noteq> e_id a \<longrightarrow> received f r = received e r) \<and>
     after \<le> b_through b \<and> b_through b \<le> head a \<and> (after < head a \<longrightarrow> after < b_through b) \<and>
     (\<forall>k. nat after \<le> k \<and> int k < b_through b \<longrightarrow> e_delivery a ! k \<in> set (e_delivery f) \<and>
        (tombstone a (e_delivery a ! k) \<longrightarrow> tombstone f (e_delivery a ! k)))"
proof -
  from batch_stretch [OF A cursor(1,2)] obtain b where b: "batch C a after = Inr b"
    "b_replica b = e_id a" "b_after b = after"
    "b_through b = after + int (length (b_records b))" "b_through b \<le> head a"
    "length (b_records b) \<le> 128" "after < head a \<longrightarrow> after < b_through b"
    "\<forall>k < length (b_records b). record_ok C (after + int k + 1) (b_records b ! k) \<and>
        ch_id (b_records b ! k) = e_delivery a ! (nat after + k) \<and>
        (ch_payload (b_records b ! k) = [] \<longleftrightarrow> tombstone a (e_delivery a ! (nat after + k)))" by blast
  let ?f = "fold (merge_record C X) (b_records b) e"
  have env: "batch_ok b" using b id cursor(1) by (simp add: batch_ok_def)
  have recs: "list_all (\<lambda>(k, r). record_ok C (b_after b + int k + 1) r) (List.enumerate 0 (b_records b))"
    using b(3,8) by (auto simp: list_all_iff in_set_enumerate_eq)
  have "\<forall>r \<in> set (b_records b). \<exists>n. record_ok C n r" using b(8) by (metis in_set_conv_nth)
  note merged = merge_all_ok [OF C X B this]
  have stretch: "e_delivery a ! k \<in> set (e_delivery ?f) \<and>
        (tombstone a (e_delivery a ! k) \<longrightarrow> tombstone ?f (e_delivery a ! k))"
    if "nat after \<le> k" "int k < b_through b" for k
  proof -
    define j where "j = k - nat after"
    with that b(4) cursor(1) have j: "j < length (b_records b)" "k = nat after + j" by auto
    with b(8) have "ch_id (b_records b ! j) = e_delivery a ! k"
      "ch_payload (b_records b ! j) = [] \<longleftrightarrow> tombstone a (e_delivery a ! k)" by auto
    with merged j(1) show ?thesis by (metis image_subset_iff nth_mem)
  qed
  show ?thesis
  proof (cases "b_records b = [] \<and> b_through b \<le> received e (b_replica b)")
    case True
    then have "ingest C X b e = Inr e" using env recs by (simp add: ingest_def)
    with True b B stretch cursor(3) show ?thesis by (intro exI [of _ b] exI [of _ e]) auto
  next
    case False
    let ?g = "?f\<lparr>e_receipts := (e_receipts ?f)(b_replica b \<mapsto>
        (case e_receipts ?f (b_replica b) of None \<Rightarrow> b_through b | Some old \<Rightarrow> max old (b_through b)))\<rparr>"
    have run: "ingest C X b e = Inr ?g"
      using False env recs b(2,3) cursor(3) by (auto simp: ingest_def Let_def)
    have rec: "received ?g (e_id a) = max (received e (e_id a)) (b_through b)"
      using merged b(2,4) cursor(1) by (auto simp: received_def split: option.splits)
    have rec': "received ?g r = received e r" if "r \<noteq> e_id a" for r
      using that merged b(2) by (simp add: received_def)
    have pos: "0 \<le> received e r" for r using B by (simp add: engine_ok_def)
    have "0 \<le> received ?g r" for r
    proof (cases "r = e_id a")
      case True
      then show ?thesis using rec pos [of r] by (simp only: le_max_iff_disj) simp
    next
      case False
      show ?thesis unfolding rec' [OF False] by (rule pos)
    qed
    then have "engine_ok C ?g" using merged by (simp add: engine_ok_def sent_def head_def)
    moreover have "grows e ?g" using merged by (simp add: grows_def tombstone_def)
    moreover have "tombstone ?g i = tombstone ?f i" for i by (simp add: tombstone_def)
    ultimately show ?thesis
      using run b rec rec' stretch cursor by (intro exI [of _ b] exI [of _ ?g]) auto
  qed
qed


text \<open>What an accepted batch leaves behind, whoever made it.\<close>

lemma merge_all_delivery:
  "set (e_delivery (fold (merge_record C X) rs e)) \<subseteq> set (e_delivery e) \<union> ch_id ` set rs \<and>
   e_sent (fold (merge_record C X) rs e) = e_sent e"
proof (induction rs arbitrary: e)
  case Nil
  then show ?case by simp
next
  case (Cons r rs)
  have "set (e_delivery (merge_record C X r e)) \<subseteq> insert (ch_id r) (set (e_delivery e)) \<and>
      e_sent (merge_record C X r e) = e_sent e"
    by (auto simp: merge_record_def deliver_def local_write_def Let_def)
  with Cons.IH [of "merge_record C X r e"] show ?case by auto
qed

lemma ingest_ok:
  assumes C: "codec_ok C" and X: "extension_ok X" and E: "engine_ok C e" and run: "ingest C X b e = Inr f"
  shows "engine_ok C f \<and> grows e f \<and> e_sent f = e_sent e \<and>
     received f (b_replica b) = max (received e (b_replica b)) (b_through b) \<and>
     (\<forall>r. r \<noteq> b_replica b \<longrightarrow> received f r = received e r) \<and>
     (b_records b \<noteq> [] \<longrightarrow> b_after b \<le> received e (b_replica b)) \<and>
     ch_id ` set (b_records b) \<subseteq> set (e_delivery f) \<and>
     set (e_delivery f) \<subseteq> set (e_delivery e) \<union> ch_id ` set (b_records b) \<and> batch_ok b"
proof -
  from run have env: "batch_ok b"
    and recs: "list_all (\<lambda>(k, r). record_ok C (b_after b + int k + 1) r) (List.enumerate 0 (b_records b))"
    by (auto simp: ingest_def split: if_splits)
  have "\<forall>r \<in> set (b_records b). \<exists>n. record_ok C n r"
  proof
    fix r
    assume "r \<in> set (b_records b)"
    then obtain k where "k < length (b_records b)" "b_records b ! k = r" by (meson in_set_conv_nth)
    with recs have "record_ok C (b_after b + int k + 1) r"
      by (auto simp: list_all_iff in_set_enumerate_eq)
    then show "\<exists>n. record_ok C n r" ..
  qed
  note merged = merge_all_ok [OF C X E this]
  note bound = merge_all_delivery [where C = C and X = X and rs = "b_records b" and e = e]
  show ?thesis
  proof (cases "b_records b = [] \<and> b_through b \<le> received e (b_replica b)")
    case True
    with run env recs have "f = e" by (simp add: ingest_def)
    with True E env show ?thesis by (simp add: max_absorb1)
  next
    case False
    with run env recs have after: "b_after b \<le> received e (b_replica b)"
      and f: "f = (fold (merge_record C X) (b_records b) e)\<lparr>e_receipts :=
        (e_receipts (fold (merge_record C X) (b_records b) e))(b_replica b \<mapsto>
        (case e_receipts (fold (merge_record C X) (b_records b) e) (b_replica b) of
           None \<Rightarrow> b_through b | Some old \<Rightarrow> max old (b_through b)))\<rparr>"
      by (auto simp: ingest_def Let_def split: if_splits)
    have "0 \<le> b_through b" using env by (simp add: batch_ok_def)
    then have rec: "received f (b_replica b) = max (received e (b_replica b)) (b_through b)"
      using merged by (auto simp: f received_def split: option.splits)
    have rec': "received f r = received e r" if "r \<noteq> b_replica b" for r
      using that merged by (simp add: f received_def)
    have pos: "0 \<le> received e r" for r using E by (simp add: engine_ok_def)
    have rec_pos: "0 \<le> received f r" for r
    proof (cases "r = b_replica b")
      case True
      then show ?thesis using rec pos [of r] by (simp only: le_max_iff_disj) simp
    next
      case False
      show ?thesis unfolding rec' [OF False] by (rule pos)
    qed
    have "engine_ok C f" using merged rec_pos by (simp add: engine_ok_def f sent_def head_def)
    moreover have "grows e f" using merged by (simp add: grows_def tombstone_def f)
    moreover have "e_delivery f = e_delivery (fold (merge_record C X) (b_records b) e)"
      "e_sent f = e_sent e" using bound by (simp_all add: f)
    ultimately show ?thesis
      using rec rec' after env merged bound by (simp only:) simp
  qed
qed

section \<open>Compression keeps every fact\<close>

text \<open>The rows that the scan rewrites hold the text of the fact they identify.\<close>

definition rewritten :: "codec \<Rightarrow> engine \<Rightarrow> string \<times> string \<Rightarrow> bool" where
  "rewritten C e = (\<lambda>(i, b). \<exists>s m. e_records e i = Some (Text s, m) \<and> s \<noteq> [] \<and>
     length s \<le> MAX_PAYLOAD \<and> digest C s = i \<and> stored_payload C s = Blob b)"

lemma compress_scan_rewrites:
  assumes "\<forall>(p, i, v, m) \<in> set rows. e_records e i = Some (v, m) \<and> v \<noteq> Text [] \<and> value_ok C i v"
  shows "\<exists>updates t. compress_scan C n through rows = Inr (updates, t) \<and> list_all (rewritten C e) updates \<and>
     t \<in> insert through (fst ` set rows)"
  using assms
proof (induction rows arbitrary: n through)
  case Nil
  then show ?case by simp
next
  case (Cons row rows)
  obtain p i v m where row: "row = (p, i, v, m)" by (rule prod_cases4)
  with Cons.prems have r: "e_records e i = Some (v, m)" "v \<noteq> Text []" "value_ok C i v" by auto
  from Cons.prems have rest: "\<forall>(p, i, v, m) \<in> set rows.
      e_records e i = Some (v, m) \<and> v \<noteq> Text [] \<and> value_ok C i v" by simp
  show ?case
  proof (cases v)
    case (Blob x)
    with Cons.IH [OF rest, of n through] show ?thesis by (auto simp: row)
  next
    case (Text s)
    with r have s: "s \<noteq> []" "digest C s = i" "length s \<le> MAX_PAYLOAD"
      by (auto simp: value_ok_def read_payload_def)
    from Cons.IH [OF rest, of "n + length s" p] obtain updates t where
      "compress_scan C (n + length s) p rows = Inr (updates, t)" "list_all (rewritten C e) updates"
      "t \<in> insert p (fst ` set rows)" by blast
    with s r Text show ?thesis
      by (cases "stored_payload C s") (auto simp: row rewritten_def)
  qed
qed

lemma compress_updates:
  assumes C: "codec_ok C" and X: "extension_ok X" and "engine_ok C e" and "list_all (rewritten C e) updates"
  shows "engine_ok C (fold (\<lambda>(i, b). local_write X i (Blob b)) updates e) \<and>
     grows e (fold (\<lambda>(i, b). local_write X i (Blob b)) updates e) \<and>
     e_delivery (fold (\<lambda>(i, b). local_write X i (Blob b)) updates e) = e_delivery e \<and>
     payload C (fold (\<lambda>(i, b). local_write X i (Blob b)) updates e) = payload C e"
  using assms(4)
proof (induction updates rule: rev_induct)
  case Nil
  with assms(3) show ?case by simp
next
  case (snoc u updates)
  let ?f = "fold (\<lambda>(i, b). local_write X i (Blob b)) updates e"
  from snoc have IH: "engine_ok C ?f" "grows e ?f" "e_delivery ?f = e_delivery e" "payload C ?f = payload C e"
    by simp_all
  obtain i b where u: "u = (i, b)" by (rule prod.exhaust)
  with snoc.prems obtain s m where s: "e_records e i = Some (Text s, m)" "s \<noteq> []"
    "length s \<le> MAX_PAYLOAD" "digest C s = i" "stored_payload C s = Blob b" by (auto simp: rewritten_def)
  have "value_ok C i (Blob b)" using value_ok_stored [OF C s(3)] s(4,5) by simp
  moreover have "i \<in> set (e_delivery ?f)" using s(1) assms(3) IH(3) by (auto simp: engine_ok_def)
  moreover have "id_ok i" using digest_id_ok [OF C] s(4) by auto
  ultimately have "engine_ok C (local_write X i (Blob b) ?f)" using X IH(1) by (intro local_write_ok)
  moreover have "grows e (local_write X i (Blob b) ?f)"
    using IH(2) s(1,2) by (auto simp: grows_def local_write_def tombstone_def)
  moreover have "payload C (local_write X i (Blob b) ?f) = payload C e"
  proof
    fix j
    have "read_payload C (Blob b) = Inr s"
      using stored_payload_read [of C s] C s(3,5) by (simp add: codec_ok_def inflates_def)
    then have "payload C (local_write X i (Blob b) ?f) i = payload C e i"
      using s(1,2) by (simp add: payload_def local_write_def read_payload_def)
    moreover have "payload C (local_write X i (Blob b) ?f) j = payload C ?f j" if "j \<noteq> i"
      using that by (simp add: payload_def local_write_def)
    ultimately show "payload C (local_write X i (Blob b) ?f) j = payload C e j" using IH(4) by metis
  qed
  moreover have "e_delivery (local_write X i (Blob b) ?f) = e_delivery e"
    using IH(3) by (simp add: local_write_def)
  ultimately show ?case by (simp add: u)
qed

lemma compressed_irrelevant [simp]:
  "engine_ok C (e\<lparr>e_compressed := t\<rparr>) = engine_ok C e"
  "grows e (f\<lparr>e_compressed := t\<rparr>) = grows e f"
  "payload C (e\<lparr>e_compressed := t\<rparr>) = payload C e"
  by (simp_all add: engine_ok_def grows_def tombstone_def payload_def fun_eq_iff received_def sent_def head_def)

lemma compress_history_ok:
  assumes C: "codec_ok C" and X: "extension_ok X" and E: "engine_ok C e" and pos: "0 \<le> e_compressed e"
  shows "\<exists>f more. compress_history C X e = Inr (f, more) \<and> engine_ok C f \<and> grows e f \<and>
     e_delivery f = e_delivery e \<and> payload C f = payload C e \<and> 0 \<le> e_compressed f \<and>
     (more \<longrightarrow> e_compressed e < e_compressed f) \<and> (\<not> more \<longrightarrow> f = e) \<and>
     (more \<longleftrightarrow> e_compressed e < head e) \<and> e_compressed f \<le> max (e_compressed e) (head e)"
proof (cases "e_compressed e \<ge> head e")
  case True
  with E pos show ?thesis
    by (intro exI [of _ e] exI [of _ False]) (simp add: compress_history_def)
next
  case False
  define rows where "rows = take 128 (filter (\<lambda>(_, _, v, _).
      case v of Text s \<Rightarrow> char_length s \<ge> 1024 | Blob _ \<Rightarrow> False) (rows_between e (e_compressed e) (head e)))"
  have row: "e_records e i = Some (v, m) \<and> v \<noteq> Text [] \<and> value_ok C i v \<and> e_compressed e < p \<and> p \<le> head e"
    if "(p, i, v, m) \<in> set rows" for p i v m
  proof -
    from that have in_log: "(p, i, v, m) \<in> set (rows_between e (e_compressed e) (head e))"
      and long: "v \<noteq> Text []" unfolding rows_def by (auto dest: in_set_takeD simp: char_length_def)
    from in_log have "(p, i, v, m) \<in> set (delivered e)" by (simp add: rows_between_def)
    then obtain k where "log_row e k = (p, i, v, m)" "k < length (e_delivery e)"
      using delivered_ok [OF E] by auto
    moreover from this(2) have "e_delivery e ! k \<in> dom (e_records e)" using E by (metis engine_ok_def nth_mem)
    ultimately have "e_records e i = Some (v, m)" by (auto simp: log_row_def)
    with E in_log long show ?thesis by (auto simp: engine_ok_def rows_between_def)
  qed
  then have "\<forall>(p, i, v, m) \<in> set rows. e_records e i = Some (v, m) \<and> v \<noteq> Text [] \<and> value_ok C i v" by blast
  from compress_scan_rewrites [OF this, of 0 "head e"] obtain updates t where
    scan: "compress_scan C 0 (head e) rows = Inr (updates, t)" and list: "list_all (rewritten C e) updates"
    and t: "t \<in> insert (head e) (fst ` set rows)" by blast
  have t_bounds: "e_compressed e < t" "t \<le> head e" using t False row by auto
  let ?f = "(fold (\<lambda>(i, b). local_write X i (Blob b)) updates e)\<lparr>e_compressed := t\<rparr>"
  have "compress_history C X e = Inr (?f, True)"
    using False scan by (simp add: compress_history_def Let_def rows_def)
  moreover have "engine_ok C ?f \<and> grows e ?f \<and> e_delivery ?f = e_delivery e \<and> payload C ?f = payload C e"
    using compress_updates [OF C X E list] by simp
  ultimately show ?thesis using t_bounds False pos
    by (intro exI [of _ ?f] exI [of _ True]) auto
qed

end
