(* ===== verification/Network.thy ===== *)
theory Network
  imports Engine
begin

text \<open>
  Replicas that write, prune and compress their journals while batches are lost, repeated
  and reordered between them. The invariant ties a receipt to the log of the peer it
  counts, so a receipt proves possession of everything before it.
\<close>

section \<open>Steps\<close>

record network =
  nodes :: "string \<rightharpoonup> engine"
  mail :: "batch list" \<comment> \<open>every batch ever sent; a delivery does not use it up\<close>

definition at_node :: "string \<Rightarrow> engine \<Rightarrow> network \<Rightarrow> network" where
  "at_node r e n = n\<lparr>nodes := (nodes n)(r \<mapsto> e)\<rparr>"

inductive net_step :: "codec \<Rightarrow> extension \<Rightarrow> network \<Rightarrow> network \<Rightarrow> bool" for C X where
  net_put: "nodes n r = Some e \<Longrightarrow> put C X p e = Inr (f, i) \<Longrightarrow> net_step C X n (at_node r f n)"
| net_prune: "nodes n r = Some e \<Longrightarrow> net_step C X n (at_node r (prune X ids e) n)"
| net_compress: "nodes n r = Some e \<Longrightarrow> compress_history C X e = Inr (f, left) \<Longrightarrow>
    net_step C X n (at_node r f n)"
| net_send: "nodes n r = Some e \<Longrightarrow> batch C e after = Inr b \<Longrightarrow>
    net_step C X n (n\<lparr>mail := b # mail n\<rparr>)"
| net_receive: "nodes n r = Some e \<Longrightarrow> b \<in> set (mail n) \<Longrightarrow> ingest C X b e = Inr f \<Longrightarrow>
    net_step C X n (at_node r f n)"
| net_acknowledge: "nodes n r = Some e \<Longrightarrow> acknowledge s p e = Inr f \<Longrightarrow>
    net_step C X n (at_node r f n)"

definition new_engine :: "string \<Rightarrow> engine" where
  "new_engine i = \<lparr>e_id = i, e_records = Map.empty, e_delivery = [], e_receipts = Map.empty,
     e_sent = Map.empty, e_compressed = 0, e_writes = 0\<rparr>"

definition replica_id :: "string \<Rightarrow> bool" where
  "replica_id i \<longleftrightarrow> length i = 32 \<and> list_all hex_any i"

definition start :: "string list \<Rightarrow> network" where
  "start ids = \<lparr>nodes = (\<lambda>i. if i \<in> set ids then Some (new_engine i) else None), mail = []\<rparr>"

abbreviation reachable :: "codec \<Rightarrow> extension \<Rightarrow> string list \<Rightarrow> network \<Rightarrow> bool" where
  "reachable C X ids \<equiv> (net_step C X)\<^sup>*\<^sup>* (start ids)"

section \<open>The invariant\<close>

definition covers :: "engine \<Rightarrow> engine \<Rightarrow> int \<Rightarrow> bool" where
  "covers a e p \<longleftrightarrow> p \<le> head a \<and> set (take (nat p) (e_delivery a)) \<subseteq> set (e_delivery e)"

definition stretch_of :: "engine \<Rightarrow> batch \<Rightarrow> bool" where
  "stretch_of a b \<longleftrightarrow> b_replica b = e_id a \<and> 0 \<le> b_after b \<and> b_through b \<le> head a \<and>
     b_through b = b_after b + int (length (b_records b)) \<and>
     List.map ch_id (b_records b) = take (length (b_records b)) (drop (nat (b_after b)) (e_delivery a))"

definition net_ok :: "codec \<Rightarrow> network \<Rightarrow> bool" where
  "net_ok C n \<longleftrightarrow>
     (\<forall>r e. nodes n r = Some e \<longrightarrow> e_id e = r \<and> engine_ok C e \<and> 0 \<le> e_compressed e) \<and>
     (\<forall>r s e a. nodes n r = Some e \<longrightarrow> nodes n s = Some a \<longrightarrow> covers a e (received e s)) \<and>
     (\<forall>b \<in> set (mail n). \<exists>a. nodes n (b_replica b) = Some a \<and> stretch_of a b)"

lemma net_okD:
  assumes "net_ok C n" and "nodes n r = Some e"
  shows "e_id e = r" and "engine_ok C e" and "0 \<le> e_compressed e"
    and "nodes n s = Some a \<Longrightarrow> covers a e (received e s)"
  using assms unfolding net_ok_def by blast+

lemma covers_grows:
  assumes "covers a e p" and "grows a a'" and "grows e e'"
  shows "covers a' e' p"
  using assms by (auto simp: covers_def grows_def head_def)

lemma stretch_grows: "stretch_of a b \<Longrightarrow> grows a a' \<Longrightarrow> stretch_of a' b"
  unfolding stretch_of_def grows_def head_def by auto

lemma batch_stretch_of:
  assumes "engine_ok C e" and "batch C e after = Inr b"
  shows "stretch_of e b"
proof -
  have cursor: "0 \<le> after" "after \<le> head e"
    using assms(2) by (auto simp: batch_def simp del: and_then_Inr split: if_splits)
  from batch_stretch [OF assms(1) cursor] assms(2) have b: "b_replica b = e_id e" "b_after b = after"
    "b_through b = after + int (length (b_records b))" "b_through b \<le> head e"
    "\<forall>k < length (b_records b). ch_id (b_records b ! k) = e_delivery e ! (nat after + k)" by auto
  have "List.map ch_id (b_records b) = take (length (b_records b)) (drop (nat after) (e_delivery e))"
    using b(3,4,5) cursor by (intro nth_equalityI) (auto simp: head_def)
  with b cursor show ?thesis by (simp add: stretch_of_def)
qed

text \<open>A step that changes one node, lets it grow, and keeps or justifies its receipts.\<close>

lemma at_node_ok:
  assumes ok: "net_ok C n" and e: "nodes n r = Some e"
    and f: "engine_ok C f" "grows e f" "0 \<le> e_compressed f"
    and receipts: "\<And>s a. nodes n s = Some a \<Longrightarrow> covers a f (received f s)"
  shows "net_ok C (at_node r f n)"
proof -
  have id: "e_id f = r" using net_okD(1) [OF ok e] f(2) by (simp add: grows_def)
  have self: "covers f f (received f r)"
    using covers_grows [OF receipts [OF e] f(2) grows_refl] .
  have "covers a' e' (received e' s)"
    if "nodes (at_node r f n) q = Some e'" "nodes (at_node r f n) s = Some a'" for q s e' a'
  proof -
    consider "q = r" "s = r" | "q = r" "s \<noteq> r" | "q \<noteq> r" "s = r" | "q \<noteq> r" "s \<noteq> r" by blast
    then show ?thesis
    proof cases
      case 1
      then show ?thesis using that self by (simp add: at_node_def)
    next
      case 2
      then show ?thesis using that receipts by (simp add: at_node_def)
    next
      case 3
      with that have "nodes n q = Some e'" "a' = f" by (simp_all add: at_node_def)
      with net_okD(4) [OF ok _ e] f(2) 3 show ?thesis by (blast intro: covers_grows grows_refl)
    next
      case 4
      with that net_okD(4) [OF ok] show ?thesis by (simp add: at_node_def)
    qed
  qed
  moreover have "\<exists>a. nodes (at_node r f n) (b_replica b) = Some a \<and> stretch_of a b" if "b \<in> set (mail n)" for b
  proof -
    from that ok obtain a where "nodes n (b_replica b) = Some a" "stretch_of a b"
      unfolding net_ok_def by blast
    with e f(2) show ?thesis by (auto simp: at_node_def intro: stretch_grows)
  qed
  moreover have "e_id e' = q \<and> engine_ok C e' \<and> 0 \<le> e_compressed e'"
    if "nodes (at_node r f n) q = Some e'" for q e'
    using that id f net_okD(1-3) [OF ok, of q e'] by (auto simp: at_node_def split: if_splits)
  ultimately show ?thesis by (simp add: net_ok_def) (simp add: at_node_def)
qed

lemma same_receipts_ok:
  assumes "net_ok C n" and "nodes n r = Some e" and "engine_ok C f" and "grows e f"
    and "0 \<le> e_compressed f" and "\<forall>s. received f s = received e s"
  shows "net_ok C (at_node r f n)"
proof (rule at_node_ok [OF assms(1-5)])
  fix s a
  assume "nodes n s = Some a"
  from covers_grows [OF net_okD(4) [OF assms(1,2) this] grows_refl assms(4)]
  show "covers a f (received f s)" using assms(6) by simp
qed

lemma ingest_covers:
  assumes C: "codec_ok C" and X: "extension_ok X" and e: "engine_ok C e"
    and run: "ingest C X b e = Inr f" and b: "stretch_of a b" and old: "covers a e (received e (e_id a))"
  shows "covers a f (received f (e_id a))"
proof -
  note taken = ingest_ok [OF C X e run]
  from b have id: "b_replica b = e_id a" by (simp add: stretch_of_def)
  have old': "covers a f (received e (e_id a))" using taken by (intro covers_grows [OF old grows_refl]) simp
  show ?thesis
  proof (cases "b_through b \<le> received e (e_id a)")
    case True
    then show ?thesis using taken old' id by (simp add: max_absorb1)
  next
    case False
    then have rec: "received f (e_id a) = b_through b" using taken id by (simp add: max_absorb2)
    have split: "nat (b_through b) = nat (b_after b) + length (b_records b)"
      using b by (simp add: stretch_of_def nat_add_distrib)
    have "set (take (nat (b_after b)) (e_delivery a)) \<subseteq> set (e_delivery f)"
    proof (cases "b_records b = []")
      case True
      with b False have "received e (e_id a) < b_after b" by (simp add: stretch_of_def)
      moreover have "ingest C X b e \<noteq> Inr f"
        using True False id calculation by (auto simp: ingest_def)
      ultimately show ?thesis using run by simp
    next
      case False
      with taken id have "nat (b_after b) \<le> nat (received e (e_id a))" by (intro nat_mono) simp
      then show ?thesis
        using old' set_take_subset_set_take unfolding covers_def by (meson order_trans)
    qed
    moreover have "set (take (length (b_records b)) (drop (nat (b_after b)) (e_delivery a))) \<subseteq> set (e_delivery f)"
      using taken b unfolding stretch_of_def by (metis list.set_map)
    ultimately show ?thesis
      using b rec split by (simp add: covers_def stretch_of_def take_add)
  qed
qed

lemma net_step_ok:
  assumes C: "codec_ok C" and X: "extension_ok X" and "net_step C X n m" and ok: "net_ok C n"
  shows "net_ok C m"
  using assms(3)
proof cases
  case (net_put r e p f i)
  from put_ok [OF C X net_okD(2) [OF ok net_put(2)] net_put(3)]
  have "engine_ok C f" "grows e f" by simp_all
  moreover have "e_receipts f = e_receipts e \<and> e_compressed f = e_compressed e"
    using net_put(3) by (auto simp: put_def Let_def deliver_def local_write_def split: if_splits)
  ultimately show ?thesis
    using net_put ok net_okD(3) [OF ok net_put(2)] by (auto intro: same_receipts_ok simp: received_def)
next
  case (net_prune r e ids)
  have same: "e_receipts (prune X ids e) = e_receipts e \<and> e_compressed (prune X ids e) = e_compressed e" for e
  proof (induction ids arbitrary: e)
    case (Cons i ids)
    have "e_receipts (prune_one X i e) = e_receipts e \<and> e_compressed (prune_one X i e) = e_compressed e"
      by (auto simp: prune_one_def local_write_def split: option.splits)
    with Cons [of "prune_one X i e"] show ?case by (simp add: prune_def)
  qed (simp add: prune_def)
  show ?thesis
    using net_prune ok net_okD(3) [OF ok net_prune(2)] same
      prune_ok [OF X net_okD(2) [OF ok net_prune(2)], of ids]
    by (auto intro!: same_receipts_ok simp: received_def)
next
  case (net_compress r e f left)
  from compress_history_ok [OF C X net_okD(2,3) [OF ok net_compress(2)]] net_compress(3)
  have "engine_ok C f" "grows e f" "0 \<le> e_compressed f" by auto
  moreover have "e_receipts f = e_receipts e"
  proof -
    have "e_receipts (fold (\<lambda>(i, b). local_write X i (Blob b)) us e) = e_receipts e" for us e
      by (induction us arbitrary: e) (auto simp: local_write_def)
    then show ?thesis
      using net_compress(3) by (auto simp: compress_history_def Let_def split: if_splits prod.splits)
  qed
  ultimately show ?thesis using net_compress ok by (auto intro: same_receipts_ok simp: received_def)
next
  case (net_send r e after b)
  from batch_stretch_of [OF net_okD(2) [OF ok net_send(2)] net_send(3)] have "stretch_of e b" .
  moreover from this have "b_replica b = r" using net_okD(1) [OF ok net_send(2)] by (simp add: stretch_of_def)
  ultimately show ?thesis using net_send ok by (auto simp: net_ok_def)
next
  case (net_receive r e b f)
  note taken = ingest_ok [OF C X net_okD(2) [OF ok net_receive(2)] net_receive(4)]
  have comp: "e_compressed f = e_compressed e"
  proof -
    have "e_compressed (merge_record C X q e) = e_compressed e" for q e
      by (auto simp: merge_record_def Let_def deliver_def local_write_def)
    then have "e_compressed (fold (merge_record C X) rs e) = e_compressed e" for rs e
      by (induction rs arbitrary: e) auto
    then show ?thesis using net_receive(4) by (auto simp: ingest_def Let_def split: if_splits)
  qed
  have "covers a f (received f s)" if s: "nodes n s = Some a" for s a
  proof (cases "s = b_replica b")
    case True
    from net_receive(3) ok s have "stretch_of a b" unfolding True net_ok_def by fastforce
    moreover have "e_id a = s" using net_okD(1) [OF ok s] .
    ultimately show ?thesis
      using ingest_covers [OF C X net_okD(2) [OF ok net_receive(2)] net_receive(4), of a]
        net_okD(4) [OF ok net_receive(2) s] by metis
  next
    case False
    with taken covers_grows [OF net_okD(4) [OF ok net_receive(2) s] grows_refl, of f] show ?thesis by simp
  qed
  then show ?thesis
    using net_receive(1) at_node_ok [OF ok net_receive(2), of f] taken comp net_okD(3) [OF ok net_receive(2)]
    by simp
next
  case (net_acknowledge r e s p f)
  from acknowledge_ok [OF net_acknowledge(3) net_okD(2) [OF ok net_acknowledge(2)]]
  have "engine_ok C f" "grows e f" "e_receipts f = e_receipts e" by simp_all
  moreover have "e_compressed f = e_compressed e"
    using net_acknowledge(3) by (auto simp: acknowledge_def split: if_splits)
  ultimately show ?thesis
    using net_acknowledge ok net_okD(3) [OF ok net_acknowledge(2)]
    by (auto intro: same_receipts_ok simp: received_def)
qed

lemma start_ok: "net_ok C (start ids)"
  by (auto simp: net_ok_def start_def new_engine_def engine_ok_def received_def sent_def head_def covers_def
      split: if_splits)

lemma reachable_ok:
  assumes "codec_ok C" and "extension_ok X" and "reachable C X ids n"
  shows "net_ok C n"
  using assms(3) by (induction rule: rtranclp_induct) (auto intro: start_ok net_step_ok [OF assms(1,2)])


section \<open>Library functions for examples\<close>

definition example_codec :: codec where
  "example_codec = \<lparr>parse_json = (\<lambda>_. None), print_json = (\<lambda>_. []),
     digest = (\<lambda>_. replicate 64 (CHR ''a'')), base64_decode = Some, gzip = (\<lambda>s. s),
     gunzip = (\<lambda>s n. if length s \<le> n then Some s else None)\<rparr>"

definition example_extension :: extension where
  "example_extension = \<lparr>local_meta = (\<lambda>n i. \<lparr>m_site = replicate 16 (CHR ''s''), m_version = 1,
       m_sequence = 0, m_timestamp = ''1''\<rparr>),
     merge_change = (\<lambda>old new. new)\<rparr>"

lemma example_codec_ok: "codec_ok example_codec"
  by (simp add: codec_ok_def example_codec_def inflates_def hex_digit_def list_all_iff)

lemma example_extension_ok: "extension_ok example_extension"
  by (simp add: extension_ok_def example_extension_def meta_ok_def parses_u64_def
      ascii_digit_def read_nat_def digit_value_def)

text \<open>Two replicas; the first writes a fact, sends it, and the second takes it.\<close>

definition example_ids :: "string list" where
  "example_ids = [replicate 32 (CHR ''a''), replicate 32 (CHR ''b'')]"

definition example_fact :: engine where
  "example_fact = fst (projr (put example_codec example_extension ''fact''
     (new_engine (example_ids ! 0))))"

definition example_batch :: batch where
  "example_batch = projr (batch example_codec example_fact 0)"

definition example_peer :: engine where
  "example_peer = projr (ingest example_codec example_extension example_batch
     (new_engine (example_ids ! 1)))"

definition example_network :: network where
  "example_network = at_node (example_ids ! 1) example_peer
     ((at_node (example_ids ! 0) example_fact (start example_ids))\<lparr>mail := [example_batch]\<rparr>)"

text \<open>The values of the example, evaluated.\<close>

lemma example_fact: "example_fact = \<lparr>e_id = replicate 32 (CHR ''a''),
    e_records = [replicate 64 (CHR ''a'') \<mapsto> (Text ''fact'', local_meta example_extension 0 [])],
    e_delivery = [replicate 64 (CHR ''a'')], e_receipts = Map.empty, e_sent = Map.empty,
    e_compressed = 0, e_writes = 1\<rparr>"
  by (simp add: example_fact_def put_def MAX_PAYLOAD_def example_codec_def example_extension_def
      new_engine_def local_write_def deliver_def stored_payload_def example_ids_def Let_def)

lemma example_put: "put example_codec example_extension ''fact'' (new_engine (example_ids ! 0)) =
    Inr (example_fact, replicate 64 (CHR ''a''))"
  by (simp add: example_fact_def put_def MAX_PAYLOAD_def example_codec_def new_engine_def Let_def)

lemma example_batch_run: "batch example_codec example_fact 0 = Inr \<lparr>b_replica = replicate 32 (CHR ''a''),
    b_after = 0, b_through = 1, b_records = [\<lparr>ch_position = 1, ch_id = replicate 64 (CHR ''a''),
      ch_payload = ''fact'', ch_meta = local_meta example_extension 0 []\<rparr>]\<rparr>"
  by (simp add: batch_def example_fact head_def rows_between_def delivered_def List.map_filter_simps
      read_payload_def)

lemma example_batch_value: "example_batch = \<lparr>b_replica = replicate 32 (CHR ''a''),
    b_after = 0, b_through = 1, b_records = [\<lparr>ch_position = 1, ch_id = replicate 64 (CHR ''a''),
      ch_payload = ''fact'', ch_meta = local_meta example_extension 0 []\<rparr>]\<rparr>"
  by (simp add: example_batch_def example_batch_run)

lemma example_batch: "batch example_codec example_fact 0 = Inr example_batch"
  by (simp add: example_batch_value example_batch_run)

lemma example_ingest_run: "ingest example_codec example_extension example_batch (new_engine (example_ids ! 1)) =
    Inr \<lparr>e_id = replicate 32 (CHR ''b''),
      e_records = [replicate 64 (CHR ''a'') \<mapsto> (Text ''fact'', local_meta example_extension 0 [])],
      e_delivery = [replicate 64 (CHR ''a'')], e_receipts = [replicate 32 (CHR ''a'') \<mapsto> 1],
      e_sent = Map.empty, e_compressed = 0, e_writes = 0\<rparr>"
  by (simp add: ingest_def example_batch_value batch_ok_def record_ok_def new_engine_def example_ids_def
      merge_record_def deliver_def received_def example_codec_def example_extension_def MAX_PAYLOAD_def
      parses_u64_def ascii_digit_def read_nat_def digit_value_def hex_any_def hex_digit_def list_all_iff
      stored_payload_def Let_def)

lemma example_ingest: "ingest example_codec example_extension example_batch (new_engine (example_ids ! 1))
    = Inr example_peer"
  unfolding example_peer_def example_ingest_run by simp

lemma example_peer: "example_peer = \<lparr>e_id = replicate 32 (CHR ''b''),
      e_records = [replicate 64 (CHR ''a'') \<mapsto> (Text ''fact'', local_meta example_extension 0 [])],
      e_delivery = [replicate 64 (CHR ''a'')], e_receipts = [replicate 32 (CHR ''a'') \<mapsto> 1],
      e_sent = Map.empty, e_compressed = 0, e_writes = 0\<rparr>"
  unfolding example_peer_def example_ingest_run by simp

lemma example_reached: "reachable example_codec example_extension example_ids example_network"
proof -
  let ?a = "example_ids ! 0" and ?b = "example_ids ! 1"
  let ?n1 = "at_node ?a example_fact (start example_ids)"
  have "nodes (start example_ids) ?a = Some (new_engine ?a)" by (simp add: start_def example_ids_def)
  from net_put [OF this example_put]
  have 1: "net_step example_codec example_extension (start example_ids) ?n1" .
  have "nodes ?n1 ?a = Some example_fact" by (simp add: at_node_def)
  from net_send [OF this example_batch]
  have 2: "net_step example_codec example_extension ?n1 (?n1\<lparr>mail := [example_batch]\<rparr>)"
    by (simp add: at_node_def start_def)
  have "nodes (?n1\<lparr>mail := [example_batch]\<rparr>) ?b = Some (new_engine ?b)"
    by (simp add: at_node_def start_def example_ids_def)
  from net_receive [OF this _ example_ingest]
  have 3: "net_step example_codec example_extension (?n1\<lparr>mail := [example_batch]\<rparr>) example_network"
    by (simp add: example_network_def)
  from 1 2 3 show ?thesis by (meson rtranclp.rtrancl_into_rtrancl rtranclp.rtrancl_refl)
qed

section \<open>Properties\<close>

text \<open>
  C3. A receipt is proof of possession: in every state that replicas reach by writing,
  pruning, compressing, sending any page, and taking sent pages in any order, lost or
  repeated, a replica that counts n records received from a peer holds every one of the
  first n entries of that peer's log, and n never passes the end of the log.
\<close>

theorem receipts_prove_possession:
  assumes "codec_ok C" and "extension_ok X" and "reachable C X ids n"
    and "nodes n r = Some e" and "nodes n s = Some a"
  shows "received e s \<le> head a \<and> set (take (nat (received e s)) (e_delivery a)) \<subseteq> dom (e_records e)"
proof -
  from reachable_ok [OF assms(1-3)] have ok: "net_ok C n" .
  from net_okD(4) [OF ok assms(4,5)] net_okD(2) [OF ok assms(4)]
  show ?thesis
    by (auto simp: covers_def engine_ok_def)
qed

theorem receipts_prove_possession_witness:
  "received example_peer (example_ids ! 0) = 1 \<and>
   set (take 1 (e_delivery example_fact)) \<subseteq> dom (e_records example_peer)"
proof -
  have r: "received example_peer (example_ids ! 0) = 1"
    by (simp add: example_peer example_ids_def received_def)
  have "nodes example_network (example_ids ! 1) = Some example_peer"
    "nodes example_network (example_ids ! 0) = Some example_fact"
    by (simp_all add: example_network_def at_node_def example_ids_def)
  from receipts_prove_possession [OF example_codec_ok example_extension_ok example_reached this] r
  show ?thesis by simp
qed

text \<open>
  C10. Whatever a peer sends, an accepted batch leaves a well-formed journal: every stored
  payload still hashes to its key, no tombstone comes back to life, the log only grows,
  only the sender's receipt moves, and by at most 128.
\<close>

theorem ingest_keeps_integrity:
  assumes "codec_ok C" and "extension_ok X" and "engine_ok C e" and "ingest C X b e = Inr f"
  shows "engine_ok C f \<and> (\<forall>i s. payload C f i = Inr (Some s) \<longrightarrow> digest C s = i) \<and>
     (\<forall>i. payload C e i = Inr None \<and> e_records e i \<noteq> None \<longrightarrow> payload C f i = Inr None) \<and>
     take (length (e_delivery e)) (e_delivery f) = e_delivery e \<and>
     (\<forall>r. r \<noteq> b_replica b \<longrightarrow> received f r = received e r) \<and>
     received e (b_replica b) \<le> received f (b_replica b) \<and>
     received f (b_replica b) \<le> received e (b_replica b) + 128"
proof -
  note taken = ingest_ok [OF assms]
  have "digest C s = i" if "payload C f i = Inr (Some s)" for i s
  proof -
    from that obtain v m where r: "e_records f i = Some (v, m)" "v \<noteq> Text []" "read_payload C v = Inr s"
      by (auto simp: payload_def split: option.splits if_splits)
    with taken have "value_ok C i v" by (auto simp: engine_ok_def)
    with r show ?thesis by (auto simp: value_ok_def)
  qed
  moreover have "payload C f i = Inr None" if "payload C e i = Inr None" "e_records e i \<noteq> None" for i
  proof -
    from that have "tombstone e i" by (auto simp: payload_def tombstone_def split: if_splits)
    with taken have "tombstone f i" by (simp add: grows_def)
    then show ?thesis by (auto simp: tombstone_def payload_def)
  qed
  moreover have "take (length (e_delivery e)) (e_delivery f) = e_delivery e"
    using taken by (auto simp: grows_def)
  moreover have "received f (b_replica b) \<le> received e (b_replica b) + 128"
  proof (cases "b_records b = []")
    case True
    with assms(4) have "b_through b \<le> received e (b_replica b)"
      by (auto simp: ingest_def batch_ok_def split: if_splits)
    with taken show ?thesis by simp
  next
    case False
    with taken have "b_after b \<le> received e (b_replica b)" "batch_ok b" by simp_all
    with taken show ?thesis by (auto simp: batch_ok_def)
  qed
  ultimately show ?thesis using taken by auto
qed

theorem ingest_keeps_integrity_witness:
  "payload example_codec example_peer (replicate 64 (CHR ''a'')) = Inr (Some ''fact'') \<and>
   digest example_codec ''fact'' = replicate 64 (CHR ''a'') \<and> received example_peer (example_ids ! 0) \<le> 128"
proof -
  have ok: "engine_ok example_codec (new_engine (example_ids ! 1))"
    by (simp add: engine_ok_def new_engine_def received_def sent_def head_def)
  have p: "payload example_codec example_peer (replicate 64 (CHR ''a'')) = Inr (Some ''fact'')"
    by (simp add: example_peer payload_def read_payload_def)
  have zero: "received (new_engine (example_ids ! 1)) (b_replica example_batch) = 0"
    by (simp add: new_engine_def received_def)
  have id: "b_replica example_batch = example_ids ! 0"
    by (simp add: example_batch_value example_ids_def)
  from ingest_keeps_integrity [OF example_codec_ok example_extension_ok ok example_ingest] p zero id
  show ?thesis by auto
qed

text \<open>
  Compressing retained history changes no fact: it succeeds on every well-formed
  journal, every id keeps its payload and the log its order, and each call moves the
  marker forward until it reaches the end of the log, where it stops.
\<close>

theorem compression_keeps_facts:
  assumes "codec_ok C" and "extension_ok X" and "engine_ok C e" and "0 \<le> e_compressed e"
    and "e_compressed e \<le> head e"
  shows "\<exists>f again. compress_history C X e = Inr (f, again) \<and> payload C f = payload C e \<and>
     e_delivery f = e_delivery e \<and> engine_ok C f \<and> (again \<longleftrightarrow> e_compressed e < head e) \<and>
     (again \<longrightarrow> e_compressed e < e_compressed f \<and> e_compressed f \<le> head e)"
  using compress_history_ok [OF assms(1-4)] assms(5) by (fastforce simp: max_def)

theorem compression_keeps_facts_witness:
  "\<exists>f. compress_history example_codec example_extension example_fact = Inr (f, True) \<and>
     payload example_codec f = payload example_codec example_fact"
proof -
  have ok: "engine_ok example_codec (new_engine (example_ids ! 0))"
    by (simp add: engine_ok_def new_engine_def received_def sent_def head_def)
  from put_ok [OF example_codec_ok example_extension_ok this example_put]
  have e: "engine_ok example_codec example_fact" by simp
  have c: "e_compressed example_fact = 0" "head example_fact = 1"
    by (simp_all add: example_fact head_def)
  from compression_keeps_facts [OF example_codec_ok example_extension_ok e] c show ?thesis by auto
qed

end
