(* ===== verification/Session.thy ===== *)
theory Session
  imports Network
begin

text \<open>
  One exchange between two replicas over an ordered byte stream
  (\<open>src/packages/hey-boss-sync/src/session.rs\<close>). Each side is a state machine that
  consumes one message, or the end of the stream, at a time; the messages are the JSON
  values that the frames of the theory Wire carry.
\<close>

section \<open>Messages\<close>

record presence =
  p_machine :: string
  p_sequence :: int
  p_attempts :: "string list"
  p_remaining :: int

record hello_fields =
  h_protocol :: nat
  h_replica :: string
  h_presence :: "presence list"

datatype acknowledgment = Timed int nat | Legacy int

datatype message =
    Hello hello_fields
  | Welcome hello_fields int
  | Turn int batch
  | Acknowledged acknowledgment

record exchange =
  x_records :: nat
  x_peer :: string
  x_incoming_drained :: bool
  x_outgoing_pending :: int
  x_journal_head :: int
  x_presence :: "presence list"
  x_presence_age :: nat \<comment> \<open>milliseconds\<close>

definition hello :: "engine \<Rightarrow> presence list \<Rightarrow> hello_fields" where
  "hello e ps = \<lparr>h_protocol = 6, h_replica = e_id e, h_presence = ps\<rparr>"

definition validate :: "engine \<Rightarrow> hello_fields \<Rightarrow> unit result" where
  "validate e h =
     (if h_protocol h \<noteq> 6 then Inl ''Incompatible sync protocol''
      else if length (h_replica h) \<noteq> 32 \<or> \<not> list_all hex_any (h_replica h) \<or> h_replica h = e_id e
      then Inl ''Incompatible sync protocol or duplicated replica identity''
      else Inr ())"

section \<open>The serving side\<close>

text \<open>
  \<open>prepare\<close> is the caller's closure: it may write to the journal and returns the local
  presence. The clock enters as the milliseconds that passed since the greeting.
\<close>

type_synonym prepare = "engine \<Rightarrow> engine \<times> presence list result"

datatype server =
    Await_hello
  | Await_turn hello_fields
  | Await_acknowledgment hello_fields nat int bool \<comment> \<open>records, through, incoming page empty\<close>
  | Served "exchange option"
  | Server_failed string

definition serve_hello :: "prepare \<Rightarrow> engine \<Rightarrow> message option \<Rightarrow> server \<times> engine \<times> message list" where
  "serve_hello prepare e m =
     (case m of
        None \<Rightarrow> (Served None, e, [])
      | Some (Hello peer) \<Rightarrow>
          (case validate e peer of
             Inl err \<Rightarrow> (Server_failed err, e, [])
           | Inr _ \<Rightarrow>
               (case prepare e of
                  (e', Inl err) \<Rightarrow> (Server_failed err, e', [])
                | (e', Inr ps) \<Rightarrow>
                    (Await_turn peer, e', [Welcome (hello e ps) (received e' (h_replica peer))])))
      | Some _ \<Rightarrow> (Server_failed ''JSON'', e, []))"

definition serve_turn ::
    "codec \<Rightarrow> extension \<Rightarrow> hello_fields \<Rightarrow> engine \<Rightarrow> message option \<Rightarrow> server \<times> engine \<times> message list" where
  "serve_turn C X peer e m =
     (case m of
        None \<Rightarrow> (Server_failed ''SSH synchronization ended before acknowledgment'', e, [])
      | Some (Turn cursor theirs) \<Rightarrow>
          if b_replica theirs \<noteq> h_replica peer
          then (Server_failed ''SSH peer changed replica identity'', e, [])
          else
            (case batch C e cursor of
               Inl err \<Rightarrow> (Server_failed err, e, [])
             | Inr ours \<Rightarrow>
                 (case ingest C X theirs e of
                    Inl err \<Rightarrow> (Server_failed err, e, [])
                  | Inr e' \<Rightarrow>
                      (Await_acknowledgment peer (length (b_records ours) + length (b_records theirs))
                         (b_through ours) (b_records theirs = []),
                       e', [Turn (received e' (h_replica peer)) ours])))
      | Some _ \<Rightarrow> (Server_failed ''JSON'', e, []))"

definition serve_acknowledgment ::
    "nat \<Rightarrow> hello_fields \<Rightarrow> nat \<Rightarrow> int \<Rightarrow> bool \<Rightarrow> engine \<Rightarrow> message option \<Rightarrow> server \<times> engine \<times> message list" where
  "serve_acknowledgment elapsed peer records through drained e m =
     (case m of
        None \<Rightarrow> (Server_failed ''SSH synchronization ended before acknowledgment'', e, [])
      | Some (Acknowledged ack) \<Rightarrow>
          (let (acknowledged, peer_elapsed) = (case ack of Timed r ms \<Rightarrow> (r, ms) | Legacy r \<Rightarrow> (r, 0)) in
           if acknowledged \<noteq> through then (Server_failed ''SSH peer acknowledged a different batch'', e, [])
           else
             (case acknowledge (h_replica peer) acknowledged e of
                Inl err \<Rightarrow> (Server_failed err, e, [])
              | Inr e' \<Rightarrow>
                  (Served (Some \<lparr>x_records = records, x_peer = h_replica peer, x_incoming_drained = drained,
                     x_outgoing_pending = head e' - acknowledged, x_journal_head = head e',
                     x_presence = h_presence peer, x_presence_age = peer_elapsed + elapsed\<rparr>), e', [])))
      | Some _ \<Rightarrow> (Server_failed ''JSON'', e, []))"

definition serve_step ::
    "codec \<Rightarrow> extension \<Rightarrow> prepare \<Rightarrow> nat \<Rightarrow> message option \<Rightarrow> server \<times> engine \<Rightarrow>
     server \<times> engine \<times> message list" where
  "serve_step C X prepare elapsed m = (\<lambda>(s, e).
     case s of
       Await_hello \<Rightarrow> serve_hello prepare e m
     | Await_turn peer \<Rightarrow> serve_turn C X peer e m
     | Await_acknowledgment peer records through drained \<Rightarrow>
         serve_acknowledgment elapsed peer records through drained e m
     | _ \<Rightarrow> (s, e, []))"

section \<open>The connecting side\<close>

datatype client =
    Await_welcome bool \<comment> \<open>whether the acknowledgment will be timed\<close>
  | Await_reply bool hello_fields nat int \<comment> \<open>records sent, through\<close>
  | Connected exchange
  | Client_failed string

definition connect_hello :: "engine \<Rightarrow> presence list \<Rightarrow> client \<times> message list" where
  "connect_hello e ps = (Await_welcome (ps \<noteq> []), [Hello (hello e ps)])"

definition connect_welcome ::
    "codec \<Rightarrow> bool \<Rightarrow> engine \<Rightarrow> message option \<Rightarrow> client \<times> engine \<times> message list" where
  "connect_welcome C timed e m =
     (case m of
        None \<Rightarrow> (Client_failed ''SSH synchronization ended before acknowledgment'', e, [])
      | Some (Welcome peer cursor) \<Rightarrow>
          (case validate e peer of
             Inl err \<Rightarrow> (Client_failed err, e, [])
           | Inr _ \<Rightarrow>
               (case batch C e cursor of
                  Inl err \<Rightarrow> (Client_failed err, e, [])
                | Inr ours \<Rightarrow>
                    (Await_reply timed peer (length (b_records ours)) (b_through ours), e,
                     [Turn (received e (h_replica peer)) ours])))
      | Some _ \<Rightarrow> (Client_failed ''JSON'', e, []))"

text \<open>
  The reply is committed before it is acknowledged, and the acknowledgment is refused
  only after that: an error of \<open>acknowledge\<close> leaves the ingested facts.
\<close>

definition connect_reply ::
    "codec \<Rightarrow> extension \<Rightarrow> nat \<Rightarrow> bool \<Rightarrow> hello_fields \<Rightarrow> nat \<Rightarrow> int \<Rightarrow> engine \<Rightarrow> message option \<Rightarrow>
     client \<times> engine \<times> message list" where
  "connect_reply C X elapsed timed peer records through e m =
     (case m of
        None \<Rightarrow> (Client_failed ''SSH synchronization ended before acknowledgment'', e, [])
      | Some (Turn cursor theirs) \<Rightarrow>
          if b_replica theirs \<noteq> h_replica peer \<or> cursor \<noteq> through
          then (Client_failed ''SSH peer acknowledged a different batch'', e, [])
          else
            (case ingest C X theirs e of
               Inl err \<Rightarrow> (Client_failed err, e, [])
             | Inr e1 \<Rightarrow>
                 (case acknowledge (h_replica peer) cursor e1 of
                    Inl err \<Rightarrow> (Client_failed err, e1, [])
                  | Inr e2 \<Rightarrow>
                      (let r = received e2 (h_replica peer) in
                       (Connected \<lparr>x_records = records + length (b_records theirs), x_peer = h_replica peer,
                          x_incoming_drained = (b_records theirs = []),
                          x_outgoing_pending = head e2 - cursor, x_journal_head = head e2,
                          x_presence = h_presence peer, x_presence_age = elapsed\<rparr>,
                        e2, [Acknowledged (if timed then Timed r elapsed else Legacy r)]))))
      | Some _ \<Rightarrow> (Client_failed ''JSON'', e, []))"

definition connect_step ::
    "codec \<Rightarrow> extension \<Rightarrow> nat \<Rightarrow> message option \<Rightarrow> client \<times> engine \<Rightarrow> client \<times> engine \<times> message list" where
  "connect_step C X elapsed m = (\<lambda>(c, e).
     case c of
       Await_welcome timed \<Rightarrow> connect_welcome C timed e m
     | Await_reply timed peer records through \<Rightarrow> connect_reply C X elapsed timed peer records through e m
     | _ \<Rightarrow> (c, e, []))"

section \<open>Both sides\<close>

text \<open>
  The two sides joined by a stream in each direction. A side takes the next message of
  its stream; a stream may end at any time, and what was in it is lost.
\<close>

record session =
  s_client :: "client \<times> engine"
  s_server :: "server \<times> engine"
  s_up :: "message list" \<comment> \<open>client to server\<close>
  s_down :: "message list"

definition open_session :: "presence list \<Rightarrow> engine \<Rightarrow> engine \<Rightarrow> session" where
  "open_session ps a b = \<lparr>s_client = (fst (connect_hello a ps), a), s_server = (Await_hello, b),
     s_up = snd (connect_hello a ps), s_down = []\<rparr>"

definition server_turn :: "codec \<Rightarrow> extension \<Rightarrow> prepare \<Rightarrow> nat \<Rightarrow> session \<Rightarrow> session" where
  "server_turn C X prepare elapsed s =
     (case s_up s of
        [] \<Rightarrow> s
      | m # ms \<Rightarrow>
          (let (state, e, out) = serve_step C X prepare elapsed (Some m) (s_server s)
           in s\<lparr>s_server := (state, e), s_up := ms, s_down := s_down s @ out\<rparr>))"

definition client_turn :: "codec \<Rightarrow> extension \<Rightarrow> nat \<Rightarrow> session \<Rightarrow> session" where
  "client_turn C X elapsed s =
     (case s_down s of
        [] \<Rightarrow> s
      | m # ms \<Rightarrow>
          (let (state, e, out) = connect_step C X elapsed (Some m) (s_client s)
           in s\<lparr>s_client := (state, e), s_down := ms, s_up := s_up s @ out\<rparr>))"

inductive session_step :: "codec \<Rightarrow> extension \<Rightarrow> prepare \<Rightarrow> session \<Rightarrow> session \<Rightarrow> bool" for C X prepare where
  server_reads: "s_up s \<noteq> [] \<Longrightarrow> session_step C X prepare s (server_turn C X prepare elapsed s)"
| client_reads: "s_down s \<noteq> [] \<Longrightarrow> session_step C X prepare s (client_turn C X elapsed s)"
| server_loses: "serve_step C X prepare elapsed None (s_server s) = (state, e, out) \<Longrightarrow>
    session_step C X prepare s (s\<lparr>s_server := (state, e), s_up := [], s_down := s_down s @ out\<rparr>)"
| client_loses: "connect_step C X elapsed None (s_client s) = (state, e, out) \<Longrightarrow>
    session_step C X prepare s (s\<lparr>s_client := (state, e), s_down := [], s_up := s_up s @ out\<rparr>)"

text \<open>The uninterrupted exchange: greeting, welcome, turn, reply, acknowledgment.\<close>

definition run_session :: "codec \<Rightarrow> extension \<Rightarrow> prepare \<Rightarrow> nat \<Rightarrow> presence list \<Rightarrow> engine \<Rightarrow> engine \<Rightarrow> session" where
  "run_session C X prepare elapsed ps a b =
     (server_turn C X prepare elapsed \<circ> client_turn C X elapsed \<circ> server_turn C X prepare elapsed
      \<circ> client_turn C X elapsed \<circ> server_turn C X prepare elapsed) (open_session ps a b)"

section \<open>What each side keeps\<close>

text \<open>
  What one replica may count on about its peer: it holds what it has counted, and the
  peer holds what it believes acknowledged.
\<close>

definition side_ok :: "codec \<Rightarrow> engine \<Rightarrow> engine \<Rightarrow> bool" where
  "side_ok C e p \<longleftrightarrow> engine_ok C e \<and> covers p e (received e (e_id p)) \<and>
     sent e (e_id p) \<le> received p (e_id e)"

definition evolves :: "engine \<Rightarrow> engine \<Rightarrow> bool" where
  "evolves e f \<longleftrightarrow> grows e f \<and> (\<forall>r. received e r \<le> received f r)"

definition ack_position :: "acknowledgment \<Rightarrow> int" where
  "ack_position k = (case k of Timed r _ \<Rightarrow> r | Legacy r \<Rightarrow> r)"

text \<open>A message that a replica sent, read at any later time.\<close>

definition mail_ok :: "engine \<Rightarrow> string \<Rightarrow> message \<Rightarrow> bool" where
  "mail_ok e r m \<longleftrightarrow>
     (case m of
        Hello h \<Rightarrow> h_replica h = e_id e
      | Welcome h c \<Rightarrow> h_replica h = e_id e \<and> c \<le> received e r
      | Turn c b \<Rightarrow> stretch_of e b \<and> c \<le> received e r
      | Acknowledged k \<Rightarrow> ack_position k \<le> received e r)"

definition prepare_ok :: "codec \<Rightarrow> prepare \<Rightarrow> bool" where
  "prepare_ok C prepare \<longleftrightarrow> (\<forall>e. engine_ok C e \<longrightarrow> engine_ok C (fst (prepare e)) \<and> grows e (fst (prepare e)) \<and>
     e_receipts (fst (prepare e)) = e_receipts e \<and> e_sent (fst (prepare e)) = e_sent e)"

lemma evolves_refl [simp]: "evolves e e"
  by (simp add: evolves_def)

lemma evolves_trans: "evolves e f \<Longrightarrow> evolves f g \<Longrightarrow> evolves e g"
  unfolding evolves_def by (meson grows_trans order_trans)

lemma mail_evolves: "mail_ok e r m \<Longrightarrow> evolves e f \<Longrightarrow> mail_ok f r m"
  unfolding mail_ok_def evolves_def
  by (cases m) (auto simp: grows_def intro: stretch_grows order_trans)

lemma side_evolves: "side_ok C e p \<Longrightarrow> evolves p q \<Longrightarrow> side_ok C e q"
  unfolding side_ok_def evolves_def
  by (metis covers_grows grows_def grows_refl order_trans)

lemma prepare_side:
  assumes "prepare_ok C prepare" and "side_ok C e p"
  shows "side_ok C (fst (prepare e)) p \<and> evolves e (fst (prepare e)) \<and>
     received (fst (prepare e)) = received e \<and> e_id (fst (prepare e)) = e_id e"
proof -
  from assms have "engine_ok C (fst (prepare e))" and g: "grows e (fst (prepare e))"
    and r: "e_receipts (fst (prepare e)) = e_receipts e" "e_sent (fst (prepare e)) = e_sent e"
    by (simp_all add: prepare_ok_def side_ok_def)
  moreover have "received (fst (prepare e)) = received e" "sent (fst (prepare e)) = sent e"
    using r by (simp_all add: fun_eq_iff received_def sent_def)
  ultimately show ?thesis
    using assms(2) by (auto simp: side_ok_def evolves_def grows_def covers_def)
qed

lemma ingest_side:
  assumes C: "codec_ok C" and X: "extension_ok X" and e: "side_ok C e p" and b: "stretch_of p b"
    and run: "ingest C X b e = Inr f"
  shows "side_ok C f p \<and> evolves e f \<and> e_id f = e_id e"
proof -
  from e have E: "engine_ok C e" and cov: "covers p e (received e (e_id p))"
    and sent: "sent e (e_id p) \<le> received p (e_id e)" by (simp_all add: side_ok_def)
  note taken = ingest_ok [OF C X E run]
  then have id: "e_id f = e_id e" by (simp add: grows_def)
  have "received e r \<le> received f r" for r using taken by (cases "r = b_replica b") auto
  moreover have "sent f (e_id p) = sent e (e_id p)" using taken by (simp add: sent_def)
  ultimately show ?thesis
    using taken ingest_covers [OF C X E run b cov] sent id by (simp add: side_ok_def evolves_def)
qed

lemma acknowledge_side:
  assumes "side_ok C e p" and "acknowledge (e_id p) n e = Inr f" and "n \<le> received p (e_id e)"
  shows "side_ok C f p \<and> evolves e f \<and> e_id f = e_id e \<and> received f = received e \<and>
    e_delivery f = e_delivery e \<and> sent f (e_id p) = max (sent e (e_id p)) n"
proof -
  from assms(1) have E: "engine_ok C e" by (simp add: side_ok_def)
  note run = acknowledge_ok [OF assms(2) E]
  have "sent f (e_id p) = max (sent e (e_id p)) n"
    using assms(2) E by (auto simp: acknowledge_def sent_def engine_ok_def split: if_splits option.splits)
  moreover have rec: "received f = received e" using run by (simp add: fun_eq_iff received_def)
  moreover have "e_id f = e_id e" "grows e f" using run by (simp_all add: grows_def)
  ultimately show ?thesis
    using assms run by (auto simp: side_ok_def evolves_def covers_def)
qed

section \<open>Every step is sound\<close>

definition server_peer :: "string \<Rightarrow> server \<Rightarrow> bool" where
  "server_peer r s \<longleftrightarrow> (case s of Await_turn h \<Rightarrow> h_replica h = r
     | Await_acknowledgment h _ _ _ \<Rightarrow> h_replica h = r | _ \<Rightarrow> True)"

definition client_peer :: "string \<Rightarrow> client \<Rightarrow> bool" where
  "client_peer r s \<longleftrightarrow> (case s of Await_reply _ h _ _ \<Rightarrow> h_replica h = r | _ \<Rightarrow> True)"

definition moved :: "codec \<Rightarrow> engine \<Rightarrow> engine \<Rightarrow> engine \<Rightarrow> message list \<Rightarrow> bool" where
  "moved C p e f out \<longleftrightarrow> side_ok C f p \<and> evolves e f \<and> list_all (mail_ok f (e_id p)) out"

lemma moved_stay: "side_ok C e p \<Longrightarrow> moved C p e e []"
  by (simp add: moved_def)

lemma own_batch: "side_ok C e p \<Longrightarrow> batch C e c = Inr b \<Longrightarrow> stretch_of e b"
  by (auto simp: side_ok_def intro: batch_stretch_of)

lemma serve_step_sound:
  assumes C: "codec_ok C" and X: "extension_ok X" and P: "prepare_ok C prepare"
    and e: "side_ok C e p" and m: "\<And>n. m = Some n \<Longrightarrow> mail_ok p (e_id e) n" and s: "server_peer (e_id p) s"
    and run: "serve_step C X prepare elapsed m (s, e) = (s', f, out)"
  shows "moved C p e f out \<and> server_peer (e_id p) s'"
proof (cases s)
  case Await_hello
  show ?thesis
  proof (cases "\<exists>peer qs e'. m = Some (Hello peer) \<and> prepare e = (e', Inr qs) \<and> validate e peer = Inr ()")
    case True
    then obtain peer qs e' where "m = Some (Hello peer)" "prepare e = (e', Inr qs)" "validate e peer = Inr ()"
      by blast
    moreover from this m have "h_replica peer = e_id p" by (auto simp: mail_ok_def)
    ultimately show ?thesis
      using run prepare_side [OF P e]
      by (auto simp: Await_hello serve_step_def serve_hello_def moved_def server_peer_def mail_ok_def hello_def)
  next
    case False
    with run have "out = [] \<and> server_peer (e_id p) s' \<and> (f = e \<or> f = fst (prepare e))"
      by (auto simp: Await_hello serve_step_def serve_hello_def server_peer_def
          split: option.splits message.splits sum.splits prod.splits)
    with e prepare_side [OF P e] show ?thesis by (auto simp: moved_def)
  qed
next
  case (Await_turn peer)
  with s have peer: "h_replica peer = e_id p" by (simp add: server_peer_def)
  show ?thesis
  proof (cases "\<exists>c b ours e'. m = Some (Turn c b) \<and> batch C e c = Inr ours \<and> ingest C X b e = Inr e' \<and>
      b_replica b = h_replica peer")
    case True
    then obtain c b ours e' where t: "m = Some (Turn c b)" "batch C e c = Inr ours" "ingest C X b e = Inr e'"
      "b_replica b = h_replica peer" by blast
    with m have "stretch_of p b" by (simp add: mail_ok_def)
    note got = ingest_side [OF C X e this t(3)]
    have "stretch_of e' ours" using own_batch [OF e t(2)] got by (auto simp: evolves_def intro: stretch_grows)
    with t run got peer show ?thesis
      by (auto simp: Await_turn serve_step_def serve_turn_def moved_def server_peer_def mail_ok_def)
  next
    case False
    with run have "out = [] \<and> server_peer (e_id p) s' \<and> f = e"
      by (auto simp: Await_turn serve_step_def serve_turn_def server_peer_def
          split: option.splits message.splits sum.splits prod.splits if_splits)
    with e show ?thesis by (simp add: moved_stay)
  qed
next
  case (Await_acknowledgment peer records through drained)
  with s have peer: "h_replica peer = e_id p" by (simp add: server_peer_def)
  show ?thesis
  proof (cases "\<exists>k e'. m = Some (Acknowledged k) \<and> acknowledge (e_id p) (ack_position k) e = Inr e'
      \<and> ack_position k = through")
    case True
    then obtain k e' where t: "m = Some (Acknowledged k)" "acknowledge (e_id p) (ack_position k) e = Inr e'"
      "ack_position k = through" by blast
    with m have "ack_position k \<le> received p (e_id e)" by (simp add: mail_ok_def)
    note got = acknowledge_side [OF e t(2) this]
    with t run peer show ?thesis
      by (auto simp: Await_acknowledgment serve_step_def serve_acknowledgment_def moved_def server_peer_def
          ack_position_def split: acknowledgment.splits)
  next
    case False
    with run peer have "out = [] \<and> server_peer (e_id p) s' \<and> f = e"
      by (auto simp: Await_acknowledgment serve_step_def serve_acknowledgment_def server_peer_def Let_def
          ack_position_def split: option.splits message.splits sum.splits acknowledgment.splits if_splits)
    with e show ?thesis by (simp add: moved_stay)
  qed
qed (use run e s in \<open>auto simp: serve_step_def moved_stay\<close>)

lemma connect_step_sound:
  assumes C: "codec_ok C" and X: "extension_ok X"
    and e: "side_ok C e p" and m: "\<And>n. m = Some n \<Longrightarrow> mail_ok p (e_id e) n" and s: "client_peer (e_id p) s"
    and run: "connect_step C X elapsed m (s, e) = (s', f, out)"
  shows "moved C p e f out \<and> client_peer (e_id p) s'"
proof (cases s)
  case (Await_welcome timed)
  show ?thesis
  proof (cases "\<exists>peer c ours. m = Some (Welcome peer c) \<and> batch C e c = Inr ours \<and> validate e peer = Inr ()")
    case True
    then obtain peer c ours where t: "m = Some (Welcome peer c)" "batch C e c = Inr ours"
      "validate e peer = Inr ()" by blast
    moreover from t(1) m have "h_replica peer = e_id p" by (auto simp: mail_ok_def)
    ultimately show ?thesis
      using run e own_batch [OF e t(2)]
      by (auto simp: Await_welcome connect_step_def connect_welcome_def moved_def client_peer_def mail_ok_def)
  next
    case False
    with run have "out = [] \<and> client_peer (e_id p) s' \<and> f = e"
      by (auto simp: Await_welcome connect_step_def connect_welcome_def client_peer_def
          split: option.splits message.splits sum.splits prod.splits)
    with e show ?thesis by (simp add: moved_stay)
  qed
next
  case (Await_reply timed peer records through)
  with s have peer: "h_replica peer = e_id p" by (simp add: client_peer_def)
  show ?thesis
  proof (cases "\<exists>c b e1. m = Some (Turn c b) \<and> b_replica b = e_id p \<and> c = through \<and> ingest C X b e = Inr e1")
    case True
    then obtain c b e1 where t: "m = Some (Turn c b)" "b_replica b = e_id p" "c = through"
      "ingest C X b e = Inr e1" by blast
    with m have "stretch_of p b" "c \<le> received p (e_id e)" by (simp_all add: mail_ok_def)
    note got = ingest_side [OF C X e this(1) t(4)]
    show ?thesis
    proof (cases "acknowledge (e_id p) c e1")
      case (Inl err)
      with t run got peer show ?thesis
        by (auto simp: Await_reply connect_step_def connect_reply_def moved_def client_peer_def)
    next
      case (Inr e2)
      from \<open>c \<le> received p (e_id e)\<close> got have "c \<le> received p (e_id e1)" by simp
      note ack = acknowledge_side [OF conjunct1 [OF got] Inr this]
      with got have "evolves e e2" using evolves_trans by blast
      with t run got ack peer Inr show ?thesis
        by (auto simp: Await_reply connect_step_def connect_reply_def moved_def client_peer_def Let_def
            mail_ok_def ack_position_def)
    qed
  next
    case False
    with run peer have "out = [] \<and> client_peer (e_id p) s' \<and> f = e"
      by (auto simp: Await_reply connect_step_def connect_reply_def client_peer_def
          split: option.splits message.splits sum.splits prod.splits if_splits)
    with e show ?thesis by (simp add: moved_stay)
  qed
qed (use run e s in \<open>auto simp: connect_step_def moved_stay\<close>)

section \<open>A session, cut anywhere\<close>

definition session_ok :: "codec \<Rightarrow> engine \<Rightarrow> engine \<Rightarrow> session \<Rightarrow> bool" where
  "session_ok C a b s \<longleftrightarrow>
     (let a' = snd (s_client s); b' = snd (s_server s) in
      side_ok C a' b' \<and> side_ok C b' a' \<and> evolves a a' \<and> evolves b b' \<and>
      client_peer (e_id b) (fst (s_client s)) \<and> server_peer (e_id a) (fst (s_server s)) \<and>
      list_all (mail_ok a' (e_id b)) (s_up s) \<and> list_all (mail_ok b' (e_id a)) (s_down s))"

lemma evolves_id: "evolves e f \<Longrightarrow> e_id f = e_id e"
  by (simp add: evolves_def grows_def)

lemma mail_all_evolves: "list_all (mail_ok e r) ms \<Longrightarrow> evolves e f \<Longrightarrow> list_all (mail_ok f r) ms"
  by (auto simp: list_all_iff intro: mail_evolves)

lemma session_server_moves:
  assumes C: "codec_ok C" and X: "extension_ok X" and P: "prepare_ok C prepare"
    and ok: "session_ok C a b s" and m: "m = None \<or> (\<exists>ms. s_up s = the m # ms)"
    and run: "serve_step C X prepare elapsed m (s_server s) = (state, e, out)"
    and up: "set up \<subseteq> set (s_up s)"
  shows "session_ok C a b (s\<lparr>s_server := (state, e), s_up := up, s_down := s_down s @ out\<rparr>)"
proof -
  obtain st b' where server: "s_server s = (st, b')" by (rule prod.exhaust)
  let ?a = "snd (s_client s)"
  from ok have side: "side_ok C ?a b'" "side_ok C b' ?a" and ev: "evolves a ?a" "evolves b b'"
    and peers: "client_peer (e_id b) (fst (s_client s))" "server_peer (e_id a) st"
    and mail: "list_all (mail_ok ?a (e_id b)) (s_up s)" "list_all (mail_ok b' (e_id a)) (s_down s)"
    by (simp_all add: session_ok_def Let_def server)
  have ids: "e_id ?a = e_id a" "e_id b' = e_id b" using ev evolves_id by blast+
  have "mail_ok ?a (e_id b') n" if "m = Some n" for n
    using m mail(1) that ids by auto
  from serve_step_sound [OF C X P side(2) this, where s = st and s' = state and f = e and out = out and elapsed = elapsed] run server peers(2) ids
  have new: "moved C ?a b' e out" "server_peer (e_id a) state" by auto
  then have "side_ok C e ?a" "evolves b' e" "list_all (mail_ok e (e_id a)) out" using ids by (simp_all add: moved_def)
  moreover from this have "side_ok C ?a e" "evolves b e" "list_all (mail_ok e (e_id a)) (s_down s)"
    using side(1) ev(2) mail(2) side_evolves evolves_trans mail_all_evolves by blast+
  moreover have "list_all (mail_ok ?a (e_id b)) up" using mail(1) up by (auto simp: list_all_iff)
  ultimately show ?thesis using ev(1) peers(1) new(2) by (simp add: session_ok_def Let_def)
qed

lemma session_client_moves:
  assumes C: "codec_ok C" and X: "extension_ok X"
    and ok: "session_ok C a b s" and m: "m = None \<or> (\<exists>ms. s_down s = the m # ms)"
    and run: "connect_step C X elapsed m (s_client s) = (state, e, out)"
    and down: "set down \<subseteq> set (s_down s)"
  shows "session_ok C a b (s\<lparr>s_client := (state, e), s_down := down, s_up := s_up s @ out\<rparr>)"
proof -
  obtain st a' where client: "s_client s = (st, a')" by (rule prod.exhaust)
  let ?b = "snd (s_server s)"
  from ok have side: "side_ok C a' ?b" "side_ok C ?b a'" and ev: "evolves a a'" "evolves b ?b"
    and peers: "client_peer (e_id b) st" "server_peer (e_id a) (fst (s_server s))"
    and mail: "list_all (mail_ok a' (e_id b)) (s_up s)" "list_all (mail_ok ?b (e_id a)) (s_down s)"
    by (simp_all add: session_ok_def Let_def client)
  have ids: "e_id a' = e_id a" "e_id ?b = e_id b" using ev evolves_id by blast+
  have "mail_ok ?b (e_id a') n" if "m = Some n" for n
    using m mail(2) that ids by auto
  from connect_step_sound [OF C X side(1) this, where s = st and s' = state and f = e and out = out and elapsed = elapsed] run client peers(1) ids
  have new: "moved C ?b a' e out" "client_peer (e_id b) state" by auto
  then have "side_ok C e ?b" "evolves a' e" "list_all (mail_ok e (e_id b)) out" using ids by (simp_all add: moved_def)
  moreover from this have "side_ok C ?b e" "evolves a e" "list_all (mail_ok e (e_id b)) (s_up s)"
    using side(2) ev(1) mail(1) side_evolves evolves_trans mail_all_evolves by blast+
  moreover have "list_all (mail_ok ?b (e_id a)) down" using mail(2) down by (auto simp: list_all_iff)
  ultimately show ?thesis using ev(2) peers(2) new(2) by (simp add: session_ok_def Let_def)
qed

lemma session_step_ok:
  assumes C: "codec_ok C" and X: "extension_ok X" and P: "prepare_ok C prepare"
    and "session_step C X prepare s t" and ok: "session_ok C a b s"
  shows "session_ok C a b t"
  using assms(4)
proof cases
  case (server_reads elapsed)
  then obtain m ms where up: "s_up s = m # ms" by (cases "s_up s") auto
  obtain state e out where run: "serve_step C X prepare elapsed (Some m) (s_server s) = (state, e, out)"
    by (rule prod_cases3)
  have "set ms \<subseteq> set (s_up s)" by (auto simp: up)
  from session_server_moves [OF C X P ok _ run this] server_reads up run show ?thesis
    by (simp add: server_turn_def)
next
  case (client_reads elapsed)
  then obtain m ms where down: "s_down s = m # ms" by (cases "s_down s") auto
  obtain state e out where run: "connect_step C X elapsed (Some m) (s_client s) = (state, e, out)"
    by (rule prod_cases3)
  have "set ms \<subseteq> set (s_down s)" by (auto simp: down)
  from session_client_moves [OF C X ok _ run this] client_reads down run show ?thesis
    by (simp add: client_turn_def)
next
  case (server_loses elapsed state e out)
  with session_server_moves [OF C X P ok _ server_loses(2), of "[]"] show ?thesis by simp
next
  case (client_loses elapsed state e out)
  with session_client_moves [OF C X ok _ client_loses(2), of "[]"] show ?thesis by simp
qed

lemma open_session_ok:
  assumes "side_ok C a b" and "side_ok C b a"
  shows "session_ok C a b (open_session ps a b)"
  using assms by (simp add: session_ok_def open_session_def connect_hello_def client_peer_def server_peer_def
      mail_ok_def hello_def)

section \<open>A session, to its end\<close>

lemma own_cursor:
  assumes C: "codec_ok C" and X: "extension_ok X" and "side_ok C e p" and "engine_ok C p" and "replica_id (e_id p)"
  shows "\<exists>b f. batch C p (received e (e_id p)) = Inr b \<and> ingest C X b e = Inr f \<and> side_ok C f p \<and>
     evolves e f \<and> received f (e_id p) = b_through b \<and> b_through b \<le> head p \<and> b_replica b = e_id p \<and>
     (received e (e_id p) < head p \<longrightarrow> received e (e_id p) < b_through b) \<and>
     set (e_delivery f) \<subseteq> set (e_delivery e) \<union> set (e_delivery p)"
proof -
  from assms(3) have E: "engine_ok C e" and cov: "covers p e (received e (e_id p))" by (simp_all add: side_ok_def)
  then have cursor: "0 \<le> received e (e_id p)" "received e (e_id p) \<le> head p"
    by (auto simp: engine_ok_def covers_def)
  from batch_accepted [OF C X assms(4) E _ _ cursor order_refl] assms(5) obtain b f
    where b: "batch C p (received e (e_id p)) = Inr b" and f: "ingest C X b e = Inr f"
      and rec: "received f (e_id p) = max (received e (e_id p)) (b_through b)"
        "received e (e_id p) \<le> b_through b" "b_through b \<le> head p"
        "received e (e_id p) < head p \<longrightarrow> received e (e_id p) < b_through b"
    unfolding replica_id_def by blast
  have s: "stretch_of p b" using assms(4) b by (rule batch_stretch_of)
  then have "ch_id ` set (b_records b) \<subseteq> set (e_delivery p)"
    unfolding stretch_of_def by (metis list.set_map set_drop_subset set_take_subset order_trans)
  with ingest_ok [OF C X E f] have "set (e_delivery f) \<subseteq> set (e_delivery e) \<union> set (e_delivery p)" by blast
  with ingest_side [OF C X assms(3) s f] b f rec s show ?thesis
    by (intro exI [of _ b] exI [of _ f]) (auto simp: stretch_of_def)
qed

lemma acknowledge_runs:
  assumes "0 \<le> n" and "n \<le> head e"
  shows "\<exists>f. acknowledge r n e = Inr f"
  using assms by (simp add: acknowledge_def)

text \<open>The outcome of an uninterrupted exchange for the pair of replicas.\<close>

definition exchanged :: "codec \<Rightarrow> engine \<Rightarrow> engine \<Rightarrow> engine \<Rightarrow> engine \<Rightarrow> bool" where
  "exchanged C a b a2 b2 \<longleftrightarrow>
     side_ok C a2 b2 \<and> side_ok C b2 a2 \<and> evolves a a2 \<and> evolves b b2 \<and>
     sent a2 (e_id b) = received b2 (e_id a) \<and> sent b2 (e_id a) = received a2 (e_id b) \<and>
     (received b (e_id a) < head a \<longrightarrow> received b (e_id a) < received b2 (e_id a)) \<and>
     (received a (e_id b) < head b \<longrightarrow> received a (e_id b) < received a2 (e_id b)) \<and>
     set (e_delivery a2) \<subseteq> set (e_delivery a) \<union> set (e_delivery b) \<and>
     set (e_delivery b2) \<subseteq> set (e_delivery a) \<union> set (e_delivery b)"

lemma session_runs:
  assumes C: "codec_ok C" and X: "extension_ok X" and P: "prepare_ok C prepare"
    and "side_ok C a b" and "side_ok C b a" and ids: "replica_id (e_id a)" "replica_id (e_id b)" "e_id a \<noteq> e_id b"
    and prep: "prepare b = (b', Inr qs)"
  shows "\<exists>x y a2 b2. run_session C X prepare elapsed ps a b =
      \<lparr>s_client = (Connected x, a2), s_server = (Served (Some y), b2), s_up = [], s_down = []\<rparr> \<and>
      x_peer x = e_id b \<and> x_peer y = e_id a \<and> exchanged C a b' a2 b2"
proof -
  from prepare_side [OF P assms(5)] prep
  have b': "side_ok C b' a" "evolves b b'" "received b' = received b" "e_id b' = e_id b" by simp_all
  have a: "side_ok C a b'" using side_evolves [OF assms(4) b'(2)] .
  have eng: "engine_ok C a" "engine_ok C b'" using a b'(1) by (simp_all add: side_ok_def)
  from own_cursor [OF C X b'(1) eng(1) ids(1)] obtain ours b1 where
    ours: "batch C a (received b' (e_id a)) = Inr ours" and b1: "ingest C X ours b' = Inr b1"
    "side_ok C b1 a" "evolves b' b1" "received b1 (e_id a) = b_through ours" "b_through ours \<le> head a"
    "b_replica ours = e_id a" "received b' (e_id a) < head a \<longrightarrow> received b' (e_id a) < b_through ours"
    "set (e_delivery b1) \<subseteq> set (e_delivery b') \<union> set (e_delivery a)" by blast
  from own_cursor [OF C X a eng(2)] ids(2) b'(4) obtain theirs a1 where
    theirs: "batch C b' (received a (e_id b)) = Inr theirs" and a1: "ingest C X theirs a = Inr a1"
    "side_ok C a1 b'" "evolves a a1" "received a1 (e_id b) = b_through theirs" "b_through theirs \<le> head b'"
    "b_replica theirs = e_id b" "received a (e_id b) < head b' \<longrightarrow> received a (e_id b) < b_through theirs"
    "set (e_delivery a1) \<subseteq> set (e_delivery a) \<union> set (e_delivery b')" by auto
  have idn: "e_id a1 = e_id a" "e_id b1 = e_id b" using a1(3) b1(3) b'(4) evolves_id by metis+
  have a1_b1: "side_ok C a1 b1" using side_evolves [OF a1(2) b1(3)] .
  have b1_a1: "side_ok C b1 a1" using side_evolves [OF b1(2) a1(3)] .
  have pos: "0 \<le> received b1 (e_id a)" "0 \<le> received a1 (e_id b)"
    using a1_b1 b1_a1 by (simp_all add: side_ok_def engine_ok_def)
  have heads: "head a \<le> head a1" "head b' \<le> head b1"
    using a1(3) b1(3) by (auto simp: evolves_def grows_def head_def)
  from acknowledge_runs [of "b_through ours" a1 "e_id b"] pos heads b1(4,5)
  obtain a2 where a2: "acknowledge (e_id b) (b_through ours) a1 = Inr a2" by auto
  from acknowledge_runs [of "b_through theirs" b1 "e_id a"] pos heads a1(4,5)
  obtain b2 where b2: "acknowledge (e_id a) (b_through theirs) b1 = Inr b2" by auto
  have a2': "side_ok C a2 b1 \<and> evolves a1 a2 \<and> e_id a2 = e_id a \<and> received a2 = received a1 \<and>
      e_delivery a2 = e_delivery a1 \<and> sent a2 (e_id b) = max (sent a1 (e_id b)) (b_through ours)"
    using acknowledge_side [OF a1_b1, of "b_through ours" a2] a2 b1(4) idn by simp
  have b2': "side_ok C b2 a1 \<and> evolves b1 b2 \<and> e_id b2 = e_id b \<and> received b2 = received b1 \<and>
      e_delivery b2 = e_delivery b1 \<and> sent b2 (e_id a) = max (sent b1 (e_id a)) (b_through theirs)"
    using acknowledge_side [OF b1_a1, of "b_through theirs" b2] b2 a1(4) idn by simp
  have final: "side_ok C a2 b2" "side_ok C b2 a2"
    using a2' b2' side_evolves by blast+
  have "sent a1 (e_id b) \<le> b_through ours" "sent b1 (e_id a) \<le> b_through theirs"
    using a1_b1 b1_a1 idn b1(4) a1(4) by (simp_all add: side_ok_def)
  then have acks: "sent a2 (e_id b) = received b2 (e_id a)" "sent b2 (e_id a) = received a2 (e_id b)"
    using a2' b2' b1(4) a1(4) by (simp_all add: max_absorb2)
  have ev: "evolves a a2" "evolves b' b2" using a1(3) a2' b1(3) b2' evolves_trans by blast+
  have "exchanged C a b' a2 b2"
    using final acks ev a1 b1 a2' b2' b'(4) by (auto simp: exchanged_def)
  moreover have "validate b (hello a ps) = Inr ()" "validate a (hello b qs) = Inr ()"
    using ids by (auto simp: validate_def hello_def replica_id_def)
  ultimately show ?thesis
    using prep ours theirs a1(1,4,6) b1(1,4,6) a2 b2 a2' b'(4) idn
    by (simp add: run_session_def open_session_def connect_hello_def server_turn_def client_turn_def
        serve_step_def connect_step_def serve_hello_def connect_welcome_def serve_turn_def connect_reply_def
        serve_acknowledgment_def hello_def Let_def)
qed

section \<open>Repeated exchanges\<close>

text \<open>\<open>serve\<close> against \<open>connect\<close>: nothing to prepare, no presence to report.\<close>

definition sync :: "codec \<Rightarrow> extension \<Rightarrow> engine \<times> engine \<Rightarrow> engine \<times> engine" where
  "sync C X = (\<lambda>(a, b).
     let s = run_session C X (\<lambda>e. (e, Inr [])) 0 [] a b in (snd (s_client s), snd (s_server s)))"

definition paired :: "codec \<Rightarrow> engine \<times> engine \<Rightarrow> bool" where
  "paired C = (\<lambda>(a, b). side_ok C a b \<and> side_ok C b a \<and> replica_id (e_id a) \<and> replica_id (e_id b) \<and>
     e_id a \<noteq> e_id b)"

definition known :: "engine \<times> engine \<Rightarrow> string set" where
  "known = (\<lambda>(a, b). set (e_delivery a) \<union> set (e_delivery b))"

definition agreed :: "engine \<times> engine \<Rightarrow> bool" where
  "agreed = (\<lambda>(a, b). set (e_delivery a) = set (e_delivery b))"

definition distance :: "engine \<times> engine \<Rightarrow> nat" where
  "distance = (\<lambda>(a, b). nat (int (card (known (a, b))) - received b (e_id a)) +
     nat (int (card (known (a, b))) - received a (e_id b)))"

lemma head_card:
  assumes "engine_ok C e" and "set (e_delivery e) \<subseteq> U" and "finite U"
  shows "head e \<le> int (card U)"
proof -
  have "length (e_delivery e) = card (set (e_delivery e))"
    using assms(1) unfolding engine_ok_def by (metis distinct_card)
  with card_mono [OF assms(3,2)] show ?thesis by (simp add: head_def)
qed

lemma covers_head:
  assumes "covers a e (received e (e_id a))" and "head a \<le> received e (e_id a)"
  shows "set (e_delivery a) \<subseteq> set (e_delivery e)"
  using assms by (auto simp: covers_def head_def)

lemma sync_step:
  assumes C: "codec_ok C" and X: "extension_ok X" and "paired C ab"
  shows "paired C (sync C X ab) \<and> known (sync C X ab) = known ab \<and>
     (agreed ab \<longrightarrow> agreed (sync C X ab)) \<and> (agreed ab \<or> distance (sync C X ab) < distance ab)"
proof -
  obtain a b where ab: "ab = (a, b)" by (rule prod.exhaust)
  with assms(3) have side: "side_ok C a b" "side_ok C b a"
    and ids: "replica_id (e_id a)" "replica_id (e_id b)" "e_id a \<noteq> e_id b" by (simp_all add: paired_def)
  have "prepare_ok C (\<lambda>e. (e, Inr []))" by (simp add: prepare_ok_def)
  from session_runs [OF C X this side ids refl, of 0 "[]"] obtain a2 b2
    where sync: "sync C X (a, b) = (a2, b2)" and ex: "exchanged C a b a2 b2" by (auto simp: sync_def)
  from ex have ev: "evolves a a2" "evolves b b2" by (simp_all add: exchanged_def)
  then have same: "e_id a2 = e_id a" "e_id b2 = e_id b" using evolves_id by blast+
  have p: "paired C (sync C X ab)" using ex ids same by (simp add: paired_def ab sync exchanged_def)
  have more: "set (e_delivery a) \<subseteq> set (e_delivery a2)" "set (e_delivery b) \<subseteq> set (e_delivery b2)"
    using ev grows_delivery by (auto simp: evolves_def)
  with ex have k: "known (sync C X ab) = known ab" by (auto simp: known_def sync ab exchanged_def)
  have "agreed (a2, b2)" if "agreed ab"
    using that more ex by (auto simp: agreed_def ab exchanged_def)
  moreover have "distance (sync C X ab) < distance ab" if "\<not> agreed ab"
  proof -
    let ?U = "known (a, b)"
    have fin: "finite ?U" by (simp add: known_def)
    have heads: "head a \<le> int (card ?U)" "head b \<le> int (card ?U)"
      using side by (auto intro!: head_card [where C = C] simp: side_ok_def known_def)
    have "received b (e_id a) < head a \<or> received a (e_id b) < head b"
      using that side covers_head [of a b] covers_head [of b a]
      by (fastforce simp: agreed_def ab side_ok_def)
    moreover have "received b (e_id a) \<le> received b2 (e_id a)" "received a (e_id b) \<le> received a2 (e_id b)"
      using ev by (simp_all add: evolves_def)
    ultimately show ?thesis
      using ex heads k same by (auto simp: distance_def ab sync exchanged_def)
  qed
  ultimately show ?thesis using p k sync ab by auto
qed

lemma sync_runs:
  assumes C: "codec_ok C" and X: "extension_ok X" and "paired C ab"
  shows "paired C ((sync C X ^^ n) ab) \<and> known ((sync C X ^^ n) ab) = known ab \<and>
     (agreed ((sync C X ^^ n) ab) \<or> distance ((sync C X ^^ n) ab) + n \<le> distance ab)"
proof (induction n)
  case 0
  with assms(3) show ?case by simp
next
  case (Suc n)
  with sync_step [OF C X, of "(sync C X ^^ n) ab"] show ?case by auto
qed

section \<open>Pages of a batch\<close>

lemma page_bytes:
  "page C True n rows = Inr (rs, trimmed) \<Longrightarrow> rs = [] \<or> n + sum_list (List.map (\<lambda>(_, _, s, _). length s) rs) \<le> PAGE_BYTES"
proof (induction rows arbitrary: n rs trimmed)
  case (Cons row rows)
  obtain p i v m where row: "row = (p, i, v, m)" by (rule prod_cases4)
  show ?case
  proof (cases "rs = []")
    case False
    with Cons.prems obtain s rs' where s: "rs = (p, i, s, m) # rs'" "n + length s \<le> PAGE_BYTES"
      "page C True (n + length s) rows = Inr (rs', trimmed)" by (auto simp: row split: if_splits)
    from Cons.IH [OF s(3)] s(1,2) show ?thesis by auto
  qed simp
qed simp

lemma page_first:
  assumes "page C False 0 rows = Inr (rs, trimmed)" and "1 < length rs"
  shows "sum_list (List.map (\<lambda>(_, _, s, _). length s) rs) \<le> PAGE_BYTES"
proof (cases rows)
  case Nil
  with assms show ?thesis by simp
next
  case (Cons row rows')
  obtain p i v m where row: "row = (p, i, v, m)" by (rule prod_cases4)
  with assms(1) Cons obtain s rs' where s: "rs = (p, i, s, m) # rs'"
    "page C True (length s) rows' = Inr (rs', trimmed)" by auto
  from page_bytes [OF s(2)] s(1) assms(2) show ?thesis by auto
qed

section \<open>Properties\<close>

text \<open>
  C12. A session cut at any point is harmless: whichever messages were exchanged before
  either stream ended, both journals stay well-formed, each replica holds everything it
  has counted as received from the other, and what a replica believes acknowledged was
  really received.
\<close>

theorem interrupted_session_is_sound:
  assumes "codec_ok C" and "extension_ok X" and "prepare_ok C prepare"
    and "side_ok C a b" and "side_ok C b a"
    and "(session_step C X prepare)\<^sup>*\<^sup>* (open_session ps a b) s"
  shows "side_ok C (snd (s_client s)) (snd (s_server s)) \<and> side_ok C (snd (s_server s)) (snd (s_client s)) \<and>
     grows a (snd (s_client s)) \<and> grows b (snd (s_server s))"
proof -
  from assms(6) have "session_ok C a b s"
    by (induction rule: rtranclp_induct)
      (auto intro: open_session_ok [OF assms(4,5)] session_step_ok [OF assms(1-3)])
  then show ?thesis by (simp add: session_ok_def Let_def evolves_def)
qed

text \<open>
  C14. An uninterrupted session succeeds on both sides: two well-formed replicas with
  distinct identities both report the exchange, each learns how far the other has
  received, and each receipt moves forward unless it had reached the end of the log.
\<close>

theorem session_completes:
  assumes "codec_ok C" and "extension_ok X" and "prepare_ok C prepare"
    and "side_ok C a b" and "side_ok C b a" and "replica_id (e_id a)" and "replica_id (e_id b)"
    and "e_id a \<noteq> e_id b" and "prepare b = (b', Inr qs)"
  shows "\<exists>x y a2 b2. run_session C X prepare elapsed ps a b =
      \<lparr>s_client = (Connected x, a2), s_server = (Served (Some y), b2), s_up = [], s_down = []\<rparr> \<and>
      sent a2 (e_id b) = received b2 (e_id a) \<and> sent b2 (e_id a) = received a2 (e_id b) \<and>
      (received b' (e_id a) < head a \<longrightarrow> received b' (e_id a) < received b2 (e_id a)) \<and>
      (received a (e_id b) < head b' \<longrightarrow> received a (e_id b) < received a2 (e_id b))"
proof -
  have "e_id b' = e_id b" using prepare_side [OF assms(3,5)] assms(9) by simp
  with session_runs [OF assms, of elapsed ps] show ?thesis by (fastforce simp: exchanged_def)
qed

text \<open>
  C5. Exchanges converge: two replicas that repeat \<open>connect\<close> against \<open>serve\<close> hold the same
  facts, all that either knew, after at most twice as many exchanges as there are facts.
\<close>

theorem exchanges_reach_agreement:
  assumes "codec_ok C" and "extension_ok X" and "paired C (a, b)"
    and "2 * card (known (a, b)) \<le> n"
  shows "dom (e_records (fst ((sync C X ^^ n) (a, b)))) = known (a, b) \<and>
     dom (e_records (snd ((sync C X ^^ n) (a, b)))) = known (a, b)"
proof -
  let ?ab = "(sync C X ^^ n) (a, b)"
  note runs = sync_runs [OF assms(1-3), of n]
  have "agreed ?ab"
  proof (rule ccontr)
    assume not: "\<not> agreed ?ab"
    with runs have "distance ?ab + n \<le> distance (a, b)" by blast
    moreover have "distance (a, b) \<le> 2 * card (known (a, b))"
    proof -
      have "0 \<le> received b (e_id a)" "0 \<le> received a (e_id b)"
        using assms(3) by (simp_all add: paired_def side_ok_def engine_ok_def)
      then show ?thesis by (simp add: distance_def)
    qed
    ultimately have "distance ?ab = 0" using assms(4) by simp
    moreover from sync_step [OF assms(1,2), of ?ab] runs not have "distance (sync C X ?ab) < distance ?ab" by blast
    ultimately show False by simp
  qed
  with runs have "set (e_delivery (fst ?ab)) = known (a, b)" "set (e_delivery (snd ?ab)) = known (a, b)"
    by (auto simp: agreed_def known_def split: prod.splits)
  moreover have "engine_ok C (fst ?ab)" "engine_ok C (snd ?ab)"
    using runs by (auto simp: paired_def side_ok_def split: prod.splits)
  ultimately show ?thesis by (simp add: engine_ok_def)
qed

text \<open>
  C40. The pages of a batch are bounded and never stall: at most 128 records, at most 8 MiB
  of payload unless a single record is larger, contiguous from the cursor, and never empty
  before the end of the log.
\<close>

theorem batch_is_bounded:
  assumes "engine_ok C e" and "0 \<le> after" and "after \<le> head e"
  shows "\<exists>b. batch C e after = Inr b \<and> length (b_records b) \<le> 128 \<and>
     (length (b_records b) \<le> 1 \<or> sum_list (List.map (\<lambda>r. length (ch_payload r)) (b_records b)) \<le> PAGE_BYTES) \<and>
     b_through b = after + int (length (b_records b)) \<and>
     (b_records b = [] \<longleftrightarrow> after = head e)"
proof -
  from batch_stretch [OF assms] obtain b where b: "batch C e after = Inr b"
    "b_through b = after + int (length (b_records b))" "b_through b \<le> head e"
    "length (b_records b) \<le> 128" "after < head e \<longrightarrow> after < b_through b" by blast
  from b(1) assms(2,3) obtain rs trimmed where page:
    "page C False 0 (take 128 (rows_between e after (head e))) = Inr (rs, trimmed)"
    "b_records b = List.map (\<lambda>(p, i, s, m). \<lparr>ch_position = p, ch_id = i, ch_payload = s, ch_meta = m\<rparr>) rs"
    by (auto simp: batch_def)
  have "List.map (\<lambda>r. length (ch_payload r)) (b_records b) = List.map (\<lambda>(_, _, s, _). length s) rs"
    by (simp add: page(2) comp_def split_def)
  moreover have "length (b_records b) = length rs" by (simp add: page(2))
  ultimately have "length (b_records b) \<le> 1 \<or>
      sum_list (List.map (\<lambda>r. length (ch_payload r)) (b_records b)) \<le> PAGE_BYTES"
    using page_first [OF page(1)] by (metis not_less)
  moreover have "b_records b = [] \<longleftrightarrow> after = head e" using b(2,3,5) assms(3) by auto
  ultimately show ?thesis using b by blast
qed

section \<open>Examples\<close>

lemma example_fact_ok: "engine_ok example_codec example_fact"
  using put_ok [OF example_codec_ok example_extension_ok _ example_put]
  by (simp add: engine_ok_def new_engine_def received_def sent_def head_def)

lemma example_sides:
  "side_ok example_codec example_fact (new_engine (example_ids ! 1))"
  "side_ok example_codec (new_engine (example_ids ! 1)) example_fact"
proof -
  have "engine_ok example_codec (new_engine (example_ids ! 1))"
    by (simp add: engine_ok_def new_engine_def received_def sent_def head_def)
  with example_fact_ok show "side_ok example_codec example_fact (new_engine (example_ids ! 1))"
    "side_ok example_codec (new_engine (example_ids ! 1)) example_fact"
    by (simp_all add: side_ok_def example_fact new_engine_def received_def sent_def covers_def head_def)
qed

lemma example_replicas: "replica_id (e_id example_fact)" "replica_id (e_id (new_engine (example_ids ! 1)))"
  "e_id example_fact \<noteq> e_id (new_engine (example_ids ! 1))"
  by (simp_all add: replica_id_def example_fact new_engine_def example_ids_def hex_any_def hex_digit_def
      list_all_iff)

lemma example_prepare: "prepare_ok C (\<lambda>e. (e, Inr []))"
  by (simp add: prepare_ok_def)

lemma example_receipts: "received (new_engine r) s = 0" "head (new_engine r) = 0" "received example_fact s = 0"
  "head example_fact = 1"
  by (simp_all add: new_engine_def received_def head_def example_fact)

theorem interrupted_session_is_sound_witness:
  "side_ok example_codec example_fact (new_engine (example_ids ! 1)) \<and>
   s_up (open_session [] example_fact (new_engine (example_ids ! 1))) \<noteq> []"
  using interrupted_session_is_sound [OF example_codec_ok example_extension_ok example_prepare example_sides
      rtranclp.rtrancl_refl, of "[]"]
  by (simp add: open_session_def connect_hello_def)

theorem session_completes_witness:
  "\<exists>x y a2 b2. run_session example_codec example_extension (\<lambda>e. (e, Inr [])) 5 [] example_fact
      (new_engine (example_ids ! 1)) =
      \<lparr>s_client = (Connected x, a2), s_server = (Served (Some y), b2), s_up = [], s_down = []\<rparr> \<and>
      0 < received b2 (e_id example_fact)"
proof -
  from session_completes [OF example_codec_ok example_extension_ok example_prepare example_sides
      example_replicas refl, of 5 "[]"]
  show ?thesis unfolding example_receipts by auto
qed

theorem exchanges_reach_agreement_witness:
  "replicate 64 (CHR ''a'') \<in> dom (e_records (snd
     ((sync example_codec example_extension ^^ 2) (example_fact, new_engine (example_ids ! 1)))))"
proof -
  have p: "paired example_codec (example_fact, new_engine (example_ids ! 1))"
    using example_sides example_replicas by (simp add: paired_def)
  have k: "known (example_fact, new_engine (example_ids ! 1)) = {replicate 64 (CHR ''a'')}"
    by (simp add: known_def example_fact new_engine_def)
  have "2 * card (known (example_fact, new_engine (example_ids ! 1))) \<le> 2" unfolding k by simp
  from exchanges_reach_agreement [OF example_codec_ok example_extension_ok p this] k
  show ?thesis by simp
qed

theorem batch_is_bounded_witness:
  "\<exists>b. batch example_codec example_fact 0 = Inr b \<and> length (b_records b) \<le> 128 \<and> b_records b \<noteq> []"
proof -
  have "0 \<le> head example_fact" by (simp add: example_receipts)
  from batch_is_bounded [OF example_fact_ok order_refl this] show ?thesis unfolding example_receipts by auto
qed

end
