(* ===== verification/Pacing.thy ===== *)
theory Pacing
  imports Prelude
begin

text \<open>
  The dispatch slots of one quota window (\<open>src/packages/hey-gh/src/scheduler/pacing.rs\<close>):
  a queue of delays and floors in which a reservation can be withdrawn later. It is shown
  to compute the same deadline as the plain history of reservations and charges from
  which the withdrawn ones are struck out, in bounded space.
\<close>

section \<open>Time\<close>

text \<open>
  An \<open>Instant\<close> and a \<open>Duration\<close> are nanoseconds. \<open>checked_add\<close> on an instant fails past
  the largest \<open>timespec\<close>; a duration saturates at \<open>u64\<close> seconds.
\<close>

type_synonym instant = nat
type_synonym duration = nat

definition MAX_INSTANT :: nat where "MAX_INSTANT = 2 ^ 63 * 1000000000 - 1"
definition MAX_DURATION :: nat where "MAX_DURATION = 2 ^ 64 * 1000000000 - 1"

definition secs :: "nat \<Rightarrow> duration" where "secs n = n * 1000000000"

definition checked_add :: "instant \<Rightarrow> duration \<Rightarrow> instant option" where
  "checked_add at d = (if at + d \<le> MAX_INSTANT then Some (at + d) else None)"

definition duration_add :: "duration \<Rightarrow> duration \<Rightarrow> duration" where
  "duration_add a b = min (a + b) MAX_DURATION"

definition quota_deadline :: "instant \<Rightarrow> duration \<Rightarrow> instant" where
  "quota_deadline now wait = (case checked_add now wait of Some t \<Rightarrow> t | None \<Rightarrow> now + secs 86400)"

definition later :: "instant \<Rightarrow> instant \<Rightarrow> duration \<Rightarrow> instant" where
  "later now at delay = (case checked_add at delay of Some t \<Rightarrow> t | None \<Rightarrow> quota_deadline now (secs 86400))"

section \<open>Steps\<close>

record step =
  st_ticket :: "nat option"
  st_delay :: duration
  st_floor :: instant

definition step_apply :: "instant \<Rightarrow> step \<Rightarrow> instant \<Rightarrow> instant" where
  "step_apply now s at = max (later now at (st_delay s)) (st_floor s)"

definition step_then :: "instant \<Rightarrow> step \<Rightarrow> step \<Rightarrow> step" where
  "step_then now s n = s\<lparr>st_floor := step_apply now n (st_floor s),
     st_delay := duration_add (st_delay s) (st_delay n)\<rparr>"

record pacing =
  pc_base :: instant
  pc_steps :: "step list"

definition pacing_new :: "instant \<Rightarrow> pacing" where
  "pacing_new base = \<lparr>pc_base = base, pc_steps = []\<rparr>"

definition deadline :: "instant \<Rightarrow> pacing \<Rightarrow> instant" where
  "deadline now p = fold (step_apply now) (pc_steps p) (pc_base p)"

definition reserve :: "instant \<Rightarrow> nat \<Rightarrow> instant \<Rightarrow> duration \<Rightarrow> pacing \<Rightarrow> pacing" where
  "reserve now ticket at delay p =
     p\<lparr>pc_steps := pc_steps p @ [\<lparr>st_ticket = Some ticket, st_delay = delay, st_floor = later now at delay\<rparr>]\<rparr>"

definition fixed :: "instant \<Rightarrow> step \<Rightarrow> pacing \<Rightarrow> pacing" where
  "fixed now s p =
     (if pc_steps p = [] then p\<lparr>pc_base := step_apply now s (pc_base p)\<rparr>
      else if st_ticket (last (pc_steps p)) = None
      then p\<lparr>pc_steps := butlast (pc_steps p) @ [step_then now (last (pc_steps p)) s]\<rparr>
      else p\<lparr>pc_steps := pc_steps p @ [s]\<rparr>)"

definition charge :: "instant \<Rightarrow> instant \<Rightarrow> duration \<Rightarrow> pacing \<Rightarrow> pacing" where
  "charge now at delay p = fixed now \<lparr>st_ticket = None, st_delay = delay, st_floor = later now at delay\<rparr> p"

definition raise_floor :: "instant \<Rightarrow> instant \<Rightarrow> pacing \<Rightarrow> pacing" where
  "raise_floor now t p = fixed now \<lparr>st_ticket = None, st_delay = 0, st_floor = t\<rparr> p"

text \<open>The first step of a ticket is dropped or made permanent.\<close>

fun settle_first :: "nat \<Rightarrow> bool \<Rightarrow> step list \<Rightarrow> step list" where
  "settle_first ticket free [] = []"
| "settle_first ticket free (s # ss) =
     (if st_ticket s = Some ticket then (if free then ss else s\<lparr>st_ticket := None\<rparr> # ss)
      else s # settle_first ticket free ss)"

text \<open>Adjacent permanent steps are merged, from the front.\<close>

fun merge_fixed :: "instant \<Rightarrow> step list \<Rightarrow> step list" where
  "merge_fixed now (s # t # ss) =
     (if st_ticket s = None \<and> st_ticket t = None then merge_fixed now (step_then now s t # ss)
      else s # merge_fixed now (t # ss))"
| "merge_fixed now ss = ss"

definition settle :: "instant \<Rightarrow> nat \<Rightarrow> bool \<Rightarrow> pacing \<Rightarrow> pacing" where
  "settle now ticket free p =
     (if Some ticket \<notin> st_ticket ` set (pc_steps p) then p
      else
        let steps = merge_fixed now (settle_first ticket free (pc_steps p));
            done_steps = takeWhile (\<lambda>s. st_ticket s = None) steps
        in \<lparr>pc_base = fold (step_apply now) done_steps (pc_base p),
            pc_steps = dropWhile (\<lambda>s. st_ticket s = None) steps\<rparr>)"

section \<open>The plain history\<close>

text \<open>
  The specification keeps every reservation and charge as an entry and never merges: a
  reservation that turned out free is struck out, a charged one stays.
\<close>

datatype pacing_op =
    Reserve nat instant duration
  | Charge instant duration
  | Raise_floor instant
  | Settle nat bool

fun pacing_run :: "instant \<Rightarrow> pacing_op list \<Rightarrow> pacing \<Rightarrow> pacing" where
  "pacing_run now [] p = p"
| "pacing_run now (Reserve t at d # ops) p = pacing_run now ops (reserve now t at d p)"
| "pacing_run now (Charge at d # ops) p = pacing_run now ops (charge now at d p)"
| "pacing_run now (Raise_floor t # ops) p = pacing_run now ops (raise_floor now t p)"
| "pacing_run now (Settle t free # ops) p = pacing_run now ops (settle now t free p)"

definition withdraw :: "nat \<Rightarrow> step list \<Rightarrow> step list" where
  "withdraw t h = filter (\<lambda>s. st_ticket s \<noteq> Some t) h"

definition confirm :: "nat \<Rightarrow> step list \<Rightarrow> step list" where
  "confirm t h = List.map (\<lambda>s. if st_ticket s = Some t then s\<lparr>st_ticket := None\<rparr> else s) h"

fun history :: "pacing_op list \<Rightarrow> step list \<Rightarrow> step list" where
  "history [] h = h"
| "history (Reserve t at d # ops) h =
     history ops (h @ [\<lparr>st_ticket = Some t, st_delay = d, st_floor = at + d\<rparr>])"
| "history (Charge at d # ops) h = history ops (h @ [\<lparr>st_ticket = None, st_delay = d, st_floor = at + d\<rparr>])"
| "history (Raise_floor t # ops) h = history ops (h @ [\<lparr>st_ticket = None, st_delay = 0, st_floor = t\<rparr>])"
| "history (Settle t free # ops) h = history ops (if free then withdraw t h else confirm t h)"

definition slot :: "step \<Rightarrow> instant \<Rightarrow> instant" where
  "slot s at = max (at + st_delay s) (st_floor s)"

definition slots :: "step list \<Rightarrow> instant \<Rightarrow> instant" where
  "slots h base = fold slot h base"

text \<open>Each ticket is fresh when it is reserved.\<close>

fun fresh_tickets :: "pacing_op list \<Rightarrow> nat set \<Rightarrow> bool" where
  "fresh_tickets [] used = True"
| "fresh_tickets (Reserve t _ _ # ops) used = (t \<notin> used \<and> fresh_tickets ops (insert t used))"
| "fresh_tickets (_ # ops) used = fresh_tickets ops used"

fun op_delay :: "pacing_op \<Rightarrow> duration" where
  "op_delay (Reserve _ _ d) = d"
| "op_delay (Charge _ d) = d"
| "op_delay _ = 0"

fun op_time :: "pacing_op \<Rightarrow> instant" where
  "op_time (Reserve _ at _) = at"
| "op_time (Charge at _) = at"
| "op_time (Raise_floor t) = t"
| "op_time _ = 0"

section \<open>The queue computes the history's deadline\<close>

definition kept :: "nat set \<Rightarrow> step \<Rightarrow> bool" where
  "kept F s \<longleftrightarrow> (case st_ticket s of None \<Rightarrow> True | Some t \<Rightarrow> t \<notin> F)"

definition tickets :: "step list \<Rightarrow> nat list" where
  "tickets h = List.map_filter st_ticket h"

definition represents :: "instant \<Rightarrow> step list \<Rightarrow> pacing \<Rightarrow> bool" where
  "represents base h p \<longleftrightarrow>
     (\<forall>F. slots (filter (kept F) (pc_steps p)) (pc_base p) = slots (filter (kept F) h) base) \<and>
     tickets (pc_steps p) = tickets h \<and> distinct (tickets h)"

lemma tickets_simps [simp]:
  "tickets [] = []"
  "tickets (s # h) = (case st_ticket s of None \<Rightarrow> tickets h | Some t \<Rightarrow> t # tickets h)"
  "tickets (g @ h) = tickets g @ tickets h"
  by (simp_all add: tickets_def List.map_filter_simps map_filter_def split: option.split)

lemma in_tickets: "t \<in> set (tickets h) \<longleftrightarrow> Some t \<in> st_ticket ` set h"
  by (induction h) (auto split: option.splits)

lemma slots_simps [simp]:
  "slots [] at = at"
  "slots (s # h) at = slots h (slot s at)"
  "slots (g @ h) at = slots h (slots g at)"
  by (simp_all add: slots_def)

lemma slots_mono: "a \<le> b \<Longrightarrow> slots h a \<le> slots h b"
proof (induction h arbitrary: a b)
  case (Cons s h)
  then have "slot s a \<le> slot s b" by (auto simp: slot_def)
  with Cons.IH show ?case by simp
qed simp

lemma slots_ge: "a \<le> slots h a"
proof (induction h arbitrary: a)
  case (Cons s h)
  have "a \<le> slot s a" by (simp add: slot_def)
  also have "\<dots> \<le> slots h (slot s a)" by (rule Cons.IH)
  finally show ?case by simp
qed simp

text \<open>Inside the range of an instant the saturating arithmetic is exact.\<close>

lemma step_apply_exact: "slot s a \<le> MAX_INSTANT \<Longrightarrow> step_apply now s a = slot s a"
  by (simp add: step_apply_def slot_def later_def checked_add_def)

lemma fold_exact: "slots h a \<le> MAX_INSTANT \<Longrightarrow> fold (step_apply now) h a = slots h a"
proof (induction h arbitrary: a)
  case (Cons s h)
  have "slot s a \<le> MAX_INSTANT" using slots_ge [of "slot s a" h] Cons.prems by simp
  with Cons show ?case by (simp add: step_apply_exact)
qed simp

lemma step_then_exact:
  assumes "slot t (slot s a) \<le> MAX_INSTANT"
  shows "slot (step_then now s t) b = slot t (slot s b)" and "st_ticket (step_then now s t) = st_ticket s"
proof -
  have fl: "slot t (st_floor s) \<le> MAX_INSTANT" and d: "st_delay s + st_delay t \<le> MAX_INSTANT"
    using assms by (auto simp: slot_def)
  from d have "st_delay s + st_delay t \<le> MAX_DURATION" by (simp add: MAX_INSTANT_def MAX_DURATION_def)
  then have "duration_add (st_delay s) (st_delay t) = st_delay s + st_delay t" by (simp add: duration_add_def)
  with step_apply_exact [OF fl] show "slot (step_then now s t) b = slot t (slot s b)"
    by (simp add: step_then_def slot_def max_def)
  show "st_ticket (step_then now s t) = st_ticket s" by (simp add: step_then_def)
qed

lemma merge_fixed_exact:
  assumes "slots h a \<le> MAX_INSTANT"
  shows "slots (filter (kept F) (merge_fixed now h)) b = slots (filter (kept F) h) b \<and>
     tickets (merge_fixed now h) = tickets h"
  using assms
proof (induction now h arbitrary: a b rule: merge_fixed.induct)
  case (1 now s t ss)
  show ?case
  proof (cases "st_ticket s = None \<and> st_ticket t = None")
    case True
    have "slot t (slot s a) \<le> MAX_INSTANT" using slots_ge [of "slot t (slot s a)" ss] 1(3) by simp
    note then_exact = step_then_exact [OF this]
    have "kept F s" "kept F t" "kept F (step_then now s t)" using True then_exact by (simp_all add: kept_def)
    with 1(1) [OF True, of a b] 1(3) then_exact True show ?thesis by simp
  next
    case False
    with 1(2) [of "slot s a"] 1(3) show ?thesis by (auto split: option.split)
  qed
qed auto

lemma prefix_exact:
  assumes "list_all (\<lambda>s. st_ticket s = None) g" and "slots g a \<le> MAX_INSTANT"
  shows "slots (filter (kept F) g) a = fold (step_apply now) g a" and "tickets g = []"
proof -
  from assms(1) have "filter (kept F) g = g" by (auto simp: list_all_iff kept_def filter_id_conv)
  with fold_exact [OF assms(2)] show "slots (filter (kept F) g) a = fold (step_apply now) g a" by simp
  from assms(1) show "tickets g = []" by (induction g) auto
qed

lemma slots_confirm: "slots (filter (kept F) (confirm t h)) a = slots (filter (kept (F - {t})) h) a"
  by (induction h arbitrary: a) (auto simp: confirm_def kept_def slot_def split: option.splits)

lemma slots_withdraw: "slots (filter (kept F) (withdraw t h)) a = slots (filter (kept (insert t F)) h) a"
  by (induction h arbitrary: a) (auto simp: withdraw_def kept_def split: option.splits)

lemma tickets_withdraw: "tickets (withdraw t h) = filter (\<lambda>u. u \<noteq> t) (tickets h)"
  by (induction h) (auto simp: withdraw_def split: option.splits)

lemma tickets_confirm: "tickets (confirm t h) = filter (\<lambda>u. u \<noteq> t) (tickets h)"
  by (induction h) (auto simp: confirm_def split: option.splits)

lemma settle_first_exact:
  "distinct (tickets h) \<Longrightarrow> settle_first t free h = (if free then withdraw t h else confirm t h)"
proof (induction h)
  case (Cons s h)
  show ?case
  proof (cases "st_ticket s = Some t")
    case True
    with Cons.prems have "Some t \<notin> st_ticket ` set h" by (simp add: in_tickets)
    then have "withdraw t h = h" "confirm t h = h"
      by (auto simp: withdraw_def confirm_def filter_id_conv image_iff intro!: map_idI)
    with True show ?thesis by (simp add: withdraw_def confirm_def)
  next
    case False
    have "distinct (tickets h)" using Cons.prems by (auto split: option.splits)
    with Cons.IH False show ?thesis by (auto simp: withdraw_def confirm_def)
  qed
qed (simp add: withdraw_def confirm_def)

lemma kept_none [simp]: "kept {} s"
  by (simp add: kept_def split: option.splits)

lemma slots_filter_le: "slots (filter P h) a \<le> slots h a"
proof (induction h arbitrary: a)
  case (Cons s h)
  show ?case
  proof (cases "P s")
    case False
    have "slots (filter P h) a \<le> slots h a" by (rule Cons.IH)
    also have "\<dots> \<le> slots h (slot s a)" by (rule slots_mono) (simp add: slot_def)
    finally show ?thesis using False by simp
  qed (simp add: Cons.IH)
qed simp

lemma represents_slots: "represents base h p \<Longrightarrow> slots (pc_steps p) (pc_base p) = slots h base"
  unfolding represents_def by (metis filter_True kept_none)

lemma represents_deadline:
  "represents base h p \<Longrightarrow> slots h base \<le> MAX_INSTANT \<Longrightarrow> deadline now p = slots h base"
  by (simp add: deadline_def fold_exact represents_slots)

lemma represents_reserve:
  assumes "represents base h p" and "at + d \<le> MAX_INSTANT" and "t \<notin> set (tickets h)"
  shows "represents base (h @ [\<lparr>st_ticket = Some t, st_delay = d, st_floor = at + d\<rparr>]) (reserve now t at d p)"
proof -
  have "later now at d = at + d" using assms(2) by (simp add: later_def checked_add_def)
  with assms show ?thesis by (simp add: represents_def reserve_def)
qed

lemma represents_fixed:
  assumes rep: "represents base h p" and s: "st_ticket s = None" and room: "slots (h @ [s]) base \<le> MAX_INSTANT"
  shows "represents base (h @ [s]) (fixed now s p)"
proof -
  have all: "kept F s" for F using s by (simp add: kept_def)
  consider (empty) "pc_steps p = []" | (merged) "pc_steps p \<noteq> []" "st_ticket (last (pc_steps p)) = None"
    | (pushed) "pc_steps p \<noteq> []" "st_ticket (last (pc_steps p)) \<noteq> None" by blast
  then show ?thesis
  proof cases
    case empty
    have "slots h base = pc_base p" using represents_slots [OF rep] empty by simp
    then have "step_apply now s (pc_base p) = slot s (pc_base p)"
      using room by (intro step_apply_exact) simp
    with empty rep all s show ?thesis by (auto simp: represents_def fixed_def)
  next
    case merged
    obtain ss l where steps: "pc_steps p = ss @ [l]" using merged(1) by (metis append_butlast_last_id)
    have l: "st_ticket l = None" "\<And>F. kept F l" using merged(2) steps by (simp_all add: kept_def)
    have "slot s (slot l (slots ss (pc_base p))) \<le> MAX_INSTANT"
      using represents_slots [OF rep] room by (simp add: steps)
    note then_exact = step_then_exact [OF this]
    have keep: "kept F (step_then now l s)" for F using then_exact l by (simp add: kept_def)
    have run: "fixed now s p = p\<lparr>pc_steps := ss @ [step_then now l s]\<rparr>"
      using merged by (simp add: fixed_def steps)
    show ?thesis
      using rep all l s then_exact keep by (simp add: represents_def run steps)
  next
    case pushed
    then have run: "fixed now s p = p\<lparr>pc_steps := pc_steps p @ [s]\<rparr>" by (auto simp: fixed_def)
    show ?thesis using rep all s by (simp add: represents_def run)
  qed
qed

lemma represents_settle:
  assumes rep: "represents base h p" and room: "slots h base \<le> MAX_INSTANT"
  shows "represents base (if free then withdraw t h else confirm t h) (settle now t free p)"
proof (cases "Some t \<in> st_ticket ` set (pc_steps p)")
  case False
  then have "Some t \<notin> st_ticket ` set h" using rep by (metis in_tickets represents_def)
  then have "withdraw t h = h" "confirm t h = h"
    by (auto simp: withdraw_def confirm_def filter_id_conv image_iff intro!: map_idI)
  with False rep show ?thesis by (simp add: settle_def)
next
  case True
  let ?after = "\<lambda>h. if free then withdraw t h else confirm t h"
  define steps where "steps = ?after (pc_steps p)"
  let ?pre = "takeWhile (\<lambda>s. st_ticket s = None) (merge_fixed now steps)"
  let ?post = "dropWhile (\<lambda>s. st_ticket s = None) (merge_fixed now steps)"
  have "distinct (tickets (pc_steps p))" using rep by (simp add: represents_def)
  then have run: "settle now t free p = \<lparr>pc_base = fold (step_apply now) ?pre (pc_base p), pc_steps = ?post\<rparr>"
    using True by (simp add: settle_def settle_first_exact Let_def steps_def)
  have full: "slots (pc_steps p) (pc_base p) \<le> MAX_INSTANT" using represents_slots [OF rep] room by simp
  have steps_room: "slots steps (pc_base p) \<le> MAX_INSTANT"
  proof -
    have "slots (filter (kept {}) steps) (pc_base p) \<le> slots (pc_steps p) (pc_base p)"
      by (simp add: steps_def slots_withdraw slots_confirm slots_filter_le del: kept_none filter_True)
    with full show ?thesis by simp
  qed
  note merged = merge_fixed_exact [OF steps_room]
  have "slots (merge_fixed now steps) (pc_base p) = slots steps (pc_base p)"
    using merged [of "{}" now "pc_base p"] by simp
  then have "slots ?post (slots ?pre (pc_base p)) \<le> MAX_INSTANT"
    using steps_room slots_simps(3) [of ?pre ?post "pc_base p"] by simp
  then have "slots ?pre (pc_base p) \<le> MAX_INSTANT"
    using slots_ge [of "slots ?pre (pc_base p)" ?post] by (rule order_trans [rotated])
  moreover have fixed: "list_all (\<lambda>s. st_ticket s = None) ?pre" by (auto simp: list_all_iff dest: set_takeWhileD)
  ultimately have pre: "slots (filter (kept F) ?pre) (pc_base p) = fold (step_apply now) ?pre (pc_base p)"
    "tickets ?pre = []" for F using prefix_exact by blast+
  have split: "merge_fixed now steps = ?pre @ ?post" by simp
  have "slots (filter (kept F) ?post) (fold (step_apply now) ?pre (pc_base p)) =
      slots (filter (kept F) (?after h)) base" for F
  proof -
    have "slots (filter (kept F) ?post) (fold (step_apply now) ?pre (pc_base p)) =
        slots (filter (kept F) (merge_fixed now steps)) (pc_base p)"
      by (subst split, subst filter_append) (simp only: slots_simps pre)
    also have "\<dots> = slots (filter (kept F) (?after (pc_steps p))) (pc_base p)"
      using merged by (simp add: steps_def)
    also have "\<dots> = slots (filter (kept F) (?after h)) base"
      using rep by (simp add: represents_def slots_withdraw slots_confirm)
    finally show ?thesis .
  qed
  moreover have "tickets ?post = tickets (?after h)"
  proof -
    have "tickets (merge_fixed now steps) = tickets ?pre @ tickets ?post" by (subst split, simp only: tickets_simps)
    moreover have "tickets (merge_fixed now steps) = tickets steps" using merged by simp
    ultimately have "tickets ?post = tickets steps" using pre(2) by simp
    then show ?thesis using rep by (simp add: steps_def represents_def tickets_withdraw tickets_confirm)
  qed
  moreover have "distinct (tickets (?after h))"
    using rep by (simp add: represents_def tickets_withdraw tickets_confirm)
  ultimately show ?thesis by (simp add: represents_def run)
qed

text \<open>Room for the whole run, from bounds on its times and the sum of its delays.\<close>

lemma slots_bound:
  assumes "base \<le> K" and "\<forall>s \<in> set h. st_floor s \<le> K + st_delay s"
  shows "slots h base \<le> K + sum_list (List.map st_delay h)"
  using assms
proof (induction h arbitrary: base K)
  case (Cons s h)
  have "slot s base \<le> K + st_delay s" using Cons.prems by (auto simp: slot_def)
  moreover have "\<forall>u \<in> set h. st_floor u \<le> (K + st_delay s) + st_delay u" using Cons.prems(2) by fastforce
  ultimately show ?case using Cons.IH [of "slot s base" "K + st_delay s"] by (simp add: add.assoc)
qed simp

definition within :: "instant \<Rightarrow> step list \<Rightarrow> bool" where
  "within K h \<longleftrightarrow> (\<forall>s \<in> set h. st_floor s \<le> K + st_delay s)"

lemma within_after: "within K h \<Longrightarrow> within K (if free then withdraw t h else confirm t h)"
  by (auto simp: within_def withdraw_def confirm_def)

lemma delays_after:
  "sum_list (List.map st_delay (if free then withdraw t h else confirm t h)) \<le> sum_list (List.map st_delay h)"
  by (induction h) (auto simp: withdraw_def confirm_def)

lemma tickets_after: "set (tickets (if free then withdraw t h else confirm t h)) \<subseteq> set (tickets h)"
  by (auto simp: tickets_withdraw tickets_confirm)

lemma pacing_run_represents:
  assumes "represents base h p" and "base \<le> K" and "within K h"
    and "\<forall>op \<in> set ops. op_time op \<le> K"
    and "K + sum_list (List.map st_delay h) + sum_list (List.map op_delay ops) \<le> MAX_INSTANT"
    and "set (tickets h) \<subseteq> used" and "fresh_tickets ops used"
  shows "represents base (history ops h) (pacing_run now ops p) \<and> slots (history ops h) base \<le> MAX_INSTANT"
  using assms
proof (induction ops arbitrary: h p used)
  case Nil
  with slots_bound [of base K h] show ?case by (simp add: within_def)
next
  case (Cons op ops)
  have here: "slots h base \<le> MAX_INSTANT"
    using slots_bound [of base K h] Cons.prems by (simp add: within_def)
  have fix_case: "represents base (h @ [s]) (fixed now s p) \<and> within K (h @ [s])"
    if "st_ticket s = None" "st_floor s \<le> K + st_delay s" "st_delay s = op_delay op" for s
  proof -
    have "within K (h @ [s])" using Cons.prems(3) that(2) by (simp add: within_def)
    moreover from this slots_bound [of base K "h @ [s]"] Cons.prems(2,5) that(3)
    have "slots (h @ [s]) base \<le> MAX_INSTANT" by (simp add: within_def)
    ultimately show ?thesis using represents_fixed [OF Cons.prems(1) that(1)] by blast
  qed
  show ?case
  proof (cases op)
    case (Reserve t at d)
    have "at + d \<le> MAX_INSTANT" using Cons.prems(4,5) Reserve by simp
    moreover have "t \<notin> set (tickets h)" using Cons.prems(6,7) Reserve by auto
    ultimately have "represents base (h @ [\<lparr>st_ticket = Some t, st_delay = d, st_floor = at + d\<rparr>]) (reserve now t at d p)"
      using represents_reserve [OF Cons.prems(1)] by blast
    with Cons.IH [OF this Cons.prems(2), of "insert t used"] Cons.prems(3-7) Reserve show ?thesis
      by (auto simp: within_def add.assoc)
  next
    case (Charge at d)
    have "at + d \<le> MAX_INSTANT" using Cons.prems(4,5) Charge by simp
    then have "later now at d = at + d" by (simp add: later_def checked_add_def)
    with fix_case [of "\<lparr>st_ticket = None, st_delay = d, st_floor = at + d\<rparr>"] Cons.prems(4) Charge
    have "represents base (h @ [\<lparr>st_ticket = None, st_delay = d, st_floor = at + d\<rparr>]) (charge now at d p)"
      "within K (h @ [\<lparr>st_ticket = None, st_delay = d, st_floor = at + d\<rparr>])" by (simp_all add: charge_def)
    with Cons.IH [OF this(1) Cons.prems(2) this(2), of used] Cons.prems(4-7) Charge show ?thesis
      by (simp add: add.assoc)
  next
    case (Raise_floor t)
    with fix_case [of "\<lparr>st_ticket = None, st_delay = 0, st_floor = t\<rparr>"] Cons.prems(4)
    have "represents base (h @ [\<lparr>st_ticket = None, st_delay = 0, st_floor = t\<rparr>]) (raise_floor now t p)"
      "within K (h @ [\<lparr>st_ticket = None, st_delay = 0, st_floor = t\<rparr>])" by (simp_all add: raise_floor_def)
    with Cons.IH [OF this(1) Cons.prems(2) this(2), of used] Cons.prems(4-7) Raise_floor show ?thesis by simp
  next
    case (Settle t free)
    from represents_settle [OF Cons.prems(1) here, of free t now]
    have "represents base (if free then withdraw t h else confirm t h) (settle now t free p)" .
    from Cons.IH [OF this Cons.prems(2) within_after [OF Cons.prems(3)], of used]
      Cons.prems(4-7) Settle tickets_after [of free t h] delays_after [of free t h]
    show ?thesis by (auto split: if_splits)
  qed
qed

section \<open>Its size\<close>

text \<open>The head is a reservation and no two permanent steps are adjacent.\<close>

fun spread :: "step list \<Rightarrow> bool" where
  "spread (s # t # ss) = ((st_ticket s \<noteq> None \<or> st_ticket t \<noteq> None) \<and> spread (t # ss))"
| "spread _ = True"

definition compact :: "pacing \<Rightarrow> bool" where
  "compact p \<longleftrightarrow> spread (pc_steps p) \<and> (pc_steps p = [] \<or> st_ticket (hd (pc_steps p)) \<noteq> None)"

lemma spread_snoc:
  "spread (ss @ [s]) \<longleftrightarrow> spread ss \<and> (ss = [] \<or> st_ticket (last ss) \<noteq> None \<or> st_ticket s \<noteq> None)"
  by (induction ss rule: spread.induct) auto

lemma spread_tl: "spread (s # ss) \<Longrightarrow> spread ss"
  by (cases ss) auto

lemma spread_merge: "spread (merge_fixed now ss) \<and> (ss \<noteq> [] \<longrightarrow>
    merge_fixed now ss \<noteq> [] \<and> (st_ticket (hd (merge_fixed now ss)) = st_ticket (hd ss)))"
proof (induction now ss rule: merge_fixed.induct)
  case (1 now s t ss)
  show ?case
  proof (cases "st_ticket s = None \<and> st_ticket t = None")
    case True
    with 1(1) [OF True] show ?thesis by (simp add: step_then_def)
  next
    case False
    from 1(2) [OF False] obtain u us where "merge_fixed now (t # ss) = u # us" "st_ticket u = st_ticket t"
      "spread (u # us)" by (cases "merge_fixed now (t # ss)") auto
    with False show ?thesis by auto
  qed
qed auto

lemma spread_dropWhile: "spread ss \<Longrightarrow> spread (dropWhile P ss)"
  by (induction ss) (auto dest: spread_tl)

lemma compact_run: "compact p \<Longrightarrow> compact (pacing_run now ops p)"
proof (induction ops arbitrary: p)
  case (Cons op ops)
  have fixed: "compact (fixed now s p)" if "st_ticket s = None" for s
  proof (cases "pc_steps p = []")
    case False
    then obtain ss l where ss: "pc_steps p = ss @ [l]" by (metis append_butlast_last_id)
    have "hd (ss @ [l]) = hd (ss @ [m])" if "ss \<noteq> []" for m using that by simp
    with Cons.prems that show ?thesis
      by (cases "ss = []") (auto simp: compact_def fixed_def ss spread_snoc spread_snoc [of "ss @ [l]", simplified] step_then_def)
  qed (simp add: compact_def fixed_def)
  show ?case
  proof (cases op)
    case (Reserve t at d)
    have "compact (reserve now t at d p)"
      using Cons.prems by (cases "pc_steps p = []") (simp_all add: compact_def reserve_def spread_snoc)
    with Cons.IH Reserve show ?thesis by simp
  next
    case (Settle t free)
    let ?steps = "merge_fixed now (settle_first t free (pc_steps p))"
    let ?rest = "dropWhile (\<lambda>s. st_ticket s = None) ?steps"
    have "spread ?rest" using spread_merge spread_dropWhile by blast
    moreover have "?rest = [] \<or> st_ticket (hd ?rest) \<noteq> None" using hd_dropWhile by blast
    ultimately have "compact (settle now t free p)"
      using Cons.prems by (simp add: settle_def compact_def Let_def)
    with Cons.IH Settle show ?thesis by simp
  qed (use Cons.IH fixed in \<open>simp_all add: charge_def raise_floor_def\<close>)
qed simp

lemma spread_length: "spread ss \<Longrightarrow> length ss \<le> 2 * length (tickets ss) + 1 \<and>
    (ss \<noteq> [] \<and> st_ticket (hd ss) \<noteq> None \<longrightarrow> length ss \<le> 2 * length (tickets ss))"
proof (induction ss rule: spread.induct)
  case (1 s t ss)
  then show ?case by (auto split: option.splits)
qed (auto split: option.splits)

lemma compact_length: "compact p \<Longrightarrow> length (pc_steps p) \<le> 2 * length (tickets (pc_steps p))"
  using spread_length [of "pc_steps p"] by (auto simp: compact_def)

section \<open>Properties\<close>

text \<open>
  C8. A withdrawn reservation leaves no trace: after any sequence of reservations,
  charges, floors and settlements the deadline is that of the plain history in which the
  reservations that turned out free never happened and the charged ones are permanent.
\<close>

theorem pacing_refines_history:
  assumes "base \<le> K" and "\<forall>op \<in> set ops. op_time op \<le> K"
    and "K + sum_list (List.map op_delay ops) \<le> MAX_INSTANT" and "fresh_tickets ops {}"
  shows "deadline now (pacing_run now ops (pacing_new base)) = slots (history ops []) base"
proof -
  have "represents base [] (pacing_new base)" by (simp add: represents_def pacing_new_def)
  from pacing_run_represents [OF this assms(1) _ assms(2) _ _ assms(4), of now] assms(3)
  show ?thesis by (auto intro: represents_deadline simp: within_def)
qed

theorem pacing_refines_history_witness:
  "deadline 0 (pacing_run 0 [Reserve 1 100 10, Charge 105 5, Reserve 2 107 10, Settle 1 True, Settle 2 False]
     (pacing_new 90)) = 120"
proof -
  have "deadline 0 (pacing_run 0 [Reserve 1 100 10, Charge 105 5, Reserve 2 107 10, Settle 1 True, Settle 2 False]
      (pacing_new 90)) =
    slots (history [Reserve 1 100 10, Charge 105 5, Reserve 2 107 10, Settle 1 True, Settle 2 False] []) 90"
    by (rule pacing_refines_history [of _ 107]) (simp_all add: MAX_INSTANT_def)
  then show ?thesis by (simp add: withdraw_def confirm_def slot_def)
qed

text \<open>
  The queue stays small: it never holds more than two steps per reservation that is
  still in flight, however many charges and settlements have passed.
\<close>

theorem pacing_is_compact:
  shows "length (pc_steps (pacing_run now ops (pacing_new base))) \<le>
    2 * length (filter (\<lambda>s. st_ticket s \<noteq> None) (pc_steps (pacing_run now ops (pacing_new base))))"
proof -
  have "compact (pacing_new base)" by (simp add: compact_def pacing_new_def)
  then have "compact (pacing_run now ops (pacing_new base))" by (rule compact_run)
  moreover have "length (tickets h) = length (filter (\<lambda>s. st_ticket s \<noteq> None) h)" for h
    by (induction h) (auto split: option.splits)
  ultimately show ?thesis using compact_length by metis
qed

end
