(* ===== verification/Quota.thy ===== *)
theory Quota
  imports Complex_Main Pacing
begin

text \<open>
  How the GitHub reader spends its allowances (\<open>src/packages/hey-gh/src/scheduler.rs\<close> with
  \<open>scheduler/inflight.rs\<close> and \<open>scheduler/waiters.rs\<close>): quota windows and their pacing,
  the lanes of concurrent requests, the rotation between quotas, the shared back-off, and
  the order in which queued jobs become ready. Each operation reads the clock once.
\<close>

section \<open>Clock and arithmetic\<close>

record clock =
  ck_now :: instant
  ck_ms :: nat \<comment> \<open>\<open>now_ms\<close>\<close>

definition MAX_U64 :: nat where "MAX_U64 = 2 ^ 64 - 1"

definition u64_add :: "nat \<Rightarrow> nat \<Rightarrow> nat" where "u64_add a b = min (a + b) MAX_U64"
definition u64_mul :: "nat \<Rightarrow> nat \<Rightarrow> nat" where "u64_mul a b = min (a * b) MAX_U64"

definition millis :: "nat \<Rightarrow> duration" where "millis n = n * 1000000"

text \<open>
  An \<open>f64\<close> is a rational; the rounding of each operation to the nearest double is the
  parameter \<open>R\<close>. \<open>from_secs_f64\<close> rounds to the nearest nanosecond, ties to even.
\<close>

type_synonym rounding = "rat \<Rightarrow> rat"

definition nearest_even :: "rat \<Rightarrow> nat" where
  "nearest_even x =
     (let n = nat \<lfloor>x\<rfloor>; d = x - of_int \<lfloor>x\<rfloor> in
      if d < 1 / 2 then n else if d > 1 / 2 then n + 1 else if even n then n else n + 1)"

definition from_secs_f64 :: "rat \<Rightarrow> duration" where
  "from_secs_f64 x = nearest_even (x * 1000000000)"

definition MAX_ACTIVE_BUCKETS :: nat where "MAX_ACTIVE_BUCKETS = 3"
definition QUOTA_RESERVE :: nat where "QUOTA_RESERVE = 100"

definition max_active_buckets :: "string option \<Rightarrow> nat" where
  "max_active_buckets host = (if host = Some ''api.github.com'' then 8 else MAX_ACTIVE_BUCKETS)"

section \<open>Deadlines of waiting callers\<close>

text \<open>The ordered map from a deadline to the number of callers that wait until it.\<close>

type_synonym waiting = "(instant \<times> nat) list"

fun register :: "instant \<Rightarrow> waiting \<Rightarrow> waiting" where
  "register due [] = [(due, 1)]"
| "register due ((t, n) # ws) =
     (if due < t then (due, 1) # (t, n) # ws else if due = t then (t, n + 1) # ws else (t, n) # register due ws)"

fun unregister :: "instant \<Rightarrow> waiting \<Rightarrow> waiting" where
  "unregister due [] = []"
| "unregister due ((t, n) # ws) =
     (if due = t then (if n - 1 = 0 then ws else (t, n - 1) # ws) else (t, n) # unregister due ws)"

definition earliest :: "waiting \<Rightarrow> instant option" where
  "earliest ws = (case ws of [] \<Rightarrow> None | (t, _) # _ \<Rightarrow> Some t)"

text \<open>\<open>extend\<close> moves one caller to a later deadline; it returns the caller's deadline too.\<close>

definition extend_waiter :: "instant \<Rightarrow> instant \<Rightarrow> waiting \<Rightarrow> instant \<times> waiting" where
  "extend_waiter mine due ws = (if due > mine then (due, register due (unregister mine ws)) else (mine, ws))"

section \<open>Recently completed requests\<close>

record flights =
  fl_sequence :: "64 word"
  fl_completed :: "(string \<times> 64 word) list"

definition completed_since :: "string \<Rightarrow> 64 word \<Rightarrow> flights \<Rightarrow> bool" where
  "completed_since key n f =
     (case find (\<lambda>(k, _). k = key) (rev (fl_completed f)) of None \<Rightarrow> False | Some (_, c) \<Rightarrow> c > n)"

definition record_success :: "string \<Rightarrow> flights \<Rightarrow> flights" where
  "record_success key f =
     (let n = fl_sequence f + 1;
          log = (if n = 0 then [] else fl_completed f);
          log = (if length log = 128 then tl log else log)
      in \<lparr>fl_sequence = n, fl_completed = log @ [(key, n)]\<rparr>)"

section \<open>Jobs\<close>

record cached =
  ca_revalidated :: bool
  ca_etag :: bool
  ca_last_modified :: bool

record job =
  j_id :: string
  j_installation :: bool
  j_minting :: bool
  j_interactive :: bool
  j_report_priority :: bool
  j_required :: bool
  j_detail_lane :: bool
  j_collection_slice :: bool
  j_body :: bool
  j_cached :: "cached option"
  j_resource :: string
  j_queued_at :: instant
  j_ready_at :: instant
  j_deadline :: instant
  j_waiting :: waiting
  j_protected :: "(nat \<times> instant) list"

definition interactive :: "job \<Rightarrow> bool" where
  "interactive j \<longleftrightarrow> j_interactive j \<or> j_report_priority j"

definition background_collection :: "job \<Rightarrow> bool" where
  "background_collection j \<longleftrightarrow> j_collection_slice j \<and> \<not> interactive j"

definition quota_of :: "job \<Rightarrow> string" where
  "quota_of j = (if j_installation j then ''installation/'' @ j_resource j else j_resource j)"

definition rest_quota :: "job \<Rightarrow> string" where
  "rest_quota j = (if j_installation j then ''installation/core'' else ''core'')"

definition defers_optional :: "(string \<rightharpoonup> bool) \<Rightarrow> job \<Rightarrow> bool" where
  "defers_optional required j \<longleftrightarrow> j_body j \<and> \<not> j_minting j \<and> \<not> j_required j \<and>
     (case required (quota_of j) of None \<Rightarrow> False | Some foreground \<Rightarrow> foreground \<or> \<not> interactive j)"

definition scheduling_deadline :: "job \<Rightarrow> instant" where
  "scheduling_deadline j = (case earliest (j_waiting j) of None \<Rightarrow> j_deadline j | Some t \<Rightarrow> t)"

section \<open>Rotation between quotas\<close>

type_synonym quota_order = "(string \<times> bool) list"

fun position :: "'a \<Rightarrow> 'a list \<Rightarrow> nat option" where
  "position x [] = None"
| "position x (y # ys) = (if x = y then Some 0 else map_option Suc (position x ys))"

text \<open>\<open>None\<close> is smaller than every position; \<open>min_by_key\<close> returns the first minimum.\<close>

definition option_le :: "nat option \<Rightarrow> nat option \<Rightarrow> bool" where
  "option_le a b = (case a of None \<Rightarrow> True | Some m \<Rightarrow> (case b of None \<Rightarrow> False | Some n \<Rightarrow> m \<le> n))"

fun min_by_position :: "quota_order \<Rightarrow> (string \<times> bool) list \<Rightarrow> (string \<times> bool) option" where
  "min_by_position order [] = None"
| "min_by_position order (q # qs) =
     (case min_by_position order qs of
        None \<Rightarrow> Some q
      | Some r \<Rightarrow> if option_le (position q order) (position r order) then Some q else Some r)"

definition choose_quota :: "quota_order \<Rightarrow> (string \<times> bool) list \<Rightarrow> (string \<times> bool) option" where
  "choose_quota order qs = min_by_position order qs"

definition dispatched :: "string \<times> bool \<Rightarrow> nat \<Rightarrow> quota_order \<Rightarrow> quota_order" where
  "dispatched q capacity order =
     (let rest = filter (\<lambda>r. r \<noteq> q) order;
          rest = (if length rest \<ge> capacity then tl rest else rest)
      in rest @ [q])"

section \<open>Lanes\<close>

record active =
  ac_resource :: string
  ac_detail_lane :: bool

definition count :: "('a \<Rightarrow> bool) \<Rightarrow> 'a list \<Rightarrow> nat" where
  "count P xs = length (filter P xs)"

definition core_lane_busy :: "active list \<Rightarrow> bool \<Rightarrow> bool" where
  "core_lane_busy as wide \<longleftrightarrow>
     count (\<lambda>a. \<not> ac_detail_lane a) as \<ge> (if wide then 6 else 2) \<or>
     count (\<lambda>a. \<not> ac_detail_lane a \<and> ac_resource a = ''core'') as \<ge> (if wide then 5 else 1)"

definition lane_busy :: "active list \<Rightarrow> job \<Rightarrow> bool \<Rightarrow> bool" where
  "lane_busy as j wide \<longleftrightarrow>
     (if \<not> j_detail_lane j \<and> j_resource j = ''core'' then core_lane_busy as wide
      else if \<not> wide then
        (if j_detail_lane j then list_ex ac_detail_lane as
         else count (\<lambda>a. \<not> ac_detail_lane a) as \<ge> 2 \<or>
              list_ex (\<lambda>a. \<not> ac_detail_lane a \<and> ac_resource a = j_resource j) as)
      else if j_detail_lane j then count ac_detail_lane as \<ge> 2
      else count (\<lambda>a. \<not> ac_detail_lane a) as \<ge> 6 \<or>
           count (\<lambda>a. \<not> ac_detail_lane a \<and> ac_resource a = j_resource j) as \<ge> 2)"

section \<open>The shared back-off\<close>

record backoff =
  bo_until :: instant
  bo_episodes :: nat \<comment> \<open>\<open>u32\<close>\<close>

definition backoff_extend :: "instant \<Rightarrow> duration \<Rightarrow> backoff \<Rightarrow> backoff" where
  "backoff_extend now wait b = b\<lparr>bo_until := max (bo_until b) (quota_deadline now wait)\<rparr>"

definition backoff_observe ::
    "instant \<Rightarrow> duration \<Rightarrow> duration option \<Rightarrow> backoff \<Rightarrow> backoff \<times> instant" where
  "backoff_observe now jitter retry b =
     (if now < bo_until b then
        (let b = (case retry of None \<Rightarrow> b | Some wait \<Rightarrow> backoff_extend now wait b) in (b, bo_until b))
      else
        let b = (if now - bo_until b \<ge> secs (15 * 60) then b\<lparr>bo_episodes := 0\<rparr> else b);
            fallback = secs (min (60 * 2 ^ min (bo_episodes b) 4) (15 * 60)) + jitter;
            wait = (if bo_episodes b = 0 then (case retry of None \<Rightarrow> fallback | Some w \<Rightarrow> w)
                    else max (case retry of None \<Rightarrow> 0 | Some w \<Rightarrow> w) fallback);
            b = backoff_extend now wait (b\<lparr>bo_episodes := min (bo_episodes b + 1) (2 ^ 32 - 1)\<rparr>)
        in (b, bo_until b))"

definition transient_backoff :: "nat \<Rightarrow> duration \<Rightarrow> duration" where
  "transient_backoff attempt jitter = secs (2 ^ min (attempt - 1) 6) + jitter"

definition ceil_seconds :: "duration \<Rightarrow> nat" where
  "ceil_seconds d = u64_add (d div 1000000000) (if d mod 1000000000 > 0 then 1 else 0)"

section \<open>Quota windows\<close>

record usage =
  us_since :: instant
  us_remaining :: nat
  us_charged :: nat
  us_share :: rat

definition usage_new :: "nat \<Rightarrow> instant \<Rightarrow> usage" where
  "usage_new remaining now = \<lparr>us_since = now, us_remaining = remaining, us_charged = 0, us_share = 1\<rparr>"

definition usage_observe :: "rounding \<Rightarrow> nat \<Rightarrow> bool \<Rightarrow> instant \<Rightarrow> bool \<Rightarrow> usage \<Rightarrow> usage" where
  "usage_observe R remaining charged now waited u =
     (let u = u\<lparr>us_charged := us_charged u + (if charged then 1 else 0)\<rparr>;
          elapsed = now - us_since u
      in if elapsed \<ge> secs 30 then
           \<lparr>us_since = now, us_remaining = remaining, us_charged = 0,
            us_share = (if us_charged u > 0 \<and> (waited \<or> (us_charged u \<ge> 4 \<and> elapsed \<le> secs 60))
              then max (R (R (of_nat (us_remaining u - remaining)) / R (of_nat (us_charged u)))) 1
              else 1)\<rparr>
         else u)"

definition usage_spacing :: "rounding \<Rightarrow> nat \<Rightarrow> nat \<Rightarrow> usage \<Rightarrow> duration" where
  "usage_spacing R remaining seconds u =
     (let spendable = remaining - QUOTA_RESERVE in
      if spendable = 0 then secs (u64_add seconds 1)
      else from_secs_f64 (min (R (R (R (of_nat seconds) * us_share u) / R (of_nat spendable))) 86400))"

record budget =
  b_next :: instant
  b_pacing :: pacing
  b_remaining :: nat
  b_spacing :: duration
  b_reset :: nat
  b_usage :: usage

text \<open>The windows of a quota, ordered by their reset.\<close>

type_synonym windows = "(nat \<times> budget) list"
type_synonym budgets = "string \<Rightarrow> windows"

fun window_put :: "nat \<Rightarrow> budget \<Rightarrow> windows \<Rightarrow> windows" where
  "window_put r b [] = [(r, b)]"
| "window_put r b ((s, c) # ws) =
     (if r < s then (r, b) # (s, c) # ws else if r = s then (r, b) # ws else (s, c) # window_put r b ws)"

record reserved =
  rv_dispatched :: instant
  rv_waited :: bool
  rv_probe :: bool

record probe =
  pb_quota :: string
  pb_windows :: "(nat \<times> instant) list"

record reservation =
  rs_ticket :: nat
  rs_resource :: string
  rs_resets :: "(nat \<times> bool) list"
  rs_dispatched :: instant

definition for_window :: "string \<Rightarrow> nat \<Rightarrow> reservation \<Rightarrow> reserved option" where
  "for_window resource reset r =
     (if rs_resource r \<noteq> resource then None
      else map_option (\<lambda>(_, waited). \<lparr>rv_dispatched = rs_dispatched r, rv_waited = waited, rv_probe = False\<rparr>)
             (find (\<lambda>(w, _). w = reset) (rs_resets r)))"

definition observation :: "instant \<Rightarrow> string \<Rightarrow> nat \<Rightarrow> instant \<Rightarrow> probe \<Rightarrow> reserved option" where
  "observation now quota reset queued_at p =
     (if pb_quota p \<noteq> quota then None
      else map_option (\<lambda>(_, t). \<lparr>rv_dispatched = now, rv_waited = queued_at < t, rv_probe = True\<rparr>)
             (find (\<lambda>(w, _). w = reset) (pb_windows p)))"

text \<open>\<open>resource.rsplit('/').next()\<close>: what follows the last slash.\<close>

definition shared_quota :: "string \<Rightarrow> bool" where
  "shared_quota resource \<longleftrightarrow>
     rev (takeWhile (\<lambda>c. c \<noteq> CHR ''/'') (rev resource)) \<in> {''core'', ''graphql''}"

definition for_resource :: "clock \<Rightarrow> string \<Rightarrow> budgets \<Rightarrow> budget list" where
  "for_resource ck resource bs =
     filter (\<lambda>b. b_reset b = 0 \<or> u64_add (b_reset b) 1 > ck_ms ck div 1000) (List.map snd (bs resource))"

definition rest_fallback_has_headroom :: "clock \<Rightarrow> job \<Rightarrow> budgets \<Rightarrow> bool" where
  "rest_fallback_has_headroom ck j bs \<longleftrightarrow>
     list_all (\<lambda>b. b_remaining b > QUOTA_RESERVE) (for_resource ck (rest_quota j) bs)"

definition probe_of :: "clock \<Rightarrow> string \<Rightarrow> budgets \<Rightarrow> probe" where
  "probe_of ck quota bs =
     \<lparr>pb_quota = quota, pb_windows = List.map (\<lambda>b. (b_reset b, b_next b)) (for_resource ck quota bs)\<rparr>"

definition charge_window :: "instant \<Rightarrow> budget \<Rightarrow> budget" where
  "charge_window now b =
     (let p = (if b_remaining b > QUOTA_RESERVE then charge now now (b_spacing b) (b_pacing b) else b_pacing b)
      in b\<lparr>b_pacing := p, b_next := deadline now p\<rparr>)"

definition charge_probe :: "instant \<Rightarrow> probe \<Rightarrow> budgets \<Rightarrow> budgets" where
  "charge_probe now p bs = bs(pb_quota p :=
     fold (\<lambda>(reset, _) ws. List.map (\<lambda>(r, b). (r, if r = reset then charge_window now b else b)) ws)
       (pb_windows p) (bs (pb_quota p)))"

definition conditional_budget_exempt :: "job \<Rightarrow> budget \<Rightarrow> bool" where
  "conditional_budget_exempt j b \<longleftrightarrow> \<not> j_body j \<and> b_remaining b > QUOTA_RESERVE \<and>
     (case j_cached j of None \<Rightarrow> False
      | Some c \<Rightarrow> ca_revalidated c \<and> (ca_etag c \<or> ca_last_modified c))"

text \<open>\<open>as u64\<close> of a float saturates.\<close>

definition ceil_u64 :: "rat \<Rightarrow> nat" where
  "ceil_u64 x = min (nat \<lceil>x\<rceil>) MAX_U64"

definition pacing_probe_eligible :: "job \<Rightarrow> budget \<Rightarrow> bool" where
  "pacing_probe_eligible j b \<longleftrightarrow> b_remaining b > QUOTA_RESERVE + 1 \<and>
     (conditional_budget_exempt j b \<or>
      (interactive j \<and> j_resource j = ''core'' \<and> \<not> j_body j \<and>
       (case j_cached j of None \<Rightarrow> False | Some c \<Rightarrow> ca_etag c \<or> ca_last_modified c)) \<or>
      ((interactive j \<or> \<not> j_required j) \<and> j_resource j = ''graphql'' \<and> j_body j \<and>
       b_remaining b - QUOTA_RESERVE > ceil_u64 (us_share (b_usage b))))"

definition live_window :: "clock \<Rightarrow> nat \<times> budget \<Rightarrow> bool" where
  "live_window ck = (\<lambda>(r, b). u64_add r 1 > ck_ms ck div 1000 \<or> (r = 0 \<and> b_next b > ck_now ck))"

definition charge_others :: "nat \<Rightarrow> windows \<Rightarrow> windows" where
  "charge_others reset ws = List.map (\<lambda>(r, b). (r, if r \<noteq> reset
     then b\<lparr>b_usage := (b_usage b)\<lparr>us_charged := us_charged (b_usage b) + 1\<rparr>\<rparr> else b)) ws"

definition observe_window ::
    "rounding \<Rightarrow> clock \<Rightarrow> string \<Rightarrow> nat \<Rightarrow> nat \<Rightarrow> bool \<Rightarrow> reserved option \<Rightarrow> budget option \<Rightarrow> budget" where
  "observe_window R ck resource remaining reset unchanged reservation previous =
     (let now = ck_now ck;
          remaining = (case previous of None \<Rightarrow> remaining | Some b \<Rightarrow> min (b_remaining b) remaining);
          usage = (case previous of
                     None \<Rightarrow> usage_new remaining now
                   | Some b \<Rightarrow> usage_observe R remaining (\<not> unchanged) now
                       (case reservation of None \<Rightarrow> False | Some r \<Rightarrow> rv_waited r) (b_usage b));
          seconds = reset - ck_ms ck div 1000;
          spacing = (if remaining = 0 then secs (u64_add seconds 1)
                     else if shared_quota resource then usage_spacing R remaining seconds usage
                     else from_secs_f64 (R (R (of_nat seconds) / R (R (of_nat remaining) + 1))));
          pacing = (case previous of None \<Rightarrow> pacing_new now | Some b \<Rightarrow> b_pacing b);
          hard = remaining = 0 \<or> (shared_quota resource \<and> remaining \<le> QUOTA_RESERVE);
          pacing = (if hard \<or> (\<not> unchanged \<and> \<not> (case reservation of None \<Rightarrow> False | Some r \<Rightarrow> rv_probe r))
            then
              let anchor = (if hard then now
                            else case reservation of None \<Rightarrow> now | Some r \<Rightarrow> rv_dispatched r)
              in raise_floor now (case checked_add anchor spacing of Some t \<Rightarrow> t
                                  | None \<Rightarrow> quota_deadline now (secs 86400)) pacing
            else pacing)
      in \<lparr>b_next = deadline now pacing, b_pacing = pacing, b_remaining = remaining, b_spacing = spacing,
          b_reset = reset, b_usage = usage\<rparr>)"

definition observe ::
    "rounding \<Rightarrow> clock \<Rightarrow> string \<Rightarrow> nat \<Rightarrow> nat \<Rightarrow> bool \<Rightarrow> reserved option \<Rightarrow> budgets \<Rightarrow> budgets" where
  "observe R ck resource remaining reset unchanged reservation bs =
     (let ws = filter (live_window ck) (bs resource);
          ws = (if unchanged then ws else charge_others reset ws);
          previous = map_of ws reset;
          rest = filter (\<lambda>(r, _). r \<noteq> reset) ws
      in bs(resource := window_put reset
              (observe_window R ck resource remaining reset unchanged reservation previous) rest))"

definition takes_slot :: "clock \<Rightarrow> job \<Rightarrow> budget \<Rightarrow> bool" where
  "takes_slot ck j b \<longleftrightarrow> b_remaining b > 0 \<and> b_reset b > ck_ms ck div 1000 \<and> \<not> conditional_budget_exempt j b"

definition reserve_window :: "clock \<Rightarrow> nat \<Rightarrow> job \<Rightarrow> budget \<Rightarrow> budget" where
  "reserve_window ck ticket j b =
     (if takes_slot ck j b then
        let p = reserve (ck_now ck) ticket (ck_now ck) (b_spacing b) (b_pacing b)
        in b\<lparr>b_pacing := p, b_next := deadline (ck_now ck) p\<rparr>
      else b)"

definition reserve_job :: "clock \<Rightarrow> nat \<Rightarrow> job \<Rightarrow> budgets \<Rightarrow> reservation \<times> job \<times> budgets" where
  "reserve_job ck ticket j bs =
     (let ws = bs (quota_of j) in
      (\<lparr>rs_ticket = ticket, rs_resource = quota_of j,
        rs_resets = List.map (\<lambda>(_, b). (b_reset b, j_queued_at j < b_next b))
          (filter (\<lambda>(_, b). takes_slot ck j b) ws),
        rs_dispatched = ck_now ck\<rparr>,
       j\<lparr>j_protected := []\<rparr>,
       bs(quota_of j := List.map (\<lambda>(r, b). (r, reserve_window ck ticket j b)) ws)))"

definition settle_window :: "instant \<Rightarrow> nat \<Rightarrow> bool \<Rightarrow> budget \<Rightarrow> budget" where
  "settle_window now ticket free b =
     (let p = settle now ticket free (b_pacing b) in b\<lparr>b_pacing := p, b_next := deadline now p\<rparr>)"

definition settle_reservation :: "instant \<Rightarrow> reservation \<Rightarrow> bool \<Rightarrow> budgets \<Rightarrow> duration \<times> budgets" where
  "settle_reservation now r free bs =
     (let ws = bs (rs_resource r);
          settled = List.map (\<lambda>(k, b). (k, settle_window now (rs_ticket r) free b)) ws
      in (fold max (List.map (\<lambda>(_, b). b_next b - b_next (settle_window now (rs_ticket r) free b)) ws) 0,
          bs(rs_resource r := settled)))"

definition exhausted :: "instant \<Rightarrow> string \<Rightarrow> nat \<Rightarrow> duration \<Rightarrow> budgets \<Rightarrow> budgets" where
  "exhausted now resource reset wait bs =
     (let t = quota_deadline now wait in
      bs(resource := window_put reset \<lparr>b_next = t, b_pacing = pacing_new t, b_remaining = 0,
           b_spacing = wait, b_reset = reset, b_usage = usage_new 0 now\<rparr> (bs resource)))"

section \<open>Borrowed turns\<close>

record probe_turn =
  pt_quota :: string
  pt_owed :: string
  pt_owns_turn :: bool
  pt_protect_turn :: bool

fun update_first :: "('a \<Rightarrow> bool) \<Rightarrow> ('a \<Rightarrow> 'a) \<Rightarrow> 'a list \<Rightarrow> 'a list" where
  "update_first P f [] = []"
| "update_first P f (x # xs) = (if P x then f x # xs else x # update_first P f xs)"

definition protect :: "probe_turn \<Rightarrow> probe \<Rightarrow> job list \<Rightarrow> job list" where
  "protect turn debt pending =
     (if pt_protect_turn turn
      then update_first (\<lambda>j. j_id j = pt_owed turn) (\<lambda>j. j\<lparr>j_protected := pb_windows debt\<rparr>) pending
      else pending)"

record probe_blocks =
  bl_owed :: "string \<rightharpoonup> string"
  bl_selected :: "(string \<times> (nat \<times> instant) list) list"

definition blocks_retain :: "clock \<Rightarrow> job list \<Rightarrow> budgets \<Rightarrow> probe_blocks \<Rightarrow> probe_blocks" where
  "blocks_retain ck pending bs bl =
     \<lparr>bl_owed = (\<lambda>q. case bl_owed bl q of None \<Rightarrow> None
        | Some owed \<Rightarrow> if list_ex (\<lambda>j. j_id j = owed) pending then Some owed else None),
      bl_selected = filter (\<lambda>(quota, slots). list_ex (\<lambda>b.
        list_ex (\<lambda>(reset, t). reset = b_reset b \<and> t > ck_now ck) slots) (for_resource ck quota bs))
        (bl_selected bl)\<rparr>"

definition blocked :: "string \<Rightarrow> probe_blocks \<Rightarrow> bool" where
  "blocked quota bl \<longleftrightarrow> bl_owed bl quota \<noteq> None \<or> quota \<in> fst ` set (bl_selected bl)"

definition blocks_wake :: "instant \<Rightarrow> probe_blocks \<Rightarrow> instant option" where
  "blocks_wake now bl =
     (let ts = filter (\<lambda>t. t > now) (List.map snd (concat (List.map snd (bl_selected bl))))
      in if ts = [] then None else Some (fold min (tl ts) (hd ts)))"

definition blocks_charge ::
    "clock \<Rightarrow> probe_turn \<Rightarrow> probe \<Rightarrow> budgets \<Rightarrow> job list \<Rightarrow> probe_blocks \<Rightarrow>
     probe_blocks \<times> budgets \<times> job list" where
  "blocks_charge ck turn debt bs pending bl =
     (let bs = charge_probe (ck_now ck) debt bs;
          pending = protect turn debt pending
      in (if pt_owns_turn turn
          then bl\<lparr>bl_selected := (pt_quota turn, pb_windows (probe_of ck (pt_quota turn) bs)) #
                 filter (\<lambda>(q, _). q \<noteq> pt_quota turn) (bl_selected bl)\<rparr>
          else bl\<lparr>bl_owed := (bl_owed bl)(pt_quota turn \<mapsto> pt_owed turn)\<rparr>,
          bs, pending))"

section \<open>When a job may start\<close>

definition window_ready :: "clock \<Rightarrow> job \<Rightarrow> bool \<Rightarrow> budget \<Rightarrow> instant" where
  "window_ready ck j probe b =
     (if conditional_budget_exempt j b \<or> (probe \<and> pacing_probe_eligible j b) then j_ready_at j
      else if b_reset b \<noteq> 0 then
        let until_reset = millis (u64_mul (u64_add (b_reset b) 1) 1000 - ck_ms ck);
            start = (if b_remaining b > QUOTA_RESERVE
                     then (case find (\<lambda>(r, _). r = b_reset b) (j_protected j) of
                             None \<Rightarrow> b_next b | Some (_, t) \<Rightarrow> min (b_next b) t)
                     else b_next b)
        in min start (case checked_add (ck_now ck) until_reset of Some t \<Rightarrow> t | None \<Rightarrow> b_next b)
      else b_next b)"

definition ready_with_probe :: "clock \<Rightarrow> job \<Rightarrow> budgets \<Rightarrow> instant \<Rightarrow> bool \<Rightarrow> instant" where
  "ready_with_probe ck j bs global probe =
     max (max (j_ready_at j) global)
       (case List.map (window_ready ck j probe) (for_resource ck (quota_of j) bs) of
          [] \<Rightarrow> j_ready_at j | t # ts \<Rightarrow> fold max ts t)"

definition ready :: "clock \<Rightarrow> job \<Rightarrow> budgets \<Rightarrow> instant \<Rightarrow> instant" where
  "ready ck j bs global = ready_with_probe ck j bs global False"

section \<open>Hard gates\<close>

lemma step_apply_floor: "st_floor s \<le> step_apply now s a"
  by (simp add: step_apply_def)

lemma raise_floor_deadline: "t \<le> deadline now (raise_floor now t p)"
proof -
  let ?s = "\<lparr>st_ticket = None, st_delay = 0, st_floor = t\<rparr>"
  have "t \<le> step_apply now ?s a" for a using step_apply_floor [of ?s now a] by simp
  moreover have "st_floor (step_then now l ?s) = step_apply now ?s (st_floor l)" for l
    by (simp add: step_then_def)
  ultimately have "t \<le> step_apply now (step_then now l ?s) a" for l a
    using step_apply_floor [of "step_then now l ?s" now a] by (metis order_trans)
  moreover have "t \<le> step_apply now ?s a" for a by fact
  ultimately show ?thesis
    by (auto simp: raise_floor_def fixed_def deadline_def simp del: step_apply_def)
qed

lemma map_of_window_put:
  "map_of (window_put r b ws) r = Some b"
  by (induction ws) auto

lemma window_put_set: "(r, b) \<in> set (window_put r b ws)"
  by (induction ws) auto

lemma fold_max_ge: "t \<in> set ts \<Longrightarrow> (t :: nat) \<le> fold max ts a"
proof (induction ts arbitrary: a)
  case (Cons x xs)
  have "b \<le> fold max xs b" for b :: nat
  proof (induction xs arbitrary: b)
    case (Cons y ys)
    from Cons [of "max y b"] show ?case by simp
  qed simp
  from this [of "max x a"] Cons show ?case by auto
qed simp

lemma ready_ge_window:
  assumes "b \<in> set (for_resource ck (quota_of j) bs)"
  shows "window_ready ck j probe b \<le> ready_with_probe ck j bs global probe"
proof -
  let ?ts = "List.map (window_ready ck j probe) (for_resource ck (quota_of j) bs)"
  from assms have in_ts: "window_ready ck j probe b \<in> set ?ts" by simp
  then obtain t ts where ts: "?ts = t # ts" by (cases ?ts) auto
  have "t \<le> fold max ts t"
  proof -
    have "b \<le> fold max xs b" for b :: nat and xs
    proof (induction xs arbitrary: b)
      case (Cons y ys)
      from Cons [of "max y b"] show ?case by simp
    qed simp
    then show ?thesis .
  qed
  with in_ts fold_max_ge [of "window_ready ck j probe b" ts t] have "window_ready ck j probe b \<le> fold max ts t"
    unfolding ts by auto
  then show ?thesis unfolding ready_with_probe_def ts by simp
qed

section \<open>Rotation\<close>

lemma position_None [simp]: "position x ys = None \<longleftrightarrow> x \<notin> set ys"
  by (induction ys) auto

lemma position_append:
  "position x (ys @ zs) = (if x \<in> set ys then position x ys else map_option ((+) (length ys)) (position x zs))"
proof (induction ys)
  case Nil
  have "(+) 0 = (id :: nat \<Rightarrow> nat)" by auto
  then show ?case by (simp add: option.map_id)
qed (auto simp: option.map_comp comp_def)

lemma position_less: "position x ys = Some n \<Longrightarrow> n < length ys"
  by (induction ys arbitrary: n) (auto split: if_splits)

lemma option_le_total: "option_le a b \<or> option_le b a"
  by (auto simp: option_le_def split: option.splits)

lemma option_le_trans: "option_le a b \<Longrightarrow> option_le b c \<Longrightarrow> option_le a c"
  by (auto simp: option_le_def split: option.splits)

lemma choose_min:
  "choose_quota order qs = Some q \<Longrightarrow> q \<in> set qs \<and> (\<forall>r \<in> set qs. option_le (position q order) (position r order))"
  unfolding choose_quota_def
proof (induction qs arbitrary: q)
  case (Cons r qs)
  have refl: "option_le a a" for a using option_le_total by blast
  show ?case
  proof (cases "min_by_position order qs")
    case None
    then have "qs = []" by (cases qs) (auto split: option.splits if_splits)
    with None Cons.prems show ?thesis by (simp add: refl)
  next
    case (Some m)
    from Cons.IH [OF Some] have m: "m \<in> set qs" "\<forall>r \<in> set qs. option_le (position m order) (position r order)"
      by blast+
    show ?thesis
    proof (cases "option_le (position r order) (position m order)")
      case True
      with Some Cons.prems have "q = r" by simp
      with True m option_le_trans refl show ?thesis by (metis list.set_intros(1) set_ConsD)
    next
      case False
      with Some Cons.prems have "q = m" by simp
      with False m option_le_total show ?thesis by (metis list.set_intros(2) set_ConsD)
    qed
  qed
qed simp

lemma choose_some: "qs \<noteq> [] \<Longrightarrow> \<exists>q. choose_quota order qs = Some q"
  unfolding choose_quota_def by (cases qs) (auto split: option.splits)

text \<open>Rounds of choosing among the same eligible quotas and dispatching the chosen one.\<close>

fun rounds :: "nat \<Rightarrow> nat \<Rightarrow> (string \<times> bool) list \<Rightarrow> quota_order \<Rightarrow> (string \<times> bool) list" where
  "rounds 0 capacity qs order = []"
| "rounds (Suc n) capacity qs order =
     (case choose_quota order qs of None \<Rightarrow> []
      | Some q \<Rightarrow> q # rounds n capacity qs (dispatched q capacity order))"

lemma rounds_fresh:
  assumes "distinct qs" and "length qs \<le> capacity" and "order = old @ served"
    and "distinct served" and "set old \<inter> set served = {}" and "set served \<subseteq> set qs"
    and "length served + n = length qs"
  shows "distinct (rounds n capacity qs order) \<and> set (rounds n capacity qs order) = set qs - set served"
  using assms(3-7)
proof (induction n arbitrary: order old served)
  case 0
  then have "card (set served) = card (set qs)" using assms(1) by (simp add: distinct_card)
  with 0 have "set served = set qs" by (simp add: card_subset_eq)
  then show ?case by simp
next
  case (Suc n)
  then have "length served < length qs" by simp
  then have "card (set served) < card (set qs)" using assms(1) Suc.prems(2) by (simp add: distinct_card)
  then obtain r where r: "r \<in> set qs" "r \<notin> set served"
    by (metis card_mono List.finite_set not_less subsetI)
  then have "qs \<noteq> []" by auto
  then obtain q where q: "choose_quota order qs = Some q" using choose_some by blast
  note least = choose_min [OF q]
  have "q \<notin> set served"
  proof
    assume in_served: "q \<in> set served"
    with Suc.prems(3) have "q \<notin> set old" by auto
    from in_served obtain k where "position q served = Some k" using position_None [of q served] by blast
    with \<open>q \<notin> set old\<close> Suc.prems(1) have k: "position q order = Some (length old + k)"
      by (simp add: position_append)
    have "option_le (position q order) (position r order)" using least r(1) by blast
    then obtain m where m: "position r order = Some m" "length old + k \<le> m"
      using k by (auto simp: option_le_def split: option.splits)
    then have "r \<in> set old"
      using r(2) Suc.prems(1) position_None [of r order] by (metis Un_iff option.distinct(1) set_append)
    then have "position r old = Some m" using m(1) Suc.prems(1) by (simp add: position_append)
    with m(2) position_less show False by fastforce
  qed
  define kept_old where "kept_old = filter (\<lambda>x. x \<noteq> q) old"
  have filt: "filter (\<lambda>x. x \<noteq> q) order = kept_old @ served"
    using \<open>q \<notin> set served\<close> Suc.prems(1) by (auto simp: kept_old_def filter_id_conv)
  define new_old where "new_old = (if length (kept_old @ served) \<ge> capacity then tl kept_old else kept_old)"
  have "kept_old \<noteq> []" if "length (kept_old @ served) \<ge> capacity"
    using that Suc.prems(5) assms(2) by auto
  then have next_order: "dispatched q capacity order = new_old @ (served @ [q])"
    by (auto simp: dispatched_def Let_def filt new_old_def)
  have sub: "set new_old \<subseteq> set old - {q}"
  proof -
    have "set new_old \<subseteq> set kept_old" by (cases kept_old) (auto simp: new_old_def)
    then show ?thesis by (auto simp: kept_old_def)
  qed
  have "distinct (rounds n capacity qs (dispatched q capacity order)) \<and>
      set (rounds n capacity qs (dispatched q capacity order)) = set qs - set (served @ [q])"
  proof (rule Suc.IH [OF next_order])
    show "distinct (served @ [q])" using Suc.prems(2) \<open>q \<notin> set served\<close> by simp
    show "set new_old \<inter> set (served @ [q]) = {}" using sub Suc.prems(3) by auto
    show "set (served @ [q]) \<subseteq> set qs" using Suc.prems(4) least by simp
    show "length (served @ [q]) + n = length qs" using Suc.prems(5) by simp
  qed
  then show ?case using q least \<open>q \<notin> set served\<close> by auto
qed

section \<open>Waiting callers\<close>

text \<open>The map counts the live callers, given as the list of their deadlines.\<close>

definition waiters_at :: "waiting \<Rightarrow> instant \<Rightarrow> nat" where
  "waiters_at ws t = (case map_of ws t of None \<Rightarrow> 0 | Some n \<Rightarrow> n)"

definition tracks :: "waiting \<Rightarrow> instant list \<Rightarrow> bool" where
  "tracks ws live \<longleftrightarrow> sorted_wrt (<) (List.map fst ws) \<and> list_all (\<lambda>w. 0 < snd w) ws \<and>
     (\<forall>t. waiters_at ws t = count_list live t)"

lemma set_register: "fst ` set (register t ws) = insert t (fst ` set ws)"
proof (induction ws)
  case (Cons w ws)
  obtain v n where "w = (v, n)" by (rule prod.exhaust)
  with Cons show ?case by (simp add: insert_commute)
qed simp

lemma register_sorted: "sorted_wrt (<) (List.map fst ws) \<Longrightarrow> sorted_wrt (<) (List.map fst (register t ws))"
proof (induction ws)
  case (Cons w ws)
  obtain v n where w: "w = (v, n)" by (rule prod.exhaust)
  have "\<forall>x \<in> fst ` set ws. v < x" using Cons.prems by (auto simp: w)
  then have "\<forall>x \<in> fst ` set (register t ws). v < x" if "v < t" using that by (simp add: set_register)
  with Cons show ?case by (auto simp: w)
qed simp

lemma register_positive: "list_all (\<lambda>w. 0 < snd w) ws \<Longrightarrow> list_all (\<lambda>w. 0 < snd w) (register u ws)"
  by (induction ws) auto

lemma register_count:
  "sorted_wrt (<) (List.map fst ws) \<Longrightarrow> waiters_at (register u ws) t = waiters_at ws t + (if t = u then 1 else 0)"
proof (induction ws)
  case (Cons w ws)
  obtain v n where w: "w = (v, n)" by (rule prod.exhaust)
  have "map_of ws u = None" if "u < v"
    using Cons.prems that by (force simp: w map_of_eq_None_iff)
  with Cons show ?case by (auto simp: w waiters_at_def)
qed (simp add: waiters_at_def)

lemma unregister_subset: "fst ` set (unregister t ws) \<subseteq> fst ` set ws"
proof (induction ws)
  case (Cons w ws)
  then show ?case by (cases w) auto
qed simp

lemma unregister_sorted: "sorted_wrt (<) (List.map fst ws) \<Longrightarrow> sorted_wrt (<) (List.map fst (unregister t ws))"
proof (induction ws)
  case (Cons w ws)
  obtain v n where w: "w = (v, n)" by (rule prod.exhaust)
  have "\<forall>x \<in> fst ` set ws. v < x" using Cons.prems by (auto simp: w)
  with unregister_subset [of t ws] have "\<forall>x \<in> fst ` set (unregister t ws). v < x" by blast
  with Cons show ?case by (auto simp: w)
qed simp

lemma unregister_positive: "list_all (\<lambda>w. 0 < snd w) ws \<Longrightarrow> list_all (\<lambda>w. 0 < snd w) (unregister u ws)"
  by (induction ws) auto

lemma unregister_count:
  "sorted_wrt (<) (List.map fst ws) \<Longrightarrow> waiters_at (unregister u ws) t = waiters_at ws t - (if t = u then 1 else 0)"
proof (induction ws)
  case (Cons w ws)
  obtain v n where w: "w = (v, n)" by (rule prod.exhaust)
  have "map_of ws v = None"
    using Cons.prems by (force simp: w map_of_eq_None_iff)
  with Cons show ?case by (auto simp: w waiters_at_def)
qed (simp add: waiters_at_def)

lemma count_remove1: "count_list (remove1 u xs) t = count_list xs t - (if t = u then 1 else 0)"
  by (induction xs) auto

lemma tracks_register: "tracks ws live \<Longrightarrow> tracks (register t ws) (t # live)"
  by (simp add: tracks_def register_sorted register_positive register_count)

lemma tracks_unregister: "tracks ws live \<Longrightarrow> tracks (unregister t ws) (remove1 t live)"
  by (simp add: tracks_def unregister_sorted unregister_positive unregister_count count_remove1)

lemma tracks_earliest:
  assumes "tracks ws live"
  shows "earliest ws = (if live = [] then None else Some (Min (set live)))"
proof -
  have keys: "t \<in> fst ` set ws \<longleftrightarrow> t \<in> set live" for t
  proof -
    have "t \<in> fst ` set ws \<longleftrightarrow> waiters_at ws t \<noteq> 0"
    proof (cases "map_of ws t")
      case None
      then have "t \<notin> fst ` set ws" by (simp add: map_of_eq_None_iff)
      with None show ?thesis by (simp add: waiters_at_def)
    next
      case (Some n)
      then have "(t, n) \<in> set ws" by (rule map_of_SomeD)
      with assms Some show ?thesis by (force simp: tracks_def waiters_at_def list_all_iff)
    qed
    with assms show ?thesis by (simp add: tracks_def count_list_0_iff)
  qed
  show ?thesis
  proof (cases ws)
    case Nil
    with keys have "\<forall>t. t \<notin> set live" by simp
    then have "live = []" by (cases live) auto
    with Nil show ?thesis by (simp add: earliest_def)
  next
    case (Cons w ws')
    from assms have "\<forall>t \<in> fst ` set ws. fst w \<le> t" by (auto simp: tracks_def Cons less_imp_le)
    with keys have "\<forall>t \<in> set live. fst w \<le> t" by blast
    moreover have "fst w \<in> set live" using keys [of "fst w"] by (simp add: Cons)
    ultimately have "\<forall>t \<in> set live. fst w \<le> t" "fst w \<in> set live" by blast+
    then have "Min (set live) = fst w" by (intro Min_eqI) auto
    with \<open>fst w \<in> set live\<close> show ?thesis by (auto simp: earliest_def Cons split: prod.split)
  qed
qed

section \<open>Properties\<close>

text \<open>
  C16. An exhausted window holds its quota until its reset: after an answer that leaves
  nothing, or on a shared quota no more than the reserve, no job of that quota is ready
  before the window's reset second has passed, whatever was reserved before.
\<close>

theorem exhausted_window_waits_for_reset:
  assumes "remaining = 0 \<or> (shared_quota (quota_of j) \<and> remaining \<le> QUOTA_RESERVE)"
    and "0 < reset" and "ck_ms ck < (reset + 1) * 1000" and "(reset + 1) * 1000 \<le> MAX_U64"
    and "ck_now ck + secs (reset + 1) \<le> MAX_INSTANT"
  shows "ck_now ck + millis ((reset + 1) * 1000 - ck_ms ck)
    \<le> ready ck j (observe R ck (quota_of j) remaining reset unchanged reservation bs) global"
proof -
  let ?q = "quota_of j"
  define ws where "ws = (if unchanged then filter (live_window ck) (bs ?q)
      else charge_others reset (filter (live_window ck) (bs ?q)))"
  define b where "b = observe_window R ck ?q remaining reset unchanged reservation (map_of ws reset)"
  have windows: "observe R ck ?q remaining reset unchanged reservation bs ?q =
      window_put reset b (filter (\<lambda>(r, _). r \<noteq> reset) ws)"
    by (simp add: observe_def Let_def ws_def b_def)
  define left where "left = (case map_of ws reset of None \<Rightarrow> remaining | Some c \<Rightarrow> min (b_remaining c) remaining)"
  have left: "left \<le> remaining" by (auto simp: left_def split: option.split)
  have reset: "b_reset b = reset" "b_remaining b = left"
    by (simp_all add: b_def observe_window_def Let_def left_def)
  have low: "left \<le> QUOTA_RESERVE" and hard: "left = 0 \<or> (shared_quota ?q \<and> left \<le> QUOTA_RESERVE)"
    using assms(1) left by (auto simp: QUOTA_RESERVE_def)
  define seconds where "seconds = reset - ck_ms ck div 1000"
  have "seconds + 1 \<le> MAX_U64" using assms(4) by (simp add: seconds_def)
  then have spacing: "b_spacing b = secs (seconds + 1)"
    using hard by (auto simp: b_def observe_window_def Let_def left_def [symmetric] seconds_def [symmetric]
        u64_add_def usage_spacing_def)
  have room: "ck_now ck + secs (seconds + 1) \<le> MAX_INSTANT"
    using assms(5) by (simp add: seconds_def secs_def)
  have "b_next b = deadline (ck_now ck) (raise_floor (ck_now ck)
      (case checked_add (ck_now ck) (b_spacing b) of Some t \<Rightarrow> t | None \<Rightarrow> quota_deadline (ck_now ck) (secs 86400))
      (case map_of ws reset of None \<Rightarrow> pacing_new (ck_now ck) | Some c \<Rightarrow> b_pacing c))"
    using hard by (auto simp: b_def observe_window_def Let_def left_def [symmetric])
  moreover have "checked_add (ck_now ck) (b_spacing b) = Some (ck_now ck + secs (seconds + 1))"
    using room by (simp add: spacing checked_add_def)
  ultimately have "ck_now ck + secs (seconds + 1) \<le> b_next b" using raise_floor_deadline by simp
  moreover have "millis ((reset + 1) * 1000 - ck_ms ck) \<le> secs (seconds + 1)"
    using assms(3) by (simp add: millis_def secs_def seconds_def)
  ultimately have late: "ck_now ck + millis ((reset + 1) * 1000 - ck_ms ck) \<le> b_next b"
    and fits: "ck_now ck + millis ((reset + 1) * 1000 - ck_ms ck) \<le> MAX_INSTANT" using room by simp_all
  have "reset + 1 \<le> MAX_U64" using assms(4) by simp
  then have until: "u64_mul (u64_add reset 1) 1000 = (reset + 1) * 1000"
    using assms(4) by (simp add: u64_mul_def u64_add_def)
  have "b \<in> set (for_resource ck ?q (observe R ck ?q remaining reset unchanged reservation bs))"
    using window_put_set [of reset b] assms(3) \<open>reset + 1 \<le> MAX_U64\<close>
    by (force simp: for_resource_def windows reset u64_add_def)
  from ready_ge_window [OF this, of False global]
  have "window_ready ck j False b
    \<le> ready ck j (observe R ck ?q remaining reset unchanged reservation bs) global" by (simp add: ready_def)
  moreover have "ck_now ck + millis ((reset + 1) * 1000 - ck_ms ck) \<le> window_ready ck j False b"
    using low late fits assms(2)
    by (simp add: window_ready_def conditional_budget_exempt_def reset Let_def until [simplified] checked_add_def)
  ultimately show ?thesis by simp
qed

definition example_job :: job where
  "example_job = \<lparr>j_id = ''1'', j_installation = False, j_minting = False, j_interactive = True,
     j_report_priority = False, j_required = True, j_detail_lane = False, j_collection_slice = False,
     j_body = False, j_cached = None, j_resource = ''core'', j_queued_at = 0, j_ready_at = 0,
     j_deadline = 9, j_waiting = [], j_protected = []\<rparr>"

theorem exhausted_window_waits_for_reset_witness:
  "60000000000 \<le> ready \<lparr>ck_now = 0, ck_ms = 5000\<rparr> example_job
     (observe (\<lambda>x. x) \<lparr>ck_now = 0, ck_ms = 5000\<rparr> ''core'' 100 64 False None (\<lambda>_. [])) 7"
proof -
  have q: "quota_of example_job = ''core''" by (simp add: quota_of_def example_job_def)
  have "ck_now \<lparr>ck_now = 0, ck_ms = 5000\<rparr> + millis ((64 + 1) * 1000 - ck_ms \<lparr>ck_now = 0, ck_ms = 5000\<rparr>)
    \<le> ready \<lparr>ck_now = 0, ck_ms = 5000\<rparr> example_job (observe (\<lambda>x. x) \<lparr>ck_now = 0, ck_ms = 5000\<rparr>
      (quota_of example_job) 100 64 False None (\<lambda>_. [])) 7"
    by (rule exhausted_window_waits_for_reset)
      (simp_all add: q shared_quota_def QUOTA_RESERVE_def MAX_U64_def secs_def MAX_INSTANT_def)
  then show ?thesis by (simp add: q millis_def)
qed

text \<open>
  A response that turns out free gives back exactly what it reserved: settling it
  puts the window's next slot back where it was.
\<close>

theorem free_reply_refunds_its_slot:
  assumes "b_next b = deadline (ck_now ck) (b_pacing b)"
    and "distinct (tickets (pc_steps (b_pacing b)))" and "ticket \<notin> set (tickets (pc_steps (b_pacing b)))"
    and "slots (pc_steps (b_pacing b)) (pc_base (b_pacing b)) + b_spacing b \<le> MAX_INSTANT"
    and "ck_now ck + b_spacing b \<le> MAX_INSTANT"
  shows "b_next (settle_window now ticket True (reserve_window ck ticket j b)) = b_next b"
proof -
  let ?p = "b_pacing b"
  let ?s = "\<lparr>st_ticket = Some ticket, st_delay = b_spacing b, st_floor = ck_now ck + b_spacing b\<rparr>"
  have rep: "represents (pc_base ?p) (pc_steps ?p) ?p" using assms(2) by (simp add: represents_def)
  have room: "slots (pc_steps ?p) (pc_base ?p) \<le> MAX_INSTANT" using assms(4) by simp
  have same: "deadline t ?p = slots (pc_steps ?p) (pc_base ?p)" for t
    using represents_deadline [OF rep room] .
  have gone: "withdraw ticket (pc_steps ?p) = pc_steps ?p"
    using assms(3) by (auto simp: withdraw_def filter_id_conv in_tickets image_iff)
  show ?thesis
  proof (cases "takes_slot ck j b")
    case True
    have taken: "represents (pc_base ?p) (pc_steps ?p @ [?s]) (reserve (ck_now ck) ticket (ck_now ck) (b_spacing b) ?p)"
      using represents_reserve [OF rep assms(5,3)] .
    have "slots (pc_steps ?p @ [?s]) (pc_base ?p) \<le> MAX_INSTANT" using assms(4,5) by (simp add: slot_def)
    from represents_settle [OF taken this, of True ticket now]
    have "represents (pc_base ?p) (pc_steps ?p)
        (settle now ticket True (reserve (ck_now ck) ticket (ck_now ck) (b_spacing b) ?p))"
      using gone by (simp add: withdraw_def)
    from represents_deadline [OF this room] True show ?thesis
      by (simp add: settle_window_def reserve_window_def Let_def assms(1) same)
  next
    case False
    from represents_settle [OF rep room, of True ticket now] gone
    have "represents (pc_base ?p) (pc_steps ?p) (settle now ticket True ?p)" by simp
    from represents_deadline [OF this room] False show ?thesis
      by (simp add: settle_window_def reserve_window_def Let_def assms(1) same)
  qed
qed

theorem free_reply_refunds_its_slot_witness:
  "b_next (settle_window 30 7 True (reserve_window \<lparr>ck_now = 20, ck_ms = 5000\<rparr> 7 example_job
     \<lparr>b_next = 10, b_pacing = pacing_new 10, b_remaining = 500, b_spacing = 4, b_reset = 64,
      b_usage = usage_new 500 0\<rparr>)) = 10"
  by (subst free_reply_refunds_its_slot) (simp_all add: deadline_def pacing_new_def MAX_INSTANT_def)

text \<open>
  C36. No eligible quota starves: while the same quotas have work, as many dispatches as
  there are quotas serve each of them exactly once, whatever was dispatched before.
\<close>

theorem rotation_serves_every_quota:
  assumes "distinct qs" and "length qs \<le> capacity"
  shows "distinct (rounds (length qs) capacity qs order) \<and> set (rounds (length qs) capacity qs order) = set qs"
  using rounds_fresh [OF assms, of order order "[]" "length qs"] by simp

theorem rotation_serves_every_quota_witness:
  "set (rounds 2 8 [(''core'', False), (''graphql'', False)] [(''core'', False), (''search'', False)]) =
     {(''core'', False), (''graphql'', False)}"
  using rotation_serves_every_quota [of "[(''core'', False), (''graphql'', False)]" 8
      "[(''core'', False), (''search'', False)]"] by (simp add: numeral_2_eq_2)

text \<open>
  The map of waiting deadlines follows the live callers: registering, extending and
  dropping a caller keep it equal to their multiset, in order and without empty entries,
  and the earliest deadline is the least of the live ones.
\<close>

theorem earliest_is_the_least_live_deadline:
  assumes "tracks ws live"
  shows "tracks (register t ws) (t # live) \<and> tracks (unregister t ws) (remove1 t live) \<and>
     tracks (snd (extend_waiter t u ws)) (if u > t then u # remove1 t live else live) \<and>
     earliest ws = (if live = [] then None else Some (Min (set live)))"
  using assms by (simp add: extend_waiter_def tracks_register tracks_unregister tracks_earliest)

theorem earliest_is_the_least_live_deadline_witness:
  "earliest (snd (extend_waiter 3 9 (register 7 (register 3 [])))) = Some 7"
proof -
  have "tracks [] []" by (simp add: tracks_def waiters_at_def)
  from earliest_is_the_least_live_deadline [OF this, of 3] have "tracks (register 3 []) [3]" by simp
  from tracks_register [OF this, of 7] have "tracks (register 7 (register 3 [])) [7, 3]" .
  from earliest_is_the_least_live_deadline [OF this, of 3 9]
  have "tracks (snd (extend_waiter 3 9 (register 7 (register 3 [])))) [9, 7]" by simp
  from tracks_earliest [OF this] show ?thesis by simp
qed

text \<open>
  The shared back-off never shortens and never runs away: every observation keeps or
  moves the deadline forward, answers inside an episode change it only by a longer server
  hint, and otherwise the wait is at most the hint or a quarter of an hour plus jitter.
\<close>

theorem backoff_is_monotone_and_bounded:
  assumes "now + secs 900 + jitter \<le> MAX_INSTANT" and "now + (case retry of None \<Rightarrow> 0 | Some w \<Rightarrow> w) \<le> MAX_INSTANT"
  shows "bo_until b \<le> snd (backoff_observe now jitter retry b) \<and>
     snd (backoff_observe now jitter retry b) = bo_until (fst (backoff_observe now jitter retry b)) \<and>
     snd (backoff_observe now jitter retry b) \<le>
       max (bo_until b) (now + max (secs 900 + jitter) (case retry of None \<Rightarrow> 0 | Some w \<Rightarrow> w)) \<and>
     (now < bo_until b \<longrightarrow> bo_episodes (fst (backoff_observe now jitter retry b)) = bo_episodes b)"
proof -
  have exact: "quota_deadline now w = now + w" if "now + w \<le> MAX_INSTANT" for w
    using that by (simp add: quota_deadline_def checked_add_def)
  have fall: "secs (min (60 * 2 ^ n) (15 * 60)) \<le> secs 900" for n by (simp add: secs_def)
  show ?thesis
  proof (cases "now < bo_until b")
    case True
    then show ?thesis
      using assms(2) exact by (auto simp: backoff_observe_def backoff_extend_def Let_def split: option.split)
  next
    case False
    define c where "c = (if now - bo_until b \<ge> secs (15 * 60) then b\<lparr>bo_episodes := 0\<rparr> else b)"
    have c: "bo_until c = bo_until b" by (simp add: c_def)
    define n where "n = bo_episodes c"
    define w where "w = (if n = 0 then (case retry of None \<Rightarrow> secs (min (60 * 2 ^ min n 4) (15 * 60)) + jitter | Some w \<Rightarrow> w)
        else max (case retry of None \<Rightarrow> 0 | Some w \<Rightarrow> w) (secs (min (60 * 2 ^ min n 4) (15 * 60)) + jitter))"
    have w: "w \<le> max (secs 900 + jitter) (case retry of None \<Rightarrow> 0 | Some w \<Rightarrow> w)"
      using fall [of "min n 4"] by (auto simp: w_def split: option.split)
    moreover have "now + w \<le> MAX_INSTANT"
      using w assms by (auto simp: max_def split: if_splits)
    moreover have "snd (backoff_observe now jitter retry b) = max (bo_until b) (quota_deadline now w)"
      "bo_until (fst (backoff_observe now jitter retry b)) = max (bo_until b) (quota_deadline now w)"
      using False unfolding backoff_observe_def c_def [symmetric]
      by (auto simp: backoff_extend_def Let_def n_def w_def c split: option.split)
    ultimately show ?thesis using False exact by auto
  qed
qed

theorem backoff_is_monotone_and_bounded_witness:
  "snd (backoff_observe 10 5 (Some 7) \<lparr>bo_until = 3, bo_episodes = 9\<rparr>) \<le> 10 + secs 900 + 5"
proof -
  have a: "10 + secs 900 + 5 \<le> MAX_INSTANT" by (simp add: secs_def MAX_INSTANT_def)
  have "10 + (case Some 7 of None \<Rightarrow> 0 | Some w \<Rightarrow> w) \<le> MAX_INSTANT" by (simp add: MAX_INSTANT_def)
  from backoff_is_monotone_and_bounded [OF a this, where b = "\<lparr>bo_until = 3, bo_episodes = 9\<rparr>"]
  show ?thesis by (simp add: secs_def)
qed

end
