(* ===== verification/Text_Ops.thy ===== *)
theory Text_Ops
  imports Json
begin

text \<open>
  The operations of Rust's standard library on byte and UTF-8 strings, and on JSON values
  in place, that the proxy uses.
\<close>

section \<open>Bytes\<close>

definition byte_of :: "char \<Rightarrow> nat" where
  "byte_of c = of_char c"

definition strip_prefix :: "string \<Rightarrow> string \<Rightarrow> string option" where
  "strip_prefix p s = (if take (length p) s = p then Some (drop (length p) s) else None)"

definition strip_suffix :: "string \<Rightarrow> string \<Rightarrow> string option" where
  "strip_suffix p s = map_option rev (strip_prefix (rev p) (rev s))"

definition or_self :: "string option \<Rightarrow> string \<Rightarrow> string" where
  "or_self r s = (case r of None \<Rightarrow> s | Some t \<Rightarrow> t)"

definition ends_with :: "string \<Rightarrow> string \<Rightarrow> bool" where
  "ends_with p s \<longleftrightarrow> strip_suffix p s \<noteq> None"

definition begins_with :: "string \<Rightarrow> string \<Rightarrow> bool" where
  "begins_with p s \<longleftrightarrow> strip_prefix p s \<noteq> None"

fun contains_text :: "string \<Rightarrow> string \<Rightarrow> bool" where
  "contains_text p [] = (p = [])"
| "contains_text p (c # s) = (begins_with p (c # s) \<or> contains_text p s)"

definition lower_char :: "char \<Rightarrow> char" where
  "lower_char c = (if 65 \<le> byte_of c \<and> byte_of c \<le> 90 then char_of (byte_of c + 32) else c)"

definition to_ascii_lowercase :: "string \<Rightarrow> string" where
  "to_ascii_lowercase s = List.map lower_char s"

definition trim_end_char :: "char \<Rightarrow> string \<Rightarrow> string" where
  "trim_end_char c s = rev (dropWhile (\<lambda>d. d = c) (rev s))"

section \<open>UTF-8\<close>

definition continuation :: "char \<Rightarrow> bool" where
  "continuation c \<longleftrightarrow> 128 \<le> byte_of c \<and> byte_of c \<le> 191"

definition byte_in :: "char \<Rightarrow> nat \<Rightarrow> nat \<Rightarrow> bool" where
  "byte_in c a b \<longleftrightarrow> a \<le> byte_of c \<and> byte_of c \<le> b"

text \<open>The well-formed sequences of the Unicode standard (\<open>str::from_utf8\<close>).\<close>

fun valid_utf8 :: "string \<Rightarrow> bool" where
  "valid_utf8 [] = True"
| "valid_utf8 (a # s) =
     (if byte_of a < 128 then valid_utf8 s
      else case s of
        [] \<Rightarrow> False
      | b # t \<Rightarrow>
          if byte_in a 194 223 then continuation b \<and> valid_utf8 t
          else case t of
            [] \<Rightarrow> False
          | c # u \<Rightarrow>
              if byte_of a = 224 then byte_in b 160 191 \<and> continuation c \<and> valid_utf8 u
              else if byte_of a = 237 then byte_in b 128 159 \<and> continuation c \<and> valid_utf8 u
              else if byte_in a 225 239 then continuation b \<and> continuation c \<and> valid_utf8 u
              else case u of
                [] \<Rightarrow> False
              | d # v \<Rightarrow>
                  (if byte_of a = 240 then byte_in b 144 191
                   else if byte_in a 241 243 then continuation b
                   else if byte_of a = 244 then byte_in b 128 143 else False)
                  \<and> continuation c \<and> continuation d \<and> valid_utf8 v)"

text \<open>
  \<open>is_whitespace\<close> and \<open>is_control\<close> of any character, on the encoding: the ASCII ones,
  U+0080 to U+00A0, and the Unicode spaces of three bytes.
\<close>

fun has_space_or_control :: "string \<Rightarrow> bool" where
  "has_space_or_control [] = False"
| "has_space_or_control (a # s) =
     (byte_of a \<le> 32 \<or> byte_of a = 127 \<or>
      (case s of
         b # t \<Rightarrow>
           (byte_of a = 194 \<and> byte_in b 128 160) \<or>
           (case t of
              c # _ \<Rightarrow>
                (byte_of a = 225 \<and> byte_of b = 154 \<and> byte_of c = 128) \<or>
                (byte_of a = 226 \<and> byte_of b = 128 \<and>
                   (byte_in c 128 138 \<or> byte_of c \<in> {168, 169, 175})) \<or>
                (byte_of a = 226 \<and> byte_of b = 129 \<and> byte_of c = 159) \<or>
                (byte_of a = 227 \<and> byte_of b = 128 \<and> byte_of c = 128)
            | [] \<Rightarrow> False)
       | [] \<Rightarrow> False) \<or>
      has_space_or_control s)"

text \<open>\<open>s.trim().is_empty()\<close>: nothing but white space of the encoding.\<close>

fun all_space :: "string \<Rightarrow> bool" where
  "all_space [] = True"
| "all_space (a # s) =
     (if byte_of a = 32 \<or> byte_in a 9 13 then all_space s
      else case s of
        [] \<Rightarrow> False
      | b # t \<Rightarrow>
          if byte_of a = 194 then byte_of b \<in> {133, 160} \<and> all_space t
          else case t of
            [] \<Rightarrow> False
          | c # u \<Rightarrow>
              ((byte_of a = 225 \<and> byte_of b = 154 \<and> byte_of c = 128) \<or>
               (byte_of a = 226 \<and> byte_of b = 128 \<and> (byte_in c 128 138 \<or> byte_of c \<in> {168, 169, 175})) \<or>
               (byte_of a = 226 \<and> byte_of b = 129 \<and> byte_of c = 159) \<or>
               (byte_of a = 227 \<and> byte_of b = 128 \<and> byte_of c = 128)) \<and> all_space u)"

text \<open>\<open>char::is_control\<close> on some character of the string.\<close>

fun has_control :: "string \<Rightarrow> bool" where
  "has_control [] = False"
| "has_control (a # s) =
     (byte_of a < 32 \<or> byte_of a = 127 \<or>
      (case s of b # _ \<Rightarrow> byte_of a = 194 \<and> byte_in b 128 159 | [] \<Rightarrow> False) \<or> has_control s)"

definition ascii_alphanumeric :: "char \<Rightarrow> bool" where
  "ascii_alphanumeric c \<longleftrightarrow> byte_in c 48 57 \<or> byte_in c 65 90 \<or> byte_in c 97 122"

section \<open>Pieces\<close>

fun split_char :: "char \<Rightarrow> string \<Rightarrow> string list" where
  \<comment> \<open>\<open>s.split(c)\<close>: never empty\<close>
  "split_char c [] = [[]]"
| "split_char c (d # s) =
     (if d = c then [] # split_char c s
      else case split_char c s of [] \<Rightarrow> [[d]] | p # ps \<Rightarrow> (d # p) # ps)"

definition path_extension :: "string \<Rightarrow> string option" where
  \<comment> \<open>\<open>Path::extension\<close> on Unix: what follows the last dot of the last component\<close>
  "path_extension path =
     (let parts = filter (\<lambda>p. p \<noteq> [] \<and> p \<noteq> ''.'') (split_char (CHR ''/'') path) in
      if parts = [] \<or> last parts = ''..'' then None
      else let pieces = split_char (CHR ''.'') (last parts) in
        if length pieces < 2 \<or> (length pieces = 2 \<and> hd pieces = []) then None else Some (last pieces))"

section \<open>JSON in place\<close>

definition json_put :: "json \<Rightarrow> string \<Rightarrow> json \<Rightarrow> json" where
  \<comment> \<open>\<open>value[key] = x\<close>: null becomes an object; anything else would panic\<close>
  "json_put v k x = (case v of JObject kvs \<Rightarrow> JObject (assoc_put k x kvs)
     | JNull \<Rightarrow> JObject [(k, x)] | _ \<Rightarrow> v)"

fun json_set_pointer :: "json \<Rightarrow> string list \<Rightarrow> json \<Rightarrow> json" where
  \<comment> \<open>\<open>*value.pointer_mut(path).unwrap() = x\<close>\<close>
  "json_set_pointer v [] x = x"
| "json_set_pointer v (k # ks) x =
     (case json_get v k of None \<Rightarrow> v | Some y \<Rightarrow> json_put v k (json_set_pointer y ks x))"

definition str_at :: "json \<Rightarrow> string list \<Rightarrow> string option" where
  "str_at v p = (case json_pointer v p of None \<Rightarrow> None | Some x \<Rightarrow> as_str x)"

lemma strip_prefix_append [simp]: "strip_prefix p (p @ s) = Some s"
  by (simp add: strip_prefix_def)

lemma strip_prefix_Some: "strip_prefix p s = Some t \<longleftrightarrow> s = p @ t"
  by (auto simp: strip_prefix_def) (metis append_take_drop_id)

end
