(* ===== verification/Event_Stream.thy ===== *)
theory Event_Stream
  imports Text_Ops
begin

text \<open>
  Server-sent events of the proxy: the decoder of upstream streams
  (\<open>src/packages/hey-proxy/src/proxy/sse.rs\<close>), and the framing shared by the scanners of
  a stream's prelude. Parsing the JSON text of an event is a parameter. It is shown that
  decoding does not depend on how the bytes are cut into chunks and gives back every
  encoded event.
\<close>

section \<open>The decoder\<close>

definition SSE_MAX_FRAME :: nat where "SSE_MAX_FRAME = 16 * 1024 * 1024"

record decoder =
  de_line :: string
  de_data :: string
  de_frame_bytes :: nat
  de_after_cr :: bool
  de_done :: bool

definition decoder_new :: decoder where
  "decoder_new = \<lparr>de_line = [], de_data = [], de_frame_bytes = 0, de_after_cr = False, de_done = False\<rparr>"

type_synonym json_parser = "string \<Rightarrow> json option"

text \<open>A blank line ends an event; its data lines are joined by newlines.\<close>

definition sse_dispatch :: "json_parser \<Rightarrow> decoder \<times> json list \<Rightarrow> (decoder \<times> json list) result" where
  "sse_dispatch parse = (\<lambda>(d, events).
     let d = d\<lparr>de_frame_bytes := 0\<rparr> in
     if de_data d = [] then Inr (d, events)
     else
       let d = d\<lparr>de_data := butlast (de_data d)\<rparr> in
       if de_data d = [] then Inr (d, events)
       else if de_data d = ''[DONE]'' then Inr (d\<lparr>de_done := True, de_data := []\<rparr>, events)
       else if de_done d then Inl ''SSE data arrived after [DONE]''
       else (case parse (de_data d) of
               None \<Rightarrow> Inl ''JSON''
             | Some v \<Rightarrow> Inr (d\<lparr>de_data := []\<rparr>, events @ [v])))"

definition sse_end_line :: "json_parser \<Rightarrow> decoder \<times> json list \<Rightarrow> (decoder \<times> json list) result" where
  "sse_end_line parse = (\<lambda>(d, events).
     if de_line d = [] then sse_dispatch parse (d, events)
     else if \<not> valid_utf8 (de_line d) then Inl ''UTF-8''
     else Inr ((case strip_prefix ''data:'' (de_line d) of
                 None \<Rightarrow> d
               | Some data \<Rightarrow> d\<lparr>de_data := de_data d @ or_self (strip_prefix '' '' data) data @ [CHR 0x0A]\<rparr>)
               \<lparr>de_line := []\<rparr>, events))"

definition sse_byte :: "json_parser \<Rightarrow> char \<Rightarrow> decoder \<times> json list \<Rightarrow> (decoder \<times> json list) result" where
  "sse_byte parse b = (\<lambda>(d, events).
     if de_after_cr d \<and> b = CHR 0x0A then Inr (d\<lparr>de_after_cr := False\<rparr>, events)
     else
       let d = d\<lparr>de_after_cr := (b = CHR 0x0D), de_frame_bytes := de_frame_bytes d + 1\<rparr> in
       if de_frame_bytes d > SSE_MAX_FRAME then Inl ''SSE frame exceeds 16 MiB''
       else if b = CHR 0x0A \<or> b = CHR 0x0D then sse_end_line parse (d, events)
       else Inr (d\<lparr>de_line := de_line d @ [b]\<rparr>, events))"

definition sse_bytes :: "json_parser \<Rightarrow> string \<Rightarrow> decoder \<times> json list \<Rightarrow> (decoder \<times> json list) result" where
  "sse_bytes parse bytes s = fold_result (sse_byte parse) bytes s"

definition sse_eof :: "json_parser \<Rightarrow> decoder \<times> json list \<Rightarrow> (decoder \<times> json list) result" where
  "sse_eof parse = (\<lambda>(d, events).
     and_then (if de_line d \<noteq> [] then sse_end_line parse (d, events) else Inr (d, events))
       (sse_dispatch parse))"

definition sse_feed :: "json_parser \<Rightarrow> string \<Rightarrow> bool \<Rightarrow> decoder \<Rightarrow> (decoder \<times> json list) result" where
  "sse_feed parse bytes eof d =
     and_then (sse_bytes parse bytes (d, [])) (\<lambda>s. if eof then sse_eof parse s else Inr s)"

text \<open>A whole stream: its chunks one after the other, then the end.\<close>

fun sse_stream :: "json_parser \<Rightarrow> string list \<Rightarrow> decoder \<Rightarrow> json list result" where
  "sse_stream parse [] d = and_then (sse_feed parse [] True d) (\<lambda>(_, es). Inr es)"
| "sse_stream parse (c # cs) d =
     and_then (sse_feed parse c False d) (\<lambda>(d, es). and_then (sse_stream parse cs d) (\<lambda>fs. Inr (es @ fs)))"

section \<open>Events already emitted do not matter\<close>

definition shift_events :: "json list \<Rightarrow> (decoder \<times> json list) result \<Rightarrow> (decoder \<times> json list) result" where
  "shift_events es r = (case r of Inl e \<Rightarrow> Inl e | Inr (d, fs) \<Rightarrow> Inr (d, es @ fs))"

lemma shift_dispatch: "sse_dispatch parse (d, es @ fs) = shift_events es (sse_dispatch parse (d, fs))"
  by (simp add: sse_dispatch_def shift_events_def Let_def split: option.split)

lemma shift_end_line: "sse_end_line parse (d, es @ fs) = shift_events es (sse_end_line parse (d, fs))"
  by (simp add: sse_end_line_def shift_dispatch) (simp add: shift_events_def)

lemma shift_byte: "sse_byte parse b (d, es @ fs) = shift_events es (sse_byte parse b (d, fs))"
  by (simp add: sse_byte_def shift_end_line Let_def) (simp add: shift_events_def)

lemma shift_bytes: "sse_bytes parse bs (d, es @ fs) = shift_events es (sse_bytes parse bs (d, fs))"
  unfolding sse_bytes_def
proof (induction bs arbitrary: d fs)
  case Nil
  then show ?case by (simp add: shift_events_def)
next
  case (Cons b bs)
  show ?case
  proof (cases "sse_byte parse b (d, fs)")
    case (Inl e)
    then show ?thesis by (simp add: shift_byte shift_events_def)
  next
    case (Inr s)
    obtain d' gs where s: "s = (d', gs)" by (rule prod.exhaust)
    with Inr Cons show ?thesis by (simp add: shift_byte) (simp add: shift_events_def)
  qed
qed

lemma shift_eof: "sse_eof parse (d, es @ fs) = shift_events es (sse_eof parse (d, fs))"
proof (cases "de_line d = []")
  case True
  then show ?thesis by (simp add: sse_eof_def shift_dispatch)
next
  case False
  show ?thesis
  proof (cases "sse_end_line parse (d, fs)")
    case (Inl e)
    with False show ?thesis by (simp add: sse_eof_def shift_end_line shift_events_def)
  next
    case (Inr s)
    obtain d' gs where s: "s = (d', gs)" by (rule prod.exhaust)
    with Inr False shift_end_line [of parse d es fs] show ?thesis
      by (simp add: sse_eof_def shift_dispatch) (simp add: shift_events_def shift_dispatch)
  qed
qed

definition events_of :: "(decoder \<times> json list) result \<Rightarrow> json list result" where
  "events_of r = and_then r (\<lambda>(_, es). Inr es)"

lemma sse_stream_whole:
  "sse_stream parse cs d = events_of (and_then (sse_bytes parse (concat cs) (d, [])) (sse_eof parse))"
proof (induction cs arbitrary: d)
  case Nil
  then show ?case by (simp add: sse_feed_def sse_bytes_def events_of_def)
next
  case (Cons c cs)
  show ?case
  proof (cases "sse_bytes parse c (d, [])")
    case (Inl e)
    then show ?thesis by (simp add: sse_feed_def sse_bytes_def fold_result_append events_of_def)
  next
    case (Inr s)
    obtain d' es where s: "s = (d', es)" by (rule prod.exhaust)
    have "sse_bytes parse (concat cs) (d', es) = shift_events es (sse_bytes parse (concat cs) (d', []))"
      using shift_bytes [of parse "concat cs" d' es "[]"] by simp
    moreover have "sse_eof parse (d'', es @ fs) = shift_events es (sse_eof parse (d'', fs))" for d'' fs
      by (rule shift_eof)
    ultimately show ?thesis
      using Inr s Cons [of d']
      by (cases "sse_bytes parse (concat cs) (d', [])"; cases "sse_eof parse (projr (sse_bytes parse (concat cs) (d', [])))")
        (auto simp: sse_feed_def sse_bytes_def fold_result_append events_of_def shift_events_def)
  qed
qed

section \<open>Encoded events\<close>

definition encode_event :: "string \<Rightarrow> string" where
  "encode_event s = ''data: '' @ s @ [CHR 0x0A, CHR 0x0A]"

definition plain_line :: "string \<Rightarrow> bool" where
  "plain_line s \<longleftrightarrow> CHR 0x0A \<notin> set s \<and> CHR 0x0D \<notin> set s"

text \<open>A decoder between two events.\<close>

definition idle :: "decoder \<Rightarrow> bool" where
  "idle d \<longleftrightarrow> de_line d = [] \<and> de_data d = [] \<and> \<not> de_after_cr d \<and> \<not> de_done d \<and> de_frame_bytes d = 0"

lemma sse_bytes_append:
  "sse_bytes parse (xs @ ys) s = and_then (sse_bytes parse xs s) (sse_bytes parse ys)"
  by (simp add: sse_bytes_def fold_result_append) (simp add: and_then_def sse_bytes_def [abs_def])

lemma sse_line:
  assumes "plain_line s" and "de_frame_bytes d + length s \<le> SSE_MAX_FRAME"
  shows "sse_bytes parse s (d, es) = Inr (d\<lparr>de_line := de_line d @ s,
      de_frame_bytes := de_frame_bytes d + length s, de_after_cr := (de_after_cr d \<and> s = [])\<rparr>, es)"
  using assms
proof (induction s arbitrary: d)
  case Nil
  then show ?case by (simp add: sse_bytes_def)
next
  case (Cons b s)
  have b: "b \<noteq> CHR 0x0A" "b \<noteq> CHR 0x0D" "plain_line s" using Cons.prems(1) by (auto simp: plain_line_def)
  let ?d = "d\<lparr>de_line := de_line d @ [b], de_frame_bytes := de_frame_bytes d + 1, de_after_cr := False\<rparr>"
  have "sse_byte parse b (d, es) = Inr (?d, es)" using b Cons.prems(2) by (simp add: sse_byte_def)
  moreover have "sse_bytes parse s (?d, es) = Inr (?d\<lparr>de_line := de_line ?d @ s,
      de_frame_bytes := de_frame_bytes ?d + length s, de_after_cr := (de_after_cr ?d \<and> s = [])\<rparr>, es)"
    using Cons.prems(2) by (intro Cons.IH b(3)) simp
  ultimately show ?case by (simp add: sse_bytes_def)
qed

lemma decode_event:
  assumes d: "idle d" and s: "plain_line s" "s \<noteq> []" "s \<noteq> ''[DONE]''" "valid_utf8 (''data: '' @ s)"
    and fits: "length s + 8 \<le> SSE_MAX_FRAME" and v: "parse s = Some v"
  shows "\<exists>d'. sse_bytes parse (encode_event s) (d, es) = Inr (d', es @ [v]) \<and> idle d'"
proof -
  let ?l = "''data: '' @ s"
  have l: "plain_line ?l" using s(1) by (auto simp: plain_line_def)
  let ?d = "d\<lparr>de_line := ?l, de_frame_bytes := length s + 6, de_after_cr := False\<rparr>"
  have "sse_bytes parse ?l (d, es) = Inr (?d, es)"
    using sse_line [OF l, of d parse es] d fits by (simp add: idle_def)
  moreover have "sse_bytes parse [CHR 0x0A, CHR 0x0A] (?d, es) =
      Inr (?d\<lparr>de_line := [], de_data := [], de_frame_bytes := 0\<rparr>, es @ [v])"
  proof -
    let ?e = "?d\<lparr>de_line := [], de_data := s @ [CHR 0x0A], de_frame_bytes := length s + 7\<rparr>"
    let ?f = "?d\<lparr>de_frame_bytes := length s + 7\<rparr>"
    have data: "strip_prefix ''data:'' (de_line ?f) = Some ('' '' @ s)"
      using strip_prefix_append [of "''data:''" "'' '' @ s"] by simp
    have line: "de_line ?f \<noteq> []" "valid_utf8 (de_line ?f)" "de_data ?f = []"
      using s(4) d by (simp_all add: idle_def)
    have "sse_end_line parse (?f, es) = Inr (?f\<lparr>de_data := s @ [CHR 0x0A], de_line := []\<rparr>, es)"
      using line by (simp only: sse_end_line_def split_conv data if_False not_True_eq_False option.case
          strip_prefix_append or_self_def append_Nil)
    moreover have "sse_byte parse (CHR 0x0A) (?d, es) = sse_end_line parse (?f, es)"
      using fits by (simp add: sse_byte_def add.commute)
    ultimately have 1: "sse_byte parse (CHR 0x0A) (?d, es) = Inr (?e, es)" by simp
    have "sse_byte parse (CHR 0x0A) (?e, es) = sse_end_line parse (?e\<lparr>de_frame_bytes := length s + 8\<rparr>, es)"
      using fits by (cases d) (simp add: sse_byte_def add.commute)
    also have "\<dots> = sse_dispatch parse (?e\<lparr>de_frame_bytes := length s + 8\<rparr>, es)"
      by (simp add: sse_end_line_def)
    finally have "sse_byte parse (CHR 0x0A) (?e, es) = sse_dispatch parse (?e\<lparr>de_frame_bytes := length s + 8\<rparr>, es)" .
    moreover have "sse_dispatch parse (?e\<lparr>de_frame_bytes := length s + 8\<rparr>, es) =
        Inr (?d\<lparr>de_line := [], de_data := [], de_frame_bytes := 0\<rparr>, es @ [v])"
      using s(2,3) d v by (simp add: sse_dispatch_def idle_def)
    ultimately show ?thesis using 1 by (simp add: sse_bytes_def)
  qed
  ultimately have "sse_bytes parse (encode_event s) (d, es) =
      Inr (?d\<lparr>de_line := [], de_data := [], de_frame_bytes := 0\<rparr>, es @ [v])"
    using sse_bytes_append [of parse ?l "[CHR 0x0A, CHR 0x0A]" "(d, es)"] by (simp add: encode_event_def)
  then show ?thesis using d by (simp add: idle_def)
qed

definition good_event :: "json_parser \<Rightarrow> (json \<Rightarrow> string) \<Rightarrow> json \<Rightarrow> bool" where
  "good_event parse show_json v \<longleftrightarrow> parse (show_json v) = Some v \<and> plain_line (show_json v) \<and>
     show_json v \<noteq> [] \<and> show_json v \<noteq> ''[DONE]'' \<and> valid_utf8 (show_json v) \<and>
     length (show_json v) + 8 \<le> SSE_MAX_FRAME"

lemma decode_events:
  assumes "idle d" and "\<forall>v \<in> set vs. good_event parse show_json v"
  shows "\<exists>d'. sse_bytes parse (concat (List.map (\<lambda>v. encode_event (show_json v)) vs)) (d, es) =
      Inr (d', es @ vs) \<and> idle d'"
  using assms
proof (induction vs arbitrary: d es)
  case Nil
  then show ?case by (simp add: sse_bytes_def)
next
  case (Cons v vs)
  have v: "good_event parse show_json v" using Cons.prems(2) by simp
  then have "valid_utf8 (''data: '' @ show_json v)" by (simp add: good_event_def byte_of_def)
  with decode_event [OF Cons.prems(1), of "show_json v" parse v es] v obtain d1
    where 1: "sse_bytes parse (encode_event (show_json v)) (d, es) = Inr (d1, es @ [v])" "idle d1"
    by (auto simp: good_event_def)
  from Cons.IH [OF 1(2), of "es @ [v]"] Cons.prems(2) 1 show ?case
    by (auto simp: sse_bytes_append)
qed

section \<open>The lines and events of a prelude\<close>

text \<open>
  The lines that are complete, without their terminators, and what follows the last of
  them; then the data of the complete events.
\<close>

fun split_lines :: "string \<Rightarrow> string list \<times> string" where
  "split_lines [] = ([], [])"
| "split_lines (c # s) =
     (let (ls, rest) = split_lines s in
      if c = CHR 0x0A then ([] # ls, rest)
      else case ls of [] \<Rightarrow> ([], c # rest) | l # ls' \<Rightarrow> ((c # l) # ls', rest))"

definition trim_cr :: "string \<Rightarrow> string" where
  "trim_cr l = (if l \<noteq> [] \<and> last l = CHR 0x0D then butlast l else l)"

definition data_line :: "string \<Rightarrow> string \<Rightarrow> string" where
  \<comment> \<open>the data after a line that is not empty\<close>
  "data_line l data =
     (case strip_prefix ''data:'' l of
        None \<Rightarrow> data
      | Some part \<Rightarrow> (if data \<noteq> [] then data @ [CHR 0x0A] else data) @ or_self (strip_prefix '' '' part) part)"

fun event_blocks :: "string list \<Rightarrow> string \<Rightarrow> string list \<times> string" where
  "event_blocks [] data = ([], data)"
| "event_blocks (l # ls) data =
     (if trim_cr l = [] then
        (if data \<noteq> [] then (let (bs, d) = event_blocks ls [] in (data # bs, d)) else event_blocks ls [])
      else event_blocks ls (data_line (trim_cr l) data))"

section \<open>Properties\<close>

text \<open>
  C28. Decoding does not depend on the chunks: however the network cuts a stream, and
  wherever a chunk ends inside a line, a carriage return or a character, the decoder
  returns the same events or the same error.
\<close>

theorem sse_chunks_do_not_matter:
  assumes "concat cs = concat cs'"
  shows "sse_stream parse cs d = sse_stream parse cs' d"
  using assms by (simp add: sse_stream_whole)

theorem sse_chunks_do_not_matter_witness:
  "sse_stream (\<lambda>s. Some (JString s)) [''data: a'' @ [CHR 0x0D], [CHR 0x0A, CHR 0x0A]] decoder_new =
   sse_stream (\<lambda>s. Some (JString s)) [''data: a'' @ [CHR 0x0D, CHR 0x0A, CHR 0x0A]] decoder_new"
  by (rule sse_chunks_do_not_matter) simp

text \<open>
  What is encoded is decoded: a stream of events, each one data line of JSON text
  and a blank line, cut anywhere, gives back exactly those events in order.
\<close>

theorem sse_events_round_trip:
  assumes "\<forall>v \<in> set vs. good_event parse show_json v"
    and "concat cs = concat (List.map (\<lambda>v. encode_event (show_json v)) vs)"
  shows "sse_stream parse cs decoder_new = Inr vs"
proof -
  have "idle decoder_new" by (simp add: idle_def decoder_new_def)
  from decode_events [OF this assms(1), of "[]"] obtain d'
    where d': "sse_bytes parse (concat cs) (decoder_new, []) = Inr (d', vs)" "idle d'"
    using assms(2) by auto
  then have "sse_eof parse (d', vs) = Inr (d'\<lparr>de_frame_bytes := 0\<rparr>, vs)"
    by (simp add: sse_eof_def sse_dispatch_def idle_def)
  with d' show ?thesis by (simp add: sse_stream_whole events_of_def)
qed

theorem sse_events_round_trip_witness:
  "sse_stream (\<lambda>s. Some (JInt (int (length s)))) [''dat'', ''a: 17'' @ [CHR 0x0A], [CHR 0x0A]] decoder_new =
   Inr [JInt 2]"
proof (rule sse_events_round_trip)
  show "\<forall>v \<in> set [JInt 2]. good_event (\<lambda>s. Some (JInt (int (length s)))) (\<lambda>_. ''17'') v"
    by (simp add: good_event_def plain_line_def byte_of_def SSE_MAX_FRAME_def)
  show "concat [''dat'', ''a: 17'' @ [CHR 0x0A], [CHR 0x0A]] =
      concat (List.map (\<lambda>v. encode_event ((\<lambda>_. ''17'') v)) [JInt 2])" by (simp add: encode_event_def)
qed

end
