(* ===== verification/Fallback.thy ===== *)
theory Fallback
  imports Event_Stream
begin

text \<open>
  Model fallbacks of the proxy (\<open>src/packages/hey-proxy/src/fallback.rs\<close>): validation of
  the rules, and the classification of upstream failures that decides whether a request
  may be repeated on another model. Validation is shown to bound every chain, and a
  stream to be given up only before any output.
\<close>

section \<open>Rules\<close>

type_synonym fallbacks = "(string \<times> string list) list" \<comment> \<open>ordered by source\<close>

definition MAX_ATTEMPTS :: nat where "MAX_ATTEMPTS = 16"

definition canonical :: "string \<Rightarrow> string" where
  "canonical model = or_self (strip_prefix ''openai/'' model) model"

definition targets :: "fallbacks \<Rightarrow> string \<Rightarrow> string list" where
  "targets fs model =
     (let model = canonical model in
      case map_of fs model of
        Some ts \<Rightarrow> ts
      | None \<Rightarrow> (case map_of fs (''openai/'' @ model) of None \<Rightarrow> [] | Some ts \<Rightarrow> ts))"

definition valid_model_name :: "string \<Rightarrow> bool" where
  "valid_model_name name \<longleftrightarrow> name \<noteq> [] \<and> canonical name \<noteq> [] \<and> length name \<le> 256 \<and> \<not> has_space_or_control name"

type_synonym depths = "string \<rightharpoonup> nat"

text \<open>
  The depth-first search of the chains from a model. \<open>active\<close> is the path to it, which
  never holds more than sixteen names, so the recursion ends.
\<close>

function visit :: "fallbacks \<Rightarrow> string \<Rightarrow> string list \<Rightarrow> depths \<Rightarrow> (nat \<times> depths) result"
  and visit_targets :: "fallbacks \<Rightarrow> string list \<Rightarrow> string list \<Rightarrow> nat \<Rightarrow> depths \<Rightarrow> (nat \<times> depths) result" where
  "visit fs raw active depths =
     (let name = canonical raw in
      case depths name of
        Some depth \<Rightarrow> Inr (depth, depths)
      | None \<Rightarrow>
          if name \<in> set active then Inl ''Fallback cycle''
          else if length (name # active) > MAX_ATTEMPTS then Inl ''Fallback chain exceeds 16 models''
          else and_then (visit_targets fs (targets fs name) (name # active) 1 depths) (\<lambda>(depth, depths).
            if depth > MAX_ATTEMPTS then Inl ''Fallback chain exceeds 16 models''
            else Inr (depth, depths(name \<mapsto> depth))))"
| "visit_targets fs [] active depth depths = Inr (depth, depths)"
| "visit_targets fs (t # ts) active depth depths =
     and_then (visit fs t active depths) (\<lambda>(d, depths).
       visit_targets fs ts active (max depth (1 + d)) depths)"
  by pat_completeness auto
termination
  by (relation "measures [\<lambda>x. case x of Inl (fs, raw, active, depths) \<Rightarrow> 17 - length active
        | Inr (fs, ts, active, depth, depths) \<Rightarrow> 17 - length active,
      \<lambda>x. case x of Inl _ \<Rightarrow> 0 | Inr (fs, ts, active, depth, depths) \<Rightarrow> Suc (length ts)]")
    (auto simp: MAX_ATTEMPTS_def)

declare visit.simps [simp del]

definition check_targets :: "string list \<Rightarrow> unit result" where
  "check_targets ts = ensure (list_all valid_model_name ts \<and> distinct (List.map canonical ts))
     ''Fallback targets must be valid unique model names''"

fun validate_rules :: "fallbacks \<Rightarrow> (string \<times> string list) list \<Rightarrow> string list \<Rightarrow> depths \<Rightarrow> unit result" where
  "validate_rules fs [] sources depths = Inr ()"
| "validate_rules fs ((source, ts) # rest) sources depths =
     (if \<not> valid_model_name source \<or> canonical source \<in> set sources
      then Inl ''Fallback sources must be valid unique upstream model names''
      else if length ts \<ge> MAX_ATTEMPTS then Inl ''At most 15 fallback targets per rule''
      else and_then (check_targets ts) (\<lambda>_. and_then (visit fs source [] depths) (\<lambda>(_, depths).
        validate_rules fs rest (canonical source # sources) depths)))"

definition validate_fallbacks :: "fallbacks \<Rightarrow> unit result" where
  "validate_fallbacks fs =
     (if length fs > 1024 then Inl ''At most 1024 fallback rules are supported''
      else validate_rules fs fs [] Map.empty)"

section \<open>Classifying requests and failures\<close>

fun local_tool :: "json \<Rightarrow> bool" where
  "local_tool (JObject kvs) =
     (case map_of kvs ''type'' of
        Some (JString k) \<Rightarrow>
          k = ''function'' \<or> k = ''custom'' \<or>
          (k = ''namespace'' \<and> (\<exists>(key, v) \<in> set kvs. key = ''tools'' \<and> map_of kvs ''tools'' = Some v \<and>
             (case v of JArray ts \<Rightarrow> (\<forall>t \<in> set ts. local_tool t) | _ \<Rightarrow> False)))
      | _ \<Rightarrow> False)"
| "local_tool _ = False"

definition replay_blocker :: "json \<Rightarrow> string option" where
  "replay_blocker request =
     (let present = (\<lambda>key. case json_get request key of None \<Rightarrow> False | Some v \<Rightarrow> v \<noteq> JNull) in
      if present ''previous_response_id'' \<or> present ''conversation'' then Some ''server_side_conversation''
      else if json_index request ''background'' = JBool True then Some ''background_request''
      else (case as_array (json_index request ''tools'') of
              Some tools \<Rightarrow> if \<not> list_all local_tool tools then Some ''hosted_tools'' else None
            | None \<Rightarrow> None))"

definition permanent_codes :: "string list" where
  "permanent_codes = [''insufficient_quota'', ''invalid_prompt'', ''invalid_request_error'',
     ''billing_hard_limit_reached'', ''billing_not_active'', ''invalid_api_key'', ''authentication_error'',
     ''permission_error'', ''credit_balance_exhausted'', ''organization_spend_limit_exceeded'',
     ''project_spend_limit_exceeded'', ''context_length_exceeded'', ''content_policy_violation'',
     ''cyber_policy'', ''bio_policy'', ''misalignment_policy_violation'', ''content_filter'',
     ''UNAUTHENTICATED'', ''PERMISSION_DENIED'', ''INVALID_ARGUMENT'', ''NOT_FOUND'',
     ''FAILED_PRECONDITION'', ''OUT_OF_RANGE'', ''UNIMPLEMENTED'', ''ALREADY_EXISTS'']"

definition permanent :: "json \<Rightarrow> bool" where
  "permanent err = list_ex (\<lambda>key. case as_str (json_index err key) of
       None \<Rightarrow> False
     | Some code \<Rightarrow> code \<in> set permanent_codes \<or> contains_text ''security'' (to_ascii_lowercase code) \<or>
         contains_text ''safety'' (to_ascii_lowercase code))
     [''code'', ''type'', ''gemini_status'']"

definition at_pointer :: "json \<Rightarrow> string list \<Rightarrow> (json \<Rightarrow> bool) \<Rightarrow> bool" where
  "at_pointer v p P = (case json_pointer v p of None \<Rightarrow> False | Some x \<Rightarrow> P x)"

definition has_output :: "json \<Rightarrow> bool" where
  "has_output v \<longleftrightarrow>
     list_ex (\<lambda>p. at_pointer v p (\<lambda>x. case as_array x of None \<Rightarrow> False | Some xs \<Rightarrow> xs \<noteq> []))
       [[''response'', ''output''], [''output'']] \<or>
     list_ex (\<lambda>p. at_pointer v p (\<lambda>x. case as_u64 x of None \<Rightarrow> False | Some n \<Rightarrow> n > 0))
       [[''response'', ''usage'', ''output_tokens''], [''usage'', ''output_tokens'']]"

definition TRANSIENT_STATUS :: "nat list" where
  "TRANSIENT_STATUS = [408, 429, 500, 502, 503, 504, 529]"

definition transient_http :: "json_parser \<Rightarrow> nat \<Rightarrow> string \<Rightarrow> bool" where
  "transient_http parse status body \<longleftrightarrow>
     (let v = (case parse body of None \<Rightarrow> JNull | Some v \<Rightarrow> v) in
      \<not> has_output v \<and>
      \<not> list_ex (\<lambda>p. at_pointer v p permanent) [[''error''], [''response'', ''error'']] \<and>
      status \<in> set TRANSIENT_STATUS)"

datatype prelude = Waiting | Committed | Refused

definition transient_error :: "bool \<Rightarrow> json \<Rightarrow> bool" where
  "transient_error gemini err \<longleftrightarrow>
     (if gemini then as_str (json_index err ''gemini_status'') \<in> Some ` set [''RESOURCE_EXHAUSTED'',
        ''UNAVAILABLE'', ''INTERNAL'', ''DEADLINE_EXCEEDED'', ''ABORTED'', ''UNKNOWN'']
      else as_str (json_index err ''code'') \<in> Some ` set [''server_error'', ''server_is_overloaded'',
        ''capacity_exceeded'', ''rate_limit_exceeded'', ''request_timeout''])"

definition prelude_event :: "json_parser \<Rightarrow> bool \<Rightarrow> string \<Rightarrow> prelude" where
  "prelude_event parse gemini bytes =
     (case parse bytes of
        None \<Rightarrow> Committed
      | Some v \<Rightarrow>
          if has_output v then Committed
          else
            let err = (case json_pointer v [''response'', ''error''] of Some e \<Rightarrow> Some e
                       | None \<Rightarrow> json_get v ''error'');
                kind = as_str (json_index v ''type'')
            in case err of
                 Some e \<Rightarrow>
                   if e \<noteq> JNull then
                     (if permanent e then Committed
                      else if transient_error gemini e \<and>
                        (kind = Some ''response.failed'' \<or> kind = Some ''error'' \<or> json_get v ''type'' = None)
                      then Refused else Committed)
                   else if kind = Some ''response.created'' \<or> kind = Some ''response.in_progress''
                   then Waiting else Committed
               | None \<Rightarrow>
                   if kind = Some ''response.created'' \<or> kind = Some ''response.in_progress''
                   then Waiting else Committed)"

section \<open>The prelude of a stream\<close>

definition MAX_PRELUDE :: nat where "MAX_PRELUDE = 256 * 1024"

record sse_prelude =
  sp_line :: string
  sp_data :: string
  sp_total :: nat
  sp_gemini :: bool
  sp_decision :: prelude

definition sse_prelude_new :: "bool \<Rightarrow> sse_prelude" where
  "sse_prelude_new gemini = \<lparr>sp_line = [], sp_data = [], sp_total = 0, sp_gemini = gemini, sp_decision = Waiting\<rparr>"

definition prelude_byte :: "json_parser \<Rightarrow> char \<Rightarrow> sse_prelude \<Rightarrow> sse_prelude" where
  "prelude_byte parse b s =
     (if sp_decision s \<noteq> Waiting then s
      else
        let s = s\<lparr>sp_total := sp_total s + 1\<rparr> in
        if sp_total s \<ge> MAX_PRELUDE then s\<lparr>sp_decision := Committed\<rparr>
        else if b \<noteq> CHR 0x0A then s\<lparr>sp_line := sp_line s @ [b]\<rparr>
        else
          let line = trim_cr (sp_line s) in
          (if line = [] then
             (if sp_data s \<noteq> []
              then s\<lparr>sp_decision := prelude_event parse (sp_gemini s) (sp_data s), sp_data := []\<rparr> else s)
           else s\<lparr>sp_data := data_line line (sp_data s)\<rparr>)\<lparr>sp_line := []\<rparr>)"

text \<open>The loop breaks at the first decision; the bytes after it change nothing.\<close>

definition prelude_feed :: "json_parser \<Rightarrow> string \<Rightarrow> sse_prelude \<Rightarrow> sse_prelude \<times> prelude" where
  "prelude_feed parse bytes s = (let s = fold (prelude_byte parse) bytes s in (s, sp_decision s))"

section \<open>Validated rules have short chains\<close>

text \<open>
  A chain is a sequence of names as the configuration spells them, each a target of the
  one before. The search compares canonical names instead, and the heights bound it.
\<close>

fun chain :: "fallbacks \<Rightarrow> string list \<Rightarrow> bool" where
  "chain fs (a # b # ns) = (b \<in> set (targets fs a) \<and> chain fs (b # ns))"
| "chain fs _ = True"

fun height_le :: "fallbacks \<Rightarrow> string \<Rightarrow> nat \<Rightarrow> bool" where
  "height_le fs n 0 = False"
| "height_le fs n (Suc k) = (\<forall>t \<in> set (targets fs n). height_le fs (canonical t) k)"

definition rule_names :: "fallbacks \<Rightarrow> string set" where
  "rule_names fs = (\<Union>(source, ts) \<in> set fs. insert source (set ts))"

definition single_prefix :: "string \<Rightarrow> bool" where
  \<comment> \<open>the optional prefix stands at most once\<close>
  "single_prefix n \<longleftrightarrow> canonical (canonical n) = canonical n"

definition memo_ok :: "fallbacks \<Rightarrow> depths \<Rightarrow> bool" where
  "memo_ok fs d \<longleftrightarrow> (\<forall>n k. d n = Some k \<longrightarrow> height_le fs n k \<and> k \<le> MAX_ATTEMPTS)"

lemma height_mono: "height_le fs n k \<Longrightarrow> k \<le> m \<Longrightarrow> height_le fs n m"
proof (induction k arbitrary: n m)
  case (Suc k)
  then obtain m' where "m = Suc m'" "k \<le> m'" by (cases m) auto
  with Suc show ?case by auto
qed simp

lemma visit_sound:
  "visit fs raw active d = Inr (k, d') \<Longrightarrow> memo_ok fs d \<Longrightarrow>
     memo_ok fs d' \<and> height_le fs (canonical raw) k \<and> k \<le> MAX_ATTEMPTS"
  "visit_targets fs ts active n d = Inr (k, d') \<Longrightarrow> memo_ok fs d \<Longrightarrow> 1 \<le> n \<Longrightarrow>
     memo_ok fs d' \<and> n \<le> k \<and> (\<forall>t \<in> set ts. height_le fs (canonical t) (k - 1))"
proof (induction fs raw active d and fs ts active n d arbitrary: k d' and k d' rule: visit_visit_targets.induct)
  case (1 fs raw active d)
  let ?name = "canonical raw"
  show ?case
  proof (cases "d ?name")
    case (Some m)
    with 1 show ?thesis by (auto simp: visit.simps memo_ok_def)
  next
    case None
    with 1(2) have free: "?name \<notin> set active" and len: "\<not> length (?name # active) > MAX_ATTEMPTS"
      by (auto simp: visit.simps Let_def split: if_splits)
    with 1(2) None obtain e where
      run: "visit_targets fs (targets fs ?name) (?name # active) 1 d = Inr (k, e)" "k \<le> MAX_ATTEMPTS"
      "d' = e(?name \<mapsto> k)" by (auto simp: visit.simps Let_def split: if_splits)
    from 1(1) [OF refl None free len run(1) 1(3)]
    have e: "memo_ok fs e" "1 \<le> k" "\<forall>t \<in> set (targets fs ?name). height_le fs (canonical t) (k - 1)" by simp_all
    then have "height_le fs ?name k" by (cases k) auto
    with e run show ?thesis by (auto simp: memo_ok_def)
  qed
next
  case (2 fs active n d)
  then show ?case by simp
next
  case (3 fs t ts active n d)
  from 3(3) obtain a e where v: "visit fs t active d = Inr (a, e)"
    and vs: "visit_targets fs ts active (max n (1 + a)) e = Inr (k, d')" by auto
  from 3(1) [OF v 3(4)] have t: "memo_ok fs e" "height_le fs (canonical t) a" by simp_all
  from 3(2) [OF vs t(1)] have ts: "memo_ok fs d'" "max n (1 + a) \<le> k"
    "\<forall>t \<in> set ts. height_le fs (canonical t) (k - 1)" by simp_all
  then have "height_le fs (canonical t) (k - 1)" using t(2) by (auto intro: height_mono)
  with ts show ?case by simp
qed

lemma validate_rules_sound:
  "validate_rules fs rules sources d = Inr u \<Longrightarrow> memo_ok fs d \<Longrightarrow>
     \<forall>(source, ts) \<in> set rules. height_le fs (canonical source) MAX_ATTEMPTS \<and> length ts < MAX_ATTEMPTS"
proof (induction fs rules sources d rule: validate_rules.induct)
  case (2 fs source ts rest sources d)
  from 2(2) obtain k e where v: "visit fs source [] d = Inr (k, e)"
    and rest: "validate_rules fs rest (canonical source # sources) e = Inr u" and len: "length ts < MAX_ATTEMPTS"
    and names: "valid_model_name source" "canonical source \<notin> set sources" and "check_targets ts = Inr ()"
    by (auto split: if_splits)
  from visit_sound(1) [OF v 2(3)] have "memo_ok fs e" "height_le fs (canonical source) MAX_ATTEMPTS"
    using height_mono by blast+
  with 2(1) [OF _ _ rest] names len show ?case by auto
qed simp

lemma canonical_prefix [simp]: "canonical (''openai/'' @ n) = n"
  by (simp add: canonical_def or_self_def del: append.simps)

lemma targets_rule:
  assumes "targets fs n \<noteq> []"
  obtains source where "(source, targets fs n) \<in> set fs"
    "source = canonical n \<or> source = ''openai/'' @ canonical n"
  using assms that
  by (auto simp: targets_def Let_def simp del: append.simps split: option.splits dest!: map_of_SomeD)

lemma targets_names:
  assumes "t \<in> set (targets fs n)"
  shows "t \<in> rule_names fs"
proof -
  from assms have "targets fs n \<noteq> []" by auto
  then obtain source where "(source, targets fs n) \<in> set fs" by (rule targets_rule)
  with assms show ?thesis unfolding rule_names_def by fastforce
qed

lemma targets_canonical: "single_prefix n \<Longrightarrow> targets fs (canonical n) = targets fs n"
  by (simp add: targets_def single_prefix_def)

lemma height_chain:
  assumes "\<forall>n \<in> rule_names fs. single_prefix n"
  shows "height_le fs (canonical a) k \<Longrightarrow> single_prefix a \<Longrightarrow> chain fs (a # ns) \<Longrightarrow>
     length (a # ns) \<le> k"
proof (induction ns arbitrary: a k)
  case Nil
  then show ?case by (cases k) auto
next
  case (Cons b ns)
  then obtain k' where k: "k = Suc k'" by (cases k) auto
  from Cons.prems have b: "b \<in> set (targets fs a)" by simp
  with Cons.prems k have "height_le fs (canonical b) k'" by (simp add: targets_canonical)
  moreover have "single_prefix b" using assms targets_names [OF b] by blast
  ultimately show ?case using Cons k by auto
qed

lemma validated_sources:
  "validate_rules fs rules sources d = Inr u \<Longrightarrow>
     distinct (List.map (\<lambda>r. canonical (fst r)) rules) \<and>
     (\<forall>r \<in> set rules. canonical (fst r) \<notin> set sources)"
  by (induction fs rules sources d rule: validate_rules.induct) (fastforce split: if_splits)+

lemma same_source:
  assumes "distinct (List.map (\<lambda>r. canonical (fst r)) fs)"
    and "(s, ts) \<in> set fs" and "(s', ts') \<in> set fs" and "canonical s = canonical s'"
  shows "s = s' \<and> ts = ts'"
  using assms by (force simp: distinct_map inj_on_def)

text \<open>The rule that a name finds is the one that its source's canonical name finds.\<close>

lemma targets_of_source:
  assumes "distinct (List.map (\<lambda>r. canonical (fst r)) fs)"
    and "(source, ts) \<in> set fs" and "single_prefix source" and "ts \<noteq> []"
  shows "targets fs (canonical source) = ts"
proof -
  let ?c = "canonical source"
  have c: "canonical ?c = ?c" using assms(3) by (simp add: single_prefix_def)
  have unique: "s = source \<and> xs = ts" if "(s, xs) \<in> set fs" "canonical s = ?c" for s xs
    using same_source [OF assms(1)] that assms(2) by blast
  have "distinct (List.map fst fs)"
    using assms(1) by (auto simp: distinct_map inj_on_def)
  then have found: "map_of fs source = Some ts" using assms(2) by simp
  have "source = ?c \<or> source = ''openai/'' @ ?c"
  proof (cases "strip_prefix ''openai/'' source")
    case None
    then show ?thesis by (simp add: canonical_def or_self_def)
  next
    case (Some n)
    then have "take (length ''openai/'') source = ''openai/''" "drop (length ''openai/'') source = n"
      by (auto simp: strip_prefix_def begins_with_def split: if_splits)
    then have "source = ''openai/'' @ n" by (metis append_take_drop_id)
    with Some show ?thesis by (simp add: canonical_def or_self_def)
  qed
  then show ?thesis
  proof
    assume "source = ?c"
    with found show ?thesis by (simp add: targets_def c)
  next
    assume source: "source = ''openai/'' @ ?c"
    have "map_of fs ?c = None"
    proof (rule ccontr)
      assume "map_of fs ?c \<noteq> None"
      then obtain xs where "map_of fs ?c = Some xs" by blast
      then have "?c = source" using unique [of ?c xs] c by (auto dest: map_of_SomeD)
      with source show False by (metis append_self_conv2 list.distinct(1))
    qed
    with found source show ?thesis by (simp add: targets_def c)
  qed
qed

section \<open>The prelude follows the events\<close>

fun first_decision :: "(string \<Rightarrow> prelude) \<Rightarrow> string list \<Rightarrow> prelude" where
  "first_decision f [] = Waiting"
| "first_decision f (b # bs) = (if f b \<noteq> Waiting then f b else first_decision f bs)"

lemma split_lines_cons_plain:
  "CHR 0x0A \<notin> set l \<Longrightarrow> split_lines (l @ s) =
     (case split_lines s of ([], rest) \<Rightarrow> ([], l @ rest) | (k # ks, rest) \<Rightarrow> ((l @ k) # ks, rest))"
  by (induction l) (auto split: prod.splits list.splits)

lemma split_lines_newline: "CHR 0x0A \<notin> set l \<Longrightarrow> split_lines (l @ CHR 0x0A # s) =
    (l # fst (split_lines s), snd (split_lines s))"
  by (cases "split_lines s") (simp add: split_lines_cons_plain)

lemma prelude_decided: "sp_decision s \<noteq> Waiting \<Longrightarrow> fold (prelude_byte parse) bytes s = s"
  by (induction bytes) (simp_all add: prelude_byte_def)

lemma prelude_follows:
  assumes "sp_decision s = Waiting" and "CHR 0x0A \<notin> set (sp_line s)"
    and "sp_total s + length bytes < MAX_PRELUDE"
  shows "sp_decision (fold (prelude_byte parse) bytes s) =
    first_decision (prelude_event parse (sp_gemini s))
      (fst (event_blocks (fst (split_lines (sp_line s @ bytes))) (sp_data s)))"
  using assms
proof (induction bytes arbitrary: s)
  case Nil
  have "split_lines l = ([], l)" if "CHR 0x0A \<notin> set l" for l
    using split_lines_cons_plain [OF that, of "[]"] by simp
  with Nil show ?case by simp
next
  case (Cons b bytes)
  have room: "\<not> sp_total s + 1 \<ge> MAX_PRELUDE" using Cons.prems(3) by simp
  show ?case
  proof (cases "b = CHR 0x0A")
    case False
    let ?t = "s\<lparr>sp_total := sp_total s + 1, sp_line := sp_line s @ [b]\<rparr>"
    have "prelude_byte parse b s = ?t" using Cons.prems(1) room False by (simp add: prelude_byte_def)
    with Cons.IH [of ?t] Cons.prems False show ?thesis by simp
  next
    case True
    let ?line = "trim_cr (sp_line s)"
    have blocks: "split_lines (sp_line s @ b # bytes) = (sp_line s # fst (split_lines bytes), snd (split_lines bytes))"
      using split_lines_newline [OF Cons.prems(2)] True by simp
    consider (data) "?line \<noteq> []" | (blank) "?line = []" "sp_data s = []" | (event) "?line = []" "sp_data s \<noteq> []"
      by blast
    then show ?thesis
    proof cases
      case data
      let ?t = "s\<lparr>sp_total := sp_total s + 1, sp_data := data_line ?line (sp_data s), sp_line := []\<rparr>"
      have "prelude_byte parse b s = ?t" using Cons.prems(1) room True data by (simp add: prelude_byte_def Let_def)
      with Cons.IH [of ?t] Cons.prems data blocks show ?thesis by simp
    next
      case blank
      let ?t = "s\<lparr>sp_total := sp_total s + 1, sp_line := []\<rparr>"
      have "prelude_byte parse b s = ?t" using Cons.prems(1) room True blank by (simp add: prelude_byte_def Let_def)
      with Cons.IH [of ?t] Cons.prems blank blocks show ?thesis by simp
    next
      case event
      let ?r = "prelude_event parse (sp_gemini s) (sp_data s)"
      let ?t = "s\<lparr>sp_total := sp_total s + 1, sp_decision := ?r, sp_data := [], sp_line := []\<rparr>"
      have run: "prelude_byte parse b s = ?t"
        using Cons.prems(1) room True event by (simp add: prelude_byte_def Let_def)
      show ?thesis
      proof (cases "?r = Waiting")
        case True
        with Cons.IH [of ?t] Cons.prems event blocks run show ?thesis by (simp add: split_def Let_def)
      next
        case False
        with prelude_decided [of ?t] run event blocks show ?thesis by (simp add: split_def Let_def)
      qed
    qed
  qed
qed

lemma first_decision_refused:
  "first_decision f bs = Refused \<Longrightarrow>
     \<exists>before b after. bs = before @ b # after \<and> f b = Refused \<and> (\<forall>x \<in> set before. f x = Waiting)"
proof (induction bs)
  case (Cons b bs)
  show ?case
  proof (cases "f b = Waiting")
    case True
    with Cons obtain before c after where "bs = before @ c # after" "f c = Refused"
      "\<forall>x \<in> set before. f x = Waiting" by auto
    with True show ?thesis by (intro exI [of _ "b # before"] exI [of _ c] exI [of _ after]) simp
  next
    case False
    with Cons.prems show ?thesis by (intro exI [of _ "[]"] exI [of _ b] exI [of _ bs]) (simp split: if_splits)
  qed
qed simp

text \<open>
  What the scanner takes for an event that announces a response, and for a refusal: the
  former are two named kinds, so an event of any other kind, of an unknown one too, is
  neither.
\<close>

definition event_error :: "json \<Rightarrow> json option" where
  "event_error v = (case json_pointer v [''response'', ''error''] of Some e \<Rightarrow> Some e
     | None \<Rightarrow> json_get v ''error'')"

definition announcement :: "json \<Rightarrow> bool" where
  "announcement v \<longleftrightarrow> \<not> has_output v \<and> event_error v \<in> {None, Some JNull} \<and>
     as_str (json_index v ''type'') \<in> {Some ''response.created'', Some ''response.in_progress''}"

definition refusal :: "bool \<Rightarrow> json \<Rightarrow> bool" where
  "refusal gemini v \<longleftrightarrow> \<not> has_output v \<and>
     (\<exists>e. event_error v = Some e \<and> e \<noteq> JNull \<and> \<not> permanent e \<and> transient_error gemini e) \<and>
     (as_str (json_index v ''type'') \<in> {Some ''response.failed'', Some ''error''} \<or>
      json_get v ''type'' = None)"

lemma prelude_event_waiting:
  "prelude_event parse gemini x = Waiting \<longleftrightarrow> (\<exists>v. parse x = Some v \<and> announcement v)"
  by (auto simp: prelude_event_def announcement_def event_error_def Let_def split: option.split)

lemma prelude_event_refused:
  "prelude_event parse gemini x = Refused \<longleftrightarrow> (\<exists>v. parse x = Some v \<and> refusal gemini v)"
  by (auto simp: prelude_event_def refusal_def event_error_def Let_def split: option.split)

lemma prelude_event_silent:
  assumes "prelude_event parse gemini x \<noteq> Committed"
  shows "\<exists>v. parse x = Some v \<and> \<not> has_output v"
  using assms by (auto simp: prelude_event_def split: option.splits if_splits)

section \<open>Properties\<close>

text \<open>
  C33. Validated rules cannot loop. Once a configuration is accepted whose names carry the
  optional prefix at most once, a chain of targets that starts at any model name, looked
  up as the code looks names up, visits at most sixteen models, so it has no cycle.
\<close>

theorem validated_fallbacks_are_bounded:
  assumes "validate_fallbacks fs = Inr ()" and "\<forall>n \<in> rule_names fs. single_prefix n"
    and "chain fs (a # ns)"
  shows "length (a # ns) \<le> MAX_ATTEMPTS"
proof (cases ns)
  case Nil
  then show ?thesis by (simp add: MAX_ATTEMPTS_def)
next
  case (Cons b ms)
  have run: "validate_rules fs fs [] Map.empty = Inr ()"
    using assms(1) by (auto simp: validate_fallbacks_def split: if_splits)
  have "memo_ok fs Map.empty" by (simp add: memo_ok_def)
  from validate_rules_sound [OF run this]
  have height: "height_le fs (canonical source) MAX_ATTEMPTS" if "(source, ts) \<in> set fs" for source ts
    using that by blast
  from Cons assms(3) have b: "b \<in> set (targets fs a)" and rest: "chain fs (b # ms)" by simp_all
  then have ne: "targets fs a \<noteq> []" by auto
  then obtain source where source: "(source, targets fs a) \<in> set fs" by (rule targets_rule)
  then have single: "single_prefix source" using assms(2) by (force simp: rule_names_def)
  then have "single_prefix (canonical source)" by (simp add: single_prefix_def)
  moreover have "chain fs (canonical source # b # ms)"
    using targets_of_source [OF _ source single ne] validated_sources [OF run] b rest by simp
  moreover have "height_le fs (canonical (canonical source)) MAX_ATTEMPTS"
    using height [OF source] single by (simp add: single_prefix_def)
  ultimately show ?thesis using height_chain [OF assms(2)] Cons by fastforce
qed

theorem validated_fallbacks_are_bounded_witness:
  "length [''openai/a'', ''openai/b'', ''c''] \<le> MAX_ATTEMPTS"
proof (rule validated_fallbacks_are_bounded)
  show "validate_fallbacks [(''a'', [''openai/b'', ''c'']), (''openai/b'', [''c''])] = Inr ()" by code_simp
  show "\<forall>n \<in> rule_names [(''a'', [''openai/b'', ''c'']), (''openai/b'', [''c''])]. single_prefix n"
    by code_simp
  show "chain [(''a'', [''openai/b'', ''c'']), (''openai/b'', [''c''])] [''openai/a'', ''openai/b'', ''c'']"
    by code_simp
qed

text \<open>
  The guarantee stops at names with the prefix twice: a rule that falls back to its
  own source passes validation when the source is spelled with two prefixes, although
  the lookup that serves requests finds it.
\<close>

theorem doubly_prefixed_cycle_passes:
  "validate_fallbacks [(''openai/openai/m'', [''openai/openai/m''])] = Inr () \<and>
   targets [(''openai/openai/m'', [''openai/openai/m''])] ''openai/openai/m'' = [''openai/openai/m'']"
  by code_simp

text \<open>
  A stream is abandoned for another model only before any output: if the scanner
  refuses, one of the events it read is a refusal without output and every event before
  it was a lifecycle event without output, however the bytes were cut.
\<close>

theorem refusal_precedes_output:
  assumes "sp_decision (fold (\<lambda>c s. fst (prelude_feed parse c s)) chunks (sse_prelude_new gemini)) = Refused"
    and "length (concat chunks) < MAX_PRELUDE"
  shows "\<exists>before b after. fst (event_blocks (fst (split_lines (concat chunks))) []) = before @ b # after \<and>
     prelude_event parse gemini b = Refused \<and>
     (\<forall>x \<in> set (before @ [b]). \<exists>v. parse x = Some v \<and> \<not> has_output v)"
proof -
  have "fold (\<lambda>c s. fst (prelude_feed parse c s)) chunks s = fold (prelude_byte parse) (concat chunks) s" for s
    by (induction chunks arbitrary: s) (simp_all add: prelude_feed_def Let_def)
  with assms(1) have "sp_decision (fold (prelude_byte parse) (concat chunks) (sse_prelude_new gemini)) = Refused"
    by simp
  moreover have "sp_decision (fold (prelude_byte parse) (concat chunks) (sse_prelude_new gemini)) =
      first_decision (prelude_event parse gemini) (fst (event_blocks (fst (split_lines (concat chunks))) []))"
    using prelude_follows [of "sse_prelude_new gemini" "concat chunks" parse] assms(2)
    by (simp add: sse_prelude_new_def)
  ultimately obtain before b after where
    "fst (event_blocks (fst (split_lines (concat chunks))) []) = before @ b # after"
    "prelude_event parse gemini b = Refused" "\<forall>x \<in> set before. prelude_event parse gemini x = Waiting"
    using first_decision_refused by force
  moreover from this(2,3) have "\<forall>x \<in> set (before @ [b]). prelude_event parse gemini x \<noteq> Committed" by auto
  then have "\<forall>x \<in> set (before @ [b]). \<exists>v. parse x = Some v \<and> \<not> has_output v"
    using prelude_event_silent by blast
  ultimately show ?thesis by blast
qed

definition example_parser :: json_parser where
  "example_parser s = (if s = ''w'' then Some (JObject [(''type'', JString ''response.created'')])
     else if s = ''r'' then Some (JObject [(''error'', JObject [(''code'', JString ''server_error'')])]) else None)"

theorem refusal_precedes_output_witness:
  "\<exists>before b after. fst (event_blocks (fst (split_lines
     (concat [''data: w'' @ [CHR 0x0A, CHR 0x0A], ''data:r'' @ [CHR 0x0A, CHR 0x0A]]))) []) = before @ b # after \<and>
     prelude_event example_parser False b = Refused \<and>
     (\<forall>x \<in> set (before @ [b]). \<exists>v. example_parser x = Some v \<and> \<not> has_output v)"
proof (rule refusal_precedes_output)
  show "sp_decision (fold (\<lambda>c s. fst (prelude_feed example_parser c s))
      [''data: w'' @ [CHR 0x0A, CHR 0x0A], ''data:r'' @ [CHR 0x0A, CHR 0x0A]] (sse_prelude_new False)) = Refused"
  proof -
    have 1: "prelude_event example_parser False ''w'' = Waiting"
      by (simp add: prelude_event_def example_parser_def has_output_def at_pointer_def json_index_def)
    have 2: "prelude_event example_parser False ''r'' = Refused"
      by (simp add: prelude_event_def example_parser_def has_output_def at_pointer_def json_index_def
          permanent_def permanent_codes_def as_str_def transient_error_def to_ascii_lowercase_def lower_char_def
          byte_of_def begins_with_def strip_prefix_def)
    show ?thesis
      by (simp add: prelude_feed_def prelude_byte_def sse_prelude_new_def MAX_PRELUDE_def Let_def trim_cr_def
          data_line_def strip_prefix_def or_self_def 1 2)
  qed
  show "length (concat [''data: w'' @ [CHR 0x0A, CHR 0x0A], ''data:r'' @ [CHR 0x0A, CHR 0x0A]]) < MAX_PRELUDE"
    by (simp add: MAX_PRELUDE_def)
qed

end
