(* ===== verification/Proxy_Config.thy ===== *)
theory Proxy_Config
  imports Accounts
begin

text \<open>
  The configuration of the proxy (\<open>src/packages/hey-proxy/src/config.rs\<close> and
  \<open>config/accounts.rs\<close>): its data, the form it has on disk, its validation, the
  configuration a client relay runs with, and the selection of a named account.
\<close>

section \<open>Data\<close>

datatype api_shape = Responses | ChatCompletions | Messages | Completions | GeminiShape | Realtime

record reasoning_route =
  rr_to :: string
  rr_api_key :: "string option"

record model_alias =
  al_api_shape :: "api_shape option"
  al_reasoning_routes :: "(string \<times> reasoning_route) list"
  al_from :: string
  al_to :: "string option"
  al_reasoning :: "string option"
  al_api_key :: "string option"

record leg =
  leg_provider :: string
  leg_model :: "string option"
  leg_override :: "string option"

record route =
  rt_model :: string
  rt_api_shape :: "api_shape option"
  rt_legs :: "leg list"

datatype account =
    Codex string "string option" "string option" \<comment> \<open>credentials file, endpoint, issuer\<close>
  | Claude auth "string option" "federation option" "string option" "string option"
      \<comment> \<open>authentication, credentials file, federation, workspace, endpoint\<close>
  | Openai string string \<comment> \<open>endpoint, credential\<close>

record retry =
  rt_max_retries :: nat
  rt_initial_delay_ms :: nat
  rt_max_delay_ms :: nat
  rt_recovery_timeout_ms :: nat

definition retry_default :: retry where
  "retry_default = \<lparr>rt_max_retries = 5, rt_initial_delay_ms = 500, rt_max_delay_ms = 30000,
     rt_recovery_timeout_ms = 290000\<rparr>"

record logging =
  lg_enabled :: bool
  lg_detailed :: bool
  lg_database :: "string option"
  lg_queue_capacity :: nat
  lg_batch_size :: nat
  lg_flush_interval_ms :: nat

definition logging_default :: logging where
  "logging_default = \<lparr>lg_enabled = True, lg_detailed = False, lg_database = None,
     lg_queue_capacity = 65536, lg_batch_size = 512, lg_flush_interval_ms = 100\<rparr>"

record client_connection =
  cc_url :: string
  cc_api_key :: string

record socket =
  so_ip :: string
  so_port :: nat

record remote_host =
  rh_host :: string
  rh_bedrock :: "json option"
  rh_gemini_via_controller :: bool
  rh_gemini_model :: "string option"
  rh_mode :: mode
  rh_via :: "string option"
  rh_url :: "string option"
  rh_prepare :: "string list list"
  rh_listen :: "socket option"
  rh_codex_home :: "string option"
  rh_model :: "string option"

datatype ssh_host = Name string | Settings remote_host

definition ssh_name :: "ssh_host \<Rightarrow> string" where
  "ssh_name h = (case h of Name n \<Rightarrow> n | Settings s \<Rightarrow> rh_host s)"

definition ssh_settings :: "ssh_host \<Rightarrow> remote_host option" where
  "ssh_settings h = (case h of Name _ \<Rightarrow> None | Settings s \<Rightarrow> Some s)"

datatype ip_version = Auto | Ipv4 | Ipv6

text \<open>
  The blocks of components that are not modelled (the Gemini and Bedrock providers, the
  model registry, the worker candidates) are kept as their JSON text.
\<close>

record config =
  cf_revision :: string
  cf_routes :: "route list"
  cf_worker_candidates :: "json list"
  cf_overrides :: "(string \<times> (string \<times> model_alias) list) list"
  cf_accounts :: "(string \<times> account) list"
  cf_model_registry :: "json option"
  cf_fallbacks :: fallbacks
  cf_ssh_hosts :: "ssh_host list"
  cf_mode :: mode
  cf_connection :: "client_connection option"
  cf_listen :: socket
  cf_upstream_url :: string
  cf_api_keys :: "(string \<times> string) list"
  cf_gemini :: "json option"
  cf_bedrock :: "json option"
  cf_claude :: "claude_config option"
  cf_codex :: "codex_config option"
  cf_default_key :: string
  cf_credential_cache_seconds :: nat
  cf_aliases :: "model_alias list"
  cf_retry :: retry
  cf_logging :: logging
  cf_auto_approve :: bool
  cf_skip_blocked_security_work :: bool
  cf_ip_version :: ip_version
  cf_proxy_url :: "string option"

definition default_upstream :: string where
  "default_upstream = ''https://api.openai.com''"

definition default_cache_seconds :: nat where
  "default_cache_seconds = 2400"

definition config_default :: "string \<Rightarrow> config" where
  "config_default revision = \<lparr>cf_revision = revision, cf_routes = [], cf_worker_candidates = [],
     cf_overrides = [], cf_accounts = [], cf_model_registry = None, cf_fallbacks = [], cf_ssh_hosts = [],
     cf_mode = Standalone, cf_connection = None, cf_listen = \<lparr>so_ip = ''127.0.0.1'', so_port = 8080\<rparr>,
     cf_upstream_url = default_upstream, cf_api_keys = [], cf_gemini = None, cf_bedrock = None,
     cf_claude = None, cf_codex = None, cf_default_key = ''default'',
     cf_credential_cache_seconds = default_cache_seconds, cf_aliases = [], cf_retry = retry_default,
     cf_logging = logging_default, cf_auto_approve = False, cf_skip_blocked_security_work = False,
     cf_ip_version = Auto, cf_proxy_url = None\<rparr>"

section \<open>The file\<close>

text \<open>The fields of the document, absent ones at their defaults.\<close>

record openai_provider =
  op_upstream_url :: string
  op_api_keys :: "(string \<times> string) list"
  op_default_key :: string
  op_credential_cache_seconds :: nat

record providers =
  pv_bedrock :: "json option"
  pv_claude :: "claude_config option"
  pv_codex :: "codex_config option"
  pv_openai :: "openai_provider option"
  pv_gemini :: "json option"

definition providers_default :: providers where
  "providers_default = \<lparr>pv_bedrock = None, pv_claude = None, pv_codex = None, pv_openai = None, pv_gemini = None\<rparr>"

record config_file =
  fl_auto_approve :: bool
  fl_routes :: "route list"
  fl_worker_candidates :: "json list"
  fl_overrides :: "(string \<times> (string \<times> model_alias) list) list"
  fl_account_schema_version :: "nat option"
  fl_accounts :: "(string \<times> account) list"
  fl_model_registry :: "json option"
  fl_fallbacks :: fallbacks
  fl_providers :: providers
  fl_ssh_hosts :: "ssh_host list"
  fl_mode :: mode
  fl_connection :: "client_connection option"
  fl_listen :: socket
  fl_upstream_url :: string
  fl_api_keys :: "(string \<times> string) list"
  fl_gemini :: "json option"
  fl_default_key :: string
  fl_credential_cache_seconds :: nat
  fl_aliases :: "model_alias list"
  fl_retry :: retry
  fl_logging :: logging
  fl_skip_blocked_security_work :: bool
  fl_ip_version :: ip_version
  fl_proxy_url :: "string option"

definition merge_openai :: "config_file \<Rightarrow> config_file result" where
  "merge_openai f =
     (case pv_openai (fl_providers f) of
        None \<Rightarrow> Inr f
      | Some o1 \<Rightarrow>
          if fl_api_keys f \<noteq> [] \<or> fl_upstream_url f \<noteq> default_upstream \<or> fl_default_key f \<noteq> ''default''
          then Inl ''Use providers.openai or legacy OpenAI fields, not both''
          else Inr (f\<lparr>fl_upstream_url := op_upstream_url o1, fl_api_keys := op_api_keys o1,
            fl_default_key := op_default_key o1, fl_credential_cache_seconds := op_credential_cache_seconds o1\<rparr>))"

definition merge_gemini :: "config_file \<Rightarrow> config_file result" where
  "merge_gemini f =
     (case pv_gemini (fl_providers f) of
        None \<Rightarrow> Inr f
      | Some g \<Rightarrow>
          if fl_gemini f \<noteq> None then Inl ''Use providers.gemini or legacy gemini, not both''
          else Inr (f\<lparr>fl_gemini := Some g\<rparr>))"

definition config_of_file :: "string \<Rightarrow> config_file \<Rightarrow> config result" where
  "config_of_file revision f =
     and_then (ensure (fl_account_schema_version f \<in> {None, Some 1}) ''Unsupported account schema version'') (\<lambda>_.
     and_then (ensure (fl_accounts f = [] \<or> fl_account_schema_version f = Some 1)
       ''Named accounts require account_schema_version 1'') (\<lambda>_.
     and_then (merge_openai f) (\<lambda>f. and_then (merge_gemini f) (\<lambda>f.
     Inr \<lparr>cf_revision = revision, cf_routes = fl_routes f, cf_worker_candidates = fl_worker_candidates f,
       cf_overrides = fl_overrides f, cf_accounts = fl_accounts f, cf_model_registry = fl_model_registry f,
       cf_fallbacks = fl_fallbacks f, cf_ssh_hosts = fl_ssh_hosts f, cf_mode = fl_mode f,
       cf_connection = fl_connection f, cf_listen = fl_listen f, cf_upstream_url = fl_upstream_url f,
       cf_api_keys = fl_api_keys f, cf_gemini = fl_gemini f, cf_bedrock = pv_bedrock (fl_providers f),
       cf_claude = pv_claude (fl_providers f), cf_codex = pv_codex (fl_providers f),
       cf_default_key = fl_default_key f, cf_credential_cache_seconds = fl_credential_cache_seconds f,
       cf_aliases = fl_aliases f, cf_retry = fl_retry f, cf_logging = fl_logging f,
       cf_auto_approve = fl_auto_approve f,
       cf_skip_blocked_security_work = fl_skip_blocked_security_work f,
       cf_ip_version = fl_ip_version f, cf_proxy_url = fl_proxy_url f\<rparr>))))"

text \<open>Writing: what a client relay or an empty collection leaves out reads back as its default.\<close>

definition file_of_config :: "config \<Rightarrow> config_file" where
  "file_of_config c =
     (let relay = cf_mode c = Client in
      \<lparr>fl_auto_approve = cf_auto_approve c,
       fl_routes = (if relay then [] else cf_routes c),
       fl_worker_candidates = (if relay then [] else cf_worker_candidates c),
       fl_overrides = (if relay then [] else cf_overrides c),
       fl_account_schema_version = (if \<not> relay \<and> cf_accounts c \<noteq> [] then Some 1 else None),
       fl_accounts = (if relay then [] else cf_accounts c),
       fl_model_registry = cf_model_registry c,
       fl_fallbacks = (if relay then [] else cf_fallbacks c),
       fl_providers =
         (if relay then providers_default
          else \<lparr>pv_bedrock = cf_bedrock c, pv_claude = cf_claude c, pv_codex = cf_codex c,
            pv_openai = Some \<lparr>op_upstream_url = cf_upstream_url c, op_api_keys = cf_api_keys c,
              op_default_key = cf_default_key c, op_credential_cache_seconds = cf_credential_cache_seconds c\<rparr>,
            pv_gemini = cf_gemini c\<rparr>),
       fl_ssh_hosts = cf_ssh_hosts c, fl_mode = cf_mode c, fl_connection = cf_connection c,
       fl_listen = cf_listen c, fl_upstream_url = default_upstream, fl_api_keys = [], fl_gemini = None,
       fl_default_key = ''default'', fl_credential_cache_seconds = default_cache_seconds,
       fl_aliases = cf_aliases c, fl_retry = cf_retry c, fl_logging = cf_logging c,
       fl_skip_blocked_security_work = cf_skip_blocked_security_work c,
       fl_ip_version = cf_ip_version c, fl_proxy_url = cf_proxy_url c\<rparr>)"

section \<open>The configuration in effect\<close>

definition effective :: "config \<Rightarrow> config" where
  "effective c =
     (case (cf_mode c, cf_connection c) of
        (Client, Some connection) \<Rightarrow>
          c\<lparr>cf_upstream_url := trim_end_char (CHR ''/'') (cc_url connection),
            cf_api_keys := [(''host'', cc_api_key connection)], cf_default_key := ''host'',
            cf_routes := [], cf_overrides := [], cf_aliases := [], cf_fallbacks := [],
            cf_retry := (cf_retry c)\<lparr>rt_max_retries := 0\<rparr>\<rparr>
      | _ \<Rightarrow> c)"

section \<open>Accounts\<close>

definition valid_account_name :: "string \<Rightarrow> bool" where
  "valid_account_name name \<longleftrightarrow> name \<noteq> [] \<and> length name \<le> 128 \<and> name \<noteq> ''default'' \<and>
     list_all (\<lambda>c. ascii_alphanumeric c \<or> c = CHR ''_'' \<or> c = CHR ''-'') name"

definition implementation :: "account \<Rightarrow> string" where
  "implementation a = (case a of Codex _ _ _ \<Rightarrow> ''codex'' | Claude _ _ _ _ _ \<Rightarrow> ''claude'' | Openai _ _ \<Rightarrow> ''openai'')"

definition account_auth :: "account \<Rightarrow> string" where
  "account_auth a = (case a of
       Openai _ _ \<Rightarrow> ''api''
     | Claude Console _ _ _ _ \<Rightarrow> ''console''
     | Claude Wif _ _ _ _ \<Rightarrow> ''wif''
     | _ \<Rightarrow> ''subscription'')"

definition apply_account :: "account \<Rightarrow> config \<Rightarrow> config" where
  "apply_account a c =
     (let s = c\<lparr>cf_claude := None, cf_codex := None, cf_gemini := None, cf_api_keys := [],
        cf_routes := [], cf_worker_candidates := [], cf_overrides := [], cf_aliases := [],
        cf_fallbacks := [], cf_default_key := ''default''\<rparr> in
      case a of
        Codex file endpoint issuer \<Rightarrow>
          s\<lparr>cf_codex := Some (codex_default\<lparr>cx_credentials_file := Some file,
            cx_upstream_url := or_self endpoint (cx_upstream_url codex_default),
            cx_issuer_url := or_self issuer (cx_issuer_url codex_default)\<rparr>)\<rparr>
      | Claude au file fed workspace endpoint \<Rightarrow>
          s\<lparr>cf_claude := Some (claude_default\<lparr>cl_auth := au, cl_workspace_id := workspace,
            cl_federation := fed, cl_credentials_file := file,
            cl_upstream_url := or_self endpoint (cl_upstream_url claude_default)\<rparr>)\<rparr>
      | Openai endpoint credential \<Rightarrow>
          s\<lparr>cf_upstream_url := endpoint, cf_api_keys := [(''default'', credential)]\<rparr>)"

definition account_validate :: "library \<Rightarrow> account \<Rightarrow> unit result" where
  "account_validate lib a =
     (case a of
        Openai endpoint credential \<Rightarrow>
          and_then (validate_root_url lib endpoint) (\<lambda>_.
          (case lib_url lib endpoint of
             None \<Rightarrow> Inl ''relative URL without a base''
           | Some u \<Rightarrow>
               and_then (ensure (url_scheme u = ''https'' \<or>
                   (case url_host u of None \<Rightarrow> False | Some h \<Rightarrow> h = ''localhost'' \<or> lib_loopback lib h))
                 ''Account endpoint requires HTTPS'') (\<lambda>_.
               and_then (ensure (begins_with ''op://'' credential \<or> begins_with ''file://'' credential)
                 ''Named API accounts require a protected credential reference'') (\<lambda>_.
               validate_source lib credential))))
      | Codex file _ _ \<Rightarrow>
          and_then (ensure (file \<noteq> []) ''Account credential store is required'') (\<lambda>_.
          (case cf_codex (apply_account a (config_default [])) of
             None \<Rightarrow> Inl ''unreachable'' | Some p \<Rightarrow> codex_validate lib p))
      | Claude au file _ _ _ \<Rightarrow>
          and_then (ensure (au = Wif \<or> (case file of None \<Rightarrow> False | Some p \<Rightarrow> p \<noteq> []))
            ''Account credential store is required'') (\<lambda>_.
          (case cf_claude (apply_account a (config_default [])) of
             None \<Rightarrow> Inl ''unreachable'' | Some p \<Rightarrow> claude_validate lib p)))"

definition select_account :: "config \<Rightarrow> string \<Rightarrow> string \<Rightarrow> config result" where
  "select_account c name impl =
     and_then (ensure (cf_mode c \<noteq> Client) ''Named credentials belong to the host'') (\<lambda>_.
     (case map_of (cf_accounts c) name of
        None \<Rightarrow> Inl ''Unknown named provider''
      | Some a \<Rightarrow>
          and_then (ensure (implementation a = impl) ''Provider implementation does not match'') (\<lambda>_.
          Inr (apply_account a c))))"

section \<open>Properties\<close>

text \<open>The configuration a relay keeps: what its file does not hold is not its own.\<close>

definition relay_clean :: "config \<Rightarrow> bool" where
  "relay_clean c \<longleftrightarrow> cf_routes c = [] \<and> cf_overrides c = [] \<and> cf_accounts c = [] \<and> cf_api_keys c = [] \<and>
     cf_fallbacks c = [] \<and> cf_worker_candidates c = [] \<and> cf_gemini c = None \<and> cf_bedrock c = None \<and>
     cf_claude c = None \<and> cf_codex c = None \<and> cf_credential_cache_seconds c = default_cache_seconds \<and>
     cf_connection c \<noteq> None"

text \<open>
  A saved configuration is the one that is loaded: for a host the file gives back the
  same configuration, and for a client relay, which saves no policy and no credential,
  the same configuration in effect.
\<close>

theorem config_file_round_trip:
  assumes "cf_mode c = Client \<Longrightarrow> relay_clean c"
  shows "\<exists>d. config_of_file (cf_revision c) (file_of_config c) = Inr d \<and> effective d = effective c \<and>
     (cf_mode c \<noteq> Client \<longrightarrow> d = c)"
proof (cases "cf_mode c = Client")
  case False
  have "config_of_file (cf_revision c) (file_of_config c) = Inr c"
    using False by (cases "cf_gemini c")
      (simp_all add: config_of_file_def file_of_config_def merge_openai_def merge_gemini_def Let_def)
  then show ?thesis by simp
next
  case True
  with assms have c: "relay_clean c" by simp
  then obtain conn where conn: "cf_connection c = Some conn" by (auto simp: relay_clean_def)
  let ?d = "c\<lparr>cf_upstream_url := default_upstream, cf_default_key := ''default''\<rparr>"
  have "config_of_file (cf_revision c) (file_of_config c) = Inr ?d"
    using True c by (simp add: config_of_file_def file_of_config_def merge_openai_def merge_gemini_def Let_def
        providers_default_def relay_clean_def)
  moreover have "effective ?d = effective c"
    using True conn by (simp add: effective_def)
  ultimately show ?thesis using True by simp
qed

definition example_config :: config where
  "example_config = (config_default ''r'')\<lparr>cf_mode := Client,
     cf_connection := Some \<lparr>cc_url = ''http://h/'', cc_api_key = ''k''\<rparr>, cf_upstream_url := ''http://u''\<rparr>"

theorem config_file_round_trip_witness:
  "\<exists>d. config_of_file (cf_revision example_config) (file_of_config example_config) = Inr d \<and>
     effective d = effective example_config \<and> (cf_mode example_config \<noteq> Client \<longrightarrow> d = example_config)"
  by (rule config_file_round_trip) (simp add: relay_clean_def example_config_def config_default_def)

text \<open>
  Selecting a named account leaves exactly its own credential: of the two
  subscription stores and the keys only that of the account's implementation remains, and
  no route, override, alias, fallback or worker can reach another.
\<close>

theorem selected_account_is_the_only_credential:
  assumes "select_account c name impl = Inr s"
  shows "\<exists>a. map_of (cf_accounts c) name = Some a \<and> implementation a = impl \<and>
     cf_routes s = [] \<and> cf_overrides s = [] \<and> cf_aliases s = [] \<and> cf_fallbacks s = [] \<and>
     cf_worker_candidates s = [] \<and> cf_gemini s = None \<and> cf_default_key s = ''default'' \<and>
     (case a of
        Codex file _ _ \<Rightarrow> cf_api_keys s = [] \<and> cf_claude s = None \<and>
          (\<exists>p. cf_codex s = Some p \<and> cx_credentials_file p = Some file)
      | Claude au file fed _ _ \<Rightarrow> cf_api_keys s = [] \<and> cf_codex s = None \<and>
          (\<exists>p. cf_claude s = Some p \<and> cl_auth p = au \<and> cl_credentials_file p = file \<and> cl_federation p = fed)
      | Openai endpoint credential \<Rightarrow> cf_codex s = None \<and> cf_claude s = None \<and>
          cf_upstream_url s = endpoint \<and> cf_api_keys s = [(cf_default_key s, credential)])"
  using assms
  by (auto simp: select_account_def apply_account_def Let_def split: option.splits account.splits)

theorem selected_account_is_the_only_credential_witness:
  "\<exists>a. map_of [(''w'', Codex ''f'' None None)] ''w'' = Some a \<and> implementation a = ''codex''"
proof -
  let ?c = "(config_default [])\<lparr>cf_accounts := [(''w'', Codex ''f'' None None)], cf_api_keys := [(''default'', ''k'')]\<rparr>"
  have "select_account ?c ''w'' ''codex'' = Inr (apply_account (Codex ''f'' None None) ?c)"
    by (simp add: select_account_def implementation_def config_default_def)
  from selected_account_is_the_only_credential [OF this] show ?thesis by auto
qed

text \<open>The endpoint that an account's credential is sent to.\<close>

definition endpoints :: "account \<Rightarrow> config \<Rightarrow> string list" where
  "endpoints a c =
     (let s = apply_account a c in
      case a of
        Openai _ _ \<Rightarrow> [cf_upstream_url s]
      | Codex _ _ _ \<Rightarrow> (case cf_codex s of None \<Rightarrow> [] | Some p \<Rightarrow> [cx_upstream_url p, cx_issuer_url p])
      | Claude _ _ _ _ _ \<Rightarrow> (case cf_claude s of None \<Rightarrow> [] | Some p \<Rightarrow> [cl_upstream_url p]))"

text \<open>
  A validated account never sends its credential in the clear: every endpoint it is
  used at parses to a URL that is HTTPS or on the loopback interface, names a host, and
  carries no user name, password, query or fragment.
\<close>

theorem validated_account_is_protected:
  assumes "account_validate lib a = Inr ()" and "e \<in> set (endpoints a c)"
  shows "\<exists>u. lib_url lib e = Some u \<and> no_credentials u \<and>
     (url_scheme u = ''https'' \<or> url_scheme u = ''http'' \<and> loopback lib u)"
proof (cases a)
  case (Openai endpoint credential)
  with assms show ?thesis
    by (auto simp: account_validate_def endpoints_def apply_account_def Let_def validate_root_url_def
        loopback_def split: option.splits if_splits)
next
  case (Codex store endpoint issuer)
  with assms show ?thesis
    by (auto simp: account_validate_def endpoints_def apply_account_def Let_def codex_validate_def
        codex_url_def split: option.splits if_splits)
next
  case (Claude au store fed workspace endpoint)
  with assms show ?thesis
    by (auto simp: account_validate_def endpoints_def apply_account_def Let_def claude_validate_def
        split: option.splits if_splits)
qed

definition example_library :: library where
  "example_library = \<lparr>lib_url = (\<lambda>s. if s = ''http://localhost'' then
       Some \<lparr>url_scheme = ''http'', url_host = Some ''localhost'', url_username = [], url_password = None,
         url_path = ''/'', url_query = None, url_fragment = None\<rparr> else None),
     lib_loopback = (\<lambda>_. False), lib_header = (\<lambda>_. True)\<rparr>"

theorem validated_account_is_protected_witness:
  "\<exists>u. lib_url example_library ''http://localhost'' = Some u \<and> no_credentials u \<and>
     (url_scheme u = ''https'' \<or> url_scheme u = ''http'' \<and> loopback example_library u)"
proof (rule validated_account_is_protected)
  show "account_validate example_library (Openai ''http://localhost'' ''file:///k'') = Inr ()"
    by (simp add: account_validate_def example_library_def validate_root_url_def no_credentials_def
        validate_source_def begins_with_def strip_prefix_def)
  show "''http://localhost'' \<in> set (endpoints (Openai ''http://localhost'' ''file:///k'') (config_default []))"
    by (simp add: endpoints_def apply_account_def Let_def)
qed

end
