(* ===== verification/Routing.thy ===== *)
theory Routing
  imports Proxy_Config
begin

text \<open>
  Routing of model requests (\<open>src/packages/hey-proxy/src/config.rs\<close> and
  \<open>config/routes.rs\<close>): the shape of an API path, aliases, named routes with their
  provider legs, and the validation of the whole configuration. An accepted
  configuration is shown to resolve every leg of every request it plans, and to choose
  the same route and alias in whatever order they are written.
\<close>

section \<open>API shapes\<close>

definition from_path :: "string \<Rightarrow> api_shape option" where
  "from_path path =
     (let p = trim_end_char (CHR ''/'') path in
      if p \<in> set [''/v1/responses'', ''/responses'', ''/v1/responses/compact'', ''/responses/compact'']
      then Some Responses
      else if p \<in> set [''/v1/chat/completions'', ''/chat/completions'', ''/v1/custom/chat/completions'']
      then Some ChatCompletions
      else if p \<in> set [''/v1/completions'', ''/completions''] then Some Completions
      else if p \<in> set [''/v1/custom/messages'', ''/custom/v1/messages'',
        ''/v1/custom/messages/count_tokens'', ''/custom/v1/messages/count_tokens''] then Some Messages
      else None)"

definition from_route_path :: "string \<Rightarrow> api_shape option" where
  "from_route_path path =
     (case from_path path of
        Some shape \<Rightarrow> Some shape
      | None \<Rightarrow>
          let p = trim_end_char (CHR ''/'') path in
          if p \<in> set [''/v1/messages'', ''/messages'', ''/v1/messages/count_tokens'', ''/messages/count_tokens'']
          then Some Messages
          else if p \<in> set [''/v1/realtime'', ''/realtime'', ''/v1/realtime/sessions'',
            ''/v1/realtime/transcription_sessions''] then Some Realtime
          else if (begins_with ''/v1beta/models/'' p \<or> begins_with ''/v1/models/'' p) \<and>
            list_ex (\<lambda>s. ends_with s p) ['':generateContent'', '':streamGenerateContent'', '':countTokens'']
          then Some GeminiShape
          else None)"

section \<open>Aliases\<close>

definition destination :: "model_alias \<Rightarrow> string option \<Rightarrow> string option \<times> string option" where
  "destination al effort =
     (let route = Option.bind effort (map_of (al_reasoning_routes al)) in
      (case route of Some r \<Rightarrow> Some (rr_to r) | None \<Rightarrow> al_to al,
       case Option.bind route rr_api_key of Some k \<Rightarrow> Some k | None \<Rightarrow> al_api_key al))"

definition alias_matches :: "model_alias \<Rightarrow> string \<Rightarrow> bool" where
  "alias_matches al path = (case al_api_shape al of None \<Rightarrow> True | Some s \<Rightarrow> Some s = from_path path)"

definition alias_for :: "config \<Rightarrow> string \<Rightarrow> string \<Rightarrow> model_alias option" where
  "alias_for c model path = find (\<lambda>al. al_from al = model \<and> alias_matches al path) (cf_aliases c)"

section \<open>Validation of a configuration\<close>

text \<open>The checks of the blocks that are kept as JSON are parameters.\<close>

record validators =
  vd_gemini :: "json \<Rightarrow> unit result"
  vd_bedrock :: "json \<Rightarrow> unit result"
  vd_registry :: "json \<Rightarrow> unit result"
  vd_workers :: "config \<Rightarrow> unit result"

definition given :: "'a option \<Rightarrow> ('a \<Rightarrow> unit result) \<Rightarrow> unit result" where
  "given x check = (case x of None \<Rightarrow> Inr () | Some y \<Rightarrow> check y)"

definition known_key :: "config \<Rightarrow> string option \<Rightarrow> bool" where
  "known_key c key = (case key of None \<Rightarrow> True | Some k \<Rightarrow> map_of (cf_api_keys c) k \<noteq> None)"

definition check_reasoning_route :: "config \<Rightarrow> string \<times> reasoning_route \<Rightarrow> unit \<Rightarrow> unit result" where
  "check_reasoning_route c = (\<lambda>(effort, r) _.
     if all_space effort \<or> all_space (rr_to r) then Inl ''Reasoning route effort and model must be nonempty''
     else ensure (known_key c (rr_api_key r)) ''Reasoning route references an unknown API key project'')"

type_synonym alias_key = "string \<times> api_shape option"

definition check_alias :: "config \<Rightarrow> nat \<times> model_alias \<Rightarrow> alias_key list \<Rightarrow> alias_key list result" where
  "check_alias c = (\<lambda>(i, al) seen.
     and_then (fold_result (check_reasoning_route c) (al_reasoning_routes al) ()) (\<lambda>_.
     if al_from al = [] \<or> (al_from al, al_api_shape al) \<in> set seen
     then Inl ''Alias source names must be nonempty and unique per API shape''
     else if list_ex (\<lambda>(j, other). i \<noteq> j \<and> al_from al = al_from other \<and>
         (al_api_shape al = None \<or> al_api_shape other = None)) (enumerate 0 (cf_aliases c))
     then Inl ''Alias API shapes must not overlap for the same source name''
     else if (case al_to al of None \<Rightarrow> False | Some s \<Rightarrow> all_space s) \<or>
         (case al_reasoning al of None \<Rightarrow> False | Some s \<Rightarrow> all_space s)
     then Inl ''Alias model and reasoning values must be nonempty''
     else if \<not> known_key c (al_api_key al) then Inl ''Alias references an unknown API key project''
     else Inr ((al_from al, al_api_shape al) # seen)))"

definition check_proxy_url :: "library \<Rightarrow> string \<Rightarrow> unit result" where
  "check_proxy_url lib proxy =
     (case lib_url lib proxy of
        None \<Rightarrow> Inl ''Invalid proxy_url''
      | Some u \<Rightarrow> ensure (url_scheme u \<in> {''http'', ''https'', ''socks5'', ''socks5h''} \<and>
          no_credentials u \<and> url_path u \<in> {'''', ''/''})
          ''proxy_url must be an HTTP(S) or SOCKS5 URL without credentials, path, query, or fragment'')"

definition check_upstream :: "library \<Rightarrow> string \<Rightarrow> unit result" where
  "check_upstream lib upstream =
     (case lib_url lib upstream of
        None \<Rightarrow> Inl ''Invalid upstream_url''
      | Some u \<Rightarrow> ensure (url_scheme u \<in> {''http'', ''https''} \<and> no_credentials u)
          ''upstream_url must be an HTTP(S) URL without credentials, query, or fragment'')"

definition check_retry :: "retry \<Rightarrow> unit result" where
  "check_retry r = ensure (rt_max_retries r \<le> 20 \<and> rt_max_delay_ms r \<le> 300000 \<and>
       rt_initial_delay_ms r \<le> rt_max_delay_ms r \<and> rt_recovery_timeout_ms r \<le> 3600000)
     ''Retry limits: max_retries <= 20, initial_delay_ms <= max_delay_ms <= 300000, recovery_timeout_ms <= 3600000''"

definition validate_routing :: "library \<Rightarrow> validators \<Rightarrow> config \<Rightarrow> unit result" where
  "validate_routing lib vd c =
     and_then (given (cf_proxy_url c) (check_proxy_url lib)) (\<lambda>_.
     and_then (validate_fallbacks (cf_fallbacks c)) (\<lambda>_.
     and_then (ensure (1 \<le> cf_credential_cache_seconds c \<and> cf_credential_cache_seconds c \<le> 86400)
       ''OpenAI credential_cache_seconds must be 1..86400'') (\<lambda>_.
     and_then (given (cf_claude c) (claude_validate lib)) (\<lambda>_.
     and_then (given (cf_codex c) (codex_validate lib)) (\<lambda>_.
     and_then (given (cf_gemini c) (vd_gemini vd)) (\<lambda>_.
     and_then (check_upstream lib (cf_upstream_url c)) (\<lambda>_.
     and_then (ensure (list_all (\<lambda>(_, key). is_ok (validate_source lib key)) (cf_api_keys c))
       ''api_keys contains an empty or invalid HTTP header value'') (\<lambda>_.
     and_then (ensure (map_of (cf_api_keys c) (cf_default_key c) \<noteq> None \<or>
         cf_api_keys c = [] \<and> cf_default_key c = ''default'')
       ''default.api_key references an unknown project'') (\<lambda>_.
     and_then (fold_result (check_alias c) (enumerate 0 (cf_aliases c)) []) (\<lambda>_.
     check_retry (cf_retry c)))))))))))"

section \<open>Routes\<close>

definition valid_model :: "string \<Rightarrow> bool" where
  "valid_model model \<longleftrightarrow> model \<noteq> [] \<and> length model \<le> 256 \<and> \<not> has_space_or_control model"

definition overlap :: "api_shape option \<Rightarrow> api_shape option \<Rightarrow> bool" where
  "overlap a b \<longleftrightarrow> a = None \<or> b = None \<or> a = b"

definition find_override :: "config \<Rightarrow> string \<Rightarrow> string \<Rightarrow> model_alias option" where
  "find_override c provider name = Option.bind (map_of (cf_overrides c) provider) (\<lambda>os. map_of os name)"

definition check_override :: "library \<Rightarrow> validators \<Rightarrow> string \<times> model_alias \<Rightarrow> unit \<Rightarrow> unit result" where
  "check_override lib vd = (\<lambda>(name, al) _.
     and_then (ensure (valid_account_name name) ''Invalid override name'') (\<lambda>_.
     and_then (validate_routing lib vd ((config_default [])\<lparr>cf_aliases := [al]\<rparr>)) (\<lambda>_.
     ensure (valid_model (al_from al) \<and> (case al_to al of None \<Rightarrow> True | Some t \<Rightarrow> valid_model t) \<and>
         list_all (\<lambda>(_, r). valid_model (rr_to r)) (al_reasoning_routes al))
       ''Invalid override model'')))"

definition check_overrides :: "library \<Rightarrow> validators \<Rightarrow> config \<Rightarrow> string \<times> (string \<times> model_alias) list \<Rightarrow>
    unit \<Rightarrow> unit result" where
  "check_overrides lib vd c = (\<lambda>(provider, os) _.
     and_then (ensure (map_of (cf_accounts c) provider \<noteq> None) ''Unknown override provider'') (\<lambda>_.
     and_then (ensure (length os \<le> 1024) ''Too many provider overrides'') (\<lambda>_.
     fold_result (check_override lib vd) os ())))"

type_synonym leg_key = "string \<times> string \<times> string option"

definition check_leg :: "config \<Rightarrow> route \<Rightarrow> leg \<Rightarrow> leg_key list \<Rightarrow> leg_key list result" where
  "check_leg c r l seen =
     and_then (ensure (map_of (cf_accounts c) (leg_provider l) \<noteq> None) ''Unknown route provider'') (\<lambda>_.
     let model = or_self (leg_model l) (rt_model r); key = (leg_provider l, model, leg_override l) in
     and_then (ensure (valid_model model) ''Invalid route leg model'') (\<lambda>_.
     and_then (ensure (key \<notin> set seen) ''Duplicate route leg'') (\<lambda>_.
     and_then
       (case leg_override l of
          None \<Rightarrow> Inr ()
        | Some name \<Rightarrow>
            (case find_override c (leg_provider l) name of
               None \<Rightarrow> Inl ''Unknown provider override''
             | Some al \<Rightarrow> ensure (al_from al = model \<and> (al_api_shape al = None \<or> al_api_shape al = rt_api_shape r))
                 ''Override must match its route leg model and API shape'')) (\<lambda>_.
     Inr (key # seen)))))"

definition check_route :: "config \<Rightarrow> nat \<times> route \<Rightarrow> unit \<Rightarrow> unit result" where
  "check_route c = (\<lambda>(i, r) _.
     and_then (ensure (valid_model (rt_model r)) ''Invalid route model'') (\<lambda>_.
     and_then (ensure (rt_model r \<noteq> ''*'' \<or> rt_api_shape r \<noteq> None)
       ''Default routes require api_shape to preserve other provider APIs'') (\<lambda>_.
     and_then (ensure (\<not> list_ex (\<lambda>other. rt_model other = rt_model r \<and> overlap (rt_api_shape other) (rt_api_shape r))
         (take i (cf_routes c))) ''Overlapping model routes'') (\<lambda>_.
     and_then (ensure (rt_legs r \<noteq> [] \<and> length (rt_legs r) \<le> MAX_ATTEMPTS) ''Routes require 1..16 provider legs'') (\<lambda>_.
     and_then (fold_result (check_leg c r) (rt_legs r) []) (\<lambda>_. Inr ()))))))"

definition validate_routes :: "library \<Rightarrow> validators \<Rightarrow> config \<Rightarrow> unit result" where
  "validate_routes lib vd c =
     and_then (ensure (length (cf_routes c) \<le> 1024) ''At most 1024 model routes are supported'') (\<lambda>_.
     and_then (ensure (cf_mode c \<noteq> Client \<or> (cf_routes c = [] \<and> cf_overrides c = []))
       ''Client relays cannot own routing policy'') (\<lambda>_.
     and_then (ensure (length (cf_overrides c) \<le> 128) ''Too many override provider scopes'') (\<lambda>_.
     and_then (fold_result (check_overrides lib vd c) (cf_overrides c) ()) (\<lambda>_.
     fold_result (check_route c) (enumerate 0 (cf_routes c)) ()))))"

definition route_matches :: "string \<Rightarrow> route \<Rightarrow> bool" where
  "route_matches path r = (case rt_api_shape r of None \<Rightarrow> True | Some s \<Rightarrow> Some s = from_route_path path)"

definition position :: "('a \<Rightarrow> bool) \<Rightarrow> 'a list \<Rightarrow> nat option" where
  "position P xs = map_option fst (find (\<lambda>(i, x). P x) (enumerate 0 xs))"

definition route_index :: "config \<Rightarrow> string \<Rightarrow> string \<Rightarrow> nat option" where
  "route_index c model path =
     (if cf_mode c = Client then None
      else case position (\<lambda>r. rt_model r = model \<and> route_matches path r) (cf_routes c) of
        Some i \<Rightarrow> Some i
      | None \<Rightarrow>
          if alias_for c model path \<noteq> None \<or> CHR ''/'' \<in> set (canonical model) then None
          else position (\<lambda>r. rt_model r = ''*'' \<and> route_matches path r) (cf_routes c))"

datatype billing_mode = IncludedSubscription | PayPerToken

record resolved_leg =
  rl_config_revision :: string
  rl_source_model :: string
  rl_upstream_model :: string
  rl_provider :: string
  rl_implementation :: string
  rl_billing_mode :: billing_mode
  rl_reasoning :: "string option"

definition route_resolve :: "route \<Rightarrow> config \<Rightarrow> nat \<Rightarrow> string \<Rightarrow> string option \<Rightarrow> resolved_leg result" where
  "route_resolve r c index source_model effort =
     (if index \<ge> length (rt_legs r) then Inl ''Unknown route leg''
      else
        let l = rt_legs r ! index in
        case map_of (cf_accounts c) (leg_provider l) of
          None \<Rightarrow> Inl ''Unknown route provider''
        | Some account \<Rightarrow>
            let requested = (if rt_model r = ''*'' then or_self (strip_prefix ''openai/'' source_model) source_model
                             else source_model);
                model = or_self (leg_model l) requested in
            and_then
              (case leg_override l of
                 None \<Rightarrow> Inr None
               | Some name \<Rightarrow>
                   (case find_override c (leg_provider l) name of
                      None \<Rightarrow> Inl ''Unknown provider override''
                    | Some al \<Rightarrow> Inr (Some al))) (\<lambda>rewrite.
            Inr \<lparr>rl_config_revision = cf_revision c, rl_source_model = source_model,
              rl_upstream_model = or_self (Option.bind rewrite (\<lambda>al. fst (destination al effort))) model,
              rl_provider = leg_provider l, rl_implementation = implementation account,
              rl_billing_mode = (if account_auth account = ''subscription'' then IncludedSubscription else PayPerToken),
              rl_reasoning = (case Option.bind rewrite al_reasoning of Some e \<Rightarrow> Some e | None \<Rightarrow> effort)\<rparr>))"

record plan =
  pl_config :: config
  pl_route :: nat
  pl_source_model :: string
  pl_effort :: "string option"

definition plan_length :: "plan \<Rightarrow> nat" where
  "plan_length p = length (rt_legs (cf_routes (pl_config p) ! pl_route p))"

definition plan_resolve :: "plan \<Rightarrow> nat \<Rightarrow> resolved_leg result" where
  "plan_resolve p index =
     route_resolve (cf_routes (pl_config p) ! pl_route p) (pl_config p) index (pl_source_model p) (pl_effort p)"

definition plan_select :: "plan \<Rightarrow> nat \<Rightarrow> (config \<times> resolved_leg) result" where
  \<comment> \<open>the index of a missing account would panic; \<open>plan_resolve\<close> has found it\<close>
  "plan_select p index =
     and_then (plan_resolve p index) (\<lambda>r.
     (case map_of (cf_accounts (pl_config p)) (rl_provider r) of
        None \<Rightarrow> Inl ''unreachable''
      | Some a \<Rightarrow> Inr (apply_account a (pl_config p), r)))"

definition route_plan :: "config \<Rightarrow> string \<Rightarrow> string \<Rightarrow> string option \<Rightarrow> plan option" where
  "route_plan c model path effort =
     map_option (\<lambda>i. \<lparr>pl_config = c, pl_route = i, pl_source_model = model, pl_effort = effort\<rparr>)
       (route_index c model path)"

section \<open>The whole configuration\<close>

definition host_char :: "char \<Rightarrow> bool" where
  "host_char b \<longleftrightarrow> ascii_alphanumeric b \<or> b \<in> set ''@._:-[]''"

definition check_settings :: "library \<Rightarrow> remote_host \<Rightarrow> unit result" where
  "check_settings lib s =
     (if list_ex (\<lambda>command. command = [] \<or> hd command = [] \<or> list_ex (\<lambda>arg. CHR 0x00 \<in> set arg) command) (rh_prepare s)
      then Inl ''Remote prepare commands must be nonempty argv arrays''
      else if (case rh_listen s of None \<Rightarrow> False | Some a \<Rightarrow>
          so_port a = 0 \<or> (rh_mode s \<noteq> Host \<and> \<not> lib_loopback lib (so_ip a)))
      then Inl ''Remote listen must be a loopback address with a nonzero port''
      else if (case rh_codex_home s of None \<Rightarrow> False | Some p \<Rightarrow>
          \<not> begins_with ''/'' p \<or> list_ex (\<lambda>ch. ch \<in> {CHR 0x0A, CHR 0x0D, CHR 0x00}) p)
      then Inl ''codex_home must be an absolute remote path without control characters''
      else if (case rh_model s of None \<Rightarrow> False | Some m \<Rightarrow> all_space m)
      then Inl ''Remote model must be nonempty''
      else Inr ())"

definition check_host :: "library \<Rightarrow> ssh_host \<Rightarrow> string list \<Rightarrow> string list result" where
  "check_host lib h hosts =
     (let name = ssh_name h in
      if name = [] \<or> begins_with ''-'' name \<or> \<not> list_all host_char name \<or> name \<in> set hosts
      then Inl ''ssh_hosts must contain unique SSH aliases or user@host destinations''
      else and_then (given (ssh_settings h) (check_settings lib)) (\<lambda>_. Inr (name # hosts)))"

definition check_role :: "library \<Rightarrow> ssh_host list \<Rightarrow> remote_host \<Rightarrow> unit result" where
  "check_role lib hosts s =
     (case rh_mode s of
        Client \<Rightarrow>
          (case rh_via s of
             None \<Rightarrow> Inl ''Client SSH entry requires via''
           | Some via \<Rightarrow>
               (case find (\<lambda>h. ssh_name h = via) hosts of
                  None \<Rightarrow> Inl ''Client via references unknown SSH host''
                | Some target \<Rightarrow>
                    if (case ssh_settings target of None \<Rightarrow> True | Some t \<Rightarrow> rh_mode t \<noteq> Host)
                    then Inl ''Client via must reference a host-mode SSH entry''
                    else ensure (rh_url s = None) ''Set url on the host, not the client''))
      | Host \<Rightarrow>
          (case rh_url s of
             None \<Rightarrow> Inl ''Host SSH entry requires its client-reachable url''
           | Some url \<Rightarrow>
               and_then (validate_root_url lib url) (\<lambda>_. ensure (rh_via s = None) ''Host entries cannot have via''))
      | Standalone \<Rightarrow> ensure (rh_via s = None \<and> rh_url s = None) ''Standalone SSH entries do not use via or url'')"

definition validate_inventory :: "library \<Rightarrow> config \<Rightarrow> unit result" where
  "validate_inventory lib c =
     and_then (fold_result (check_host lib) (cf_ssh_hosts c) []) (\<lambda>_.
     fold_result (\<lambda>h _. given (ssh_settings h) (check_role lib (cf_ssh_hosts c))) (cf_ssh_hosts c) ())"

definition check_logging :: "logging \<Rightarrow> unit result" where
  "check_logging l = ensure (128 \<le> lg_queue_capacity l \<and> lg_queue_capacity l \<le> 1048576 \<and>
       1 \<le> lg_batch_size l \<and> lg_batch_size l \<le> 4096 \<and> lg_batch_size l \<le> lg_queue_capacity l \<and>
       10 \<le> lg_flush_interval_ms l \<and> lg_flush_interval_ms l \<le> 5000 \<and>
       (case lg_database l of None \<Rightarrow> True | Some path \<Rightarrow> \<not> all_space path)) ''Logging limits''"

definition check_relay :: "library \<Rightarrow> config \<Rightarrow> unit result" where
  "check_relay lib c =
     (if cf_mode c = Client then
        and_then (ensure (lib_loopback lib (so_ip (cf_listen c)))
          ''Client mode requires a loopback listening address'') (\<lambda>_.
        (case cf_connection c of
           None \<Rightarrow> Inl ''Client mode requires connection.url and connection.api_key''
         | Some conn \<Rightarrow>
             and_then (validate_root_url lib (cc_url conn)) (\<lambda>_.
             if cc_api_key conn = [] \<or> \<not> lib_header lib (''Bearer '' @ cc_api_key conn)
             then Inl ''Invalid host access key''
             else ensure (cf_api_keys c = [] \<and> cf_aliases c = [] \<and> cf_fallbacks c = [] \<and>
                 cf_gemini c = None \<and> cf_bedrock c = None \<and> cf_claude c = None \<and> cf_codex c = None)
               ''Client config must not contain upstream API keys, aliases or fallback rules'')))
      else ensure (cf_connection c = None) ''Only client mode accepts connection'')"

definition check_account :: "library \<Rightarrow> string \<times> account \<Rightarrow> unit \<Rightarrow> unit result" where
  "check_account lib = (\<lambda>(name, a) _.
     and_then (ensure (valid_account_name name) ''Invalid account name'') (\<lambda>_. account_validate lib a))"

definition validate_config :: "library \<Rightarrow> validators \<Rightarrow> config \<Rightarrow> unit result" where
  "validate_config lib vd c =
     and_then (given (cf_bedrock c) (vd_bedrock vd)) (\<lambda>_.
     and_then (validate_routes lib vd c) (\<lambda>_.
     and_then (vd_workers vd c) (\<lambda>_.
     and_then (ensure (length (cf_accounts c) \<le> 128) ''Too many named accounts'') (\<lambda>_.
     and_then (ensure (cf_mode c \<noteq> Client \<or> cf_accounts c = []) ''Client relays cannot own named credentials'') (\<lambda>_.
     and_then (fold_result (check_account lib) (cf_accounts c) ()) (\<lambda>_.
     and_then (given (cf_model_registry c) (vd_registry vd)) (\<lambda>_.
     and_then (check_logging (cf_logging c)) (\<lambda>_.
     and_then (check_relay lib c) (\<lambda>_.
     and_then (validate_inventory lib c) (\<lambda>_.
     validate_routing lib vd (effective c)))))))))))"

section \<open>Lookups that have one answer\<close>

lemma fold_unit_each:
  "fold_result f xs () = Inr u \<Longrightarrow> x \<in> set xs \<Longrightarrow> f x () = Inr ()"
  by (induction xs) (auto split: if_splits)

text \<open>A rule that accepts its elements one by one, each with those before it at hand.\<close>

lemma fold_result_each:
  "fold_result f xs s = Inr t \<Longrightarrow> x \<in> set xs \<Longrightarrow> \<exists>a b. f x a = Inr b"
  by (induction xs arbitrary: s) auto

lemma find_only:
  assumes "set xs = set ys" and "\<And>x y. x \<in> set xs \<Longrightarrow> y \<in> set xs \<Longrightarrow> P x \<Longrightarrow> P y \<Longrightarrow> x = y"
  shows "find P xs = find P ys"
proof (cases "find P xs")
  case None
  with assms(1) have "find P ys = None" by (auto simp: find_None_iff)
  with None show ?thesis by simp
next
  case (Some x)
  then have x: "x \<in> set ys" "P x" using assms(1) find_SomeD by fastforce+
  then obtain y where y: "find P ys = Some y" using find_None_iff [of P ys] by auto
  with x assms find_SomeD [OF Some] find_SomeD [OF y] have "y = x" by auto
  with Some y show ?thesis by simp
qed

lemma position_Some:
  "position P xs = Some i \<Longrightarrow> i < length xs \<and> P (xs ! i)"
  by (auto simp: position_def in_set_enumerate_eq dest!: find_SomeD)

lemma position_find:
  "map_option ((!) xs) (position P xs) = find P xs"
proof -
  have "map_option snd (find (\<lambda>(i, x). P x) (enumerate n xs)) = find P xs" for n
    by (induction xs arbitrary: n) auto
  moreover have "\<forall>(i, x) \<in> set (enumerate 0 xs). xs ! i = x"
    by (auto simp: in_set_enumerate_eq)
  then have "map_option ((!) xs \<circ> fst) (find (\<lambda>(i, x). P x) (enumerate 0 xs)) =
      map_option snd (find (\<lambda>(i, x). P x) (enumerate 0 xs))"
    by (cases "find (\<lambda>(i, x). P x) (enumerate 0 xs)") (auto dest!: find_SomeD)
  ultimately show ?thesis by (simp add: position_def option.map_comp)
qed

section \<open>What the checks establish\<close>

lemma route_checked:
  assumes "validate_routes lib vd c = Inr ()" and "i < length (cf_routes c)"
  shows "check_route c (i, cf_routes c ! i) () = Inr ()"
proof -
  from assms(1) have "fold_result (check_route c) (enumerate 0 (cf_routes c)) () = Inr ()"
    by (simp add: validate_routes_def)
  moreover from assms(2) have "(i, cf_routes c ! i) \<in> set (enumerate 0 (cf_routes c))"
    by (simp add: in_set_enumerate_eq)
  ultimately show ?thesis by (rule fold_unit_each)
qed

lemma leg_checked:
  assumes "check_route c (i, r) () = Inr ()" and "l \<in> set (rt_legs r)"
  shows "\<exists>seen seen'. check_leg c r l seen = Inr seen'"
proof -
  from assms(1) obtain t where "fold_result (check_leg c r) (rt_legs r) [] = Inr t"
    by (auto simp: check_route_def)
  from fold_result_each [OF this assms(2)] show ?thesis by auto
qed

lemma override_checked:
  assumes "validate_routes lib vd c = Inr ()" and "find_override c provider name = Some al"
  shows "valid_model (al_from al)" and "fst (destination al effort) = Some t \<Longrightarrow> valid_model t"
proof -
  from assms(2) obtain os where os: "(provider, os) \<in> set (cf_overrides c)" "(name, al) \<in> set os"
    by (auto simp: find_override_def bind_eq_Some_conv dest!: map_of_SomeD)
  from assms(1) have "fold_result (check_overrides lib vd c) (cf_overrides c) () = Inr ()"
    by (simp add: validate_routes_def)
  from fold_unit_each [OF this os(1)] have "fold_result (check_override lib vd) os () = Inr ()"
    by (simp add: check_overrides_def)
  from fold_unit_each [OF this os(2)] have al: "valid_model (al_from al)"
    "case al_to al of None \<Rightarrow> True | Some t \<Rightarrow> valid_model t"
    "\<forall>(e, r) \<in> set (al_reasoning_routes al). valid_model (rr_to r)"
    by (auto simp: check_override_def list_all_iff)
  from al(1) show "valid_model (al_from al)" .
  show "valid_model t" if t: "fst (destination al effort) = Some t"
  proof (cases "Option.bind effort (map_of (al_reasoning_routes al))")
    case None
    with t al(2) show ?thesis by (simp add: destination_def Let_def)
  next
    case (Some r)
    then obtain e where "(e, r) \<in> set (al_reasoning_routes al)"
      by (auto simp: bind_eq_Some_conv dest: map_of_SomeD)
    with al(3) have "valid_model (rr_to r)" by auto
    with t Some show ?thesis by (simp add: destination_def Let_def)
  qed
qed

lemma one_route:
  assumes v: "validate_routes lib vd c = Inr ()" and x: "x \<in> set (cf_routes c)" and y: "y \<in> set (cf_routes c)"
    and px: "rt_model x = m \<and> route_matches path x" and py: "rt_model y = m \<and> route_matches path y"
  shows "x = y"
proof -
  have over: "overlap (rt_api_shape a) (rt_api_shape b)"
    if "route_matches path a" "route_matches path b" for a b
    using that by (auto simp: overlap_def route_matches_def split: option.splits)
  have first: False if "i < j" "j < length (cf_routes c)"
    "rt_model (cf_routes c ! i) = m \<and> route_matches path (cf_routes c ! i)"
    "rt_model (cf_routes c ! j) = m \<and> route_matches path (cf_routes c ! j)" for i j
  proof -
    have "cf_routes c ! i \<in> set (take j (cf_routes c))"
      using that(1,2) by (auto simp: in_set_conv_nth intro!: exI [of _ i])
    moreover have "\<forall>other \<in> set (take j (cf_routes c)).
        \<not> (rt_model other = rt_model (cf_routes c ! j) \<and> overlap (rt_api_shape other) (rt_api_shape (cf_routes c ! j)))"
      using route_checked [OF v that(2)] by (auto simp: check_route_def list_ex_iff)
    ultimately show False using that(3,4) over by auto
  qed
  from x y obtain i j where ij: "i < length (cf_routes c)" "j < length (cf_routes c)"
    "x = cf_routes c ! i" "y = cf_routes c ! j" by (auto simp: in_set_conv_nth)
  show ?thesis
    using first [of i j] first [of j i] ij px py by (cases i j rule: linorder_cases) auto
qed

definition chosen_route :: "config \<Rightarrow> string \<Rightarrow> string \<Rightarrow> route option" where
  "chosen_route c model path = map_option ((!) (cf_routes c)) (route_index c model path)"

lemma chosen_route_find:
  "chosen_route c model path =
     (if cf_mode c = Client then None
      else case find (\<lambda>r. rt_model r = model \<and> route_matches path r) (cf_routes c) of
        Some r \<Rightarrow> Some r
      | None \<Rightarrow>
          if alias_for c model path \<noteq> None \<or> CHR ''/'' \<in> set (canonical model) then None
          else find (\<lambda>r. rt_model r = ''*'' \<and> route_matches path r) (cf_routes c))"
  by (auto simp: chosen_route_def route_index_def position_find [symmetric] split: option.split)

definition alias_id :: "nat \<times> model_alias \<Rightarrow> alias_key" where
  "alias_id = (\<lambda>(i, al). (al_from al, al_api_shape al))"

lemma aliases_checked:
  "fold_result (check_alias c) xs seen = Inr t \<Longrightarrow>
     distinct (List.map alias_id xs) \<and> (\<forall>x \<in> set xs. alias_id x \<notin> set seen) \<and>
     (\<forall>(i, al) \<in> set xs. \<forall>(j, other) \<in> set (enumerate 0 (cf_aliases c)).
        i \<noteq> j \<longrightarrow> al_from al = al_from other \<longrightarrow> al_api_shape al \<noteq> None \<and> al_api_shape other \<noteq> None)"
proof (induction xs arbitrary: seen)
  case (Cons x xs)
  obtain i al where x: "x = (i, al)" by fastforce
  from Cons.prems x have head: "alias_id x \<notin> set seen"
    "\<forall>(j, other) \<in> set (enumerate 0 (cf_aliases c)).
        i \<noteq> j \<longrightarrow> al_from al = al_from other \<longrightarrow> al_api_shape al \<noteq> None \<and> al_api_shape other \<noteq> None"
    and rest: "fold_result (check_alias c) xs (alias_id x # seen) = Inr t"
    by (auto simp: check_alias_def alias_id_def list_ex_iff split: if_splits)
  from Cons.IH [OF rest] head x show ?case by auto
qed simp

lemma one_alias:
  assumes v: "validate_routing lib vd c = Inr ()" and x: "x \<in> set (cf_aliases c)" and y: "y \<in> set (cf_aliases c)"
    and px: "al_from x = m \<and> alias_matches x path" and py: "al_from y = m \<and> alias_matches y path"
  shows "x = y"
proof (rule ccontr)
  assume ne: "x \<noteq> y"
  let ?e = "enumerate 0 (cf_aliases c)"
  from v obtain t where fold: "fold_result (check_alias c) ?e [] = Inr t" by (auto simp: validate_routing_def)
  have index: "\<exists>i. (i, z) \<in> set ?e" if z: "z \<in> set (cf_aliases c)" for z
    using z unfolding in_set_conv_nth [of z] by (auto simp: in_set_enumerate_eq)
  from index [OF x] index [OF y] obtain i j where i: "(i, x) \<in> set ?e" and j: "(j, y) \<in> set ?e" by blast
  from i j ne have ij: "(i, x) \<in> set ?e" "(j, y) \<in> set ?e" "i \<noteq> j" by (auto simp: in_set_enumerate_eq)
  with aliases_checked [OF fold] px py
  have "al_api_shape x \<noteq> None" "al_api_shape y \<noteq> None" by fastforce+
  with px py have "alias_id (i, x) = alias_id (j, y)"
    by (auto simp: alias_id_def alias_matches_def)
  moreover have "inj_on alias_id (set ?e)"
    using aliases_checked [OF fold] by (simp add: distinct_map)
  ultimately show False using ij by (auto dest: inj_onD)
qed

section \<open>Properties\<close>

text \<open>
  C20. An accepted configuration never fails at routing. Whatever the requested model and
  effort, a matching route has between one and sixteen legs, and each of them resolves to
  the isolated configuration of an existing account. The model it forwards is valid,
  except where the configuration names none: a leg without a model of its own under the
  default route \<open>*\<close> forwards the requested name, less the optional prefix, unchecked.
\<close>

theorem accepted_plans_resolve:
  assumes v: "validate_routes lib vd c = Inr ()" and p: "route_plan c model path effort = Some p"
  shows "1 \<le> plan_length p \<and> plan_length p \<le> MAX_ATTEMPTS \<and>
     (\<forall>i < plan_length p. \<exists>s r a. plan_select p i = Inr (s, r) \<and>
       map_of (cf_accounts c) (rl_provider r) = Some a \<and> s = apply_account a c \<and>
       rl_config_revision r = cf_revision c \<and>
       (valid_model (rl_upstream_model r) \<or>
        (let route = cf_routes c ! pl_route p
         in rt_model route = ''*'' \<and> leg_model (rt_legs route ! i) = None \<and>
            rl_upstream_model r = canonical model)))"
proof -
  from p obtain k where k: "route_index c model path = Some k" and
    p': "p = \<lparr>pl_config = c, pl_route = k, pl_source_model = model, pl_effort = effort\<rparr>"
    by (auto simp: route_plan_def)
  let ?r = "cf_routes c ! k"
  from k have kl: "k < length (cf_routes c)" and kind: "rt_model ?r = model \<or> rt_model ?r = ''*''"
    by (auto simp: route_index_def split: if_splits option.splits dest!: position_Some)
  have chk: "check_route c (k, ?r) () = Inr ()" by (rule route_checked [OF v kl])
  then have legs: "rt_legs ?r \<noteq> []" "length (rt_legs ?r) \<le> MAX_ATTEMPTS" and rm: "valid_model (rt_model ?r)"
    by (auto simp: check_route_def)
  let ?sent = "\<lambda>i n. valid_model n \<or> (rt_model ?r = ''*'' \<and> leg_model (rt_legs ?r ! i) = None \<and> n = canonical model)"
  have leg: "\<exists>r a. plan_resolve p i = Inr r \<and> map_of (cf_accounts c) (rl_provider r) = Some a \<and>
      rl_provider r = leg_provider (rt_legs ?r ! i) \<and>
      rl_config_revision r = cf_revision c \<and> ?sent i (rl_upstream_model r)"
    if il: "i < length (rt_legs ?r)" for i
  proof -
    let ?l = "rt_legs ?r ! i"
    from il have l: "?l \<in> set (rt_legs ?r)" by simp
    from leg_checked [OF chk l] obtain a
      where a: "map_of (cf_accounts c) (leg_provider ?l) = Some a"
        and m: "valid_model (or_self (leg_model ?l) (rt_model ?r))"
        and over: "case leg_override ?l of None \<Rightarrow> True | Some name \<Rightarrow>
          \<exists>al. find_override c (leg_provider ?l) name = Some al"
      by (auto simp: check_leg_def Let_def split: option.splits)
    let ?q = "if rt_model ?r = ''*'' then or_self (strip_prefix ''openai/'' model) model else model"
    have q: "?sent i (or_self (leg_model ?l) ?q)"
    proof (cases "leg_model ?l")
      case None
      with kind rm show ?thesis by (auto simp: or_self_def canonical_def)
    next
      case (Some x)
      with m show ?thesis by (simp add: or_self_def)
    qed
    show ?thesis
    proof (cases "leg_override ?l")
      case None
      with a il q show ?thesis by (simp add: plan_resolve_def p' route_resolve_def Let_def or_self_def)
    next
      case (Some name)
      with over obtain al where al: "find_override c (leg_provider ?l) name = Some al" by auto
      have "?sent i (or_self (fst (destination al effort)) (or_self (leg_model ?l) ?q))"
        using override_checked(2) [OF v al, of effort] q
        by (cases "fst (destination al effort)") (simp_all add: or_self_def)
      with Some al a il show ?thesis by (simp add: plan_resolve_def p' route_resolve_def Let_def)
    qed
  qed
  have select: "\<exists>s r a. plan_select p i = Inr (s, r) \<and>
      map_of (cf_accounts c) (rl_provider r) = Some a \<and> s = apply_account a c \<and>
      rl_config_revision r = cf_revision c \<and> ?sent i (rl_upstream_model r)"
    if "i < length (rt_legs ?r)" for i
    using leg [OF that] by (auto simp: plan_select_def p')
  have "length (rt_legs ?r) = plan_length p" "pl_route p = k" by (simp_all add: plan_length_def p')
  with select legs show ?thesis by (simp add: Let_def Suc_le_eq flip: length_greater_0_conv)
qed

text \<open>
  The order of the rules does not matter: in an accepted configuration at most one
  route matches a request, so any reordering of the routes chooses the same one.
\<close>

theorem route_choice_ignores_order:
  assumes "validate_routes lib vd c = Inr ()" and "set rs = set (cf_routes c)"
  shows "chosen_route (c\<lparr>cf_routes := rs\<rparr>) model path = chosen_route c model path"
proof -
  have "find (\<lambda>r. rt_model r = m \<and> route_matches path r) (cf_routes c) =
      find (\<lambda>r. rt_model r = m \<and> route_matches path r) rs" for m
    by (rule find_only [OF assms(2) [symmetric]]) (rule one_route [OF assms(1)])
  then show ?thesis by (auto simp: chosen_route_find alias_for_def split: option.split)
qed

text \<open>
  Nor does the order of the aliases: validated aliases for one model name are for
  disjoint API shapes, so any reordering rewrites a request in the same way.
\<close>

theorem alias_choice_ignores_order:
  assumes "validate_routing lib vd c = Inr ()" and "set als = set (cf_aliases c)"
  shows "alias_for (c\<lparr>cf_aliases := als\<rparr>) model path = alias_for c model path"
proof -
  have "find (\<lambda>al. al_from al = model \<and> alias_matches al path) (cf_aliases c) =
      find (\<lambda>al. al_from al = model \<and> alias_matches al path) als"
    by (rule find_only [OF assms(2) [symmetric]]) (rule one_alias [OF assms(1)])
  then show ?thesis by (simp add: alias_for_def)
qed

text \<open>
  A validated client relay owns no policy and no credential: it has no route, alias,
  fallback, account or key of its own, and in effect it sends the host's access key, and
  nothing else, to the host's service root, once.
\<close>

theorem validated_relay_owns_nothing:
  assumes "validate_config lib vd c = Inr ()" and "cf_mode c = Client"
  shows "cf_routes c = [] \<and> cf_overrides c = [] \<and> cf_accounts c = [] \<and> cf_api_keys c = [] \<and>
     cf_claude c = None \<and> cf_codex c = None \<and> cf_gemini c = None \<and> cf_bedrock c = None \<and>
     (\<exists>conn. cf_connection c = Some conn \<and> validate_root_url lib (cc_url conn) = Inr () \<and>
       cf_api_keys (effective c) = [(cf_default_key (effective c), cc_api_key conn)] \<and>
       cf_upstream_url (effective c) = trim_end_char (CHR ''/'') (cc_url conn) \<and>
       rt_max_retries (cf_retry (effective c)) = 0 \<and> cf_fallbacks (effective c) = [])"
  using assms
  by (auto simp: validate_config_def validate_routes_def check_relay_def effective_def split: option.splits if_splits)

definition example_url :: url where
  "example_url = \<lparr>url_scheme = ''https'', url_host = Some ''h'', url_username = [], url_password = None,
     url_path = ''/'', url_query = None, url_fragment = None\<rparr>"

definition open_library :: library where
  "open_library = \<lparr>lib_url = (\<lambda>_. Some example_url), lib_loopback = (\<lambda>_. True), lib_header = (\<lambda>_. True)\<rparr>"

definition open_validators :: validators where
  "open_validators = \<lparr>vd_gemini = (\<lambda>_. Inr ()), vd_bedrock = (\<lambda>_. Inr ()), vd_registry = (\<lambda>_. Inr ()),
     vd_workers = (\<lambda>_. Inr ())\<rparr>"

definition example_routes :: config where
  "example_routes = (config_default ''r'')\<lparr>
     cf_accounts := [(''w'', Codex ''s.json'' None None)],
     cf_routes := [\<lparr>rt_model = ''m'', rt_api_shape = None,
       rt_legs = [\<lparr>leg_provider = ''w'', leg_model = Some ''n'', leg_override = None\<rparr>]\<rparr>]\<rparr>"

lemmas example_simps = example_routes_def example_url_def open_library_def open_validators_def
  config_default_def no_credentials_def default_upstream_def default_cache_seconds_def

lemma example_routes_valid: "validate_routes open_library open_validators example_routes = Inr ()"
  by (simp add: validate_routes_def check_route_def check_leg_def example_simps valid_model_def byte_of_def
      byte_in_def or_self_def MAX_ATTEMPTS_def Let_def)

theorem accepted_plans_resolve_witness:
  "\<exists>s r a. plan_select \<lparr>pl_config = example_routes, pl_route = 0, pl_source_model = ''m'', pl_effort = None\<rparr> 0 =
     Inr (s, r) \<and> map_of (cf_accounts example_routes) (rl_provider r) = Some a \<and>
     s = apply_account a example_routes"
proof -
  let ?p = "\<lparr>pl_config = example_routes, pl_route = 0, pl_source_model = ''m'', pl_effort = None\<rparr>"
  have "route_plan example_routes ''m'' ''/v1/responses'' None = Some ?p"
    by (simp add: route_plan_def route_index_def position_def route_matches_def example_simps)
  moreover have "0 < plan_length ?p" by (simp add: plan_length_def example_simps)
  ultimately show ?thesis
    using accepted_plans_resolve [OF example_routes_valid, of "''m''" "''/v1/responses''" None ?p] by blast
qed

theorem route_choice_ignores_order_witness:
  "chosen_route (example_routes\<lparr>cf_routes := cf_routes example_routes @ cf_routes example_routes\<rparr>) ''m'' ''/v1'' =
   chosen_route example_routes ''m'' ''/v1''"
  by (rule route_choice_ignores_order [OF example_routes_valid]) simp

theorem alias_choice_ignores_order_witness:
  "alias_for (example_routes\<lparr>cf_aliases := []\<rparr>) ''m'' ''/v1'' = alias_for example_routes ''m'' ''/v1''"
proof (rule alias_choice_ignores_order)
  show "validate_routing open_library open_validators example_routes = Inr ()"
    by (simp add: validate_routing_def given_def check_upstream_def check_retry_def validate_fallbacks_def
        example_simps retry_default_def)
  show "set [] = set (cf_aliases example_routes)" by (simp add: example_simps)
qed

definition example_relay :: config where
  "example_relay = (config_default ''r'')\<lparr>cf_mode := Client,
     cf_connection := Some \<lparr>cc_url = ''https://h/'', cc_api_key = ''k''\<rparr>\<rparr>"

theorem validated_relay_owns_nothing_witness:
  "\<exists>conn. cf_connection example_relay = Some conn \<and>
     cf_api_keys (effective example_relay) = [(cf_default_key (effective example_relay), cc_api_key conn)]"
proof -
  have "validate_config open_library open_validators example_relay = Inr ()"
    by (simp add: validate_config_def validate_routes_def check_relay_def validate_inventory_def check_logging_def
        logging_default_def validate_root_url_def validate_routing_def given_def check_upstream_def check_retry_def
        validate_fallbacks_def retry_default_def effective_def example_relay_def example_simps trim_end_char_def
        validate_source_def strip_prefix_def byte_of_def byte_in_def begins_with_def)
  moreover have "cf_mode example_relay = Client" by (simp add: example_relay_def)
  ultimately show ?thesis using validated_relay_owns_nothing by blast
qed

end
