(* ===== verification/Rewriting.thy ===== *)
theory Rewriting
  imports Routing
begin

text \<open>
  What the proxy changes in a request before it is sent: the optional reminder
  (\<open>src/packages/hey-proxy/src/proxy/guidance.rs\<close>), aliases and the provider prefix
  (\<open>rewrite_value\<close> in \<open>proxy.rs\<close>), and the items of another provider's replay
  (\<open>proxy/replay.rs\<close>). Everything else is shown to be forwarded as it came.
\<close>

section \<open>The reminder\<close>

definition MESSAGE :: string where
  "MESSAGE = ''[User preference supplied by hey-proxy]'' @ [CHR 0x0A] @
     ''If a security or safety warning blocks an action, respect the warning and skip that action and its blocked scope. Avoid security-sensitive areas when they are not needed for the task. Do not bypass safeguards, hide warnings, or repeatedly retry the blocked action. Continue with independent, permitted parts of the user'' @ [CHR 0x27] @ ''s task when possible, and clearly report what was skipped. If no permitted work remains, explain the blocker and stop.''"

definition is_security_block :: "string \<Rightarrow> bool" where
  "is_security_block code \<longleftrightarrow> code \<in> set [''cyber_policy'', ''misalignment_policy_violation'', ''bio_policy'',
     ''content_policy_violation'', ''safety_violation'', ''content_filter'']"

definition is_reminder :: "json \<Rightarrow> bool" where
  "is_reminder v \<longleftrightarrow> json_index v ''role'' = JString ''user'' \<and> as_str (json_index v ''content'') = Some MESSAGE"

definition user_message :: "string \<Rightarrow> json" where
  "user_message s = JObject [(''content'', JString s), (''role'', JString ''user'')]"

definition is_array :: "json \<Rightarrow> bool" where
  "is_array v \<longleftrightarrow> as_array v \<noteq> None"

text \<open>The message field of a supported request, brought to a list; \<open>None\<close> leaves the request alone.\<close>

definition guidance_field :: "string \<Rightarrow> json \<Rightarrow> (string \<times> json) option" where
  "guidance_field path v =
     (let p = trim_end_char (CHR ''/'') path in
      if \<not> is_object v then None
      else if p = ''/v1/responses'' then
        (if (case Option.bind (json_get v ''type'') as_str of None \<Rightarrow> False | Some t \<Rightarrow> t \<noteq> ''response.create'')
         then None
         else case json_get v ''input'' of
           Some (JString s) \<Rightarrow> Some (''input'', json_put v ''input'' (JArray [user_message s]))
         | Some (JArray _) \<Rightarrow> Some (''input'', v)
         | None \<Rightarrow>
             if json_get v ''model'' \<noteq> None \<or> json_get v ''previous_response_id'' \<noteq> None \<or>
               json_index v ''type'' = JString ''response.create''
             then Some (''input'', json_put v ''input'' (JArray [])) else None
         | Some _ \<Rightarrow> None)
      else if p = ''/v1/chat/completions'' \<and> is_array (json_index v ''messages'') then Some (''messages'', v)
      else None)"

definition elements :: "json \<Rightarrow> json list" where
  "elements v = (case v of JArray xs \<Rightarrow> xs | _ \<Rightarrow> [])"

definition guidance_apply :: "string \<Rightarrow> json \<Rightarrow> json \<times> bool" where
  "guidance_apply path v =
     (case guidance_field path v of
        None \<Rightarrow> (v, False)
      | Some (field, v) \<Rightarrow>
          let messages = elements (json_index v field) in
          if messages \<noteq> [] \<and> is_reminder (last messages) \<and> length (filter is_reminder messages) = 1
          then (v, False)
          else (json_put v field (JArray (filter (\<lambda>m. \<not> is_reminder m) messages @ [user_message MESSAGE])), True))"

definition guidance_present :: "json \<Rightarrow> bool" where
  "guidance_present v = list_ex (\<lambda>field. list_ex is_reminder (elements (json_index v field))) [''input'', ''messages'']"

section \<open>Aliases and the provider prefix\<close>

definition messages_path :: "string \<Rightarrow> bool" where
  "messages_path path \<longleftrightarrow> trim_end_char (CHR ''/'') path \<in> set [''/v1/custom/messages'', ''/custom/v1/messages'',
     ''/v1/custom/messages/count_tokens'', ''/custom/v1/messages/count_tokens'']"

definition or_else :: "'a option \<Rightarrow> 'a option \<Rightarrow> 'a option" where
  "or_else x y = (case x of None \<Rightarrow> y | Some _ \<Rightarrow> x)"

definition requested_effort :: "string \<Rightarrow> json \<Rightarrow> string option" where
  "requested_effort path v =
     (if messages_path path then
        or_else (str_at v [''output_config'', ''effort'']) (or_else (str_at v [''reasoning'', ''effort''])
          (case str_at v [''thinking'', ''type''] of
             None \<Rightarrow> None
           | Some t \<Rightarrow> if t = ''disabled'' then Some ''none''
               else if t = ''enabled'' \<or> t = ''adaptive'' then Some ''medium'' else None))
      else if ends_with ''/chat/completions'' (trim_end_char (CHR ''/'') path) then
        or_else (str_at v [''reasoning_effort'']) (or_else (str_at v [''reasoning'', ''effort''])
          (case json_pointer v [''reasoning'', ''enabled''] of
             Some (JBool True) \<Rightarrow> Some ''medium'' | Some (JBool False) \<Rightarrow> Some ''none'' | _ \<Rightarrow> None))
      else str_at v [''reasoning'', ''effort''])"

definition model_pointer :: "string \<Rightarrow> json \<Rightarrow> string list" where
  "model_pointer path v =
     (if contains_text ''/realtime/'' path \<and> json_pointer v [''session'', ''model''] \<noteq> None
      then [''session'', ''model''] else [''model''])"

definition apply_effort :: "string \<Rightarrow> string option \<Rightarrow> json \<Rightarrow> json result" where
  "apply_effort path reasoning v =
     (case reasoning of
        None \<Rightarrow> Inr v
      | Some effort \<Rightarrow>
          if ends_with ''/responses'' (trim_end_char (CHR ''/'') path) then
            let v = (if json_index v ''reasoning'' = JNull then json_put v ''reasoning'' (JObject []) else v) in
            if \<not> is_object (json_index v ''reasoning'')
            then Inl ''reasoning must be an object for Responses requests''
            else Inr (json_put v ''reasoning'' (json_put (json_index v ''reasoning'') ''effort'' (JString effort)))
          else if ends_with ''/chat/completions'' (trim_end_char (CHR ''/'') path)
          then Inr (json_put v ''reasoning_effort'' (JString effort))
          else Inr v)"

definition apply_alias :: "config \<Rightarrow> string \<Rightarrow> string list \<Rightarrow> string \<Rightarrow> json \<Rightarrow> (bool \<times> string \<times> json) result" where
  "apply_alias c path pointer project v =
     (case Option.bind (str_at v pointer) (\<lambda>model. alias_for c model path) of
        None \<Rightarrow> Inr (False, project, v)
      | Some al \<Rightarrow>
          let (model, key) = destination al (requested_effort path v);
              v = (case model of None \<Rightarrow> v | Some m \<Rightarrow> json_set_pointer v pointer (JString m)) in
          and_then (apply_effort path (al_reasoning al) v) (\<lambda>v. Inr (True, or_self key project, v)))"

definition strip_openai :: "string list \<Rightarrow> json \<Rightarrow> bool \<times> json" where
  "strip_openai pointer v =
     (case Option.bind (str_at v pointer) (strip_prefix ''openai/'') of
        None \<Rightarrow> (False, v)
      | Some model \<Rightarrow> (True, json_set_pointer v pointer (JString model)))"

definition rewrite_value :: "config \<Rightarrow> string \<Rightarrow> json \<Rightarrow> ((bool \<times> string) \<times> json) result" where
  "rewrite_value c path v =
     (let (v, guided) = (if cf_skip_blocked_security_work c then guidance_apply path v else (v, False));
          pointer = model_pointer path v in
      and_then (apply_alias c path pointer (cf_default_key c) v) (\<lambda>(aliased, project, v).
        let (explicit, v) = strip_openai pointer v in
        Inr ((guided \<or> explicit \<or> aliased, project), v)))"

definition rewrite :: "json_parser \<Rightarrow> (json \<Rightarrow> string) \<Rightarrow> config \<Rightarrow> string \<Rightarrow> string \<Rightarrow> (string \<times> string) result" where
  "rewrite parse show_json c path body =
     (if body = [] then Inr (body, cf_default_key c)
      else case parse body of
        None \<Rightarrow> Inl ''Request body must be valid JSON''
      | Some v \<Rightarrow>
          and_then (rewrite_value c path v) (\<lambda>((changed, project), v).
            Inr (if changed then show_json v else body, project)))"

definition route_model :: "config \<Rightarrow> string \<Rightarrow> string \<Rightarrow> string \<Rightarrow> string option \<times> string" where
  \<comment> \<open>the target of a model in the URL, and the project to use\<close>
  "route_model c path model project =
     (let al = alias_for c model path in
      (Option.bind al al_to, or_self (Option.bind al al_api_key) project))"

section \<open>Items of another provider\<close>

definition CARRIER_PREFIX :: string where
  "CARRIER_PREFIX = ''hey_gemini_v1.''"

definition ascii_hex :: "char \<Rightarrow> bool" where
  "ascii_hex b \<longleftrightarrow> byte_in b 48 57 \<or> byte_in b 65 70 \<or> byte_in b 97 102"

definition gemini_item_id :: "string \<Rightarrow> bool" where
  "gemini_item_id i =
     (case split_char (CHR ''_'') i of
        prefix # hex # rest \<Rightarrow>
          prefix \<noteq> [] \<and> list_all (\<lambda>b. byte_in b 97 122) prefix \<and>
          length hex = 32 \<and> list_all ascii_hex hex \<and>
          length rest \<in> {1, 2} \<and> list_all (\<lambda>n. n \<noteq> [] \<and> list_all (\<lambda>b. byte_in b 48 57) n) rest
      | _ \<Rightarrow> False)"

definition carrier_item :: "json \<Rightarrow> bool" where
  "carrier_item item \<longleftrightarrow> json_index item ''type'' = JString ''reasoning'' \<and>
     (case as_str (json_index item ''encrypted_content'') of None \<Rightarrow> False | Some s \<Rightarrow> begins_with CARRIER_PREFIX s)"

definition minted_id :: "json \<Rightarrow> bool" where
  "minted_id item \<longleftrightarrow> (case as_str (json_index item ''id'') of None \<Rightarrow> False | Some i \<Rightarrow> gemini_item_id i)"

definition drop_id :: "json \<Rightarrow> json" where
  "drop_id item = (if minted_id item
     then (case item of JObject kvs \<Rightarrow> JObject (filter (\<lambda>(k, _). k \<noteq> ''id'') kvs) | _ \<Rightarrow> item) else item)"

definition for_openai :: "string \<Rightarrow> json \<Rightarrow> json \<times> bool" where
  "for_openai path request =
     (if trim_end_char (CHR ''/'') path \<notin> set [''/v1/responses'', ''/responses''] \<or>
        (case as_str (json_index request ''model'') of None \<Rightarrow> True | Some m \<Rightarrow> begins_with ''gemini/'' m)
      then (request, False)
      else case json_get request ''input'' of
        Some (JArray input) \<Rightarrow>
          let kept = filter (\<lambda>item. \<not> carrier_item item) input;
              changed = length kept \<noteq> length input \<or> list_ex minted_id kept
          in (if changed then json_put request ''input'' (JArray (List.map drop_id kept)) else request, changed)
      | _ \<Rightarrow> (request, False))"

text \<open>A JSON body on its way: what is sent, the project it is charged to, and the value for the native provider.\<close>

definition prepare_json ::
    "json_parser \<Rightarrow> (json \<Rightarrow> string) \<Rightarrow> config \<Rightarrow> string \<Rightarrow> string \<Rightarrow> string \<Rightarrow>
     (string \<times> string \<times> json option) result" where
  "prepare_json parse show_json c path bytes project =
     (case (if bytes = [] then Some JNull else parse bytes) of
        None \<Rightarrow> Inl ''JSON''
      | Some v \<Rightarrow>
          and_then (rewrite_value c path v) (\<lambda>((changed, key), v).
            let (v, replayed) = (if cf_mode c \<noteq> Client then for_openai path v else (v, False));
                project = (if json_get v ''model'' \<noteq> None \<or> json_pointer v [''session'', ''model''] \<noteq> None
                           then key else project);
                native = cf_mode c \<noteq> Client \<and>
                  (case Option.bind (json_get v ''model'') as_str of None \<Rightarrow> False | Some m \<Rightarrow> begins_with ''gemini/'' m)
            in Inr (if changed \<or> replayed then show_json v else bytes, project, if native then Some v else None)))"

definition is_stubbed_backend_api :: "string \<Rightarrow> bool" where
  "is_stubbed_backend_api path =
     (let trimmed = trim_end_char (CHR ''/'') path in
      (trimmed = ''/backend-api'' \<or> begins_with ''/backend-api/'' trimmed) \<and>
      trimmed \<notin> set [''/backend-api/codex/responses'', ''/backend-api/codex/responses/compact''])"

section \<open>Fields that a step leaves alone\<close>

lemma json_get_put:
  "json_get (json_put v k x) k' = (if is_object v \<or> v = JNull then (if k' = k then Some x else json_get v k') else json_get v k')"
  by (cases v) (auto simp: json_put_def is_object_def as_object_def)

lemma is_object_put [simp]: "is_object (json_put v k x) \<longleftrightarrow> is_object v \<or> v = JNull"
  by (cases v) (simp_all add: json_put_def is_object_def as_object_def)

lemma json_index_get: "json_get v k = json_get w k \<Longrightarrow> json_index v k = json_index w k"
  by (simp add: json_index_def)

lemma is_object_get: "json_get v k = Some x \<Longrightarrow> is_object v"
  by (cases v) (simp_all add: is_object_def as_object_def)

lemma is_reminder_message [simp]: "is_reminder (user_message MESSAGE)"
  by (simp add: is_reminder_def user_message_def json_index_def)

lemma guidance_field_Some:
  assumes "guidance_field path v = Some (field, w)"
  shows "is_object v" and "is_object w" and "\<exists>xs. json_get w field = Some (JArray xs)" and "field \<in> {''input'', ''messages''}"
    and "k \<noteq> field \<Longrightarrow> json_get w k = json_get v k"
  using assms
  by (auto simp: guidance_field_def json_get_put json_index_def is_array_def as_array_def Let_def
      split: if_splits option.splits json.splits)

lemma guidance_field_again:
  assumes "guidance_field path v = Some (field, w)" and "is_object u" and "json_get u field = Some (JArray xs)"
    and "\<And>k. k \<noteq> field \<Longrightarrow> json_get u k = json_get v k"
  shows "guidance_field path u = Some (field, u)"
proof (cases "trim_end_char (CHR ''/'') path = ''/v1/responses''")
  case True
  with assms(1) have f: "field = ''input''"
    by (auto simp: guidance_field_def Let_def split: if_splits option.splits json.splits)
  have "json_get u ''type'' = json_get v ''type''" using assms(4) [of "''type''"] f by simp
  with True assms f show ?thesis
    by (auto simp: guidance_field_def Let_def split: if_splits option.splits json.splits)
next
  case False
  with assms(1) have "field = ''messages''" "trim_end_char (CHR ''/'') path = ''/v1/chat/completions''"
    by (auto simp: guidance_field_def Let_def split: if_splits)
  with False assms show ?thesis
    by (simp add: guidance_field_def Let_def is_array_def as_array_def json_index_def)
qed

lemma one_reminder:
  "ms \<noteq> [] \<Longrightarrow> is_reminder (last ms) \<Longrightarrow> length (filter is_reminder ms) = 1 \<Longrightarrow>
     filter (\<lambda>m. \<not> is_reminder m) ms = butlast ms"
proof -
  assume ms: "ms \<noteq> []" "is_reminder (last ms)" "length (filter is_reminder ms) = 1"
  then have "ms = butlast ms @ [last ms]" by simp
  then have "filter is_reminder ms = filter is_reminder (butlast ms) @ [last ms]"
    using ms(2) by (metis (no_types) filter.simps append_Nil2 filter_append)
  with ms(3) have "filter is_reminder (butlast ms) = []" by simp
  then have "filter (\<lambda>m. \<not> is_reminder m) (butlast ms) = butlast ms"
    by (simp add: filter_empty_conv filter_id_conv)
  with \<open>ms = butlast ms @ [last ms]\<close> ms(2) show ?thesis
    by (metis (no_types, lifting) append_Nil2 filter.simps filter_append)
qed

definition reminded :: "json list \<Rightarrow> bool" where
  "reminded ms \<longleftrightarrow> ms \<noteq> [] \<and> is_reminder (last ms) \<and> length (filter is_reminder ms) = 1"

lemma reminded_append: "reminded (filter (\<lambda>m. \<not> is_reminder m) ms @ [user_message MESSAGE])"
proof -
  have "filter is_reminder (filter (\<lambda>m. \<not> is_reminder m) ms) = []" by (simp add: filter_empty_conv)
  then show ?thesis by (simp add: reminded_def)
qed

lemma guidance_apply_field:
  assumes f: "guidance_field path v = Some (field, w)"
  shows "\<exists>u. guidance_field path u = Some (field, u) \<and> fst (guidance_apply path v) = u \<and>
     reminded (elements (json_index u field)) \<and>
     filter (\<lambda>m. \<not> is_reminder m) (elements (json_index u field)) =
       filter (\<lambda>m. \<not> is_reminder m) (elements (json_index w field)) \<and>
     (\<forall>k. k \<noteq> field \<longrightarrow> json_get u k = json_get v k)"
proof -
  note w = guidance_field_Some [OF f]
  let ?ms = "elements (json_index w field)"
  show ?thesis
  proof (cases "reminded ?ms")
    case True
    then have "guidance_apply path v = (w, False)"
      using f by (simp add: guidance_apply_def reminded_def Let_def)
    moreover from w(3) obtain xs where "json_get w field = Some (JArray xs)" by blast
    with w guidance_field_again [OF f, of w] have "guidance_field path w = Some (field, w)" by blast
    ultimately show ?thesis using True w(5) by auto
  next
    case False
    let ?new = "filter (\<lambda>m. \<not> is_reminder m) ?ms @ [user_message MESSAGE]"
    let ?u = "json_put w field (JArray ?new)"
    have "guidance_apply path v = (?u, True)"
      using f False by (simp add: guidance_apply_def reminded_def Let_def)
    moreover have get: "json_get ?u k = (if k = field then Some (JArray ?new) else json_get w k)" for k
      using w(2) by (simp add: json_get_put)
    then have other: "k \<noteq> field \<Longrightarrow> json_get ?u k = json_get v k" for k using w(5) by simp
    from get have "json_index ?u field = JArray ?new" by (simp add: json_index_def)
    moreover have "guidance_field path ?u = Some (field, ?u)"
      by (rule guidance_field_again [OF f _ _ other]) (use w(2) get in simp_all)
    ultimately show ?thesis using other reminded_append by (simp add: elements_def)
  qed
qed

lemma guidance_keeps_fields:
  "k \<noteq> ''input'' \<Longrightarrow> k \<noteq> ''messages'' \<Longrightarrow> json_get (fst (guidance_apply path v)) k = json_get v k"
proof (cases "guidance_field path v")
  case None
  then show ?thesis by (simp add: guidance_apply_def)
next
  case (Some fw)
  assume k: "k \<noteq> ''input''" "k \<noteq> ''messages''"
  obtain field w where fw: "fw = (field, w)" by fastforce
  with Some guidance_field_Some(4) have "k \<noteq> field" using k by fastforce
  with guidance_apply_field Some fw show ?thesis by blast
qed

lemma pointer_set: "json_pointer v p = Some y \<Longrightarrow> json_pointer (json_set_pointer v p x) p = Some x"
proof (induction p arbitrary: v)
  case (Cons k ks)
  then obtain z where z: "json_get v k = Some z" "json_pointer z ks = Some y" by (auto split: option.splits)
  with Cons.IH is_object_get [OF z(1)] show ?case by (simp add: json_get_put)
qed simp

lemma pointer_cong: "json_get v k = json_get w k \<Longrightarrow> json_pointer v (k # ks) = json_pointer w (k # ks)"
  by simp

lemma pointer_put: "k \<noteq> k' \<Longrightarrow> json_pointer (json_put v k' x) (k # ks) = json_pointer v (k # ks)"
  by (simp add: json_get_put)

lemma str_at_cong: "json_get v k = json_get w k \<Longrightarrow> str_at v (k # ks) = str_at w (k # ks)"
  by (simp add: str_at_def)

lemma effort_keeps: "apply_effort path r v = Inr w \<Longrightarrow> k \<noteq> ''reasoning'' \<Longrightarrow> k \<noteq> ''reasoning_effort'' \<Longrightarrow>
    json_get w k = json_get v k"
  by (auto simp: apply_effort_def Let_def json_get_put split: option.splits if_splits)

lemma pointer_cases: "model_pointer path v = [''model''] \<or> model_pointer path v = [''session'', ''model'']"
  by (simp add: model_pointer_def)

lemma effort_keeps_model:
  "apply_effort path r v = Inr w \<Longrightarrow> str_at w (model_pointer path u) = str_at v (model_pointer path u)"
  using pointer_cases [of path u] effort_keeps [of path r v w "''model''"] effort_keeps [of path r v w "''session''"]
  by (auto simp: str_at_def)

lemma set_pointer_str:
  "str_at v p = Some m \<Longrightarrow> str_at (json_set_pointer v p (JString m')) p = Some m'"
  by (auto simp: str_at_def pointer_set split: option.splits)

lemma guidance_keeps_routing:
  assumes "k \<in> {''model'', ''session'', ''reasoning'', ''reasoning_effort'', ''output_config'', ''thinking''}"
  shows "json_get (fst (guidance_apply path v)) k = json_get v k"
  by (rule guidance_keeps_fields) (use assms in auto)

lemma guidance_keeps_effort: "requested_effort path (fst (guidance_apply path v)) = requested_effort path v"
  by (simp add: requested_effort_def str_at_def guidance_keeps_routing)

lemma guidance_keeps_pointer: "model_pointer path (fst (guidance_apply path v)) = model_pointer path v"
  by (simp add: model_pointer_def guidance_keeps_routing)

lemma guidance_keeps_model: "str_at (fst (guidance_apply path v)) (model_pointer path u) = str_at v (model_pointer path u)"
  using pointer_cases [of path u] by (auto simp: str_at_def guidance_keeps_routing)

text \<open>The model and project that a request is rewritten to.\<close>

definition routed :: "config \<Rightarrow> string \<Rightarrow> json \<Rightarrow> string \<Rightarrow> string \<times> string" where
  "routed c path v model =
     (case alias_for c model path of
        None \<Rightarrow> (canonical model, cf_default_key c)
      | Some al \<Rightarrow>
          let (to, key) = destination al (requested_effort path v)
          in (canonical (or_self to model), or_self key (cf_default_key c)))"

lemma strip_openai_model:
  "str_at v p = Some m \<Longrightarrow> str_at (snd (strip_openai p v)) p = Some (canonical m)"
  by (auto simp: strip_openai_def canonical_def or_self_def set_pointer_str split: option.splits)

lemma apply_alias_routed:
  assumes "apply_alias c path p (cf_default_key c) v = Inr (aliased, project, w)" and "str_at v p = Some model"
    and p: "p = model_pointer path u"
  shows "\<exists>m. str_at w p = Some m \<and> routed c path v model = (canonical m, project)"
proof (cases "alias_for c model path")
  case None
  with assms show ?thesis by (auto simp: apply_alias_def routed_def)
next
  case (Some al)
  obtain to key where d: "destination al (requested_effort path v) = (to, key)" by fastforce
  let ?v = "case to of None \<Rightarrow> v | Some m \<Rightarrow> json_set_pointer v p (JString m)"
  from assms(1,2) Some d have w: "apply_effort path (al_reasoning al) ?v = Inr w" "project = or_self key (cf_default_key c)"
    by (auto simp: apply_alias_def)
  have "str_at ?v p = Some (or_self to model)"
    using assms(2) by (cases to) (simp_all add: or_self_def set_pointer_str)
  with effort_keeps_model [OF w(1), of u] p have "str_at w p = Some (or_self to model)" by simp
  with Some d w(2) show ?thesis by (simp add: routed_def)
qed

section \<open>Items removed from a replay\<close>

lemma drop_id_not_minted [simp]: "\<not> minted_id (drop_id item)"
proof (cases "minted_id item \<and> (\<exists>kvs. item = JObject kvs)")
  case True
  then obtain kvs where "item = JObject kvs" "minted_id item" by blast
  moreover have "map_of (filter (\<lambda>(k, _). k \<noteq> ''id'') kvs) ''id'' = None"
    by (auto simp: map_of_eq_None_iff)
  ultimately show ?thesis by (simp add: drop_id_def minted_id_def json_index_def as_str_def)
next
  case False
  then show ?thesis
    by (cases item) (auto simp: drop_id_def minted_id_def json_index_def as_str_def)
qed

lemma drop_id_fields: "k \<noteq> ''id'' \<Longrightarrow> json_get (drop_id item) k = json_get item k"
proof -
  assume k: "k \<noteq> ''id''"
  then have "map_of (filter (\<lambda>(k, _). k \<noteq> ''id'') kvs) k = map_of kvs k" for kvs :: "(string \<times> json) list"
    by (induction kvs) auto
  then show ?thesis by (cases item) (simp_all add: drop_id_def)
qed

lemma drop_id_carrier [simp]: "carrier_item (drop_id item) = carrier_item item"
  by (simp add: carrier_item_def json_index_def drop_id_fields)

section \<open>Properties\<close>

text \<open>
  The reminder is added once and changes nothing else: whatever the request, applying
  the guidance twice is applying it once; a supported request ends with the only
  reminder it holds, its other messages are kept in order, and no other field changes.
\<close>

theorem guidance_appends_one_reminder:
  "guidance_apply path (fst (guidance_apply path v)) = (fst (guidance_apply path v), False) \<and>
   (case guidance_field path v of
      None \<Rightarrow> fst (guidance_apply path v) = v
    | Some (field, w) \<Rightarrow>
        reminded (elements (json_index (fst (guidance_apply path v)) field)) \<and>
        filter (\<lambda>m. \<not> is_reminder m) (elements (json_index (fst (guidance_apply path v)) field)) =
          filter (\<lambda>m. \<not> is_reminder m) (elements (json_index w field))) \<and>
   (\<forall>k. k = ''input'' \<or> k = ''messages'' \<or> json_get (fst (guidance_apply path v)) k = json_get v k)"
proof (cases "guidance_field path v")
  case None
  then show ?thesis by (simp add: guidance_apply_def)
next
  case (Some fw)
  obtain field w where fw: "fw = (field, w)" by fastforce
  from guidance_apply_field [OF Some [unfolded fw]] obtain u where u: "guidance_field path u = Some (field, u)"
    "fst (guidance_apply path v) = u" "reminded (elements (json_index u field))"
    "filter (\<lambda>m. \<not> is_reminder m) (elements (json_index u field)) =
       filter (\<lambda>m. \<not> is_reminder m) (elements (json_index w field))" by blast
  have "guidance_apply path u = (u, False)"
    using u(1,3) by (simp add: guidance_apply_def reminded_def Let_def)
  with u Some fw guidance_keeps_fields show ?thesis by auto
qed

text \<open>
  A request goes to the model its alias names: after rewriting, the model field holds
  the destination of the alias for the requested effort, or the requested model where
  there is none, without the optional provider prefix; the request is charged to the
  destination's project; and the reminder does not interfere.
\<close>

theorem rewritten_model_is_the_destination:
  assumes "rewrite_value c path v = Inr ((changed, project), w)" and "str_at v (model_pointer path v) = Some model"
  shows "(\<exists>m. str_at w (model_pointer path v) = Some m \<and> routed c path v model = (m, project))"
proof -
  let ?g = "if cf_skip_blocked_security_work c then guidance_apply path v else (v, False)"
  let ?v = "fst ?g" and ?p = "model_pointer path v"
  have p: "model_pointer path ?v = ?p" and e: "requested_effort path ?v = requested_effort path v"
    and m: "str_at ?v ?p = Some model"
    using assms(2) by (simp_all add: guidance_keeps_pointer guidance_keeps_effort guidance_keeps_model)
  from assms(1) p obtain aliased u where u: "apply_alias c path ?p (cf_default_key c) ?v = Inr (aliased, project, u)"
    "w = snd (strip_openai ?p u)"
    by (auto simp: rewrite_value_def Let_def split_def split: if_splits)
  from apply_alias_routed [OF u(1) m refl] obtain m' where m': "str_at u ?p = Some m'"
    "routed c path ?v model = (canonical m', project)" by blast
  moreover have "routed c path ?v model = routed c path v model" unfolding routed_def e ..
  ultimately show ?thesis using u(2) strip_openai_model [OF m'(1)] by simp
qed

text \<open>
  A replay for OpenAI holds nothing of Gemini's: no carrier item and no minted
  identifier is left, the other items keep their order and every other field, and a
  second pass changes nothing.
\<close>

theorem replay_removes_foreign_items:
  assumes "trim_end_char (CHR ''/'') path \<in> {''/v1/responses'', ''/responses''}"
    and "as_str (json_index request ''model'') = Some m" and "\<not> begins_with ''gemini/'' m"
    and "json_get request ''input'' = Some (JArray input)"
  shows "\<exists>items. json_get (fst (for_openai path request)) ''input'' = Some (JArray items) \<and>
     items = List.map drop_id (filter (\<lambda>item. \<not> carrier_item item) input) \<and>
     list_all (\<lambda>item. \<not> carrier_item item \<and> \<not> minted_id item) items \<and>
     for_openai path (fst (for_openai path request)) = (fst (for_openai path request), False)"
proof -
  let ?kept = "filter (\<lambda>item. \<not> carrier_item item) input" and ?r = "fst (for_openai path request)"
  let ?items = "List.map drop_id ?kept"
  have same: "List.map drop_id xs = xs" if "\<not> list_ex minted_id xs" for xs
    using that by (induction xs) (auto simp: drop_id_def)
  have input: "json_get ?r ''input'' = Some (JArray ?items)"
  proof (cases "length ?kept \<noteq> length input \<or> list_ex minted_id ?kept")
    case True
    with assms show ?thesis
      by (simp add: for_openai_def json_get_put is_object_get [OF assms(4)] Let_def)
  next
    case False
    then have "?kept = input" by (metis filter_True length_filter_less linorder_neq_iff)
    with False same [of input] assms show ?thesis by (simp add: for_openai_def Let_def)
  qed
  have model: "json_index ?r ''model'' = json_index request ''model''"
    using assms by (simp add: for_openai_def json_index_def json_get_put Let_def)
  have clean: "list_all (\<lambda>item. \<not> carrier_item item \<and> \<not> minted_id item) ?items"
    by (auto simp: list_all_iff)
  then have "filter (\<lambda>item. \<not> carrier_item item) ?items = ?items" "\<not> list_ex minted_id ?items"
    by (auto simp: list_all_iff list_ex_iff filter_id_conv)
  then have "for_openai path ?r = (?r, False)"
    using assms(1-3) input model unfolding for_openai_def [of path ?r] by (simp add: Let_def)
  with input clean show ?thesis by blast
qed

theorem rewritten_model_is_the_destination_witness:
  "\<exists>m. str_at (JObject [(''model'', JString ''b'')]) [''model''] = Some m \<and> m = ''b''"
proof -
  let ?c = "(config_default [])\<lparr>cf_aliases := [\<lparr>al_api_shape = None, al_reasoning_routes = [], al_from = ''a'',
    al_to = Some ''openai/b'', al_reasoning = None, al_api_key = Some ''k''\<rparr>]\<rparr>"
  let ?v = "JObject [(''model'', JString ''a'')]"
  have p: "model_pointer ''/v1/responses'' ?v = [''model'']" by code_simp
  have "rewrite_value ?c ''/v1/responses'' ?v = Inr ((True, ''k''), JObject [(''model'', JString ''b'')])"
    by (simp add: rewrite_value_def p config_default_def apply_alias_def str_at_def alias_for_def alias_matches_def
        destination_def apply_effort_def strip_openai_def or_self_def json_put_def strip_prefix_def Let_def)
  from rewritten_model_is_the_destination [OF this, of "''a''"] p obtain m where
    "str_at (JObject [(''model'', JString ''b'')]) [''model''] = Some m" "routed ?c ''/v1/responses'' ?v ''a'' = (m, ''k'')"
    by (auto simp: str_at_def)
  then show ?thesis by (simp add: str_at_def)
qed

theorem replay_removes_foreign_items_witness:
  "\<exists>items. json_get (fst (for_openai ''/responses'' (JObject [(''input'', JArray [JObject
     [(''encrypted_content'', JString ''hey_gemini_v1.x''), (''type'', JString ''reasoning'')]]),
     (''model'', JString ''m'')]))) ''input'' = Some (JArray items) \<and> items = []"
proof -
  let ?i = "[JObject [(''encrypted_content'', JString ''hey_gemini_v1.x''), (''type'', JString ''reasoning'')]]"
  let ?r = "JObject [(''input'', JArray ?i), (''model'', JString ''m'')]"
  have "trim_end_char (CHR ''/'') ''/responses'' \<in> {''/v1/responses'', ''/responses''}" by code_simp
  moreover have "as_str (json_index ?r ''model'') = Some ''m''" by (simp add: json_index_def)
  moreover have "\<not> begins_with ''gemini/'' ''m''" by code_simp
  moreover have "json_get ?r ''input'' = Some (JArray ?i)" by simp
  ultimately obtain items where
    "json_get (fst (for_openai ''/responses'' ?r)) ''input'' = Some (JArray items)"
    "items = List.map drop_id (filter (\<lambda>item. \<not> carrier_item item) ?i)"
    using replay_removes_foreign_items by blast
  moreover have "filter (\<lambda>item. \<not> carrier_item item) ?i = []"
    by (simp add: carrier_item_def json_index_def begins_with_def strip_prefix_def CARRIER_PREFIX_def)
  ultimately show ?thesis by auto
qed

text \<open>
  What needs no rewriting is forwarded byte for byte: without guidance, alias or
  prefix, and with no item of another provider, the body that is sent is the body that
  came, whatever its spelling of the document.
\<close>

theorem plain_requests_are_forwarded_verbatim:
  assumes "parse body = Some v" and "body \<noteq> []" and "\<not> cf_skip_blocked_security_work c"
    and "str_at v (model_pointer path v) = Some model" and "alias_for c model path = None"
    and "\<not> begins_with ''openai/'' model"
    and "\<forall>item \<in> set (elements (json_index v ''input'')). \<not> carrier_item item \<and> \<not> minted_id item"
  shows "\<exists>native. prepare_json parse show_json c path body project = Inr (body, cf_default_key c, native) \<and>
     (native = None \<or> native = Some v)"
proof -
  let ?p = "model_pointer path v"
  have "apply_alias c path ?p (cf_default_key c) v = Inr (False, cf_default_key c, v)"
    using assms(4,5) by (simp add: apply_alias_def)
  moreover have "strip_openai ?p v = (False, v)"
    using assms(4,6) by (simp add: strip_openai_def begins_with_def)
  ultimately have rw: "rewrite_value c path v = Inr ((False, cf_default_key c), v)"
    using assms(3) by (simp add: rewrite_value_def)
  have replay: "for_openai path v = (v, False)"
  proof (cases "json_get v ''input''")
    case None
    then show ?thesis by (simp add: for_openai_def)
  next
    case (Some x)
    with assms(7) have "x = JArray xs \<Longrightarrow> filter (\<lambda>item. \<not> carrier_item item) xs = xs \<and> \<not> list_ex minted_id xs" for xs
      by (auto simp: json_index_def elements_def filter_id_conv list_ex_iff)
    with Some show ?thesis by (cases x) (auto simp: for_openai_def Let_def)
  qed
  have given: "json_get v ''model'' \<noteq> None \<or> json_pointer v [''session'', ''model''] \<noteq> None"
    using assms(4) pointer_cases [of path v] by (auto simp: str_at_def split: option.splits)
  from given rw replay show ?thesis using assms(1,2)
    by (simp add: prepare_json_def Let_def)
qed

theorem plain_requests_are_forwarded_verbatim_witness:
  "\<exists>native. prepare_json (\<lambda>_. Some (JObject [(''model'', JString ''m'')])) (\<lambda>_. []) (config_default []) ''/v1/responses''
     ''{ }'' ''p'' = Inr (''{ }'', ''default'', native)"
proof -
  let ?v = "JObject [(''model'', JString ''m'')]"
  have p: "str_at ?v (model_pointer ''/v1/responses'' ?v) = Some ''m''" by code_simp
  have "\<exists>native. prepare_json (\<lambda>_. Some ?v) (\<lambda>_. []) (config_default []) ''/v1/responses'' ''{ }'' ''p'' =
      Inr (''{ }'', cf_default_key (config_default []), native) \<and> (native = None \<or> native = Some ?v)"
    by (rule plain_requests_are_forwarded_verbatim [OF _ _ _ p])
      (simp_all add: config_default_def alias_for_def begins_with_def strip_prefix_def json_index_def elements_def)
  then show ?thesis by (auto simp: config_default_def)
qed

end
