(* ===== verification/Forwarding.thy ===== *)
theory Forwarding
  imports Rewriting
begin

text \<open>
  Attempts at a model request: the candidates of a fallback chain, the inspection of an
  answer before it is committed to the client
  (\<open>src/packages/hey-proxy/src/proxy/fallback.rs\<close>), and the retries of one attempt with
  their back-off and time budget (\<open>proxy/recovery.rs\<close>, \<open>retry_delay\<close> in \<open>proxy.rs\<close>).
\<close>

section \<open>Candidates\<close>

record candidate =
  cd_requested :: string
  cd_actual :: string

definition candidate_payload :: "json \<Rightarrow> json \<Rightarrow> candidate list \<Rightarrow> string \<Rightarrow> json" where
  "candidate_payload original rewritten candidates requested =
     json_put (if candidates = [] then original else rewritten) ''model'' (JString requested)"

text \<open>
  The stack of pending names is a list with its top first. A candidate is told apart by
  its rewritten model and project. The guard on sixteen candidates is an equality in the
  code, where the number grows by one.
\<close>

function plan_loop :: "json_parser \<Rightarrow> (json \<Rightarrow> string) \<Rightarrow> config \<Rightarrow> string \<Rightarrow> json \<Rightarrow> json \<Rightarrow> string list \<Rightarrow>
    (string \<times> string) list \<Rightarrow> candidate list \<Rightarrow> candidate list result" where
  "plan_loop parse show_json c path original rewritten [] seen candidates = Inr candidates"
| "plan_loop parse show_json c path original rewritten (requested # pending) seen candidates =
     (if length candidates \<ge> MAX_ATTEMPTS then Inr candidates
      else
        case rewrite parse show_json c path
            (show_json (candidate_payload original rewritten candidates requested)) of
          Inl e \<Rightarrow> Inl e
        | Inr (bytes, project) \<Rightarrow>
            (case parse bytes of
               None \<Rightarrow> Inl ''rewritten JSON'' \<comment> \<open>a panic\<close>
             | Some v \<Rightarrow>
                 (case as_str (json_index v ''model'') of
                    None \<Rightarrow> Inr candidates
                  | Some actual \<Rightarrow>
                      if (actual, project) \<in> set seen
                      then plan_loop parse show_json c path original rewritten pending seen candidates
                      else plan_loop parse show_json c path original rewritten
                        (targets (cf_fallbacks c) actual @ pending) ((actual, project) # seen)
                        (candidates @ [\<lparr>cd_requested = requested, cd_actual = actual\<rparr>]))))"
  by pat_completeness auto
termination
  by (relation "measures [\<lambda>(_, _, _, _, _, _, _, _, candidates). MAX_ATTEMPTS - length candidates,
      \<lambda>(_, _, _, _, _, _, pending, _, _). length pending]") auto

definition plan_candidates ::
    "json_parser \<Rightarrow> (json \<Rightarrow> string) \<Rightarrow> config \<Rightarrow> string \<Rightarrow> json \<Rightarrow> json \<Rightarrow> candidate list result" where
  "plan_candidates parse show_json c path original rewritten =
     (case as_str (json_index original ''model'') of
        None \<Rightarrow> Inr []
      | Some model \<Rightarrow> plan_loop parse show_json c path original rewritten [model] [] [])"

section \<open>Whether to try candidates at all\<close>

record http_request =
  hr_method :: string
  hr_path :: string
  hr_upgrade :: "string option"
  hr_encoding :: "string option"
  hr_type :: "string option"

definition header_text :: "string \<Rightarrow> string option" where
  \<comment> \<open>\<open>HeaderValue::to_str\<close>\<close>
  "header_text h = (if list_all (\<lambda>b. byte_in b 32 126 \<or> byte_of b = 9) h then Some h else None)"

definition trim_ascii :: "string \<Rightarrow> string" where
  "trim_ascii s = (let t = dropWhile (\<lambda>b. byte_of b = 32 \<or> byte_in b 9 13) in rev (t (rev (t s))))"

definition json_type :: "string option \<Rightarrow> bool" where
  "json_type h = (case Option.bind h header_text of
       None \<Rightarrow> False
     | Some v \<Rightarrow>
         let kind = to_ascii_lowercase (trim_ascii (hd (split_char (CHR '';'') v))) in
         kind = ''application/json'' \<or> ends_with ''+json'' kind)"

definition has_fallbacks :: "config \<Rightarrow> bool" where
  "has_fallbacks c \<longleftrightarrow> cf_mode c \<noteq> Client \<and> list_ex (\<lambda>(_, ts). ts \<noteq> []) (cf_fallbacks c)"

datatype decision =
    Upgrade_required
  | Forward_once
  | Too_large
  | Bad_request string
  | Answered \<comment> \<open>by the local probe\<close>
  | Try "candidate list" json json

text \<open>The probe of another component is a parameter; \<open>None\<close> is a body over the limit.\<close>

definition decide ::
    "json_parser \<Rightarrow> (json \<Rightarrow> string) \<Rightarrow> (json \<Rightarrow> bool) \<Rightarrow> config \<Rightarrow> http_request \<Rightarrow> string option \<Rightarrow> decision" where
  "decide parse show_json probe c r body =
     (let path = trim_end_char (CHR ''/'') (hr_path r) in
      if has_fallbacks c \<and> path = ''/v1/responses'' \<and>
        (case hr_upgrade r of None \<Rightarrow> False | Some u \<Rightarrow> to_ascii_lowercase u = ''websocket'')
      then Upgrade_required
      else if \<not> has_fallbacks c \<or> hr_method r \<noteq> ''POST'' \<or>
        path \<notin> {''/v1/responses'', ''/v1/chat/completions''} \<or>
        (case hr_encoding r of None \<Rightarrow> False | Some e \<Rightarrow> e \<noteq> ''identity'') \<or> \<not> json_type (hr_type r)
      then Forward_once
      else case body of
        None \<Rightarrow> Too_large
      | Some bytes \<Rightarrow>
          (case parse bytes of
             None \<Rightarrow> Bad_request ''Request body must be valid JSON''
           | Some v \<Rightarrow>
               if probe v then Answered
               else case rewrite parse show_json c (hr_path r) bytes of
                 Inl e \<Rightarrow> Bad_request e
               | Inr (rewritten, _) \<Rightarrow>
                   (case parse rewritten of
                      None \<Rightarrow> Bad_request ''rewritten JSON'' \<comment> \<open>a panic\<close>
                    | Some w \<Rightarrow>
                        (case plan_candidates parse show_json c (hr_path r) v w of
                           Inl e \<Rightarrow> Bad_request e
                         | Inr candidates \<Rightarrow>
                             if length candidates < 2 then Forward_once
                             else if replay_blocker v \<noteq> None then Forward_once
                             else Try candidates v w))))"

section \<open>Inspecting an answer\<close>

datatype chunk = Chunk string | Broken

record response =
  rs_encoding :: "string option"
  rs_eligible :: bool \<comment> \<open>a connection failure that reached no upstream\<close>
  rs_upstream :: "bool option" \<comment> \<open>a real upstream, and whether it is Gemini\<close>
  rs_type :: "string option"
  rs_status :: nat
  rs_body :: "chunk list"

definition is_success :: "nat \<Rightarrow> bool" where
  "is_success status \<longleftrightarrow> 200 \<le> status \<and> status < 300"

definition is_sse :: "response \<Rightarrow> bool" where
  "is_sse r = (case Option.bind (rs_type r) header_text of
     None \<Rightarrow> False | Some v \<Rightarrow> contains_text ''text/event-stream'' v)"

text \<open>What the end of the body decides, once all of it has been read.\<close>

definition at_end :: "json_parser \<Rightarrow> bool \<Rightarrow> bool \<Rightarrow> nat \<Rightarrow> string \<Rightarrow> string option" where
  "at_end parse gemini sse status bytes =
     (if \<not> is_success status then (if transient_http parse status bytes then Some ''http_transient'' else None)
      else if sse then Some ''pre_output_eof''
      else if prelude_event parse gemini bytes = Refused then Some ''json_refusal'' else None)"

text \<open>
  The loop: the reason to try another candidate, the chunks read, whether the stream
  broke, and what is left of it.
\<close>

fun inspect_loop :: "json_parser \<Rightarrow> bool \<Rightarrow> bool \<Rightarrow> nat \<Rightarrow> chunk list \<Rightarrow> string list \<Rightarrow> nat \<Rightarrow> sse_prelude \<Rightarrow>
    string option \<times> string list \<times> bool \<times> chunk list" where
  "inspect_loop parse gemini sse status [] chunks got p = (at_end parse gemini sse status (concat chunks), chunks, False, [])"
| "inspect_loop parse gemini sse status (Broken # rest) chunks got p =
     (Some ''pre_output_disconnect'', chunks, True, rest)"
| "inspect_loop parse gemini sse status (Chunk bytes # rest) chunks got p =
     (let got = min (got + length bytes) (2 ^ 64 - 1);
          (p, d) = (if sse \<and> is_success status then prelude_feed parse bytes p else (p, Waiting));
          chunks = chunks @ [bytes]
      in if d = Committed then (None, chunks, False, rest)
         else if d = Refused then (Some ''stream_refusal'', chunks, False, rest)
         else if got \<ge> MAX_PRELUDE then (None, chunks, False, rest)
         else inspect_loop parse gemini sse status rest chunks got p)"

definition inspect :: "json_parser \<Rightarrow> response \<Rightarrow> string option \<times> chunk list" where
  "inspect parse r =
     (if (case rs_encoding r of None \<Rightarrow> False | Some e \<Rightarrow> e \<noteq> ''identity'') then (None, rs_body r)
      else if rs_eligible r then (Some ''connection_error'', rs_body r)
      else case rs_upstream r of
        None \<Rightarrow> (None, rs_body r)
      | Some gemini \<Rightarrow>
          if \<not> is_success (rs_status r) \<and> rs_status r \<notin> set TRANSIENT_STATUS then (None, rs_body r)
          else
            let (reason, chunks, broken, rest) =
              inspect_loop parse gemini (is_sse r) (rs_status r) (rs_body r) [] 0 (sse_prelude_new gemini)
            in (reason, List.map Chunk chunks @ (if broken then [Broken] else []) @ rest))"

text \<open>The loop over the candidates: \<open>answers k\<close> is what the attempt at the \<open>k\<close>-th one returns.\<close>

fun attempts :: "json_parser \<Rightarrow> (nat \<Rightarrow> response) \<Rightarrow> nat \<Rightarrow> candidate list \<Rightarrow> nat \<times> chunk list" where
  "attempts parse answers k [] = (k, [])" \<comment> \<open>unreachable: there are candidates\<close>
| "attempts parse answers k (x # xs) =
     (let (reason, body) = inspect parse (answers k) in
      if reason = None \<or> xs = [] then (k, body) else attempts parse answers (k + 1) xs)"

definition attempt_payload :: "json \<Rightarrow> json \<Rightarrow> nat \<Rightarrow> candidate \<Rightarrow> json" where
  "attempt_payload value fallback_payload index x =
     (if index = 0 then value else json_put fallback_payload ''model'' (JString (cd_requested x)))"

section \<open>Retries of one attempt\<close>

definition u64_mul :: "nat \<Rightarrow> nat \<Rightarrow> nat" where
  "u64_mul a b = min (a * b) (2 ^ 64 - 1)"

definition exponential_delay :: "retry \<Rightarrow> nat \<Rightarrow> nat" where
  "exponential_delay r attempt = min (u64_mul (rt_initial_delay_ms r) (2 ^ min attempt 20)) (rt_max_delay_ms r)"

text \<open>\<open>draw n\<close> is the random number of \<open>0..=n\<close>; \<open>retry_after\<close> is the parsed header, zero without one.\<close>

definition retry_delay :: "(nat \<Rightarrow> nat) \<Rightarrow> retry \<Rightarrow> nat \<Rightarrow> nat \<Rightarrow> nat" where
  "retry_delay draw r attempt retry_after =
     (let e = exponential_delay r attempt; jittered = e div 2 + draw (e - e div 2)
      in min (max jittered retry_after) (rt_max_delay_ms r))"

record recovery =
  rc_deadline :: "nat option"
  rc_disabled :: bool
  rc_retries :: nat

definition recovery_new :: "retry \<Rightarrow> nat \<Rightarrow> recovery" where
  "recovery_new r now =
     \<lparr>rc_deadline = (if rt_max_retries r > 0 \<and> rt_recovery_timeout_ms r > 0
        then Some (now + rt_recovery_timeout_ms r) else None), rc_disabled = False, rc_retries = 0\<rparr>"

definition recovery_for :: "bool \<Rightarrow> retry \<Rightarrow> nat \<Rightarrow> recovery" where
  "recovery_for fallback_attempt r now =
     (if fallback_attempt then \<lparr>rc_deadline = None, rc_disabled = True, rc_retries = 0\<rparr> else recovery_new r now)"

definition timed :: "recovery \<Rightarrow> bool" where
  "timed s \<longleftrightarrow> rc_deadline s \<noteq> None"

text \<open>One call of \<open>retry\<close> at the time \<open>now\<close>: whether to repeat, until when it slept, and the new state.\<close>

definition recovery_retry :: "(nat \<Rightarrow> nat) \<Rightarrow> retry \<Rightarrow> nat \<Rightarrow> nat \<Rightarrow> recovery \<Rightarrow> bool \<times> nat \<times> recovery" where
  "recovery_retry draw r retry_after now s =
     (if rc_disabled s \<or> rt_max_retries r = 0 \<or> (\<not> timed s \<and> rc_retries s \<ge> rt_max_retries r)
      then (False, now, s)
      else
        let delay = retry_delay draw r (rc_retries s) retry_after in
        case rc_deadline s of
          Some deadline \<Rightarrow>
            let delay = max delay 10 in
            if now + delay \<ge> deadline then (False, max now deadline, s)
            else (True, now + delay, s\<lparr>rc_retries := min (rc_retries s + 1) (2 ^ 32 - 1)\<rparr>)
        | None \<Rightarrow> (True, now + delay, s\<lparr>rc_retries := min (rc_retries s + 1) (2 ^ 32 - 1)\<rparr>))"

section \<open>Capacity failures\<close>

definition capacity_codes :: "string list" where
  "capacity_codes = [''insufficient_quota'', ''invalid_prompt'', ''billing_hard_limit_reached'', ''billing_not_active'',
     ''invalid_api_key'', ''credit_balance_exhausted'', ''organization_spend_limit_exceeded'',
     ''project_spend_limit_exceeded'']"

definition capacity_phrases :: "string list" where
  "capacity_phrases = [''overloaded'', ''out of capacity'', ''at capacity'', ''capacity_exceeded'']"

definition capacity_error :: "json_parser \<Rightarrow> nat \<Rightarrow> string \<Rightarrow> bool" where
  \<comment> \<open>on the bytes as they are: the lossy decoding of the code cannot create an ASCII phrase\<close>
  "capacity_error parse status prefix =
     (let field = (\<lambda>k. case Option.bind (parse prefix) (\<lambda>v. str_at v [''error'', k]) of None \<Rightarrow> [] | Some s \<Rightarrow> s) in
      if list_ex (\<lambda>v. is_security_block v \<or> v \<in> set capacity_codes) [field ''code'', field ''type''] then False
      else if status \<in> {429, 503, 529} then True
      else if status = 500 then list_ex (\<lambda>p. contains_text p (to_ascii_lowercase prefix)) capacity_phrases
      else False)"

section \<open>What a plan holds\<close>

text \<open>
  Each candidate with the identity it was sent as: the request with its name in the model
  field rewrites to its actual model, for the project of the identity.
\<close>

definition sent_as :: "json_parser \<Rightarrow> (json \<Rightarrow> string) \<Rightarrow> config \<Rightarrow> string \<Rightarrow> json \<Rightarrow> candidate \<Rightarrow> string \<times> string \<Rightarrow> bool" where
  "sent_as parse show_json c path request x i \<longleftrightarrow>
     (\<exists>bytes v. rewrite parse show_json c path (show_json (json_put request ''model'' (JString (cd_requested x)))) =
        Inr (bytes, snd i) \<and> parse bytes = Some v \<and> as_str (json_index v ''model'') = Some (cd_actual x) \<and>
        fst i = cd_actual x)"

definition planned :: "json_parser \<Rightarrow> (json \<Rightarrow> string) \<Rightarrow> config \<Rightarrow> string \<Rightarrow> json \<Rightarrow> json \<Rightarrow> string \<Rightarrow>
    candidate list \<Rightarrow> (string \<times> string) list \<Rightarrow> bool" where
  "planned parse show_json c path original rewritten model cs ids \<longleftrightarrow>
     length cs \<le> MAX_ATTEMPTS \<and> length ids = length cs \<and> distinct ids \<and>
     (\<forall>i < length cs. sent_as parse show_json c path (if i = 0 then original else rewritten) (cs ! i) (ids ! i)) \<and>
     (\<forall>i < length cs. if i = 0 then cd_requested (cs ! i) = model
        else \<exists>j < i. cd_requested (cs ! i) \<in> set (targets (cf_fallbacks c) (cd_actual (cs ! j))))"

definition pending_ok :: "config \<Rightarrow> string \<Rightarrow> string list \<Rightarrow> candidate list \<Rightarrow> bool" where
  "pending_ok c model pending cs \<longleftrightarrow>
     (if cs = [] then pending = [] \<or> pending = [model]
      else \<forall>p \<in> set pending. \<exists>j < length cs. p \<in> set (targets (cf_fallbacks c) (cd_actual (cs ! j))))"

lemma planned_snoc:
  assumes "planned parse show_json c path original rewritten model cs ids" and "length cs < MAX_ATTEMPTS"
    and "pending_ok c model (cd_requested x # pending) cs" and "i \<notin> set ids"
    and "sent_as parse show_json c path (if cs = [] then original else rewritten) x i"
  shows "planned parse show_json c path original rewritten model (cs @ [x]) (ids @ [i])"
proof -
  let ?cs = "cs @ [x]" and ?ids = "ids @ [i]"
  have old: "length ids = length cs" "distinct ids"
    "\<And>k. k < length cs \<Longrightarrow> sent_as parse show_json c path (if k = 0 then original else rewritten) (cs ! k) (ids ! k)"
    "\<And>k. k < length cs \<Longrightarrow> if k = 0 then cd_requested (cs ! k) = model
        else \<exists>j < k. cd_requested (cs ! k) \<in> set (targets (cf_fallbacks c) (cd_actual (cs ! j)))"
    using assms(1) unfolding planned_def by blast+
  have "sent_as parse show_json c path (if k = 0 then original else rewritten) (?cs ! k) (?ids ! k)"
    if "k < length ?cs" for k
    using that old(1,3) assms(5) by (cases "k < length cs") (auto simp: nth_append less_Suc_eq)
  moreover have "if k = 0 then cd_requested (?cs ! k) = model
      else \<exists>j < k. cd_requested (?cs ! k) \<in> set (targets (cf_fallbacks c) (cd_actual (?cs ! j)))"
    if k: "k < length ?cs" for k
  proof (cases "k < length cs")
    case True
    have "?cs ! j = cs ! j" if "j \<le> k" for j using True that by (simp add: nth_append)
    with old(4) [OF True] show ?thesis by (auto split: if_splits)
  next
    case False
    with k have kx: "k = length cs" by simp
    then have "?cs ! k = x" by simp
    with kx assms(3) show ?thesis
      by (cases "cs = []") (auto simp: pending_ok_def nth_append)
  qed
  ultimately show ?thesis using old(1,2) assms(2,4) by (simp add: planned_def)
qed

lemma pending_snoc:
  assumes "pending_ok c model (q # pending) cs"
  shows "pending_ok c model (targets (cf_fallbacks c) (cd_actual x) @ pending) (cs @ [x])"
  using assms by (auto simp: pending_ok_def nth_append less_Suc_eq split: if_splits)

lemma plan_loop_planned:
  "plan_loop parse show_json c path original rewritten pending seen cs = Inr out \<Longrightarrow>
   planned parse show_json c path original rewritten model cs ids \<Longrightarrow> set ids = set seen \<Longrightarrow>
   pending_ok c model pending cs \<Longrightarrow>
   \<exists>ids. planned parse show_json c path original rewritten model out ids"
proof (induction parse show_json c path original rewritten pending seen cs arbitrary: ids rule: plan_loop.induct)
  case (1 parse show_json c path original rewritten seen candidates)
  then show ?case by auto
next
  case (2 parse show_json c path original rewritten requested pending seen candidates)
  show ?case
  proof (cases "length candidates \<ge> MAX_ATTEMPTS")
    case True
    with 2 show ?thesis by auto
  next
    case False
    with 2(3) obtain bytes project where
      rw: "rewrite parse show_json c path (show_json (candidate_payload original rewritten candidates requested)) =
        Inr (bytes, project)" by (auto simp: split_def split: sum.splits)
    with False 2(3) obtain v where v: "parse bytes = Some v" by (auto split: option.splits)
    show ?thesis
    proof (cases "as_str (json_index v ''model'')")
      case None
      with False rw v 2(3,4) show ?thesis by auto
    next
      case (Some actual)
      show ?thesis
      proof (cases "(actual, project) \<in> set seen")
        case True
        with False rw v Some 2(3) have run:
          "plan_loop parse show_json c path original rewritten pending seen candidates = Inr out" by simp
        have "candidates \<noteq> []" using True 2(4,5) by (auto simp: planned_def)
        with 2(6) have "pending_ok c model pending candidates" by (simp add: pending_ok_def)
        from 2(1) [OF False rw refl v Some True run 2(4,5) this] show ?thesis .
      next
        case new: False
        let ?x = "\<lparr>cd_requested = requested, cd_actual = actual\<rparr>"
        from False rw v Some new 2(3) have run: "plan_loop parse show_json c path original rewritten
            (targets (cf_fallbacks c) actual @ pending) ((actual, project) # seen) (candidates @ [?x]) = Inr out" by simp
        have sent: "sent_as parse show_json c path (if candidates = [] then original else rewritten) ?x (actual, project)"
          using rw v Some by (auto simp: sent_as_def candidate_payload_def)
        have "planned parse show_json c path original rewritten model (candidates @ [?x]) (ids @ [(actual, project)])"
          by (rule planned_snoc [OF 2(4) _ _ _ sent]) (use False new 2(5,6) in auto)
        moreover have "set (ids @ [(actual, project)]) = set ((actual, project) # seen)" using 2(5) by auto
        moreover have "pending_ok c model (targets (cf_fallbacks c) actual @ pending) (candidates @ [?x])"
          using pending_snoc [OF 2(6), of ?x] by simp
        ultimately show ?thesis by (rule 2(2) [OF False rw refl v Some new run])
      qed
    qed
  qed
qed

section \<open>What an inspection may give up\<close>

lemma inspect_loop_body:
  "inspect_loop parse gemini sse status stream chunks n p = (reason, cs, broken, rest) \<Longrightarrow>
     List.map Chunk cs @ (if broken then [Broken] else []) @ rest = List.map Chunk chunks @ stream"
  by (induction parse gemini sse status stream chunks n p rule: inspect_loop.induct)
    (auto simp: Let_def split: prod.splits if_splits)

lemma inspect_body [simp]: "snd (inspect parse r) = rs_body r"
proof -
  have "List.map Chunk cs @ (if broken then [Broken] else []) @ rest = rs_body r"
    if "inspect_loop parse gemini (is_sse r) (rs_status r) (rs_body r) [] 0 (sse_prelude_new gemini) =
      (reason, cs, broken, rest)" for gemini reason cs broken rest
    using inspect_loop_body [OF that] by simp
  then show ?thesis
    by (auto simp: inspect_def Let_def split: option.split prod.split)
qed

lemma attempts_first:
  "attempts parse answers k xs = (j, body) \<Longrightarrow> xs \<noteq> [] \<Longrightarrow>
     k \<le> j \<and> j < k + length xs \<and> body = rs_body (answers j) \<and>
     (\<forall>i. k \<le> i \<longrightarrow> i < j \<longrightarrow> fst (inspect parse (answers i)) \<noteq> None) \<and>
     (fst (inspect parse (answers j)) = None \<or> j = k + length xs - 1)"
proof (induction parse answers k xs rule: attempts.induct)
  case (2 parse answers k x xs)
  obtain reason b where ins: "inspect parse (answers k) = (reason, b)" by fastforce
  then have b: "b = rs_body (answers k)" using inspect_body [of parse "answers k"] by simp
  show ?case
  proof (cases "reason = None \<or> xs = []")
    case True
    with 2(2) ins b show ?thesis by auto
  next
    case False
    with 2(2) ins have run: "attempts parse answers (k + 1) xs = (j, body)" by simp
    from 2(1) [OF ins [symmetric] refl False run] False
    have ih: "k + 1 \<le> j" "j < k + 1 + length xs" "body = rs_body (answers j)"
      "\<forall>i. k + 1 \<le> i \<longrightarrow> i < j \<longrightarrow> fst (inspect parse (answers i)) \<noteq> None"
      "fst (inspect parse (answers j)) = None \<or> j = k + 1 + length xs - 1" by auto
    have "fst (inspect parse (answers i)) \<noteq> None" if "k \<le> i" "i < j" for i
      using ih(4) that ins False by (cases "i = k") auto
    with ih show ?thesis by auto
  qed
qed simp

lemma prelude_byte_total: "sp_decision s = Waiting \<Longrightarrow> sp_total (prelude_byte parse b s) = sp_total s + 1"
  by (simp add: prelude_byte_def Let_def)

lemma prelude_byte_full:
  "sp_decision s = Waiting \<Longrightarrow> \<not> sp_total s + 1 < MAX_PRELUDE \<Longrightarrow> sp_decision (prelude_byte parse b s) = Committed"
  by (simp add: prelude_byte_def Let_def)

text \<open>What the scanner has read when it decides, or all of it while it waits.\<close>

lemma prelude_prefix:
  assumes "sp_decision s = Waiting" and "sp_decision (fold (prelude_byte parse) bytes s) \<noteq> Committed"
  shows "\<exists>p q. bytes = p @ q \<and> fold (prelude_byte parse) p s = fold (prelude_byte parse) bytes s \<and>
     (p = [] \<or> sp_total s + length p < MAX_PRELUDE) \<and>
     (sp_decision (fold (prelude_byte parse) bytes s) = Waiting \<longrightarrow> q = [])"
  using assms
proof (induction bytes arbitrary: s)
  case (Cons b bs)
  define t where "t = prelude_byte parse b s"
  have total: "sp_total t = sp_total s + 1" using prelude_byte_total [OF Cons.prems(1)] by (simp add: t_def)
  have last: "sp_decision (fold (prelude_byte parse) bs t) \<noteq> Committed" using Cons.prems(2) by (simp add: t_def)
  have room: "sp_total s + 1 < MAX_PRELUDE"
    using prelude_byte_full [OF Cons.prems(1), of parse b] prelude_decided [of t parse bs] last t_def by fastforce
  have fold: "fold (prelude_byte parse) (b # xs) s = fold (prelude_byte parse) xs t" for xs
    by (simp add: t_def)
  show ?case
  proof (cases "sp_decision t = Waiting")
    case True
    from Cons.IH [OF True last] obtain p q where "bs = p @ q"
      "fold (prelude_byte parse) p t = fold (prelude_byte parse) bs t"
      "p = [] \<or> sp_total t + length p < MAX_PRELUDE"
      "sp_decision (fold (prelude_byte parse) bs t) = Waiting \<longrightarrow> q = []" by blast
    with total room fold show ?thesis by (intro exI [of _ "b # p"] exI [of _ q]) auto
  next
    case False
    with prelude_decided [of t parse bs] room fold [of "[]"] fold [of bs] show ?thesis
      by (intro exI [of _ "[b]"] exI [of _ bs]) simp
  qed
qed simp

fun before_break :: "chunk list \<Rightarrow> string" where
  "before_break (Chunk b # cs) = b @ before_break cs"
| "before_break _ = []"

definition refusal_reason :: string where
  "refusal_reason = ''stream_refusal''"

lemma prelude_feed_fold:
  "prelude_feed parse bytes s = (fold (prelude_byte parse) bytes s, sp_decision (fold (prelude_byte parse) bytes s))"
  by (simp add: prelude_feed_def Let_def)

lemma inspect_loop_stream:
  "inspect_loop parse gemini True status stream chunks n p = (Some reason, cs, broken, rest) \<Longrightarrow>
   is_success status \<Longrightarrow> sp_decision p = Waiting \<Longrightarrow>
   \<exists>new more. before_break stream = new @ more \<and>
     (if reason = refusal_reason then sp_decision (fold (prelude_byte parse) new p) = Refused
      else more = [] \<and> sp_decision (fold (prelude_byte parse) new p) = Waiting)"
proof (induction stream arbitrary: chunks n p)
  case Nil
  then show ?case by (auto simp: at_end_def refusal_reason_def split: if_splits)
next
  case (Cons x stream)
  show ?case
  proof (cases x)
    case Broken
    with Cons.prems show ?thesis by (auto simp: refusal_reason_def)
  next
    case (Chunk bytes)
    let ?q = "fold (prelude_byte parse) bytes p"
    let ?n = "min (n + length bytes) (2 ^ 64 - 1)"
    have run: "(if sp_decision ?q = Committed then (None, chunks @ [bytes], False, stream)
        else if sp_decision ?q = Refused then (Some ''stream_refusal'', chunks @ [bytes], False, stream)
        else if ?n \<ge> MAX_PRELUDE then (None, chunks @ [bytes], False, stream)
        else inspect_loop parse gemini True status stream (chunks @ [bytes]) ?n ?q) = (Some reason, cs, broken, rest)"
      using Cons.prems(1,2) Chunk by (simp add: prelude_feed_fold Let_def cong: if_cong)
    show ?thesis
    proof (cases "sp_decision ?q")
      case Waiting
      with run have "inspect_loop parse gemini True status stream (chunks @ [bytes]) ?n ?q = (Some reason, cs, broken, rest)"
        by (simp split: if_splits)
      from Cons.IH [OF this Cons.prems(2) Waiting] obtain new more where "before_break stream = new @ more"
        "if reason = refusal_reason then sp_decision (fold (prelude_byte parse) new ?q) = Refused
         else more = [] \<and> sp_decision (fold (prelude_byte parse) new ?q) = Waiting" by blast
      with Chunk show ?thesis by (intro exI [of _ "bytes @ new"] exI [of _ more]) simp
    next
      case Committed
      with run show ?thesis by simp
    next
      case Refused
      with run have "reason = refusal_reason" by (simp add: refusal_reason_def)
      with Refused Chunk show ?thesis by (intro exI [of _ bytes] exI [of _ "before_break stream"]) simp
    qed
  qed
qed

lemma first_decision_waiting: "first_decision f bs = Waiting \<Longrightarrow> \<forall>x \<in> set bs. f x = Waiting"
  by (induction bs) (auto split: if_splits)

definition events_in :: "string \<Rightarrow> string list" where
  "events_in bytes = fst (event_blocks (fst (split_lines bytes)) [])"

section \<open>Recovery over time\<close>

text \<open>
  The retries of one request: before each call some time has passed, and the answer may
  have named a delay. The number of repetitions that were granted.
\<close>

fun recovery_run :: "(nat \<Rightarrow> nat) \<Rightarrow> retry \<Rightarrow> (nat \<times> nat) list \<Rightarrow> nat \<Rightarrow> recovery \<Rightarrow> nat" where
  "recovery_run draw r [] now s = 0"
| "recovery_run draw r ((elapsed, retry_after) # steps) now s =
     (let (again, until, s) = recovery_retry draw r retry_after (now + elapsed) s in
      if again then Suc (recovery_run draw r steps until s) else 0)"

lemma run_disabled: "rc_disabled s \<or> rt_max_retries r = 0 \<Longrightarrow> recovery_run draw r steps now s = 0"
  by (cases steps) (auto simp: recovery_retry_def)

lemma run_timed:
  "rc_deadline s = Some deadline \<Longrightarrow> 10 * recovery_run draw r steps now s \<le> deadline - now"
proof (induction draw r steps now s rule: recovery_run.induct)
  case (2 draw r elapsed retry_after steps now s)
  obtain again until s' where step: "recovery_retry draw r retry_after (now + elapsed) s = (again, until, s')"
    by (metis prod_cases3)
  show ?case
  proof (cases again)
    case True
    with step 2(2) have "now + 10 \<le> until" "until < deadline" "rc_deadline s' = Some deadline"
      by (auto simp: recovery_retry_def Let_def split: if_splits)
    moreover from 2(1) [OF step [symmetric] refl refl True this(3)] True step
    have "10 * recovery_run draw r steps until s' \<le> deadline - until" by simp
    ultimately show ?thesis using step True by simp
  qed (simp add: step)
qed simp

lemma run_counted:
  "rc_deadline s = None \<Longrightarrow> rt_max_retries r \<le> 20 \<Longrightarrow>
     recovery_run draw r steps now s \<le> rt_max_retries r - rc_retries s"
proof (induction draw r steps now s rule: recovery_run.induct)
  case (2 draw r elapsed retry_after steps now s)
  obtain again until s' where step: "recovery_retry draw r retry_after (now + elapsed) s = (again, until, s')"
    by (metis prod_cases3)
  show ?case
  proof (cases again)
    case True
    with step 2(2,3) have "rc_retries s < rt_max_retries r" "rc_retries s' = rc_retries s + 1" "rc_deadline s' = None"
      by (auto simp: recovery_retry_def timed_def Let_def split: if_splits)
    with 2(1) [OF step [symmetric] refl refl True this(3) 2(3)] step True show ?thesis by simp
  qed (simp add: step)
qed simp

lemma bounded_wait:
  fixes d :: nat
  assumes "d \<le> e - e div 2"
  shows "min cap (max (e div 2) ra) \<le> min (max (e div 2 + d) ra) cap \<and>
     min (max (e div 2 + d) ra) cap \<le> min cap (max e ra)"
  unfolding min.commute [of _ cap] using assms by (intro conjI min.mono max.mono) simp_all

section \<open>Properties\<close>

text \<open>
  A plan is short and has no repetition: of at most sixteen candidates the first is
  the requested model and each later one a fallback target of an earlier one, and no two
  are sent as the same model for the same project, whatever cycle the aliases make.
\<close>

theorem fallback_plan_has_distinct_candidates:
  assumes "plan_candidates parse show_json c path original rewritten = Inr cs"
    and "as_str (json_index original ''model'') = Some model"
  shows "\<exists>ids. planned parse show_json c path original rewritten model cs ids"
proof -
  have run: "plan_loop parse show_json c path original rewritten [model] [] [] = Inr cs"
    using assms by (simp add: plan_candidates_def)
  have "planned parse show_json c path original rewritten model [] []" by (simp add: planned_def)
  moreover have "pending_ok c model [model] []" by (simp add: pending_ok_def)
  ultimately show ?thesis using plan_loop_planned [OF run] by simp
qed

text \<open>
  The client gets one answer, unchanged: the first that is no reason to try the next
  candidate, or the last; every earlier one gave such a reason, no candidate is tried
  twice, and the body passed on is exactly what the upstream sent, in order.
\<close>

theorem forwarded_answer_is_first_final:
  assumes "attempts parse answers 0 cs = (j, body)" and "cs \<noteq> []"
  shows "j < length cs \<and> body = rs_body (answers j) \<and>
     (\<forall>i < j. fst (inspect parse (answers i)) \<noteq> None) \<and>
     (fst (inspect parse (answers j)) = None \<or> j = length cs - 1)"
  using attempts_first [OF assms] by auto

text \<open>
  C24. A streamed answer is given up only before it said anything. When inspection asks for
  the next candidate, every event received before the stream ended or broke announces a
  response (\<open>response.created\<close> or \<open>response.in_progress\<close>, without output or error); or
  the stream refused: the events up to some point are such announcements followed by one
  transient error event without output. An event of any other kind, known or not, that
  comes before keeps the answer.
\<close>

theorem abandoned_stream_had_no_output:
  assumes "fst (inspect parse r) = Some reason" and "rs_upstream r = Some gemini" and "\<not> rs_eligible r"
    and "is_sse r" and "is_success (rs_status r)"
  shows "\<exists>p q seen rest. before_break (rs_body r) = p @ q \<and> events_in p = seen @ rest \<and>
     (if reason = refusal_reason
      then \<exists>before b v. seen = before @ [b] \<and> parse b = Some v \<and> refusal gemini v \<and>
             list_all (\<lambda>x. \<exists>v. parse x = Some v \<and> announcement v) before
      else q = [] \<and> rest = [] \<and> list_all (\<lambda>x. \<exists>v. parse x = Some v \<and> announcement v) seen)"
proof -
  let ?s = "sse_prelude_new gemini"
  let ?f = "prelude_event parse gemini"
  obtain reason' cs broken rest where loop: "inspect_loop parse gemini True (rs_status r) (rs_body r) [] 0 ?s =
      (reason', cs, broken, rest)" by (metis prod_cases4)
  have "\<not> (case rs_encoding r of None \<Rightarrow> False | Some e \<Rightarrow> e \<noteq> ''identity'')"
    using assms(1) by (auto simp: inspect_def)
  then have "fst (inspect parse r) = reason'"
    using assms(2-5) loop by (simp add: inspect_def)
  with assms(1) have "reason' = Some reason" by simp
  from inspect_loop_stream [OF loop [unfolded this] assms(5)] obtain new more
    where new: "before_break (rs_body r) = new @ more" and d: "if reason = refusal_reason
        then sp_decision (fold (prelude_byte parse) new ?s) = Refused
        else more = [] \<and> sp_decision (fold (prelude_byte parse) new ?s) = Waiting"
    by (auto simp: sse_prelude_new_def)
  have "sp_decision ?s = Waiting" "sp_decision (fold (prelude_byte parse) new ?s) \<noteq> Committed"
    using d by (auto simp: sse_prelude_new_def split: if_splits)
  from prelude_prefix [OF this] obtain p q where p: "new = p @ q"
    "fold (prelude_byte parse) p ?s = fold (prelude_byte parse) new ?s"
    "p = [] \<or> sp_total ?s + length p < MAX_PRELUDE"
    "sp_decision (fold (prelude_byte parse) new ?s) = Waiting \<longrightarrow> q = []" by blast
  have "sp_total ?s + length p < MAX_PRELUDE" using p(3) by (auto simp: sse_prelude_new_def MAX_PRELUDE_def)
  then have dec: "sp_decision (fold (prelude_byte parse) new ?s) = first_decision ?f (events_in p)"
    using prelude_follows [of ?s p parse] p(2) by (simp add: sse_prelude_new_def events_in_def)
  have silent: "list_all (\<lambda>x. \<exists>v. parse x = Some v \<and> announcement v) xs"
    if "\<forall>x \<in> set xs. ?f x = Waiting" for xs
    using that by (simp add: list_all_iff prelude_event_waiting)
  show ?thesis
  proof (cases "reason = refusal_reason")
    case True
    with d dec obtain before b after where ev: "events_in p = before @ b # after" "?f b = Refused"
      "\<forall>x \<in> set before. ?f x = Waiting" using first_decision_refused by metis
    have 1: "before_break (rs_body r) = p @ (q @ more)" using new p(1) by simp
    have 2: "events_in p = (before @ [b]) @ after" using ev(1) by simp
    have 3: "\<exists>before' b' v. before @ [b] = before' @ [b'] \<and> parse b' = Some v \<and> refusal gemini v \<and>
        list_all (\<lambda>x. \<exists>v. parse x = Some v \<and> announcement v) before'"
      using silent [OF ev(3)] ev(2) by (auto simp: prelude_event_refused)
    from 1 2 3 show ?thesis unfolding if_P [OF True] by blast
  next
    case False
    with d have more: "more = []" "sp_decision (fold (prelude_byte parse) new ?s) = Waiting" by simp_all
    with dec first_decision_waiting [of ?f "events_in p"] have w: "\<forall>x \<in> set (events_in p). ?f x = Waiting" by simp
    have 1: "before_break (rs_body r) = p @ []" using new p(1,4) more by simp
    have 2: "events_in p = events_in p @ []" by simp
    have 3: "list_all (\<lambda>x. \<exists>v. parse x = Some v \<and> announcement v) (events_in p)"
      by (rule silent [OF w])
    from 1 2 3 show ?thesis unfolding if_not_P [OF False] by blast
  qed
qed

text \<open>
  Retrying ends: with validated settings a request is repeated at most as often as
  configured, or, under a time budget, at most once in ten milliseconds of it, whatever
  the answers say; an attempt of a fallback chain is never repeated.
\<close>

theorem recovery_is_bounded:
  assumes "check_retry r = Inr ()"
  shows "recovery_run draw r steps now (recovery_for True r now) = 0 \<and>
     (let n = recovery_run draw r steps now (recovery_for False r now) in
      if rt_max_retries r = 0 then n = 0
      else if rt_recovery_timeout_ms r = 0 then n \<le> rt_max_retries r
      else 10 * n \<le> rt_recovery_timeout_ms r)"
proof -
  have "rt_max_retries r \<le> 20" using assms by (simp add: check_retry_def)
  then show ?thesis
    using run_disabled [of "recovery_for True r now" r draw steps now] run_disabled [of "recovery_new r now" r draw steps now]
      run_timed [of "recovery_new r now" "now + rt_recovery_timeout_ms r" draw r steps now]
      run_counted [of "recovery_new r now" r draw steps now]
    by (simp add: recovery_for_def recovery_new_def Let_def)
qed

theorem recovery_is_bounded_witness:
  "10 * recovery_run id retry_default [(1, 0), (400, 2000)] 7 (recovery_for False retry_default 7) \<le> 290000"
  using recovery_is_bounded [of retry_default id "[(1, 0), (400, 2000)]" 7]
  by (simp add: check_retry_def retry_default_def)

text \<open>
  Back-off is bounded both ways: every wait lies between half of the doubled initial
  delay and that delay, or the delay the answer asked for where that is longer, and is
  cut only at the configured maximum.
\<close>

theorem retry_delay_is_bounded:
  assumes "\<And>n. draw n \<le> n"
  shows "min (rt_max_delay_ms r) (max (exponential_delay r attempt div 2) retry_after) \<le> retry_delay draw r attempt retry_after \<and>
     retry_delay draw r attempt retry_after \<le> min (rt_max_delay_ms r) (max (exponential_delay r attempt) retry_after) \<and>
     exponential_delay r attempt \<le> exponential_delay r (Suc attempt)"
proof -
  let ?e = "exponential_delay r attempt"
  have "exponential_delay r attempt \<le> exponential_delay r (Suc attempt)"
  proof -
    have "(2::nat) ^ min attempt 20 \<le> 2 ^ min (Suc attempt) 20" by (rule power_increasing) auto
    then have "rt_initial_delay_ms r * 2 ^ min attempt 20 \<le> rt_initial_delay_ms r * 2 ^ min (Suc attempt) 20"
      by (rule mult_le_mono2)
    then show ?thesis unfolding exponential_delay_def u64_mul_def by (intro min.mono) auto
  qed
  then show ?thesis
    using bounded_wait [of "draw (?e - ?e div 2)" ?e "rt_max_delay_ms r" retry_after] assms [of "?e - ?e div 2"]
    by (simp add: retry_delay_def Let_def)
qed

theorem retry_delay_is_bounded_witness:
  "500 \<le> retry_delay id retry_default 1 0 \<and> retry_delay id retry_default 1 0 \<le> 1000"
  using retry_delay_is_bounded [of id retry_default 1 0]
  by (simp add: exponential_delay_def u64_mul_def retry_default_def)

text \<open>Two answers: an overloaded stream, then a message.\<close>

definition example_answers :: "nat \<Rightarrow> response" where
  "example_answers k = \<lparr>rs_encoding = None, rs_eligible = False, rs_upstream = Some False,
     rs_type = Some ''text/event-stream'', rs_status = 200,
     rs_body = (if k = 0 then [Chunk ''data: w'', Chunk [CHR 0x0A, CHR 0x0A], Broken] else [Chunk ''data: {}'', Chunk [CHR 0x0A, CHR 0x0A]])\<rparr>"

lemma example_inspect: "inspect example_parser (example_answers 0) =
    (Some ''pre_output_disconnect'', rs_body (example_answers 0))"
proof -
  have "prelude_event example_parser False ''w'' = Waiting"
    by (simp add: prelude_event_def example_parser_def has_output_def at_pointer_def json_index_def)
  moreover have "is_sse (example_answers 0)" by (simp add: example_answers_def is_sse_def, code_simp)
  moreover have "example_answers 0 = \<lparr>rs_encoding = None, rs_eligible = False, rs_upstream = Some False,
     rs_type = Some ''text/event-stream'', rs_status = 200,
     rs_body = [Chunk ''data: w'', Chunk [CHR 0x0A, CHR 0x0A], Broken]\<rparr>" by (simp add: example_answers_def)
  ultimately show ?thesis
    by (simp add: inspect_def is_success_def prelude_feed_def prelude_byte_def sse_prelude_new_def
        MAX_PRELUDE_def trim_cr_def data_line_def strip_prefix_def or_self_def)
qed

theorem abandoned_stream_had_no_output_witness:
  "\<exists>p q seen rest. before_break (rs_body (example_answers 0)) = p @ q \<and> events_in p = seen @ rest \<and>
     (if ''pre_output_disconnect'' = refusal_reason
      then \<exists>before b v. seen = before @ [b] \<and> example_parser b = Some v \<and> refusal False v \<and>
             list_all (\<lambda>x. \<exists>v. example_parser x = Some v \<and> announcement v) before
      else q = [] \<and> rest = [] \<and> list_all (\<lambda>x. \<exists>v. example_parser x = Some v \<and> announcement v) seen)"
proof (rule abandoned_stream_had_no_output)
  show "fst (inspect example_parser (example_answers 0)) = Some ''pre_output_disconnect''"
    by (simp add: example_inspect)
  show "is_sse (example_answers 0)" by (simp add: example_answers_def is_sse_def, code_simp)
qed (simp_all add: example_answers_def is_success_def)

definition example_pair :: "candidate list" where
  "example_pair = [\<lparr>cd_requested = ''a'', cd_actual = ''a''\<rparr>, \<lparr>cd_requested = ''b'', cd_actual = ''b''\<rparr>]"

theorem forwarded_answer_is_first_final_witness:
  "\<exists>j body. attempts example_parser example_answers 0 example_pair = (j, body) \<and> j < 2 \<and> body = rs_body (example_answers j)"
proof -
  obtain j body where run: "attempts example_parser example_answers 0 example_pair = (j, body)" by fastforce
  from forwarded_answer_is_first_final [OF run] have "j < length example_pair" "body = rs_body (example_answers j)"
    by (simp_all add: example_pair_def)
  with run show ?thesis by (simp add: example_pair_def)
qed

definition one_key_show :: "json \<Rightarrow> string" where
  "one_key_show v = (case str_at v [''model''] of None \<Rightarrow> ''?'' | Some m \<Rightarrow> m)"

definition one_key_parse :: json_parser where
  "one_key_parse s = Some (JObject [(''model'', JString s)])"

theorem fallback_plan_has_distinct_candidates_witness:
  "\<exists>ids. planned one_key_parse one_key_show ((config_default [])\<lparr>cf_fallbacks := [(''a'', [''b'', ''a''])]\<rparr>) ''/v1/responses''
     (JObject [(''model'', JString ''a'')]) (JObject [(''model'', JString ''a'')]) ''a'' example_pair ids"
proof (rule fallback_plan_has_distinct_candidates)
  show "as_str (json_index (JObject [(''model'', JString ''a'')]) ''model'') = Some ''a''" by (simp add: json_index_def)
  have rw: "rewrite one_key_parse one_key_show ((config_default [])\<lparr>cf_fallbacks := fs\<rparr>) ''/v1/responses'' m = Inr (m, ''default'')"
    if m: "m \<noteq> []" "strip_prefix ''openai/'' m = None" for m fs
  proof -
    let ?c = "(config_default [])\<lparr>cf_fallbacks := fs\<rparr>" and ?v = "JObject [(''model'', JString m)]"
    have p: "model_pointer ''/v1/responses'' ?v = [''model'']" by (simp add: model_pointer_def)
    have "apply_alias ?c ''/v1/responses'' [''model''] ''default'' ?v = Inr (False, ''default'', ?v)"
      by (simp add: apply_alias_def str_at_def alias_for_def config_default_def)
    moreover have "strip_openai [''model''] ?v = (False, ?v)" using m(2) by (simp add: strip_openai_def str_at_def)
    ultimately have "rewrite_value ?c ''/v1/responses'' ?v = Inr ((False, ''default''), ?v)"
      by (simp add: rewrite_value_def p config_default_def)
    with m(1) show ?thesis by (simp add: rewrite_def one_key_parse_def)
  qed
  have names: "strip_prefix ''openai/'' ''a'' = None" "strip_prefix ''openai/'' ''b'' = None"
    by (simp_all add: strip_prefix_def)
  have fs: "targets [(''a'', [''b'', ''a''])] ''a'' = [''b'', ''a'']" "targets [(''a'', [''b'', ''a''])] ''b'' = []"
    by (simp_all add: targets_def canonical_def names or_self_def)
  have put: "one_key_show (candidate_payload (JObject [(''model'', JString ''a'')]) (JObject [(''model'', JString ''a'')]) cs m) = m"
    for cs m by (simp add: candidate_payload_def json_put_def one_key_show_def str_at_def)
  show "plan_candidates one_key_parse one_key_show ((config_default [])\<lparr>cf_fallbacks := [(''a'', [''b'', ''a''])]\<rparr>)
      ''/v1/responses'' (JObject [(''model'', JString ''a'')]) (JObject [(''model'', JString ''a'')]) = Inr example_pair"
    using rw [OF _ names(1)] rw [OF _ names(2)]
    by (simp add: plan_candidates_def json_index_def MAX_ATTEMPTS_def put one_key_parse_def fs example_pair_def)
qed

end
