(* ===== verification/Capacity.thy ===== *)
theory Capacity
  imports Forwarding
begin

text \<open>
  Capacity failures of an upstream (\<open>src/packages/hey-proxy/src/proxy/capacity.rs\<close>): which
  answers may be replayed before output, and the translation of the others into
  retryable server errors, in documents and inside event streams. Everything else in a
  stream is shown to pass unchanged.
\<close>

section \<open>Error envelopes\<close>

definition LIMIT :: nat where "LIMIT = 1024 * 1024"

definition text_of :: "json \<Rightarrow> string" where
  "text_of v = (case as_str v of None \<Rightarrow> [] | Some s \<Rightarrow> s)"

definition capacity_permanent :: "json \<Rightarrow> bool" where
  "capacity_permanent err = list_ex (\<lambda>key. case as_str (json_index err key) of
       None \<Rightarrow> False
     | Some code \<Rightarrow> is_security_block code \<or> code \<in> set capacity_codes) [''code'', ''type'']"

definition capacity_message :: "string \<Rightarrow> bool" where
  "capacity_message message = list_ex (\<lambda>p. contains_text p (to_ascii_lowercase message)) capacity_phrases"

definition TRANSLATED :: string where
  "TRANSLATED = ''Upstream model is at capacity; hey-proxy translated''"

definition is_capacity :: "json \<Rightarrow> bool" where
  "is_capacity err =
     (let code = text_of (json_index err ''code''); kind = text_of (json_index err ''type'');
          message = text_of (json_index err ''message'') in
      if capacity_permanent err \<or> (code = ''server_error'' \<and> begins_with TRANSLATED message) then False
      else list_ex (\<lambda>v. v = ''server_is_overloaded'' \<or> v = ''capacity_exceeded'') [code, kind] \<or>
        capacity_message message)"

definition rewrite_error :: "json \<Rightarrow> json option" where
  "rewrite_error err =
     (if \<not> is_object err \<or> \<not> is_capacity err then None
      else
        let original = text_of (json_index err ''message'');
            err = (case json_get err ''code'' of None \<Rightarrow> err | Some code \<Rightarrow> json_put err ''upstream_code'' code);
            err = json_put err ''code'' (JString ''server_error'');
            err = json_put err ''type'' (JString ''server_error'')
        in Some (json_put err ''message'' (JString (TRANSLATED @
             '' this capacity failure to a retryable server error. Original upstream message: '' @
             (if original = [] then ''(none provided)'' else original)))))"

definition failed_status :: "json \<Rightarrow> json" where
  "failed_status v =
     (let v = json_put v ''status'' (JInt 500) in
      fold (\<lambda>key v. if json_get v key \<noteq> None then json_put v key (JInt 500) else v) [''status'', ''status_code''] v)"

definition error_pointer :: "string \<Rightarrow> string list option" where
  "error_pointer kind = (if kind = ''response.failed'' then Some [''response'', ''error'']
     else if kind = ''error'' then Some [''error''] else None)"

definition capacity_event :: "json_parser \<Rightarrow> (json \<Rightarrow> string) \<Rightarrow> string \<Rightarrow> string option" where
  "capacity_event parse show_json bytes =
     (case parse bytes of
        None \<Rightarrow> None
      | Some v \<Rightarrow>
          let kind = text_of (json_index v ''type'') in
          case error_pointer kind of
            None \<Rightarrow> None
          | Some p \<Rightarrow>
              (case Option.bind (json_pointer v p) rewrite_error of
                 None \<Rightarrow> None
               | Some err \<Rightarrow>
                   let v = json_set_pointer v p err in
                   Some (show_json (if kind = ''error'' then failed_status v else v))))"

definition capacity_http :: "json_parser \<Rightarrow> (json \<Rightarrow> string) \<Rightarrow> string \<Rightarrow> string option" where
  "capacity_http parse show_json bytes =
     (let value = (case parse bytes of
          Some v \<Rightarrow> Some v
        | None \<Rightarrow> if valid_utf8 bytes \<and> capacity_message bytes
            then Some (JObject [(''error'', JObject [(''message'', JString bytes)])]) else None)
      in case value of
        None \<Rightarrow> None
      | Some v \<Rightarrow>
          (case Option.bind (json_get v ''error'') rewrite_error of
             None \<Rightarrow> None | Some err \<Rightarrow> Some (show_json (json_put v ''error'' err))))"

section \<open>Preludes\<close>

datatype capacity_prelude = CWaiting | Started | CRefused

definition capacity_prelude_event :: "json_parser \<Rightarrow> (json \<Rightarrow> string) \<Rightarrow> string \<Rightarrow> capacity_prelude" where
  "capacity_prelude_event parse show_json bytes =
     (case parse bytes of
        None \<Rightarrow> Started
      | Some v \<Rightarrow>
          let kind = as_str (json_index v ''type'') in
          if list_ex (\<lambda>p. at_pointer v p capacity_permanent) [[''error''], [''response'', ''error'']] then Started
          else if at_pointer v [''response'', ''output'']
              (\<lambda>x. case as_array x of None \<Rightarrow> False | Some xs \<Rightarrow> xs \<noteq> []) \<or>
            at_pointer v [''response'', ''usage'', ''output_tokens'']
              (\<lambda>x. case as_u64 x of None \<Rightarrow> False | Some n \<Rightarrow> n > 0) then Started
          else if capacity_event parse show_json bytes \<noteq> None \<or>
            (kind = Some ''error'' \<or> kind = Some ''response.failed'') \<and>
            list_ex (\<lambda>p. str_at v p = Some ''rate_limit_exceeded'')
              [[''error'', ''code''], [''response'', ''error'', ''code'']] then CRefused
          else if kind = Some ''response.created'' \<or> kind = Some ''response.in_progress'' then CWaiting
          else Started)"

fun split_inclusive :: "string \<Rightarrow> string list" where
  "split_inclusive [] = []"
| "split_inclusive (c # s) =
     (if c = CHR 0x0A then [c] # split_inclusive s
      else case split_inclusive s of [] \<Rightarrow> [[c]] | l # ls \<Rightarrow> (c # l) # ls)"

definition trim_newline :: "string \<Rightarrow> string" where
  "trim_newline line = trim_cr (or_self (strip_suffix [CHR 0x0A] line) line)"

fun prelude_lines :: "(string \<Rightarrow> capacity_prelude) \<Rightarrow> bool \<Rightarrow> string list \<Rightarrow> string \<Rightarrow> capacity_prelude" where
  "prelude_lines f complete [] data = (if complete then (if data = [] then Started else f data) else CWaiting)"
| "prelude_lines f complete (l # ls) data =
     (if \<not> ends_with [CHR 0x0A] l \<and> \<not> complete then CWaiting
      else
        let line = trim_newline l in
        if line = [] then
          (if data \<noteq> [] then (let r = f data in if r \<noteq> CWaiting then r else prelude_lines f complete ls [])
           else prelude_lines f complete ls data)
        else prelude_lines f complete ls (data_line line data))"

definition prelude_sse :: "json_parser \<Rightarrow> (json \<Rightarrow> string) \<Rightarrow> string \<Rightarrow> bool \<Rightarrow> capacity_prelude" where
  "prelude_sse parse show_json bytes complete =
     (if length bytes \<ge> LIMIT then Started
      else prelude_lines (capacity_prelude_event parse show_json) complete (split_inclusive bytes) [])"

section \<open>The stream\<close>

record capacity_sse =
  ca_buffer :: string
  ca_overflow :: bool
  ca_nonempty :: bool

definition capacity_sse_new :: capacity_sse where
  "capacity_sse_new = \<lparr>ca_buffer = [], ca_overflow = False, ca_nonempty = False\<rparr>"

definition block_data :: "string \<Rightarrow> string" where
  "block_data original = fold (\<lambda>l data. data_line (trim_cr l) data) (split_char (CHR 0x0A) original) []"

definition line_end :: "string \<Rightarrow> string" where
  "line_end line = (if ends_with [CHR 0x0D, CHR 0x0A] line then [CHR 0x0D, CHR 0x0A]
     else if ends_with [CHR 0x0A] line then [CHR 0x0A] else [])"

fun replace_data :: "string \<Rightarrow> bool \<Rightarrow> string list \<Rightarrow> string" where
  "replace_data rewritten inserted [] = []"
| "replace_data rewritten inserted (l # ls) =
     (if begins_with ''data:'' l
      then (if inserted then [] else ''data: '' @ rewritten @ line_end l) @ replace_data rewritten True ls
      else l @ replace_data rewritten inserted ls)"

definition capacity_finish :: "json_parser \<Rightarrow> (json \<Rightarrow> string) \<Rightarrow> capacity_sse \<Rightarrow> capacity_sse \<times> string" where
  "capacity_finish parse show_json s =
     (let original = ca_buffer s; s = s\<lparr>ca_buffer := []\<rparr> in
      case capacity_event parse show_json (block_data original) of
        None \<Rightarrow> (s, original)
      | Some rewritten \<Rightarrow> (s, replace_data rewritten False (split_inclusive original)))"

definition capacity_byte ::
    "json_parser \<Rightarrow> (json \<Rightarrow> string) \<Rightarrow> char \<Rightarrow> capacity_sse \<times> string \<Rightarrow> capacity_sse \<times> string" where
  "capacity_byte parse show_json b = (\<lambda>(s, output).
     let (s, output) = (if ca_overflow s then (s, output @ [b]) else (s\<lparr>ca_buffer := ca_buffer s @ [b]\<rparr>, output));
         (s, output) =
           (if b = CHR 0x0A then
              (let (s, output) =
                 (if \<not> ca_nonempty s then
                    (let (s, output) = (if \<not> ca_overflow s
                        then (let (s, out) = capacity_finish parse show_json s in (s, output @ out)) else (s, output))
                     in (s\<lparr>ca_overflow := False\<rparr>, output))
                  else (s, output))
               in (s\<lparr>ca_nonempty := False\<rparr>, output))
            else if b \<noteq> CHR 0x0D then (s\<lparr>ca_nonempty := True\<rparr>, output)
            else (s, output))
     in if length (ca_buffer s) \<ge> LIMIT
        then (s\<lparr>ca_buffer := [], ca_overflow := True\<rparr>, output @ ca_buffer s)
        else (s, output))"

definition capacity_feed ::
    "json_parser \<Rightarrow> (json \<Rightarrow> string) \<Rightarrow> string \<Rightarrow> capacity_sse \<Rightarrow> capacity_sse \<times> string" where
  "capacity_feed parse show_json bytes s = fold (capacity_byte parse show_json) bytes (s, [])"

text \<open>A whole stream: its chunks one after the other, then the end.\<close>

fun capacity_stream :: "json_parser \<Rightarrow> (json \<Rightarrow> string) \<Rightarrow> string list \<Rightarrow> capacity_sse \<Rightarrow> string" where
  "capacity_stream parse show_json [] s = snd (capacity_finish parse show_json s)"
| "capacity_stream parse show_json (c # cs) s =
     (let (s, out) = capacity_feed parse show_json c s in out @ capacity_stream parse show_json cs s)"

section \<open>A translation is final\<close>

lemma rewrite_error_final: "rewrite_error err = Some err' \<Longrightarrow> rewrite_error err' = None"
proof -
  assume r: "rewrite_error err = Some err'"
  have obj: "is_object err" using r by (simp add: rewrite_error_def split: if_splits)
  from r obtain e m where e: "err' = json_put (json_put (json_put e ''code'' (JString ''server_error'')) ''type''
      (JString ''server_error'')) ''message'' (JString (TRANSLATED @ m))" "is_object e"
    using obj by (auto simp: rewrite_error_def Let_def split: if_splits option.splits)
  then have "json_index err' ''code'' = JString ''server_error''"
    "json_index err' ''message'' = JString (TRANSLATED @ m)"
    by (simp_all add: json_index_def json_get_put)
  then have "\<not> is_capacity err'"
    by (simp add: is_capacity_def text_of_def begins_with_def)
  then show ?thesis by (simp add: rewrite_error_def)
qed

lemma json_get_put_other: "k' \<noteq> k \<Longrightarrow> json_get (json_put v k x) k' = json_get v k'"
  by (simp add: json_get_put)

lemma failed_status_get:
  assumes "k \<noteq> ''status''" and "k \<noteq> ''status_code''"
  shows "json_get (failed_status v) k = json_get v k"
  using assms by (simp add: failed_status_def json_get_put_other Let_def)

lemma set_pointer_other: "k \<noteq> k' \<Longrightarrow> json_get (json_set_pointer v (k # ks) x) k' = json_get v k'"
  by (auto simp: json_get_put split: option.splits)

section \<open>A stream without capacity failures\<close>

definition no_failure :: "json_parser \<Rightarrow> (json \<Rightarrow> string) \<Rightarrow> string \<Rightarrow> bool" where
  "no_failure parse show_json bytes \<longleftrightarrow>
     (\<forall>p b q. bytes = p @ b @ q \<longrightarrow> capacity_event parse show_json (block_data b) = None)"

definition passed :: "string \<Rightarrow> capacity_sse \<times> string \<Rightarrow> bool" where
  "passed input = (\<lambda>(s, output). input = output @ ca_buffer s)"

lemma no_failureD: "no_failure parse show_json (p @ b @ q) \<Longrightarrow> capacity_event parse show_json (block_data b) = None"
  by (auto simp: no_failure_def)

lemma byte_passes:
  assumes "passed input (s, out)" and "no_failure parse show_json (input @ b # rest)"
    and "ca_overflow s \<Longrightarrow> ca_buffer s = []"
  shows "passed (input @ [b]) (capacity_byte parse show_json b (s, out)) \<and>
    (ca_overflow (fst (capacity_byte parse show_json b (s, out))) \<longrightarrow>
      ca_buffer (fst (capacity_byte parse show_json b (s, out))) = [])"
proof -
  have in1: "input = out @ ca_buffer s" using assms(1) by (simp add: passed_def)
  have none: "capacity_event parse show_json (block_data (ca_buffer s @ [b])) = None"
    using no_failureD [of parse show_json out "ca_buffer s @ [b]" rest] assms(2) in1 by simp
  show ?thesis
  proof (cases "ca_overflow s")
    case True
    with in1 assms(3) show ?thesis
      by (auto simp: capacity_byte_def passed_def Let_def LIMIT_def)
  next
    case False
    with in1 none show ?thesis
      by (auto simp: capacity_byte_def passed_def capacity_finish_def Let_def LIMIT_def)
  qed
qed

lemma feed_passes:
  "passed input (s, out) \<Longrightarrow> no_failure parse show_json (input @ bytes @ rest) \<Longrightarrow>
   (ca_overflow s \<Longrightarrow> ca_buffer s = []) \<Longrightarrow>
   passed (input @ bytes) (fold (capacity_byte parse show_json) bytes (s, out)) \<and>
   (ca_overflow (fst (fold (capacity_byte parse show_json) bytes (s, out))) \<longrightarrow>
     ca_buffer (fst (fold (capacity_byte parse show_json) bytes (s, out))) = [])"
proof (induction bytes arbitrary: input s out)
  case (Cons b bytes)
  obtain t o1 where t: "capacity_byte parse show_json b (s, out) = (t, o1)" by fastforce
  from byte_passes [OF Cons.prems(1), of parse show_json b "bytes @ rest"] Cons.prems(2,3) t
  have "passed (input @ [b]) (t, o1)" "ca_overflow t \<Longrightarrow> ca_buffer t = []" by simp_all
  from Cons.IH [OF this(1) _ this(2)] Cons.prems(2) t show ?case by simp
qed simp

lemma stream_passes:
  "no_failure parse show_json (ca_buffer s @ concat cs) \<Longrightarrow> (ca_overflow s \<Longrightarrow> ca_buffer s = []) \<Longrightarrow>
   capacity_stream parse show_json cs s = ca_buffer s @ concat cs"
proof (induction cs arbitrary: s)
  case Nil
  then have "capacity_event parse show_json (block_data (ca_buffer s)) = None"
    using no_failureD [of parse show_json "[]" "ca_buffer s" "[]"] by simp
  then show ?case by (simp add: capacity_finish_def Let_def)
next
  case (Cons c cs)
  obtain t out where t: "fold (capacity_byte parse show_json) c (s, []) = (t, out)" by fastforce
  have "passed (ca_buffer s) (s, [])" by (simp add: passed_def)
  from feed_passes [OF this, of parse show_json c "concat cs"] Cons.prems t
  have t': "ca_buffer s @ c = out @ ca_buffer t" "ca_overflow t \<Longrightarrow> ca_buffer t = []"
    by (auto simp: passed_def)
  have "no_failure parse show_json (ca_buffer t @ concat cs)"
    unfolding no_failure_def
  proof (intro allI impI)
    fix p b q assume "ca_buffer t @ concat cs = p @ b @ q"
    then have "ca_buffer s @ concat (c # cs) = (out @ p) @ b @ q"
      by (metis append_assoc concat.simps(2) t'(1))
    then show "capacity_event parse show_json (block_data b) = None"
      using Cons.prems(1) no_failureD by metis
  qed
  from Cons.IH [OF this t'(2)] t t'(1) show ?case
    by (simp add: capacity_feed_def)
qed

section \<open>Preludes that grow\<close>

lemma split_inclusive_plain: "CHR 0x0A \<notin> set l \<Longrightarrow> l \<noteq> [] \<Longrightarrow> split_inclusive l = [l]"
proof (induction l)
  case (Cons a l)
  then show ?case by (cases "l = []") auto
qed simp

lemma split_inclusive_line: "CHR 0x0A \<notin> set l \<Longrightarrow> split_inclusive (l @ CHR 0x0A # s) = (l @ [CHR 0x0A]) # split_inclusive s"
  by (induction l) auto

lemma ends_newline: "ends_with [CHR 0x0A] (l @ [CHR 0x0A])"
  by (simp add: ends_with_def strip_suffix_def strip_prefix_def)

lemma plain_no_newline: "CHR 0x0A \<notin> set l \<Longrightarrow> \<not> ends_with [CHR 0x0A] l"
  by (cases "rev l") (auto simp: ends_with_def strip_suffix_def strip_prefix_def)

lemma prelude_grows:
  "prelude_lines f False (split_inclusive s) data \<noteq> CWaiting \<Longrightarrow>
   prelude_lines f complete (split_inclusive (s @ later)) data = prelude_lines f False (split_inclusive s) data"
proof (induction "length s" arbitrary: s data rule: less_induct)
  case less
  show ?case
  proof (cases "CHR 0x0A \<in> set s")
    case False
    with less.prems have False
      using split_inclusive_plain [of s] plain_no_newline [of s] by (cases "s = []") auto
    then show ?thesis ..
  next
    case True
    then obtain l t where s: "s = l @ CHR 0x0A # t" "CHR 0x0A \<notin> set l" using split_list_first by fastforce
    have ih: "prelude_lines f False (split_inclusive t) d \<noteq> CWaiting \<Longrightarrow>
        prelude_lines f complete (split_inclusive (t @ later)) d = prelude_lines f False (split_inclusive t) d" for d
      using less.hyps [of t d] s(1) by simp
    have 1: "split_inclusive s = (l @ [CHR 0x0A]) # split_inclusive t"
      and 2: "split_inclusive (s @ later) = (l @ [CHR 0x0A]) # split_inclusive (t @ later)"
      using split_inclusive_line [OF s(2)] s(1) by simp_all
    show ?thesis
      using less.prems ih unfolding 1 2 by (auto simp: ends_newline Let_def split: if_splits)
  qed
qed

section \<open>Properties\<close>

text \<open>
  A translated failure is not translated again: the event that replaces a capacity
  failure is itself no capacity failure, so a chain of proxies translates once and keeps
  the original message.
\<close>

theorem capacity_translation_is_final:
  assumes "\<And>v. show_json v = out \<Longrightarrow> parse out = Some v" and "capacity_event parse show_json bytes = Some out"
  shows "capacity_event parse show_json out = None"
proof -
  from assms(2) obtain v p err where v: "parse bytes = Some v" and p: "error_pointer (text_of (json_index v ''type'')) = Some p"
    and err: "Option.bind (json_pointer v p) rewrite_error = Some err"
    and out: "out = show_json (if text_of (json_index v ''type'') = ''error''
        then failed_status (json_set_pointer v p err) else json_set_pointer v p err)"
    by (auto simp: capacity_event_def Let_def split: option.splits)
  let ?kind = "text_of (json_index v ''type'')"
  define u where "u = json_set_pointer v p err"
  define w where "w = (if ?kind = ''error'' then failed_status u else u)"
  from err obtain old where old: "json_pointer v p = Some old" "rewrite_error old = Some err"
    by (auto simp: bind_eq_Some_conv)
  have u: "json_pointer u p = Some err" unfolding u_def by (rule pointer_set [OF old(1)])
  have head: "p = [''response'', ''error''] \<and> w = u \<or> p = [''error''] \<and> w = failed_status u"
    using p by (auto simp: error_pointer_def w_def split: if_splits)
  then obtain k ks where k: "p = k # ks" "k \<noteq> ''type''" "k \<noteq> ''status''" "k \<noteq> ''status_code''" by auto
  have keep: "json_get w j = json_get u j" if "j \<noteq> ''status''" "j \<noteq> ''status_code''" for j
    using head failed_status_get [OF that] by auto
  have type: "json_get w ''type'' = json_get v ''type''"
    using keep [of "''type''"] set_pointer_other [OF k(2), of v ks err] by (simp add: u_def k(1) del: json_set_pointer.simps)
  have "json_pointer w p = Some err"
    using u pointer_cong [OF keep [OF k(3,4)], of ks] by (simp add: k(1) del: json_pointer.simps)
  moreover have "parse out = Some w" using assms(1) out by (simp add: w_def u_def)
  ultimately show ?thesis
    using p rewrite_error_final [OF old(2)] by (simp add: capacity_event_def Let_def json_index_get [OF type])
qed

text \<open>
  Streams are otherwise untouched: where no part of a stream is a capacity failure,
  the client receives exactly the bytes the upstream sent, in any cut, with any line
  ends, and through events larger than the buffer.
\<close>

theorem streams_without_failures_pass:
  assumes "no_failure parse show_json (concat cs)"
  shows "capacity_stream parse show_json cs capacity_sse_new = concat cs"
  using stream_passes [of parse show_json capacity_sse_new cs] assms by (simp add: capacity_sse_new_def)

text \<open>
  A decision about a prelude is never revised: once the bytes read so far decide,
  any more bytes, and the end of the stream, give the same decision, so a replay that
  was refused on partial data would also be refused on all of it.
\<close>

theorem prelude_decisions_are_stable:
  assumes "prelude_sse parse show_json bytes False = d" and "d \<noteq> CWaiting" and "length (bytes @ later) < LIMIT"
  shows "prelude_sse parse show_json (bytes @ later) complete = d"
  using assms prelude_grows [of "capacity_prelude_event parse show_json" bytes "[]" complete later]
  by (auto simp: prelude_sse_def split: if_splits)

definition busy_event :: json where
  "busy_event = JObject [(''error'', JObject [(''code'', JString ''server_is_overloaded'')]), (''type'', JString ''error'')]"

definition translated :: json where
  "translated = JObject [(''error'', JObject [(''code'', JString ''server_error''),
       (''message'', JString (TRANSLATED @
         '' this capacity failure to a retryable server error. Original upstream message: (none provided)'')),
       (''type'', JString ''server_error''), (''upstream_code'', JString ''server_is_overloaded'')]),
     (''status'', JInt 500), (''type'', JString ''error'')]"

definition example_show :: "json \<Rightarrow> string" where
  "example_show v = (if v = translated then ''t'' else ''o'')"

definition example_parse :: json_parser where
  "example_parse s = (if s = ''t'' then Some translated else Some busy_event)"

lemma example_event: "capacity_event example_parse example_show ''o'' = Some ''t''"
proof -
  let ?e = "JObject [(''code'', JString ''server_is_overloaded'')]"
  have "capacity_permanent ?e = False"
    by (simp add: capacity_permanent_def is_security_block_def capacity_codes_def json_index_def)
  then have "is_capacity ?e" by (simp add: is_capacity_def text_of_def json_index_def)
  then have "rewrite_error ?e = json_get translated ''error''"
    by (simp add: rewrite_error_def is_object_def as_object_def text_of_def json_index_def json_put_def translated_def
        TRANSLATED_def)
  then show ?thesis
    by (simp add: capacity_event_def example_parse_def busy_event_def error_pointer_def text_of_def json_index_def
        example_show_def failed_status_def json_put_def translated_def)
qed

theorem capacity_translation_is_final_witness:
  "capacity_event example_parse example_show ''t'' = None"
proof (rule capacity_translation_is_final [OF _ example_event])
  show "example_parse ''t'' = Some v" if "example_show v = ''t''" for v
    using that by (simp add: example_parse_def example_show_def split: if_splits)
qed

theorem streams_without_failures_pass_witness:
  "capacity_stream (\<lambda>_. None) example_show [''data: {'', ''}'' @ [CHR 0x0D, CHR 0x0A], [CHR 0x0D, CHR 0x0A]] capacity_sse_new =
   concat [''data: {'', ''}'' @ [CHR 0x0D, CHR 0x0A], [CHR 0x0D, CHR 0x0A]]"
  by (rule streams_without_failures_pass) (simp add: no_failure_def capacity_event_def)

theorem prelude_decisions_are_stable_witness:
  "prelude_sse (\<lambda>_. None) example_show ((''data:r'' @ [CHR 0x0A, CHR 0x0A]) @ ''data'') True = Started"
proof (rule prelude_decisions_are_stable)
  show "prelude_sse (\<lambda>_. None) example_show (''data:r'' @ [CHR 0x0A, CHR 0x0A]) False = Started"
    by (simp add: prelude_sse_def LIMIT_def ends_with_def strip_suffix_def strip_prefix_def trim_newline_def trim_cr_def
        or_self_def data_line_def Let_def capacity_prelude_event_def)
  show "length ((''data:r'' @ [CHR 0x0A, CHR 0x0A]) @ ''data'') < LIMIT" by (simp add: LIMIT_def)
qed simp

end
