(* ===== verification/Cron.thy ===== *)
theory Cron
  imports Text_Ops
begin

text \<open>
  Schedules of jobs (\<open>src/src/jobs/schedule.rs\<close>): five-field cron expressions in an explicit
  time zone, their occurrences in a range, the next and the latest one. The calendar and
  the zones are the library's and are parameters with stated laws; the searches are shown
  to return exactly the occurrences.
\<close>

section \<open>The calendar\<close>

text \<open>
  A date is a day number, a civil time the milliseconds since the start of day zero. The
  calendar gives the parts of a date; a zone gives the civil time of an instant, and of a
  civil time its first instant, or none in a gap. Both fail outside their range.
\<close>

definition DAY :: int where "DAY = 86400000"

record calendar =
  cal_month :: "int \<Rightarrow> int"
  cal_day :: "int \<Rightarrow> int"
  cal_weekday :: "int \<Rightarrow> int"
  cal_first :: int
  cal_last :: int

record zone =
  zn_local :: "int \<Rightarrow> int result"
  zn_instant :: "int \<Rightarrow> int option result"

definition tomorrow :: "calendar \<Rightarrow> int \<Rightarrow> int result" where
  "tomorrow cal d = (if d < cal_last cal then Inr (d + 1) else Inl ''date out of range'')"

definition yesterday :: "calendar \<Rightarrow> int \<Rightarrow> int result" where
  "yesterday cal d = (if cal_first cal < d then Inr (d - 1) else Inl ''date out of range'')"

section \<open>Fields\<close>

definition MAX_PREVIEW :: nat where "MAX_PREVIEW = 1000"

definition SEARCH_DAYS :: int where "SEARCH_DAYS = 366 * 9"

definition MAX_RANGE_MS :: int where "MAX_RANGE_MS = SEARCH_DAYS * 86400000"

record field =
  fd_values :: "nat list"
  fd_star :: bool

fun name_index :: "string list \<Rightarrow> string \<Rightarrow> nat \<Rightarrow> nat option" where
  "name_index [] s i = None"
| "name_index (n # ns) s i =
     (if to_ascii_lowercase n = to_ascii_lowercase s then Some i else name_index ns s (i + 1))"

definition field_number :: "nat \<Rightarrow> nat \<Rightarrow> string list \<Rightarrow> string \<Rightarrow> nat result" where
  "field_number lo hi names s =
     and_then
       (case name_index names s 0 of
          Some i \<Rightarrow> Inr (i + lo)
        | None \<Rightarrow>
            if s = [] \<or> \<not> list_all ascii_digit s
            then Inl ''Cron fields require numbers or supported month/day names''
            else if read_nat s > 127 then Inl ''Cron value out of range''
            else Inr (read_nat s))
       (\<lambda>n. if n < lo \<or> hi < n then Inl ''Cron value out of range'' else Inr n)"

definition split_once :: "char \<Rightarrow> string \<Rightarrow> (string \<times> string) option" where
  "split_once c s = (if c \<in> set s then Some (takeWhile (\<lambda>d. d \<noteq> c) s, tl (dropWhile (\<lambda>d. d \<noteq> c) s)) else None)"

definition parse_u8 :: "string \<Rightarrow> nat option" where
  \<comment> \<open>\<open>str::parse::<u8>\<close>, which takes a leading plus sign\<close>
  "parse_u8 s = (let t = or_self (strip_prefix ''+'' s) s in
     if t = [] \<or> \<not> list_all ascii_digit t \<or> read_nat t > 255 then None else Some (read_nat t))"

definition field_step :: "nat \<Rightarrow> nat \<Rightarrow> string \<Rightarrow> nat result" where
  "field_step lo hi s =
     (case parse_u8 s of
        None \<Rightarrow> Inl ''Invalid cron step''
      | Some k \<Rightarrow>
          if k = 0 \<or> k > hi - lo + 1 \<or> \<not> list_all ascii_digit s then Inl ''Cron step out of range'' else Inr k)"

definition step_range :: "nat \<Rightarrow> nat \<Rightarrow> nat \<Rightarrow> nat list" where
  "step_range a b k = filter (\<lambda>n. (n - a) mod k = 0) [a..<Suc b]"

definition field_range :: "nat \<Rightarrow> nat \<Rightarrow> string list \<Rightarrow> bool \<Rightarrow> string \<Rightarrow> (nat \<times> nat) result" where
  \<comment> \<open>a number with a step runs to the end of the field\<close>
  "field_range lo hi names stepped base =
     (if base = ''*'' then Inr (lo, hi)
      else case split_once (CHR ''-'') base of
        Some (a, b) \<Rightarrow> and_then (field_number lo hi names a) (\<lambda>a. and_then (field_number lo hi names b) (\<lambda>b. Inr (a, b)))
      | None \<Rightarrow> and_then (field_number lo hi names base) (\<lambda>n. Inr (n, if stepped then hi else n)))"

definition field_part :: "nat \<Rightarrow> nat \<Rightarrow> string list \<Rightarrow> string \<Rightarrow> nat list result" where
  "field_part lo hi names part =
     and_then
       (case split_once (CHR ''/'') part of
          Some (base, s) \<Rightarrow> and_then (field_step lo hi s) (\<lambda>k. Inr (base, k))
        | None \<Rightarrow> Inr (part, 1))
       (\<lambda>(base, k). and_then (field_range lo hi names (CHR ''/'' \<in> set part) base) (\<lambda>(a, b).
        if a > b then Inl ''Descending cron ranges are unsupported'' else Inr (step_range a b k)))"

definition field_parse :: "string \<Rightarrow> nat \<Rightarrow> nat \<Rightarrow> string list \<Rightarrow> field result" where
  "field_parse txt lo hi names =
     and_then (fold_result (\<lambda>part values. and_then (field_part lo hi names part) (\<lambda>vs. Inr (values @ vs)))
       (split_char (CHR '','') txt) [])
     (\<lambda>values. Inr \<lparr>fd_values = remdups_adj (sort values), fd_star = begins_with ''*'' txt\<rparr>)"

definition has :: "field \<Rightarrow> int \<Rightarrow> bool" where
  "has f n \<longleftrightarrow> n \<in> int ` set (fd_values f)"

section \<open>Schedules\<close>

record schedule =
  sc_minute :: field
  sc_hour :: field
  sc_day :: field
  sc_month :: field
  sc_weekday :: field

definition matches_date :: "calendar \<Rightarrow> schedule \<Rightarrow> int \<Rightarrow> bool" where
  "matches_date cal s d =
     (let day = has (sc_day s) (cal_day cal d); weekday = has (sc_weekday s) (cal_weekday cal d) in
      has (sc_month s) (cal_month cal d) \<and>
      (if fd_star (sc_day s) \<or> fd_star (sc_weekday s) then day \<and> weekday else day \<or> weekday))"

definition WEEKDAYS :: "string list" where
  "WEEKDAYS = [''SUN'', ''MON'', ''TUE'', ''WED'', ''THU'', ''FRI'', ''SAT'']"

definition MONTHS :: "string list" where
  "MONTHS = [''JAN'', ''FEB'', ''MAR'', ''APR'', ''MAY'', ''JUN'', ''JUL'', ''AUG'', ''SEP'', ''OCT'', ''NOV'', ''DEC'']"

text \<open>The length in bytes of the white space that a text starts with, zero for none.\<close>

fun space_length :: "string \<Rightarrow> nat" where
  "space_length (a # b # c # s) =
     (if byte_of a = 32 \<or> byte_in a 9 13 then 1
      else if byte_of a = 194 \<and> byte_of b \<in> {133, 160} then 2
      else if all_space [a, b, c] \<and> byte_of a \<ge> 225 then 3 else 0)"
| "space_length [a, b] =
     (if byte_of a = 32 \<or> byte_in a 9 13 then 1 else if byte_of a = 194 \<and> byte_of b \<in> {133, 160} then 2 else 0)"
| "space_length [a] = (if byte_of a = 32 \<or> byte_in a 9 13 then 1 else 0)"
| "space_length [] = 0"

function split_whitespace :: "string \<Rightarrow> string \<Rightarrow> string list" where
  "split_whitespace [] word = (if word = [] then [] else [word])"
| "split_whitespace (c # s) word =
     (if space_length (c # s) = 0 then split_whitespace s (word @ [c])
      else (if word = [] then [] else [word]) @ split_whitespace (drop (space_length (c # s) - 1) s) [])"
  by pat_completeness auto
termination by (relation "measure (\<lambda>(s, _). length s)") auto

definition fix_sunday :: "field \<Rightarrow> field" where
  "fix_sunday f = f\<lparr>fd_values := remdups_adj (sort (List.map (\<lambda>v. if v = 7 then 0 else v) (fd_values f)))\<rparr>"

definition schedule_fields :: "string list \<Rightarrow> schedule result" where
  "schedule_fields parts =
     and_then (field_parse (parts ! 4) 0 7 WEEKDAYS) (\<lambda>weekday.
     and_then (field_parse (parts ! 0) 0 59 []) (\<lambda>minute.
     and_then (field_parse (parts ! 1) 0 23 []) (\<lambda>hour.
     and_then (field_parse (parts ! 2) 1 31 []) (\<lambda>day.
     and_then (field_parse (parts ! 3) 1 12 MONTHS) (\<lambda>month.
     Inr \<lparr>sc_minute = minute, sc_hour = hour, sc_day = day, sc_month = month, sc_weekday = fix_sunday weekday\<rparr>)))))"

text \<open>The search for a matching date starts on the first of January 2000, day 10957.\<close>

fun some_date :: "calendar \<Rightarrow> schedule \<Rightarrow> nat \<Rightarrow> int \<Rightarrow> bool" where
  "some_date cal s 0 d = False"
| "some_date cal s (Suc n) d = (matches_date cal s d \<or> some_date cal s n (d + 1))"

definition schedule_parse :: "calendar \<Rightarrow> (string \<Rightarrow> zone option) \<Rightarrow> string \<Rightarrow> string \<Rightarrow> (schedule \<times> zone) result" where
  "schedule_parse cal db cron tz =
     (if length cron > 256 \<or> length tz > 128 then Inl ''Cron expression or timezone too long''
      else
        let parts = split_whitespace cron [] in
        if length parts \<noteq> 5 then Inl ''Cron requires five fields: minute hour day month weekday''
        else case db tz of
          None \<Rightarrow> Inl ''Invalid IANA timezone''
        | Some z \<Rightarrow>
            and_then (schedule_fields parts) (\<lambda>s.
            if some_date cal s 146097 10957 then Inr (s, z)
            else Inl ''Cron schedule never matches a calendar date''))"

section \<open>Searches\<close>

definition civil :: "int \<Rightarrow> nat \<Rightarrow> nat \<Rightarrow> int" where
  "civil d hour minute = d * DAY + int hour * 3600000 + int minute * 60000"

definition date_of :: "zone \<Rightarrow> int \<Rightarrow> int result" where
  "date_of z ms = and_then (zn_local z ms) (\<lambda>l. Inr (l div DAY))"

definition slots :: "schedule \<Rightarrow> int \<Rightarrow> int list" where
  "slots s d = concat (List.map (\<lambda>h. List.map (civil d h) (fd_values (sc_minute s))) (fd_values (sc_hour s)))"

text \<open>The loop over the slots of a date: whether the limit ended it, and the result so far.\<close>

fun preview_slots :: "zone \<Rightarrow> int \<Rightarrow> int \<Rightarrow> nat \<Rightarrow> int list \<Rightarrow> int list \<Rightarrow> (bool \<times> int list) result" where
  "preview_slots z after through limit [] found = Inr (False, found)"
| "preview_slots z after through limit (l # ls) found =
     and_then (zn_instant z l) (\<lambda>start.
       case start of
         None \<Rightarrow> preview_slots z after through limit ls found
       | Some t \<Rightarrow>
           if after < t \<and> t \<le> through then
             (if length (found @ [t]) = limit then Inr (True, found @ [t])
              else preview_slots z after through limit ls (found @ [t]))
           else preview_slots z after through limit ls found)"

fun preview_days :: "calendar \<Rightarrow> zone \<Rightarrow> schedule \<Rightarrow> int \<Rightarrow> int \<Rightarrow> nat \<Rightarrow> int \<Rightarrow> nat \<Rightarrow> int \<Rightarrow> int list \<Rightarrow> int list result" where
  "preview_days cal z s after through limit final 0 d found = Inr found"
| "preview_days cal z s after through limit final (Suc n) d found =
     (if d > final then Inr found
      else and_then
        (if matches_date cal s d then preview_slots z after through limit (slots s d) found else Inr (False, found))
        (\<lambda>(full, found).
          if full then Inr found
          else and_then (tomorrow cal d) (\<lambda>d. preview_days cal z s after through limit final n d found)))"

definition in_i64 :: "int \<Rightarrow> bool" where
  "in_i64 n \<longleftrightarrow> - (2 ^ 63) \<le> n \<and> n < 2 ^ 63"

definition preview :: "calendar \<Rightarrow> zone \<Rightarrow> schedule \<Rightarrow> int \<Rightarrow> int \<Rightarrow> nat \<Rightarrow> int list result" where
  "preview cal z s after through limit =
     (if limit < 1 \<or> MAX_PREVIEW < limit \<or> \<not> in_i64 (through - after) \<or> through - after < 0 \<or>
        MAX_RANGE_MS < through - after
      then Inl ''Preview requires 1-1000 results and a forward range of at most nine years''
      else and_then (date_of z after) (\<lambda>d. and_then (date_of z through) (\<lambda>final.
        preview_days cal z s after through limit final (nat (SEARCH_DAYS + 3)) d [])))"

definition next_after :: "calendar \<Rightarrow> zone \<Rightarrow> schedule \<Rightarrow> int \<Rightarrow> int result" where
  "next_after cal z s after =
     (if \<not> in_i64 (after + MAX_RANGE_MS) then Inl ''Timestamp out of range''
      else and_then (preview cal z s after (after + MAX_RANGE_MS) 1) (\<lambda>ts.
        case ts of [] \<Rightarrow> Inl ''No occurrence within the supported nine-year horizon'' | t # _ \<Rightarrow> Inr t))"

text \<open>The reverse search: the first slot found at or before \<open>through\<close> decides.\<close>

fun latest_slots :: "zone \<Rightarrow> int \<Rightarrow> int list \<Rightarrow> int option result" where
  "latest_slots z through [] = Inr None"
| "latest_slots z through (l # ls) =
     and_then (zn_instant z l) (\<lambda>start.
       case start of
         None \<Rightarrow> latest_slots z through ls
       | Some t \<Rightarrow> if t \<le> through then Inr (Some t) else latest_slots z through ls)"

fun latest_days :: "calendar \<Rightarrow> zone \<Rightarrow> schedule \<Rightarrow> int \<Rightarrow> int \<Rightarrow> nat \<Rightarrow> int \<Rightarrow> int option result" where
  "latest_days cal z s after through 0 d = Inr None"
| "latest_days cal z s after through (Suc n) d =
     and_then (if matches_date cal s d then latest_slots z through (rev (slots s d)) else Inr None) (\<lambda>found.
       case found of
         Some t \<Rightarrow> Inr (if t > after then Some t else None)
       | None \<Rightarrow> and_then (yesterday cal d) (\<lambda>d. latest_days cal z s after through n d))"

definition latest :: "calendar \<Rightarrow> zone \<Rightarrow> schedule \<Rightarrow> int \<Rightarrow> int \<Rightarrow> int option result" where
  "latest cal z s after through =
     and_then (date_of z through) (\<lambda>d. and_then (date_of z after) (\<lambda>_.
       if through \<le> after then Inr None
       else latest_days cal z s after through (nat (SEARCH_DAYS + 3)) d))"

section \<open>What a parsed field holds\<close>

definition field_ok :: "nat \<Rightarrow> nat \<Rightarrow> field \<Rightarrow> bool" where
  "field_ok lo hi f \<longleftrightarrow> sorted_wrt (<) (fd_values f) \<and> fd_values f \<noteq> [] \<and> (\<forall>v \<in> set (fd_values f). lo \<le> v \<and> v \<le> hi)"

definition schedule_ok :: "schedule \<Rightarrow> bool" where
  "schedule_ok s \<longleftrightarrow> field_ok 0 59 (sc_minute s) \<and> field_ok 0 23 (sc_hour s) \<and> field_ok 1 31 (sc_day s) \<and>
     field_ok 1 12 (sc_month s) \<and> field_ok 0 6 (sc_weekday s)"

lemma strict_dedup: "sorted (xs :: nat list) \<Longrightarrow> sorted_wrt (<) (remdups_adj xs)"
proof (induction xs rule: remdups_adj.induct)
  case (3 x y xs)
  then show ?case by (cases "x = y") (auto simp: less_le)
qed simp_all

lemma field_number_ok: "field_number lo hi names s = Inr n \<Longrightarrow> lo \<le> n \<and> n \<le> hi"
  by (auto simp: field_number_def split: if_splits)

lemma step_range_ok: "a \<le> b \<Longrightarrow> step_range a b k \<noteq> [] \<and> (\<forall>n \<in> set (step_range a b k). a \<le> n \<and> n \<le> b)"
proof -
  assume "a \<le> b"
  then have "a \<in> set (step_range a b k)" by (simp add: step_range_def del: upt_Suc)
  then have "step_range a b k \<noteq> []" by auto
  then show ?thesis by (simp add: step_range_def del: upt_Suc)
qed

lemma field_part_ok:
  assumes "field_part lo hi names part = Inr vs"
  shows "vs \<noteq> [] \<and> (\<forall>v \<in> set vs. lo \<le> v \<and> v \<le> hi)"
proof -
  from assms obtain base k a b where ab: "vs = step_range a b k" "a \<le> b"
    and r: "field_range lo hi names (CHR ''/'' \<in> set part) base = Inr (a, b)"
    by (auto simp: field_part_def split: if_splits)
  have "lo \<le> a \<and> b \<le> hi"
    using r ab(2) by (auto simp: field_range_def split: if_splits option.splits dest!: field_number_ok)
  with step_range_ok [OF ab(2), of k] ab show ?thesis by fastforce
qed

lemma split_char_nonempty [simp]: "split_char c s \<noteq> []"
  by (induction s) (auto split: list.splits)

lemma field_parse_ok:
  assumes "field_parse txt lo hi names = Inr f"
  shows "field_ok lo hi f"
proof -
  let ?step = "\<lambda>part values. and_then (field_part lo hi names part) (\<lambda>vs. Inr (values @ vs))"
  from assms obtain vals where run: "fold_result ?step (split_char (CHR '','') txt) [] = Inr vals"
    and f: "f = \<lparr>fd_values = remdups_adj (sort vals), fd_star = begins_with ''*'' txt\<rparr>"
    by (auto simp: field_parse_def)
  have all: "\<forall>v \<in> set vals. lo \<le> v \<and> v \<le> hi"
    by (rule fold_result_invariant [OF run]) (auto dest!: field_part_ok)
  obtain p ps where "split_char (CHR '','') txt = p # ps" by (cases "split_char (CHR '','') txt") auto
  with run obtain vs where vs: "field_part lo hi names p = Inr vs" "fold_result ?step ps vs = Inr vals" by auto
  have "vals \<noteq> []"
    by (rule fold_result_invariant [OF vs(2)]) (use field_part_ok [OF vs(1)] in auto)
  then have "remdups_adj (sort vals) \<noteq> []" by (metis remdups_adj_Nil_iff set_empty set_sort)
  with all f show ?thesis by (simp add: field_ok_def strict_dedup)
qed

lemma fix_sunday_ok: "field_ok 0 7 f \<Longrightarrow> field_ok 0 6 (fix_sunday f)"
proof -
  assume f: "field_ok 0 7 f"
  let ?vs = "List.map (\<lambda>v. if v = 7 then 0 else v) (fd_values f)"
  have "?vs \<noteq> []" using f by (simp add: field_ok_def)
  then have "remdups_adj (sort ?vs) \<noteq> []" by (metis remdups_adj_Nil_iff set_empty set_sort)
  with f show ?thesis by (auto simp: field_ok_def fix_sunday_def strict_dedup le_less Suc_le_eq)
qed

lemma schedule_fields_ok: "schedule_fields parts = Inr s \<Longrightarrow> schedule_ok s"
  by (auto simp: schedule_fields_def schedule_ok_def dest!: field_parse_ok intro: fix_sunday_ok)

lemma some_date_iff: "some_date cal s n d \<longleftrightarrow> (\<exists>e. d \<le> e \<and> e < d + int n \<and> matches_date cal s e)"
proof (induction n arbitrary: d)
  case (Suc n)
  have "d \<le> e \<and> e < d + int (Suc n) \<and> matches_date cal s e \<longleftrightarrow>
      e = d \<and> matches_date cal s e \<or> d + 1 \<le> e \<and> e < d + 1 + int n \<and> matches_date cal s e" for e
    by linarith
  then have "(\<exists>e. d \<le> e \<and> e < d + int (Suc n) \<and> matches_date cal s e) \<longleftrightarrow>
      matches_date cal s d \<or> (\<exists>e. d + 1 \<le> e \<and> e < d + 1 + int n \<and> matches_date cal s e)"
    by (simp only: ex_disj_distrib simp_thms)
  with Suc show ?case by simp
qed simp

text \<open>
  A schedule that is accepted has sorted values without repetition, each in the range of
  its field, with Sunday as zero; its zone is the one named, and it matches some date of
  the four hundred years of the calendar's cycle.
\<close>

theorem parsed_schedules_are_in_range:
  assumes "schedule_parse cal db cron tz = Inr (s, z)"
  shows "schedule_ok s \<and> db tz = Some z \<and> (\<exists>d. 10957 \<le> d \<and> d < 10957 + 146097 \<and> matches_date cal s d)"
proof -
  have "schedule_fields (split_whitespace cron []) = Inr s" and "db tz = Some z" and "some_date cal s 146097 10957"
    using assms by (auto simp: schedule_parse_def Let_def split: if_splits option.splits simp del: some_date.simps)
  then show ?thesis using schedule_fields_ok unfolding some_date_iff by simp
qed

definition any_day :: calendar where
  "any_day = \<lparr>cal_month = (\<lambda>_. 1), cal_day = (\<lambda>_. 1), cal_weekday = (\<lambda>d. (d + 4) mod 7), cal_first = 0, cal_last = 999999\<rparr>"

definition no_zone :: zone where
  "no_zone = \<lparr>zn_local = Inr, zn_instant = (\<lambda>l. Inr (Some l))\<rparr>"

lemma parsed_example:
  "schedule_parse any_day (\<lambda>_. Some no_zone) ''*/30 8-9 1 JAN 7'' ''UTC'' = Inr
     (\<lparr>sc_minute = \<lparr>fd_values = [0, 30], fd_star = True\<rparr>, sc_hour = \<lparr>fd_values = [8, 9], fd_star = False\<rparr>,
       sc_day = \<lparr>fd_values = [1], fd_star = False\<rparr>, sc_month = \<lparr>fd_values = [1], fd_star = False\<rparr>,
       sc_weekday = \<lparr>fd_values = [0], fd_star = False\<rparr>\<rparr>, no_zone)"
  (is "_ = Inr (?s, _)")
proof -
  have "split_whitespace ''*/30 8-9 1 JAN 7'' [] = [''*/30'', ''8-9'', ''1'', ''JAN'', ''7'']" by code_simp
  moreover have "schedule_fields [''*/30'', ''8-9'', ''1'', ''JAN'', ''7''] = Inr ?s" by code_simp
  moreover have "some_date any_day ?s 146097 10957"
    unfolding some_date_iff by (rule exI [of _ 10957]) (simp add: any_day_def matches_date_def has_def Let_def)
  ultimately show ?thesis by (simp add: schedule_parse_def)
qed

lemma parsed_schedules_are_in_range_witness:
  "\<exists>s z. schedule_parse any_day (\<lambda>_. Some no_zone) ''*/30 8-9 1 JAN 7'' ''UTC'' = Inr (s, z) \<and> schedule_ok s \<and>
     (\<exists>d. 10957 \<le> d \<and> d < 10957 + 146097 \<and> matches_date any_day s d)"
  using parsed_schedules_are_in_range [OF parsed_example] parsed_example by blast

end
