(* ===== verification/Occurrences.thy ===== *)
theory Occurrences
  imports Cron
begin

text \<open>
  What the searches of a schedule (\<open>Cron\<close>) return: the preview lists, in order, exactly the
  occurrences of a range whose date is not after that of its end, the next one is the least after an instant and the latest one the
  greatest up to an instant. The laws of the zone are stated first.
\<close>

section \<open>Zones\<close>

text \<open>
  What is relied on of a zone: the instant of a civil time is the first at which it is the
  civil time; civil times that exist come in order, at their first instants; and the civil
  time moves at most two days more than the time that passed. Clocks may go back, across
  midnight too.
\<close>

definition zone_ok :: "zone \<Rightarrow> bool" where
  "zone_ok z \<longleftrightarrow>
     (\<forall>l t. zn_instant z l = Inr (Some t) \<longrightarrow> zn_local z t = Inr l) \<and>
     (\<forall>l r t. zn_instant z l = Inr r \<longrightarrow> zn_local z t = Inr l \<longrightarrow> (\<exists>first. r = Some first \<and> first \<le> t)) \<and>
     (\<forall>l l' t t'. l < l' \<longrightarrow> zn_instant z l = Inr (Some t) \<longrightarrow> zn_instant z l' = Inr (Some t') \<longrightarrow> t < t') \<and>
     (\<forall>t t' l l'. t \<le> t' \<longrightarrow> zn_local z t = Inr l \<longrightarrow> zn_local z t' = Inr l' \<longrightarrow> l' - l \<le> t' - t + 2 * DAY)"

text \<open>The zone answers for every civil time of the dates from \<open>a\<close> to \<open>b\<close>.\<close>

definition answers :: "zone \<Rightarrow> int \<Rightarrow> int \<Rightarrow> bool" where
  "answers z a b \<longleftrightarrow> (\<forall>l. a * DAY \<le> l \<longrightarrow> l < (b + 1) * DAY \<longrightarrow> is_ok (zn_instant z l))"

text \<open>An occurrence is the first instant of a slot of a matching date.\<close>

definition occurs :: "calendar \<Rightarrow> zone \<Rightarrow> schedule \<Rightarrow> int \<Rightarrow> bool" where
  "occurs cal z s t \<longleftrightarrow>
     (\<exists>d. \<exists>h \<in> set (fd_values (sc_hour s)). \<exists>m \<in> set (fd_values (sc_minute s)).
        matches_date cal s d \<and> zn_instant z (civil d h m) = Inr (Some t))"

section \<open>Slots in order\<close>

lemma civil_bounds: "h \<le> 23 \<Longrightarrow> m \<le> 59 \<Longrightarrow> d * DAY \<le> civil d h m \<and> civil d h m < (d + 1) * DAY"
  by (simp add: civil_def DAY_def)

lemma civil_date: "h \<le> 23 \<Longrightarrow> m \<le> 59 \<Longrightarrow> civil d h m div DAY = d"
  using civil_bounds [of h m d] by (intro int_div_pos_eq [of _ _ _ "civil d h m - d * DAY"]) (simp_all add: DAY_def)

lemma slots_bounds:
  "schedule_ok s \<Longrightarrow> l \<in> set (slots s d) \<Longrightarrow> d * DAY \<le> l \<and> l < (d + 1) * DAY"
  by (auto simp: slots_def schedule_ok_def field_ok_def dest!: bspec intro!: civil_bounds)

lemma sorted_concat:
  "(\<And>x. x \<in> set xs \<Longrightarrow> sorted_wrt R (f x)) \<Longrightarrow>
   sorted_wrt (\<lambda>x y. \<forall>a \<in> set (f x). \<forall>b \<in> set (f y). R a b) xs \<Longrightarrow> sorted_wrt R (concat (List.map f xs))"
  by (induction xs) (auto simp: sorted_wrt_append)

lemma slots_sorted:
  assumes "schedule_ok s"
  shows "sorted_wrt (<) (slots s d)"
  unfolding slots_def
proof (rule sorted_concat)
  have m: "sorted_wrt (<) (fd_values (sc_minute s))" "\<forall>m \<in> set (fd_values (sc_minute s)). m \<le> 59"
    and h: "sorted_wrt (<) (fd_values (sc_hour s))"
    using assms by (auto simp: schedule_ok_def field_ok_def)
  show "sorted_wrt (<) (List.map (civil d x) (fd_values (sc_minute s)))" for x
    using m(1) by (simp add: sorted_wrt_map civil_def)
  show "sorted_wrt (\<lambda>x y. \<forall>a \<in> set (List.map (civil d x) (fd_values (sc_minute s))).
      \<forall>b \<in> set (List.map (civil d y) (fd_values (sc_minute s))). a < b) (fd_values (sc_hour s))"
    by (rule sorted_wrt_mono_rel [OF _ h]) (use m(2) in \<open>fastforce simp: civil_def\<close>)
qed

section \<open>Candidates\<close>

definition day_slots :: "calendar \<Rightarrow> schedule \<Rightarrow> int \<Rightarrow> int list" where
  "day_slots cal s d = (if matches_date cal s d then slots s d else [])"

definition candidates :: "calendar \<Rightarrow> schedule \<Rightarrow> int \<Rightarrow> int \<Rightarrow> int list" where
  "candidates cal s a b = concat (List.map (day_slots cal s) [a..b])"

definition hit :: "zone \<Rightarrow> (int \<Rightarrow> bool) \<Rightarrow> int \<Rightarrow> int list" where
  "hit z P l = (case zn_instant z l of Inr (Some t) \<Rightarrow> if P t then [t] else [] | _ \<Rightarrow> [])"

definition hits :: "zone \<Rightarrow> (int \<Rightarrow> bool) \<Rightarrow> int list \<Rightarrow> int list" where
  "hits z P ls = concat (List.map (hit z P) ls)"

lemma hits_simps [simp]:
  "hits z P [] = []" "hits z P (l # ls) = hit z P l @ hits z P ls" "hits z P (ks @ ls) = hits z P ks @ hits z P ls"
  by (simp_all add: hits_def)

lemma in_hit: "t \<in> set (hit z P l) \<longleftrightarrow> zn_instant z l = Inr (Some t) \<and> P t"
  by (auto simp: hit_def split: sum.splits option.splits if_splits)

lemma in_hits: "t \<in> set (hits z P ls) \<longleftrightarrow> (\<exists>l \<in> set ls. zn_instant z l = Inr (Some t) \<and> P t)"
  by (simp add: hits_def in_hit)

lemma rev_hits: "rev (hits z P ls) = hits z P (rev ls)"
proof (induction ls)
  case (Cons l ls)
  have "rev (hit z P l) = hit z P l" by (auto simp: hit_def split: sum.splits option.splits)
  with Cons show ?case by simp
qed simp

lemma hits_sorted:
  assumes "zone_ok z" and "sorted_wrt (<) ls"
  shows "sorted_wrt (<) (hits z P ls)"
  unfolding hits_def
proof (rule sorted_concat)
  show "sorted_wrt (<) (hit z P l)" for l by (auto simp: hit_def split: sum.splits option.splits)
  show "sorted_wrt (\<lambda>x y. \<forall>a \<in> set (hit z P x). \<forall>b \<in> set (hit z P y). a < b) ls"
    by (rule sorted_wrt_mono_rel [OF _ assms(2)]) (use assms(1) in \<open>auto simp: in_hit zone_ok_def\<close>)
qed

lemma candidates_first: "a \<le> b \<Longrightarrow> candidates cal s a b = day_slots cal s a @ candidates cal s (a + 1) b"
  by (simp add: candidates_def upto_rec1)

lemma candidates_last: "a \<le> b \<Longrightarrow> candidates cal s a b = candidates cal s a (b - 1) @ day_slots cal s b"
  by (simp add: candidates_def upto_rec2)

lemma candidates_none [simp]: "b < a \<Longrightarrow> candidates cal s a b = []"
  by (simp add: candidates_def)

lemma day_slots_bounds:
  "schedule_ok s \<Longrightarrow> l \<in> set (day_slots cal s d) \<Longrightarrow> d * DAY \<le> l \<and> l < (d + 1) * DAY"
  by (auto simp: day_slots_def slots_bounds split: if_splits)

lemma slot_date: "schedule_ok s \<Longrightarrow> l \<in> set (day_slots cal s d) \<Longrightarrow> l div DAY = d"
  using day_slots_bounds [of s l cal d] by (intro int_div_pos_eq [of _ _ _ "l - d * DAY"]) (simp_all add: DAY_def)

lemma candidates_sorted:
  assumes "schedule_ok s"
  shows "sorted_wrt (<) (candidates cal s a b)"
  unfolding candidates_def
proof (rule sorted_concat)
  show "sorted_wrt (<) (day_slots cal s d)" for d by (simp add: day_slots_def slots_sorted [OF assms])
  have "k < l" if "x < y" "k \<in> set (day_slots cal s x)" "l \<in> set (day_slots cal s y)" for x y k l
    using day_slots_bounds [OF assms that(2)] day_slots_bounds [OF assms that(3)] that(1) by (simp add: DAY_def)
  then show "sorted_wrt (\<lambda>x y. \<forall>k \<in> set (day_slots cal s x). \<forall>l \<in> set (day_slots cal s y). k < l) [a..b]"
    by (intro sorted_wrt_mono_rel [OF _ sorted_wrt_upto]) blast
qed

lemma in_day_slots:
  "l \<in> set (day_slots cal s d) \<longleftrightarrow> matches_date cal s d \<and>
     (\<exists>h \<in> set (fd_values (sc_hour s)). \<exists>m \<in> set (fd_values (sc_minute s)). l = civil d h m)"
  by (auto simp: day_slots_def slots_def)

lemma in_candidates: "l \<in> set (candidates cal s a b) \<longleftrightarrow> (\<exists>d. a \<le> d \<and> d \<le> b \<and> l \<in> set (day_slots cal s d))"
  by (auto simp: candidates_def)

lemma candidate_answers:
  assumes "schedule_ok s" and "answers z a b" and "l \<in> set (candidates cal s a b)"
  shows "is_ok (zn_instant z l)"
proof -
  obtain d h m where l: "l = civil d h m" "a \<le> d" "d \<le> b" "h \<le> 23" "m \<le> 59"
    using assms(1,3) by (fastforce simp: in_candidates in_day_slots schedule_ok_def field_ok_def)
  have "a * DAY \<le> d * DAY" "(d + 1) * DAY \<le> (b + 1) * DAY" using l by (simp_all add: DAY_def)
  with civil_bounds [OF l(4,5), of d] assms(2) show ?thesis by (simp add: answers_def l(1))
qed

text \<open>The instants of the candidates of a range of dates are the occurrences on those dates.\<close>

lemma occurs_date:
  assumes "schedule_ok s" and "zone_ok z" and "occurs cal z s t"
  shows "\<exists>d. date_of z t = Inr d \<and> (a \<le> d \<and> d \<le> b \<longrightarrow> (\<exists>l \<in> set (candidates cal s a b). zn_instant z l = Inr (Some t)))"
proof -
  obtain d h m where d: "matches_date cal s d" "h \<in> set (fd_values (sc_hour s))" "m \<in> set (fd_values (sc_minute s))"
    and t: "zn_instant z (civil d h m) = Inr (Some t)"
    using assms(3) by (auto simp: occurs_def)
  have "h \<le> 23" "m \<le> 59" using d assms(1) by (auto simp: schedule_ok_def field_ok_def)
  moreover have "zn_local z t = Inr (civil d h m)" using t assms(2) by (simp add: zone_ok_def)
  ultimately have "date_of z t = Inr d" by (simp add: date_of_def civil_date)
  moreover have "civil d h m \<in> set (day_slots cal s d)" using d by (auto simp: in_day_slots)
  ultimately show ?thesis using t in_candidates by blast
qed

lemma hits_occur: "t \<in> set (hits z P (candidates cal s a b)) \<Longrightarrow> occurs cal z s t \<and> P t"
  unfolding Bex_def in_hits in_candidates in_day_slots occurs_def by blast

lemma date_step:
  assumes "zone_ok z" and "t \<le> t'" and "date_of z t = Inr d" and "date_of z t' = Inr d'"
  shows "(d' - d - 1) * DAY < t' - t + 2 * DAY"
proof -
  obtain l l' where l: "zn_local z t = Inr l" "zn_local z t' = Inr l'" and d: "d = l div DAY" "d' = l' div DAY"
    using assms(3,4) by (auto simp: date_of_def)
  then have "l' - l \<le> t' - t + 2 * DAY" using assms(1,2) unfolding zone_ok_def by blast
  moreover have "d' * DAY \<le> l'" "l < (d + 1) * DAY" by (simp_all add: d DAY_def)
  ultimately show ?thesis by (simp add: d DAY_def)
qed

text \<open>
  A first instant after some other has no earlier date: the civil times before that of the
  other were first reached before it.
\<close>

lemma first_instant_date:
  assumes "zone_ok z" and "zn_instant z l = Inr (Some t)" and "after < t"
    and "date_of z after = Inr d" and "answers z d d"
  shows "d \<le> l div DAY"
proof (rule ccontr)
  assume "\<not> d \<le> l div DAY"
  obtain k where k: "zn_local z after = Inr k" "d = k div DAY" using assms(4) by (auto simp: date_of_def)
  then have "d * DAY \<le> k" "k < (d + 1) * DAY" by (simp_all add: DAY_def)
  with assms(5) obtain r where r: "zn_instant z k = Inr r" unfolding answers_def is_ok_iff by blast
  with assms(1) k(1) obtain first where first: "r = Some first" "first \<le> after"
    unfolding zone_ok_def by metis
  have "l < k" using \<open>\<not> d \<le> l div DAY\<close> k(2) zdiv_mono1 [of k l DAY] by (fastforce simp: DAY_def)
  then have "t < first" using assms(1,2) r first(1) unfolding zone_ok_def by blast
  with first(2) assms(3) show False by simp
qed

lemma occurs_later_date:
  assumes "schedule_ok s" and "zone_ok z" and "occurs cal z s t" and "after < t"
    and "date_of z after = Inr d" and "answers z d d" and "date_of z t = Inr e"
  shows "d \<le> e"
proof -
  obtain c h m where t: "zn_instant z (civil c h m) = Inr (Some t)"
    using assms(3) by (auto simp: occurs_def)
  then have "zn_local z t = Inr (civil c h m)" using assms(2) by (simp add: zone_ok_def)
  with assms(7) have "e = civil c h m div DAY" by (simp add: date_of_def)
  with first_instant_date [OF assms(2) t assms(4-6)] show ?thesis by simp
qed

lemma occurs_in_order:
  assumes "zone_ok z" and "occurs cal z s t" and "occurs cal z s u" and "t < u"
    and "date_of z t = Inr d" and "date_of z u = Inr e"
  shows "d \<le> e"
proof -
  obtain k l where k: "zn_instant z k = Inr (Some t)" and l: "zn_instant z l = Inr (Some u)"
    using assms(2,3) by (auto simp: occurs_def)
  then have "zn_local z t = Inr k" "zn_local z u = Inr l" using assms(1) by (simp_all add: zone_ok_def)
  with assms(5,6) have d: "d = k div DAY" "e = l div DAY" by (simp_all add: date_of_def)
  have "\<not> l < k" using assms(1,4) k l unfolding zone_ok_def by force
  then show ?thesis by (simp add: d DAY_def zdiv_mono1)
qed

section \<open>The searches in closed form\<close>

lemma preview_slots_hits:
  "\<forall>l \<in> set ls. is_ok (zn_instant z l) \<Longrightarrow> length found < limit \<Longrightarrow>
   preview_slots z after through limit ls found =
     (let all = found @ hits z (\<lambda>t. after < t \<and> t \<le> through) ls in Inr (limit \<le> length all, take limit all))"
proof (induction ls arbitrary: found)
  case (Cons l ls)
  then obtain r where r: "zn_instant z l = Inr r" by (cases "zn_instant z l") auto
  show ?case
  proof (cases "\<exists>t. r = Some t \<and> after < t \<and> t \<le> through")
    case True
    with Cons r show ?thesis by (auto simp: hit_def Let_def not_less)
  next
    case False
    with Cons r show ?thesis by (auto simp: hit_def Let_def split: option.splits)
  qed
qed (simp add: Let_def)

lemma answers_mono: "answers z a b \<Longrightarrow> a \<le> a' \<Longrightarrow> b' \<le> b \<Longrightarrow> answers z a' b'"
  by (fastforce simp: answers_def DAY_def)

lemma preview_days_hits:
  "schedule_ok s \<Longrightarrow> answers z d final \<Longrightarrow> final < cal_last cal \<Longrightarrow> final - d < int n \<Longrightarrow> length found < limit \<Longrightarrow>
   preview_days cal z s after through limit final n d found =
     Inr (take limit (found @ hits z (\<lambda>t. after < t \<and> t \<le> through) (candidates cal s d final)))"
proof (induction n arbitrary: d found)
  case (Suc n)
  show ?case
  proof (cases "d \<le> final")
    case True
    let ?all = "found @ hits z (\<lambda>t. after < t \<and> t \<le> through) (day_slots cal s d)"
    have "\<forall>l \<in> set (day_slots cal s d). is_ok (zn_instant z l)"
      using candidate_answers [OF Suc.prems(1,2)] True by (auto simp: in_candidates)
    then have day: "(if matches_date cal s d then preview_slots z after through limit (slots s d) found else Inr (False, found))
        = Inr (limit \<le> length ?all, take limit ?all)"
      using Suc.prems(5) by (simp add: day_slots_def preview_slots_hits Let_def)
    show ?thesis
    proof (cases "limit \<le> length ?all")
      case True
      with day \<open>d \<le> final\<close> show ?thesis by (simp add: candidates_first del: append_assoc add: append_assoc [symmetric])
    next
      case False
      have "preview_days cal z s after through limit final n (d + 1) ?all = Inr (take limit
          (?all @ hits z (\<lambda>t. after < t \<and> t \<le> through) (candidates cal s (d + 1) final)))"
        using Suc.prems False by (intro Suc.IH) (auto intro: answers_mono)
      with day False \<open>d \<le> final\<close> Suc.prems(3) show ?thesis by (simp add: candidates_first tomorrow_def)
    qed
  next
    case False
    with Suc.prems(5) show ?thesis by simp
  qed
qed simp

lemma preview_hits:
  assumes "schedule_ok s" and "zone_ok z" and "answers z d final" and "final < cal_last cal"
    and "date_of z after = Inr d" and "date_of z through = Inr final"
    and "1 \<le> limit" and "limit \<le> MAX_PREVIEW" and "after \<le> through" and "through - after \<le> MAX_RANGE_MS"
  shows "preview cal z s after through limit =
    Inr (take limit (hits z (\<lambda>t. after < t \<and> t \<le> through) (candidates cal s d final)))"
proof -
  have "(final - d - 1) * DAY < MAX_RANGE_MS + 2 * DAY" using date_step [OF assms(2,9,5,6)] assms(10) by simp
  then have "final - d < int (nat (SEARCH_DAYS + 3))" by (simp add: MAX_RANGE_MS_def SEARCH_DAYS_def DAY_def)
  then have "preview_days cal z s after through limit final (nat (SEARCH_DAYS + 3)) d [] =
      Inr (take limit ([] @ hits z (\<lambda>t. after < t \<and> t \<le> through) (candidates cal s d final)))"
    using assms by (intro preview_days_hits) simp_all
  moreover have "in_i64 (through - after)" using assms(9,10) by (simp add: in_i64_def MAX_RANGE_MS_def SEARCH_DAYS_def)
  ultimately show ?thesis using assms(5-10) by (simp add: preview_def)
qed

definition dated :: "zone \<Rightarrow> int \<Rightarrow> int \<Rightarrow> bool" where
  "dated z t final \<longleftrightarrow> (\<exists>e. date_of z t = Inr e \<and> e \<le> final)"

lemma hits_are_occurrences:
  assumes "schedule_ok s" and "zone_ok z" and "date_of z after = Inr d" and "answers z d d"
  shows "set (hits z (\<lambda>t. after < t \<and> t \<le> through) (candidates cal s d final)) =
    {t. occurs cal z s t \<and> after < t \<and> t \<le> through \<and> dated z t final}"
proof (intro set_eqI iffI)
  fix t assume "t \<in> {t. occurs cal z s t \<and> after < t \<and> t \<le> through \<and> dated z t final}"
  then have t: "occurs cal z s t" "after < t" "t \<le> through" "dated z t final" by auto
  obtain e where e: "date_of z t = Inr e"
    "d \<le> e \<and> e \<le> final \<longrightarrow> (\<exists>l \<in> set (candidates cal s d final). zn_instant z l = Inr (Some t))"
    using occurs_date [OF assms(1,2) t(1)] by metis
  have "d \<le> e" by (rule occurs_later_date [OF assms(1,2) t(1,2) assms(3,4) e(1)])
  moreover have "e \<le> final" using t(4) e(1) by (simp add: dated_def)
  ultimately show "t \<in> set (hits z (\<lambda>t. after < t \<and> t \<le> through) (candidates cal s d final))"
    using e(2) t by (auto simp: in_hits)
next
  fix t assume t: "t \<in> set (hits z (\<lambda>t. after < t \<and> t \<le> through) (candidates cal s d final))"
  then obtain c l where c: "c \<le> final" "l \<in> set (day_slots cal s c)" "zn_instant z l = Inr (Some t)"
    by (auto simp: in_hits in_candidates)
  then have "zn_local z t = Inr l" "l div DAY = c" using assms(2) slot_date [OF assms(1)] by (auto simp: zone_ok_def)
  with c(1) have "dated z t final" by (simp add: dated_def date_of_def)
  with t show "t \<in> {t. occurs cal z s t \<and> after < t \<and> t \<le> through \<and> dated z t final}"
    by (auto dest: hits_occur)
qed

text \<open>
  C25. A preview of a valid range lists, in increasing order without repetition and cut at the
  limit, the occurrences of the schedule after its start and up to its end whose date is not
  after the date of the end. These are all occurrences of the range, unless the zone's clock
  goes back across midnight shortly before the end: an occurrence in the first pass of the
  repeated hour, on the later date, is then left out.
\<close>

theorem preview_lists_occurrences:
  assumes "schedule_ok s" and "zone_ok z" and "answers z d (max d final)" and "final < cal_last cal"
    and "date_of z after = Inr d" and "date_of z through = Inr final"
    and "1 \<le> limit" and "limit \<le> MAX_PREVIEW" and "after \<le> through" and "through - after \<le> MAX_RANGE_MS"
  shows "\<exists>ts. preview cal z s after through limit = Inr (take limit ts) \<and> sorted_wrt (<) ts \<and>
    set ts = {t. occurs cal z s t \<and> after < t \<and> t \<le> through \<and> (\<exists>e. date_of z t = Inr e \<and> e \<le> final)} \<and>
    ((\<forall>t e. t \<le> through \<longrightarrow> date_of z t = Inr e \<longrightarrow> e \<le> final) \<longrightarrow>
       set ts = {t. occurs cal z s t \<and> after < t \<and> t \<le> through})"
proof (intro exI conjI impI)
  let ?ts = "hits z (\<lambda>t. after < t \<and> t \<le> through) (candidates cal s d final)"
  have answers: "answers z d d" "answers z d final" using assms(3) by (auto intro: answers_mono)
  show "preview cal z s after through limit = Inr (take limit ?ts)"
    by (rule preview_hits [OF assms(1,2) answers(2) assms(4-10)])
  show "sorted_wrt (<) ?ts" by (rule hits_sorted [OF assms(2) candidates_sorted [OF assms(1)]])
  show mem: "set ?ts = {t. occurs cal z s t \<and> after < t \<and> t \<le> through \<and> (\<exists>e. date_of z t = Inr e \<and> e \<le> final)}"
    using hits_are_occurrences [OF assms(1,2,5) answers(1)] by (simp add: dated_def)
  show "set ?ts = {t. occurs cal z s t \<and> after < t \<and> t \<le> through}"
    if "\<forall>t e. t \<le> through \<longrightarrow> date_of z t = Inr e \<longrightarrow> e \<le> final"
    using that occurs_date [OF assms(1,2)] unfolding mem by blast
qed

text \<open>Coordinated time with a lost hour from one to two on day 10, in a calendar of days of one month.\<close>

definition gap_zone :: zone where
  "gap_zone = \<lparr>
     zn_local = (\<lambda>t. Inr (if t < 867600000 then t else t + 3600000)),
     zn_instant = (\<lambda>l. Inr (if l < 867600000 then Some l else if l < 871200000 then None else Some (l - 3600000)))\<rparr>"

definition month_calendar :: calendar where
  "month_calendar = \<lparr>cal_month = (\<lambda>_. 1), cal_day = (\<lambda>d. d mod 31 + 1), cal_weekday = (\<lambda>d. (d + 4) mod 7),
     cal_first = - 1000000, cal_last = 1000000\<rparr>"

definition half_past_one :: schedule where
  "half_past_one = (let any = \<lambda>a b. \<lparr>fd_values = [a..<b], fd_star = True\<rparr> in
     \<lparr>sc_minute = \<lparr>fd_values = [30], fd_star = False\<rparr>, sc_hour = \<lparr>fd_values = [1], fd_star = False\<rparr>,
      sc_day = any 1 32, sc_month = any 1 13, sc_weekday = any 0 7\<rparr>)"

lemma gap_zone_ok: "zone_ok gap_zone"
  unfolding zone_ok_def gap_zone_def by (auto simp: DAY_def split: if_splits)

lemma gap_answers: "answers gap_zone a b"
  by (simp add: answers_def gap_zone_def)

lemma half_past_one_ok: "schedule_ok half_past_one"
  by (simp add: schedule_ok_def half_past_one_def field_ok_def Let_def sorted_wrt_upt)

text \<open>The slot in the gap of day 10 is skipped: from day 9 at noon the next occurrence is on day 11.\<close>

lemma preview_lists_occurrences_witness:
  "\<exists>ts. preview month_calendar gap_zone half_past_one 820800000 1000000000 3 = Inr (take 3 ts) \<and> sorted_wrt (<) ts \<and>
     set ts = {t. occurs month_calendar gap_zone half_past_one t \<and> 820800000 < t \<and> t \<le> 1000000000}"
proof -
  have dates: "\<forall>t e. t \<le> 1000000000 \<longrightarrow> date_of gap_zone t = Inr e \<longrightarrow> e \<le> 11"
    by (auto simp: date_of_def gap_zone_def DAY_def)
  have "\<exists>ts. preview month_calendar gap_zone half_past_one 820800000 1000000000 3 = Inr (take 3 ts) \<and> sorted_wrt (<) ts \<and>
    set ts = {t. occurs month_calendar gap_zone half_past_one t \<and> 820800000 < t \<and> t \<le> 1000000000 \<and>
      (\<exists>e. date_of gap_zone t = Inr e \<and> e \<le> 11)} \<and>
    ((\<forall>t e. t \<le> 1000000000 \<longrightarrow> date_of gap_zone t = Inr e \<longrightarrow> e \<le> 11) \<longrightarrow>
       set ts = {t. occurs month_calendar gap_zone half_past_one t \<and> 820800000 < t \<and> t \<le> 1000000000})"
    by (rule preview_lists_occurrences [OF half_past_one_ok gap_zone_ok gap_answers, where d = 9 and final = 11])
      (simp_all add: month_calendar_def date_of_def gap_zone_def DAY_def MAX_PREVIEW_def MAX_RANGE_MS_def SEARCH_DAYS_def)
  with dates show ?thesis by blast
qed

text \<open>
  A zone whose clock goes back by an hour at one minute past midnight of day 10: an
  occurrence at midnight that lies in the range is missing from the preview when the range
  ends in the repeated hour.
\<close>

definition back_zone :: zone where
  "back_zone = \<lparr>
     zn_local = (\<lambda>t. Inr (if t < 864060000 then t else t - 3600000)),
     zn_instant = (\<lambda>l. Inr (Some (if l < 864060000 then l else l + 3600000)))\<rparr>"

definition at_midnight :: schedule where
  "at_midnight = half_past_one\<lparr>sc_minute := \<lparr>fd_values = [0], fd_star = False\<rparr>, sc_hour := \<lparr>fd_values = [0], fd_star = False\<rparr>\<rparr>"

lemma repeated_midnight_is_left_out:
  "zone_ok back_zone \<and> schedule_ok at_midnight \<and> occurs month_calendar back_zone at_midnight 864000000 \<and>
   preview month_calendar back_zone at_midnight 820800000 865800000 10 = Inr [] \<and>
   preview month_calendar back_zone at_midnight 820800000 871200000 10 = Inr [864000000]"
proof -
  have "zone_ok back_zone"
    unfolding zone_ok_def back_zone_def by (auto simp: DAY_def split: if_splits)
  moreover have "schedule_ok at_midnight"
    using half_past_one_ok by (simp add: schedule_ok_def at_midnight_def field_ok_def half_past_one_def Let_def sorted_wrt_upt)
  moreover have "matches_date month_calendar at_midnight 10" by code_simp
  then have "occurs month_calendar back_zone at_midnight 864000000"
    unfolding occurs_def
    by (intro exI [of _ 10] bexI [of _ 0] conjI)
      (simp_all add: at_midnight_def half_past_one_def Let_def back_zone_def civil_def DAY_def)
  moreover have "preview month_calendar back_zone at_midnight 820800000 865800000 10 = Inr []"
    "preview month_calendar back_zone at_midnight 820800000 871200000 10 = Inr [864000000]" by code_simp+
  ultimately show ?thesis by blast
qed

text \<open>
  The next instant of a schedule is its least occurrence after the given instant; it is
  refused exactly when there is none within the nine years searched. The clock is assumed
  not to go back across midnight at the end of these nine years.
\<close>

theorem next_is_least:
  assumes "schedule_ok s" and "zone_ok z" and "answers z d final" and "final < cal_last cal"
    and "date_of z after = Inr d" and "date_of z (after + MAX_RANGE_MS) = Inr final" and "in_i64 (after + MAX_RANGE_MS)"
    and "answers z d d" and dates: "\<forall>t e. t \<le> after + MAX_RANGE_MS \<longrightarrow> date_of z t = Inr e \<longrightarrow> e \<le> final"
  shows "case next_after cal z s after of
      Inr t \<Rightarrow> occurs cal z s t \<and> after < t \<and> (\<forall>u. occurs cal z s u \<longrightarrow> after < u \<longrightarrow> t \<le> u)
    | Inl e \<Rightarrow> \<forall>u. occurs cal z s u \<longrightarrow> after < u \<longrightarrow> after + MAX_RANGE_MS < u"
proof -
  let ?ts = "hits z (\<lambda>t. after < t \<and> t \<le> after + MAX_RANGE_MS) (candidates cal s d final)"
  have run: "preview cal z s after (after + MAX_RANGE_MS) 1 = Inr (take 1 ?ts)"
    by (rule preview_hits [OF assms(1-6)]) (simp_all add: MAX_PREVIEW_def MAX_RANGE_MS_def SEARCH_DAYS_def)
  have sorted: "sorted_wrt (<) ?ts" by (rule hits_sorted [OF assms(2) candidates_sorted [OF assms(1)]])
  have mem: "set ?ts = {t. occurs cal z s t \<and> after < t \<and> t \<le> after + MAX_RANGE_MS}"
    using hits_are_occurrences [OF assms(1,2,5,8)] dates occurs_date [OF assms(1,2)] by (fastforce simp: dated_def)
  show ?thesis
  proof (cases ?ts)
    case Nil
    with mem have "\<forall>u. occurs cal z s u \<longrightarrow> after < u \<longrightarrow> after + MAX_RANGE_MS < u" by (auto simp: not_le)
    with run Nil assms(7) show ?thesis by (simp add: next_after_def)
  next
    case (Cons t ts)
    then have "t \<in> set ?ts" by simp
    then have t: "occurs cal z s t" "after < t" "t \<le> after + MAX_RANGE_MS" by (simp_all add: mem)
    have "t \<le> u" if u: "occurs cal z s u" "after < u" for u
    proof (cases "u \<le> after + MAX_RANGE_MS")
      case True
      then have "u \<in> set ?ts" using u by (simp add: mem)
      with sorted Cons show ?thesis by auto
    qed (use t(3) in simp)
    with run Cons t assms(7) show ?thesis by (simp add: next_after_def)
  qed
qed

lemma next_is_least_witness:
  "case next_after month_calendar gap_zone half_past_one 820800000 of
      Inr t \<Rightarrow> occurs month_calendar gap_zone half_past_one t \<and> 820800000 < t \<and>
        (\<forall>u. occurs month_calendar gap_zone half_past_one u \<longrightarrow> 820800000 < u \<longrightarrow> t \<le> u)
    | Inl e \<Rightarrow> \<forall>u. occurs month_calendar gap_zone half_past_one u \<longrightarrow> 820800000 < u \<longrightarrow> 820800000 + MAX_RANGE_MS < u"
  by (rule next_is_least [OF half_past_one_ok gap_zone_ok gap_answers, where d = 9 and final = 3303])
    (auto simp: month_calendar_def date_of_def gap_zone_def DAY_def MAX_RANGE_MS_def SEARCH_DAYS_def in_i64_def gap_answers [unfolded gap_zone_def])

section \<open>The reverse search\<close>

definition first_of :: "int list \<Rightarrow> int option" where
  "first_of ts = (case ts of [] \<Rightarrow> None | t # _ \<Rightarrow> Some t)"

lemma latest_slots_hits:
  "\<forall>l \<in> set ls. is_ok (zn_instant z l) \<Longrightarrow> latest_slots z through ls = Inr (first_of (hits z (\<lambda>t. t \<le> through) ls))"
proof (induction ls)
  case (Cons l ls)
  then obtain r where "zn_instant z l = Inr r" by (cases "zn_instant z l") auto
  with Cons show ?case by (auto simp: hit_def first_of_def split: option.splits)
qed (simp add: first_of_def)

lemma latest_days_hits:
  "schedule_ok s \<Longrightarrow> answers z (d - int n + 1) d \<Longrightarrow> cal_first cal \<le> d - int n \<Longrightarrow>
   latest_days cal z s after through n d =
     Inr (case first_of (hits z (\<lambda>t. t \<le> through) (rev (candidates cal s (d - int n + 1) d))) of
            Some t \<Rightarrow> if t > after then Some t else None | None \<Rightarrow> None)"
proof (induction n arbitrary: d)
  case (Suc n)
  let ?hits = "\<lambda>ls. hits z (\<lambda>t. t \<le> through) (rev ls)"
  have split: "candidates cal s (d - int n) d = candidates cal s (d - int n) (d - 1) @ day_slots cal s d"
    by (simp add: candidates_last)
  have "\<forall>l \<in> set (rev (day_slots cal s d)). is_ok (zn_instant z l)"
    using candidate_answers [OF Suc.prems(1,2), of _ cal] by (simp add: split)
  then have day: "(if matches_date cal s d then latest_slots z through (rev (slots s d)) else Inr None) =
      Inr (first_of (?hits (day_slots cal s d)))"
    by (simp add: day_slots_def latest_slots_hits) (simp add: first_of_def)
  have "latest_days cal z s after through n (d - 1) =
      Inr (case first_of (?hits (candidates cal s (d - int n) (d - 1))) of
        Some t \<Rightarrow> if t > after then Some t else None | None \<Rightarrow> None)"
    using Suc.IH [of "d - 1"] Suc.prems answers_mono by simp
  then show ?case
    using day Suc.prems(3) by (cases "?hits (day_slots cal s d)") (simp_all add: split yesterday_def first_of_def)
qed (simp add: first_of_def)

text \<open>
  The latest instant is the greatest occurrence up to the given one, provided it comes
  after the cursor; when there is none, no occurrence lies between the two within nine years
  of the end. The clock is assumed not to go back across midnight at the end.
\<close>

theorem latest_is_greatest:
  assumes "schedule_ok s" and "zone_ok z" and "answers z (final - SEARCH_DAYS - 2) final"
    and "cal_first cal \<le> final - SEARCH_DAYS - 3"
    and "date_of z through = Inr final" and "date_of z after = Inr d" and "after < through"
    and dates: "\<forall>t e. t \<le> through \<longrightarrow> date_of z t = Inr e \<longrightarrow> e \<le> final"
  shows "\<exists>r. latest cal z s after through = Inr r \<and> (case r of
      Some t \<Rightarrow> occurs cal z s t \<and> after < t \<and> t \<le> through \<and> (\<forall>u. occurs cal z s u \<longrightarrow> u \<le> through \<longrightarrow> u \<le> t)
    | None \<Rightarrow> \<forall>u. occurs cal z s u \<longrightarrow> after < u \<longrightarrow> u \<le> through \<longrightarrow> MAX_RANGE_MS < through - u)"
proof -
  let ?ts = "hits z (\<lambda>t. t \<le> through) (candidates cal s (final - SEARCH_DAYS - 2) final)"
  have run: "latest cal z s after through =
      Inr (case first_of (rev ?ts) of Some t \<Rightarrow> if t > after then Some t else None | None \<Rightarrow> None)"
    using assms latest_days_hits [OF assms(1), of z final "nat (SEARCH_DAYS + 3)" cal after through]
    by (simp add: latest_def rev_hits SEARCH_DAYS_def)
  have sorted: "sorted_wrt (<) ?ts" by (rule hits_sorted [OF assms(2) candidates_sorted [OF assms(1)]])
  have dated: "u \<in> set ?ts"
    if u: "occurs cal z s u" "u \<le> through" "date_of z u = Inr e" "final - SEARCH_DAYS - 2 \<le> e" for u e
  proof -
    have "e \<le> final" using dates u(2,3) by blast
    then show ?thesis
      using occurs_date [OF assms(1,2) u(1), of "final - SEARCH_DAYS - 2" final] u(2-4) by (auto simp: in_hits)
  qed
  have date: "\<exists>e. date_of z u = Inr e" if "occurs cal z s u" for u
    using occurs_date [OF assms(1,2) that] by blast
  have near: "u \<in> set ?ts" if u: "occurs cal z s u" "u \<le> through" "through - u \<le> MAX_RANGE_MS" for u
  proof -
    obtain e where e: "date_of z u = Inr e" using date [OF u(1)] by blast
    have "(final - e - 1) * DAY < MAX_RANGE_MS + 2 * DAY"
      using date_step [OF assms(2) u(2) e assms(5)] u(3) by auto
    then have "final - SEARCH_DAYS - 2 \<le> e" by (simp add: MAX_RANGE_MS_def SEARCH_DAYS_def DAY_def)
    with dated u e show ?thesis by blast
  qed
  show ?thesis
  proof (cases "rev ?ts")
    case Nil
    then have "\<forall>u. occurs cal z s u \<longrightarrow> after < u \<longrightarrow> u \<le> through \<longrightarrow> MAX_RANGE_MS < through - u"
      using near by (metis empty_iff list.set(1) not_le set_rev)
    with run Nil show ?thesis by (simp add: first_of_def)
  next
    case (Cons t ts)
    then have "t \<in> set ?ts" by (metis list.set_intros(1) set_rev)
    then have t: "occurs cal z s t" "t \<le> through" by (auto dest: hits_occur)
    have last: "u \<le> t" if "u \<in> set ?ts" for u
    proof -
      have "?ts = rev ts @ [t]" using Cons by (metis rev.simps(2) rev_rev_ident)
      with sorted that show ?thesis by (auto simp: sorted_wrt_append)
    qed
    obtain f where f: "date_of z t = Inr f" "final - SEARCH_DAYS - 2 \<le> f"
    proof -
      obtain e l where el: "e \<ge> final - SEARCH_DAYS - 2" "l \<in> set (day_slots cal s e)" "zn_instant z l = Inr (Some t)"
        using \<open>t \<in> set ?ts\<close> by (auto simp: in_hits in_candidates)
      then have "zn_local z t = Inr l" "l div DAY = e"
        using assms(2) slot_date [OF assms(1)] by (auto simp: zone_ok_def)
      with el(1) that show thesis by (simp add: date_of_def)
    qed
    have all: "u \<le> t" if u: "occurs cal z s u" "u \<le> through" for u
    proof (rule ccontr)
      assume "\<not> u \<le> t"
      moreover obtain e where e: "date_of z u = Inr e" using date [OF u(1)] by blast
      ultimately have "f \<le> e" using occurs_in_order [OF assms(2) t(1) u(1) _ f(1) e] by simp
      with dated u e f(2) last \<open>\<not> u \<le> t\<close> show False by force
    qed
    show ?thesis
    proof (cases "t > after")
      case True
      with run Cons t all show ?thesis by (simp add: first_of_def)
    next
      case False
      with all have "\<forall>u. occurs cal z s u \<longrightarrow> after < u \<longrightarrow> \<not> u \<le> through" by force
      with run Cons False show ?thesis by (simp add: first_of_def)
    qed
  qed
qed

lemma latest_is_greatest_witness:
  "\<exists>r. latest month_calendar gap_zone half_past_one 820800000 900000000 = Inr r \<and> (case r of
      Some t \<Rightarrow> occurs month_calendar gap_zone half_past_one t \<and> 820800000 < t \<and> t \<le> 900000000 \<and>
        (\<forall>u. occurs month_calendar gap_zone half_past_one u \<longrightarrow> u \<le> 900000000 \<longrightarrow> u \<le> t)
    | None \<Rightarrow> \<forall>u. occurs month_calendar gap_zone half_past_one u \<longrightarrow> 820800000 < u \<longrightarrow> u \<le> 900000000 \<longrightarrow>
        MAX_RANGE_MS < 900000000 - u)"
  by (rule latest_is_greatest [OF half_past_one_ok gap_zone_ok gap_answers, where final = 10 and d = 9])
    (auto simp: month_calendar_def date_of_def gap_zone_def DAY_def SEARCH_DAYS_def)

end
