(* ===== verification/Jobs.thy ===== *)
theory Jobs
  imports Cron
begin

text \<open>
  Jobs and their store: the definitions of jobs and what is accepted as one
  (\<open>src/src/jobs/mod.rs\<close>, \<open>command.rs\<close>, \<open>files.rs\<close>), the rows of the store, their changes by
  requests, the jobs that are due and the publication of a run (\<open>src/src/jobs/store.rs\<close>).
  A transaction is a function of the store whose error leaves it as it was.
\<close>

section \<open>Errors\<close>

text \<open>An error is written as its code and its message.\<close>

definition failure :: "string \<Rightarrow> string \<Rightarrow> 'a result" where
  "failure code msg = Inl (code @ '': '' @ msg)"

definition conflict :: "string \<Rightarrow> 'a result" where "conflict = failure ''conflict''"
definition invalid :: "string \<Rightarrow> 'a result" where "invalid = failure ''invalid_input''"
definition not_found :: "string \<Rightarrow> 'a result" where "not_found = failure ''not_found''"

definition is_code :: "string \<Rightarrow> string \<Rightarrow> bool" where
  "is_code code e \<longleftrightarrow> begins_with (code @ '': '') e"

lemma failures [simp]:
  "and_then (conflict m) f = conflict m" "and_then (invalid m) f = invalid m" "and_then (not_found m) f = not_found m"
  "conflict m \<noteq> Inr x" "invalid m \<noteq> Inr x" "not_found m \<noteq> Inr x"
  "Inr x \<noteq> conflict m" "Inr x \<noteq> invalid m" "Inr x \<noteq> not_found m"
  "failure c m \<noteq> Inr x" "Inr x \<noteq> failure c m" "and_then (failure c m) f = failure c m"
  by (simp_all add: conflict_def invalid_def not_found_def failure_def)

section \<open>Definitions of jobs\<close>

record blob =
  bl_sha256 :: string
  bl_size :: nat

record command_spec =
  sp_program :: string
  sp_args :: "string list"
  sp_input :: "blob option"
  sp_harness :: "string option"
  sp_model :: "string option"
  sp_effort :: "string option"

datatype thread_mode = New_Thread | Resume_Thread

record job_definition =
  jd_name :: string
  jd_cron :: string
  jd_timezone :: string
  jd_harness :: string
  jd_executable :: "string option"
  jd_execution :: "command_spec option"
  jd_model :: string
  jd_thread_mode :: thread_mode
  jd_machines :: "string list"
  jd_all_machines :: bool
  jd_each_machine :: bool

definition fans_out :: "job_definition \<Rightarrow> bool" where
  "fans_out d \<longleftrightarrow> jd_all_machines d \<or> jd_each_machine d"

definition check_identifier :: "string \<Rightarrow> string \<Rightarrow> nat \<Rightarrow> unit result" where
  "check_identifier value name limit =
     (if all_space value \<or> length value > limit \<or> has_control value
      then invalid (name @ '' must be nonblank, at most '' @ show_nat limit @ '' bytes, and contain no control characters'')
      else Inr ())"

definition digest_text :: "string \<Rightarrow> bool" where
  "digest_text s \<longleftrightarrow> length s = 64 \<and> list_all (\<lambda>c. ascii_digit c \<or> byte_in c 97 102) s"

definition blob_validate :: "blob \<Rightarrow> unit result" where
  "blob_validate b =
     (if \<not> digest_text (bl_sha256 b) \<or> bl_size b > 64 * 1024 * 1024 * 1024
      then invalid ''Invalid execution file digest or size'' else Inr ())"

text \<open>\<open>optional v f\<close> runs the check on a value that is there.\<close>

definition optional :: "'a option \<Rightarrow> ('a \<Rightarrow> unit result) \<Rightarrow> unit result" where
  "optional v f = (case v of None \<Rightarrow> Inr () | Some x \<Rightarrow> f x)"

definition spec_validate :: "command_spec \<Rightarrow> unit result" where
  "spec_validate s =
     and_then (check_identifier (sp_program s) ''executable'' 4096) (\<lambda>_.
     if length (sp_args s) > 256 \<or> list_ex (\<lambda>a. CHR 0x00 \<in> set a) (sp_args s) \<or> sum_list (List.map length (sp_args s)) > 65536
     then invalid ''Command arguments exceed 64 KiB or contain NUL''
     else if (sp_harness s \<noteq> None) \<noteq> (sp_model s \<noteq> None) then invalid ''Specify both harness and model''
     else
       and_then (optional (sp_harness s) (\<lambda>h.
         if h \<in> {''codex'', ''claude'', ''gemini''} then Inr () else invalid ''Harness must be codex, claude, or gemini'')) (\<lambda>_.
       and_then (optional (sp_model s) (\<lambda>m. check_identifier m ''model'' 256)) (\<lambda>_.
       and_then (optional (sp_effort s) (\<lambda>e. and_then (check_identifier e ''effort'' 64) (\<lambda>_.
         if sp_harness s = None then invalid ''Effort requires harness and model'' else Inr ()))) (\<lambda>_.
       optional (sp_input s) blob_validate))))"

text \<open>
  The names of machines: a trimmed name without white space is one without white space,
  and control characters were refused before.
\<close>

definition check_machine :: "string \<Rightarrow> string list \<Rightarrow> string list result" where
  "check_machine machine seen =
     and_then (check_identifier machine ''machine node ID'' 128) (\<lambda>_.
     if has_space_or_control machine \<or> machine \<in> set seen
     then invalid ''Machine node IDs must be unique and contain no whitespace'' else Inr (machine # seen))"

definition harness_names :: "string list" where
  "harness_names = [''codex'', ''claude'', ''pi'']"

definition definition_validate :: "calendar \<Rightarrow> (string \<Rightarrow> zone option) \<Rightarrow> job_definition \<Rightarrow> unit result" where
  "definition_validate cal zones d =
     and_then (check_identifier (jd_name d) ''job name'' 256) (\<lambda>_.
     and_then
       (case jd_executable d of
          Some executable \<Rightarrow> and_then (check_identifier executable ''executable'' 4096) (\<lambda>_.
            if jd_harness d \<noteq> [] \<or> jd_model d \<noteq> [] \<or> jd_thread_mode d \<noteq> New_Thread
            then invalid ''Script jobs cannot use agent settings'' else Inr ())
        | None \<Rightarrow>
            if jd_model d \<noteq> [] \<or> jd_harness d \<noteq> ''codex'' then check_identifier (jd_model d) ''logical model'' 256 else Inr ()) (\<lambda>_.
     if jd_all_machines d \<and> jd_machines d \<noteq> []
     then invalid ''All machines cannot be combined with an ordered machine list''
     else if jd_each_machine d \<and> (jd_all_machines d \<or> jd_machines d = [])
     then invalid ''Each machine requires a nonempty machine list and cannot be combined with all machines''
     else
       and_then (fold_result check_machine (jd_machines d) []) (\<lambda>_.
       and_then
         (if jd_executable d = None \<and> jd_harness d \<notin> set harness_names
          then invalid ''Job harness must be codex, claude, or pi'' else Inr ()) (\<lambda>_.
       case jd_execution d of
         Some exec \<Rightarrow> and_then (spec_validate exec) (\<lambda>_.
           if jd_executable d \<noteq> Some (sp_program exec) \<or> jd_cron d \<noteq> [] \<or> fans_out d
           then invalid ''One-shot commands cannot have a schedule or fanout'' else Inr ())
       | None \<Rightarrow> and_then (schedule_parse cal zones (jd_cron d) (jd_timezone d)) (\<lambda>_. Inr ())))))"

definition validate_id :: "string \<Rightarrow> unit result" where
  "validate_id s =
     (if s = [] \<or> length s > 128 \<or> \<not> list_all (\<lambda>c. ascii_alphanumeric c \<or> c \<in> {CHR ''-'', CHR ''_''}) s
      then invalid ''Job/run ID must contain 1-128 ASCII letters, digits, hyphens or underscores'' else Inr ())"

definition page_limit :: "nat \<Rightarrow> unit result" where
  "page_limit limit = (if 1 \<le> limit \<and> limit \<le> 100 then Inr () else invalid ''Page limit must be 1-100'')"

definition revision_number :: "int \<Rightarrow> unit result" where
  "revision_number r = (if r \<le> 0 \<or> r = 2 ^ 63 - 1 then invalid ''Revision must be positive and incrementable'' else Inr ())"

definition preview_range :: "int \<Rightarrow> int \<Rightarrow> nat \<Rightarrow> unit result" where
  "preview_range after through limit =
     (if limit < 1 \<or> MAX_PREVIEW < limit \<or> \<not> in_i64 (through - after) \<or> through - after < 0 \<or> MAX_RANGE_MS < through - after
      then invalid ''Invalid preview bounds'' else Inr ())"

section \<open>Instructions\<close>

text \<open>
  The files of instructions, by the digest that names them. The hash of the library is a
  parameter.
\<close>

type_synonym files = "string \<rightharpoonup> string"

definition BODY_LIMIT :: nat where "BODY_LIMIT = 1024 * 1024"

definition markdown_validate :: "string \<Rightarrow> unit result" where
  "markdown_validate s =
     (if length s > BODY_LIMIT \<or> all_space s
      then invalid ''Instructions must be nonempty UTF-8 Markdown, at most 1 MiB'' else Inr ())"

definition load_markdown :: "(string \<Rightarrow> string) \<Rightarrow> files \<Rightarrow> string \<Rightarrow> string result" where
  "load_markdown sha fs d =
     (if \<not> digest_text d then invalid ''Invalid instruction digest''
      else case fs d of
        None \<Rightarrow> failure ''io'' ''No such file or directory''
      | Some s \<Rightarrow>
          let s = take (BODY_LIMIT + 1) s in
          and_then (if valid_utf8 s then markdown_validate s else failure ''io'' ''stream did not contain valid UTF-8'') (\<lambda>_.
          if sha s = d then Inr s
          else failure ''instruction_corrupt'' ''Instruction digest does not match the immutable revision''))"

definition persist_markdown :: "(string \<Rightarrow> string) \<Rightarrow> files \<Rightarrow> string \<Rightarrow> (files \<times> string) result" where
  "persist_markdown sha fs s =
     and_then (markdown_validate s) (\<lambda>_.
       let d = sha s in
       if \<not> digest_text d then invalid ''Invalid instruction digest''
       else if fs d \<noteq> None then and_then (load_markdown sha fs d) (\<lambda>_. Inr (fs, d))
       else Inr (fs(d \<mapsto> s), d))"

lemma loaded_digest: "load_markdown sha fs d = Inr t \<Longrightarrow> sha t = d"
  unfolding load_markdown_def Let_def by (cases "fs d") (simp_all split: if_splits)

lemma persisted_is_loaded:
  assumes "persist_markdown sha fs s = Inr (fs', d)" and "valid_utf8 s"
  shows "d = sha s \<and> (\<exists>t. load_markdown sha fs' d = Inr t \<and> sha t = d)"
proof -
  have s: "length s \<le> BODY_LIMIT" "\<not> all_space s"
    using assms(1) by (auto simp: persist_markdown_def markdown_validate_def split: if_splits)
  show ?thesis
  proof (cases "fs (sha s)")
    case None
    have "digest_text (sha s) \<and> Inr (fs(sha s \<mapsto> s), sha s) = (Inr (fs', d) :: (files \<times> string) result)"
      using assms(1) None s unfolding persist_markdown_def markdown_validate_def Let_def by (simp split: if_splits) metis
    then have ok: "digest_text (sha s)" "fs' = fs(sha s \<mapsto> s)" "d = sha s"
      by (metis Pair_inject sum.inject(2))+
    have whole: "take (BODY_LIMIT + 1) s = s" using s(1) by simp
    have "load_markdown sha (fs(sha s \<mapsto> s)) (sha s) = Inr s"
      using ok(1) s assms(2) by (simp only: load_markdown_def fun_upd_same option.case Let_def whole)
        (simp add: markdown_validate_def)
    with ok show ?thesis by simp
  next
    case (Some t)
    then have "\<exists>u. load_markdown sha fs (sha s) = Inr u \<and> (fs, sha s) = (fs', d)"
      using assms(1) s unfolding persist_markdown_def markdown_validate_def Let_def
      by (simp split: if_splits) metis
    then obtain u where u: "load_markdown sha fs (sha s) = Inr u" "fs' = fs" "d = sha s"
      by (metis Pair_inject)
    then have "sha u = sha s" using loaded_digest by blast
    with u show ?thesis by simp
  qed
qed

section \<open>Rows\<close>

record snapshot =
  sn_job :: string
  sn_project :: string
  sn_revision :: int
  sn_definition :: job_definition
  sn_digest :: string

record scheduled_job =
  jb_id :: string
  jb_project :: string
  jb_revision :: int
  jb_enabled :: bool
  jb_deleted_at :: "int option"
  jb_schedule_from :: int
  jb_next_at :: "int option"
  jb_snapshot :: snapshot
  jb_created_at :: int
  jb_updated_at :: int

datatype trigger = Scheduled | Manual

datatype run_state = Pending | Running | Skipped | Succeeded | Failed | Cancelled

record job_run =
  rn_sequence :: int
  rn_id :: string
  rn_snapshot :: snapshot
  rn_scheduled_at :: int
  rn_trigger :: trigger
  rn_request_key :: "string option"
  rn_state :: run_state
  rn_reason :: "string option"
  rn_worker :: "string option"
  rn_parent :: "string option"
  rn_target :: "string option"
  rn_machine :: "string option"
  rn_session :: "string option"
  rn_created_at :: int
  rn_started_at :: "int option"
  rn_finished_at :: "int option"

record run_owner =
  ow_run :: string
  ow_node :: "string option"
  ow_generation :: int
  ow_revoking :: bool
  ow_stop :: bool

record job_receipt =
  rq_project :: string
  rq_actor :: string
  rq_key :: string
  rq_fingerprint :: string
  rq_response :: scheduled_job

record job_event =
  ev_kind :: string
  ev_time :: int
  ev_project :: string
  ev_subject :: string
  ev_job :: string
  ev_revision :: int
  ev_state :: run_state
  ev_machine :: "string option"
  ev_session :: "string option"
  ev_parent :: "string option"
  ev_target :: "string option"
  ev_scheduled_at :: int
  ev_trigger :: trigger
  ev_error :: "string option"

record log_page =
  lg_run :: string
  lg_offset :: nat
  lg_output :: string
  lg_next :: "nat option"

record jobs_db =
  js_role :: string
  js_slot :: int
  js_jobs :: "scheduled_job list"
  js_revisions :: "snapshot list"
  js_runs :: "job_run list"
  js_sequence :: int
  js_owners :: "run_owner list"
  js_receipts :: "job_receipt list"
  js_agents :: "string list"
  js_events :: "job_event list"
  js_logs :: "log_page list"
  js_results :: "(string \<times> json) list"

text \<open>What the code calls outside itself: the calendar, the zones, the hash and the encoding of requests.\<close>

datatype job_change =
  Create_Job string job_definition string bool
| Edit_Job string int job_definition "string option"
| Set_Enabled string int bool
| Delete_Job string int

record job_ports =
  jp_calendar :: calendar
  jp_zones :: "string \<Rightarrow> zone option"
  jp_sha :: "string \<Rightarrow> string"
  jp_encode :: "job_change \<Rightarrow> string"

definition job_authority :: "jobs_db \<Rightarrow> unit result" where
  "job_authority db =
     (if js_role db = ''agent''
      then failure ''fleet_unavailable'' ''Jobs require the authoritative supervisor; no replica write was made'' else Inr ())"

definition get_job :: "jobs_db \<Rightarrow> string \<Rightarrow> string \<Rightarrow> scheduled_job result" where
  "get_job db project job =
     (case find (\<lambda>j. jb_project j = project \<and> jb_id j = job) (js_jobs db) of
        None \<Rightarrow> not_found ''Job not found in this project'' | Some j \<Rightarrow> Inr j)"

definition find_run :: "jobs_db \<Rightarrow> string \<Rightarrow> job_run option" where
  "find_run db run = find (\<lambda>r. rn_id r = run) (js_runs db)"

definition get_run :: "jobs_db \<Rightarrow> string \<Rightarrow> job_run result" where
  "get_run db run = (case find_run db run of None \<Rightarrow> not_found ''Job run not found'' | Some r \<Rightarrow> Inr r)"

definition run_active :: "job_run \<Rightarrow> bool" where
  "run_active r \<longleftrightarrow> rn_state r \<in> {Pending, Running}"

section \<open>Changes of a job\<close>

definition find_receipt :: "jobs_db \<Rightarrow> string \<Rightarrow> string \<Rightarrow> string \<Rightarrow> string \<Rightarrow> scheduled_job option result" where
  "find_receipt db project actor key fingerprint =
     (case find (\<lambda>q. rq_project q = project \<and> rq_actor q = actor \<and> rq_key q = key) (js_receipts db) of
        None \<Rightarrow> Inr None
      | Some q \<Rightarrow>
          if rq_fingerprint q = fingerprint then Inr (Some (rq_response q))
          else conflict ''Request ID was already used with different job content'')"

fun change_id :: "job_change \<Rightarrow> string" where
  "change_id (Create_Job i _ _ _) = i"
| "change_id (Edit_Job i _ _ _) = i"
| "change_id (Set_Enabled i _ _) = i"
| "change_id (Delete_Job i _) = i"

fun change_expected :: "job_change \<Rightarrow> int option" where
  "change_expected (Create_Job _ _ _ _) = None"
| "change_expected (Edit_Job _ r _ _) = Some r"
| "change_expected (Set_Enabled _ r _) = Some r"
| "change_expected (Delete_Job _ r) = Some r"

fun change_definition :: "job_change \<Rightarrow> job_definition option" where
  "change_definition (Create_Job _ d _ _) = Some d"
| "change_definition (Edit_Job _ _ d _) = Some d"
| "change_definition _ = None"

fun change_markdown :: "job_change \<Rightarrow> string option" where
  "change_markdown (Create_Job _ _ s _) = Some s"
| "change_markdown (Edit_Job _ _ _ s) = s"
| "change_markdown _ = None"

fun change_enabled :: "job_change \<Rightarrow> bool option" where
  "change_enabled (Create_Job _ _ _ e) = Some e"
| "change_enabled (Edit_Job _ _ _ _) = None"
| "change_enabled (Set_Enabled _ _ e) = Some e"
| "change_enabled (Delete_Job _ _) = Some False"

fun change_deletes :: "job_change \<Rightarrow> bool" where
  "change_deletes (Delete_Job _ _) = True"
| "change_deletes _ = False"

fun change_validate :: "job_ports \<Rightarrow> job_change \<Rightarrow> unit result" where
  "change_validate p (Create_Job i d s _) =
     and_then (validate_id i) (\<lambda>_. and_then (definition_validate (jp_calendar p) (jp_zones p) d) (\<lambda>_.
     if jd_executable d = None then markdown_validate s
     else if s \<noteq> [] then invalid ''Script jobs cannot use instructions'' else Inr ()))"
| "change_validate p (Edit_Job i r d s) =
     and_then (validate_id i) (\<lambda>_. and_then (revision_number r) (\<lambda>_.
     and_then (definition_validate (jp_calendar p) (jp_zones p) d) (\<lambda>_.
     if jd_executable d \<noteq> None \<and> s \<noteq> None then invalid ''Script jobs cannot use instructions''
     else optional s markdown_validate)))"
| "change_validate p (Set_Enabled i r _) = and_then (validate_id i) (\<lambda>_. revision_number r)"
| "change_validate p (Delete_Job i r) = and_then (validate_id i) (\<lambda>_. revision_number r)"

text \<open>The number of the next revision; a peer counts in the namespace of its slot.\<close>

definition next_revision :: "jobs_db \<Rightarrow> string \<Rightarrow> int option \<Rightarrow> int result" where
  "next_revision db job expected =
     (if js_role db = ''peer'' then
        let base = js_slot db * 2 ^ 32;
            used = List.map sn_revision (filter (\<lambda>s. sn_job s = job \<and> base < sn_revision s \<and> sn_revision s < base + 2 ^ 32) (js_revisions db));
            next_one = foldl max base used + 1 in
        if base + 2 ^ 32 \<le> next_one then conflict ''This machine's job revision namespace is exhausted'' else Inr next_one
      else Inr ((case expected of None \<Rightarrow> 0 | Some r \<Rightarrow> r) + 1))"

record prepared_change =
  pc_id :: string
  pc_project :: string
  pc_expected :: "int option"
  pc_enabled :: bool
  pc_deleted :: bool
  pc_next_at :: "int option"
  pc_snapshot :: snapshot

text \<open>Everything before the transaction; the instructions it stored stay when it fails later.\<close>

definition instructions_of :: "job_ports \<Rightarrow> files \<Rightarrow> job_definition \<Rightarrow> string option \<Rightarrow> scheduled_job option \<Rightarrow> files \<times> string result" where
  "instructions_of p fs d markdown old =
     (if jd_executable d \<noteq> None then (fs, Inr [])
      else case markdown of
        Some s \<Rightarrow> (case persist_markdown (jp_sha p) fs s of Inl e \<Rightarrow> (fs, Inl e) | Inr (fs', sha) \<Rightarrow> (fs', Inr sha))
      | None \<Rightarrow>
          let sha = (case old of None \<Rightarrow> [] | Some j \<Rightarrow> sn_digest (jb_snapshot j)) in
          (fs, if sha = [] then invalid ''Switching to an agent requires instructions''
               else and_then (load_markdown (jp_sha p) fs sha) (\<lambda>_. Inr sha)))"

definition old_job :: "jobs_db \<Rightarrow> string \<Rightarrow> job_change \<Rightarrow> scheduled_job option result" where
  "old_job db project c =
     (case change_expected c of
        None \<Rightarrow> Inr None
      | Some expected \<Rightarrow> and_then (get_job db project (change_id c)) (\<lambda>old.
          if jb_revision old \<noteq> expected \<or> jb_deleted_at old \<noteq> None
          then conflict ''Job changed or was deleted; refresh its revision'' else Inr (Some old)))"

definition first_time :: "job_ports \<Rightarrow> job_definition \<Rightarrow> bool \<Rightarrow> int \<Rightarrow> int option result" where
  "first_time p d enabled now =
     (if enabled \<and> jd_execution d \<noteq> None then invalid ''One-shot commands cannot be scheduled''
      else if enabled
      then and_then (schedule_parse (jp_calendar p) (jp_zones p) (jd_cron d) (jd_timezone d)) (\<lambda>(s, z).
        and_then (next_after (jp_calendar p) z s now) (\<lambda>t. Inr (Some t)))
      else Inr None)"

definition prepare_change ::
  "job_ports \<Rightarrow> files \<Rightarrow> jobs_db \<Rightarrow> string \<Rightarrow> job_change \<Rightarrow> int \<Rightarrow> files \<times> prepared_change result" where
  "prepare_change p fs db project c now =
     (case old_job db project c of
        Inl e \<Rightarrow> (fs, Inl e)
      | Inr old \<Rightarrow>
          let d = (case change_definition c of Some d \<Rightarrow> d | None \<Rightarrow> sn_definition (jb_snapshot (the old)));
              enabled = (case change_enabled c of Some e \<Rightarrow> e | None \<Rightarrow> jb_enabled (the old)) in
          case first_time p d enabled now of
            Inl e \<Rightarrow> (fs, Inl e)
          | Inr next_at \<Rightarrow>
              let (fs', digest) = instructions_of p fs d (change_markdown c) old in
              (fs', and_then digest (\<lambda>digest. and_then (next_revision db (change_id c) (change_expected c)) (\<lambda>revision.
                Inr \<lparr>pc_id = change_id c, pc_project = project, pc_expected = change_expected c, pc_enabled = enabled,
                  pc_deleted = change_deletes c, pc_next_at = next_at,
                  pc_snapshot = \<lparr>sn_job = change_id c, sn_project = project, sn_revision = revision,
                    sn_definition = d, sn_digest = digest\<rparr>\<rparr>))))"

text \<open>The statement that changes the row of a job, and the one that inserts it.\<close>

definition update_job :: "prepared_change \<Rightarrow> int \<Rightarrow> int \<Rightarrow> jobs_db \<Rightarrow> jobs_db result" where
  "update_job c expected now db =
     (let hit = \<lambda>j. jb_project j = pc_project c \<and> jb_id j = pc_id c \<and> jb_revision j = expected \<and> jb_deleted_at j = None in
      if length (filter hit (js_jobs db)) \<noteq> 1 then conflict ''Job changed or was deleted; refresh its revision''
      else Inr (db\<lparr>js_jobs := List.map (\<lambda>j. if hit j then j\<lparr>jb_revision := sn_revision (pc_snapshot c), jb_enabled := pc_enabled c,
        jb_deleted_at := if pc_deleted c then Some now else None, jb_schedule_from := now, jb_next_at := pc_next_at c,
        jb_snapshot := pc_snapshot c, jb_updated_at := now\<rparr> else j) (js_jobs db)\<rparr>))"

definition insert_job :: "prepared_change \<Rightarrow> int \<Rightarrow> jobs_db \<Rightarrow> jobs_db result" where
  \<comment> \<open>the revision of a new row is written as one\<close>
  "insert_job c now db =
     (if pc_id c \<in> jb_id ` set (js_jobs db) then conflict ''Job ID already exists''
      else Inr (db\<lparr>js_jobs := js_jobs db @ [\<lparr>jb_id = pc_id c, jb_project = pc_project c, jb_revision = 1,
        jb_enabled = pc_enabled c, jb_deleted_at = None, jb_schedule_from = now, jb_next_at = pc_next_at c,
        jb_snapshot = pc_snapshot c, jb_created_at = now, jb_updated_at = now\<rparr>]\<rparr>))"

definition commit_change ::
  "jobs_db \<Rightarrow> string \<Rightarrow> string \<Rightarrow> string \<Rightarrow> prepared_change \<Rightarrow> int \<Rightarrow> (jobs_db \<times> scheduled_job) result" where
  "commit_change db actor key fingerprint c now =
     and_then (find_receipt db (pc_project c) actor key fingerprint) (\<lambda>saved.
     case saved of
       Some response \<Rightarrow> Inr (db, response)
     | None \<Rightarrow>
         and_then (case pc_expected c of Some r \<Rightarrow> update_job c r now db | None \<Rightarrow> insert_job c now db) (\<lambda>db.
         if \<exists>s \<in> set (js_revisions db). sn_job s = pc_id c \<and> sn_revision s = sn_revision (pc_snapshot c)
         then failure ''sqlite'' ''UNIQUE constraint failed: scheduled_job_revisions''
         else
           let db = db\<lparr>js_revisions := js_revisions db @ [pc_snapshot c],
                 js_agents := if actor \<in> set (js_agents db) then js_agents db else js_agents db @ [actor]\<rparr> in
           and_then (get_job db (pc_project c) (pc_id c)) (\<lambda>job.
           Inr (db\<lparr>js_receipts := js_receipts db @ [\<lparr>rq_project = pc_project c, rq_actor = actor, rq_key = key,
             rq_fingerprint = fingerprint, rq_response = job\<rparr>]\<rparr>, job))))"

text \<open>A request for a change, from its validation to the answer.\<close>

definition change_job ::
  "job_ports \<Rightarrow> files \<Rightarrow> jobs_db \<Rightarrow> string \<Rightarrow> string \<Rightarrow> string option \<Rightarrow> job_change \<Rightarrow> int \<Rightarrow> files \<times> (jobs_db \<times> scheduled_job) result" where
  "change_job p fs db project actor key c now =
     (case and_then (change_validate p c) (\<lambda>_. and_then (job_authority db) (\<lambda>_.
        case key of
          None \<Rightarrow> invalid ''Job mutations require a stable request_id; retry the identical request after an uncertain response''
        | Some k \<Rightarrow> and_then (find_receipt db project actor k (jp_sha p (jp_encode p c))) (\<lambda>saved. Inr (k, saved)))) of
        Inl e \<Rightarrow> (fs, Inl e)
      | Inr (k, Some response) \<Rightarrow> (fs, Inr (db, response))
      | Inr (k, None) \<Rightarrow>
          let (fs', prepared) = prepare_change p fs db project c now in
          (fs', and_then prepared (\<lambda>q. commit_change db actor k (jp_sha p (jp_encode p c)) q now)))"

section \<open>Events\<close>

definition reason_code :: "string \<Rightarrow> string option" where
  "reason_code text =
     (let has = \<lambda>p. contains_text p (to_ascii_lowercase text) in
      if has ''no space left on device'' \<or> has ''enospc'' \<or> has ''disk full'' then Some ''disk_full''
      else if has ''disk quota exceeded'' \<or> has ''edquot'' then Some ''disk_quota''
      else if has ''rate limit'' \<or> has ''rate_limit'' \<or> has ''quota exhausted'' then Some ''rate_limited''
      else if has ''timed out'' \<or> has ''timeout'' then Some ''timeout''
      else if has ''connection refused'' \<or> has ''connection reset'' \<or> has ''network is unreachable'' then Some ''connection_failed''
      else None)"

text \<open>The event of a run in its present state; a missing time would be a panic.\<close>

definition event_kind :: "run_state \<Rightarrow> string" where
  "event_kind st = (case st of Pending \<Rightarrow> ''job.queued'' | Running \<Rightarrow> ''job.started'' | Skipped \<Rightarrow> ''job.skipped''
     | _ \<Rightarrow> ''job.finished'')"

definition event_moment :: "job_run \<Rightarrow> int option" where
  "event_moment r = (case rn_state r of Pending \<Rightarrow> Some (rn_created_at r) | Running \<Rightarrow> rn_started_at r | _ \<Rightarrow> rn_finished_at r)"

definition event_of_run :: "job_run \<Rightarrow> int \<Rightarrow> job_event" where
  "event_of_run r t = \<lparr>ev_kind = event_kind (rn_state r), ev_time = t, ev_project = sn_project (rn_snapshot r),
     ev_subject = rn_id r, ev_job = sn_job (rn_snapshot r), ev_revision = sn_revision (rn_snapshot r),
     ev_state = rn_state r, ev_machine = rn_machine r, ev_session = rn_session r, ev_parent = rn_parent r,
     ev_target = rn_target r, ev_scheduled_at = rn_scheduled_at r, ev_trigger = rn_trigger r,
     ev_error = (case rn_reason r of None \<Rightarrow> None | Some e \<Rightarrow> reason_code e)\<rparr>"

definition announce :: "job_run \<Rightarrow> jobs_db \<Rightarrow> jobs_db result" where
  "announce r db =
     (case event_moment r of
        None \<Rightarrow> failure ''panic'' ''called Option::unwrap() on a None value''
      | Some t \<Rightarrow>
          let e = event_of_run r t in
          case find (\<lambda>f. ev_kind f = ev_kind e \<and> ev_subject f = ev_subject e) (js_events db) of
            Some f \<Rightarrow> if f = e then Inr db else conflict ''An event ID was reused with different contents''
          | None \<Rightarrow> Inr (db\<lparr>js_events := js_events db @ [e]\<rparr>))"

section \<open>Occurrences and runs\<close>

record occurrence =
  oc_snapshot :: snapshot
  oc_scheduled_at :: int
  oc_observed_at :: int
  oc_expected_next :: "int option"
  oc_next_at :: "int option"
  oc_request_key :: "string option"

definition due_occurrence :: "job_ports \<Rightarrow> int \<Rightarrow> scheduled_job \<Rightarrow> occurrence result" where
  "due_occurrence p now j =
     (let d = sn_definition (jb_snapshot j) in
      and_then (schedule_parse (jp_calendar p) (jp_zones p) (jd_cron d) (jd_timezone d)) (\<lambda>(s, z).
      and_then (latest (jp_calendar p) z s (the (jb_next_at j) - 1) now) (\<lambda>found.
      case found of
        None \<Rightarrow> invalid ''Due cursor has no occurrence''
      | Some t \<Rightarrow> and_then (next_after (jp_calendar p) z s now) (\<lambda>next_at.
          Inr \<lparr>oc_snapshot = jb_snapshot j, oc_scheduled_at = t, oc_observed_at = now, oc_expected_next = jb_next_at j,
            oc_next_at = Some next_at, oc_request_key = None\<rparr>))))"

definition due_rows :: "jobs_db \<Rightarrow> int \<Rightarrow> nat \<Rightarrow> scheduled_job list" where
  "due_rows db now limit =
     take limit (sort_key (\<lambda>j. (the (jb_next_at j), jb_id j))
       (filter (\<lambda>j. jb_enabled j \<and> jb_deleted_at j = None \<and> jb_next_at j \<noteq> None \<and> the (jb_next_at j) \<le> now) (js_jobs db)))"

definition due_jobs :: "job_ports \<Rightarrow> jobs_db \<Rightarrow> int \<Rightarrow> nat \<Rightarrow> occurrence list result" where
  "due_jobs p db now limit =
     and_then (job_authority db) (\<lambda>_. and_then (page_limit limit) (\<lambda>_.
     fold_result (\<lambda>j os. and_then (due_occurrence p now j) (\<lambda>oc. Inr (os @ [oc]))) (due_rows db now limit) []))"

definition manual_run :: "jobs_db \<Rightarrow> string \<Rightarrow> string \<Rightarrow> job_run option" where
  "manual_run db job key =
     find (\<lambda>r. sn_job (rn_snapshot r) = job \<and> rn_request_key r = Some key \<and> rn_trigger r = Manual \<and> rn_parent r = None) (js_runs db)"

definition scheduled_run :: "jobs_db \<Rightarrow> string \<Rightarrow> int \<Rightarrow> job_run option" where
  "scheduled_run db job t =
     find (\<lambda>r. sn_job (rn_snapshot r) = job \<and> rn_scheduled_at r = t \<and> rn_trigger r = Scheduled \<and> rn_parent r = None) (js_runs db)"

definition existing_run :: "jobs_db \<Rightarrow> occurrence \<Rightarrow> job_run option" where
  "existing_run db oc =
     (case oc_request_key oc of
        Some key \<Rightarrow> manual_run db (sn_job (oc_snapshot oc)) key
      | None \<Rightarrow> scheduled_run db (sn_job (oc_snapshot oc)) (oc_scheduled_at oc))"

definition manual_job :: "jobs_db \<Rightarrow> string \<Rightarrow> string \<Rightarrow> string \<Rightarrow> int \<Rightarrow> occurrence result" where
  "manual_job db project job key now =
     and_then (job_authority db) (\<lambda>_. and_then (check_identifier key ''Run now request key'' 256) (\<lambda>_.
     and_then (get_job db project job) (\<lambda>j.
     and_then
       (case manual_run db job key of
          Some saved \<Rightarrow> Inr (rn_snapshot saved)
        | None \<Rightarrow> if jb_deleted_at j \<noteq> None then conflict ''Job was deleted'' else Inr (jb_snapshot j)) (\<lambda>s.
     Inr \<lparr>oc_snapshot = s, oc_scheduled_at = now, oc_observed_at = now, oc_expected_next = None, oc_next_at = None,
       oc_request_key = Some key\<rparr>))))"

definition job_instructions :: "job_ports \<Rightarrow> files \<Rightarrow> snapshot \<Rightarrow> string result" where
  "job_instructions p fs s =
     (if jd_executable (sn_definition s) \<noteq> None then Inr [] else load_markdown (jp_sha p) fs (sn_digest s))"

text \<open>The unique constraints of the table of runs, for a row to insert beside another.\<close>

definition runs_clash :: "job_run \<Rightarrow> job_run \<Rightarrow> bool" where
  "runs_clash r q \<longleftrightarrow>
     rn_id r = rn_id q \<or>
     (rn_parent r = None \<and> rn_parent q = None \<and> sn_job (rn_snapshot r) = sn_job (rn_snapshot q) \<and>
        (rn_trigger r = Scheduled \<and> rn_trigger q = Scheduled \<and> rn_scheduled_at r = rn_scheduled_at q \<or>
         rn_trigger r = Manual \<and> rn_trigger q = Manual \<and> rn_request_key r = rn_request_key q \<or>
         run_active r \<and> run_active q)) \<or>
     (rn_parent r \<noteq> None \<and> rn_parent r = rn_parent q \<and> rn_target r = rn_target q)"

definition insert_run :: "job_run \<Rightarrow> jobs_db \<Rightarrow> jobs_db result" where
  "insert_run r db =
     (if list_ex (runs_clash r) (js_runs db) then failure ''sqlite'' ''UNIQUE constraint failed: scheduled_job_runs''
      else Inr (db\<lparr>js_runs := js_runs db @ [r\<lparr>rn_sequence := js_sequence db + 1\<rparr>], js_sequence := js_sequence db + 1\<rparr>))"

definition new_owner :: "string \<Rightarrow> run_owner" where
  "new_owner run = \<lparr>ow_run = run, ow_node = None, ow_generation = 1, ow_revoking = False, ow_stop = False\<rparr>"

definition new_run :: "string \<Rightarrow> occurrence \<Rightarrow> bool \<Rightarrow> job_run" where
  "new_run run oc overlapping =
     \<lparr>rn_sequence = 0, rn_id = run, rn_snapshot = oc_snapshot oc, rn_scheduled_at = oc_scheduled_at oc,
      rn_trigger = (if oc_request_key oc = None then Scheduled else Manual), rn_request_key = oc_request_key oc,
      rn_state = (if overlapping then Skipped else Pending), rn_reason = (if overlapping then Some ''overlap'' else None),
      rn_worker = None, rn_parent = None, rn_target = None, rn_machine = None, rn_session = None,
      rn_created_at = oc_observed_at oc, rn_started_at = None,
      rn_finished_at = (if overlapping then Some (oc_observed_at oc) else None)\<rparr>"

definition enqueue_job :: "job_ports \<Rightarrow> files \<Rightarrow> string \<Rightarrow> occurrence \<Rightarrow> jobs_db \<Rightarrow> (jobs_db \<times> job_run) result" where
  "enqueue_job p fs run oc db =
     and_then (job_authority db) (\<lambda>_.
     case existing_run db oc of
       Some saved \<Rightarrow> Inr (db, saved)
     | None \<Rightarrow>
         and_then (job_instructions p fs (oc_snapshot oc)) (\<lambda>_.
         and_then (get_job db (sn_project (oc_snapshot oc)) (sn_job (oc_snapshot oc))) (\<lambda>j.
         if jb_deleted_at j \<noteq> None \<or> jb_snapshot j \<noteq> oc_snapshot oc \<or>
            (oc_request_key oc = None \<and> (\<not> jb_enabled j \<or> jb_next_at j \<noteq> oc_expected_next oc))
         then conflict ''Job changed after the occurrence was prepared''
         else
           let overlapping = list_ex (\<lambda>r. sn_job (rn_snapshot r) = sn_job (oc_snapshot oc) \<and> run_active r) (js_runs db) in
           and_then (insert_run (new_run run oc overlapping) db) (\<lambda>db.
           let db = (if overlapping then db else db\<lparr>js_owners := js_owners db @ [new_owner run]\<rparr>);
               db = (if oc_request_key oc = None
                     then db\<lparr>js_jobs := List.map (\<lambda>j. if jb_id j = sn_job (oc_snapshot oc) then j\<lparr>jb_next_at := oc_next_at oc\<rparr> else j) (js_jobs db)\<rparr>
                     else db) in
           and_then (get_run db run) (\<lambda>r. and_then (announce r db) (\<lambda>db. Inr (db, r)))))))"

end
