(* ===== verification/Job_Runs.thy ===== *)
theory Job_Runs
  imports Jobs
begin

text \<open>
  The ownership and the life of runs (\<open>src/src/jobs/runner_store.rs\<close>, \<open>execution.rs\<close>): assignment to a
  machine, revocation, stopping, the reports of the machines, the runs that fan out to
  several machines, and the dispatches that are sent. Runs of the former kind that carry
  the number of an issue are not modelled: no operation makes one.
\<close>

section \<open>Statements\<close>

definition update_run :: "string \<Rightarrow> (job_run \<Rightarrow> job_run) \<Rightarrow> jobs_db \<Rightarrow> jobs_db" where
  "update_run run f db = db\<lparr>js_runs := List.map (\<lambda>r. if rn_id r = run then f r else r) (js_runs db)\<rparr>"

definition update_owner :: "string \<Rightarrow> (run_owner \<Rightarrow> run_owner) \<Rightarrow> jobs_db \<Rightarrow> jobs_db" where
  "update_owner run f db = db\<lparr>js_owners := List.map (\<lambda>w. if ow_run w = run then f w else w) (js_owners db)\<rparr>"

definition find_owner :: "jobs_db \<Rightarrow> string \<Rightarrow> run_owner option" where
  "find_owner db run = find (\<lambda>w. ow_run w = run) (js_owners db)"

definition get_owner :: "jobs_db \<Rightarrow> string \<Rightarrow> run_owner result" where
  "get_owner db run = (case find_owner db run of None \<Rightarrow> failure ''sqlite'' ''Query returned no rows'' | Some w \<Rightarrow> Inr w)"

definition children_of :: "jobs_db \<Rightarrow> string \<Rightarrow> job_run list" where
  "children_of db run = filter (\<lambda>r. rn_parent r = Some run) (js_runs db)"

section \<open>Ownership\<close>

definition active_job_runs :: "jobs_db \<Rightarrow> job_run list result" where
  "active_job_runs db = and_then (job_authority db) (\<lambda>_. Inr (filter run_active (js_runs db)))"

definition assign_job :: "string \<Rightarrow> string \<Rightarrow> string \<Rightarrow> jobs_db \<Rightarrow> (jobs_db \<times> bool) result" where
  "assign_job run node worker db =
     and_then (job_authority db) (\<lambda>_.
       let free = \<lambda>w. ow_run w = run \<and> ow_node w = None \<and> \<not> ow_stop w \<and>
             list_ex (\<lambda>r. rn_id r = run \<and> rn_state r = Pending) (js_runs db);
           changed = length (filter free (js_owners db)) = 1 in
       Inr (if changed
            then update_run run (\<lambda>r. r\<lparr>rn_worker := Some worker, rn_reason := None\<rparr>)
                   (update_owner run (\<lambda>w. if free w then w\<lparr>ow_node := Some node\<rparr> else w) db)
            else update_owner run (\<lambda>w. if free w then w\<lparr>ow_node := Some node\<rparr> else w) db, changed))"

record dispatch =
  dp_run :: job_run
  dp_node :: string
  dp_generation :: int
  dp_revoke :: bool

definition job_dispatches :: "string \<Rightarrow> jobs_db \<Rightarrow> dispatch list result" where
  "job_dispatches node db =
     and_then (job_authority db) (\<lambda>_. Inr (concat (List.map (\<lambda>r.
       List.map (\<lambda>w. \<lparr>dp_run = r, dp_node = node, dp_generation = ow_generation w, dp_revoke = ow_revoking w\<rparr>)
         (filter (\<lambda>w. ow_run w = rn_id r \<and> ow_node w = Some node) (js_owners db)))
       (filter run_active (js_runs db)))))"

definition job_owner :: "string \<Rightarrow> jobs_db \<Rightarrow> (string \<times> int \<times> bool) option" where
  "job_owner run db =
     (case find (\<lambda>w. ow_run w = run \<and> ow_node w \<noteq> None) (js_owners db) of
        None \<Rightarrow> None | Some w \<Rightarrow> Some (the (ow_node w), ow_generation w, ow_revoking w))"

definition revoke_job :: "string \<Rightarrow> string \<Rightarrow> int \<Rightarrow> jobs_db \<Rightarrow> jobs_db result" where
  "revoke_job run node generation db =
     and_then (job_authority db) (\<lambda>_.
     Inr (update_owner run (\<lambda>w. if ow_node w = Some node \<and> ow_generation w = generation then w\<lparr>ow_revoking := True\<rparr> else w) db))"

definition unavailable_job :: "string \<Rightarrow> string \<Rightarrow> jobs_db \<Rightarrow> jobs_db result" where
  "unavailable_job run reason db =
     and_then (get_run db run) (\<lambda>r.
     Inr (if rn_state r = Pending \<and> rn_reason r \<noteq> Some reason then update_run run (\<lambda>r. r\<lparr>rn_reason := Some reason\<rparr>) db else db))"

section \<open>The end of a run\<close>

definition complete_run :: "job_run \<Rightarrow> run_state \<Rightarrow> string option \<Rightarrow> int \<Rightarrow> jobs_db \<Rightarrow> jobs_db result" where
  "complete_run r st reason now db =
     (let db = update_run (rn_id r) (\<lambda>r. r\<lparr>rn_state := st, rn_reason := reason, rn_finished_at := Some now\<rparr>) db in
      and_then (get_run db (rn_id r)) (\<lambda>r. announce r db))"

text \<open>Whether a group of runs is finished, and how: a failed child, then a cancelled one, decide.\<close>

definition group_state :: "bool \<Rightarrow> job_run list \<Rightarrow> run_state" where
  "group_state stopped rs =
     (if stopped then Cancelled
      else if list_ex (\<lambda>r. rn_state r = Failed) rs then Failed
      else if list_ex (\<lambda>r. rn_state r = Cancelled) rs then Cancelled else Succeeded)"

definition least_of :: "int option list \<Rightarrow> int option" where
  "least_of ts = foldr (\<lambda>t m. case (t, m) of (None, m) \<Rightarrow> m | (Some t, None) \<Rightarrow> Some t | (Some t, Some m) \<Rightarrow> Some (min t m)) ts None"

definition greatest_of :: "int option list \<Rightarrow> int option" where
  "greatest_of ts = foldr (\<lambda>t m. case (t, m) of (None, m) \<Rightarrow> m | (Some t, None) \<Rightarrow> Some t | (Some t, Some m) \<Rightarrow> Some (max t m)) ts None"

definition group_root :: "job_run \<Rightarrow> bool" where
  "group_root r \<longleftrightarrow> rn_parent r = None \<and> run_active r \<and> fans_out (sn_definition (rn_snapshot r))"

definition group_reason :: "job_run list \<Rightarrow> string" where
  "group_reason rs = show_nat (length (filter (\<lambda>r. \<not> run_active r) rs)) @ '' of '' @ show_nat (length rs) @ '' machines finished''"

definition reconcile_group :: "string \<Rightarrow> jobs_db \<Rightarrow> jobs_db result" where
  "reconcile_group root db =
     and_then (get_run db root) (\<lambda>previous.
       let children = children_of db root; started = least_of (List.map rn_started_at children) in
       if children = [] then Inr db
       else
         and_then
           (if list_all (\<lambda>r. \<not> run_active r) children then
              and_then (get_owner db root) (\<lambda>w.
              case greatest_of (List.map rn_finished_at children) of
                None \<Rightarrow> failure ''panic'' ''called Option::unwrap() on a None value''
              | Some t \<Rightarrow> Inr (update_run root (\<lambda>r. r\<lparr>rn_state := group_state (ow_stop w) children,
                  rn_reason := Some (group_reason children), rn_started_at := started, rn_finished_at := Some t\<rparr>) db))
            else Inr (update_run root (\<lambda>r. r\<lparr>rn_state := if started \<noteq> None then Running else Pending,
                  rn_reason := Some (group_reason children), rn_started_at := started\<rparr>) db)) (\<lambda>db.
         and_then (get_run db root) (\<lambda>current.
         if rn_state previous \<noteq> rn_state current then announce current db else Inr db)))"

definition reconcile_job_groups :: "jobs_db \<Rightarrow> jobs_db result" where
  "reconcile_job_groups db =
     and_then (job_authority db) (\<lambda>_. fold_result reconcile_group (List.map rn_id (filter group_root (js_runs db))) db)"

section \<open>Stopping\<close>

definition stop_run :: "int \<Rightarrow> job_run \<Rightarrow> jobs_db \<Rightarrow> jobs_db result" where
  "stop_run now r db =
     (if \<not> run_active r then Inr db
      else
        let db = update_owner (rn_id r) (\<lambda>w. w\<lparr>ow_revoking := True, ow_stop := True\<rparr>) db in
        and_then (get_owner db (rn_id r)) (\<lambda>w.
        if ow_node w = None \<and> children_of db (rn_id r) = []
        then complete_run r Cancelled (Some ''Stopped before dispatch'') now db else Inr db))"

definition stop_runs :: "string \<Rightarrow> string \<Rightarrow> string \<Rightarrow> int \<Rightarrow> jobs_db \<Rightarrow> jobs_db result" where
  "stop_runs project job run now db =
     and_then (get_run db run) (\<lambda>r.
     if sn_project (rn_snapshot r) \<noteq> project \<or> sn_job (rn_snapshot r) \<noteq> job
     then not_found ''Run does not belong to this job''
     else fold_result (stop_run now) (filter (\<lambda>r. rn_id r = run \<or> rn_parent r = Some run) (js_runs db)) db)"

text \<open>The transaction is committed before the groups are reconciled.\<close>

definition stop_scheduled_job :: "string \<Rightarrow> string \<Rightarrow> string \<Rightarrow> int \<Rightarrow> jobs_db \<Rightarrow> jobs_db \<times> unit result" where
  "stop_scheduled_job project job run now db =
     (case stop_runs project job run now db of
        Inl e \<Rightarrow> (db, Inl e)
      | Inr db \<Rightarrow> (case reconcile_job_groups db of Inl e \<Rightarrow> (db, Inl e) | Inr db \<Rightarrow> (db, Inr ())))"

section \<open>Reports\<close>

text \<open>The state of a report is text; these are the ones the code tells apart.\<close>

datatype report_state = Report_Pending | Report_Running | Report_Succeeded | Report_Failed | Report_Cancelled
  | Report_Released | Report_Other string

record log_chunk =
  lc_offset :: nat
  lc_output :: string
  lc_next :: "nat option"

record report =
  rp_run :: string
  rp_generation :: int
  rp_state :: report_state
  rp_session :: "string option"
  rp_cwd :: "string option"
  rp_started_at :: "int option"
  rp_finished_at :: "int option"
  rp_reason :: "string option"
  rp_log :: "log_chunk option"
  rp_result :: "json option"

definition report_pending :: "dispatch \<Rightarrow> report" where
  "report_pending d = \<lparr>rp_run = rn_id (dp_run d), rp_generation = dp_generation d, rp_state = Report_Pending,
     rp_session = None, rp_cwd = None, rp_started_at = None, rp_finished_at = None, rp_reason = None,
     rp_log = None, rp_result = None\<rparr>"

definition is_script :: "job_run \<Rightarrow> bool" where
  "is_script r \<longleftrightarrow> jd_executable (sn_definition (rn_snapshot r)) \<noteq> None"

definition earlier :: "int option \<Rightarrow> int \<Rightarrow> bool" where
  "earlier t now \<longleftrightarrow> (case t of None \<Rightarrow> False | Some t \<Rightarrow> t < now)"

definition check_report :: "run_owner \<Rightarrow> job_run \<Rightarrow> report \<Rightarrow> unit result" where
  "check_report w r p =
     (if (case rp_state p of Report_Other _ \<Rightarrow> True | Report_Pending \<Rightarrow> True | _ \<Rightarrow> False) then invalid ''Invalid execution report''
      else if rn_session r \<noteq> None \<and> rn_session r \<noteq> rp_session p then conflict ''Job session cannot change''
      else if rp_state p = Report_Released \<and>
        (\<not> ow_revoking w \<or> rp_started_at p \<noteq> None \<or> rp_session p \<noteq> None \<or> rn_started_at r \<noteq> None)
      then conflict ''Only a revoked, unsubmitted job may release ownership''
      else if (rp_state p = Report_Running \<or> rp_state p = Report_Succeeded) \<and>
        (rp_started_at p = None \<or> (\<not> is_script r \<and> (rp_session p = None \<or> rp_session p = Some [])))
      then invalid ''Running job requires its exact session and start timestamp''
      else if earlier (rp_started_at p) (rn_created_at r) \<or>
        earlier (rp_finished_at p) (case rp_started_at p of Some t \<Rightarrow> t | None \<Rightarrow> rn_created_at r)
      then invalid ''Invalid execution timestamps''
      else if rp_state p \<noteq> Report_Running \<and> rp_finished_at p = None then invalid ''Terminal report requires a stop timestamp''
      else Inr ())"

definition final_state :: "bool \<Rightarrow> report_state \<Rightarrow> run_state" where
  "final_state stopped st = (if stopped then Cancelled else case st of
     Report_Succeeded \<Rightarrow> Succeeded | Report_Failed \<Rightarrow> Failed | _ \<Rightarrow> Cancelled)"

text \<open>The first report of a start is recorded with the agent of its session.\<close>

definition started_row :: "string \<Rightarrow> report \<Rightarrow> job_run \<Rightarrow> job_run" where
  "started_row node p r = r\<lparr>rn_state := Running, rn_machine := Some node, rn_session := rp_session p,
     rn_started_at := rp_started_at p, rn_reason := None\<rparr>"

definition register_session :: "job_run \<Rightarrow> report \<Rightarrow> jobs_db \<Rightarrow> jobs_db" where
  "register_session r p db =
     (case rp_session p of
        None \<Rightarrow> db
      | Some s \<Rightarrow> let actor = jd_harness (sn_definition (rn_snapshot r)) @ '':'' @ s in
          if actor \<in> set (js_agents db) then db else db\<lparr>js_agents := js_agents db @ [actor]\<rparr>)"

definition record_start :: "string \<Rightarrow> report \<Rightarrow> job_run \<Rightarrow> jobs_db \<Rightarrow> (jobs_db \<times> job_run) result" where
  "record_start node p r db =
     (if rn_started_at r = None \<and> rp_started_at p \<noteq> None then
        let db = register_session r p (update_run (rn_id r) (started_row node p) db) in
        and_then (get_run db (rn_id r)) (\<lambda>r. and_then (announce r db) (\<lambda>db. Inr (db, r)))
      else Inr (db, r))"

definition char_count :: "string \<Rightarrow> nat" where
  \<comment> \<open>SQL's length of a text: its characters before the first zero\<close>
  "char_count s = length (filter (\<lambda>c. \<not> continuation c) (takeWhile (\<lambda>c. c \<noteq> CHR 0x00) s))"

definition put_log :: "string \<Rightarrow> log_chunk \<Rightarrow> jobs_db \<Rightarrow> jobs_db" where
  \<comment> \<open>a page is replaced by a page that is not shorter\<close>
  "put_log run c db =
     (let page = \<lparr>lg_run = run, lg_offset = lc_offset c, lg_output = lc_output c, lg_next = lc_next c\<rparr>;
          same = \<lambda>g. lg_run g = run \<and> lg_offset g = lc_offset c in
      if list_ex same (js_logs db)
      then db\<lparr>js_logs := List.map (\<lambda>g. if same g \<and> char_count (lg_output g) \<le> char_count (lc_output c) then page else g) (js_logs db)\<rparr>
      else db\<lparr>js_logs := js_logs db @ [page]\<rparr>)"

definition put_result :: "string \<Rightarrow> json \<Rightarrow> jobs_db \<Rightarrow> jobs_db" where
  "put_result run v db = db\<lparr>js_results := (run, v) # filter (\<lambda>(k, _). k \<noteq> run) (js_results db)\<rparr>"

text \<open>The page of a log that a report carries, and whether more pages follow.\<close>

definition take_log :: "report \<Rightarrow> job_run \<Rightarrow> jobs_db \<Rightarrow> (jobs_db \<times> bool) result" where
  "take_log p r db =
     (case rp_log p of
        None \<Rightarrow> Inr (db, False)
      | Some c \<Rightarrow> if \<not> is_script r then invalid ''Unexpected script log'' else Inr (put_log (rn_id r) c db, lc_next c \<noteq> None))"

definition keep_result :: "report \<Rightarrow> job_run \<Rightarrow> jobs_db \<Rightarrow> jobs_db" where
  "keep_result p r db = (case rp_result p of None \<Rightarrow> db | Some v \<Rightarrow> put_result (rn_id r) v db)"

definition accept_running :: "string \<Rightarrow> bool \<Rightarrow> report \<Rightarrow> job_run \<Rightarrow> jobs_db \<Rightarrow> jobs_db result" where
  "accept_running node stopped p r db =
     and_then (record_start node p r db) (\<lambda>(db, r).
     and_then (take_log p r db) (\<lambda>(db, continued).
     if continued \<or> rp_state p = Report_Running then Inr db
     else complete_run r (final_state stopped (rp_state p)) (rp_reason p) (the (rp_finished_at p)) (keep_result p r db)))"

definition accept_job_report :: "string \<Rightarrow> report \<Rightarrow> jobs_db \<Rightarrow> (jobs_db \<times> bool) result" where
  "accept_job_report node p db =
     and_then (job_authority db) (\<lambda>_.
     case find (\<lambda>w. ow_run w = rp_run p \<and> ow_node w = Some node \<and> ow_generation w = rp_generation p) (js_owners db) of
       None \<Rightarrow> Inr (db, False)
     | Some w \<Rightarrow>
         and_then (get_run db (rp_run p)) (\<lambda>r.
         if \<not> run_active r then Inr (db, True)
         else if rp_state p = Report_Pending then
           Inr (if rn_reason r \<noteq> rp_reason p \<and> rp_reason p \<noteq> None
                then update_run (rn_id r) (\<lambda>r. r\<lparr>rn_reason := rp_reason p\<rparr>) db else db, True)
         else and_then (check_report w r p) (\<lambda>_.
           if rp_state p = Report_Released \<and> \<not> ow_stop w then
             Inr (update_owner (rp_run p) (\<lambda>w. w\<lparr>ow_node := None, ow_generation := ow_generation w + 1, ow_revoking := False\<rparr>) db, True)
           else and_then (accept_running node (ow_stop w) p r db) (\<lambda>db. Inr (db, True)))))"

section \<open>Several machines\<close>

definition child_run :: "job_run \<Rightarrow> string \<Rightarrow> string \<Rightarrow> job_run" where
  "child_run r child node = r\<lparr>rn_id := child, rn_state := Pending, rn_reason := None, rn_worker := None,
     rn_parent := Some (rn_id r), rn_target := Some node, rn_machine := None, rn_session := None,
     rn_started_at := None, rn_finished_at := None\<rparr>"

definition expand_machine :: "job_run \<Rightarrow> string \<times> string \<Rightarrow> jobs_db \<Rightarrow> jobs_db result" where
  \<comment> \<open>a row that clashes is ignored\<close>
  "expand_machine r = (\<lambda>(node, child) db.
     and_then (check_identifier node ''machine node ID'' 128) (\<lambda>_.
     case insert_run (child_run r child node) db of
       Inl e \<Rightarrow> Inr (if find_run db child \<noteq> None \<and> find_owner db child = None
                      then db\<lparr>js_owners := js_owners db @ [new_owner child]\<rparr> else db)
     | Inr db \<Rightarrow>
         let db = (if find_owner db child = None then db\<lparr>js_owners := js_owners db @ [new_owner child]\<rparr> else db) in
         and_then (get_run db child) (\<lambda>r. announce r db)))"

definition expand_job_machines :: "string \<Rightarrow> (string \<times> string) list \<Rightarrow> jobs_db \<Rightarrow> jobs_db result" where
  \<comment> \<open>each machine with the fresh identifier of its run\<close>
  "expand_job_machines run nodes db =
     and_then (job_authority db) (\<lambda>_. and_then (get_run db run) (\<lambda>r.
     if rn_parent r \<noteq> None \<or> \<not> fans_out (sn_definition (rn_snapshot r)) \<or> rn_state r \<noteq> Pending then Inr db
     else if children_of db run \<noteq> [] \<or> nodes = [] then Inr db
     else and_then (get_owner db run) (\<lambda>w. if ow_stop w then Inr db else fold_result (expand_machine r) nodes db)))"

end
