(* ===== verification/Job_Store.thy ===== *)
theory Job_Store
  imports Job_Runs
begin

text \<open>
  The invariant of the store of jobs and its preservation by every operation: the unique
  constraints, the ownership of active runs, the groups of a run that fans out, and the
  log of events. Runs only move forward, and a finished run never changes.
\<close>

section \<open>Replacing a row\<close>

definition set_run :: "job_run \<Rightarrow> job_run \<Rightarrow> jobs_db \<Rightarrow> jobs_db" where
  "set_run r q db = db\<lparr>js_runs := List.map (\<lambda>x. if x = r then q else x) (js_runs db)\<rparr>"

lemma same_id: "distinct (List.map f xs) \<Longrightarrow> x \<in> set xs \<Longrightarrow> y \<in> set xs \<Longrightarrow> f x = f y \<Longrightarrow> x = y"
  by (meson distinct_map inj_onD)

lemma find_unique:
  assumes "distinct (List.map f xs)" and "x \<in> set xs"
  shows "find (\<lambda>y. f y = f x) xs = Some x"
proof (cases "find (\<lambda>y. f y = f x) xs")
  case None
  then show ?thesis using assms(2) by (auto simp: find_None_iff)
next
  case (Some y)
  then have "y \<in> set xs" "f y = f x" by (auto dest: find_SomeD)
  with assms Some show ?thesis by (metis same_id)
qed

lemma find_run_iff:
  "distinct (List.map rn_id (js_runs db)) \<Longrightarrow> find_run db i = Some r \<longleftrightarrow> r \<in> set (js_runs db) \<and> rn_id r = i"
  unfolding find_run_def
proof
  show "find (\<lambda>r. rn_id r = i) (js_runs db) = Some r \<Longrightarrow> r \<in> set (js_runs db) \<and> rn_id r = i"
    by (rule find_SomeD)
qed (auto dest: find_unique)

lemma get_run_iff:
  "distinct (List.map rn_id (js_runs db)) \<Longrightarrow> get_run db i = Inr r \<longleftrightarrow> r \<in> set (js_runs db) \<and> rn_id r = i"
  by (simp add: get_run_def find_run_iff [symmetric] split: option.splits)

lemma update_run_set:
  assumes "distinct (List.map rn_id (js_runs db))" and "r \<in> set (js_runs db)"
  shows "update_run (rn_id r) f db = set_run r (f r) db"
proof -
  have "(if rn_id x = rn_id r then f x else x) = (if x = r then f r else x)" if "x \<in> set (js_runs db)" for x
    using same_id [OF assms(1) that assms(2)] by auto
  then show ?thesis by (simp add: update_run_def set_run_def)
qed

lemma set_run_runs: "r \<in> set (js_runs db) \<Longrightarrow> set (js_runs (set_run r q db)) = insert q (set (js_runs db) - {r})"
  by (auto simp: set_run_def)

lemma set_run_ids: "rn_id q = rn_id r \<Longrightarrow> List.map rn_id (js_runs (set_run r q db)) = List.map rn_id (js_runs db)"
  by (simp add: set_run_def)

lemma set_run_simps [simp]:
  "js_role (set_run r q db) = js_role db" "js_owners (set_run r q db) = js_owners db"
  "js_events (set_run r q db) = js_events db" "js_sequence (set_run r q db) = js_sequence db"
  by (simp_all add: set_run_def)

section \<open>Forward moves\<close>

definition times_ok :: "job_run \<Rightarrow> bool" where
  "times_ok r \<longleftrightarrow>
     (rn_state r = Pending \<longrightarrow> rn_started_at r = None \<and> rn_session r = None \<and> rn_machine r = None) \<and>
     (rn_state r = Running \<longrightarrow> rn_started_at r \<noteq> None) \<and>
     (\<not> run_active r \<longrightarrow> rn_finished_at r \<noteq> None)"

text \<open>What no operation changes of a run.\<close>

definition run_key :: "job_run \<Rightarrow> int \<times> string \<times> snapshot \<times> int \<times> trigger \<times> string option \<times> string option \<times> string option \<times> int" where
  "run_key r = (rn_sequence r, rn_id r, rn_snapshot r, rn_scheduled_at r, rn_trigger r, rn_request_key r, rn_parent r,
     rn_target r, rn_created_at r)"

definition evolves_run :: "job_run \<Rightarrow> job_run \<Rightarrow> bool" where
  "evolves_run r q \<longleftrightarrow> run_active r \<and> run_key q = run_key r \<and> rn_state q \<noteq> Skipped \<and>
     (rn_started_at r \<noteq> None \<longrightarrow> rn_started_at q \<noteq> None) \<and>
     (rn_state r = Running \<longrightarrow> rn_state q \<noteq> Pending \<and> rn_session q = rn_session r \<and> rn_machine q = rn_machine r)"

definition forward :: "job_run \<Rightarrow> job_run \<Rightarrow> bool" where
  "forward r q \<longleftrightarrow> q = r \<or> evolves_run r q"

lemma forward_refl [simp]: "forward r r"
  by (simp add: forward_def)

lemma forward_trans: "forward a b \<Longrightarrow> forward b c \<Longrightarrow> forward a c"
  unfolding forward_def evolves_run_def run_active_def by auto

lemma forward_id: "forward r q \<Longrightarrow> rn_id q = rn_id r"
  by (auto simp: forward_def evolves_run_def run_key_def)

definition runs_forward :: "jobs_db \<Rightarrow> jobs_db \<Rightarrow> bool" where
  "runs_forward db db' \<longleftrightarrow> (\<forall>r \<in> set (js_runs db). \<exists>q \<in> set (js_runs db'). forward r q)"

lemma runs_forward_refl [simp]: "runs_forward db db"
  by (auto simp: runs_forward_def intro: forward_refl)

lemma runs_forward_trans: "runs_forward a b \<Longrightarrow> runs_forward b c \<Longrightarrow> runs_forward a c"
  unfolding runs_forward_def by (meson forward_trans)

lemma runs_forward_same: "set (js_runs db) \<subseteq> set (js_runs db') \<Longrightarrow> runs_forward db db'"
  unfolding runs_forward_def using forward_refl by blast

section \<open>The invariant\<close>

definition is_group :: "job_run \<Rightarrow> bool" where
  "is_group r \<longleftrightarrow> rn_parent r = None \<and> fans_out (sn_definition (rn_snapshot r))"

definition rows_ok :: "jobs_db \<Rightarrow> bool" where
  "rows_ok db \<longleftrightarrow> distinct (List.map rn_id (js_runs db)) \<and> distinct (List.map ow_run (js_owners db)) \<and>
     (\<forall>r \<in> set (js_runs db). times_ok r) \<and>
     (\<forall>r \<in> set (js_runs db). \<forall>q \<in> set (js_runs db). r \<noteq> q \<longrightarrow> \<not> runs_clash r q)"

definition owners_ok :: "jobs_db \<Rightarrow> bool" where
  "owners_ok db \<longleftrightarrow>
     (\<forall>r \<in> set (js_runs db). run_active r \<longrightarrow> (\<exists>w \<in> set (js_owners db). ow_run w = rn_id r)) \<and>
     (\<forall>w \<in> set (js_owners db). \<exists>r \<in> set (js_runs db). rn_id r = ow_run w \<and> (is_group r \<longrightarrow> ow_node w = None))"

definition groups_ok :: "jobs_db \<Rightarrow> bool" where
  "groups_ok db \<longleftrightarrow>
     (\<forall>c \<in> set (js_runs db). \<forall>p. rn_parent c = Some p \<longrightarrow>
        (\<exists>r \<in> set (js_runs db). rn_id r = p \<and> is_group r \<and> rn_snapshot c = rn_snapshot r \<and> (run_active c \<longrightarrow> run_active r))) \<and>
     (\<forall>r \<in> set (js_runs db). is_group r \<longrightarrow> rn_state r = Running \<longrightarrow>
        (\<exists>c \<in> set (js_runs db). rn_parent c = Some (rn_id r) \<and> rn_started_at c \<noteq> None))"

text \<open>
  An event tells of a run that passed through its state: the run was queued unless it was
  skipped, ran if it started, with the machine and session of the event, and ended as the
  last event says.
\<close>

definition event_fits :: "job_event \<Rightarrow> job_run \<Rightarrow> bool" where
  "event_fits e r \<longleftrightarrow> ev_kind e = event_kind (ev_state e) \<and> ev_subject e = rn_id r \<and>
     ev_project e = sn_project (rn_snapshot r) \<and> ev_job e = sn_job (rn_snapshot r) \<and>
     ev_revision e = sn_revision (rn_snapshot r) \<and> ev_parent e = rn_parent r \<and> ev_target e = rn_target r \<and>
     ev_scheduled_at e = rn_scheduled_at r \<and> ev_trigger e = rn_trigger r \<and>
     (case ev_state e of
        Pending \<Rightarrow> rn_state r \<noteq> Skipped \<and> ev_time e = rn_created_at r
      | Running \<Rightarrow> rn_state r \<noteq> Pending \<and> rn_state r \<noteq> Skipped \<and> rn_started_at r \<noteq> None \<and>
          ev_machine e = rn_machine r \<and> ev_session e = rn_session r
      | _ \<Rightarrow> e = event_of_run r (the (rn_finished_at r)))"

definition events_ok :: "jobs_db \<Rightarrow> bool" where
  "events_ok db \<longleftrightarrow> distinct (List.map (\<lambda>e. (ev_kind e, ev_subject e)) (js_events db)) \<and>
     (\<forall>e \<in> set (js_events db). \<exists>r \<in> set (js_runs db). event_fits e r) \<and>
     (\<forall>r \<in> set (js_runs db). \<exists>e \<in> set (js_events db). ev_kind e = event_kind (rn_state r) \<and> ev_subject e = rn_id r)"

definition job_inv :: "jobs_db \<Rightarrow> bool" where
  "job_inv db \<longleftrightarrow> rows_ok db \<and> owners_ok db \<and> groups_ok db \<and> events_ok db"

lemma job_invD:
  assumes "job_inv db"
  shows "rows_ok db" "owners_ok db" "groups_ok db" "events_ok db"
    "distinct (List.map rn_id (js_runs db))" "distinct (List.map ow_run (js_owners db))"
    "r \<in> set (js_runs db) \<Longrightarrow> times_ok r"
  using assms by (auto simp: job_inv_def rows_ok_def)

lemma group_of_child:
  assumes "job_inv db" and "c \<in> set (js_runs db)" and "rn_parent c = Some p"
  shows "\<exists>r \<in> set (js_runs db). rn_id r = p \<and> is_group r \<and> rn_snapshot c = rn_snapshot r \<and> (run_active c \<longrightarrow> run_active r)"
  using assms unfolding job_inv_def groups_ok_def by blast

text \<open>A step of one row: the conditions on the groups are the only ones that need the others.\<close>

definition may_become :: "jobs_db \<Rightarrow> job_run \<Rightarrow> job_run \<Rightarrow> bool" where
  "may_become db r q \<longleftrightarrow> evolves_run r q \<and> times_ok q \<and>
     (\<not> run_active q \<longrightarrow> list_all (\<lambda>c. \<not> run_active c) (children_of db (rn_id r))) \<and>
     (is_group r \<longrightarrow> rn_state q = Running \<longrightarrow> list_ex (\<lambda>c. rn_started_at c \<noteq> None) (children_of db (rn_id r)))"

lemma evolves_facts:
  assumes "evolves_run r q"
  shows "rn_id q = rn_id r" "rn_snapshot q = rn_snapshot r" "rn_parent q = rn_parent r" "rn_target q = rn_target r"
    "run_active r" "is_group q = is_group r" "runs_clash q x \<Longrightarrow> runs_clash r x" "runs_clash x q \<Longrightarrow> runs_clash x r"
  using assms by (auto simp: evolves_run_def run_key_def is_group_def runs_clash_def)

lemma set_run_forward: "r \<in> set (js_runs db) \<Longrightarrow> evolves_run r q \<Longrightarrow> runs_forward db (set_run r q db)"
  by (auto simp: runs_forward_def set_run_runs forward_def)

lemma set_run_rows:
  assumes "rows_ok db" and "r \<in> set (js_runs db)" and "may_become db r q"
  shows "rows_ok (set_run r q db)"
proof -
  have e: "evolves_run r q" "times_ok q" using assms(3) by (auto simp: may_become_def)
  have "\<not> runs_clash a b" if ab: "a \<in> set (js_runs (set_run r q db))" "b \<in> set (js_runs (set_run r q db))" "a \<noteq> b" for a b
  proof -
    have no: "x \<in> set (js_runs db) \<Longrightarrow> y \<in> set (js_runs db) \<Longrightarrow> x \<noteq> y \<Longrightarrow> \<not> runs_clash x y" for x y
      using assms(1) by (simp add: rows_ok_def)
    consider "a = q" "b \<in> set (js_runs db)" "b \<noteq> r" | "b = q" "a \<in> set (js_runs db)" "a \<noteq> r"
      | "a \<in> set (js_runs db)" "b \<in> set (js_runs db)"
      using ab by (auto simp: set_run_runs [OF assms(2)])
    then show ?thesis
    proof cases
      case 1
      then show ?thesis using no [OF assms(2) 1(2)] evolves_facts(7) [OF e(1)] by metis
    next
      case 2
      then show ?thesis using no [OF 2(2) assms(2)] evolves_facts(8) [OF e(1)] by metis
    qed (use no ab(3) in metis)
  qed
  with assms(1) e evolves_facts(1) [OF e(1)] show ?thesis
    by (auto simp: rows_ok_def set_run_ids set_run_runs [OF assms(2)])
qed

lemma set_run_owners:
  assumes "owners_ok db" and "r \<in> set (js_runs db)" and "may_become db r q"
  shows "owners_ok (set_run r q db)"
proof -
  have e: "evolves_run r q" using assms(3) by (auto simp: may_become_def)
  note f = evolves_facts [OF e]
  have "\<exists>w \<in> set (js_owners db). ow_run w = rn_id x" if "x \<in> set (js_runs (set_run r q db))" "run_active x" for x
    using that assms(1,2) f(1,5) unfolding set_run_runs [OF assms(2)] owners_ok_def by (metis Diff_iff insert_iff)
  moreover have "\<exists>x \<in> set (js_runs (set_run r q db)). rn_id x = ow_run w \<and> (is_group x \<longrightarrow> ow_node w = None)"
    if w: "w \<in> set (js_owners db)" for w
  proof -
    obtain x where x: "x \<in> set (js_runs db)" "rn_id x = ow_run w" "is_group x \<longrightarrow> ow_node w = None"
      using assms(1) w by (auto simp: owners_ok_def)
    show ?thesis
    proof (cases "x = r")
      case True
      with x f(1,6) show ?thesis unfolding set_run_runs [OF assms(2)] by (intro bexI [of _ q]) auto
    next
      case False
      with x show ?thesis unfolding set_run_runs [OF assms(2)] by (intro bexI [of _ x]) auto
    qed
  qed
  ultimately show ?thesis by (simp add: owners_ok_def)
qed

lemma in_children: "c \<in> set (children_of db i) \<longleftrightarrow> c \<in> set (js_runs db) \<and> rn_parent c = Some i"
  by (auto simp: children_of_def)

lemma set_run_groups:
  assumes "rows_ok db" and "groups_ok db" and "r \<in> set (js_runs db)" and "may_become db r q"
  shows "groups_ok (set_run r q db)"
proof -
  have e: "evolves_run r q" using assms(4) by (auto simp: may_become_def)
  note f = evolves_facts [OF e]
  let ?S = "set (js_runs db)"
  have S: "set (js_runs (set_run r q db)) = insert q (?S - {r})" by (rule set_run_runs [OF assms(3)])
  have old: "\<exists>x \<in> insert q (?S - {r}). rn_id x = p \<and> is_group x \<and> rn_snapshot c = rn_snapshot x \<and> (run_active d \<longrightarrow> run_active x)"
    if c: "c \<in> ?S" "rn_parent c = Some p" and d: "run_active d \<longrightarrow> run_active c" for c d p
  proof -
    obtain x where x: "x \<in> ?S" "rn_id x = p" "is_group x" "rn_snapshot c = rn_snapshot x" "run_active c \<longrightarrow> run_active x"
      using assms(2) c by (auto simp: groups_ok_def)
    show ?thesis
    proof (cases "x = r")
      case True
      then have "run_active d \<longrightarrow> run_active q"
        using assms(4) c d x(2) by (auto simp: may_become_def list_all_iff in_children)
      with True x f(1,2,6) show ?thesis by (intro bexI [of _ q]) auto
    next
      case False
      with x d show ?thesis by (intro bexI [of _ x]) auto
    qed
  qed
  have "\<exists>x \<in> insert q (?S - {r}). rn_id x = p \<and> is_group x \<and> rn_snapshot c = rn_snapshot x \<and> (run_active c \<longrightarrow> run_active x)"
    if "c \<in> insert q (?S - {r})" "rn_parent c = Some p" for c p
  proof (cases "c = q")
    case True
    with that(2) f(2,3,5) old [OF assms(3), of p q] show ?thesis by simp
  next
    case False
    with that old [of c p c] show ?thesis by simp
  qed
  moreover have "\<exists>c \<in> insert q (?S - {r}). rn_parent c = Some (rn_id x) \<and> rn_started_at c \<noteq> None"
    if x: "x \<in> insert q (?S - {r})" "is_group x" "rn_state x = Running" for x
  proof -
    have "\<exists>c \<in> ?S. rn_parent c = Some (rn_id x) \<and> rn_started_at c \<noteq> None"
    proof (cases "x = q")
      case True
      with x f(1,6) assms(4) show ?thesis by (auto simp: may_become_def list_ex_iff in_children)
    next
      case False
      with x assms(2) show ?thesis by (auto simp: groups_ok_def)
    qed
    then obtain c where c: "c \<in> ?S" "rn_parent c = Some (rn_id x)" "rn_started_at c \<noteq> None" by blast
    show ?thesis
    proof (cases "c = r")
      case True
      with c e f(3) show ?thesis by (intro bexI [of _ q]) (auto simp: evolves_run_def)
    next
      case False
      with c show ?thesis by (intro bexI [of _ c]) auto
    qed
  qed
  ultimately show ?thesis unfolding groups_ok_def S by blast
qed

section \<open>Steps that keep or announce a state\<close>

lemma event_kinds [simp]:
  "event_kind Pending = ''job.queued''" "event_kind Running = ''job.started''" "event_kind Skipped = ''job.skipped''"
  "event_kind Succeeded = ''job.finished''" "event_kind Failed = ''job.finished''" "event_kind Cancelled = ''job.finished''"
  by (simp_all add: event_kind_def)

lemma fits_subject: "event_fits e r \<Longrightarrow> rn_id r = ev_subject e"
  by (simp add: event_fits_def)

lemma fits_forward:
  assumes "event_fits e r" and "evolves_run r q"
  shows "event_fits e q"
proof -
  have key: "run_key q = run_key r" and active: "rn_state r = Pending \<or> rn_state r = Running"
    using assms(2) by (auto simp: evolves_run_def run_active_def)
  have final: "ev_state (event_of_run r t) = rn_state r" for t by (simp add: event_of_run_def)
  show ?thesis
  proof (cases "ev_state e")
    case Pending
    with assms key show ?thesis by (simp add: event_fits_def run_key_def evolves_run_def)
  next
    case Running
    with assms key active show ?thesis by (auto simp: event_fits_def run_key_def evolves_run_def)
  qed (use assms(1) active final in \<open>auto simp: event_fits_def\<close>)
qed

lemma fits_present: "times_ok r \<Longrightarrow> event_fits (event_of_run r (the (event_moment r))) r"
  by (cases "rn_state r")
    (auto simp: event_fits_def event_of_run_def event_moment_def times_ok_def)

lemma set_run_fits:
  assumes "events_ok db" and "r \<in> set (js_runs db)" and "evolves_run r q" and "e \<in> set (js_events db)"
  shows "\<exists>x \<in> set (js_runs (set_run r q db)). event_fits e x"
proof -
  obtain x where x: "x \<in> set (js_runs db)" "event_fits e x"
    using assms(1,4) by (auto simp: events_ok_def)
  show ?thesis
  proof (cases "x = r")
    case True
    with x fits_forward [OF _ assms(3)] show ?thesis
      unfolding set_run_runs [OF assms(2)] by (intro bexI [of _ q]) auto
  next
    case False
    with x show ?thesis unfolding set_run_runs [OF assms(2)] by (intro bexI [of _ x]) auto
  qed
qed

text \<open>A change that leaves the state of the run needs no event.\<close>

lemma quiet_step:
  assumes "job_inv db" and "r \<in> set (js_runs db)" and "may_become db r q" and "rn_state q = rn_state r"
  shows "job_inv (set_run r q db) \<and> runs_forward db (set_run r q db)"
proof -
  have e: "evolves_run r q" using assms(3) by (simp add: may_become_def)
  have "\<exists>e \<in> set (js_events db). ev_kind e = event_kind (rn_state x) \<and> ev_subject e = rn_id x"
    if "x \<in> set (js_runs (set_run r q db))" for x
    using that assms(1,2,4) evolves_facts(1) [OF e]
    unfolding set_run_runs [OF assms(2)] job_inv_def events_ok_def by (metis Diff_iff insert_iff)
  then have "events_ok (set_run r q db)"
    using assms(1) set_run_fits [OF _ assms(2) e] by (simp add: job_inv_def events_ok_def)
  with assms set_run_rows set_run_owners set_run_groups set_run_forward [OF assms(2) e] show ?thesis
    by (auto simp: job_inv_def)
qed

lemma moment_exists: "times_ok q \<Longrightarrow> event_moment q \<noteq> None"
  by (cases "rn_state q") (auto simp: times_ok_def event_moment_def run_active_def)

lemma no_event_yet:
  assumes "evolves_run r q" and "rn_state q \<noteq> rn_state r" and "ev_kind e = event_kind (rn_state q)"
  shows "\<not> event_fits e r"
proof
  assume fits: "event_fits e r"
  have active: "rn_state r = Pending \<or> rn_state r = Running" using assms(1) by (auto simp: evolves_run_def run_active_def)
  have final: "ev_state (event_of_run r t) = rn_state r" for t by (simp add: event_of_run_def)
  show False
    using assms fits active final
    by (cases "ev_state e"; cases "rn_state q") (auto simp: event_fits_def evolves_run_def)
qed

text \<open>A new event about the present state of a run is added.\<close>

definition add_event :: "job_run \<Rightarrow> jobs_db \<Rightarrow> jobs_db" where
  "add_event r db = db\<lparr>js_events := js_events db @ [event_of_run r (the (event_moment r))]\<rparr>"

lemma add_event_simps [simp]:
  "js_runs (add_event r db) = js_runs db" "js_owners (add_event r db) = js_owners db" "js_role (add_event r db) = js_role db"
  by (simp_all add: add_event_def)

lemma announce_new:
  assumes "times_ok r"
    and "\<forall>e \<in> set (js_events db). ev_kind e = event_kind (rn_state r) \<longrightarrow> ev_subject e \<noteq> rn_id r"
  shows "announce r db = Inr (add_event r db)"
proof -
  obtain t where t: "event_moment r = Some t" using moment_exists [OF assms(1)] by blast
  have "find (\<lambda>f. ev_kind f = event_kind (rn_state r) \<and> ev_subject f = rn_id r) (js_events db) = None"
    using assms(2) by (auto simp: find_None_iff)
  with t show ?thesis by (simp add: announce_def add_event_def event_of_run_def Let_def)
qed

lemma add_event_ok:
  assumes "distinct (List.map (\<lambda>e. (ev_kind e, ev_subject e)) (js_events db))"
    and "\<forall>e \<in> set (js_events db). \<exists>x \<in> set (js_runs db). event_fits e x"
    and "\<forall>x \<in> set (js_runs db). x \<noteq> q \<longrightarrow> (\<exists>e \<in> set (js_events db). ev_kind e = event_kind (rn_state x) \<and> ev_subject e = rn_id x)"
    and "\<forall>e \<in> set (js_events db). ev_kind e = event_kind (rn_state q) \<longrightarrow> ev_subject e \<noteq> rn_id q"
    and "q \<in> set (js_runs db)" and "times_ok q"
  shows "events_ok (add_event q db)"
  unfolding events_ok_def
proof (intro conjI ballI)
  show "distinct (List.map (\<lambda>e. (ev_kind e, ev_subject e)) (js_events (add_event q db)))"
    using assms(1,4) by (auto simp: add_event_def event_of_run_def)
  show "\<exists>x \<in> set (js_runs (add_event q db)). event_fits e x"
    if "e \<in> set (js_events (add_event q db))" for e
    using that assms(2,5) fits_present [OF assms(6)] by (auto simp: add_event_def)
  show "\<exists>e \<in> set (js_events (add_event q db)). ev_kind e = event_kind (rn_state x) \<and> ev_subject e = rn_id x"
    if "x \<in> set (js_runs (add_event q db))" for x
    using that assms(3) by (cases "x = q") (auto simp: add_event_def event_of_run_def)
qed

lemma job_inv_parts:
  assumes "js_runs db' = js_runs db" and "js_owners db' = js_owners db"
  shows "rows_ok db' = rows_ok db" "owners_ok db' = owners_ok db" "groups_ok db' = groups_ok db"
  using assms by (simp_all add: rows_ok_def owners_ok_def groups_ok_def)

lemma job_inv_cong:
  assumes "js_runs db' = js_runs db" and "js_owners db' = js_owners db" and "js_events db' = js_events db"
  shows "job_inv db' = job_inv db"
  using assms job_inv_parts [OF assms(1,2)] by (simp add: job_inv_def events_ok_def)

lemma announced_step:
  assumes "job_inv db" and "r \<in> set (js_runs db)" and "may_become db r q" and "rn_state q \<noteq> rn_state r"
  shows "announce q (set_run r q db) = Inr (add_event q (set_run r q db))"
    and "job_inv (add_event q (set_run r q db))" and "runs_forward db (add_event q (set_run r q db))"
proof -
  have e: "evolves_run r q" "times_ok q" using assms(3) by (auto simp: may_become_def)
  note inv = job_invD [OF assms(1)]
  have q: "q \<in> set (js_runs (set_run r q db))" by (simp add: set_run_runs [OF assms(2)])
  have fresh: "\<forall>e \<in> set (js_events (set_run r q db)). ev_kind e = event_kind (rn_state q) \<longrightarrow> ev_subject e \<noteq> rn_id q"
  proof (intro ballI impI notI)
    fix e assume e': "e \<in> set (js_events (set_run r q db))" "ev_kind e = event_kind (rn_state q)" "ev_subject e = rn_id q"
    then obtain x where x: "x \<in> set (js_runs db)" "event_fits e x"
      using inv(4) by (auto simp: events_ok_def)
    then have "rn_id x = rn_id r" using fits_subject e'(3) evolves_facts(1) [OF e(1)] by simp
    then have "x = r" using same_id [OF inv(5) x(1) assms(2)] by simp
    with x(2) show False using no_event_yet [OF e(1) assms(4) e'(2)] by simp
  qed
  show "announce q (set_run r q db) = Inr (add_event q (set_run r q db))" by (rule announce_new [OF e(2) fresh])
  have "events_ok (add_event q (set_run r q db))"
  proof (rule add_event_ok [OF _ _ _ fresh q])
    show "distinct (List.map (\<lambda>e. (ev_kind e, ev_subject e)) (js_events (set_run r q db)))"
      using inv(4) by (simp add: events_ok_def)
    show "\<forall>ea \<in> set (js_events (set_run r q db)). \<exists>x \<in> set (js_runs (set_run r q db)).
        event_fits ea x"
      using set_run_fits [OF inv(4) assms(2) e(1)] by simp
    show "\<forall>x \<in> set (js_runs (set_run r q db)). x \<noteq> q \<longrightarrow>
        (\<exists>e \<in> set (js_events (set_run r q db)). ev_kind e = event_kind (rn_state x) \<and> ev_subject e = rn_id x)"
      using inv(4) by (auto simp: set_run_runs [OF assms(2)] events_ok_def)
    show "times_ok q" by (rule e(2))
  qed
  then show "job_inv (add_event q (set_run r q db))"
    using set_run_rows [OF inv(1) assms(2,3)] set_run_owners [OF inv(2) assms(2,3)] set_run_groups [OF inv(1,3) assms(2,3)]
    by (simp add: job_inv_def job_inv_parts [of "add_event q (set_run r q db)" "set_run r q db"])
  show "runs_forward db (add_event q (set_run r q db))"
    using set_run_forward [OF assms(2) e(1)] by (simp add: runs_forward_def)
qed

section \<open>Owners\<close>

lemma update_owner_simps [simp]:
  "js_runs (update_owner i f db) = js_runs db" "js_events (update_owner i f db) = js_events db"
  "js_role (update_owner i f db) = js_role db"
  by (simp_all add: update_owner_def)

lemma owner_step:
  assumes "job_inv db" and "\<And>w. ow_run (f w) = ow_run w"
    and "\<And>r w. r \<in> set (js_runs db) \<Longrightarrow> w \<in> set (js_owners db) \<Longrightarrow> rn_id r = i \<Longrightarrow> ow_run w = i \<Longrightarrow> is_group r \<Longrightarrow>
      ow_node w = None \<Longrightarrow> ow_node (f w) = None"
  shows "job_inv (update_owner i f db)"
proof -
  note inv = job_invD [OF assms(1)]
  have same: "List.map ow_run (js_owners (update_owner i f db)) = List.map ow_run (js_owners db)"
    by (simp add: update_owner_def assms(2))
  then have runs: "ow_run ` set (js_owners (update_owner i f db)) = ow_run ` set (js_owners db)"
    by (metis list.set_map)
  have "\<exists>w \<in> set (js_owners (update_owner i f db)). ow_run w = rn_id r" if "r \<in> set (js_runs db)" "run_active r" for r
    using inv(2) that runs unfolding owners_ok_def by (metis image_iff)
  moreover have "\<exists>r \<in> set (js_runs db). rn_id r = ow_run w \<and> (is_group r \<longrightarrow> ow_node w = None)"
    if w: "w \<in> set (js_owners (update_owner i f db))" for w
  proof -
    obtain v where v: "v \<in> set (js_owners db)" "w = (if ow_run v = i then f v else v)"
      using w by (auto simp: update_owner_def)
    then obtain r where r: "r \<in> set (js_runs db)" "rn_id r = ow_run v" "is_group r \<longrightarrow> ow_node v = None"
      using inv(2) by (auto simp: owners_ok_def)
    with v assms(2) assms(3) [OF r(1) v(1)] show ?thesis by (intro bexI [of _ r]) auto
  qed
  ultimately have "owners_ok (update_owner i f db)" by (simp add: owners_ok_def)
  with assms(1) same show ?thesis by (simp add: job_inv_def rows_ok_def groups_ok_def events_ok_def)
qed

section \<open>New rows\<close>

definition with_owner :: "string \<Rightarrow> jobs_db \<Rightarrow> jobs_db" where
  "with_owner i db = db\<lparr>js_owners := js_owners db @ [new_owner i]\<rparr>"

lemma with_owner_simps [simp]:
  "js_runs (with_owner i db) = js_runs db" "js_events (with_owner i db) = js_events db" "js_role (with_owner i db) = js_role db"
  "js_jobs (with_owner i db) = js_jobs db" "js_owners (with_owner i db) = js_owners db @ [new_owner i]"
  by (simp_all add: with_owner_def)

lemma runs_clash_sym: "runs_clash r q = runs_clash q r"
  by (auto simp: runs_clash_def)

lemma no_owner_yet:
  assumes "job_inv db" and "\<forall>r \<in> set (js_runs db). rn_id r \<noteq> i"
  shows "i \<notin> ow_run ` set (js_owners db)" and "find_owner db i = None"
proof -
  show no: "i \<notin> ow_run ` set (js_owners db)" using job_invD(2) [OF assms(1)] assms(2) by (auto simp: owners_ok_def)
  then show "find_owner db i = None" by (auto simp: find_owner_def find_None_iff)
qed

lemma add_owner_step:
  assumes "job_inv db" and "find_owner db i = None" and "r \<in> set (js_runs db)" and "rn_id r = i"
  shows "job_inv (with_owner i db)"
proof -
  note inv = job_invD [OF assms(1)]
  have "i \<notin> ow_run ` set (js_owners db)" using assms(2) by (auto simp: find_owner_def find_None_iff)
  moreover have "owners_ok (with_owner i db)"
    using inv(2) assms(3,4) by (auto simp: owners_ok_def new_owner_def)
  ultimately show ?thesis
    using inv by (auto simp: job_inv_def rows_ok_def groups_ok_def events_ok_def new_owner_def)
qed

text \<open>A new run, pending with its owner or skipped without, is announced at once.\<close>

lemma insert_step:
  assumes "job_inv db" and "insert_run r db = Inr db1" and "times_ok r" and "rn_state r = Pending \<or> rn_state r = Skipped"
    and "\<And>p. rn_parent r = Some p \<Longrightarrow>
      \<exists>x \<in> set (js_runs db). rn_id x = p \<and> is_group x \<and> rn_snapshot r = rn_snapshot x \<and> run_active x"
    and "db2 = (if run_active r then with_owner (rn_id r) db1 else db1)"
  shows "\<exists>q. get_run db2 (rn_id r) = Inr q \<and> announce q db2 = Inr (add_event q db2) \<and> rn_id q = rn_id r \<and>
    q = r\<lparr>rn_sequence := rn_sequence q\<rparr> \<and> set (js_runs db2) = insert q (set (js_runs db)) \<and>
    job_inv (add_event q db2) \<and> runs_forward db (add_event q db2) \<and>
    js_owners db2 = js_owners db @ (if run_active r then [new_owner (rn_id r)] else [])"
proof -
  note inv = job_invD [OF assms(1)]
  let ?q = "r\<lparr>rn_sequence := js_sequence db + 1\<rparr>"
  have db1: "db1 = db\<lparr>js_runs := js_runs db @ [?q], js_sequence := js_sequence db + 1\<rparr>"
    and clash: "\<forall>x \<in> set (js_runs db). \<not> runs_clash r x"
    using assms(2) by (auto simp: insert_run_def list_ex_iff split: if_splits)
  have runs: "js_runs db2 = js_runs db @ [?q]" and owners: "js_owners db2 = js_owners db @ (if run_active r then [new_owner (rn_id r)] else [])"
    and events: "js_events db2 = js_events db"
    by (simp_all add: assms(6) db1)
  have q: "rn_id ?q = rn_id r" "rn_state ?q = rn_state r" "run_active ?q = run_active r" "rn_parent ?q = rn_parent r"
    "rn_snapshot ?q = rn_snapshot r" "is_group ?q = is_group r" "times_ok ?q" "runs_clash ?q x = runs_clash r x" for x
    using assms(3) by (simp_all add: run_active_def is_group_def times_ok_def runs_clash_def)
  have fresh: "rn_id x \<noteq> rn_id r" if "x \<in> set (js_runs db)" for x
    using clash that by (auto simp: runs_clash_def)
  have no_owner: "rn_id r \<notin> ow_run ` set (js_owners db)" using no_owner_yet [OF assms(1)] fresh by blast
  have "rn_id r \<notin> rn_id ` set (js_runs db)" using fresh by fastforce
  then have ids: "distinct (List.map rn_id (js_runs db2))" using inv(5) by (simp add: runs)
  have rows: "rows_ok db2"
    unfolding rows_ok_def
  proof (intro conjI ballI impI)
    show "distinct (List.map ow_run (js_owners db2))" using inv(6) no_owner by (simp add: owners new_owner_def)
    show "times_ok x" if "x \<in> set (js_runs db2)" for x using that inv(7) q(7) by (auto simp: runs)
    show "\<not> runs_clash x y" if "x \<in> set (js_runs db2)" "y \<in> set (js_runs db2)" "x \<noteq> y" for x y
      using that inv(1) clash q(8) runs_clash_sym by (auto simp: runs rows_ok_def)
  qed (rule ids)
  have "owners_ok db2"
    using inv(2) q(3) by (auto simp: owners_ok_def runs owners new_owner_def)
  moreover have "groups_ok db2"
    unfolding groups_ok_def
  proof (intro conjI ballI allI impI)
    show "\<exists>x \<in> set (js_runs db2). rn_id x = p \<and> is_group x \<and> rn_snapshot c = rn_snapshot x \<and> (run_active c \<longrightarrow> run_active x)"
      if c: "c \<in> set (js_runs db2)" "rn_parent c = Some p" for c p
    proof (cases "c = ?q")
      case True
      then show ?thesis using assms(5) [of p] c(2) by (auto simp: runs)
    next
      case False
      then show ?thesis using inv(3) c by (auto simp: runs groups_ok_def)
    qed
    show "\<exists>c \<in> set (js_runs db2). rn_parent c = Some (rn_id x) \<and> rn_started_at c \<noteq> None"
      if x: "x \<in> set (js_runs db2)" "is_group x" "rn_state x = Running" for x
    proof -
      have "x \<in> set (js_runs db)" using x assms(4) by (auto simp: runs)
      then show ?thesis using inv(3) x by (auto simp: runs groups_ok_def)
    qed
  qed
  moreover have quiet: "\<forall>e \<in> set (js_events db2). ev_kind e = event_kind (rn_state ?q) \<longrightarrow> ev_subject e \<noteq> rn_id ?q"
    using inv(4) fresh fits_subject by (fastforce simp: events events_ok_def)
  moreover have "events_ok (add_event ?q db2)"
  proof (rule add_event_ok [OF _ _ _ quiet])
    show "distinct (List.map (\<lambda>e. (ev_kind e, ev_subject e)) (js_events db2))" using inv(4) by (simp add: events events_ok_def)
    show "\<forall>e \<in> set (js_events db2). \<exists>x \<in> set (js_runs db2). event_fits e x"
      using inv(4) by (auto simp: events runs events_ok_def)
    show "\<forall>x \<in> set (js_runs db2). x \<noteq> ?q \<longrightarrow> (\<exists>e \<in> set (js_events db2). ev_kind e = event_kind (rn_state x) \<and> ev_subject e = rn_id x)"
      using inv(4) by (auto simp: events runs events_ok_def)
    show "?q \<in> set (js_runs db2)" by (simp add: runs)
    show "times_ok ?q" by (rule q(7))
  qed
  ultimately have "job_inv (add_event ?q db2)"
    using rows by (simp add: job_inv_def job_inv_parts [of "add_event ?q db2" db2])
  moreover have "get_run db2 (rn_id r) = Inr ?q" using ids by (simp add: get_run_iff runs)
  moreover have "announce ?q db2 = Inr (add_event ?q db2)" by (rule announce_new [OF q(7) quiet])
  moreover have "runs_forward db (add_event ?q db2)" by (rule runs_forward_same) (auto simp: runs)
  ultimately show ?thesis using q(1) owners by (intro exI [of _ ?q]) (simp add: runs)
qed

end
