(* ===== verification/Job_Steps.thy ===== *)
theory Job_Steps
  imports Job_Store
begin

text \<open>
  Every operation on the store of jobs keeps its invariant and only moves runs forward;
  the reconciliation of groups never fails and leaves a group finished exactly when its
  machines are; the reachable states and what holds in all of them.
\<close>

section \<open>Operations on one run\<close>

definition good :: "jobs_db \<Rightarrow> jobs_db \<Rightarrow> bool" where
  "good db db' \<longleftrightarrow> job_inv db' \<and> runs_forward db db'"

lemma good_trans: "good a b \<Longrightarrow> good b c \<Longrightarrow> good a c"
  unfolding good_def using runs_forward_trans by blast

lemma good_refl: "job_inv db \<Longrightarrow> good db db"
  by (simp add: good_def)

lemma good_same:
  "job_inv db \<Longrightarrow> js_runs db' = js_runs db \<Longrightarrow> js_owners db' = js_owners db \<Longrightarrow> js_events db' = js_events db \<Longrightarrow> good db db'"
  using job_inv_cong [of db' db] by (simp add: good_def runs_forward_same)

lemma good_cong:
  "good db0 db \<Longrightarrow> js_runs db' = js_runs db \<Longrightarrow> js_owners db' = js_owners db \<Longrightarrow> js_events db' = js_events db \<Longrightarrow> good db0 db'"
  using good_trans good_same unfolding good_def by blast

lemma good_owner:
  assumes "job_inv db" and "\<And>w. ow_run (f w) = ow_run w"
    and "\<And>r w. r \<in> set (js_runs db) \<Longrightarrow> w \<in> set (js_owners db) \<Longrightarrow> rn_id r = i \<Longrightarrow> ow_run w = i \<Longrightarrow> is_group r \<Longrightarrow>
      ow_node w = None \<Longrightarrow> ow_node (f w) = None"
  shows "good db (update_owner i f db)"
proof -
  have "job_inv (update_owner i f db)" by (rule owner_step) (fact assms)+
  then show ?thesis by (simp add: good_def runs_forward_same)
qed

lemma group_started:
  assumes "job_inv db" and "r \<in> set (js_runs db)" and "is_group r" and "rn_state r = Running"
  shows "\<exists>c \<in> set (children_of db (rn_id r)). rn_started_at c \<noteq> None"
proof -
  have "\<exists>c \<in> set (js_runs db). rn_parent c = Some (rn_id r) \<and> rn_started_at c \<noteq> None"
    using assms unfolding job_inv_def groups_ok_def by blast
  then obtain c where "c \<in> set (children_of db (rn_id r))" "rn_started_at c \<noteq> None" unfolding in_children by blast
  then show ?thesis by blast
qed

lemma find_owner_iff:
  "distinct (List.map ow_run (js_owners db)) \<Longrightarrow> find_owner db i = Some w \<longleftrightarrow> w \<in> set (js_owners db) \<and> ow_run w = i"
  unfolding find_owner_def
proof
  show "find (\<lambda>w. ow_run w = i) (js_owners db) = Some w \<Longrightarrow> w \<in> set (js_owners db) \<and> ow_run w = i"
    by (rule find_SomeD)
qed (auto dest: find_unique)

lemma active_owner:
  assumes "job_inv db" and "r \<in> set (js_runs db)" and "run_active r"
  shows "\<exists>w. get_owner db (rn_id r) = Inr w \<and> w \<in> set (js_owners db) \<and> ow_run w = rn_id r"
proof -
  obtain w where "w \<in> set (js_owners db)" "ow_run w = rn_id r"
    using assms job_invD(2) [OF assms(1)] by (auto simp: owners_ok_def)
  then have "find_owner db (rn_id r) = Some w" using job_invD(6) [OF assms(1)] by (simp add: find_owner_iff)
  with \<open>w \<in> _\<close> \<open>ow_run w = _\<close> show ?thesis by (simp add: get_owner_def)
qed

lemma group_owner:
  assumes "job_inv db" and "r \<in> set (js_runs db)" and "is_group r" and "w \<in> set (js_owners db)" and "ow_run w = rn_id r"
  shows "ow_node w = None"
proof -
  obtain x where x: "x \<in> set (js_runs db)" "rn_id x = rn_id r" "is_group x \<longrightarrow> ow_node w = None"
    using job_invD(2) [OF assms(1)] assms(4,5) by (auto simp: owners_ok_def)
  then have "x = r" using same_id [OF job_invD(5) [OF assms(1)] _ assms(2)] by blast
  with x assms(3) show ?thesis by simp
qed

text \<open>A run without children becomes what the state machine allows.\<close>

lemma leaf_may_become:
  assumes "job_inv db" and "r \<in> set (js_runs db)" and "children_of db (rn_id r) = []" and "evolves_run r q" and "times_ok q"
    and "is_group r \<Longrightarrow> rn_state q \<noteq> Running"
  shows "may_become db r q"
  using assms by (auto simp: may_become_def)

lemma not_group_leaf:
  assumes "job_inv db" and "r \<in> set (js_runs db)" and "\<not> is_group r"
  shows "children_of db (rn_id r) = []"
proof (rule ccontr)
  assume "children_of db (rn_id r) \<noteq> []"
  then obtain c where "c \<in> set (children_of db (rn_id r))" by (meson list.set_sel(1))
  then have "c \<in> set (js_runs db)" "rn_parent c = Some (rn_id r)" by (simp_all add: in_children)
  then obtain x where "x \<in> set (js_runs db)" "rn_id x = rn_id r" "is_group x"
    using group_of_child [OF assms(1)] by blast
  then show False using same_id [OF job_invD(5) [OF assms(1)] _ assms(2)] assms(3) by blast
qed

definition completed :: "run_state \<Rightarrow> string option \<Rightarrow> int \<Rightarrow> job_run \<Rightarrow> job_run" where
  "completed st reason now r = r\<lparr>rn_state := st, rn_reason := reason, rn_finished_at := Some now\<rparr>"

lemma completed_evolves:
  "run_active r \<Longrightarrow> st \<in> {Succeeded, Failed, Cancelled} \<Longrightarrow> evolves_run r (completed st reason now r) \<and> times_ok (completed st reason now r)"
  by (auto simp: completed_def evolves_run_def run_key_def times_ok_def run_active_def)

lemma complete_step:
  assumes "job_inv db" and "r \<in> set (js_runs db)" and "run_active r" and "st \<in> {Succeeded, Failed, Cancelled}"
    and "list_all (\<lambda>c. \<not> run_active c) (children_of db (rn_id r))" and "rn_id r' = rn_id r"
  shows "\<exists>db'. complete_run r' st reason now db = Inr db' \<and> good db db' \<and> js_owners db' = js_owners db \<and> js_role db' = js_role db \<and>
    set (js_runs db') = insert (completed st reason now r) (set (js_runs db) - {r})"
proof -
  let ?q = "completed st reason now r"
  have e: "evolves_run r ?q" "times_ok ?q" using completed_evolves [OF assms(3,4)] by auto
  have m: "may_become db r ?q"
    using e assms(4,5) by (auto simp: may_become_def completed_def)
  have st: "rn_state ?q \<noteq> rn_state r" using assms(3,4) by (auto simp: completed_def run_active_def)
  note step = announced_step [OF assms(1,2) m st]
  have u: "update_run (rn_id r) (\<lambda>r. r\<lparr>rn_state := st, rn_reason := reason, rn_finished_at := Some now\<rparr>) db = set_run r ?q db"
    unfolding completed_def by (rule update_run_set [OF job_invD(5) [OF assms(1)] assms(2)])
  have ids: "distinct (List.map rn_id (js_runs (set_run r ?q db)))"
    using job_invD(5) [OF assms(1)] by (simp add: set_run_ids completed_def)
  have "get_run (set_run r ?q db) (rn_id r) = Inr ?q"
    using ids by (simp add: get_run_iff set_run_runs [OF assms(2)]) (simp add: completed_def)
  with u step(1) have "complete_run r' st reason now db = Inr (add_event ?q (set_run r ?q db))"
    by (simp add: complete_run_def assms(6))
  with step(2,3) show ?thesis by (simp add: good_def set_run_runs [OF assms(2)])
qed

text \<open>Changes of a run that neither start nor end it.\<close>

lemma note_step:
  assumes "job_inv db" and "r \<in> set (js_runs db)" and "run_active r"
    and "run_key (f r) = run_key r" and "rn_state (f r) = rn_state r" and "rn_started_at (f r) = rn_started_at r"
    and "rn_session (f r) = rn_session r" and "rn_machine (f r) = rn_machine r"
  shows "good db (update_run (rn_id r) f db)"
proof -
  have "is_group r \<longrightarrow> rn_state r = Running \<longrightarrow> list_ex (\<lambda>c. rn_started_at c \<noteq> None) (children_of db (rn_id r))"
    using group_started [OF assms(1,2)] by (auto simp: list_ex_iff)
  then have "may_become db r (f r)"
    using assms(3-8) job_invD(7) [OF assms(1,2)]
    by (auto simp: may_become_def evolves_run_def times_ok_def run_active_def)
  from quiet_step [OF assms(1,2) this] assms(3,5) show ?thesis
    by (simp add: good_def update_run_set [OF job_invD(5) [OF assms(1)] assms(2)])
qed

lemma assign_good:
  assumes "job_inv db" and "assign_job run node worker db = Inr (db', b)"
    and "\<forall>r \<in> set (js_runs db). rn_id r = run \<longrightarrow> \<not> is_group r"
  shows "good db db'"
proof -
  let ?free = "\<lambda>w. ow_run w = run \<and> ow_node w = None \<and> \<not> ow_stop w \<and>
    list_ex (\<lambda>r. rn_id r = run \<and> rn_state r = Pending) (js_runs db)"
  let ?f = "\<lambda>w. if ?free w then w\<lparr>ow_node := Some node\<rparr> else w"
  let ?db1 = "update_owner run ?f db"
  have 1: "good db ?db1" by (rule good_owner [OF assms(1)]) (use assms(3) in auto)
  show ?thesis
  proof (cases "length (filter ?free (js_owners db)) = 1")
    case True
    then have "filter ?free (js_owners db) \<noteq> []" by (metis list.size(3) zero_neq_one)
    then have "list_ex (\<lambda>r. rn_id r = run \<and> rn_state r = Pending) (js_runs db)" by (auto simp: filter_empty_conv)
    then obtain r where r: "r \<in> set (js_runs db)" "rn_id r = run" "rn_state r = Pending" by (auto simp: list_ex_iff)
    let ?g = "\<lambda>r. r\<lparr>rn_worker := Some worker, rn_reason := None\<rparr>"
    have "good ?db1 (update_run (rn_id r) ?g ?db1)"
      by (rule note_step) (use 1 r in \<open>auto simp: good_def run_key_def run_active_def\<close>)
    moreover have "db' = update_run (rn_id r) ?g ?db1"
      using assms(2) True r(2) by (simp add: assign_job_def Let_def)
    ultimately show ?thesis using good_trans [OF 1] by simp
  next
    case False
    then have "db' = ?db1" using assms(2) by (auto simp: assign_job_def Let_def)
    with 1 show ?thesis by simp
  qed
qed

lemma revoke_good: "job_inv db \<Longrightarrow> revoke_job run node generation db = Inr db' \<Longrightarrow> good db db'"
  by (auto simp: revoke_job_def intro!: good_owner)

lemma unavailable_good:
  assumes "job_inv db" and "unavailable_job run reason db = Inr db'"
  shows "good db db'"
proof -
  obtain r where r: "r \<in> set (js_runs db)" "rn_id r = run"
    and db': "db' = (if rn_state r = Pending \<and> rn_reason r \<noteq> Some reason
      then update_run run (\<lambda>r. r\<lparr>rn_reason := Some reason\<rparr>) db else db)"
    using assms job_invD(5) [OF assms(1)] by (auto simp: unavailable_job_def get_run_iff)
  have "good db (update_run (rn_id r) (\<lambda>r. r\<lparr>rn_reason := Some reason\<rparr>) db)" if "rn_state r = Pending"
    by (rule note_step [OF assms(1) r(1)]) (use that in \<open>auto simp: run_key_def run_active_def\<close>)
  with db' r(2) good_refl [OF assms(1)] show ?thesis by auto
qed

section \<open>Stopping\<close>

lemma stop_run_step:
  assumes "job_inv db" and "r \<in> set (js_runs db)"
  shows "\<exists>db'. stop_run now r db = Inr db' \<and> good db db' \<and> js_role db' = js_role db \<and>
    (\<forall>x \<in> set (js_runs db). x \<noteq> r \<longrightarrow> x \<in> set (js_runs db'))"
proof (cases "run_active r")
  case False
  then show ?thesis using good_refl [OF assms(1)] by (simp add: stop_run_def)
next
  case True
  let ?db1 = "update_owner (rn_id r) (\<lambda>w. w\<lparr>ow_revoking := True, ow_stop := True\<rparr>) db"
  have 1: "good db ?db1" by (rule good_owner [OF assms(1)]) auto
  have r: "r \<in> set (js_runs ?db1)" using assms(2) by simp
  obtain w where w: "get_owner ?db1 (rn_id r) = Inr w"
    using active_owner [of ?db1 r] 1 r True by (auto simp: good_def)
  show ?thesis
  proof (cases "ow_node w = None \<and> children_of ?db1 (rn_id r) = []")
    case True
    have inv1: "job_inv ?db1" using 1 by (simp add: good_def)
    obtain db' where "complete_run r Cancelled (Some ''Stopped before dispatch'') now ?db1 = Inr db'" "good ?db1 db'"
      "js_role db' = js_role ?db1" "set (js_runs db') = insert (completed Cancelled (Some ''Stopped before dispatch'') now r) (set (js_runs ?db1) - {r})"
      using complete_step [OF inv1 r \<open>run_active r\<close>, of Cancelled r "Some ''Stopped before dispatch''" now] True by auto
    with w True \<open>run_active r\<close> good_trans [OF 1] show ?thesis by (simp add: stop_run_def Let_def)
  next
    case False
    then have "stop_run now r db = Inr ?db1" using w \<open>run_active r\<close> by (auto simp: stop_run_def Let_def)
    with 1 show ?thesis by simp
  qed
qed

lemma stop_runs_step:
  "job_inv db \<Longrightarrow> distinct rs \<Longrightarrow> set rs \<subseteq> set (js_runs db) \<Longrightarrow>
   \<exists>db'. fold_result (stop_run now) rs db = Inr db' \<and> good db db' \<and> js_role db' = js_role db"
proof (induction rs arbitrary: db)
  case Nil
  then show ?case by (simp add: good_refl)
next
  case (Cons r rs)
  obtain db1 where 1: "stop_run now r db = Inr db1" "good db db1" "js_role db1 = js_role db"
    "\<forall>x \<in> set (js_runs db). x \<noteq> r \<longrightarrow> x \<in> set (js_runs db1)"
    using stop_run_step [of db r now] Cons.prems by auto
  have "set rs \<subseteq> set (js_runs db1)" using 1(4) Cons.prems(2,3) by auto
  then obtain db2 where "fold_result (stop_run now) rs db1 = Inr db2" "good db1 db2" "js_role db2 = js_role db1"
    using Cons.IH [of db1] Cons.prems 1(2) by (auto simp: good_def)
  with 1 good_trans [OF 1(2)] show ?case by auto
qed

section \<open>Groups\<close>

lemma least_of_None: "least_of ts = None \<longleftrightarrow> (\<forall>t \<in> set ts. t = None)"
  by (induction ts) (auto simp: least_of_def split: option.splits)

lemma greatest_of_None: "greatest_of ts = None \<longleftrightarrow> (\<forall>t \<in> set ts. t = None)"
  by (induction ts) (auto simp: greatest_of_def split: option.splits)

lemma group_state_final: "group_state stopped rs \<in> {Succeeded, Failed, Cancelled}"
  by (simp add: group_state_def)

lemma group_state_ended: "group_state stopped rs \<noteq> Pending" "group_state stopped rs \<noteq> Running"
    "Pending \<noteq> group_state stopped rs" "Running \<noteq> group_state stopped rs"
  by (simp_all add: group_state_def)

text \<open>What reconciling one group does.\<close>

definition reconciled :: "jobs_db \<Rightarrow> job_run \<Rightarrow> job_run \<Rightarrow> bool" where
  "reconciled db r q \<longleftrightarrow> rn_id q = rn_id r \<and> (let cs = children_of db (rn_id r) in
     if cs = [] then q = r
     else if list_all (\<lambda>c. \<not> run_active c) cs
     then (\<exists>w \<in> set (js_owners db). ow_run w = rn_id r \<and> rn_state q = group_state (ow_stop w) cs) \<and>
       rn_finished_at q = greatest_of (List.map rn_finished_at cs)
     else run_active q \<and> rn_started_at q = least_of (List.map rn_started_at cs))"

lemma announce_cong:
  assumes "announce q a = Inr (add_event q a)" and "js_events b = js_events a"
  shows "announce q b = Inr (add_event q b)"
proof -
  have "js_events (add_event q a) \<noteq> js_events a" by (simp add: add_event_def)
  then have "add_event q a \<noteq> a" by metis
  with assms show ?thesis
    by (auto simp: announce_def add_event_def Let_def split: option.splits if_splits)
qed

text \<open>The list of children is not empty.\<close>

lemma reconcile_group_step:
  assumes "job_inv db" and "r \<in> set (js_runs db)" and "is_group r" and "run_active r"
  shows "\<exists>db' q. reconcile_group (rn_id r) db = Inr db' \<and> good db db' \<and> js_role db' = js_role db \<and> js_owners db' = js_owners db \<and>
    js_runs db' = js_runs (set_run r q db) \<and> reconciled db r q \<and> forward r q"
proof (cases "children_of db (rn_id r) = []")
  case True
  have "get_run db (rn_id r) = Inr r" using assms(2) job_invD(5) [OF assms(1)] by (simp add: get_run_iff)
  with True have "reconcile_group (rn_id r) db = Inr db" by (simp add: reconcile_group_def Let_def)
  moreover have "set_run r r db = db" by (simp add: set_run_def)
  ultimately show ?thesis
    using True good_refl [OF assms(1)] by (intro exI [of _ db] exI [of _ r]) (simp add: reconciled_def)
next
  case False
  let ?cs = "children_of db (rn_id r)"
  let ?started = "least_of (List.map rn_started_at ?cs)"
  let ?all = "list_all (\<lambda>c. \<not> run_active c) ?cs"
  note inv = job_invD [OF assms(1)]
  have get: "get_run db (rn_id r) = Inr r" using assms(2) inv(5) by (simp add: get_run_iff)
  obtain w where w: "get_owner db (rn_id r) = Inr w" "w \<in> set (js_owners db)" "ow_run w = rn_id r"
    using active_owner [OF assms(1,2,4)] by blast
  have started: "?started \<noteq> None" if "rn_state r = Running"
    using group_started [OF assms(1-3) that] by (auto simp: least_of_None)
  have finished: "greatest_of (List.map rn_finished_at ?cs) \<noteq> None" if "?all"
    using that False inv(7) unfolding greatest_of_None list_all_iff times_ok_def
    by (metis (no_types, lifting) imageI in_children list.set_map list.set_sel(1))
  let ?q = "if ?all then r\<lparr>rn_state := group_state (ow_stop w) ?cs, rn_reason := Some (group_reason ?cs), rn_started_at := ?started,
      rn_finished_at := greatest_of (List.map rn_finished_at ?cs)\<rparr>
    else r\<lparr>rn_state := if ?started \<noteq> None then Running else Pending, rn_reason := Some (group_reason ?cs), rn_started_at := ?started\<rparr>"
  have fin: "rn_state ?q \<in> {Succeeded, Failed, Cancelled}" if "?all" using that group_state_final [of "ow_stop w" ?cs] by simp
  have times: "times_ok r" by (rule inv(7) [OF assms(2)])
  have act: "run_active ?q \<longleftrightarrow> \<not> ?all"
    using group_state_final [of "ow_stop w" ?cs] by (auto simp: run_active_def)
  have ev: "evolves_run r ?q"
    using assms(4) started times fin by (auto simp: evolves_run_def run_key_def run_active_def times_ok_def group_state_def)
  have tq: "times_ok ?q"
  proof (cases "?all")
    case True
    then show ?thesis using finished fin act by (auto simp: times_ok_def)
  next
    case False
    then show ?thesis using act started times assms(4) by (auto simp: times_ok_def run_active_def)
  qed
  have m: "may_become db r ?q"
    unfolding may_become_def
  proof (intro conjI impI)
    show "list_all (\<lambda>c. \<not> run_active c) ?cs" if "\<not> run_active ?q" using that act by simp
    show "list_ex (\<lambda>c. rn_started_at c \<noteq> None) ?cs" if "rn_state ?q = Running"
      using that fin by (cases "?all") (auto simp: least_of_None list_ex_iff split: if_splits)
  qed (rule ev, rule tq)
  have ids: "distinct (List.map rn_id (js_runs (set_run r ?q db)))" using inv(5) evolves_facts(1) [OF ev] by (simp only: set_run_ids)
  have get': "get_run (set_run r ?q db) (rn_id r) = Inr ?q"
    using ids evolves_facts(1) [OF ev] by (simp only: get_run_iff set_run_runs [OF assms(2)]) simp
  have run: "reconcile_group (rn_id r) db =
      (if rn_state r \<noteq> rn_state ?q then announce ?q (set_run r ?q db) else Inr (set_run r ?q db))"
  proof (cases "?all")
    case True
    then obtain t where t: "greatest_of (List.map rn_finished_at ?cs) = Some t" using finished by blast
    show ?thesis
      using True False t get get' w(1) update_run_set [OF inv(5) assms(2)] by (simp add: reconcile_group_def Let_def)
  next
    case no: False
    show ?thesis
      using no False get get' update_run_set [OF inv(5) assms(2)] by (simp add: reconcile_group_def Let_def)
  qed
  have rec: "reconciled db r ?q"
    using False w act evolves_facts(1) [OF ev] by (auto simp: reconciled_def Let_def)
  show ?thesis
  proof (cases "rn_state r = rn_state ?q")
    case True
    then show ?thesis
      using run quiet_step [OF assms(1,2) m] rec ev
      by (intro exI [of _ "set_run r ?q db"] exI [of _ ?q]) (simp add: good_def forward_def)
  next
    case no: False
    then show ?thesis
      using run announced_step [OF assms(1,2) m] rec ev
      by (intro exI [of _ "add_event ?q (set_run r ?q db)"] exI [of _ ?q]) (simp add: good_def forward_def)
  qed
qed

lemma children_set_run:
  "rn_parent r = None \<Longrightarrow> rn_parent q = None \<Longrightarrow> children_of (set_run r q db) i = children_of db i"
proof -
  assume "rn_parent r = None" and "rn_parent q = None"
  then have "filter (\<lambda>x. rn_parent x = Some i) (List.map (\<lambda>x. if x = r then q else x) xs) = filter (\<lambda>x. rn_parent x = Some i) xs" for xs
    by (induction xs) auto
  then show ?thesis by (simp add: children_of_def set_run_def)
qed

lemma children_cong: "js_runs db' = js_runs db \<Longrightarrow> children_of db' i = children_of db i"
  by (simp add: children_of_def)

lemma forward_group: "forward r q \<Longrightarrow> is_group q = is_group r"
  by (auto simp: forward_def evolves_facts(6))

definition groups_done :: "job_run set \<Rightarrow> jobs_db \<Rightarrow> jobs_db \<Rightarrow> bool" where
  "groups_done S db db' \<longleftrightarrow> good db db' \<and> js_role db' = js_role db \<and>
     js_owners db' = js_owners db \<and> (\<forall>i. children_of db' i = children_of db i) \<and>
     (\<forall>r \<in> S. \<exists>q \<in> set (js_runs db'). reconciled db r q) \<and>
     (\<forall>x \<in> set (js_runs db). x \<notin> S \<longrightarrow> x \<in> set (js_runs db')) \<and>
     rn_id ` set (js_runs db') = rn_id ` set (js_runs db)"

lemma reconcile_groups_step:
  "job_inv db \<Longrightarrow> distinct rs \<Longrightarrow> set rs \<subseteq> set (js_runs db) \<Longrightarrow> \<forall>r \<in> set rs. is_group r \<and> run_active r \<Longrightarrow>
   \<exists>db'. fold_result reconcile_group (List.map rn_id rs) db = Inr db' \<and> groups_done (set rs) db db'"
proof (induction rs arbitrary: db)
  case Nil
  then show ?case by (simp add: groups_done_def good_refl)
next
  case (Cons r rs)
  have r: "r \<in> set (js_runs db)" "is_group r" "run_active r" using Cons.prems by auto
  obtain db1 q where 1: "reconcile_group (rn_id r) db = Inr db1" "good db db1" "js_role db1 = js_role db" "js_owners db1 = js_owners db"
    and runs: "js_runs db1 = js_runs (set_run r q db)" and q: "reconciled db r q" "forward r q"
    using reconcile_group_step [OF Cons.prems(1) r] by blast
  have set1: "set (js_runs db1) = insert q (set (js_runs db) - {r})" by (simp add: runs set_run_runs [OF r(1)])
  have children: "children_of db1 i = children_of db i" for i
    using children_cong [OF runs] children_set_run [of r q db i] forward_group [OF q(2)] r(2) by (simp add: is_group_def)
  have "set rs \<subseteq> set (js_runs db1)" using Cons.prems(2,3) by (auto simp: set1)
  then obtain db2 where 2: "fold_result reconcile_group (List.map rn_id rs) db1 = Inr db2" "good db1 db2" "js_role db2 = js_role db1"
    "js_owners db2 = js_owners db1" "\<forall>i. children_of db2 i = children_of db1 i"
    "\<forall>r \<in> set rs. \<exists>q \<in> set (js_runs db2). reconciled db1 r q"
    "\<forall>x \<in> set (js_runs db1). x \<notin> set rs \<longrightarrow> x \<in> set (js_runs db2)"
    "rn_id ` set (js_runs db2) = rn_id ` set (js_runs db1)"
    using Cons.IH [of db1] Cons.prems(2,4) 1(2) by (auto simp: good_def groups_done_def)
  have "q \<notin> set rs"
  proof
    assume "q \<in> set rs"
    then have "q \<in> set (js_runs db)" "q \<noteq> r" using Cons.prems(2,3) by auto
    then show False using same_id [OF job_invD(5) [OF Cons.prems(1)] _ r(1)] forward_id [OF q(2)] by blast
  qed
  then have "q \<in> set (js_runs db2)" using 2(7) by (simp add: set1)
  moreover have "reconciled db1 x y = reconciled db x y" for x y
    using children 1(4) by (simp add: reconciled_def)
  moreover have "rn_id ` set (js_runs db1) = rn_id ` set (js_runs db)"
    using r(1) forward_id [OF q(2)] by (auto simp: set1)
  ultimately have "groups_done (set (r # rs)) db db2"
    unfolding groups_done_def using 1 2 q(1) children good_trans [OF 1(2) 2(2)] by (auto simp: set1)
  with 1(1) 2(1) show ?case by auto
qed

lemma group_root_iff: "group_root r \<longleftrightarrow> is_group r \<and> run_active r"
  by (auto simp: group_root_def is_group_def)

lemma distinct_filter_runs: "job_inv db \<Longrightarrow> distinct (filter P (js_runs db))"
  using job_invD(5) by (simp add: distinct_map)

lemma reconcile_step:
  assumes "job_inv db" and "js_role db \<noteq> ''agent''"
  shows "\<exists>db'. reconcile_job_groups db = Inr db' \<and> groups_done {r \<in> set (js_runs db). group_root r} db db'"
proof -
  let ?rs = "filter group_root (js_runs db)"
  have "\<forall>r \<in> set ?rs. is_group r \<and> run_active r" by (simp add: group_root_iff)
  note step = reconcile_groups_step [OF assms(1) distinct_filter_runs [OF assms(1)] filter_is_subset this]
  have "reconcile_job_groups db = fold_result reconcile_group (List.map rn_id ?rs) db"
    using assms(2) by (simp add: reconcile_job_groups_def job_authority_def)
  with step show ?thesis by simp
qed

section \<open>Reports\<close>

lemma put_log_simps [simp]:
  "js_runs (put_log i c db) = js_runs db" "js_owners (put_log i c db) = js_owners db" "js_events (put_log i c db) = js_events db"
  by (simp_all add: put_log_def Let_def)

lemma put_result_simps [simp]:
  "js_runs (put_result i v db) = js_runs db" "js_owners (put_result i v db) = js_owners db"
  "js_events (put_result i v db) = js_events db"
  by (simp_all add: put_result_def)

lemma register_session_simps [simp]:
  "js_runs (register_session r p db) = js_runs db" "js_owners (register_session r p db) = js_owners db"
  "js_events (register_session r p db) = js_events db"
  by (simp_all add: register_session_def Let_def split: option.splits)

lemma take_log_same:
  "take_log p r db = Inr (db', c) \<Longrightarrow> js_runs db' = js_runs db \<and> js_owners db' = js_owners db \<and> js_events db' = js_events db"
  by (auto simp: take_log_def split: option.splits if_splits)

lemma keep_result_simps [simp]:
  "js_runs (keep_result p r db) = js_runs db" "js_owners (keep_result p r db) = js_owners db"
  "js_events (keep_result p r db) = js_events db"
  by (simp_all add: keep_result_def split: option.splits)

definition started :: "string \<Rightarrow> report \<Rightarrow> job_run \<Rightarrow> job_run" where
  "started node p r = (if rn_started_at r = None \<and> rp_started_at p \<noteq> None then started_row node p r else r)"

lemma record_start_step:
  assumes "job_inv db" and "r \<in> set (js_runs db)" and "run_active r" and "\<not> is_group r"
  shows "\<exists>db'. record_start node p r db = Inr (db', started node p r) \<and> good db db' \<and> js_owners db' = js_owners db \<and>
    js_runs db' = js_runs (set_run r (started node p r) db)"
proof (cases "rn_started_at r = None \<and> rp_started_at p \<noteq> None")
  case False
  then have q: "started node p r = r" by (simp only: started_def if_False)
  have "set_run r r db = db" by (simp add: set_run_def)
  moreover have "record_start node p r db = Inr (db, r)" using False by (simp only: record_start_def if_False)
  ultimately show ?thesis using good_refl [OF assms(1)] by (simp add: q)
next
  case True
  let ?q = "started node p r"
  have q: "?q = started_row node p r" using True by (simp add: started_def)
  have pending: "rn_state r = Pending"
    using True assms(3) job_invD(7) [OF assms(1,2)] by (auto simp: times_ok_def run_active_def)
  have e: "evolves_run r ?q" using pending assms(3) True by (simp add: q started_row_def evolves_run_def run_key_def)
  have "times_ok ?q" using True by (simp add: q started_row_def times_ok_def run_active_def)
  then have m: "may_become db r ?q" using e assms(4) by (simp add: may_become_def q started_row_def run_active_def)
  have ne: "rn_state ?q \<noteq> rn_state r" by (simp add: q started_row_def pending)
  note step = announced_step [OF assms(1,2) m ne]
  have u: "update_run (rn_id r) (started_row node p) db = set_run r ?q db"
    using update_run_set [OF job_invD(5) [OF assms(1)] assms(2)] by (simp add: q)
  define db2 where "db2 = register_session r p (set_run r ?q db)"
  have same: "js_runs db2 = js_runs (set_run r ?q db)" "js_owners db2 = js_owners db" "js_events db2 = js_events (set_run r ?q db)"
    by (simp_all add: db2_def)
  have "distinct (List.map rn_id (js_runs db2))"
    using job_invD(5) [OF assms(1)] evolves_facts(1) [OF e] by (simp add: same(1) set_run_ids)
  then have "get_run db2 (rn_id r) = Inr ?q"
    using evolves_facts(1) [OF e] by (simp add: get_run_iff same(1) set_run_runs [OF assms(2)])
  moreover have "announce ?q db2 = Inr (add_event ?q db2)" by (rule announce_cong [OF step(1) same(3)])
  ultimately have "record_start node p r db = Inr (add_event ?q db2, ?q)"
    using True u by (simp add: record_start_def db2_def)
  moreover have "good db (add_event ?q db2)"
    by (rule good_cong [of _ "add_event ?q (set_run r ?q db)"]) (use step(2,3) same in \<open>simp_all add: good_def add_event_def\<close>)
  ultimately show ?thesis using same by simp
qed

lemma accept_running_good:
  assumes "job_inv db" and "r \<in> set (js_runs db)" and "run_active r" and "\<not> is_group r"
    and "accept_running node stopped p r db = Inr db'"
  shows "good db db' \<and> js_owners db' = js_owners db"
proof -
  let ?q = "started node p r"
  obtain db1 where 1: "record_start node p r db = Inr (db1, ?q)" "good db db1" "js_owners db1 = js_owners db"
    "js_runs db1 = js_runs (set_run r ?q db)"
    using record_start_step [OF assms(1-4)] by blast
  have inv1: "job_inv db1" using 1(2) by (simp add: good_def)
  have q: "?q \<in> set (js_runs db1)" "run_active ?q" "\<not> is_group ?q" "rn_id ?q = rn_id r"
    using assms(3,4) by (auto simp: 1(4) set_run_runs [OF assms(2)] started_def started_row_def run_active_def is_group_def)
  obtain db2 continued where log: "take_log p ?q db1 = Inr (db2, continued)"
    and fin: "(if continued \<or> rp_state p = Report_Running then Inr db2
      else complete_run ?q (final_state stopped (rp_state p)) (rp_reason p) (the (rp_finished_at p)) (keep_result p ?q db2)) = Inr db'"
    using assms(5) 1(1) by (auto simp: accept_running_def)
  have 2: "js_runs db2 = js_runs db1" "js_owners db2 = js_owners db1" "js_events db2 = js_events db1"
    using take_log_same [OF log] by auto
  show ?thesis
  proof (cases "continued \<or> rp_state p = Report_Running")
    case True
    then have "db' = db2" using fin by (simp split: if_splits)
    then show ?thesis using good_cong [OF 1(2) 2] 1(3) 2(2) by simp
  next
    case False
    let ?db3 = "keep_result p ?q db2"
    have 3: "js_runs ?db3 = js_runs db1" "js_owners ?db3 = js_owners db1" "js_events ?db3 = js_events db1"
      using 2 by simp_all
    have g3: "good db ?db3" by (rule good_cong [OF 1(2) 3])
    then have inv3: "job_inv ?db3" by (simp add: good_def)
    have "children_of ?db3 (rn_id ?q) = []"
      using not_group_leaf [OF inv1 q(1,3)] children_cong [OF 3(1)] by simp
    moreover have "final_state stopped (rp_state p) \<in> {Succeeded, Failed, Cancelled}"
      by (simp add: final_state_def split: report_state.splits)
    moreover have "?q \<in> set (js_runs ?db3)" using q(1) 3(1) by simp
    ultimately obtain db4 where "complete_run ?q (final_state stopped (rp_state p)) (rp_reason p) (the (rp_finished_at p)) ?db3 = Inr db4"
      "good ?db3 db4" "js_owners db4 = js_owners ?db3"
      using complete_step [OF inv3 _ q(2), of "final_state stopped (rp_state p)" ?q "rp_reason p" "the (rp_finished_at p)"] by auto
    moreover from this have "db4 = db'" using fin False by simp
    ultimately show ?thesis using good_trans [OF g3] 3(2) 1(3) by simp
  qed
qed

lemma reporting_run:
  assumes "job_inv db"
    and "find (\<lambda>w. ow_run w = i \<and> ow_node w = Some node \<and> ow_generation w = g) (js_owners db) = Some w"
  shows "\<exists>r. get_run db i = Inr r \<and> r \<in> set (js_runs db) \<and> rn_id r = i \<and> \<not> is_group r \<and> find_owner db i = Some w"
proof -
  have w: "w \<in> set (js_owners db)" "ow_run w = i" "ow_node w = Some node" using assms(2) by (auto dest: find_SomeD)
  then obtain r where r: "r \<in> set (js_runs db)" "rn_id r = i" "is_group r \<longrightarrow> ow_node w = None"
    using job_invD(2) [OF assms(1)] by (auto simp: owners_ok_def)
  with w job_invD(5,6) [OF assms(1)] show ?thesis by (auto simp: get_run_iff find_owner_iff)
qed

lemma accept_good:
  assumes "job_inv db" and "accept_job_report node p db = Inr (db', b)"
  shows "good db db'"
proof (cases "find (\<lambda>w. ow_run w = rp_run p \<and> ow_node w = Some node \<and> ow_generation w = rp_generation p) (js_owners db)")
  case None
  then show ?thesis using assms good_refl by (auto simp: accept_job_report_def)
next
  case (Some w)
  obtain r where r: "get_run db (rp_run p) = Inr r" "r \<in> set (js_runs db)" "rn_id r = rp_run p" "\<not> is_group r"
    using reporting_run [OF assms(1) Some] by blast
  have same: "is_group x \<Longrightarrow> x \<in> set (js_runs db) \<Longrightarrow> rn_id x \<noteq> rp_run p" for x
    using same_id [OF job_invD(5) [OF assms(1)] _ r(2)] r(3,4) by metis
  consider "\<not> run_active r" | "run_active r" "rp_state p = Report_Pending"
    | "run_active r" "rp_state p = Report_Released" "\<not> ow_stop w" "rp_state p \<noteq> Report_Pending"
    | "run_active r" "rp_state p \<noteq> Report_Pending" "\<not> (rp_state p = Report_Released \<and> \<not> ow_stop w)" by blast
  then show ?thesis
  proof cases
    case 1
    then show ?thesis using assms(2) Some r(1) good_refl [OF assms(1)] by (auto simp: accept_job_report_def)
  next
    case 2
    have "good db (update_run (rn_id r) (\<lambda>r. r\<lparr>rn_reason := rp_reason p\<rparr>) db)"
      by (rule note_step [OF assms(1) r(2) 2(1)]) (simp_all add: run_key_def)
    with 2 show ?thesis using assms(2) Some r(1) good_refl [OF assms(1)]
      by (auto simp: accept_job_report_def split: if_splits)
  next
    case 3
    have "good db (update_owner (rp_run p) (\<lambda>w. w\<lparr>ow_node := None, ow_generation := ow_generation w + 1, ow_revoking := False\<rparr>) db)"
      by (rule good_owner [OF assms(1)]) simp_all
    with 3 show ?thesis using assms(2) Some r(1) by (auto simp: accept_job_report_def)
  next
    case 4
    then have "accept_running node (ow_stop w) p r db = Inr db'"
      using assms(2) Some r(1) by (auto simp: accept_job_report_def)
    then show ?thesis using accept_running_good [OF assms(1) r(2) 4(1) r(4)] by blast
  qed
qed

section \<open>New runs\<close>

lemma expand_machine_good:
  assumes "job_inv db" and "r \<in> set (js_runs db)" and "is_group r" and "rn_state r = Pending"
    and "expand_machine r (node, child) db = Inr db'"
  shows "good db db' \<and> r \<in> set (js_runs db')"
proof (cases "insert_run (child_run r child node) db")
  case (Inl e)
  then have db': "db' = (if find_run db child \<noteq> None \<and> find_owner db child = None then with_owner child db else db)"
    using assms(5) by (auto simp: expand_machine_def with_owner_def)
  show ?thesis
  proof (cases "find_run db child \<noteq> None \<and> find_owner db child = None")
    case True
    then obtain x where "x \<in> set (js_runs db)" "rn_id x = child"
      using job_invD(5) [OF assms(1)] by (auto simp: find_run_iff)
    then have "job_inv (with_owner child db)" using add_owner_step [OF assms(1)] True by blast
    with db' True assms(2) show ?thesis by (simp add: good_def runs_forward_same)
  qed (use db' good_refl [OF assms(1)] assms(2) in auto)
next
  case (Inr db1)
  let ?c = "child_run r child node"
  have c: "rn_id ?c = child" "rn_state ?c = Pending" "times_ok ?c" "rn_parent ?c = Some (rn_id r)" "rn_snapshot ?c = rn_snapshot r"
    "run_active ?c"
    by (simp_all add: child_run_def times_ok_def run_active_def)
  have "run_active r" using assms(4) by (simp add: run_active_def)
  then have parent: "rn_parent ?c = Some p \<Longrightarrow>
      \<exists>x \<in> set (js_runs db). rn_id x = p \<and> is_group x \<and> rn_snapshot ?c = rn_snapshot x \<and> run_active x" for p
    using assms(2,3) c(4,5) by (intro bexI [of _ r]) auto
  have "\<forall>x \<in> set (js_runs db). rn_id x \<noteq> child"
    using Inr c(1) by (auto simp: insert_run_def list_ex_iff runs_clash_def split: if_splits)
  then have "find_owner db child = None" using no_owner_yet(2) [OF assms(1)] by blast
  moreover have "js_owners db1 = js_owners db" using Inr by (auto simp: insert_run_def split: if_splits)
  ultimately have owner: "find_owner db1 child = None" by (simp add: find_owner_def)
  obtain q where "get_run (with_owner child db1) child = Inr q" "announce q (with_owner child db1) = Inr (add_event q (with_owner child db1))"
    "set (js_runs (with_owner child db1)) = insert q (set (js_runs db))"
    "job_inv (add_event q (with_owner child db1))" "runs_forward db (add_event q (with_owner child db1))"
    using insert_step [OF assms(1) Inr c(3) _ parent, of "with_owner child db1"] c by auto
  moreover from this owner Inr have "db' = add_event q (with_owner child db1)"
    using assms(5) by (auto simp: expand_machine_def Let_def with_owner_def)
  ultimately show ?thesis using assms(2) by (simp add: good_def)
qed

lemma expand_good:
  assumes "job_inv db" and "expand_job_machines run nodes db = Inr db'"
  shows "good db db'"
proof -
  obtain r where r: "r \<in> set (js_runs db)" "rn_id r = run"
    and cases: "db' = db \<or> is_group r \<and> rn_state r = Pending \<and> fold_result (expand_machine r) nodes db = Inr db'"
    using assms job_invD(5) [OF assms(1)] by (auto simp: expand_job_machines_def get_run_iff is_group_def split: if_splits)
  show ?thesis
  proof (cases "db' = db")
    case False
    then have run: "is_group r" "rn_state r = Pending" "fold_result (expand_machine r) nodes db = Inr db'" using cases by auto
    have "good db db' \<and> r \<in> set (js_runs db')"
    proof (rule fold_result_invariant [OF run(3)])
      show "good db db \<and> r \<in> set (js_runs db)" using good_refl [OF assms(1)] r(1) by blast
      show "good db t \<and> r \<in> set (js_runs t)"
        if "x \<in> set nodes" "good db s \<and> r \<in> set (js_runs s)" "expand_machine r x s = Inr t" for x s t
        using expand_machine_good [of s r "fst x" "snd x" t] that run(1,2) good_trans [of db s t] by (auto simp: good_def)
    qed
    then show ?thesis by blast
  qed (use good_refl [OF assms(1)] in simp)
qed

lemma enqueue_good:
  assumes "job_inv db" and "enqueue_job p fs run oc db = Inr (db', r)"
  shows "good db db' \<and> r \<in> set (js_runs db')"
proof (cases "existing_run db oc")
  case (Some saved)
  then have "saved \<in> set (js_runs db)"
    by (auto simp: existing_run_def manual_run_def scheduled_run_def split: option.splits dest: find_SomeD)
  with Some assms show ?thesis using good_refl [OF assms(1)] by (auto simp: enqueue_job_def)
next
  case None
  define b where "b = list_ex (\<lambda>r. sn_job (rn_snapshot r) = sn_job (oc_snapshot oc) \<and> run_active r) (js_runs db)"
  let ?n = "new_run run oc b"
  have n: "rn_id ?n = run" "times_ok ?n" "rn_state ?n = Pending \<or> rn_state ?n = Skipped" "rn_parent ?n = None" "run_active ?n = (\<not> b)"
    by (simp_all add: new_run_def times_ok_def run_active_def)
  obtain db1 where 1: "insert_run ?n db = Inr db1"
    using assms(2) None by (auto simp: enqueue_job_def Let_def b_def split: if_splits)
  define db2 where "db2 = (if run_active ?n then with_owner (rn_id ?n) db1 else db1)"
  obtain q where q: "get_run db2 run = Inr q" "announce q db2 = Inr (add_event q db2)"
    "set (js_runs db2) = insert q (set (js_runs db))" "job_inv (add_event q db2)" "runs_forward db (add_event q db2)"
    using insert_step [OF assms(1) 1 n(2,3) _ db2_def] n(1,4) by auto
  define db3 where "db3 = (if oc_request_key oc = None
    then db2\<lparr>js_jobs := List.map (\<lambda>j. if jb_id j = sn_job (oc_snapshot oc) then j\<lparr>jb_next_at := oc_next_at oc\<rparr> else j) (js_jobs db2)\<rparr>
    else db2)"
  have same: "js_runs db3 = js_runs db2" "js_owners db3 = js_owners db2" "js_events db3 = js_events db2" by (simp_all add: db3_def)
  have "get_run db3 run = Inr q" using q(1) by (simp add: get_run_def find_run_def same(1))
  moreover have a: "announce q db3 = Inr (add_event q db3)" by (rule announce_cong [OF q(2) same(3)])
  moreover have "and_then (get_run db3 run) (\<lambda>r. and_then (announce r db3) (\<lambda>db. Inr (db, r))) = Inr (db', r)"
    using assms(2) None 1 n(1,5)
    unfolding enqueue_job_def db3_def db2_def with_owner_def b_def [symmetric]
    by (auto simp: Let_def b_def [symmetric] split: if_splits)
  ultimately have res: "db' = add_event q db3" "r = q" by auto
  have "good db (add_event q db3)"
    by (rule good_cong [of _ "add_event q db2"]) (use q(4,5) same in \<open>simp_all add: good_def add_event_def\<close>)
  with res q(3) same(1) show ?thesis by simp
qed

lemma commit_same:
  assumes "commit_change db actor key fp c now = Inr (db', j)"
  shows "js_runs db' = js_runs db \<and> js_owners db' = js_owners db \<and> js_events db' = js_events db"
proof (cases "find_receipt db (pc_project c) actor key fp")
  case (Inr saved)
  show ?thesis
  proof (cases saved)
    case None
    then obtain db1 where "(case pc_expected c of Some r \<Rightarrow> update_job c r now db | None \<Rightarrow> insert_job c now db) = Inr db1"
      and res: "js_runs db' = js_runs db1" "js_owners db' = js_owners db1" "js_events db' = js_events db1"
      using assms Inr by (auto simp: commit_change_def Let_def split: if_splits)
    then have "js_runs db1 = js_runs db \<and> js_owners db1 = js_owners db \<and> js_events db1 = js_events db"
      by (auto simp: update_job_def insert_job_def Let_def split: option.splits if_splits)
    with res show ?thesis by simp
  qed (use assms Inr in \<open>simp add: commit_change_def\<close>)
qed (use assms in \<open>simp add: commit_change_def\<close>)

lemma stop_good:
  assumes "job_inv db" and "stop_scheduled_job project job run now db = (db', res)"
  shows "good db db'"
proof (cases "stop_runs project job run now db")
  case (Inl e)
  then show ?thesis using assms good_refl by (simp add: stop_scheduled_job_def)
next
  case (Inr db1)
  then have "fold_result (stop_run now) (filter (\<lambda>r. rn_id r = run \<or> rn_parent r = Some run) (js_runs db)) db = Inr db1"
    by (auto simp: stop_runs_def split: if_splits)
  then have 1: "good db db1"
    using stop_runs_step [OF assms(1) distinct_filter_runs [OF assms(1)] filter_is_subset] by (metis sum.inject(2))
  show ?thesis
  proof (cases "reconcile_job_groups db1")
    case (Inl e)
    then show ?thesis using assms(2) Inr 1 by (simp add: stop_scheduled_job_def)
  next
    case Inr2: (Inr db2)
    then have "js_role db1 \<noteq> ''agent''" by (auto simp: reconcile_job_groups_def job_authority_def)
    then have "good db1 db2" using reconcile_step [of db1] 1 Inr2 by (auto simp: good_def groups_done_def)
    moreover have "db' = db2" using assms(2) Inr Inr2 by (simp add: stop_scheduled_job_def)
    ultimately show ?thesis using good_trans [OF 1] by simp
  qed
qed

section \<open>Reachable states\<close>

text \<open>
  The steps of the program on the store. The supervisor assigns a run that fans out to no
  machine itself (\<open>schedule\<close> in \<open>src/src/fleet/native/jobs.rs\<close>); occurrences, reports, machines and
  requests are arbitrary, so that they may be late, repeated or wrong.
\<close>

inductive supervisor_step :: "job_ports \<Rightarrow> jobs_db \<Rightarrow> jobs_db \<Rightarrow> bool" for p where
  change: "change_job p fs db project actor key c now = (fs', Inr (db', j)) \<Longrightarrow> supervisor_step p db db'"
| enqueue: "enqueue_job p fs run oc db = Inr (db', r) \<Longrightarrow> supervisor_step p db db'"
| expand: "expand_job_machines run nodes db = Inr db' \<Longrightarrow> supervisor_step p db db'"
| assign: "assign_job run node worker db = Inr (db', b) \<Longrightarrow>
    \<forall>r \<in> set (js_runs db). rn_id r = run \<longrightarrow> \<not> is_group r \<Longrightarrow> supervisor_step p db db'"
| revoke: "revoke_job run node generation db = Inr db' \<Longrightarrow> supervisor_step p db db'"
| unavailable: "unavailable_job run reason db = Inr db' \<Longrightarrow> supervisor_step p db db'"
| stop: "stop_scheduled_job project job run now db = (db', res) \<Longrightarrow> supervisor_step p db db'"
| reconcile: "reconcile_job_groups db = Inr db' \<Longrightarrow> supervisor_step p db db'"

inductive job_step :: "job_ports \<Rightarrow> jobs_db \<Rightarrow> jobs_db \<Rightarrow> bool" for p where
  supervisor: "supervisor_step p db db' \<Longrightarrow> job_step p db db'"
| accept: "accept_job_report node rp db = Inr (db', b) \<Longrightarrow> job_step p db db'"

inductive job_steps :: "job_ports \<Rightarrow> jobs_db \<Rightarrow> jobs_db \<Rightarrow> bool" for p where
  none: "job_steps p db db"
| step: "job_steps p a b \<Longrightarrow> job_step p b c \<Longrightarrow> job_steps p a c"

definition no_runs :: "jobs_db \<Rightarrow> bool" where
  "no_runs db \<longleftrightarrow> js_runs db = [] \<and> js_owners db = [] \<and> js_events db = []"

lemma change_good:
  assumes "job_inv db" and "change_job p fs db project actor key c now = (fs', Inr (db', j))"
  shows "good db db'"
proof -
  have "js_runs db' = js_runs db \<and> js_owners db' = js_owners db \<and> js_events db' = js_events db"
    using assms(2) commit_same
    by (auto simp: change_job_def Let_def split: sum.splits option.splits prod.splits)
  then show ?thesis by (intro good_same [OF assms(1)]) simp_all
qed

lemma supervisor_step_good: "supervisor_step p db db' \<Longrightarrow> job_inv db \<Longrightarrow> good db db'"
proof (induction rule: supervisor_step.induct)
  case (reconcile db db')
  then have "js_role db \<noteq> ''agent''" by (auto simp: reconcile_job_groups_def job_authority_def)
  with reconcile reconcile_step [of db] show ?case by (auto simp: groups_done_def)
qed (auto intro: change_good expand_good assign_good revoke_good unavailable_good stop_good dest: enqueue_good)

lemma job_step_good: "job_step p db db' \<Longrightarrow> job_inv db \<Longrightarrow> good db db'"
  by (induction rule: job_step.induct) (auto intro: supervisor_step_good accept_good)

lemma job_steps_good: "job_steps p db db' \<Longrightarrow> job_inv db \<Longrightarrow> good db db'"
proof (induction rule: job_steps.induct)
  case (step a b c)
  then show ?case using job_step_good [of p b c] good_trans [of a b c] by (auto simp: good_def)
qed (rule good_refl)

lemma no_runs_inv: "no_runs db \<Longrightarrow> job_inv db"
  by (simp add: no_runs_def job_inv_def rows_ok_def owners_ok_def groups_ok_def events_ok_def)

end
