(* ===== verification/Job_Requests.thy ===== *)
theory Job_Requests
  imports Job_Steps
begin

text \<open>
  What holds of the requests to the store of jobs in its reachable states: one run per
  occurrence, one active run per job, repeated requests answered again, stale changes
  refused, and the events that tell the story of every run.
\<close>

section \<open>Example\<close>

definition example_ports :: job_ports where
  "example_ports = \<lparr>jp_calendar = any_day, jp_zones = (\<lambda>_. Some no_zone), jp_sha = (\<lambda>_. replicate 64 (CHR ''a'')),
     jp_encode = (\<lambda>_. [])\<rparr>"

definition example_definition :: job_definition where
  "example_definition = \<lparr>jd_name = ''nightly'', jd_cron = ''0 8 1 JAN *'', jd_timezone = ''UTC'', jd_harness = [],
     jd_executable = Some ''build'', jd_execution = None, jd_model = [], jd_thread_mode = New_Thread, jd_machines = [''m''],
     jd_all_machines = False, jd_each_machine = True\<rparr>"

definition example_snapshot :: snapshot where
  "example_snapshot = \<lparr>sn_job = ''j'', sn_project = ''p'', sn_revision = 1, sn_definition = example_definition, sn_digest = []\<rparr>"

definition example_row :: scheduled_job where
  "example_row = \<lparr>jb_id = ''j'', jb_project = ''p'', jb_revision = 1, jb_enabled = False, jb_deleted_at = None,
     jb_schedule_from = 0, jb_next_at = None, jb_snapshot = example_snapshot, jb_created_at = 0, jb_updated_at = 0\<rparr>"

definition example_jobs :: jobs_db where
  "example_jobs = \<lparr>js_role = ''supervisor'', js_slot = 0, js_jobs = [example_row], js_revisions = [example_snapshot], js_runs = [],
     js_sequence = 0, js_owners = [], js_receipts = [], js_agents = [], js_events = [], js_logs = [], js_results = []\<rparr>"

definition example_occurrence :: occurrence where
  "example_occurrence = \<lparr>oc_snapshot = example_snapshot, oc_scheduled_at = 5, oc_observed_at = 5, oc_expected_next = None,
     oc_next_at = None, oc_request_key = Some ''k''\<rparr>"

lemma example_no_runs: "no_runs example_jobs"
  by (simp add: no_runs_def example_jobs_def)

text \<open>The run published for it, and the run of its machine.\<close>

definition example_root :: job_run where
  "example_root = (new_run ''r1'' example_occurrence False)\<lparr>rn_sequence := 1\<rparr>"

definition published_jobs :: jobs_db where
  "published_jobs = add_event example_root (with_owner ''r1'' (example_jobs\<lparr>js_runs := [example_root], js_sequence := 1\<rparr>))"

definition example_child :: job_run where
  "example_child = (child_run example_root ''c1'' ''m'')\<lparr>rn_sequence := 2\<rparr>"

definition expanded_jobs :: jobs_db where
  "expanded_jobs = add_event example_child
     (with_owner ''c1'' (published_jobs\<lparr>js_runs := [example_root, example_child], js_sequence := 2\<rparr>))"

lemma example_published: "enqueue_job example_ports Map.empty ''r1'' example_occurrence example_jobs = Inr (published_jobs, example_root)"
  by code_simp

lemma example_expanded: "expand_job_machines ''r1'' [(''m'', ''c1'')] published_jobs = Inr expanded_jobs"
  by code_simp

definition started_report :: report where
  "started_report = \<lparr>rp_run = ''c1'', rp_generation = 1, rp_state = Report_Failed, rp_session = None, rp_cwd = None,
     rp_started_at = Some 6, rp_finished_at = Some 9, rp_reason = None, rp_log = None, rp_result = None\<rparr>"

definition ended_child :: job_run where
  "ended_child = example_child\<lparr>rn_state := Failed, rn_machine := Some ''m'', rn_worker := Some ''w'', rn_started_at := Some 6,
     rn_finished_at := Some 9\<rparr>"

definition ended_jobs :: jobs_db where
  "ended_jobs = add_event ended_child (add_event (ended_child\<lparr>rn_state := Running\<rparr>)
     (expanded_jobs\<lparr>js_runs := [example_root, ended_child],
       js_owners := [new_owner ''r1'', (new_owner ''c1'')\<lparr>ow_node := Some ''m''\<rparr>]\<rparr>))"

lemma example_ended:
  "and_then (assign_job ''c1'' ''m'' ''w'' expanded_jobs) (\<lambda>(db, _). accept_job_report ''m'' started_report db) = Inr (ended_jobs, True)"
  by code_simp

section \<open>Publication\<close>

lemma new_run_id [simp]: "rn_id (new_run run oc b) = run"
  by (simp add: new_run_def)

text \<open>
  C15. An occurrence of a job that has not changed is published as exactly one run: pending
  when the job has no active run and skipped otherwise, with the cursor of a scheduled job
  advanced; publishing it again, under whatever identifier, returns that run and changes
  nothing.
\<close>

theorem occurrence_is_published_once:
  assumes "job_inv db" and "js_role db \<noteq> ''agent''" and "existing_run db oc = None"
    and "is_ok (job_instructions p fs (oc_snapshot oc))"
    and "get_job db (sn_project (oc_snapshot oc)) (sn_job (oc_snapshot oc)) = Inr j"
    and "jb_deleted_at j = None" and "jb_snapshot j = oc_snapshot oc"
    and "oc_request_key oc = None \<Longrightarrow> jb_enabled j \<and> jb_next_at j = oc_expected_next oc"
    and "\<forall>r \<in> set (js_runs db). rn_id r \<noteq> run"
  shows "\<exists>db' r. enqueue_job p fs run oc db = Inr (db', r) \<and> job_inv db' \<and>
    set (js_runs db') = insert r (set (js_runs db)) \<and> r \<notin> set (js_runs db) \<and>
    rn_state r = (if \<exists>q \<in> set (js_runs db). sn_job (rn_snapshot q) = sn_job (oc_snapshot oc) \<and> run_active q then Skipped else Pending) \<and>
    (\<forall>i \<in> set (js_jobs db'). jb_id i = sn_job (oc_snapshot oc) \<longrightarrow> oc_request_key oc = None \<longrightarrow> jb_next_at i = oc_next_at oc) \<and>
    (\<forall>again fs'. enqueue_job p fs' again oc db' = Inr (db', r))"
proof -
  define b where "b = list_ex (\<lambda>r. sn_job (rn_snapshot r) = sn_job (oc_snapshot oc) \<and> run_active r) (js_runs db)"
  let ?n = "new_run run oc b"
  have n: "rn_id ?n = run" "times_ok ?n" "rn_state ?n = Pending \<or> rn_state ?n = Skipped" "rn_parent ?n = None"
    "run_active ?n = (\<not> b)" "rn_snapshot ?n = oc_snapshot oc"
    by (simp_all add: new_run_def times_ok_def run_active_def)
  have "\<not> runs_clash ?n q" if q: "q \<in> set (js_runs db)" for q
    using assms(3,9) q unfolding existing_run_def scheduled_run_def manual_run_def
    by (cases "oc_request_key oc") (auto simp: runs_clash_def find_None_iff n new_run_def b_def list_ex_iff run_active_def)
  then have 1: "insert_run ?n db = Inr (db\<lparr>js_runs := js_runs db @ [?n\<lparr>rn_sequence := js_sequence db + 1\<rparr>], js_sequence := js_sequence db + 1\<rparr>)"
    (is "_ = Inr ?db1") by (auto simp: insert_run_def list_ex_iff)
  define db2 where "db2 = (if run_active ?n then with_owner (rn_id ?n) ?db1 else ?db1)"
  obtain q where q: "get_run db2 run = Inr q" "announce q db2 = Inr (add_event q db2)" "q = ?n\<lparr>rn_sequence := rn_sequence q\<rparr>"
    "set (js_runs db2) = insert q (set (js_runs db))" "job_inv (add_event q db2)"
    using insert_step [OF assms(1) 1 n(2,3) _ db2_def] n(1,4) by auto
  define db3 where "db3 = (if oc_request_key oc = None
    then db2\<lparr>js_jobs := List.map (\<lambda>j. if jb_id j = sn_job (oc_snapshot oc) then j\<lparr>jb_next_at := oc_next_at oc\<rparr> else j) (js_jobs db2)\<rparr>
    else db2)"
  have same: "js_runs db3 = js_runs db2" "js_owners db3 = js_owners db2" "js_events db3 = js_events db2" "js_role db3 = js_role db"
    by (simp_all add: db3_def db2_def)
  have get3: "get_run db3 run = Inr q" using q(1) by (simp add: get_run_def find_run_def same(1))
  have a3: "announce q db3 = Inr (add_event q db3)" by (rule announce_cong [OF q(2) same(3)])
  let ?db' = "add_event q db3"
  obtain u where u: "job_instructions p fs (oc_snapshot oc) = Inr u" using assms(4) by (auto simp: is_ok_iff)
  have run: "enqueue_job p fs run oc db = Inr (?db', q)"
  proof -
    have "\<not> (jb_deleted_at j \<noteq> None \<or> jb_snapshot j \<noteq> oc_snapshot oc \<or>
        (oc_request_key oc = None \<and> (\<not> jb_enabled j \<or> jb_next_at j \<noteq> oc_expected_next oc)))"
      using assms(6-8) by blast
    then have "enqueue_job p fs run oc db = and_then (get_run db3 run) (\<lambda>r. and_then (announce r db3) (\<lambda>db. Inr (db, r)))"
      using assms(2,3,5) u 1 n(1,5) unfolding enqueue_job_def db3_def db2_def with_owner_def b_def [symmetric]
      by (simp add: job_authority_def Let_def b_def [symmetric] del: not_None_eq)
    with get3 a3 show ?thesis by simp
  qed
  have inv': "job_inv ?db'"
    using q(5) same job_inv_cong [of ?db' "add_event q db2"] by (simp add: add_event_def)
  have new: "q \<notin> set (js_runs db)" using assms(9) q(3) n(1) by (metis job_run.select_convs(2) job_run.surjective job_run.update_convs(1))
  have "existing_run ?db' oc = Some q"
  proof -
    have id: "x = q" if "x \<in> set (js_runs ?db')" "x \<notin> set (js_runs db)" for x using that q(4) same(1) by auto
    have fits: "rn_snapshot q = oc_snapshot oc" "rn_parent q = None" "rn_request_key q = oc_request_key oc"
      "rn_scheduled_at q = oc_scheduled_at oc" "rn_trigger q = (if oc_request_key oc = None then Scheduled else Manual)"
      by (subst q(3), simp add: new_run_def)+
    have "q \<in> set (js_runs ?db')" using q(4) same(1) by simp
    show ?thesis
    proof (cases "existing_run ?db' oc")
      case None
      then show ?thesis using fits \<open>q \<in> set (js_runs ?db')\<close>
        by (auto simp: existing_run_def scheduled_run_def manual_run_def find_None_iff split: option.splits)
    next
      case (Some x)
      then have "x \<in> set (js_runs ?db')" "x \<notin> set (js_runs db)"
        using assms(3)
        by (auto simp: existing_run_def scheduled_run_def manual_run_def find_None_iff split: option.splits dest!: find_SomeD)
      with id Some show ?thesis by simp
    qed
  qed
  then have again: "enqueue_job p fs' again oc ?db' = Inr (?db', q)" for fs' again
    using assms(2) same(4) by (simp add: enqueue_job_def job_authority_def)
  have st: "rn_state q = (if \<exists>q \<in> set (js_runs db). sn_job (rn_snapshot q) = sn_job (oc_snapshot oc) \<and> run_active q then Skipped else Pending)"
    by (subst q(3)) (simp add: new_run_def b_def list_ex_iff)
  have cursor: "\<forall>i \<in> set (js_jobs ?db'). jb_id i = sn_job (oc_snapshot oc) \<longrightarrow> oc_request_key oc = None \<longrightarrow> jb_next_at i = oc_next_at oc"
    by (auto simp: add_event_def db3_def)
  show ?thesis
    using run inv' new again st cursor q(4) same(1) by (intro exI [of _ ?db'] exI [of _ q] conjI) auto
qed

lemma example_get: "get_job example_jobs ''p'' ''j'' = Inr example_row"
  by (simp add: get_job_def example_jobs_def example_row_def)

lemma occurrence_is_published_once_witness:
  "\<exists>db' r. enqueue_job example_ports Map.empty ''r1'' example_occurrence example_jobs = Inr (db', r) \<and> job_inv db' \<and>
    set (js_runs db') = insert r (set (js_runs example_jobs)) \<and> r \<notin> set (js_runs example_jobs) \<and>
    rn_state r = (if \<exists>q \<in> set (js_runs example_jobs). sn_job (rn_snapshot q) = sn_job (oc_snapshot example_occurrence) \<and>
      run_active q then Skipped else Pending) \<and>
    (\<forall>i \<in> set (js_jobs db'). jb_id i = sn_job (oc_snapshot example_occurrence) \<longrightarrow>
      oc_request_key example_occurrence = None \<longrightarrow> jb_next_at i = oc_next_at example_occurrence) \<and>
    (\<forall>again fs'. enqueue_job example_ports fs' again example_occurrence db' = Inr (db', r))"
  by (rule occurrence_is_published_once [OF no_runs_inv [OF example_no_runs], of _ _ _ example_row])
    (simp_all add: example_get example_jobs_def example_occurrence_def existing_run_def manual_run_def job_instructions_def
      example_snapshot_def example_definition_def example_row_def get_job_def)

section \<open>Reachable states\<close>

text \<open>
  C9. In every reachable state a job has at most one active run, an occurrence and a request
  key have at most one run, an active run has its one owner, a run that fans out is itself
  on no machine, and its machines' runs are of the same revision and active only while it is.
\<close>

theorem job_store_is_consistent:
  assumes "no_runs db0" and "job_steps p db0 db"
  shows "(\<forall>r \<in> set (js_runs db). \<forall>q \<in> set (js_runs db). r \<noteq> q \<longrightarrow> \<not> runs_clash r q) \<and>
    (\<forall>r \<in> set (js_runs db). run_active r \<longrightarrow> (\<exists>!w. w \<in> set (js_owners db) \<and> ow_run w = rn_id r)) \<and>
    (\<forall>r \<in> set (js_runs db). \<forall>w \<in> set (js_owners db). is_group r \<longrightarrow> ow_run w = rn_id r \<longrightarrow> ow_node w = None) \<and>
    (\<forall>c \<in> set (js_runs db). \<forall>i. rn_parent c = Some i \<longrightarrow>
       (\<exists>r \<in> set (js_runs db). rn_id r = i \<and> is_group r \<and> rn_snapshot c = rn_snapshot r \<and> (run_active c \<longrightarrow> run_active r)))"
proof (intro conjI ballI impI allI)
  have inv: "job_inv db" using job_steps_good [OF assms(2) no_runs_inv [OF assms(1)]] by (simp add: good_def)
  show "\<not> runs_clash r q" if "r \<in> set (js_runs db)" "q \<in> set (js_runs db)" "r \<noteq> q" for r q
    using job_invD(1) [OF inv] that by (simp add: rows_ok_def)
  show "\<exists>!w. w \<in> set (js_owners db) \<and> ow_run w = rn_id r" if "r \<in> set (js_runs db)" "run_active r" for r
    using active_owner [OF inv that] same_id [OF job_invD(6) [OF inv]] by metis
  show "ow_node w = None" if "r \<in> set (js_runs db)" "w \<in> set (js_owners db)" "is_group r" "ow_run w = rn_id r" for r w
    by (rule group_owner [OF inv that(1,3,2,4)])
  show "\<exists>r \<in> set (js_runs db). rn_id r = i \<and> is_group r \<and> rn_snapshot c = rn_snapshot r \<and> (run_active c \<longrightarrow> run_active r)"
    if "c \<in> set (js_runs db)" "rn_parent c = Some i" for c i
    by (rule group_of_child [OF inv that])
qed

text \<open>
  C11. Runs only move forward: whatever happens later, a run stays in the store with the same
  identity and revision, a finished one never changes, and one that runs keeps its machine
  and session and does not become pending again.
\<close>

theorem runs_only_move_forward:
  assumes "no_runs db0" and "job_steps p db0 db" and "job_steps p db db'" and "r \<in> set (js_runs db)"
  shows "\<exists>q \<in> set (js_runs db'). run_key q = run_key r \<and> (\<not> run_active r \<longrightarrow> q = r) \<and>
    (rn_state r = Running \<longrightarrow> rn_state q \<noteq> Pending \<and> rn_machine q = rn_machine r \<and> rn_session q = rn_session r)"
proof -
  have inv: "job_inv db" using job_steps_good [OF assms(2) no_runs_inv [OF assms(1)]] by (simp add: good_def)
  obtain q where "q \<in> set (js_runs db')" "forward r q"
    using job_steps_good [OF assms(3) inv] assms(4) by (auto simp: good_def runs_forward_def)
  then show ?thesis by (intro bexI [of _ q]) (auto simp: forward_def evolves_run_def)
qed

text \<open>
  C37. In every reachable state each run has exactly one event of its present state, no event
  was published twice for the same run and kind, and every event tells of a run that passed
  through its state: one that was queued, with the time of its creation; one that started
  running on the event's machine; one that ended or was skipped just as the event says.
\<close>

theorem events_tell_every_run:
  assumes "no_runs db0" and "job_steps p db0 db"
  shows "(\<forall>r \<in> set (js_runs db). \<exists>!e. e \<in> set (js_events db) \<and> ev_kind e = event_kind (rn_state r) \<and> ev_subject e = rn_id r) \<and>
    distinct (List.map (\<lambda>e. (ev_kind e, ev_subject e)) (js_events db)) \<and>
    (\<forall>e \<in> set (js_events db). \<exists>r \<in> set (js_runs db). rn_id r = ev_subject e \<and> ev_kind e = event_kind (ev_state e) \<and>
       ev_project e = sn_project (rn_snapshot r) \<and> ev_job e = sn_job (rn_snapshot r) \<and> ev_revision e = sn_revision (rn_snapshot r) \<and>
       ev_parent e = rn_parent r \<and> ev_target e = rn_target r \<and> ev_scheduled_at e = rn_scheduled_at r \<and> ev_trigger e = rn_trigger r \<and>
       (ev_kind e = ''job.queued'' \<longrightarrow> rn_state r \<noteq> Skipped \<and> ev_time e = rn_created_at r) \<and>
       (ev_kind e = ''job.started'' \<longrightarrow> rn_state r \<notin> {Pending, Skipped} \<and> rn_started_at r \<noteq> None \<and>
          ev_machine e = rn_machine r \<and> ev_session e = rn_session r) \<and>
       (ev_kind e = ''job.finished'' \<longrightarrow> rn_state r \<in> {Succeeded, Failed, Cancelled} \<and> e = event_of_run r (the (rn_finished_at r))) \<and>
       (ev_kind e = ''job.skipped'' \<longrightarrow> rn_state r = Skipped \<and> e = event_of_run r (the (rn_finished_at r))))"
proof (intro conjI ballI)
  have "job_inv db" using job_steps_good [OF assms(2) no_runs_inv [OF assms(1)]] by (simp add: good_def)
  then have ev: "events_ok db" by (simp add: job_inv_def)
  then show d: "distinct (List.map (\<lambda>e. (ev_kind e, ev_subject e)) (js_events db))" by (simp add: events_ok_def)
  show "\<exists>!e. e \<in> set (js_events db) \<and> ev_kind e = event_kind (rn_state r) \<and> ev_subject e = rn_id r"
    if r: "r \<in> set (js_runs db)" for r
  proof -
    obtain e where e: "e \<in> set (js_events db)" "ev_kind e = event_kind (rn_state r)" "ev_subject e = rn_id r"
      using ev r by (auto simp: events_ok_def)
    then show ?thesis using same_id [OF d] by (intro ex1I [of _ e]) simp_all
  qed
  fix e assume e: "e \<in> set (js_events db)"
  then obtain r where r: "r \<in> set (js_runs db)" "event_fits e r" using ev by (auto simp: events_ok_def)
  have "ev_state (event_of_run r t) = rn_state r" for t by (simp add: event_of_run_def)
  with r(2) have
    "(ev_kind e = ''job.queued'' \<longrightarrow> rn_state r \<noteq> Skipped \<and> ev_time e = rn_created_at r)"
    "(ev_kind e = ''job.started'' \<longrightarrow> rn_state r \<notin> {Pending, Skipped} \<and> rn_started_at r \<noteq> None \<and>
       ev_machine e = rn_machine r \<and> ev_session e = rn_session r)"
    "(ev_kind e = ''job.finished'' \<longrightarrow> rn_state r \<in> {Succeeded, Failed, Cancelled} \<and> e = event_of_run r (the (rn_finished_at r)))"
    "(ev_kind e = ''job.skipped'' \<longrightarrow> rn_state r = Skipped \<and> e = event_of_run r (the (rn_finished_at r)))"
    by (cases "ev_state e"; force simp: event_fits_def)+
  with r show "\<exists>r \<in> set (js_runs db). rn_id r = ev_subject e \<and> ev_kind e = event_kind (ev_state e) \<and>
       ev_project e = sn_project (rn_snapshot r) \<and> ev_job e = sn_job (rn_snapshot r) \<and> ev_revision e = sn_revision (rn_snapshot r) \<and>
       ev_parent e = rn_parent r \<and> ev_target e = rn_target r \<and> ev_scheduled_at e = rn_scheduled_at r \<and> ev_trigger e = rn_trigger r \<and>
       (ev_kind e = ''job.queued'' \<longrightarrow> rn_state r \<noteq> Skipped \<and> ev_time e = rn_created_at r) \<and>
       (ev_kind e = ''job.started'' \<longrightarrow> rn_state r \<notin> {Pending, Skipped} \<and> rn_started_at r \<noteq> None \<and>
          ev_machine e = rn_machine r \<and> ev_session e = rn_session r) \<and>
       (ev_kind e = ''job.finished'' \<longrightarrow> rn_state r \<in> {Succeeded, Failed, Cancelled} \<and> e = event_of_run r (the (rn_finished_at r))) \<and>
       (ev_kind e = ''job.skipped'' \<longrightarrow> rn_state r = Skipped \<and> e = event_of_run r (the (rn_finished_at r)))"
    by (intro bexI [OF _ r(1)] conjI) (simp_all add: event_fits_def)
qed

text \<open>The example, step by step.\<close>

lemma example_steps:
  "job_steps example_ports example_jobs published_jobs" "job_steps example_ports published_jobs expanded_jobs"
  "job_steps example_ports expanded_jobs ended_jobs"
proof -
  show "job_steps example_ports example_jobs published_jobs"
    by (rule job_steps.step [OF job_steps.none]) (rule job_step.supervisor [OF supervisor_step.enqueue [OF example_published]])
  show "job_steps example_ports published_jobs expanded_jobs"
    by (rule job_steps.step [OF job_steps.none]) (rule job_step.supervisor [OF supervisor_step.expand [OF example_expanded]])
  obtain db b where 1: "assign_job ''c1'' ''m'' ''w'' expanded_jobs = Inr (db, b)" "accept_job_report ''m'' started_report db = Inr (ended_jobs, True)"
    using example_ended by auto
  have "\<forall>r \<in> set (js_runs expanded_jobs). rn_id r = ''c1'' \<longrightarrow> \<not> is_group r"
    by (simp add: expanded_jobs_def is_group_def example_root_def new_run_def example_child_def child_run_def)
  then have "job_steps example_ports expanded_jobs db"
    by (rule job_steps.step [OF job_steps.none job_step.supervisor [OF supervisor_step.assign [OF 1(1)]]])
  then show "job_steps example_ports expanded_jobs ended_jobs" by (rule job_steps.step) (rule job_step.accept [OF 1(2)])
qed

lemma job_steps_trans: "job_steps p b c \<Longrightarrow> job_steps p a b \<Longrightarrow> job_steps p a c"
  by (induction rule: job_steps.induct) (auto intro: job_steps.step)

lemma ended_reached: "job_steps example_ports example_jobs ended_jobs"
  by (rule job_steps_trans [OF example_steps(3)]) (rule job_steps_trans [OF example_steps(2,1)])

lemma job_store_is_consistent_witness:
  "\<exists>db. db = ended_jobs \<and> (\<forall>r \<in> set (js_runs db). \<forall>q \<in> set (js_runs db). r \<noteq> q \<longrightarrow> \<not> runs_clash r q)"
  using job_store_is_consistent [OF example_no_runs ended_reached] by blast

lemma runs_only_move_forward_witness:
  "\<exists>q \<in> set (js_runs ended_jobs). run_key q = run_key example_root \<and> (\<not> run_active example_root \<longrightarrow> q = example_root) \<and>
    (rn_state example_root = Running \<longrightarrow> rn_state q \<noteq> Pending \<and> rn_machine q = rn_machine example_root \<and>
       rn_session q = rn_session example_root)"
  by (rule runs_only_move_forward [OF example_no_runs example_steps(1) job_steps_trans [OF example_steps(3,2)]])
    (simp add: published_jobs_def)

lemma events_tell_every_run_witness:
  "distinct (List.map (\<lambda>e. (ev_kind e, ev_subject e)) (js_events ended_jobs)) \<and> length (js_events ended_jobs) = 4"
  using events_tell_every_run [OF example_no_runs ended_reached]
  by (simp add: ended_jobs_def add_event_def expanded_jobs_def published_jobs_def example_jobs_def with_owner_def)

section \<open>Repeated and stale requests\<close>

text \<open>What only a change of a job alters: the receipts, the revisions and the numbers of the rows.\<close>

definition kept :: "jobs_db \<Rightarrow> string \<times> job_receipt list \<times> snapshot list \<times> (string \<times> int) list" where
  "kept db = (js_role db, js_receipts db, js_revisions db, List.map (\<lambda>j. (jb_id j, jb_revision j)) (js_jobs db))"

lemma kept_simps [simp]:
  "kept (update_run i f db) = kept db" "kept (update_owner i g db) = kept db" "kept (register_session r p db) = kept db"
  "kept (put_log i c db) = kept db" "kept (put_result i v db) = kept db" "kept (keep_result p r db) = kept db"
  "kept (db\<lparr>js_owners := ws\<rparr>) = kept db"
  by (simp_all add: kept_def update_run_def update_owner_def register_session_def put_log_def put_result_def keep_result_def
      Let_def split: option.splits)

lemma kept_announce: "announce r db = Inr db' \<Longrightarrow> kept db' = kept db"
  by (auto simp: announce_def Let_def kept_def split: option.splits if_splits)

lemma kept_insert: "insert_run r db = Inr db' \<Longrightarrow> kept db' = kept db"
  by (auto simp: insert_run_def kept_def split: if_splits)

lemma kept_complete: "complete_run r st reason now db = Inr db' \<Longrightarrow> kept db' = kept db"
  by (auto simp: complete_run_def Let_def dest!: kept_announce)

lemma kept_group: "reconcile_group i db = Inr db' \<Longrightarrow> kept db' = kept db"
  by (auto simp: reconcile_group_def Let_def split: if_splits option.splits dest!: kept_announce)

lemma kept_groups: "reconcile_job_groups db = Inr db' \<Longrightarrow> kept db' = kept db"
proof -
  assume "reconcile_job_groups db = Inr db'"
  then have run: "fold_result reconcile_group (List.map rn_id (filter group_root (js_runs db))) db = Inr db'"
    by (auto simp: reconcile_job_groups_def)
  show ?thesis by (rule fold_result_invariant [OF run, where P = "\<lambda>d. kept d = kept db"]) (auto dest: kept_group)
qed

lemma kept_stop_run: "stop_run now r db = Inr db' \<Longrightarrow> kept db' = kept db"
  by (auto simp: stop_run_def Let_def split: if_splits dest!: kept_complete)

lemma kept_stop: "stop_scheduled_job project job run now db = (db', res) \<Longrightarrow> kept db' = kept db"
proof (cases "stop_runs project job run now db")
  case (Inr db1)
  assume stop: "stop_scheduled_job project job run now db = (db', res)"
  have run: "fold_result (stop_run now) (filter (\<lambda>r. rn_id r = run \<or> rn_parent r = Some run) (js_runs db)) db = Inr db1"
    using Inr by (auto simp: stop_runs_def split: if_splits)
  have "kept db1 = kept db"
    by (rule fold_result_invariant [OF run, where P = "\<lambda>d. kept d = kept db"]) (auto dest: kept_stop_run)
  with stop Inr show ?thesis
    by (auto simp: stop_scheduled_job_def split: sum.splits dest: kept_groups)
qed (simp add: stop_scheduled_job_def)

lemma kept_start: "record_start node p r db = Inr (db', r') \<Longrightarrow> kept db' = kept db"
  unfolding record_start_def Let_def
  by (auto split: if_splits dest!: kept_announce)

lemma kept_log: "take_log p r db = Inr (db', c) \<Longrightarrow> kept db' = kept db"
  by (auto simp: take_log_def split: option.splits if_splits)

lemma kept_running:
  assumes "accept_running node b p r db = Inr db'"
  shows "kept db' = kept db"
proof -
  obtain db1 r1 where 1: "record_start node p r db = Inr (db1, r1)"
    and rest: "and_then (take_log p r1 db1) (\<lambda>(db, continued).
      if continued \<or> rp_state p = Report_Running then Inr db
      else complete_run r1 (final_state b (rp_state p)) (rp_reason p) (the (rp_finished_at p)) (keep_result p r1 db)) = Inr db'"
    using assms by (auto simp only: accept_running_def and_then_Inr split_paired_Ex case_prod_conv)
  obtain db2 c where 2: "take_log p r1 db1 = Inr (db2, c)"
    and last: "(if c \<or> rp_state p = Report_Running then Inr db2
      else complete_run r1 (final_state b (rp_state p)) (rp_reason p) (the (rp_finished_at p)) (keep_result p r1 db2)) = Inr db'"
    using rest by (auto simp only: and_then_Inr split_paired_Ex case_prod_conv)
  have "kept db' = kept db2"
  proof (cases "c \<or> rp_state p = Report_Running")
    case True
    with last show ?thesis by simp
  next
    case False
    with last have "complete_run r1 (final_state b (rp_state p)) (rp_reason p) (the (rp_finished_at p)) (keep_result p r1 db2) = Inr db'"
      by simp
    from kept_complete [OF this] show ?thesis by simp
  qed
  then show ?thesis using kept_log [OF 2] kept_start [OF 1] by simp
qed

lemma kept_accept:
  assumes "accept_job_report node p db = Inr (db', b)"
  shows "kept db' = kept db"
proof (cases "find (\<lambda>w. ow_run w = rp_run p \<and> ow_node w = Some node \<and> ow_generation w = rp_generation p) (js_owners db)")
  case None
  with assms show ?thesis by (simp add: accept_job_report_def split: if_splits)
next
  case (Some w)
  then obtain r where r: "get_run db (rp_run p) = Inr r" using assms by (auto simp: accept_job_report_def)
  consider "\<not> run_active r" | "run_active r" "rp_state p = Report_Pending"
    | "run_active r" "rp_state p \<noteq> Report_Pending" "rp_state p = Report_Released" "\<not> ow_stop w"
    | "run_active r" "rp_state p \<noteq> Report_Pending" "\<not> (rp_state p = Report_Released \<and> \<not> ow_stop w)" by blast
  then show ?thesis
  proof cases
    case 4
    then have "accept_running node (ow_stop w) p r db = Inr db'"
      using assms Some r by (auto simp: accept_job_report_def split: if_splits)
    then show ?thesis by (rule kept_running)
  qed (use assms Some r in \<open>auto simp: accept_job_report_def split: if_splits\<close>)
qed

lemma kept_expand: "expand_job_machines run nodes db = Inr db' \<Longrightarrow> kept db' = kept db"
proof -
  assume ex: "expand_job_machines run nodes db = Inr db'"
  have one: "kept t = kept s" if "expand_machine r x s = Inr t" for r x s t
    using that by (cases x) (auto simp: expand_machine_def Let_def split: sum.splits if_splits dest!: kept_announce kept_insert)
  show ?thesis
  proof (cases "db' = db")
    case False
    then obtain r where run: "fold_result (expand_machine r) nodes db = Inr db'"
      using ex by (auto simp: expand_job_machines_def split: if_splits)
    show ?thesis by (rule fold_result_invariant [OF run, where P = "\<lambda>d. kept d = kept db"]) (auto dest: one)
  qed simp
qed

lemma enqueue_stages:
  assumes "enqueue_job p fs run oc db = Inr (db', r)" and "existing_run db oc = None"
  shows "\<exists>b db1 db2. insert_run (new_run run oc b) db = Inr db1 \<and> announce r db2 = Inr db' \<and> kept db2 = kept db1 \<and>
    js_runs db2 = js_runs db1 \<and> set (js_owners db1) \<subseteq> set (js_owners db2)"
proof -
  define b where "b = list_ex (\<lambda>r. sn_job (rn_snapshot r) = sn_job (oc_snapshot oc) \<and> run_active r) (js_runs db)"
  define with_new where "with_new db = (if b then db else db\<lparr>js_owners := js_owners db @ [new_owner run]\<rparr>)" for db :: jobs_db
  define cursor where "cursor db = (if oc_request_key oc = None
    then db\<lparr>js_jobs := List.map (\<lambda>j. if jb_id j = sn_job (oc_snapshot oc) then j\<lparr>jb_next_at := oc_next_at oc\<rparr> else j) (js_jobs db)\<rparr>
    else db)" for db :: jobs_db
  have "\<exists>j :: scheduled_job. (if jb_deleted_at j \<noteq> None \<or> jb_snapshot j \<noteq> oc_snapshot oc \<or>
        (oc_request_key oc = None \<and> (\<not> jb_enabled j \<or> jb_next_at j \<noteq> oc_expected_next oc))
      then conflict ''Job changed after the occurrence was prepared''
      else and_then (insert_run (new_run run oc b) db) (\<lambda>db. and_then (get_run (cursor (with_new db)) run)
        (\<lambda>r. and_then (announce r (cursor (with_new db))) (\<lambda>db. Inr (db, r))))) = Inr (db', r)"
    using assms unfolding enqueue_job_def Let_def b_def [symmetric] with_new_def [symmetric] cursor_def [symmetric]
    by (simp only: option.case and_then_Inr) blast
  then obtain db1 where 1: "insert_run (new_run run oc b) db = Inr db1"
    and 2: "announce r (cursor (with_new db1)) = Inr db'"
    by (simp only: and_then_Inr split: if_splits) (auto simp: conflict_def failure_def)
  have "kept (cursor d) = kept d" for d by (simp add: cursor_def kept_def)
  then have "kept (cursor (with_new db1)) = kept db1" by (simp add: with_new_def)
  moreover have "js_runs (cursor (with_new db1)) = js_runs db1" "set (js_owners db1) \<subseteq> set (js_owners (cursor (with_new db1)))"
    by (auto simp: cursor_def with_new_def)
  ultimately show ?thesis using 1 2 by blast
qed

lemma kept_enqueue:
  assumes "enqueue_job p fs run oc db = Inr (db', r)"
  shows "kept db' = kept db"
proof (cases "existing_run db oc")
  case None
  then show ?thesis using enqueue_stages [OF assms] kept_insert kept_announce by metis
qed (use assms in \<open>simp add: enqueue_job_def\<close>)

lemma find_append: "find P (xs @ ys) = (case find P xs of None \<Rightarrow> find P ys | Some x \<Rightarrow> Some x)"
  by (induction xs) simp_all

lemma prepared_for:
  "prepare_change p fs db project c now = (fs', Inr q) \<Longrightarrow>
     pc_project q = project \<and> pc_id q = change_id c \<and> pc_expected q = change_expected c"
  by (auto simp: prepare_change_def Let_def split: sum.splits prod.splits)

lemma changed_rows:
  assumes "(case pc_expected c of Some r \<Rightarrow> update_job c r now db | None \<Rightarrow> insert_job c now db) = Inr db1"
  shows "js_role db1 = js_role db" "js_receipts db1 = js_receipts db" "js_revisions db1 = js_revisions db"
  using assms by (auto simp: update_job_def insert_job_def Let_def split: option.splits if_splits)

lemma commit_receipts:
  assumes "commit_change db actor key fp c now = Inr (db', j)"
  shows "js_role db' = js_role db \<and> (\<exists>xs. js_receipts db' = js_receipts db @ xs) \<and>
    find_receipt db' (pc_project c) actor key fp = Inr (Some j)"
proof (cases "find_receipt db (pc_project c) actor key fp")
  case (Inr saved)
  show ?thesis
  proof (cases saved)
    case None
    obtain db1 where db1: "(case pc_expected c of Some r \<Rightarrow> update_job c r now db | None \<Rightarrow> insert_job c now db) = Inr db1"
      using assms Inr None by (auto simp: commit_change_def)
    have new: "find (\<lambda>q. rq_project q = pc_project c \<and> rq_actor q = actor \<and> rq_key q = key) (js_receipts db) = None"
      using Inr None by (auto simp: find_receipt_def split: option.splits if_splits)
    let ?q = "\<lparr>rq_project = pc_project c, rq_actor = actor, rq_key = key, rq_fingerprint = fp, rq_response = j\<rparr>"
    have "js_receipts db' = js_receipts db @ [?q]" "js_role db' = js_role db"
      using assms Inr None db1 changed_rows [OF db1] by (auto simp: commit_change_def Let_def split: if_splits)
    with new show ?thesis by (simp add: find_receipt_def find_append)
  qed (use assms Inr in \<open>auto simp: commit_change_def\<close>)
qed (use assms in \<open>simp add: commit_change_def\<close>)

lemma change_receipts:
  assumes "change_job p fs db project actor key c now = (fs', Inr (db', j))"
  shows "js_role db' = js_role db \<and> (\<exists>xs. js_receipts db' = js_receipts db @ xs)"
  using assms commit_receipts by (fastforce simp: change_job_def Let_def split: sum.splits option.splits prod.splits)

lemma supervisor_receipts: "supervisor_step p db db' \<Longrightarrow> js_role db' = js_role db \<and> (\<exists>xs. js_receipts db' = js_receipts db @ xs)"
proof (induction rule: supervisor_step.induct)
  case (change fs db project actor key c now fs' db' j)
  then show ?case by (rule change_receipts)
next
  case (enqueue fs run oc db db' r)
  then show ?case using kept_enqueue by (auto simp: kept_def)
next
  case (expand run nodes db db')
  then show ?case using kept_expand by (auto simp: kept_def)
next
  case (stop project job run now db db' res)
  then show ?case using kept_stop by (auto simp: kept_def)
next
  case (reconcile db db')
  then show ?case using kept_groups by (auto simp: kept_def)
qed (auto simp: assign_job_def revoke_job_def unavailable_job_def Let_def update_run_def update_owner_def split: if_splits)

lemma step_receipts: "job_step p db db' \<Longrightarrow> js_role db' = js_role db \<and> (\<exists>xs. js_receipts db' = js_receipts db @ xs)"
proof (induction rule: job_step.induct)
  case (supervisor db db')
  then show ?case by (rule supervisor_receipts)
next
  case (accept node rp db db' b)
  then show ?case using kept_accept by (auto simp: kept_def)
qed

lemma steps_receipts: "job_steps p db db' \<Longrightarrow> js_role db' = js_role db \<and> (\<exists>xs. js_receipts db' = js_receipts db @ xs)"
proof (induction rule: job_steps.induct)
  case (step a b c)
  then show ?case using step_receipts [of p b c] by auto
qed simp

text \<open>
  C29. A change that was answered is answered the same whenever it is asked again by the same
  actor under the same key, without any effect; another change under that key is refused.
\<close>

theorem repeated_change_is_answered:
  assumes "change_job p fs db project actor (Some k) c now = (fs1, Inr (db1, j))" and "job_steps p db1 db2"
  shows "change_job p fs' db2 project actor (Some k) c now' = (fs', Inr (db2, j)) \<and>
    (jp_sha p (jp_encode p c') \<noteq> jp_sha p (jp_encode p c) \<longrightarrow> change_validate p c' = Inr () \<longrightarrow>
       change_job p fs' db2 project actor (Some k) c' now' =
         (fs', conflict ''Request ID was already used with different job content''))"
proof -
  let ?fp = "jp_sha p (jp_encode p c)"
  have ok: "change_validate p c = Inr ()" "job_authority db = Inr ()" "\<exists>saved. find_receipt db project actor k ?fp = Inr saved"
    using assms(1) by (auto simp: change_job_def split: sum.splits option.splits)
  have "find_receipt db1 project actor k ?fp = Inr (Some j) \<and> js_role db1 = js_role db"
  proof -
    obtain saved where saved: "find_receipt db project actor k ?fp = Inr saved" using ok(3) by blast
    show ?thesis
    proof (cases saved)
      case (Some x)
      with assms(1) ok saved show ?thesis by (auto simp: change_job_def)
    next
      case None
      obtain q where q: "prepare_change p fs db project c now = (fs1, Inr q)" "commit_change db actor k ?fp q now = Inr (db1, j)"
        using assms(1) ok saved None by (auto simp: change_job_def Let_def split: prod.splits)
      then show ?thesis using commit_receipts [OF q(2)] prepared_for [OF q(1)] by auto
    qed
  qed
  moreover obtain xs where "js_receipts db2 = js_receipts db1 @ xs" "js_role db2 = js_role db1"
    using steps_receipts [OF assms(2)] by blast
  ultimately have "find (\<lambda>q. rq_project q = project \<and> rq_actor q = actor \<and> rq_key q = k) (js_receipts db2) =
      find (\<lambda>q. rq_project q = project \<and> rq_actor q = actor \<and> rq_key q = k) (js_receipts db1)"
    and r1: "find_receipt db1 project actor k ?fp = Inr (Some j)" and a2: "job_authority db2 = Inr ()"
    using ok(2) by (auto simp: find_receipt_def find_append job_authority_def split: option.splits)
  then have "find_receipt db2 project actor k ?fp = Inr (Some j)"
    and "jp_sha p (jp_encode p c') \<noteq> ?fp \<Longrightarrow>
      find_receipt db2 project actor k (jp_sha p (jp_encode p c')) = conflict ''Request ID was already used with different job content''"
    by (auto simp: find_receipt_def split: option.splits if_splits)
  with ok(1) a2 show ?thesis by (auto simp: change_job_def conflict_def failure_def)
qed

definition touched_jobs :: jobs_db where
  "touched_jobs = example_jobs\<lparr>js_jobs := [example_row\<lparr>jb_revision := 2, jb_schedule_from := 3, jb_snapshot := example_snapshot\<lparr>sn_revision := 2\<rparr>,
     jb_updated_at := 3\<rparr>], js_revisions := [example_snapshot, example_snapshot\<lparr>sn_revision := 2\<rparr>], js_agents := [''a''],
     js_receipts := [\<lparr>rq_project = ''p'', rq_actor = ''a'', rq_key = ''k'', rq_fingerprint = replicate 64 (CHR ''a''),
       rq_response = example_row\<lparr>jb_revision := 2, jb_schedule_from := 3, jb_snapshot := example_snapshot\<lparr>sn_revision := 2\<rparr>,
         jb_updated_at := 3\<rparr>\<rparr>]\<rparr>"

lemma example_change:
  "snd (change_job example_ports Map.empty example_jobs ''p'' ''a'' (Some ''k'') (Set_Enabled ''j'' 1 False) 3) =
     Inr (touched_jobs, hd (js_jobs touched_jobs))"
  by code_simp

lemma repeated_change_is_answered_witness:
  "change_job example_ports Map.empty touched_jobs ''p'' ''a'' (Some ''k'') (Set_Enabled ''j'' 1 False) 9 =
     (Map.empty, Inr (touched_jobs, hd (js_jobs touched_jobs)))"
  using repeated_change_is_answered [OF surjective_pairing [of "change_job example_ports Map.empty example_jobs ''p'' ''a'' (Some ''k'')
      (Set_Enabled ''j'' 1 False) 3", unfolded example_change] job_steps.none, of Map.empty 9] by simp

text \<open>What a change of a job leaves behind, and that its former revision never comes back.\<close>

definition revised :: "string \<Rightarrow> int \<Rightarrow> jobs_db \<Rightarrow> bool" where
  "revised i r db \<longleftrightarrow> i \<in> jb_id ` set (js_jobs db) \<and> (\<forall>j \<in> set (js_jobs db). jb_id j = i \<longrightarrow> jb_revision j \<noteq> r) \<and>
     (\<exists>s \<in> set (js_revisions db). sn_job s = i \<and> sn_revision s = r)"

lemma commit_revised:
  assumes "commit_change db actor key fp c now = Inr (db', j)" and "revised i r db"
  shows "revised i r db'"
proof (cases "find_receipt db (pc_project c) actor key fp = Inr None")
  case True
  obtain db1 where db1: "(case pc_expected c of Some r \<Rightarrow> update_job c r now db | None \<Rightarrow> insert_job c now db) = Inr db1"
    "\<not> (\<exists>s \<in> set (js_revisions db1). sn_job s = pc_id c \<and> sn_revision s = sn_revision (pc_snapshot c))"
    "js_jobs db' = js_jobs db1" "js_revisions db' = js_revisions db1 @ [pc_snapshot c]"
    using assms(1) True by (auto simp: commit_change_def Let_def split: if_splits)
  have same: "js_revisions db1 = js_revisions db" using changed_rows [OF db1(1)] by simp
  have new: "\<not> (pc_id c = i \<and> sn_revision (pc_snapshot c) = r)" using db1(2) assms(2) same by (auto simp: revised_def)
  have "i \<in> jb_id ` set (js_jobs db1) \<and> (\<forall>j \<in> set (js_jobs db1). jb_id j = i \<longrightarrow> jb_revision j \<noteq> r)"
  proof (cases "pc_expected c")
    case None
    then have "insert_job c now db = Inr db1" using db1(1) by simp
    then show ?thesis using assms(2) unfolding insert_job_def revised_def by (auto split: if_splits)
  next
    case (Some e)
    then have "update_job c e now db = Inr db1" using db1(1) by simp
    then have jobs: "js_jobs db1 = List.map (\<lambda>j. if jb_project j = pc_project c \<and> jb_id j = pc_id c \<and> jb_revision j = e \<and> jb_deleted_at j = None
        then j\<lparr>jb_revision := sn_revision (pc_snapshot c), jb_enabled := pc_enabled c,
        jb_deleted_at := if pc_deleted c then Some now else None, jb_schedule_from := now, jb_next_at := pc_next_at c,
        jb_snapshot := pc_snapshot c, jb_updated_at := now\<rparr> else j) (js_jobs db)"
      unfolding update_job_def Let_def by (auto split: if_splits)
    have ids: "jb_id ` set (js_jobs db1) = jb_id ` set (js_jobs db)"
      unfolding jobs set_map image_image by (rule image_cong) simp_all
    have "jb_revision j \<noteq> r" if j: "j \<in> set (js_jobs db1)" "jb_id j = i" for j
    proof -
      obtain x where "x \<in> set (js_jobs db)" "jb_id x = i" "jb_revision j = jb_revision x \<or> (i = pc_id c \<and> jb_revision j = sn_revision (pc_snapshot c))"
        using j unfolding jobs by (auto split: if_splits)
      then show ?thesis using assms(2) new by (auto simp: revised_def)
    qed
    then show ?thesis using ids assms(2) by (simp add: revised_def)
  qed
  then show ?thesis using assms(2) db1(3,4) same by (auto simp: revised_def)
next
  case False
  then have "db' = db" using assms(1) by (auto simp: commit_change_def split: option.splits)
  with assms(2) show ?thesis by simp
qed

lemma change_revised:
  assumes "change_job p fs db project actor key c now = (fs', Inr (db', j))" and "revised i r db"
  shows "revised i r db'"
proof (cases "db' = db")
  case False
  then obtain k q where "commit_change db actor k (jp_sha p (jp_encode p c)) q now = Inr (db', j)"
    using assms(1) by (auto simp: change_job_def Let_def split: sum.splits option.splits prod.splits)
  then show ?thesis using assms(2) by (rule commit_revised)
qed (use assms in simp)

lemma revised_kept: "kept db' = kept db \<Longrightarrow> revised i r db' = revised i r db"
proof -
  assume k: "kept db' = kept db"
  have pairs: "(\<lambda>j. (jb_id j, jb_revision j)) ` set (js_jobs db') = (\<lambda>j. (jb_id j, jb_revision j)) ` set (js_jobs db)"
    using arg_cong [OF k, of "\<lambda>(a, b, c, d). set d"] by (simp add: kept_def)
  have "revised i r db \<longleftrightarrow> (\<exists>x. (i, x) \<in> (\<lambda>j. (jb_id j, jb_revision j)) ` set (js_jobs db)) \<and>
      (i, r) \<notin> (\<lambda>j. (jb_id j, jb_revision j)) ` set (js_jobs db) \<and> (\<exists>s \<in> set (js_revisions db). sn_job s = i \<and> sn_revision s = r)" for db
    unfolding revised_def image_iff by (metis prod.inject)
  then show ?thesis using pairs k by (simp add: kept_def)
qed

text \<open>Every other operation leaves these rows alone.\<close>

lemma supervisor_kept:
  assumes "supervisor_step p db db'"
  shows "(\<exists>fs project actor key c now fs' j. change_job p fs db project actor key c now = (fs', Inr (db', j))) \<or> kept db' = kept db"
  using assms
proof (cases rule: supervisor_step.cases)
  case (change fs project actor key c now fs' j)
  then show ?thesis by blast
next
  case enqueue
  then show ?thesis using kept_enqueue by blast
next
  case expand
  then show ?thesis using kept_expand by blast
next
  case stop
  then show ?thesis using kept_stop by blast
next
  case reconcile
  then show ?thesis using kept_groups by blast
qed (auto simp: assign_job_def revoke_job_def unavailable_job_def Let_def split: if_splits)

lemma step_kept:
  assumes "job_step p db db'"
  shows "(\<exists>fs project actor key c now fs' j. change_job p fs db project actor key c now = (fs', Inr (db', j))) \<or> kept db' = kept db"
  using assms by (cases rule: job_step.cases) (use supervisor_kept kept_accept in blast)+

lemma steps_revised: "job_steps p db db' \<Longrightarrow> revised i r db \<Longrightarrow> revised i r db'"
proof (induction rule: job_steps.induct)
  case (step a b c)
  then show ?case using step_kept [OF step.hyps(2)] change_revised revised_kept by metis
qed simp

text \<open>
  C34. Of two edits prepared against the same revision of a job at most one takes effect:
  after one is committed the other is refused as a conflict, however many operations of
  any kind come between them.
\<close>

theorem stale_change_is_refused:
  assumes "commit_change db actor key fp c now = Inr (db1, j)" and "find_receipt db (pc_project c) actor key fp = Inr None"
    and "pc_expected c = Some r" and "\<exists>s \<in> set (js_revisions db). sn_job s = pc_id c \<and> sn_revision s = r"
    and "distinct (List.map jb_id (js_jobs db))" and "job_steps p db1 db2"
    and "pc_id d = pc_id c" and "pc_expected d = Some r"
    and "find_receipt db2 (pc_project d) actor' key' fp' = Inr None"
  shows "commit_change db2 actor' key' fp' d now' = conflict ''Job changed or was deleted; refresh its revision''"
proof -
  obtain db0 where db0: "update_job c r now db = Inr db0" "js_jobs db1 = js_jobs db0" "js_revisions db1 = js_revisions db @ [pc_snapshot c]"
    and new: "\<not> (\<exists>s \<in> set (js_revisions db). sn_job s = pc_id c \<and> sn_revision s = sn_revision (pc_snapshot c))"
    using assms(1-3) by (auto simp: commit_change_def update_job_def Let_def split: if_splits)
  let ?hit = "\<lambda>j. jb_project j = pc_project c \<and> jb_id j = pc_id c \<and> jb_revision j = r \<and> jb_deleted_at j = None"
  have one: "length (filter ?hit (js_jobs db)) = 1"
    and jobs: "js_jobs db1 = List.map (\<lambda>j. if ?hit j then j\<lparr>jb_revision := sn_revision (pc_snapshot c), jb_enabled := pc_enabled c,
        jb_deleted_at := if pc_deleted c then Some now else None, jb_schedule_from := now, jb_next_at := pc_next_at c,
        jb_snapshot := pc_snapshot c, jb_updated_at := now\<rparr> else j) (js_jobs db)"
    using db0 unfolding update_job_def Let_def by (auto split: if_splits)
  have ids: "jb_id ` set (js_jobs db1) = jb_id ` set (js_jobs db)"
    unfolding jobs set_map image_image by (rule image_cong) simp_all
  have "filter ?hit (js_jobs db) \<noteq> []" using one by force
  then obtain x where x: "x \<in> set (js_jobs db)" "?hit x" by (auto simp: filter_empty_conv)
  have other: "?hit y" if "y \<in> set (js_jobs db)" "jb_id y = pc_id c" for y
    using same_id [OF assms(5) that(1) x(1)] that(2) x(2) by simp
  have "revised (pc_id c) r db1"
    unfolding revised_def
  proof (intro conjI ballI impI)
    show "pc_id c \<in> jb_id ` set (js_jobs db1)" using x ids by (metis imageI)
    show "jb_revision y \<noteq> r" if "y \<in> set (js_jobs db1)" "jb_id y = pc_id c" for y
      using that other new assms(4) unfolding jobs by (auto split: if_splits)
    show "\<exists>s \<in> set (js_revisions db1). sn_job s = pc_id c \<and> sn_revision s = r" using assms(4) db0(3) by auto
  qed
  then have "revised (pc_id c) r db2" by (rule steps_revised [OF assms(6)])
  then have "filter (\<lambda>j. jb_project j = pc_project d \<and> jb_id j = pc_id d \<and> jb_revision j = r \<and> jb_deleted_at j = None) (js_jobs db2) = []"
    using assms(7) by (auto simp: revised_def filter_empty_conv)
  then show ?thesis using assms(8,9) by (simp add: commit_change_def update_job_def conflict_def failure_def)
qed

definition example_edit :: prepared_change where
  "example_edit = \<lparr>pc_id = ''j'', pc_project = ''p'', pc_expected = Some 1, pc_enabled = False, pc_deleted = False, pc_next_at = None,
     pc_snapshot = example_snapshot\<lparr>sn_revision := 2\<rparr>\<rparr>"

lemma example_commit:
  "commit_change example_jobs ''a'' ''k'' (replicate 64 (CHR ''a'')) example_edit 3 = Inr (touched_jobs, hd (js_jobs touched_jobs))"
  by code_simp

lemma stale_change_is_refused_witness:
  "commit_change touched_jobs ''b'' ''l'' [] example_edit 4 = conflict ''Job changed or was deleted; refresh its revision''"
  by (rule stale_change_is_refused [OF example_commit])
    (simp_all add: example_edit_def example_jobs_def example_snapshot_def touched_jobs_def find_receipt_def job_steps.none)

text \<open>
  C21. The reconciliation of groups never fails and leaves a consistent state: a run that fans
  out and has machines is active exactly while one of its machines is, and one that ended
  now is cancelled when it was stopped, failed when a machine failed, cancelled when one was
  cancelled and succeeded otherwise.
\<close>

theorem groups_follow_their_machines:
  assumes "job_inv db" and "js_role db \<noteq> ''agent''"
  shows "\<exists>db'. reconcile_job_groups db = Inr db' \<and> job_inv db' \<and>
    (\<forall>r \<in> set (js_runs db'). is_group r \<longrightarrow> children_of db' (rn_id r) \<noteq> [] \<longrightarrow>
       (run_active r \<longleftrightarrow> list_ex run_active (children_of db' (rn_id r)))) \<and>
    (\<forall>r \<in> set (js_runs db). group_root r \<longrightarrow> children_of db (rn_id r) \<noteq> [] \<longrightarrow>
       list_all (\<lambda>c. \<not> run_active c) (children_of db (rn_id r)) \<longrightarrow>
       (\<exists>q \<in> set (js_runs db'). \<exists>w \<in> set (js_owners db). rn_id q = rn_id r \<and> ow_run w = rn_id r \<and>
          rn_state q = group_state (ow_stop w) (children_of db (rn_id r))))"
proof -
  obtain db' where db': "reconcile_job_groups db = Inr db'" "good db db'" "js_owners db' = js_owners db"
    "\<forall>i. children_of db' i = children_of db i"
    "\<forall>r \<in> set (js_runs db). group_root r \<longrightarrow> (\<exists>q \<in> set (js_runs db'). reconciled db r q)"
    "\<forall>x \<in> set (js_runs db). \<not> group_root x \<longrightarrow> x \<in> set (js_runs db')"
    "rn_id ` set (js_runs db') = rn_id ` set (js_runs db)"
    using reconcile_step [OF assms] by (auto simp: groups_done_def)
  have inv': "job_inv db'" using db'(2) by (simp add: good_def)
  have "run_active q \<longleftrightarrow> list_ex run_active (children_of db' (rn_id q))"
    if q: "q \<in> set (js_runs db')" "is_group q" "children_of db' (rn_id q) \<noteq> []" for q
  proof -
    have "rn_id q \<in> rn_id ` set (js_runs db)" using db'(7) q(1) by blast
    then obtain r where r: "r \<in> set (js_runs db)" "rn_id r = rn_id q" by force
    obtain y where y: "y \<in> set (js_runs db')" "forward r y" using db'(2) r(1) by (auto simp: good_def runs_forward_def)
    then have "y = q" using same_id [OF job_invD(5) [OF inv'] y(1) q(1)] forward_id r(2) by metis
    show ?thesis
    proof (cases "group_root r")
      case True
      then obtain x where "x \<in> set (js_runs db')" "reconciled db r x" using db'(5) r(1) by blast
      moreover from this have "x = q" using same_id [OF job_invD(5) [OF inv'] _ q(1)] r(2) by (metis reconciled_def)
      ultimately have "reconciled db r q" by simp
      then show ?thesis
        using q(3) r(2) db'(4) group_state_ended
        by (auto simp: reconciled_def Let_def list_ex_iff list_all_iff run_active_def split: if_splits)
    next
      case False
      then have "\<not> run_active r"
        using forward_group [OF y(2)] q(2) \<open>y = q\<close> by (simp add: group_root_iff)
      moreover have "r \<in> set (js_runs db')" using db'(6) r(1) False by blast
      ultimately have "\<not> run_active q" using same_id [OF job_invD(5) [OF inv'] _ q(1)] r(2) by blast
      moreover have "\<not> run_active c" if "c \<in> set (children_of db' (rn_id q))" for c
      proof -
        obtain z where "z \<in> set (js_runs db')" "rn_id z = rn_id q" "run_active c \<longrightarrow> run_active z"
          using group_of_child [OF inv', of c "rn_id q"] \<open>c \<in> _\<close> by (auto simp: in_children)
        then show ?thesis using same_id [OF job_invD(5) [OF inv'] _ q(1)] \<open>\<not> run_active q\<close> by blast
      qed
      ultimately show ?thesis by (auto simp: list_ex_iff)
    qed
  qed
  moreover have "\<exists>q \<in> set (js_runs db'). \<exists>w \<in> set (js_owners db). rn_id q = rn_id r \<and> ow_run w = rn_id r \<and>
      rn_state q = group_state (ow_stop w) (children_of db (rn_id r))"
    if r: "r \<in> set (js_runs db)" "group_root r" "children_of db (rn_id r) \<noteq> []"
      "list_all (\<lambda>c. \<not> run_active c) (children_of db (rn_id r))" for r
  proof -
    obtain q where "q \<in> set (js_runs db')" "reconciled db r q" using db'(5) r(1,2) by blast
    with r show ?thesis by (auto simp: reconciled_def Let_def)
  qed
  ultimately show ?thesis using db'(1) inv' by (intro exI [of _ db']) blast
qed

lemma groups_follow_their_machines_witness:
  "\<exists>db'. reconcile_job_groups ended_jobs = Inr db' \<and> job_inv db'"
proof -
  have "job_inv ended_jobs" using job_steps_good [OF ended_reached no_runs_inv [OF example_no_runs]] by (simp add: good_def)
  then show ?thesis
    using groups_follow_their_machines [of ended_jobs]
    by (auto simp: ended_jobs_def add_event_def expanded_jobs_def with_owner_def published_jobs_def example_jobs_def)
qed

text \<open>
  On a machine that is a peer the row of a new job carries revision one, while its revision
  is recorded in the namespace of the machine: no record is found for the number of the row.
\<close>

lemma peer_job_has_no_record_of_its_revision:
  assumes "prepare_change p fs db project (Create_Job i d s e) now = (fs', Inr c)" and "js_role db = ''peer''" and "0 < js_slot db"
    and "commit_change db actor key fp c now = Inr (db', j)" and "find_receipt db project actor key fp = Inr None"
    and "\<forall>s \<in> set (js_revisions db). sn_job s \<noteq> i"
  shows "jb_revision j = 1 \<and> \<not> (\<exists>s \<in> set (js_revisions db'). sn_job s = i \<and> sn_revision s = jb_revision j)"
proof -
  have c: "pc_project c = project" "pc_id c = i" "pc_expected c = None" using prepared_for [OF assms(1)] by simp_all
  have n: "next_revision db i None = Inr (sn_revision (pc_snapshot c))"
    using assms(1) by (auto simp: prepare_change_def Let_def split: sum.splits prod.splits)
  have "filter (\<lambda>s. sn_job s = i \<and> js_slot db * 2 ^ 32 < sn_revision s \<and> sn_revision s < js_slot db * 2 ^ 32 + 2 ^ 32) (js_revisions db) = []"
    using assms(6) by (auto simp: filter_empty_conv)
  then have "sn_revision (pc_snapshot c) = js_slot db * 2 ^ 32 + 1"
    using n assms(2) by (simp add: next_revision_def Let_def split: if_splits)
  then have big: "1 < sn_revision (pc_snapshot c)" using assms(3) by simp
  obtain db1 where 1: "insert_job c now db = Inr db1" "js_revisions db' = js_revisions db1 @ [pc_snapshot c]"
    "js_jobs db' = js_jobs db1" "get_job (db1\<lparr>js_revisions := js_revisions db1 @ [pc_snapshot c],
      js_agents := if actor \<in> set (js_agents db1) then js_agents db1 else js_agents db1 @ [actor]\<rparr>) project i = Inr j"
    using assms(4,5) c by (auto simp: commit_change_def Let_def split: if_splits)
  have "j \<in> set (js_jobs db1)" "jb_id j = i" using 1(4) by (auto simp: get_job_def split: option.splits dest!: find_SomeD)
  moreover have "i \<notin> jb_id ` set (js_jobs db)" "\<exists>x. js_jobs db1 = js_jobs db @ [x] \<and> jb_revision x = 1"
    using 1(1) c by (auto simp: insert_job_def split: if_splits)
  ultimately have "jb_revision j = 1" by auto
  moreover have "js_revisions db1 = js_revisions db" using 1(1) by (auto simp: insert_job_def split: if_splits)
  ultimately show ?thesis using 1(2) big assms(6) by auto
qed

end
