(* ===== verification/Job_Log.thy ===== *)
theory Job_Log
  imports Job_Runs
begin

text \<open>
  The log of a script and its transfer in pages (\<open>read_log\<close> of
  \<open>src/src/fleet/native/job_script.rs\<close>). A log is any sequence of bytes; a page is its lossy
  decoding, cut so that no character is split between two pages.
\<close>

section \<open>Lossy decoding\<close>

text \<open>
  The front of a nonempty byte sequence, as \<open>str::from_utf8\<close> reads it: a whole character,
  bytes that no character begins with (the \<open>error_len\<close> of the error), or a character
  that the input ends within.
\<close>

datatype utf8_front = Whole nat | Broken nat | Cut_Off

definition second_byte :: "char \<Rightarrow> char \<Rightarrow> bool" where
  "second_byte a b \<longleftrightarrow>
     (if byte_of a = 224 then byte_in b 160 191 else if byte_of a = 237 then byte_in b 128 159
      else if byte_of a = 240 then byte_in b 144 191 else if byte_of a = 244 then byte_in b 128 143
      else continuation b)"

definition width_of :: "char \<Rightarrow> nat" where
  "width_of a = (if byte_of a < 128 then 1 else if byte_in a 194 223 then 2 else if byte_in a 224 239 then 3
     else if byte_in a 240 244 then 4 else 0)"

fun front_of :: "char \<Rightarrow> string \<Rightarrow> utf8_front" where
  "front_of a s =
     (if width_of a = 0 then Broken 1 else if width_of a = 1 then Whole 1
      else case s of
        [] \<Rightarrow> Cut_Off
      | b # t \<Rightarrow>
          if \<not> second_byte a b then Broken 1
          else if width_of a = 2 then Whole 2
          else case t of
            [] \<Rightarrow> Cut_Off
          | c # u \<Rightarrow>
              if \<not> continuation c then Broken 2
              else if width_of a = 3 then Whole 3
              else case u of [] \<Rightarrow> Cut_Off | d # v \<Rightarrow> if continuation d then Whole 4 else Broken 3)"

declare front_of.simps [simp del]

definition REPLACEMENT :: string where
  "REPLACEMENT = [CHR 0xEF, CHR 0xBF, CHR 0xBD]"

text \<open>\<open>String::from_utf8_lossy\<close>, and whether \<open>from_utf8\<close> fails only because the input ends.\<close>

function lossy :: "string \<Rightarrow> string" where
  "lossy [] = []"
| "lossy (a # s) =
     (case front_of a s of
        Whole n \<Rightarrow> take n (a # s) @ lossy (drop (n - 1) s)
      | Broken n \<Rightarrow> REPLACEMENT @ lossy (drop (n - 1) s)
      | Cut_Off \<Rightarrow> REPLACEMENT)"
  by pat_completeness auto
termination by (relation "measure length") auto

function incomplete :: "string \<Rightarrow> bool" where
  "incomplete [] = False"
| "incomplete (a # s) =
     (case front_of a s of Whole n \<Rightarrow> incomplete (drop (n - 1) s) | Broken n \<Rightarrow> False | Cut_Off \<Rightarrow> True)"
  by pat_completeness auto
termination by (relation "measure length") auto

text \<open>Whether the decoding itself ends within a character.\<close>

function cut_off :: "string \<Rightarrow> bool" where
  "cut_off [] = False"
| "cut_off (a # s) =
     (case front_of a s of Whole n \<Rightarrow> cut_off (drop (n - 1) s) | Broken n \<Rightarrow> cut_off (drop (n - 1) s) | Cut_Off \<Rightarrow> True)"
  by pat_completeness auto
termination by (relation "measure length") auto

lemma front_append: "front_of a s \<noteq> Cut_Off \<Longrightarrow> front_of a (s @ t) = front_of a s"
  by (simp add: front_of.simps split: list.splits if_splits)

lemma front_length: "front_of a s = Whole n \<or> front_of a s = Broken n \<Longrightarrow> n - 1 \<le> length s \<and> 0 < n"
  by (auto simp: front_of.simps split: list.splits if_splits)

lemma lossy_append: "\<not> cut_off xs \<Longrightarrow> lossy (xs @ ys) = lossy xs @ lossy ys"
proof (induction xs rule: lossy.induct)
  case (2 a s)
  then show ?case
    using front_append [of a s ys] front_length [of a s]
    by (cases "front_of a s") (force simp: take_Cons' drop_append)+
qed simp

text \<open>A byte that only begins characters ends what stands before it.\<close>

lemma front_cut: 
  assumes "front_of a s = Cut_Off" and "194 \<le> byte_of y"
  shows "front_of a (s @ y # ys) = Broken (length s + 1)"
proof -
  have "\<not> continuation y" "\<not> second_byte a y"
    using assms(2) by (auto simp: continuation_def second_byte_def byte_in_def)
  then show ?thesis using assms(1) by (auto simp: front_of.simps split: list.splits if_splits)
qed

lemma lossy_append_lead: "194 \<le> byte_of y \<Longrightarrow> lossy (xs @ y # ys) = lossy xs @ lossy (y # ys)"
proof (induction xs rule: lossy.induct)
  case (2 a s)
  show ?case
  proof (cases "front_of a s")
    case Cut_Off
    then show ?thesis using front_cut [OF Cut_Off 2(3)] by simp
  qed (use 2 front_append [of a s "y # ys"] front_length [of a s] in \<open>force simp: take_Cons' drop_append\<close>)+
qed simp

lemma valid_front: "valid_utf8 (a # s) \<Longrightarrow> \<exists>n. front_of a s = Whole n \<and> valid_utf8 (drop (n - 1) s)"
proof -
  assume "valid_utf8 (a # s)"
  then have v: "if byte_of a < 128 then valid_utf8 s
      else case s of
        [] \<Rightarrow> False
      | b # t \<Rightarrow>
          if byte_in a 194 223 then continuation b \<and> valid_utf8 t
          else case t of
            [] \<Rightarrow> False
          | c # u \<Rightarrow>
              if byte_of a = 224 then byte_in b 160 191 \<and> continuation c \<and> valid_utf8 u
              else if byte_of a = 237 then byte_in b 128 159 \<and> continuation c \<and> valid_utf8 u
              else if byte_in a 225 239 then continuation b \<and> continuation c \<and> valid_utf8 u
              else case u of
                [] \<Rightarrow> False
              | d # v \<Rightarrow>
                  (if byte_of a = 240 then byte_in b 144 191
                   else if byte_in a 241 243 then continuation b
                   else if byte_of a = 244 then byte_in b 128 143 else False)
                  \<and> continuation c \<and> continuation d \<and> valid_utf8 v"
    by (simp only: valid_utf8.simps(2) [of a s])
  note defs = front_of.simps width_of_def second_byte_def byte_in_def
  consider "byte_of a < 128" | "\<not> byte_of a < 128" "s = []" | b where "\<not> byte_of a < 128" "s = [b]"
    | b c where "\<not> byte_of a < 128" "s = [b, c]" | b c d v where "\<not> byte_of a < 128" "s = b # c # d # v"
    by (metis list.exhaust)
  then show ?thesis
    by cases (use v in \<open>auto simp: defs simp del: valid_utf8.simps split: if_splits\<close>)
qed

lemma valid_lossy: "valid_utf8 s \<Longrightarrow> lossy s = s"
proof (induction s rule: lossy.induct)
  case (2 a s)
  obtain n where n: "front_of a s = Whole n" "valid_utf8 (drop (n - 1) s)" using valid_front [OF 2(3)] by blast
  then show ?case using 2(1) [OF n(1) n(2)] front_length [of a s n] by (cases n) auto
qed simp

section \<open>Pages\<close>

definition PAGE :: nat where "PAGE = 65536"

text \<open>The end of a page that would split a character: the first such place in its last four bytes.\<close>

definition page_cut :: "string \<Rightarrow> nat option" where
  "page_cut bs = find (\<lambda>i. 194 \<le> byte_of (bs ! i) \<and> incomplete (drop i bs)) [length bs - 4 ..< length bs]"

definition read_log :: "string option \<Rightarrow> nat \<Rightarrow> log_chunk option result" where
  \<comment> \<open>of the file, if it exists, from an offset\<close>
  "read_log content offset =
     (case content of
        None \<Rightarrow> Inr None
      | Some f \<Rightarrow>
          if length f < offset then invalid ''Script log changed during transfer''
          else
            let bs = take PAGE (drop offset f);
                bs = (if offset + length bs < length f then (case page_cut bs of None \<Rightarrow> bs | Some i \<Rightarrow> take i bs) else bs);
                e = offset + length bs in
            Inr (Some \<lparr>lc_offset = offset, lc_output = lossy bs, lc_next = if e < length f then Some e else None\<rparr>))"

text \<open>A decoding that ends within a character ends within its last three bytes.\<close>

lemma cut_off_tail:
  "cut_off bs \<Longrightarrow> \<exists>i < length bs. length bs \<le> i + 3 \<and> 194 \<le> byte_of (bs ! i) \<and> incomplete (drop i bs)"
proof (induction bs rule: cut_off.induct)
  case (2 a s)
  have later: "\<exists>i < length (a # s). length (a # s) \<le> i + 3 \<and> 194 \<le> byte_of ((a # s) ! i) \<and> incomplete (drop i (a # s))"
    if n: "n - 1 \<le> length s \<and> 0 < n"
      and tail: "\<exists>i < length (drop (n - 1) s). length (drop (n - 1) s) \<le> i + 3 \<and> 194 \<le> byte_of (drop (n - 1) s ! i) \<and>
        incomplete (drop i (drop (n - 1) s))" for n
  proof -
    obtain i where "i < length s - (n - 1)" "length s - (n - 1) \<le> i + 3" "194 \<le> byte_of (s ! (n - 1 + i))"
      "incomplete (drop (i + (n - 1)) s)" using tail by auto
    moreover have "drop (n + i) (a # s) = drop (i + (n - 1)) s" "(a # s) ! (n + i) = s ! (n - 1 + i)"
      using n by (cases n; simp add: add.commute)+
    ultimately show ?thesis using n by (intro exI [of _ "n + i"]) (auto simp: add.commute)
  qed
  show ?case
  proof (cases "front_of a s")
    case (Whole n)
    with 2 have "cut_off (drop (n - 1) s)" by simp
    from 2(1) [OF Whole this] show ?thesis using later [of n] front_length [of a s n] Whole by simp
  next
    case (Broken n)
    with 2 have "cut_off (drop (n - 1) s)" by simp
    from 2(2) [OF Broken this] show ?thesis using later [of n] front_length [of a s n] Broken by simp
  next
    case Cut_Off
    then have "length s \<le> 2" "194 \<le> byte_of a"
      by (auto simp: front_of.simps width_of_def byte_in_def split: list.splits if_splits)
    with Cut_Off show ?thesis by (intro exI [of _ 0]) simp
  qed
qed simp

text \<open>Each page but the last ends where the decoding may be cut, and is not empty.\<close>

lemma page_ends:
  assumes "offset + length (take PAGE (drop offset f)) < length f"
    and "bs = (case page_cut (take PAGE (drop offset f)) of None \<Rightarrow> take PAGE (drop offset f) | Some i \<Rightarrow> take i (take PAGE (drop offset f)))"
  shows "0 < length bs \<and> bs = take (length bs) (drop offset f) \<and>
    lossy (drop offset f) = lossy bs @ lossy (drop (offset + length bs) f)"
proof -
  let ?p = "take PAGE (drop offset f)"
  have len: "length ?p = PAGE" using assms(1) by (auto simp: min_def split: if_splits)
  show ?thesis
  proof (cases "page_cut ?p")
    case None
    then have bs: "bs = ?p" using assms(2) by simp
    have "\<not> cut_off ?p"
    proof
      assume "cut_off ?p"
      then obtain i where "i < length ?p" "length ?p \<le> i + 3" "194 \<le> byte_of (?p ! i)" "incomplete (drop i ?p)"
        using cut_off_tail by blast
      then show False using None by (auto simp: page_cut_def find_None_iff)
    qed
    moreover have "drop offset f = ?p @ drop (offset + PAGE) f" by (metis append_take_drop_id drop_drop add.commute)
    ultimately have "lossy (drop offset f) = lossy ?p @ lossy (drop (offset + PAGE) f)" by (metis lossy_append)
    then show ?thesis using bs len by (simp add: PAGE_def)
  next
    case (Some i)
    then have i: "length ?p - 4 \<le> i" "i < length ?p" "194 \<le> byte_of (?p ! i)"
      by (auto simp: page_cut_def dest!: find_SomeD)
    have bs: "bs = take i ?p" using Some assms(2) by simp
    have lead: "drop i (drop offset f) = (?p ! i) # drop (Suc i) (drop offset f)"
      using i(2) assms(1) by (metis Cons_nth_drop_Suc length_take min_less_iff_conj nth_take)
    have "drop offset f = take i (drop offset f) @ drop i (drop offset f)" by (rule append_take_drop_id [symmetric])
    then have "lossy (drop offset f) = lossy (take i (drop offset f)) @ lossy (drop i (drop offset f))"
      using lossy_append_lead [OF i(3), of "take i (drop offset f)" "drop (Suc i) (drop offset f)"] lead by metis
    moreover have "bs = take i (drop offset f)" "length bs = i" using bs i(2) len by (simp_all add: min_absorb1)
    ultimately show ?thesis using i(1) len by (simp add: add.commute PAGE_def)
  qed
qed

lemma read_log_page:
  assumes "offset \<le> length f"
  shows "\<exists>c. read_log (Some f) offset = Inr (Some c) \<and> lc_offset c = offset \<and>
    (case lc_next c of
       None \<Rightarrow> lc_output c = lossy (drop offset f)
     | Some e \<Rightarrow> offset < e \<and> e < length f \<and> lossy (drop offset f) = lc_output c @ lossy (drop e f))"
proof -
  let ?p = "take PAGE (drop offset f)"
  define bs where "bs = (if offset + length ?p < length f then (case page_cut ?p of None \<Rightarrow> ?p | Some i \<Rightarrow> take i ?p) else ?p)"
  have run: "read_log (Some f) offset = Inr (Some \<lparr>lc_offset = offset, lc_output = lossy bs,
      lc_next = if offset + length bs < length f then Some (offset + length bs) else None\<rparr>)"
    using assms by (simp add: read_log_def Let_def bs_def)
  show ?thesis
  proof (cases "offset + length ?p < length f")
    case True
    then have "0 < length bs \<and> lossy (drop offset f) = lossy bs @ lossy (drop (offset + length bs) f)"
      using page_ends [OF True, of bs] by (simp add: bs_def)
    moreover have "length bs \<le> length ?p" by (auto simp: bs_def split: option.splits)
    ultimately show ?thesis using run True by simp
  next
    case False
    then have "bs = drop offset f" by (auto simp: bs_def min_def split: if_splits)
    with run assms show ?thesis by simp
  qed
qed

text \<open>All pages from an offset on, each asked for where the one before it ended.\<close>

function log_pages :: "string \<Rightarrow> nat \<Rightarrow> log_chunk list" where
  "log_pages f offset =
     (case read_log (Some f) offset of
        Inr (Some c) \<Rightarrow> c # (case lc_next c of None \<Rightarrow> [] | Some e \<Rightarrow> log_pages f e)
      | _ \<Rightarrow> [])"
  by pat_completeness auto
termination
proof (relation "measure (\<lambda>(f, offset). length f - offset)")
  fix f offset r o' c e
  assume r: "read_log (Some f) offset = Inr r" and c: "r = Some c" and e: "lc_next c = Some e"
  have "offset \<le> length f" using r by (auto simp: read_log_def split: if_splits)
  from read_log_page [OF this] show "((f, e), f, offset) \<in> measure (\<lambda>(f, offset). length f - offset)"
    using r c e by auto
qed simp

declare log_pages.simps [simp del]

lemma log_pages_from: "offset \<le> length f \<Longrightarrow> concat (List.map lc_output (log_pages f offset)) = lossy (drop offset f)"
proof (induction f offset rule: log_pages.induct)
  case (1 f offset)
  obtain c where c: "read_log (Some f) offset = Inr (Some c)"
    "case lc_next c of None \<Rightarrow> lc_output c = lossy (drop offset f)
     | Some e \<Rightarrow> offset < e \<and> e < length f \<and> lossy (drop offset f) = lc_output c @ lossy (drop e f)"
    using read_log_page [OF 1(2)] by blast
  show ?case
  proof (cases "lc_next c")
    case None
    with c show ?thesis by (simp add: log_pages.simps [of f offset])
  next
    case (Some e)
    then have e: "e \<le> length f" "lossy (drop offset f) = lc_output c @ lossy (drop e f)" using c(2) by simp_all
    from 1(1) [OF c(1) refl Some e(1)] show ?thesis using c(1) Some e(2) by (simp add: log_pages.simps [of f offset])
  qed
qed

text \<open>
  C39. The pages of a log, each read where the one before it ended, are together the lossy
  decoding of the whole log, whatever bytes it holds: no character is split between two
  pages, and a log that is UTF-8 comes back as it is.
\<close>

theorem log_pages_reassemble:
  "concat (List.map lc_output (log_pages f 0)) = lossy f \<and>
   (valid_utf8 f \<longrightarrow> concat (List.map lc_output (log_pages f 0)) = f)"
  using log_pages_from [of 0 f] valid_lossy [of f] by simp

lemma log_pages_reassemble_witness: "concat (List.map lc_output (log_pages ''built'' 0)) = ''built''"
proof -
  have "valid_utf8 ''built''" by code_simp
  then show ?thesis using log_pages_reassemble [of "''built''"] by blast
qed

end
