(* ===== verification/Runner.thy ===== *)
theory Runner
  imports Job_Log "HOL-Library.AList"
begin

text \<open>
  The execution of runs on a machine (\<open>src/src/fleet/native/jobs.rs\<close>, \<open>job_script.rs\<close>): the
  table of the executions the machine was sent, what a worker does with one from its claim
  to its final report, and the cache of instructions (\<open>src/src/jobs/store.rs\<close>,
  \<open>files.rs\<close>). A thread of the worker is a value \<open>executor\<close>; it holds the lock of its run
  until it returns. Processes are known by number and start time.
\<close>

section \<open>Tables\<close>

type_synonym process = "nat \<times> string"

record local_run =
  lr_generation :: int
  lr_dispatch :: dispatch
  lr_report :: report
  lr_owner :: "process option"
  lr_process :: "process option"
  lr_submitted :: bool
  lr_acknowledged :: bool

text \<open>Rows by the identifier of their run, in the order of their numbers.\<close>

record runner_db =
  rd_node :: string
  rd_rows :: "(string \<times> local_run) list"
  rd_revisions :: "((string \<times> int) \<times> snapshot) list"
  rd_runs :: "(string \<times> string \<times> int) list"
  rd_files :: files
  rd_logs :: "string \<times> int \<Rightarrow> string option"

definition put_row :: "string \<Rightarrow> local_run \<Rightarrow> runner_db \<Rightarrow> runner_db" where
  "put_row run l rd = rd\<lparr>rd_rows := AList.update run l (rd_rows rd)\<rparr>"

definition row_of :: "runner_db \<Rightarrow> string \<Rightarrow> local_run option" where
  "row_of rd run = map_of (rd_rows rd) run"

definition live_report :: "report \<Rightarrow> bool" where
  "live_report p \<longleftrightarrow> rp_state p \<in> {Report_Pending, Report_Running}"

lemma row_of_put [simp]: "row_of (put_row run l rd) = (row_of rd)(run \<mapsto> l)"
  by (simp add: row_of_def put_row_def update_conv' fun_eq_iff)

lemma put_row_simps [simp]:
  "rd_node (put_row run l rd) = rd_node rd" "rd_revisions (put_row run l rd) = rd_revisions rd"
  "rd_runs (put_row run l rd) = rd_runs rd" "rd_files (put_row run l rd) = rd_files rd" "rd_logs (put_row run l rd) = rd_logs rd"
  by (simp_all add: put_row_def)

section \<open>The cache of revisions\<close>

text \<open>
  A response with a run or a revision, its instructions included, is remembered: first the
  file, then the copies, which never change once they are made.
\<close>

definition cache_response :: "(string \<Rightarrow> string) \<Rightarrow> files \<Rightarrow> string \<Rightarrow> string \<Rightarrow> files result" where
  "cache_response sha fs digest text =
     (if sha text \<noteq> digest then failure ''instruction_corrupt'' ''Transferred instruction digest mismatch''
      else and_then (persist_markdown sha fs text) (\<lambda>(fs, d). Inr fs))"

definition insert_new :: "'a \<Rightarrow> 'b \<Rightarrow> ('a \<times> 'b) list \<Rightarrow> ('a \<times> 'b) list" where
  "insert_new k v xs = (if map_of xs k = None then xs @ [(k, v)] else xs)"

definition cache_copies :: "string option \<Rightarrow> snapshot \<Rightarrow> runner_db \<Rightarrow> runner_db result" where
  "cache_copies run s rd =
     (let key = (sn_job s, sn_revision s); revisions = insert_new key s (rd_revisions rd) in
      if map_of revisions key \<noteq> Some s then conflict ''An immutable cached revision changed''
      else case run of
        None \<Rightarrow> Inr (rd\<lparr>rd_revisions := revisions\<rparr>)
      | Some i \<Rightarrow>
          let runs = insert_new i key (rd_runs rd) in
          if map_of runs i \<noteq> Some key then conflict ''A cached run changed its immutable revision''
          else Inr (rd\<lparr>rd_revisions := revisions, rd_runs := runs\<rparr>))"

definition cache_job_response ::
  "(string \<Rightarrow> string) \<Rightarrow> string option \<Rightarrow> snapshot \<Rightarrow> string \<Rightarrow> string \<Rightarrow> runner_db \<Rightarrow> runner_db \<times> unit result" where
  "cache_job_response sha run s digest text rd =
     (let stored =
        (if jd_executable (sn_definition s) \<noteq> None then Inr (rd_files rd)
         else if digest \<noteq> sn_digest s then invalid ''Instruction transfer does not match its revision''
         else cache_response sha (rd_files rd) digest text) in
      case stored of
        Inl e \<Rightarrow> (rd, Inl e)
      | Inr fs \<Rightarrow>
          let rd = rd\<lparr>rd_files := fs\<rparr> in
          case cache_copies run s rd of Inl e \<Rightarrow> (rd, Inl e) | Inr rd \<Rightarrow> (rd, Inr ()))"

definition cached_job_run :: "job_ports \<Rightarrow> string \<Rightarrow> runner_db \<Rightarrow> snapshot result" where
  "cached_job_run p run rd =
     (case map_of (rd_runs rd) run of
        None \<Rightarrow> not_found ''Job run has not been synchronized to this machine''
      | Some key \<Rightarrow>
          (case map_of (rd_revisions rd) key of
             None \<Rightarrow> not_found ''Job run has not been synchronized to this machine''
           | Some s \<Rightarrow> and_then (job_instructions p (rd_files rd) s) (\<lambda>_. Inr s)))"

section \<open>Deliveries\<close>

definition fresh_row :: "dispatch \<Rightarrow> local_run" where
  "fresh_row d = \<lparr>lr_generation = dp_generation d, lr_dispatch = d, lr_report = report_pending d, lr_owner = None,
     lr_process = None, lr_submitted = False, lr_acknowledged = False\<rparr>"

text \<open>A delivery that brings nothing new, found before the instructions are stored.\<close>

definition stale_dispatch :: "dispatch \<Rightarrow> local_run \<Rightarrow> bool" where
  "stale_dispatch d l \<longleftrightarrow> dp_generation d < lr_generation l \<or>
     (lr_generation l = dp_generation d \<and> rn_snapshot (dp_run (lr_dispatch l)) = rn_snapshot (dp_run d) \<and>
        (dp_revoke (lr_dispatch l) \<or> \<not> dp_revoke d))"

definition place_dispatch :: "dispatch \<Rightarrow> runner_db \<Rightarrow> runner_db result" where
  "place_dispatch d rd =
     (let run = rn_id (dp_run d) in
      case row_of rd run of
        None \<Rightarrow> Inr (put_row run (fresh_row d) rd)
      | Some l \<Rightarrow>
          if dp_generation d < lr_generation l then Inr rd
          else if lr_generation l = dp_generation d then
            (if rn_snapshot (dp_run (lr_dispatch l)) \<noteq> rn_snapshot (dp_run d) then invalid ''Job snapshot changed within its generation''
             else Inr (if dp_revoke d \<and> \<not> dp_revoke (lr_dispatch l) then put_row run (l\<lparr>lr_dispatch := d\<rparr>) rd else rd))
          else if rp_state (lr_report l) \<noteq> Report_Released then invalid ''Previous job generation has not acknowledged release''
          else Inr (put_row run (fresh_row d) rd))"

definition receive_dispatch :: "(string \<Rightarrow> string) \<Rightarrow> dispatch \<Rightarrow> string \<Rightarrow> runner_db \<Rightarrow> runner_db \<times> unit result" where
  "receive_dispatch sha d text rd =
     (case validate_id (rn_id (dp_run d)) of
        Inl e \<Rightarrow> (rd, Inl e)
      | Inr _ \<Rightarrow>
          if dp_node d \<noteq> rd_node rd \<or> dp_generation d < 1 then (rd, invalid ''Job dispatch addressed to another machine'')
          else if (case row_of rd (rn_id (dp_run d)) of None \<Rightarrow> False | Some l \<Rightarrow> stale_dispatch d l) then (rd, Inr ())
          else
            case cache_job_response sha (Some (rn_id (dp_run d))) (rn_snapshot (dp_run d)) (sn_digest (rn_snapshot (dp_run d))) text rd of
              (rd, Inl e) \<Rightarrow> (rd, Inl e)
            | (rd, Inr _) \<Rightarrow> (case place_dispatch d rd of Inl e \<Rightarrow> (rd, Inl e) | Inr rd \<Rightarrow> (rd, Inr ())))"

section \<open>Reports\<close>

text \<open>The reports to send: all that are not acknowledged, but of those with a log eight at most.\<close>

definition unsent :: "runner_db \<Rightarrow> report list" where
  "unsent rd = List.map (\<lambda>(i, l). lr_report l) (filter (\<lambda>(i, l). \<not> lr_acknowledged l) (rd_rows rd))"

fun but_few :: "nat \<Rightarrow> report list \<Rightarrow> report list" where
  "but_few n [] = []"
| "but_few n (p # ps) =
     (if rp_log p = None then p # but_few n ps
      else case n of 0 \<Rightarrow> but_few 0 ps | Suc k \<Rightarrow> p # but_few k ps)"

definition pending_reports :: "runner_db \<Rightarrow> report list" where
  "pending_reports rd = but_few 8 (unsent rd)"

definition save_report :: "report \<Rightarrow> runner_db \<Rightarrow> runner_db result" where
  "save_report p rd =
     (case row_of rd (rp_run p) of
        None \<Rightarrow> invalid ''Job execution generation was fenced''
      | Some l \<Rightarrow>
          if lr_generation l \<noteq> rp_generation p then invalid ''Job execution generation was fenced''
          else Inr (put_row (rp_run p) (l\<lparr>lr_report := p, lr_acknowledged := False\<rparr>) rd))"

definition acknowledge_report :: "report \<Rightarrow> runner_db \<Rightarrow> runner_db result" where
  "acknowledge_report p rd =
     (let hit = (\<lambda>l. lr_generation l = rp_generation p \<and> lr_report l = p) in
      case (case rp_log p of None \<Rightarrow> None | Some c \<Rightarrow> lc_next c) of
        Some e \<Rightarrow>
          (case row_of rd (rp_run p) of
             None \<Rightarrow> Inr rd
           | Some l \<Rightarrow>
               if \<not> hit l \<or> lr_acknowledged l then Inr rd
               else and_then (read_log (rd_logs rd (rp_run p, rp_generation p)) e) (\<lambda>page.
                 case page of
                   None \<Rightarrow> invalid ''Missing script log during transfer''
                 | Some c \<Rightarrow> Inr (put_row (rp_run p) (l\<lparr>lr_report := p\<lparr>rp_log := Some c\<rparr>\<rparr>) rd)))
      | None \<Rightarrow>
          (case row_of rd (rp_run p) of
             None \<Rightarrow> Inr rd
           | Some l \<Rightarrow>
               if \<not> hit l \<or> live_report p then Inr rd
               else Inr ((put_row (rp_run p) (l\<lparr>lr_acknowledged := True\<rparr>) rd)
                 \<lparr>rd_logs := if rp_log p = None then rd_logs rd else (rd_logs rd)((rp_run p, rp_generation p) := None)\<rparr>)))"

section \<open>Execution\<close>

text \<open>Revoked, or no longer the execution of this generation.\<close>

definition revoked :: "dispatch \<Rightarrow> runner_db \<Rightarrow> bool" where
  "revoked d rd \<longleftrightarrow>
     (case row_of rd (rn_id (dp_run d)) of
        None \<Rightarrow> True
      | Some l \<Rightarrow> if lr_generation l = dp_generation d then dp_revoke (lr_dispatch l) else True)"

definition dispatch_script :: "dispatch \<Rightarrow> bool" where
  "dispatch_script d \<longleftrightarrow> is_script (dp_run d)"

fun take_chars :: "nat \<Rightarrow> string \<Rightarrow> string" where
  "take_chars n [] = []"
| "take_chars n (c # s) =
     (if continuation c then c # take_chars n s else case n of 0 \<Rightarrow> [] | Suc k \<Rightarrow> c # take_chars k s)"

definition finished_report :: "dispatch \<Rightarrow> report \<Rightarrow> report_state \<Rightarrow> string option \<Rightarrow> log_chunk option \<Rightarrow> int \<Rightarrow> report" where
  "finished_report d p st reason log now =
     p\<lparr>rp_state := st, rp_reason := map_option (take_chars 4096) reason, rp_log := if dispatch_script d then log else rp_log p,
       rp_finished_at := Some (max now (case rp_started_at p of None \<Rightarrow> 0 | Some t \<Rightarrow> t))\<rparr>"

definition finish :: "dispatch \<Rightarrow> report \<Rightarrow> report_state \<Rightarrow> string option \<Rightarrow> int \<Rightarrow> runner_db \<Rightarrow> runner_db result" where
  "finish d p st reason now rd =
     and_then (if dispatch_script d then read_log (rd_logs rd (rp_run p, rp_generation p)) 0 else Inr None) (\<lambda>log.
     save_report (finished_report d p st reason log now) rd)"

text \<open>
  What a worker sees of the machine: its own process, the processes that live, whether the
  surviving group of a process is gone after it was killed, how many runs a worker may
  still take beside its commands, and the clock.
\<close>

record machine_view =
  mv_self :: process
  mv_alive :: "process \<Rightarrow> bool"
  mv_group_gone :: "process \<Rightarrow> bool result"
  mv_slots :: "string \<Rightarrow> int"
  mv_stopped :: bool
  mv_now :: int

definition is_command :: "dispatch \<Rightarrow> bool" where
  "is_command d \<longleftrightarrow> jd_execution (sn_definition (rn_snapshot (dp_run d))) \<noteq> None"

definition active_commands :: "string \<Rightarrow> runner_db \<Rightarrow> nat" where
  "active_commands worker rd =
     length (filter (\<lambda>(i, l). rn_worker (dp_run (lr_dispatch l)) = Some worker \<and> is_command (lr_dispatch l) \<and>
       lr_owner l \<noteq> None \<and> live_report (lr_report l)) (rd_rows rd))"

text \<open>The start of an execution under the lock of its run: a session to run when there is one.\<close>

definition recover_execution :: "machine_view \<Rightarrow> dispatch \<Rightarrow> report \<Rightarrow> process option \<Rightarrow> runner_db \<Rightarrow> runner_db result" where
  "recover_execution v d p process rd =
     and_then (case process of None \<Rightarrow> Inr True | Some q \<Rightarrow> mv_group_gone v q) (\<lambda>gone.
       if \<not> gone
       then save_report (p\<lparr>rp_reason := Some ''Execution owner exited; waiting for surviving job processes to stop before reconciliation''\<rparr>) rd
       else finish d p (if revoked d rd then Report_Cancelled else Report_Failed)
         (Some ''Execution service restarted; interrupted attempt was stopped and will not be replayed'') (mv_now v) rd)"

definition claim_execution :: "machine_view \<Rightarrow> dispatch \<Rightarrow> local_run \<Rightarrow> runner_db \<Rightarrow> (runner_db \<times> bool) result" where
  "claim_execution v d l rd =
     and_then
       (if \<not> is_command d then Inr True
        else case rn_worker (dp_run d) of
          None \<Rightarrow> invalid ''Command has no worker''
        | Some worker \<Rightarrow> Inr (int (active_commands worker rd) < mv_slots v worker)) (\<lambda>free.
     Inr (if free then (put_row (rn_id (dp_run d)) (l\<lparr>lr_owner := Some (mv_self v)\<rparr>) rd, True) else (rd, False)))"

definition start_execution :: "machine_view \<Rightarrow> dispatch \<Rightarrow> runner_db \<Rightarrow> (runner_db \<times> report option) result" where
  "start_execution v d rd =
     (case row_of rd (rn_id (dp_run d)) of
        None \<Rightarrow> failure ''sqlite'' ''Query returned no rows''
      | Some l \<Rightarrow>
          if \<not> live_report (lr_report l) then Inr (rd, None)
          else if lr_generation l \<noteq> dp_generation d then failure ''sqlite'' ''Query returned no rows''
          else case lr_owner l of
            Some owner \<Rightarrow>
              if fst owner \<noteq> fst (mv_self v) \<and> mv_alive v owner then Inr (rd, None)
              else and_then (recover_execution v d (lr_report l) (lr_process l) rd) (\<lambda>rd. Inr (rd, None))
          | None \<Rightarrow>
              if revoked d rd
              then and_then (finish d (lr_report l) Report_Released (Some ''Revoked before launch'') (mv_now v) rd) (\<lambda>rd. Inr (rd, None))
              else and_then (claim_execution v d l rd) (\<lambda>(rd, claimed). Inr (rd, if claimed then Some (lr_report l) else None)))"

text \<open>
  The session of a claimed run. The process is recorded as it is launched; the intent is
  recorded before the instructions are written to it, in two statements.
\<close>

definition record_process :: "dispatch \<Rightarrow> process \<Rightarrow> runner_db \<Rightarrow> runner_db" where
  "record_process d q rd =
     (case row_of rd (rn_id (dp_run d)) of
        None \<Rightarrow> rd
      | Some l \<Rightarrow> if lr_generation l = dp_generation d then put_row (rn_id (dp_run d)) (l\<lparr>lr_process := Some q\<rparr>) rd else rd)"

definition mark_submitted :: "dispatch \<Rightarrow> process option \<Rightarrow> runner_db \<Rightarrow> runner_db" where
  \<comment> \<open>a script records its process in the same statement\<close>
  "mark_submitted d q rd =
     (case row_of rd (rn_id (dp_run d)) of
        None \<Rightarrow> rd
      | Some l \<Rightarrow>
          if lr_generation l = dp_generation d
          then put_row (rn_id (dp_run d)) (l\<lparr>lr_submitted := True, lr_process := if q = None then lr_process l else q\<rparr>) rd
          else rd)"

definition begun_report :: "dispatch \<Rightarrow> report \<Rightarrow> string option \<Rightarrow> int \<Rightarrow> report" where
  "begun_report d p session now =
     p\<lparr>rp_started_at := Some (max now (rn_created_at (dp_run d))),
       rp_session := if dispatch_script d then rp_session p else session,
       rp_state := if dispatch_script d \<or> session \<noteq> None then Report_Running else Report_Pending\<rparr>"

text \<open>What ends a session, or moves it on.\<close>

datatype turn_status = Turn_Completed | Turn_Interrupted | Turn_Failed

datatype session_event =
  Session_Opened string
| Turn_Ended turn_status "string option"
| Needs_Person
| Script_Exited bool string "int option"
| Log_Published
| Nothing_New

definition turn_outcome :: "turn_status \<Rightarrow> report_state \<times> string option" where
  "turn_outcome st =
     (case st of
        Turn_Completed \<Rightarrow> (Report_Succeeded, None)
      | Turn_Interrupted \<Rightarrow> (Report_Cancelled, Some ''Harness interrupted the job'')
      | Turn_Failed \<Rightarrow> (Report_Failed, Some ''Harness reported a failed turn; inspect the linked session''))"

definition event_outcome :: "session_event \<Rightarrow> (report_state \<times> string option) option" where
  "event_outcome e =
     (case e of
        Turn_Ended st _ \<Rightarrow> Some (turn_outcome st)
      | Needs_Person \<Rightarrow> Some (Report_Failed,
          Some ''Harness requires interactive input or approval; inspect the linked session and run again after resolving it'')
      | Script_Exited ok status _ \<Rightarrow> Some (if ok then (Report_Succeeded, None) else (Report_Failed, Some status))
      | _ \<Rightarrow> None)"

definition exit_result :: "dispatch \<Rightarrow> int option \<Rightarrow> report \<Rightarrow> report" where
  "exit_result d code p =
     (if is_command d
      then p\<lparr>rp_result := Some (JObject [(''exit_code'', case code of None \<Rightarrow> JNull | Some c \<Rightarrow> JInt c)])\<rparr> else p)"

definition event_report :: "dispatch \<Rightarrow> session_event \<Rightarrow> report \<Rightarrow> report" where
  "event_report d e p =
     (case e of
        Session_Opened s \<Rightarrow> p\<lparr>rp_session := Some s, rp_state := Report_Running\<rparr>
      | Turn_Ended _ session \<Rightarrow> p\<lparr>rp_session := if session = None then rp_session p else session\<rparr>
      | Script_Exited _ _ code \<Rightarrow> exit_result d code p
      | _ \<Rightarrow> p)"

section \<open>A session, step by step\<close>

text \<open>
  An executor between two statements: it claimed the run, launched the process, saw
  neither a revocation nor a stop, marked the run as submitted, saved the report of the
  start, or wrote the instructions.
\<close>

datatype phase = Claimed | Launched | Cleared | Marked | Begun | Prompted

record executor =
  ex_dispatch :: dispatch
  ex_report :: report
  ex_phase :: phase

definition claimed :: "dispatch \<Rightarrow> report \<Rightarrow> executor" where
  "claimed d p = \<lparr>ex_dispatch = d, ex_report = p, ex_phase = Claimed\<rparr>"

text \<open>The process of an agent is recorded as it is launched, that of a script with the mark.\<close>

definition launch :: "string option \<Rightarrow> process \<Rightarrow> executor \<Rightarrow> runner_db \<Rightarrow> runner_db \<times> executor" where
  "launch cwd q e rd =
     (if dispatch_script (ex_dispatch e) then rd else record_process (ex_dispatch e) q rd,
      e\<lparr>ex_report := (ex_report e)\<lparr>rp_cwd := cwd\<rparr>, ex_phase := Launched\<rparr>)"

definition interrupted :: "machine_view \<Rightarrow> executor \<Rightarrow> runner_db \<Rightarrow> bool" where
  "interrupted v e rd \<longleftrightarrow> revoked (ex_dispatch e) rd \<or> mv_stopped v"

definition stop_early :: "machine_view \<Rightarrow> int option \<Rightarrow> executor \<Rightarrow> runner_db \<Rightarrow> runner_db result" where
  \<comment> \<open>nothing was submitted, so a revoked run is given back\<close>
  "stop_early v code e rd =
     (let d = ex_dispatch e; p = (if dispatch_script d then exit_result d code (ex_report e) else ex_report e) in
      finish d p (if revoked d rd then Report_Released else Report_Cancelled)
        (Some (if dispatch_script d then ''Script stopped'' else ''Stopped before instructions were submitted'')) (mv_now v) rd)"

definition mark :: "process option \<Rightarrow> executor \<Rightarrow> runner_db \<Rightarrow> runner_db \<times> executor" where
  "mark q e rd = (mark_submitted (ex_dispatch e) (if dispatch_script (ex_dispatch e) then q else None) rd, e\<lparr>ex_phase := Marked\<rparr>)"

definition begin_turn :: "string option \<Rightarrow> int \<Rightarrow> executor \<Rightarrow> runner_db \<Rightarrow> (runner_db \<times> executor) result" where
  "begin_turn session now e rd =
     (let p = begun_report (ex_dispatch e) (ex_report e) session now in
      and_then (save_report p rd) (\<lambda>rd. Inr (rd, e\<lparr>ex_report := p, ex_phase := Begun\<rparr>)))"

definition stop_late :: "machine_view \<Rightarrow> int option \<Rightarrow> executor \<Rightarrow> runner_db \<Rightarrow> runner_db result" where
  "stop_late v code e rd =
     (let d = ex_dispatch e; p = (if dispatch_script d then exit_result d code (ex_report e) else ex_report e) in
      finish d p Report_Cancelled (Some (if dispatch_script d then ''Script stopped'' else ''Owned job execution stopped'')) (mv_now v) rd)"

definition handle_event :: "int \<Rightarrow> session_event \<Rightarrow> executor \<Rightarrow> runner_db \<Rightarrow> (runner_db \<times> executor option) result" where
  "handle_event now ev e rd =
     (let d = ex_dispatch e; p = event_report d ev (ex_report e) in
      case event_outcome ev of
        Some (st, reason) \<Rightarrow> and_then (finish d p st reason now rd) (\<lambda>rd. Inr (rd, None))
      | None \<Rightarrow>
          and_then (case ev of
              Log_Published \<Rightarrow> and_then (read_log (rd_logs rd (rp_run p, rp_generation p)) 0) (\<lambda>log. Inr (p\<lparr>rp_log := log\<rparr>))
            | _ \<Rightarrow> Inr p) (\<lambda>p.
          and_then (if ev = Nothing_New then Inr rd else save_report p rd) (\<lambda>rd. Inr (rd, Some (e\<lparr>ex_report := p\<rparr>)))))"

text \<open>An error of the session, once the group of its process is known to be gone.\<close>

definition fail_session :: "machine_view \<Rightarrow> string \<Rightarrow> executor \<Rightarrow> runner_db \<Rightarrow> runner_db result" where
  "fail_session v message e rd =
     (let d = ex_dispatch e in
      and_then (case row_of rd (rn_id (dp_run d)) of
          None \<Rightarrow> Inr True
        | Some l \<Rightarrow> (case lr_process l of None \<Rightarrow> Inr True | Some q \<Rightarrow> mv_group_gone v q)) (\<lambda>gone.
      if \<not> gone then invalid message
      else finish d (ex_report e) (if revoked d rd then Report_Cancelled else Report_Failed) (Some message) (mv_now v) rd))"

end
