(* ===== verification/Job_Custody.thy ===== *)
theory Job_Custody
  imports Job_Requests Runner
begin

text \<open>
  What the operations of the supervisor keep of the custody of runs: only an accepted
  release moves a run to its next generation, and only an accepted report makes a run
  that is no group succeed.
\<close>

section \<open>Owners\<close>

definition same_custody :: "run_owner \<Rightarrow> run_owner \<Rightarrow> bool" where
  "same_custody w v \<longleftrightarrow> ow_run v = ow_run w \<and> ow_generation v = ow_generation w \<and> (ow_node w \<noteq> None \<longrightarrow> ow_node v = ow_node w)"

definition custody_kept :: "jobs_db \<Rightarrow> jobs_db \<Rightarrow> bool" where
  "custody_kept db db' \<longleftrightarrow>
     (\<forall>w \<in> set (js_owners db). \<exists>v \<in> set (js_owners db'). same_custody w v) \<and>
     (\<forall>q \<in> set (js_runs db'). rn_state q = Succeeded \<longrightarrow> \<not> is_group q \<longrightarrow>
        (\<exists>r \<in> set (js_runs db). rn_id r = rn_id q \<and> rn_state r = Succeeded \<and> \<not> is_group r))"

lemma custody_refl [simp]: "custody_kept db db"
  by (auto simp: custody_kept_def same_custody_def)

lemma custody_trans: "custody_kept a b \<Longrightarrow> custody_kept b c \<Longrightarrow> custody_kept a c"
  unfolding custody_kept_def same_custody_def by (metis (no_types, lifting))

lemma custody_more:
  "js_runs db' = js_runs db \<Longrightarrow> set (js_owners db) \<subseteq> set (js_owners db') \<Longrightarrow> custody_kept db db'"
  by (auto simp: custody_kept_def same_custody_def)

lemma custody_owner:
  assumes "\<And>w. ow_run w = i \<Longrightarrow> same_custody w (f w)"
  shows "custody_kept db (update_owner i f db)"
proof -
  have "\<exists>v \<in> set (js_owners (update_owner i f db)). same_custody w v" if "w \<in> set (js_owners db)" for w
    using that assms by (intro bexI [of _ "if ow_run w = i then f w else w"])
      (auto simp: update_owner_def same_custody_def)
  then show ?thesis by (auto simp: custody_kept_def)
qed

lemma custody_run:
  assumes "\<And>r. rn_id r = i \<Longrightarrow> rn_state (f r) = Succeeded \<Longrightarrow> \<not> is_group (f r) \<Longrightarrow> rn_state r = Succeeded \<and> rn_id (f r) = i \<and> \<not> is_group r"
  shows "custody_kept db (update_run i f db)"
  using assms by (fastforce simp: custody_kept_def same_custody_def update_run_def)

lemma custody_announce: "announce r db = Inr db' \<Longrightarrow> custody_kept db db'"
  by (auto simp: announce_def Let_def split: option.splits if_splits intro!: custody_more)

lemma custody_insert: "insert_run r db = Inr db' \<Longrightarrow> rn_state r \<noteq> Succeeded \<Longrightarrow> custody_kept db db'"
  by (auto simp: insert_run_def custody_kept_def same_custody_def split: if_splits)

lemma custody_complete:
  assumes "complete_run r st reason now db = Inr db'" and "st \<noteq> Succeeded"
  shows "custody_kept db db'"
proof -
  let ?db1 = "update_run (rn_id r) (\<lambda>r. r\<lparr>rn_state := st, rn_reason := reason, rn_finished_at := Some now\<rparr>) db"
  obtain q where "announce q ?db1 = Inr db'" using assms(1) by (auto simp: complete_run_def Let_def)
  moreover have "custody_kept db ?db1" by (rule custody_run) (use assms(2) in simp)
  ultimately show ?thesis using custody_announce custody_trans by blast
qed

lemma custody_stop_run:
  assumes "stop_run now r db = Inr db'"
  shows "custody_kept db db'"
proof -
  let ?db1 = "update_owner (rn_id r) (\<lambda>w. w\<lparr>ow_revoking := True, ow_stop := True\<rparr>) db"
  have 1: "custody_kept db ?db1" by (rule custody_owner) (simp add: same_custody_def)
  have "db' = db \<or> db' = ?db1 \<or> complete_run r Cancelled (Some ''Stopped before dispatch'') now ?db1 = Inr db'"
    using assms by (auto simp: stop_run_def Let_def split: if_splits)
  then show ?thesis using 1 custody_complete [of r Cancelled] custody_trans custody_refl by blast
qed

lemma custody_reconcile:
  assumes "reconcile_job_groups db = Inr db'" and "job_inv db"
  shows "custody_kept db db'"
proof -
  have "js_role db \<noteq> ''agent''" using assms(1) by (auto simp: reconcile_job_groups_def job_authority_def)
  then have gd: "groups_done {r \<in> set (js_runs db). group_root r} db db'"
    using reconcile_step [OF assms(2)] assms(1) by auto
  have inv': "job_inv db'" and fwd: "runs_forward db db'" using gd by (auto simp: groups_done_def good_def)
  have "\<exists>r \<in> set (js_runs db). rn_id r = rn_id q \<and> rn_state r = Succeeded \<and> \<not> is_group r"
    if q: "q \<in> set (js_runs db')" "rn_state q = Succeeded" "\<not> is_group q" for q
  proof -
    have "rn_id ` set (js_runs db') = rn_id ` set (js_runs db)" using gd by (simp add: groups_done_def)
    then have "rn_id q \<in> rn_id ` set (js_runs db)" using q(1) by blast
    then obtain r where r: "r \<in> set (js_runs db)" "rn_id r = rn_id q" by force
    obtain x where x: "x \<in> set (js_runs db')" "forward r x" using fwd r(1) by (auto simp: runs_forward_def)
    have "x = q" using same_id [OF job_invD(5) [OF inv'] x(1) q(1)] forward_id [OF x(2)] r(2) by simp
    then have "\<not> is_group r" using forward_group [OF x(2)] q(3) by simp
    then have "r \<in> set (js_runs db')" using gd r(1) by (auto simp: groups_done_def group_root_iff)
    then have "r = q" using same_id [OF job_invD(5) [OF inv'] _ q(1)] r(2) by blast
    with r q show ?thesis by blast
  qed
  then show ?thesis using gd by (auto simp: custody_kept_def groups_done_def same_custody_def)
qed

lemma custody_stop:
  assumes "stop_scheduled_job project job run now db = (db', res)" and "job_inv db"
  shows "custody_kept db db'"
proof (cases "stop_runs project job run now db")
  case (Inl e)
  with assms(1) show ?thesis by (simp add: stop_scheduled_job_def)
next
  case (Inr db1)
  let ?rs = "filter (\<lambda>r. rn_id r = run \<or> rn_parent r = Some run) (js_runs db)"
  have run: "fold_result (stop_run now) ?rs db = Inr db1" using Inr by (auto simp: stop_runs_def split: if_splits)
  have 1: "custody_kept db db1"
    by (rule fold_result_invariant [OF run, where P = "custody_kept db"]) (auto dest: custody_stop_run intro: custody_trans)
  obtain dbx where "fold_result (stop_run now) ?rs db = Inr dbx" "good db dbx"
    using stop_runs_step [OF assms(2) distinct_filter_runs [OF assms(2)] filter_is_subset] by blast
  with run have inv1: "job_inv db1" by (simp add: good_def)
  show ?thesis
  proof (cases "reconcile_job_groups db1")
    case (Inl e)
    with Inr assms(1) 1 show ?thesis by (simp add: stop_scheduled_job_def)
  next
    case (Inr db2)
    with \<open>stop_runs project job run now db = Inr db1\<close> assms(1) have "db' = db2" by (simp add: stop_scheduled_job_def)
    with custody_trans [OF 1 custody_reconcile [OF Inr inv1]] show ?thesis by simp
  qed
qed

lemma custody_expand_machine:
  assumes "expand_machine r x db = Inr db'"
  shows "custody_kept db db'"
proof (cases x)
  case (Pair node child)
  let ?owned = "\<lambda>db. db\<lparr>js_owners := js_owners db @ [new_owner child]\<rparr>"
  have more: "custody_kept d (?owned d)" for d :: jobs_db by (rule custody_more) auto
  show ?thesis
  proof (cases "insert_run (child_run r child node) db")
    case (Inl e)
    with assms Pair more [of db] show ?thesis by (auto simp: expand_machine_def split: if_splits)
  next
    case (Inr db1)
    have 1: "custody_kept db db1" by (rule custody_insert [OF Inr]) (simp add: child_run_def)
    obtain q db2 where "db2 = db1 \<or> db2 = ?owned db1" "announce q db2 = Inr db'"
      using assms Pair Inr by (auto simp: expand_machine_def Let_def split: if_splits)
    then show ?thesis using 1 more custody_announce custody_trans by blast
  qed
qed

lemma custody_expand:
  assumes "expand_job_machines run nodes db = Inr db'"
  shows "custody_kept db db'"
proof (cases "db' = db")
  case False
  then obtain r where run: "fold_result (expand_machine r) nodes db = Inr db'"
    using assms by (auto simp: expand_job_machines_def split: if_splits)
  show ?thesis
    by (rule fold_result_invariant [OF run, where P = "custody_kept db"]) (auto dest: custody_expand_machine intro: custody_trans)
qed simp

lemma custody_enqueue:
  assumes "enqueue_job p fs run oc db = Inr (db', r)"
  shows "custody_kept db db'"
proof (cases "existing_run db oc")
  case None
  obtain b db1 db2 where 1: "insert_run (new_run run oc b) db = Inr db1" "announce r db2 = Inr db'"
    "js_runs db2 = js_runs db1" "set (js_owners db1) \<subseteq> set (js_owners db2)"
    using enqueue_stages [OF assms None] by blast
  have "custody_kept db db1" by (rule custody_insert [OF 1(1)]) (simp add: new_run_def)
  then show ?thesis using custody_more [OF 1(3,4)] custody_announce [OF 1(2)] custody_trans by blast
qed (use assms in \<open>simp add: enqueue_job_def\<close>)

lemma custody_assign:
  assumes "assign_job run node worker db = Inr (db', b)"
  shows "custody_kept db db'"
proof -
  let ?free = "\<lambda>w. ow_run w = run \<and> ow_node w = None \<and> \<not> ow_stop w \<and> list_ex (\<lambda>r. rn_id r = run \<and> rn_state r = Pending) (js_runs db)"
  let ?db1 = "update_owner run (\<lambda>w. if ?free w then w\<lparr>ow_node := Some node\<rparr> else w) db"
  have 1: "custody_kept db ?db1" by (rule custody_owner) (simp add: same_custody_def)
  have 2: "custody_kept ?db1 (update_run run (\<lambda>r. r\<lparr>rn_worker := Some worker, rn_reason := None\<rparr>) ?db1)"
    by (rule custody_run) (simp add: is_group_def)
  have "db' = ?db1 \<or> db' = update_run run (\<lambda>r. r\<lparr>rn_worker := Some worker, rn_reason := None\<rparr>) ?db1"
    using assms by (auto simp: assign_job_def Let_def)
  with 1 custody_trans [OF 1 2] show ?thesis by blast
qed

lemma supervisor_custody:
  assumes "supervisor_step p db db'" and "job_inv db"
  shows "custody_kept db db'"
  using assms(1)
proof (cases rule: supervisor_step.cases)
  case (change fs project actor key c now fs' j)
  have "db' = db \<or> (\<exists>k q. commit_change db actor k (jp_sha p (jp_encode p c)) q now = Inr (db', j))"
    using change by (auto simp: change_job_def Let_def split: sum.splits option.splits prod.splits)
  then show ?thesis using commit_same by (fastforce intro: custody_more)
next
  case (revoke run node generation)
  then have "db' = update_owner run (\<lambda>w. if ow_node w = Some node \<and> ow_generation w = generation then w\<lparr>ow_revoking := True\<rparr> else w) db"
    by (auto simp: revoke_job_def)
  then show ?thesis by (simp add: custody_owner same_custody_def)
next
  case (unavailable run reason)
  have "custody_kept db (update_run run (\<lambda>r. r\<lparr>rn_reason := Some reason\<rparr>) db)" by (rule custody_run) (simp add: is_group_def)
  then show ?thesis using unavailable by (auto simp: unavailable_job_def split: if_splits)
next
  case enqueue
  then show ?thesis by (rule custody_enqueue)
next
  case expand
  then show ?thesis by (rule custody_expand)
next
  case assign
  from assign(1) show ?thesis by (rule custody_assign)
next
  case stop
  then show ?thesis using assms(2) by (rule custody_stop)
next
  case reconcile
  then show ?thesis using assms(2) by (rule custody_reconcile)
qed

section \<open>Reports\<close>

text \<open>What an accepted report does: the run is left alone, moves to its next generation, or its row changes.\<close>

lemma accept_cases:
  assumes "accept_job_report node p db = Inr (db', b)" and "job_inv db"
  obtains (unknown) "db' = db" "\<not> b"
  | (ended) r where "r \<in> set (js_runs db)" "rn_id r = rp_run p" "\<not> run_active r" "db' = db" "b"
  | (noted) "rp_state p = Report_Pending" "custody_kept db db'" "b"
  | (released) w where "w \<in> set (js_owners db)" "ow_run w = rp_run p" "ow_node w = Some node" "ow_generation w = rp_generation p"
      "rp_state p = Report_Released" "b"
      "db' = update_owner (rp_run p) (\<lambda>w. w\<lparr>ow_node := None, ow_generation := ow_generation w + 1, ow_revoking := False\<rparr>) db"
  | (reported) w r where "w \<in> set (js_owners db)" "ow_run w = rp_run p" "ow_node w = Some node" "ow_generation w = rp_generation p"
      "r \<in> set (js_runs db)" "rn_id r = rp_run p" "run_active r" "\<not> is_group r" "rp_state p \<noteq> Report_Pending" "b"
      "check_report w r p = Inr ()" "accept_running node (ow_stop w) p r db = Inr db'"
proof (cases "find (\<lambda>w. ow_run w = rp_run p \<and> ow_node w = Some node \<and> ow_generation w = rp_generation p) (js_owners db)")
  case None
  then show thesis using assms(1) unknown by (auto simp: accept_job_report_def)
next
  case (Some w)
  then have w: "w \<in> set (js_owners db)" "ow_run w = rp_run p" "ow_node w = Some node" "ow_generation w = rp_generation p"
    by (auto dest: find_SomeD)
  obtain r where r: "get_run db (rp_run p) = Inr r" "r \<in> set (js_runs db)" "rn_id r = rp_run p" "\<not> is_group r"
    using reporting_run [OF assms(2) Some] by blast
  consider (a) "\<not> run_active r" | (b) "run_active r" "rp_state p = Report_Pending"
    | (c) "run_active r" "rp_state p = Report_Released" "\<not> ow_stop w" "rp_state p \<noteq> Report_Pending"
    | (d) "run_active r" "rp_state p \<noteq> Report_Pending" "\<not> (rp_state p = Report_Released \<and> \<not> ow_stop w)" by blast
  then show thesis
  proof cases
    case a
    then have "db' = db" "b" using assms(1) Some r(1) by (auto simp: accept_job_report_def)
    with a r(2,3) show thesis by (intro ended)
  next
    case b
    have "custody_kept db (update_run (rn_id r) (\<lambda>r. r\<lparr>rn_reason := rp_reason p\<rparr>) db)"
      by (rule custody_run) (simp add: is_group_def)
    moreover have "db' = db \<or> db' = update_run (rn_id r) (\<lambda>r. r\<lparr>rn_reason := rp_reason p\<rparr>) db" "b"
      using assms(1) Some r(1) b by (auto simp: accept_job_report_def split: if_splits)
    ultimately show thesis using noted [OF b(2)] custody_refl by blast
  next
    case c
    then have "b" "db' = update_owner (rp_run p) (\<lambda>w. w\<lparr>ow_node := None, ow_generation := ow_generation w + 1, ow_revoking := False\<rparr>) db"
      using assms(1) Some r(1) by (auto simp: accept_job_report_def)
    then show thesis by (rule released [OF w c(2)])
  next
    case d
    then have ok: "b" "check_report w r p = Inr ()" "accept_running node (ow_stop w) p r db = Inr db'"
      using assms(1) Some r(1) by (auto simp: accept_job_report_def split: if_splits)
    show thesis by (rule reported [OF w r(2,3) d(1) r(4) d(2) ok])
  qed
qed

lemma announced_same: "announce r db = Inr db' \<Longrightarrow> js_runs db' = js_runs db \<and> js_owners db' = js_owners db"
  by (auto simp: announce_def Let_def split: option.splits if_splits)

lemma get_run_id: "get_run db i = Inr r \<Longrightarrow> rn_id r = i"
  by (auto simp: get_run_def find_run_def split: option.splits dest!: find_SomeD)

lemma complete_effect:
  assumes "complete_run r st reason now db = Inr db'"
  shows "js_owners db' = js_owners db \<and> (\<forall>q \<in> set (js_runs db'). if rn_id q = rn_id r then rn_state q = st else q \<in> set (js_runs db))"
proof -
  let ?db1 = "update_run (rn_id r) (\<lambda>r. r\<lparr>rn_state := st, rn_reason := reason, rn_finished_at := Some now\<rparr>) db"
  obtain q where "announce q ?db1 = Inr db'" using assms by (auto simp: complete_run_def Let_def)
  then have "js_runs db' = js_runs ?db1" "js_owners db' = js_owners db" by (auto dest!: announced_same simp: update_run_def)
  then show ?thesis by (auto simp: update_run_def)
qed

lemma start_effect:
  assumes "record_start node p r db = Inr (db1, r1)"
  shows "rn_id r1 = rn_id r \<and> js_owners db1 = js_owners db \<and>
    (\<forall>q \<in> set (js_runs db1). q \<in> set (js_runs db) \<or> (rn_id q = rn_id r \<and> rn_state q = Running))"
proof (cases "rn_started_at r = None \<and> rp_started_at p \<noteq> None")
  case True
  let ?db0 = "register_session r p (update_run (rn_id r) (started_row node p) db)"
  have "get_run ?db0 (rn_id r) = Inr r1" "announce r1 ?db0 = Inr db1"
    using assms True by (auto simp: record_start_def Let_def)
  then have "js_runs db1 = js_runs ?db0" "js_owners db1 = js_owners ?db0" "rn_id r1 = rn_id r"
    using announced_same get_run_id by blast+
  then show ?thesis by (auto simp: update_run_def started_row_def)
next
  case False
  then have "(db1, r1) = (db, r)" using assms by (simp only: record_start_def if_False) simp
  then show ?thesis by simp
qed

definition final_page :: "report \<Rightarrow> bool" where
  "final_page p \<longleftrightarrow> \<not> live_report p \<and> (case rp_log p of None \<Rightarrow> True | Some c \<Rightarrow> lc_next c = None)"

lemma accept_running_effect:
  assumes "accept_running node st p r db = Inr db'"
  shows "js_owners db' = js_owners db \<and>
    (\<forall>q \<in> set (js_runs db'). q \<in> set (js_runs db) \<or> (rn_id q = rn_id r \<and> (rn_state q = Succeeded \<longrightarrow> rp_state p = Report_Succeeded))) \<and>
    (final_page p \<longrightarrow> (\<forall>q \<in> set (js_runs db'). rn_id q = rn_id r \<longrightarrow> \<not> run_active q))"
proof -
  obtain db1 r1 where 1: "record_start node p r db = Inr (db1, r1)"
    and rest: "and_then (take_log p r1 db1) (\<lambda>(db, continued).
      if continued \<or> rp_state p = Report_Running then Inr db
      else complete_run r1 (final_state st (rp_state p)) (rp_reason p) (the (rp_finished_at p)) (keep_result p r1 db)) = Inr db'"
    using assms by (auto simp only: accept_running_def and_then_Inr split_paired_Ex case_prod_conv)
  obtain db2 c where 2: "take_log p r1 db1 = Inr (db2, c)"
    and last: "(if c \<or> rp_state p = Report_Running then Inr db2
      else complete_run r1 (final_state st (rp_state p)) (rp_reason p) (the (rp_finished_at p)) (keep_result p r1 db2)) = Inr db'"
    using rest by (auto simp only: and_then_Inr split_paired_Ex case_prod_conv)
  have same: "js_runs db2 = js_runs db1" "js_owners db2 = js_owners db1" using take_log_same [OF 2] by auto
  have c: "c \<longleftrightarrow> \<not> (case rp_log p of None \<Rightarrow> True | Some d \<Rightarrow> lc_next d = None)"
    using 2 by (auto simp: take_log_def split: option.splits if_splits)
  note s = start_effect [OF 1]
  show ?thesis
  proof (cases "c \<or> rp_state p = Report_Running")
    case True
    then have "db' = db2" using last by simp
    moreover have "\<not> final_page p" using True c by (auto simp: final_page_def live_report_def)
    ultimately show ?thesis using s same by fastforce
  next
    case False
    then have "complete_run r1 (final_state st (rp_state p)) (rp_reason p) (the (rp_finished_at p)) (keep_result p r1 db2) = Inr db'"
      using last by simp
    note e = complete_effect [OF this]
    have "final_state st (rp_state p) = Succeeded \<longrightarrow> rp_state p = Report_Succeeded"
      "final_state st (rp_state p) \<notin> {Pending, Running}"
      by (auto simp: final_state_def split: report_state.splits if_splits)
    note st = this
    have "(q \<in> set (js_runs db) \<or> (rn_id q = rn_id r \<and> (rn_state q = Succeeded \<longrightarrow> rp_state p = Report_Succeeded))) \<and>
        (rn_id q = rn_id r \<longrightarrow> \<not> run_active q)" if "q \<in> set (js_runs db')" for q
    proof (cases "rn_id q = rn_id r")
      case True
      then have "rn_state q = final_state st (rp_state p)" using e s that by auto
      with st True show ?thesis by (simp add: run_active_def)
    next
      case False
      then have "q \<in> set (js_runs db1)" using e s same that by auto
      with s False show ?thesis by auto
    qed
    moreover have "js_owners db' = js_owners db" using e s same by simp
    ultimately show ?thesis by blast
  qed
qed

text \<open>Whether an execution is over for the supervisor: it gave the run to a later generation, or the run has ended.\<close>

definition settled :: "jobs_db \<Rightarrow> string \<Rightarrow> int \<Rightarrow> bool" where
  "settled db i g \<longleftrightarrow> (\<exists>w \<in> set (js_owners db). ow_run w = i \<and> g < ow_generation w) \<or>
     (\<exists>r \<in> set (js_runs db). rn_id r = i \<and> \<not> run_active r)"

definition next_custody :: "run_owner \<Rightarrow> run_owner \<Rightarrow> bool" where
  "next_custody w v \<longleftrightarrow> same_custody w v \<or> (ow_run v = ow_run w \<and> ow_generation w < ow_generation v)"

definition custody_moves :: "jobs_db \<Rightarrow> jobs_db \<Rightarrow> bool" where
  "custody_moves db db' \<longleftrightarrow> (\<forall>w \<in> set (js_owners db). \<exists>v \<in> set (js_owners db'). next_custody w v)"

lemma settled_stays:
  assumes "settled db i g" and "custody_moves db db'" and "runs_forward db db'"
  shows "settled db' i g"
proof -
  consider (w) w where "w \<in> set (js_owners db)" "ow_run w = i" "g < ow_generation w"
    | (r) r where "r \<in> set (js_runs db)" "rn_id r = i" "\<not> run_active r"
    using assms(1) by (auto simp: settled_def)
  then show ?thesis
  proof cases
    case w
    then obtain v where "v \<in> set (js_owners db')" "next_custody w v" using assms(2) by (auto simp: custody_moves_def)
    with w show ?thesis by (auto simp: settled_def next_custody_def same_custody_def intro!: bexI [of _ v])
  next
    case r
    then obtain q where "q \<in> set (js_runs db')" "forward r q" using assms(3) by (auto simp: runs_forward_def)
    with r show ?thesis by (auto simp: settled_def forward_def evolves_run_def)
  qed
qed

lemma kept_moves: "custody_kept db db' \<Longrightarrow> custody_moves db db'"
  by (auto simp: custody_kept_def custody_moves_def next_custody_def)

lemma owners_moves: "js_owners db' = js_owners db \<Longrightarrow> custody_moves db db'"
  by (auto simp: custody_moves_def next_custody_def same_custody_def)

lemma in_update_owner: "w \<in> set (js_owners db) \<Longrightarrow> (if ow_run w = i then f w else w) \<in> set (js_owners (update_owner i f db))"
  by (auto simp: update_owner_def)

lemma release_moves:
  "custody_moves db (update_owner i (\<lambda>w. w\<lparr>ow_node := None, ow_generation := ow_generation w + 1, ow_revoking := False\<rparr>) db)"
  unfolding custody_moves_def
proof
  fix w assume "w \<in> set (js_owners db)"
  from in_update_owner [OF this, of i "\<lambda>w. w\<lparr>ow_node := None, ow_generation := ow_generation w + 1, ow_revoking := False\<rparr>"]
  show "\<exists>v \<in> set (js_owners (update_owner i (\<lambda>w. w\<lparr>ow_node := None, ow_generation := ow_generation w + 1, ow_revoking := False\<rparr>) db)).
      next_custody w v"
    by (rule bexI [rotated]) (simp add: next_custody_def same_custody_def)
qed

lemma accept_moves:
  assumes "accept_job_report node p db = Inr (db', b)" and "job_inv db"
  shows "custody_moves db db'"
  using assms by (cases rule: accept_cases) (auto intro: kept_moves release_moves owners_moves dest: accept_running_effect)

text \<open>A final report that was accepted settles its execution, and only a success makes a run succeed.\<close>

lemma accept_settles:
  assumes "accept_job_report node p db = Inr (db', b)" and "job_inv db" and "b" and "final_page p"
  shows "settled db' (rp_run p) (rp_generation p)"
  using assms(1,2)
proof (cases rule: accept_cases)
  case (ended r)
  then show ?thesis by (auto simp: settled_def)
next
  case noted
  then show ?thesis using assms(4) by (simp add: final_page_def live_report_def)
next
  case (released w)
  from in_update_owner [OF released(1), of "rp_run p" "\<lambda>w. w\<lparr>ow_node := None, ow_generation := ow_generation w + 1, ow_revoking := False\<rparr>"]
  have "w\<lparr>ow_node := None, ow_generation := ow_generation w + 1, ow_revoking := False\<rparr> \<in> set (js_owners db')"
    using released(2,7) by simp
  then show ?thesis using released(2,4) unfolding settled_def by (intro disjI1 bexI) simp_all
next
  case (reported w r)
  have "r \<in> set (js_runs db)" by fact
  moreover have "runs_forward db db'" using accept_good [OF assms(2,1)] by (simp add: good_def)
  ultimately obtain q where q: "q \<in> set (js_runs db')" "forward r q" by (auto simp: runs_forward_def)
  have "\<not> run_active q" using accept_running_effect [OF reported(12)] assms(4) q forward_id by metis
  then show ?thesis using q forward_id reported(6) by (auto simp: settled_def)
qed (use assms(3) in simp)

lemma accept_success:
  assumes "accept_job_report node p db = Inr (db', b)" and "job_inv db"
    and "q \<in> set (js_runs db')" and "rn_state q = Succeeded" and "\<not> is_group q"
  shows "(rn_id q = rp_run p \<and> rp_state p = Report_Succeeded) \<or>
    (\<exists>r \<in> set (js_runs db). rn_id r = rn_id q \<and> rn_state r = Succeeded \<and> \<not> is_group r)"
  using assms(1,2)
proof (cases rule: accept_cases)
  case noted
  then show ?thesis using assms(3-5) by (auto simp: custody_kept_def)
next
  case (reported w r)
  then show ?thesis using accept_running_effect [OF reported(12)] assms(3-5) by (metis (no_types, lifting))
qed (use assms(3-5) in auto)

end
