(* ===== verification/Job_Machine.thy ===== *)
theory Job_Machine
  imports Job_Custody
begin

text \<open>
  What one machine does for one run (\<open>src/src/fleet/native/jobs.rs\<close>, \<open>job_script.rs\<close>), as
  steps between the transactions of its tables: a dispatch or an acknowledgement arrives, an
  executor claims the run and goes through its phases, or it dies between any two statements.
  The lemmas show what a step keeps of the row, the executor and the instructions written.
\<close>

section \<open>Machines\<close>

text \<open>
  A step of a machine for one run: its tables, the executor of the run, if a thread holds
  the lock, and the generations under which the instructions of the run were written.
  \<open>ds\<close> are the dispatches sent so far, \<open>qs\<close> the reports of this machine that the supervisor
  acknowledged. The dispatch of an execution was read from the table at an earlier time.
\<close>

inductive machine_step ::
  "(string \<Rightarrow> string) \<Rightarrow> dispatch set \<Rightarrow> report set \<Rightarrow> string \<Rightarrow>
   runner_db \<times> executor option \<times> int list \<Rightarrow> runner_db \<times> executor option \<times> int list \<Rightarrow> bool" for sha ds qs i where
  receive: "d \<in> ds \<Longrightarrow> rn_id (dp_run d) = i \<Longrightarrow> receive_dispatch sha d text rd = (rd', res) \<Longrightarrow>
    machine_step sha ds qs i (rd, ex, gs) (rd', ex, gs)"
| acknowledge: "q \<in> qs \<Longrightarrow> rp_run q = i \<Longrightarrow> acknowledge_report q rd = Inr rd' \<Longrightarrow>
    machine_step sha ds qs i (rd, ex, gs) (rd', ex, gs)"
| write_log: "machine_step sha ds qs i (rd, ex, gs) (rd\<lparr>rd_logs := logs\<rparr>, ex, gs)"
| execute: "d \<in> ds \<Longrightarrow> dp_node d = rd_node rd \<Longrightarrow> rn_id (dp_run d) = i \<Longrightarrow> start_execution v d rd = Inr (rd', claim) \<Longrightarrow>
    machine_step sha ds qs i (rd, None, gs) (rd', map_option (claimed d) claim, gs)"
| launch: "ex_phase e = Claimed \<Longrightarrow> launch cwd q e rd = (rd', e') \<Longrightarrow>
    machine_step sha ds qs i (rd, Some e, gs) (rd', Some e', gs)"
| clear: "ex_phase e = Launched \<Longrightarrow> \<not> interrupted v e rd \<Longrightarrow>
    machine_step sha ds qs i (rd, Some e, gs) (rd, Some (e\<lparr>ex_phase := Cleared\<rparr>), gs)"
| stop_early: "ex_phase e = Launched \<Longrightarrow> interrupted v e rd \<Longrightarrow> stop_early v code e rd = Inr rd' \<Longrightarrow>
    machine_step sha ds qs i (rd, Some e, gs) (rd', None, gs)"
| mark: "ex_phase e = Cleared \<Longrightarrow> mark q e rd = (rd', e') \<Longrightarrow>
    machine_step sha ds qs i (rd, Some e, gs) (rd', Some e', gs)"
| begin_turn: "ex_phase e = Marked \<Longrightarrow> begin_turn session now e rd = Inr (rd', e') \<Longrightarrow>
    machine_step sha ds qs i (rd, Some e, gs) (rd', Some e', gs)"
| prompt: "ex_phase e = Begun \<Longrightarrow>
    machine_step sha ds qs i (rd, Some e, gs) (rd, Some (e\<lparr>ex_phase := Prompted\<rparr>), dp_generation (ex_dispatch e) # gs)"
| event: "ex_phase e = Prompted \<Longrightarrow> handle_event now ev e rd = Inr (rd', ex) \<Longrightarrow>
    machine_step sha ds qs i (rd, Some e, gs) (rd', ex, gs)"
| stop_late: "ex_phase e = Prompted \<Longrightarrow> interrupted v e rd \<Longrightarrow> stop_late v code e rd = Inr rd' \<Longrightarrow>
    machine_step sha ds qs i (rd, Some e, gs) (rd', None, gs)"
| fail: "fail_session v message e rd = Inr rd' \<Longrightarrow> machine_step sha ds qs i (rd, Some e, gs) (rd', None, gs)"
| die: "machine_step sha ds qs i (rd, Some e, gs) (rd, None, gs)"

section \<open>One run on one machine\<close>

definition given_back :: "local_run option \<Rightarrow> int \<Rightarrow> bool" where
  "given_back row g \<longleftrightarrow>
     (case row of None \<Rightarrow> False
      | Some l \<Rightarrow> g < lr_generation l \<or> (g = lr_generation l \<and> rp_state (lr_report l) = Report_Released))"

definition serves :: "string \<Rightarrow> executor \<Rightarrow> local_run \<Rightarrow> bool" where
  "serves i e l \<longleftrightarrow> dp_generation (ex_dispatch e) = lr_generation l \<and> rn_id (dp_run (ex_dispatch e)) = i \<and>
     live_report (lr_report l) \<and> lr_owner l \<noteq> None \<and> rp_run (ex_report e) = i \<and> rp_generation (ex_report e) = lr_generation l \<and>
     live_report (ex_report e)"

definition row_ok :: "dispatch set \<Rightarrow> string \<Rightarrow> string \<Rightarrow> int list \<Rightarrow> local_run \<Rightarrow> bool" where
  "row_ok ds n i gs l \<longleftrightarrow> rp_run (lr_report l) = i \<and> rp_generation (lr_report l) = lr_generation l \<and>
     (\<exists>d \<in> ds. rn_id (dp_run d) = i \<and> dp_node d = n \<and> dp_generation d = lr_generation l) \<and>
     (rp_state (lr_report l) = Report_Succeeded \<longrightarrow> gs \<noteq> [])"

definition slot_ok :: "dispatch set \<Rightarrow> string \<Rightarrow> string \<Rightarrow> local_run option \<Rightarrow> executor option \<Rightarrow> int list \<Rightarrow> bool" where
  "slot_ok ds n i row ex gs \<longleftrightarrow>
     (\<forall>l. row = Some l \<longrightarrow> row_ok ds n i gs l) \<and>
     (\<forall>e. ex = Some e \<longrightarrow> (\<exists>l. row = Some l \<and> serves i e l \<and> (ex_phase e = Prompted \<longleftrightarrow> gs \<noteq> []))) \<and>
     length gs \<le> 1 \<and>
     (\<forall>g \<in> set gs. \<exists>l. row = Some l \<and> lr_generation l = g \<and> lr_owner l \<noteq> None \<and> rp_state (lr_report l) \<noteq> Report_Released)"

text \<open>What a step of a machine may do to the row of its run.\<close>

definition row_moves :: "local_run option \<Rightarrow> local_run option \<Rightarrow> bool" where
  "row_moves a b \<longleftrightarrow> (\<forall>g. given_back a g \<longrightarrow> given_back b g) \<and> (a \<noteq> None \<longrightarrow> b \<noteq> None)"

text \<open>A step from an unchanged or a replaced row of its run.\<close>

definition acked :: "report set \<Rightarrow> string \<Rightarrow> local_run option \<Rightarrow> local_run option \<Rightarrow> bool" where
  "acked qs i a b \<longleftrightarrow> (\<forall>l'. b = Some l' \<longrightarrow> lr_acknowledged l' \<longrightarrow>
     (\<exists>l. a = Some l \<and> lr_acknowledged l \<and> lr_generation l = lr_generation l') \<or>
     (\<exists>q \<in> qs. rp_run q = i \<and> rp_generation q = lr_generation l' \<and> final_page q))"

definition moved_well :: "dispatch set \<Rightarrow> report set \<Rightarrow> string \<Rightarrow> string \<Rightarrow> runner_db \<times> executor option \<times> int list \<Rightarrow>
    runner_db \<times> executor option \<times> int list \<Rightarrow> bool" where
  "moved_well ds qs n i = (\<lambda>(rd, ex, gs) (rd', ex', gs').
     slot_ok ds n i (row_of rd' i) ex' gs' \<and> row_moves (row_of rd i) (row_of rd' i) \<and> rd_node rd' = rd_node rd \<and>
     (\<forall>j. j \<noteq> i \<longrightarrow> row_of rd' j = row_of rd j) \<and> acked qs i (row_of rd i) (row_of rd' i) \<and> (gs \<noteq> [] \<longrightarrow> gs' \<noteq> []))"

lemma acked_same [simp]: "acked qs i a a"
  by (auto simp: acked_def)

lemma row_moves_same [simp]: "row_moves a a"
  by (simp add: row_moves_def)

lemma moved_same_rows:
  assumes "row_of rd' i = row_of rd i" and "\<And>j. row_of rd' j = row_of rd j" and "rd_node rd' = rd_node rd"
    and "slot_ok ds n i (row_of rd i) ex' gs'" and "gs \<noteq> [] \<longrightarrow> gs' \<noteq> []"
  shows "moved_well ds qs n i (rd, ex, gs) (rd', ex', gs')"
  using assms by (simp add: moved_well_def)

lemma moved_put:
  assumes "slot_ok ds n i (Some l') ex' gs'" and "row_moves (row_of rd i) (Some l')" and "acked qs i (row_of rd i) (Some l')"
    and "gs \<noteq> [] \<longrightarrow> gs' \<noteq> []"
  shows "moved_well ds qs n i (rd, ex, gs) (put_row i l' rd, ex', gs')"
  using assms by (simp add: moved_well_def)

lemma slot_none: "slot_ok ds n i row ex gs \<Longrightarrow> slot_ok ds n i row None gs"
  by (simp add: slot_ok_def)

lemma saved:
  assumes "save_report p rd = Inr rd'"
  shows "\<exists>l. row_of rd (rp_run p) = Some l \<and> lr_generation l = rp_generation p \<and>
    rd' = put_row (rp_run p) (l\<lparr>lr_report := p, lr_acknowledged := False\<rparr>) rd"
  using assms by (auto simp: save_report_def split: option.splits if_splits)

lemma finished:
  assumes "finish d p st reason now rd = Inr rd'"
  shows "\<exists>l p'. row_of rd (rp_run p) = Some l \<and> lr_generation l = rp_generation p \<and> rp_run p' = rp_run p \<and>
    rp_generation p' = rp_generation p \<and> rp_state p' = st \<and>
    rd' = put_row (rp_run p) (l\<lparr>lr_report := p', lr_acknowledged := False\<rparr>) rd"
proof -
  obtain log where "save_report (finished_report d p st reason log now) rd = Inr rd'"
    using assms by (auto simp: finish_def)
  from saved [OF this] obtain l where "row_of rd (rp_run p) = Some l" "lr_generation l = rp_generation p"
    "rd' = put_row (rp_run p) (l\<lparr>lr_report := finished_report d p st reason log now, lr_acknowledged := False\<rparr>) rd"
    by (auto simp: finished_report_def)
  then show ?thesis
    by (intro exI [of _ l] exI [of _ "finished_report d p st reason log now"]) (simp add: finished_report_def)
qed

text \<open>A live row whose report is replaced.\<close>

lemma moved_report:
  assumes ok: "slot_ok ds n i (row_of rd i) ex gs" and row: "row_of rd i = Some l" and "live_report (lr_report l)"
    and "rp_run p = i" and "rp_generation p = lr_generation l"
    and "rp_state p = Report_Succeeded \<longrightarrow> gs \<noteq> []" and "rp_state p = Report_Released \<longrightarrow> gs = []"
    and ex': "\<And>e. ex' = Some e \<Longrightarrow> serves i e (l\<lparr>lr_report := p, lr_acknowledged := False\<rparr>) \<and> (ex_phase e = Prompted \<longleftrightarrow> gs \<noteq> [])"
  shows "moved_well ds qs n i (rd, ex, gs) (put_row i (l\<lparr>lr_report := p, lr_acknowledged := False\<rparr>) rd, ex', gs)"
proof (rule moved_put)
  show "slot_ok ds n i (Some (l\<lparr>lr_report := p, lr_acknowledged := False\<rparr>)) ex' gs"
    using ok row assms(4-7) ex' unfolding slot_ok_def row_ok_def by auto
  show "row_moves (row_of rd i) (Some (l\<lparr>lr_report := p, lr_acknowledged := False\<rparr>))"
    using row assms(3) by (auto simp: row_moves_def given_back_def live_report_def)
  show "acked qs i (row_of rd i) (Some (l\<lparr>lr_report := p, lr_acknowledged := False\<rparr>))"
    by (simp add: acked_def)
qed simp

text \<open>The end of a session, by whatever report.\<close>

lemma moved_finish:
  assumes ok: "slot_ok ds n i (row_of rd i) (Some e) gs" and fin: "finish d p st reason now rd = Inr rd'"
    and p: "rp_run p = rp_run (ex_report e)" "rp_generation p = rp_generation (ex_report e)"
    and st: "st = Report_Succeeded \<longrightarrow> gs \<noteq> []" "st = Report_Released \<longrightarrow> gs = []"
  shows "moved_well ds qs n i (rd, Some e, gs) (rd', None, gs)"
proof -
  obtain l where l: "row_of rd i = Some l" "serves i e l" using ok by (auto simp: slot_ok_def)
  then have id: "rp_run p = i" "rp_generation p = lr_generation l" using p by (simp_all add: serves_def)
  obtain p' where p': "rp_run p' = i" "rp_generation p' = lr_generation l" "rp_state p' = st"
    "rd' = put_row i (l\<lparr>lr_report := p', lr_acknowledged := False\<rparr>) rd"
    using finished [OF fin] l(1) id by auto
  show ?thesis unfolding p'(4)
    by (rule moved_report [OF ok l(1)]) (use l(2) p' st in \<open>simp_all add: serves_def\<close>)
qed

section \<open>The steps of a machine\<close>

lemma cached_rows:
  assumes "cache_job_response sha run s digest text rd = (rd', res)"
  shows "rd_rows rd' = rd_rows rd \<and> rd_node rd' = rd_node rd"
  using assms
  by (auto simp: cache_job_response_def cache_copies_def Let_def split: sum.splits if_splits option.splits)

lemma slot_no_row: "slot_ok ds n i None ex gs \<Longrightarrow> ex = None \<and> gs = []"
  by (cases ex; cases gs) (auto simp: slot_ok_def)

lemma slot_released:
  "slot_ok ds n i (Some l) ex gs \<Longrightarrow> rp_state (lr_report l) = Report_Released \<Longrightarrow> ex = None \<and> gs = []"
  by (cases ex; cases gs) (auto simp: slot_ok_def serves_def live_report_def)

lemma slot_fresh:
  "d \<in> ds \<Longrightarrow> rn_id (dp_run d) = i \<Longrightarrow> dp_node d = n \<Longrightarrow> slot_ok ds n i (Some (fresh_row d)) None []"
  by (auto simp: slot_ok_def row_ok_def fresh_row_def report_pending_def)

lemma place_moved:
  assumes ok: "slot_ok ds n i (row_of rd i) ex gs" and d: "d \<in> ds" "rn_id (dp_run d) = i" "dp_node d = n"
    and place: "place_dispatch d rd = Inr rd'"
  shows "moved_well ds qs n i (rd, ex, gs) (rd', ex, gs)"
proof (cases "row_of rd i")
  case None
  then have "rd' = put_row i (fresh_row d) rd" "ex = None" "gs = []"
    using place d(2) slot_no_row [of ds n i ex gs] ok by (auto simp: place_dispatch_def Let_def)
  then show ?thesis using None slot_fresh [OF d]
    by (auto intro!: moved_put simp: row_moves_def given_back_def acked_def fresh_row_def)
next
  case (Some l)
  consider (same) "rd' = rd" | (revoke) "rd' = put_row i (l\<lparr>lr_dispatch := d\<rparr>) rd"
    | (next_one) "lr_generation l < dp_generation d" "rp_state (lr_report l) = Report_Released" "rd' = put_row i (fresh_row d) rd"
    using place d(2) Some by (fastforce simp: place_dispatch_def Let_def split: if_splits)
  then show ?thesis
  proof cases
    case same
    with ok show ?thesis by (auto intro: moved_same_rows)
  next
    case revoke
    have "slot_ok ds n i (Some (l\<lparr>lr_dispatch := d\<rparr>)) ex gs" using ok Some by (simp add: slot_ok_def row_ok_def serves_def)
    then show ?thesis unfolding revoke using Some
      by (auto intro!: moved_put simp: row_moves_def given_back_def acked_def)
  next
    case next_one
    have none: "ex = None" "gs = []" using slot_released [of ds n i l ex gs] ok Some next_one(2) by auto
    show ?thesis unfolding next_one(3) none
    proof (rule moved_put [OF slot_fresh [OF d]])
      show "row_moves (row_of rd i) (Some (fresh_row d))"
        using Some next_one(1) by (auto simp: row_moves_def given_back_def fresh_row_def)
    qed (simp_all add: acked_def fresh_row_def)
  qed
qed

lemma receive_moved:
  assumes ok: "slot_ok ds n i (row_of rd i) ex gs" and d: "d \<in> ds" "rn_id (dp_run d) = i" and "rd_node rd = n"
    and receive: "receive_dispatch sha d text rd = (rd', res)"
  shows "moved_well ds qs n i (rd, ex, gs) (rd', ex, gs)"
proof -
  consider (same) "rd' = rd"
    | (stored) rd1 r where "cache_job_response sha (Some i) (rn_snapshot (dp_run d)) (sn_digest (rn_snapshot (dp_run d))) text rd = (rd1, r)"
        "dp_node d = n" "rd' = rd1 \<or> place_dispatch d rd1 = Inr rd'"
    using receive d(2) assms(4)
    by (fastforce simp: receive_dispatch_def split: sum.splits if_splits prod.splits option.splits)
  then show ?thesis
  proof cases
    case same
    with ok show ?thesis by (auto intro: moved_same_rows)
  next
    case stored
    have rows: "row_of rd1 j = row_of rd j" "rd_node rd1 = rd_node rd" for j using cached_rows [OF stored(1)] by (simp_all add: row_of_def)
    have "moved_well ds qs n i (rd1, ex, gs) (rd', ex, gs)"
    proof (cases "rd' = rd1")
      case True
      with ok rows show ?thesis by (auto intro: moved_same_rows)
    next
      case False
      with stored(3) have "place_dispatch d rd1 = Inr rd'" by blast
      with ok d stored(2) rows show ?thesis by (intro place_moved) simp_all
    qed
    then show ?thesis by (simp add: moved_well_def rows)
  qed
qed

lemma acknowledge_moved:
  assumes ok: "slot_ok ds n i (row_of rd i) ex gs" and q: "q \<in> qs" "rp_run q = i" and ack: "acknowledge_report q rd = Inr rd'"
  shows "moved_well ds qs n i (rd, ex, gs) (rd', ex, gs)"
proof -
  consider (same) "rd' = rd"
    | (page) l c where "row_of rd i = Some l" "lr_report l = q" "lr_generation l = rp_generation q" "\<not> lr_acknowledged l"
        "rd' = put_row i (l\<lparr>lr_report := q\<lparr>rp_log := Some c\<rparr>\<rparr>) rd"
    | (last) l logs where "row_of rd i = Some l" "lr_report l = q" "lr_generation l = rp_generation q" "final_page q"
        "rd' = (put_row i (l\<lparr>lr_acknowledged := True\<rparr>) rd)\<lparr>rd_logs := logs\<rparr>"
    using ack q(2)
    by (fastforce simp: acknowledge_report_def Let_def final_page_def split: option.splits if_splits)
  then show ?thesis
  proof cases
    case same
    with ok show ?thesis by (auto intro: moved_same_rows)
  next
    case page
    have "slot_ok ds n i (Some (l\<lparr>lr_report := q\<lparr>rp_log := Some c\<rparr>\<rparr>)) ex gs"
      using ok page(1,2) by (auto simp: slot_ok_def row_ok_def serves_def live_report_def)
    then show ?thesis unfolding page(5) using page
      by (auto intro!: moved_put simp: row_moves_def given_back_def acked_def)
  next
    case last
    have "slot_ok ds n i (Some (l\<lparr>lr_acknowledged := True\<rparr>)) ex gs"
      using ok last(1) by (auto simp: slot_ok_def row_ok_def serves_def)
    moreover have "row_moves (Some l) (Some (l\<lparr>lr_acknowledged := True\<rparr>))" by (simp add: row_moves_def given_back_def)
    moreover have "acked qs i (Some l) (Some (l\<lparr>lr_acknowledged := True\<rparr>))" using last q by (auto simp: acked_def)
    moreover have "row_of rd' = (row_of rd)(i \<mapsto> l\<lparr>lr_acknowledged := True\<rparr>)" "rd_node rd' = rd_node rd"
      unfolding last(5) using row_of_put by (auto simp: row_of_def put_row_def update_conv' fun_eq_iff)
    ultimately show ?thesis using last(1) by (simp add: moved_well_def)
  qed
qed

lemma recover_moved:
  assumes ok: "slot_ok ds n i (row_of rd i) None gs" and row: "row_of rd i = Some l" and live: "live_report (lr_report l)"
    and rec: "recover_execution v d (lr_report l) process rd = Inr rd'"
  shows "moved_well ds qs n i (rd, None, gs) (rd', None, gs)"
proof -
  have id: "rp_run (lr_report l) = i" "rp_generation (lr_report l) = lr_generation l"
    using ok row by (auto simp: slot_ok_def row_ok_def)
  obtain p where p: "rp_run p = i" "rp_generation p = lr_generation l" "rp_state p \<noteq> Report_Succeeded" "rp_state p \<noteq> Report_Released"
    "rd' = put_row i (l\<lparr>lr_report := p, lr_acknowledged := False\<rparr>) rd"
  proof -
    consider (hold) p where "save_report p rd = Inr rd'" "rp_run p = i" "rp_generation p = lr_generation l" "live_report p"
      | (stop) st reason where "finish d (lr_report l) st reason (mv_now v) rd = Inr rd'" "st = Report_Cancelled \<or> st = Report_Failed"
      using rec id live by (auto simp: recover_execution_def live_report_def split: if_splits)
    then show thesis
    proof cases
      case hold
      then show thesis using saved [OF hold(1)] row by (auto simp: live_report_def intro: that)
    next
      case stop
      then show thesis using finished [OF stop(1)] id row by (auto intro: that)
    qed
  qed
  show ?thesis unfolding p(5) by (rule moved_report [OF ok row live]) (use p in simp_all)
qed

lemma execute_moved:
  assumes ok: "slot_ok ds n i (row_of rd i) None gs" and d: "rn_id (dp_run d) = i"
    and start: "start_execution v d rd = Inr (rd', claim)"
  shows "moved_well ds qs n i (rd, None, gs) (rd', map_option (claimed d) claim, gs)"
proof (cases "row_of rd i")
  case None
  with start d show ?thesis by (simp add: start_execution_def)
next
  case (Some l)
  have id: "rp_run (lr_report l) = i" "rp_generation (lr_report l) = lr_generation l"
    using ok Some by (auto simp: slot_ok_def row_ok_def)
  consider (same) "rd' = rd" "claim = None"
    | (recover) "live_report (lr_report l)" "recover_execution v d (lr_report l) (lr_process l) rd = Inr rd'" "claim = None"
    | (release) "live_report (lr_report l)" "lr_owner l = None" "claim = None"
        "finish d (lr_report l) Report_Released (Some ''Revoked before launch'') (mv_now v) rd = Inr rd'"
    | (claim) "live_report (lr_report l)" "lr_generation l = dp_generation d" "lr_owner l = None" "claim = Some (lr_report l)"
        "rd' = put_row i (l\<lparr>lr_owner := Some (mv_self v)\<rparr>) rd"
    using start d Some
    by (auto simp: start_execution_def claim_execution_def split: if_splits option.splits)
  then show ?thesis
  proof cases
    case same
    with ok show ?thesis by (auto intro: moved_same_rows)
  next
    case recover
    from recover_moved [OF ok Some recover(1,2)] show ?thesis using recover(3) by simp
  next
    case release
    have "gs = []" using ok Some release(2) by (cases gs) (auto simp: slot_ok_def)
    obtain p where p: "rp_run p = i" "rp_generation p = lr_generation l" "rp_state p = Report_Released"
      "rd' = put_row i (l\<lparr>lr_report := p, lr_acknowledged := False\<rparr>) rd"
      using finished [OF release(4)] id Some by auto
    show ?thesis unfolding p(4) release(3) option.map
      by (rule moved_report [OF ok Some release(1)]) (use p \<open>gs = []\<close> in simp_all)
  next
    case claim
    have "gs = []" using ok Some claim(3) by (cases gs) (auto simp: slot_ok_def)
    then have "slot_ok ds n i (Some (l\<lparr>lr_owner := Some (mv_self v)\<rparr>)) (Some (claimed d (lr_report l))) gs"
      using ok Some claim(1,2) d id by (auto simp: slot_ok_def row_ok_def serves_def claimed_def)
    then show ?thesis unfolding claim(4,5) option.map using Some
      by (auto intro!: moved_put simp: row_moves_def given_back_def acked_def)
  qed
qed

text \<open>The steps of an executor on its row.\<close>

lemma serving: "slot_ok ds n i row (Some e) gs \<Longrightarrow> \<exists>l. row = Some l \<and> serves i e l \<and> (ex_phase e = Prompted \<longleftrightarrow> gs \<noteq> [])"
  by (simp add: slot_ok_def)

lemma moved_executor:
  assumes ok: "slot_ok ds n i (row_of rd i) (Some e) gs" and row: "row_of rd i = Some l"
    and e': "ex_dispatch e' = ex_dispatch e" "rp_run (ex_report e') = rp_run (ex_report e)"
      "rp_generation (ex_report e') = rp_generation (ex_report e)" "live_report (ex_report e')"
      "ex_phase e' = Prompted \<longleftrightarrow> ex_phase e = Prompted"
    and l': "lr_generation l' = lr_generation l" "lr_report l' = lr_report l" "lr_owner l' = lr_owner l" "lr_acknowledged l' = lr_acknowledged l"
    and rd': "rd' = rd \<and> l' = l \<or> rd' = put_row i l' rd"
  shows "moved_well ds qs n i (rd, Some e, gs) (rd', Some e', gs)"
proof -
  have "slot_ok ds n i (Some l') (Some e') gs"
    using ok row e' l' by (auto simp: slot_ok_def row_ok_def serves_def)
  moreover have "row_moves (Some l) (Some l')" "acked qs i (Some l) (Some l')"
    using l' by (auto simp: row_moves_def given_back_def acked_def)
  ultimately show ?thesis using rd' row by (auto intro: moved_put moved_same_rows simp: row)
qed

lemma launch_moved:
  assumes "slot_ok ds n i (row_of rd i) (Some e) gs" and "ex_phase e = Claimed" and "launch cwd q e rd = (rd', e')"
  shows "moved_well ds qs n i (rd, Some e, gs) (rd', Some e', gs)"
proof -
  obtain l where l: "row_of rd i = Some l" "serves i e l" using serving [OF assms(1)] by blast
  have e': "e' = e\<lparr>ex_report := (ex_report e)\<lparr>rp_cwd := cwd\<rparr>, ex_phase := Launched\<rparr>" using assms(3) by (simp add: launch_def)
  have live: "live_report (ex_report e')" using l(2) by (simp add: e' serves_def live_report_def)
  show ?thesis
  proof (cases "dispatch_script (ex_dispatch e)")
    case True
    then have "rd' = rd" using assms(3) by (simp add: launch_def)
    with live show ?thesis by (intro moved_executor [OF assms(1) l(1), of _ l]) (simp_all add: e' assms(2))
  next
    case False
    then have "rd' = put_row i (l\<lparr>lr_process := Some q\<rparr>) rd"
      using assms(3) l by (auto simp: launch_def record_process_def serves_def)
    with live show ?thesis by (intro moved_executor [OF assms(1) l(1), of _ "l\<lparr>lr_process := Some q\<rparr>"]) (simp_all add: e' assms(2))
  qed
qed

lemma mark_moved:
  assumes "slot_ok ds n i (row_of rd i) (Some e) gs" and "ex_phase e = Cleared" and "mark q e rd = (rd', e')"
  shows "moved_well ds qs n i (rd, Some e, gs) (rd', Some e', gs)"
proof -
  obtain l where l: "row_of rd i = Some l" "serves i e l" using serving [OF assms(1)] by blast
  define x where "x = (if dispatch_script (ex_dispatch e) then q else None)"
  define l' where "l' = l\<lparr>lr_submitted := True, lr_process := if x = None then lr_process l else x\<rparr>"
  have "rd' = put_row i l' rd" "e' = e\<lparr>ex_phase := Marked\<rparr>"
    using assms(3) l by (simp_all add: mark_def mark_submitted_def serves_def x_def [symmetric] l'_def)
  then show ?thesis
    using moved_executor [OF assms(1) l(1), of e' l' rd'] l(2) assms(2) by (auto simp: serves_def l'_def)
qed

lemma moved_save:
  assumes ok: "slot_ok ds n i (row_of rd i) (Some e) gs" and save: "save_report p rd = Inr rd'"
    and p: "rp_run p = rp_run (ex_report e)" "rp_generation p = rp_generation (ex_report e)" "live_report p"
    and e': "ex_dispatch e' = ex_dispatch e" "ex_report e' = p" "ex_phase e' = Prompted \<longleftrightarrow> ex_phase e = Prompted"
  shows "moved_well ds qs n i (rd, Some e, gs) (rd', Some e', gs)"
proof -
  obtain l where l: "row_of rd i = Some l" "serves i e l" "ex_phase e = Prompted \<longleftrightarrow> gs \<noteq> []" using serving [OF ok] by blast
  have id: "rp_run p = i" "rp_generation p = lr_generation l" using p l(2) by (simp_all add: serves_def)
  then have rd': "rd' = put_row i (l\<lparr>lr_report := p, lr_acknowledged := False\<rparr>) rd" using saved [OF save] l(1) by auto
  show ?thesis unfolding rd'
    by (rule moved_report [OF ok l(1)]) (use l e' p id in \<open>auto simp: serves_def live_report_def\<close>)
qed

lemma begin_moved:
  assumes "slot_ok ds n i (row_of rd i) (Some e) gs" and "ex_phase e = Marked" and "begin_turn session now e rd = Inr (rd', e')"
  shows "moved_well ds qs n i (rd, Some e, gs) (rd', Some e', gs)"
proof -
  let ?p = "begun_report (ex_dispatch e) (ex_report e) session now"
  have "save_report ?p rd = Inr rd'" "e' = e\<lparr>ex_report := ?p, ex_phase := Begun\<rparr>"
    using assms(3) by (auto simp: begin_turn_def Let_def)
  then show ?thesis
    by (intro moved_save [OF assms(1)]) (simp_all add: begun_report_def live_report_def assms(2))
qed

lemma prompt_moved:
  assumes ok: "slot_ok ds n i (row_of rd i) (Some e) gs" and "ex_phase e = Begun"
  shows "moved_well ds qs n i (rd, Some e, gs) (rd, Some (e\<lparr>ex_phase := Prompted\<rparr>), dp_generation (ex_dispatch e) # gs)"
proof -
  obtain l where l: "row_of rd i = Some l" "serves i e l" "gs = []" using serving [OF ok] assms(2) by auto
  have "slot_ok ds n i (Some l) (Some (e\<lparr>ex_phase := Prompted\<rparr>)) (dp_generation (ex_dispatch e) # gs)"
    using ok l by (auto simp: slot_ok_def row_ok_def serves_def live_report_def)
  then show ?thesis using l(1) by (intro moved_same_rows) simp_all
qed

lemma event_moved:
  assumes ok: "slot_ok ds n i (row_of rd i) (Some e) gs" and "ex_phase e = Prompted" and ev: "handle_event now ev e rd = Inr (rd', ex)"
  shows "moved_well ds qs n i (rd, Some e, gs) (rd', ex, gs)"
proof -
  obtain l where l: "row_of rd i = Some l" "serves i e l" "gs \<noteq> []" using serving [OF ok] assms(2) by auto
  let ?p = "event_report (ex_dispatch e) ev (ex_report e)"
  have p: "rp_run ?p = rp_run (ex_report e)" "rp_generation ?p = rp_generation (ex_report e)" "live_report ?p"
    using l(2) by (auto simp: event_report_def exit_result_def serves_def live_report_def split: session_event.splits)
  show ?thesis
  proof (cases "event_outcome ev")
    case (Some x)
    then have fin: "finish (ex_dispatch e) ?p (fst x) (snd x) now rd = Inr rd'" "ex = None"
      using ev by (auto simp: handle_event_def Let_def split: prod.splits)
    have "fst x \<noteq> Report_Released"
      using Some by (auto simp: event_outcome_def turn_outcome_def split: session_event.splits turn_status.splits if_splits)
    then show ?thesis unfolding fin(2) by (intro moved_finish [OF ok fin(1) p(1,2)]) (use l(3) in simp_all)
  next
    case None
    obtain p' where p': "rp_run p' = rp_run ?p" "rp_generation p' = rp_generation ?p" "live_report p'"
      "ev = Nothing_New \<and> rd' = rd \<or> save_report p' rd = Inr rd'" "ex = Some (e\<lparr>ex_report := p'\<rparr>)"
    proof (cases "ev = Log_Published")
      case True
      then obtain log where "save_report (?p\<lparr>rp_log := log\<rparr>) rd = Inr rd'" "ex = Some (e\<lparr>ex_report := ?p\<lparr>rp_log := log\<rparr>\<rparr>)"
        using ev None by (auto simp: handle_event_def Let_def)
      then show thesis using p(3) by (intro that [of "?p\<lparr>rp_log := log\<rparr>"]) (simp_all add: live_report_def)
    next
      case False
      then have "handle_event now ev e rd =
          and_then (if ev = Nothing_New then Inr rd else save_report ?p rd) (\<lambda>rd. Inr (rd, Some (e\<lparr>ex_report := ?p\<rparr>)))"
        using None by (simp add: handle_event_def Let_def split: session_event.splits)
      with ev have "and_then (if ev = Nothing_New then Inr rd else save_report ?p rd) (\<lambda>rd. Inr (rd, Some (e\<lparr>ex_report := ?p\<rparr>))) = Inr (rd', ex)"
        by simp
      then show thesis using p(3) by (intro that [of ?p]) (auto split: if_splits)
    qed
    show ?thesis
    proof (cases "rd' = rd \<and> ev = Nothing_New")
      case True
      then show ?thesis unfolding p'(5)
        by (intro moved_executor [OF ok l(1), of _ l]) (use p' p in simp_all)
    next
      case False
      then have "save_report p' rd = Inr rd'" using p'(4) by blast
      then show ?thesis unfolding p'(5) by (rule moved_save [OF ok]) (use p' p in simp_all)
    qed
  qed
qed

lemma machine_moves:
  assumes "machine_step sha ds qs i (rd, ex, gs) (rd', ex', gs')" and "slot_ok ds n i (row_of rd i) ex gs" and "rd_node rd = n"
  shows "moved_well ds qs n i (rd, ex, gs) (rd', ex', gs')"
  using assms(1)
proof (cases rule: machine_step.cases)
  case (receive d t res)
  with assms(2,3) show ?thesis by (auto intro: receive_moved)
next
  case (acknowledge q)
  with assms(2) show ?thesis by (auto intro: acknowledge_moved)
next
  case (write_log logs)
  with assms(2) show ?thesis by (intro moved_same_rows) (simp_all add: row_of_def)
next
  case (execute d v claim)
  with assms(2) show ?thesis by (auto intro: execute_moved)
next
  case (launch e cwd q e')
  with assms(2) show ?thesis by (auto intro: launch_moved)
next
  case (clear e v)
  with assms(2) obtain l where "row_of rd i = Some l" "serves i e l" using serving by blast
  with clear assms(2) show ?thesis by (auto intro!: moved_executor [of _ _ _ _ _ _ l _ l] simp: serves_def)
next
  case (stop_early e v code)
  have "gs = []" using assms(2) serving [of ds n i "row_of rd i" e gs] stop_early by auto
  with stop_early assms(2) show ?thesis
    by (auto simp: stop_early_def Let_def exit_result_def intro!: moved_finish split: if_splits)
next
  case (mark e q e')
  with assms(2) show ?thesis by (auto intro: mark_moved)
next
  case (begin_turn e session now e')
  with assms(2) show ?thesis by (auto intro: begin_moved)
next
  case (prompt e)
  with assms(2) show ?thesis by (auto intro: prompt_moved)
next
  case (event e now ev)
  with assms(2) show ?thesis by (auto intro: event_moved)
next
  case (stop_late e v code)
  with assms(2) show ?thesis
    by (auto simp: stop_late_def Let_def exit_result_def intro!: moved_finish split: if_splits)
next
  case (fail v message e)
  with assms(2) show ?thesis
    by (auto simp: fail_session_def Let_def intro!: moved_finish split: if_splits option.splits)
next
  case (die e)
  with assms(2) show ?thesis by (auto intro!: moved_same_rows dest: slot_none)
qed

text \<open>The table has one row for a run.\<close>

definition one_row_each :: "runner_db \<Rightarrow> bool" where
  "one_row_each rd \<longleftrightarrow> distinct (List.map fst (rd_rows rd))"

lemma one_row_put [simp]: "one_row_each rd \<Longrightarrow> one_row_each (put_row i l rd)"
  by (simp add: one_row_each_def put_row_def distinct_update)

lemma one_row_save: "save_report p rd = Inr rd' \<Longrightarrow> one_row_each rd \<Longrightarrow> one_row_each rd'"
  using saved by fastforce

lemma one_row_finish: "finish d p st reason now rd = Inr rd' \<Longrightarrow> one_row_each rd \<Longrightarrow> one_row_each rd'"
  using finished by fastforce

lemma one_row_logs [simp]: "one_row_each (rd\<lparr>rd_logs := logs\<rparr>) = one_row_each rd"
  by (simp add: one_row_each_def)

lemma one_row_place: "place_dispatch d rd = Inr rd' \<Longrightarrow> one_row_each rd \<Longrightarrow> one_row_each rd'"
  by (auto simp: place_dispatch_def Let_def split: option.splits if_splits)

lemma one_row_receive:
  assumes "receive_dispatch sha d t rd = (rd', res)" and "one_row_each rd"
  shows "one_row_each rd'"
proof -
  have cache: "one_row_each rd1" if "cache_job_response sha run s digest t rd = (rd1, r)" for run s digest rd1 r
    using cached_rows [OF that] assms(2) by (simp add: one_row_each_def)
  show ?thesis using assms
    by (auto simp: receive_dispatch_def split: sum.splits if_splits prod.splits dest: cache one_row_place)
qed

lemma one_row_acknowledge: "acknowledge_report q rd = Inr rd' \<Longrightarrow> one_row_each rd \<Longrightarrow> one_row_each rd'"
  by (auto simp: acknowledge_report_def Let_def split: option.splits if_splits)

lemma one_row_execute: "start_execution v d rd = Inr (rd', claim) \<Longrightarrow> one_row_each rd \<Longrightarrow> one_row_each rd'"
  by (auto simp: start_execution_def claim_execution_def recover_execution_def split: option.splits if_splits
      dest: one_row_save one_row_finish)

lemma one_row_step:
  assumes "machine_step sha ds qs i (rd, ex, gs) (rd', ex', gs')" and "one_row_each rd"
  shows "one_row_each rd'"
  using assms(1)
proof (cases rule: machine_step.cases)
  case (event e now ev)
  with assms(2) show ?thesis
    by (auto simp: handle_event_def Let_def split: option.splits prod.splits session_event.splits if_splits
        dest: one_row_save one_row_finish)
qed (use assms(2) in \<open>auto simp: launch_def record_process_def mark_def mark_submitted_def begin_turn_def stop_early_def stop_late_def
    fail_session_def Let_def split: option.splits if_splits
    dest: one_row_receive one_row_acknowledge one_row_execute one_row_save one_row_finish\<close>)

end
