(* ===== verification/Job_Protocol.thy ===== *)
theory Job_Protocol
  imports Job_Machine
begin

text \<open>
  The supervisor and the machines together. A dispatch that was once sent may arrive at any
  later time, any number of times; so may a report and an acknowledgement
  (\<open>src/src/fleet/native/supervisor.rs\<close>, \<open>companion.rs\<close>). An executor may die between any two
  of its statements. Whatever happens, the instructions of a run are written at most once.
\<close>

section \<open>The fleet\<close>

record fleet =
  fl_db :: jobs_db
  fl_machines :: "string \<Rightarrow> runner_db"
  fl_executors :: "string \<Rightarrow> string \<Rightarrow> executor option"
  fl_prompts :: "string \<Rightarrow> string \<Rightarrow> int list"
  fl_dispatches :: "dispatch list"
  fl_reports :: "(string \<times> report) list"
  fl_accepted :: "(string \<times> report) list"

inductive fleet_step :: "job_ports \<Rightarrow> fleet \<Rightarrow> fleet \<Rightarrow> bool" for p where
  supervisor: "supervisor_step p (fl_db f) db \<Longrightarrow> fleet_step p f (f\<lparr>fl_db := db\<rparr>)"
| dispatch: "job_dispatches n (fl_db f) = Inr ds \<Longrightarrow> d \<in> set ds \<Longrightarrow>
    fleet_step p f (f\<lparr>fl_dispatches := d # fl_dispatches f\<rparr>)"
| report: "q \<in> set (pending_reports (fl_machines f n)) \<Longrightarrow> fleet_step p f (f\<lparr>fl_reports := (n, q) # fl_reports f\<rparr>)"
| accept: "(n, q) \<in> set (fl_reports f) \<Longrightarrow> accept_job_report n q (fl_db f) = Inr (db, b) \<Longrightarrow>
    fleet_step p f (f\<lparr>fl_db := db, fl_accepted := if b then (n, q) # fl_accepted f else fl_accepted f\<rparr>)"
| machine: "machine_step (jp_sha p) (set (fl_dispatches f)) {q. (n, q) \<in> set (fl_accepted f)} i
      (fl_machines f n, fl_executors f n i, fl_prompts f n i) (rd, ex, gs) \<Longrightarrow>
    fleet_step p f (f\<lparr>fl_machines := (fl_machines f)(n := rd),
      fl_executors := (fl_executors f)(n := (fl_executors f n)(i := ex)),
      fl_prompts := (fl_prompts f)(n := (fl_prompts f n)(i := gs))\<rparr>)"

inductive fleet_steps :: "job_ports \<Rightarrow> fleet \<Rightarrow> fleet \<Rightarrow> bool" for p where
  none: "fleet_steps p f f"
| step: "fleet_steps p f g \<Longrightarrow> fleet_step p g h \<Longrightarrow> fleet_steps p f h"

definition idle_fleet :: "fleet \<Rightarrow> bool" where
  "idle_fleet f \<longleftrightarrow> no_runs (fl_db f) \<and> fl_dispatches f = [] \<and> fl_reports f = [] \<and> fl_accepted f = [] \<and>
     (\<forall>n. rd_node (fl_machines f n) = n \<and> rd_rows (fl_machines f n) = [] \<and> (\<forall>i. fl_executors f n i = None \<and> fl_prompts f n i = []))"

section \<open>The invariant of the fleet\<close>

definition row_at :: "fleet \<Rightarrow> string \<Rightarrow> string \<Rightarrow> local_run option" where
  "row_at f n i = row_of (fl_machines f n) i"

lemma row_at_same [simp]:
  "row_at (f\<lparr>fl_db := db\<rparr>) = row_at f"
  "row_at (f\<lparr>fl_dispatches := ds\<rparr>) = row_at f"
  "row_at (f\<lparr>fl_reports := qs\<rparr>) = row_at f"
  "row_at (f\<lparr>fl_accepted := qs\<rparr>) = row_at f"
  "row_at (f\<lparr>fl_db := db, fl_accepted := qs\<rparr>) = row_at f"
  by (simp_all add: fun_eq_iff row_at_def)

text \<open>A dispatch is of the present generation and its machine, or its generation was given back.\<close>

definition dispatches_ok :: "jobs_db \<Rightarrow> (string \<Rightarrow> string \<Rightarrow> local_run option) \<Rightarrow> dispatch set \<Rightarrow> bool" where
  "dispatches_ok db rows ds \<longleftrightarrow>
     (\<forall>d \<in> ds. \<exists>w \<in> set (js_owners db). ow_run w = rn_id (dp_run d) \<and>
        (if dp_generation d = ow_generation w then ow_node w = Some (dp_node d)
         else dp_generation d < ow_generation w \<and> given_back (rows (dp_node d) (rn_id (dp_run d))) (dp_generation d)))"

definition reports_ok :: "fleet \<Rightarrow> bool" where
  "reports_ok f \<longleftrightarrow>
     (\<forall>(n, q) \<in> set (fl_reports f).
        (rp_state q = Report_Released \<longrightarrow> given_back (row_at f n (rp_run q)) (rp_generation q)) \<and>
        (rp_state q = Report_Succeeded \<longrightarrow> fl_prompts f n (rp_run q) \<noteq> []))"

definition settled_ok :: "fleet \<Rightarrow> bool" where
  "settled_ok f \<longleftrightarrow>
     (\<forall>(n, q) \<in> set (fl_accepted f). final_page q \<longrightarrow> settled (fl_db f) (rp_run q) (rp_generation q)) \<and>
     (\<forall>n i l. row_at f n i = Some l \<longrightarrow> lr_acknowledged l \<longrightarrow> settled (fl_db f) i (lr_generation l))"

definition successes_ok :: "fleet \<Rightarrow> bool" where
  "successes_ok f \<longleftrightarrow> (\<forall>r \<in> set (js_runs (fl_db f)). rn_state r = Succeeded \<longrightarrow> \<not> is_group r \<longrightarrow> (\<exists>n. fl_prompts f n (rn_id r) \<noteq> []))"

definition machines_ok :: "fleet \<Rightarrow> bool" where
  "machines_ok f \<longleftrightarrow> (\<forall>n. rd_node (fl_machines f n) = n \<and> one_row_each (fl_machines f n) \<and>
     (\<forall>i. slot_ok (set (fl_dispatches f)) n i (row_at f n i) (fl_executors f n i) (fl_prompts f n i)))"

definition fleet_ok :: "fleet \<Rightarrow> bool" where
  "fleet_ok f \<longleftrightarrow> job_inv (fl_db f) \<and> machines_ok f \<and> dispatches_ok (fl_db f) (row_at f) (set (fl_dispatches f)) \<and>
     reports_ok f \<and> settled_ok f \<and> successes_ok f"

lemma idle_fleet_ok: "idle_fleet f \<Longrightarrow> fleet_ok f"
  using no_runs_inv [of "fl_db f"]
  by (simp add: idle_fleet_def fleet_ok_def machines_ok_def dispatches_ok_def reports_ok_def settled_ok_def successes_ok_def
      row_at_def row_of_def one_row_each_def slot_ok_def no_runs_def)

text \<open>Steps of the supervisor.\<close>

lemma dispatches_kept:
  assumes "dispatches_ok db rows ds" and "\<forall>w \<in> set (js_owners db). \<exists>v \<in> set (js_owners db'). same_custody w v"
  shows "dispatches_ok db' rows ds"
  unfolding dispatches_ok_def
proof
  fix d assume "d \<in> ds"
  then obtain w where w: "w \<in> set (js_owners db)" "ow_run w = rn_id (dp_run d)"
    "if dp_generation d = ow_generation w then ow_node w = Some (dp_node d)
     else dp_generation d < ow_generation w \<and> given_back (rows (dp_node d) (rn_id (dp_run d))) (dp_generation d)"
    using assms(1) by (auto simp: dispatches_ok_def)
  obtain v where v: "v \<in> set (js_owners db')" "same_custody w v" using assms(2) w(1) by blast
  show "\<exists>w \<in> set (js_owners db'). ow_run w = rn_id (dp_run d) \<and>
      (if dp_generation d = ow_generation w then ow_node w = Some (dp_node d)
       else dp_generation d < ow_generation w \<and> given_back (rows (dp_node d) (rn_id (dp_run d))) (dp_generation d))"
    using w v by (intro bexI [OF _ v(1)]) (auto simp: same_custody_def split: if_splits)
qed

lemma dispatches_released:
  assumes "dispatches_ok db rows ds" and "job_inv db" and "w \<in> set (js_owners db)" and "ow_run w = i" and "ow_node w = Some n"
    and "given_back (rows n i) (ow_generation w)"
  shows "dispatches_ok (update_owner i (\<lambda>w. w\<lparr>ow_node := None, ow_generation := ow_generation w + 1, ow_revoking := False\<rparr>) db) rows ds"
    (is "dispatches_ok (update_owner i ?f db) rows ds")
  unfolding dispatches_ok_def
proof
  fix d assume "d \<in> ds"
  then obtain u where u: "u \<in> set (js_owners db)" "ow_run u = rn_id (dp_run d)"
    "if dp_generation d = ow_generation u then ow_node u = Some (dp_node d)
     else dp_generation d < ow_generation u \<and> given_back (rows (dp_node d) (rn_id (dp_run d))) (dp_generation d)"
    using assms(1) by (auto simp: dispatches_ok_def)
  show "\<exists>w \<in> set (js_owners (update_owner i ?f db)). ow_run w = rn_id (dp_run d) \<and>
      (if dp_generation d = ow_generation w then ow_node w = Some (dp_node d)
       else dp_generation d < ow_generation w \<and> given_back (rows (dp_node d) (rn_id (dp_run d))) (dp_generation d))"
  proof (cases "ow_run u = i")
    case True
    then have "u = w" using same_id [OF job_invD(6) [OF assms(2)] u(1) assms(3)] assms(4) by simp
    have "?f u \<in> set (js_owners (update_owner i ?f db))" using in_update_owner [OF u(1), of i ?f] True by simp
    then show ?thesis by (rule bexI [rotated]) (use u True assms(5,6) \<open>u = w\<close> in \<open>auto split: if_splits\<close>)
  next
    case False
    then have "u \<in> set (js_owners (update_owner i ?f db))" using in_update_owner [OF u(1), of i ?f] by simp
    with u show ?thesis by blast
  qed
qed

lemma owners_part: "custody_kept db db' \<Longrightarrow> \<forall>w \<in> set (js_owners db). \<exists>v \<in> set (js_owners db'). same_custody w v"
  by (simp add: custody_kept_def)

lemma owners_equal: "js_owners db' = js_owners db \<Longrightarrow> \<forall>w \<in> set (js_owners db). \<exists>v \<in> set (js_owners db'). same_custody w v"
  by (auto simp: same_custody_def)

lemma accept_dispatches:
  assumes "accept_job_report n q db = Inr (db', b)" and "job_inv db" and "dispatches_ok db rows ds"
    and "rp_state q = Report_Released \<longrightarrow> given_back (rows n (rp_run q)) (rp_generation q)"
  shows "dispatches_ok db' rows ds"
  using assms(1,2)
proof (cases rule: accept_cases)
  case (released w)
  then show ?thesis using dispatches_released [OF assms(3,2) released(1,2,3)] assms(4) by simp
next
  case noted
  then show ?thesis using dispatches_kept [OF assms(3)] owners_part by blast
next
  case (reported w r)
  then have "js_owners db' = js_owners db" using accept_running_effect by blast
  then show ?thesis by (intro dispatches_kept [OF assms(3)] owners_equal)
qed (use assms(3) in simp_all)

lemma fleet_db_ok:
  assumes "fleet_ok f" and "good (fl_db f) db" and "custody_moves (fl_db f) db" and "dispatches_ok db (row_at f) (set (fl_dispatches f))"
    and "successes_ok (f\<lparr>fl_db := db\<rparr>)"
  shows "fleet_ok (f\<lparr>fl_db := db\<rparr>)"
proof -
  have "runs_forward (fl_db f) db" "job_inv db" using assms(2) by (simp_all add: good_def)
  then show ?thesis
    using assms settled_stays [OF _ assms(3)]
    by (fastforce simp: fleet_ok_def machines_ok_def reports_ok_def settled_ok_def row_at_def)
qed

lemma supervisor_fleet:
  assumes "fleet_ok f" and "supervisor_step p (fl_db f) db"
  shows "fleet_ok (f\<lparr>fl_db := db\<rparr>)"
proof -
  have inv: "job_inv (fl_db f)" using assms(1) by (simp add: fleet_ok_def)
  note kept = supervisor_custody [OF assms(2) inv]
  have "successes_ok (f\<lparr>fl_db := db\<rparr>)"
    using assms(1) kept unfolding successes_ok_def custody_kept_def fleet_ok_def by fastforce
  then show ?thesis
    using assms(1) supervisor_step_good [OF assms(2) inv] kept_moves [OF kept] dispatches_kept [OF _ owners_part [OF kept]]
    by (intro fleet_db_ok) (simp_all add: fleet_ok_def)
qed

lemma accept_fleet:
  assumes "fleet_ok f" and "(n, q) \<in> set (fl_reports f)" and "accept_job_report n q (fl_db f) = Inr (db, b)"
  shows "fleet_ok (f\<lparr>fl_db := db, fl_accepted := if b then (n, q) # fl_accepted f else fl_accepted f\<rparr>)"
proof -
  have inv: "job_inv (fl_db f)" and rep: "rp_state q = Report_Released \<longrightarrow> given_back (row_at f n (rp_run q)) (rp_generation q)"
    "rp_state q = Report_Succeeded \<longrightarrow> fl_prompts f n (rp_run q) \<noteq> []"
    using assms(1,2) by (auto simp: fleet_ok_def reports_ok_def)
  have "successes_ok (f\<lparr>fl_db := db\<rparr>)"
    using assms(1) accept_success [OF assms(3) inv] rep(2) unfolding successes_ok_def fleet_ok_def by fastforce
  then have ok: "fleet_ok (f\<lparr>fl_db := db\<rparr>)"
    using assms(1) accept_good [OF inv assms(3)] accept_moves [OF assms(3) inv]
      accept_dispatches [where rows = "row_at f", OF assms(3) inv _ rep(1)]
    by (intro fleet_db_ok) (simp_all add: fleet_ok_def)
  have settles: "b \<longrightarrow> final_page q \<longrightarrow> settled db (rp_run q) (rp_generation q)" using accept_settles [OF assms(3) inv] by blast
  define g where "g = f\<lparr>fl_db := db, fl_accepted := if b then (n, q) # fl_accepted f else fl_accepted f\<rparr>"
  have "settled_ok (f\<lparr>fl_db := db\<rparr>)" using ok by (simp add: fleet_ok_def)
  then have "settled_ok g" using settles by (simp add: settled_ok_def g_def)
  with ok have "fleet_ok g"
    by (simp add: fleet_ok_def machines_ok_def reports_ok_def successes_ok_def g_def)
  then show ?thesis by (simp only: g_def)
qed

text \<open>New messages.\<close>

lemma row_more: "row_ok ds n i gs l \<Longrightarrow> ds \<subseteq> ds' \<Longrightarrow> row_ok ds' n i gs l"
  by (auto simp: row_ok_def)

lemma slot_more: "slot_ok ds n i row ex gs \<Longrightarrow> ds \<subseteq> ds' \<Longrightarrow> slot_ok ds' n i row ex gs"
  using row_more [of ds _ _ _ _ ds'] by (simp add: slot_ok_def)

lemma dispatch_fleet:
  assumes "fleet_ok f" and "job_dispatches n (fl_db f) = Inr ds" and "d \<in> set ds"
  shows "fleet_ok (f\<lparr>fl_dispatches := d # fl_dispatches f\<rparr>)"
proof -
  obtain w where "w \<in> set (js_owners (fl_db f))" "ow_run w = rn_id (dp_run d)" "ow_node w = Some (dp_node d)" "dp_generation d = ow_generation w"
    using assms(2,3) by (auto simp: job_dispatches_def)
  then have "dispatches_ok (fl_db f) (row_at f) (set (d # fl_dispatches f))"
    using assms(1) by (auto simp: fleet_ok_def dispatches_ok_def)
  moreover have "machines_ok (f\<lparr>fl_dispatches := d # fl_dispatches f\<rparr>)"
    using assms(1) slot_more [OF _ subset_insertI] by (simp add: fleet_ok_def machines_ok_def)
  ultimately show ?thesis using assms(1)
    by (simp add: fleet_ok_def reports_ok_def settled_ok_def successes_ok_def)
qed

lemma pending_in: "q \<in> set (but_few k ps) \<Longrightarrow> q \<in> set ps"
  by (induction k ps rule: but_few.induct) (auto split: if_splits nat.splits)

lemma report_fleet:
  assumes "fleet_ok f" and "q \<in> set (pending_reports (fl_machines f n))"
  shows "fleet_ok (f\<lparr>fl_reports := (n, q) # fl_reports f\<rparr>)"
proof -
  obtain i l where "(i, l) \<in> set (rd_rows (fl_machines f n))" "lr_report l = q"
    using assms(2) by (auto simp: pending_reports_def unsent_def dest!: pending_in)
  moreover have "one_row_each (fl_machines f n)" "slot_ok (set (fl_dispatches f)) n i (row_at f n i) (fl_executors f n i) (fl_prompts f n i)"
    using assms(1) by (simp_all add: fleet_ok_def machines_ok_def)
  ultimately have "row_at f n i = Some l" "rp_run q = i" "rp_generation q = lr_generation l"
    "rp_state q = Report_Succeeded \<longrightarrow> fl_prompts f n i \<noteq> []"
    by (auto simp: row_at_def row_of_def one_row_each_def slot_ok_def row_ok_def)
  moreover from this \<open>lr_report l = q\<close> have "rp_state q = Report_Released \<longrightarrow> given_back (row_at f n i) (rp_generation q)"
    by (simp add: given_back_def)
  ultimately show ?thesis using assms(1)
    by (simp add: fleet_ok_def machines_ok_def reports_ok_def settled_ok_def successes_ok_def)
qed

text \<open>Steps of a machine.\<close>

lemma dispatches_given:
  assumes "dispatches_ok db rows ds" and "\<And>m j k. given_back (rows m j) k \<Longrightarrow> given_back (rows' m j) k"
  shows "dispatches_ok db rows' ds"
  unfolding dispatches_ok_def
proof
  fix d assume "d \<in> ds"
  then obtain w where "w \<in> set (js_owners db)" "ow_run w = rn_id (dp_run d)"
    "if dp_generation d = ow_generation w then ow_node w = Some (dp_node d)
     else dp_generation d < ow_generation w \<and> given_back (rows (dp_node d) (rn_id (dp_run d))) (dp_generation d)"
    using assms(1) by (auto simp: dispatches_ok_def)
  then show "\<exists>w \<in> set (js_owners db). ow_run w = rn_id (dp_run d) \<and>
      (if dp_generation d = ow_generation w then ow_node w = Some (dp_node d)
       else dp_generation d < ow_generation w \<and> given_back (rows' (dp_node d) (rn_id (dp_run d))) (dp_generation d))"
    using assms(2) by (intro bexI [of _ w]) (auto split: if_splits)
qed

lemma machine_fleet:
  assumes "fleet_ok f" and "machine_step sha (set (fl_dispatches f)) {q. (n, q) \<in> set (fl_accepted f)} i
      (fl_machines f n, fl_executors f n i, fl_prompts f n i) (rd, ex, gs)"
    and g: "g = f\<lparr>fl_machines := (fl_machines f)(n := rd), fl_executors := (fl_executors f)(n := (fl_executors f n)(i := ex)),
      fl_prompts := (fl_prompts f)(n := (fl_prompts f n)(i := gs))\<rparr>"
  shows "fleet_ok g"
proof -
  have ok: "machines_ok f" using assms(1) by (simp add: fleet_ok_def)
  have moved: "moved_well (set (fl_dispatches f)) {q. (n, q) \<in> set (fl_accepted f)} n i
      (fl_machines f n, fl_executors f n i, fl_prompts f n i) (rd, ex, gs)"
    using ok by (intro machine_moves [OF assms(2)]) (simp_all add: machines_ok_def row_at_def)
  have one: "one_row_each rd" using one_row_step [OF assms(2)] ok by (simp add: machines_ok_def)
  from moved have slot: "slot_ok (set (fl_dispatches f)) n i (row_of rd i) ex gs"
    and given: "\<And>k. given_back (row_at f n i) k \<Longrightarrow> given_back (row_of rd i) k"
    and node: "rd_node rd = rd_node (fl_machines f n)"
    and others: "\<And>j. j \<noteq> i \<Longrightarrow> row_of rd j = row_at f n j"
    and acks: "acked {q. (n, q) \<in> set (fl_accepted f)} i (row_at f n i) (row_of rd i)"
    and kept: "fl_prompts f n i \<noteq> [] \<Longrightarrow> gs \<noteq> []"
    by (simp_all add: moved_well_def row_moves_def row_at_def)
  have same: "fl_db g = fl_db f" "fl_dispatches g = fl_dispatches f" "fl_reports g = fl_reports f" "fl_accepted g = fl_accepted f"
    by (simp_all add: g)
  have rows: "row_at g m j = (if m = n \<and> j = i then row_of rd i else row_at f m j)" for m j
    using others [of j] by (simp add: g row_at_def)
  have returned: "given_back (row_at f m j) k \<Longrightarrow> given_back (row_at g m j) k" for m j k
    using given by (auto simp: rows)
  have prompts: "fl_prompts f m j \<noteq> [] \<Longrightarrow> fl_prompts g m j \<noteq> []" for m j using kept by (auto simp: g)
  have "rd_node (fl_machines g m) = m \<and> one_row_each (fl_machines g m)" for m
    using ok one node by (simp add: g machines_ok_def)
  moreover have "slot_ok (set (fl_dispatches g)) m j (row_at g m j) (fl_executors g m j) (fl_prompts g m j)" for m j
    using ok slot by (simp add: rows same) (simp add: g machines_ok_def)
  ultimately have "machines_ok g" by (simp add: machines_ok_def)
  moreover have "dispatches_ok (fl_db f) (row_at f) (set (fl_dispatches f))" using assms(1) by (simp add: fleet_ok_def)
  then have "dispatches_ok (fl_db g) (row_at g) (set (fl_dispatches g))"
    unfolding same by (rule dispatches_given) (rule returned)
  moreover have "reports_ok g" using assms(1) returned prompts by (auto simp: fleet_ok_def reports_ok_def same)
  moreover have "settled_ok g"
  proof -
    have acc: "\<forall>(m, q) \<in> set (fl_accepted f). final_page q \<longrightarrow> settled (fl_db f) (rp_run q) (rp_generation q)"
      and old: "\<And>m j l. row_at f m j = Some l \<Longrightarrow> lr_acknowledged l \<Longrightarrow> settled (fl_db f) j (lr_generation l)"
      using assms(1) by (auto simp: fleet_ok_def settled_ok_def)
    have "settled (fl_db f) j (lr_generation l)" if l: "row_at g m j = Some l" "lr_acknowledged l" for m j l
    proof (cases "m = n \<and> j = i")
      case True
      then have "row_of rd i = Some l" using l(1) rows by simp
      then consider l0 where "row_at f n i = Some l0" "lr_acknowledged l0" "lr_generation l0 = lr_generation l"
        | q where "(n, q) \<in> set (fl_accepted f)" "rp_run q = i" "rp_generation q = lr_generation l" "final_page q"
        using acks l(2) by (auto simp: acked_def)
      then show ?thesis using old acc True by cases (metis, fastforce)
    next
      case False
      with l rows have "row_at f m j = Some l" by (simp split: if_splits)
      with old l(2) show ?thesis by blast
    qed
    with acc show ?thesis by (auto simp: settled_ok_def same)
  qed
  moreover have "successes_ok g" using assms(1) prompts unfolding fleet_ok_def successes_ok_def same by blast
  ultimately show ?thesis using assms(1) by (simp add: fleet_ok_def same)
qed

lemma fleet_step_ok:
  assumes "fleet_step p f g" and "fleet_ok f"
  shows "fleet_ok g"
  using assms
  by (cases rule: fleet_step.cases)
    (simp_all only: supervisor_fleet dispatch_fleet report_fleet accept_fleet machine_fleet [OF _ _ refl])

lemma fleet_steps_ok: "fleet_steps p f g \<Longrightarrow> fleet_ok f \<Longrightarrow> fleet_ok g"
  by (induction rule: fleet_steps.induct) (auto intro: fleet_step_ok)

lemma fleet_reached: "idle_fleet f0 \<Longrightarrow> fleet_steps p f0 f \<Longrightarrow> fleet_ok f"
  using fleet_steps_ok idle_fleet_ok by blast

text \<open>Who wrote the instructions holds the present generation of the run.\<close>

lemma prompted_holder:
  assumes "fleet_ok f" and "fl_prompts f n i \<noteq> []"
  shows "\<exists>w \<in> set (js_owners (fl_db f)). ow_run w = i \<and> ow_node w = Some n \<and> fl_prompts f n i = [ow_generation w]"
proof -
  have slot: "slot_ok (set (fl_dispatches f)) n i (row_at f n i) (fl_executors f n i) (fl_prompts f n i)"
    using assms(1) by (simp add: fleet_ok_def machines_ok_def)
  then have "length (fl_prompts f n i) \<le> 1" by (simp add: slot_ok_def)
  with assms(2) obtain g where g: "fl_prompts f n i = [g]" by (cases "fl_prompts f n i") auto
  with slot obtain l where l: "row_at f n i = Some l" "lr_generation l = g" "rp_state (lr_report l) \<noteq> Report_Released"
    by (auto simp: slot_ok_def)
  with slot obtain d where d: "d \<in> set (fl_dispatches f)" "rn_id (dp_run d) = i" "dp_node d = n" "dp_generation d = g"
    by (auto simp: slot_ok_def row_ok_def)
  have "\<not> given_back (row_at f n i) g" using l by (simp add: given_back_def)
  with d assms(1) show ?thesis unfolding g fleet_ok_def dispatches_ok_def by (fastforce split: if_splits)
qed

lemma one_holder:
  assumes "fleet_ok f" and "fl_prompts f n i \<noteq> []" and "fl_prompts f m i \<noteq> []"
  shows "n = m"
proof -
  obtain w v where "w \<in> set (js_owners (fl_db f))" "ow_run w = i" "ow_node w = Some n"
    and "v \<in> set (js_owners (fl_db f))" "ow_run v = i" "ow_node v = Some m"
    using prompted_holder [OF assms(1,2)] prompted_holder [OF assms(1,3)] by blast
  moreover have "job_inv (fl_db f)" using assms(1) by (simp add: fleet_ok_def)
  ultimately show ?thesis using same_id [OF job_invD(6), of "fl_db f" w v] by simp
qed

section \<open>An example\<close>

text \<open>The run of a script on one machine, from its publication to the acknowledgement of its outcome.\<close>

definition idle_machine :: "string \<Rightarrow> runner_db" where
  "idle_machine n = \<lparr>rd_node = n, rd_rows = [], rd_revisions = [], rd_runs = [], rd_files = Map.empty, rd_logs = (\<lambda>_. None)\<rparr>"

definition example_fleet :: fleet where
  "example_fleet = \<lparr>fl_db = example_jobs, fl_machines = idle_machine, fl_executors = (\<lambda>_ _. None), fl_prompts = (\<lambda>_ _. []),
     fl_dispatches = [], fl_reports = [], fl_accepted = []\<rparr>"

lemma example_idle: "idle_fleet example_fleet"
  by (simp add: idle_fleet_def example_fleet_def idle_machine_def example_no_runs)

definition assigned_child :: job_run where
  "assigned_child = example_child\<lparr>rn_worker := Some ''w''\<rparr>"

definition example_dispatch :: dispatch where
  "example_dispatch = \<lparr>dp_run = assigned_child, dp_node = ''m'', dp_generation = 1, dp_revoke = False\<rparr>"

definition assigned_jobs :: jobs_db where
  "assigned_jobs = expanded_jobs\<lparr>js_runs := [example_root, assigned_child],
     js_owners := [new_owner ''r1'', (new_owner ''c1'')\<lparr>ow_node := Some ''m''\<rparr>]\<rparr>"

definition example_view :: machine_view where
  "example_view = \<lparr>mv_self = (7, ''boot''), mv_alive = (\<lambda>_. False), mv_group_gone = (\<lambda>_. Inr True), mv_slots = (\<lambda>_. 1),
     mv_stopped = False, mv_now = 9\<rparr>"

text \<open>The machine after each transaction.\<close>

definition example_received :: runner_db where
  "example_received = fst (receive_dispatch (jp_sha example_ports) example_dispatch [] (idle_machine ''m''))"

definition example_claimed :: runner_db where
  "example_claimed = put_row ''c1'' ((fresh_row example_dispatch)\<lparr>lr_owner := Some (7, ''boot'')\<rparr>) example_received"

definition example_marked :: runner_db where
  "example_marked = put_row ''c1'' ((fresh_row example_dispatch)\<lparr>lr_owner := Some (7, ''boot''), lr_submitted := True,
     lr_process := Some (8, ''boot'')\<rparr>) example_claimed"

definition example_begun :: report where
  "example_begun = (report_pending example_dispatch)\<lparr>rp_started_at := Some 9, rp_state := Report_Running\<rparr>"

definition example_success :: report where
  "example_success = example_begun\<lparr>rp_state := Report_Succeeded, rp_finished_at := Some 10\<rparr>"

lemma example_assigned: "assign_job ''c1'' ''m'' ''w'' expanded_jobs = Inr (assigned_jobs, True)"
  by code_simp

lemma example_dispatched: "job_dispatches ''m'' assigned_jobs = Inr [example_dispatch]"
  by code_simp

lemma example_receives: "receive_dispatch (jp_sha example_ports) example_dispatch [] (idle_machine ''m'') = (example_received, Inr ())"
proof -
  have "snd (receive_dispatch (jp_sha example_ports) example_dispatch [] (idle_machine ''m'')) = Inr ()" by code_simp
  then show ?thesis by (simp add: example_received_def prod_eq_iff)
qed

lemma example_facts:
  "rn_id (dp_run example_dispatch) = ''c1''" "dp_node example_dispatch = ''m''" "dp_generation example_dispatch = 1"
  "dp_revoke example_dispatch = False" "is_command example_dispatch = False" "dispatch_script example_dispatch = True"
  "rn_created_at (dp_run example_dispatch) = 5"
  by code_simp+

lemma cached_logs: "cache_job_response sha run s digest t rd = (rd', r) \<Longrightarrow> rd_logs rd' = rd_logs rd"
  by (auto simp: cache_job_response_def cache_copies_def Let_def split: sum.splits if_splits option.splits)

lemma placed_logs: "place_dispatch d rd = Inr rd' \<Longrightarrow> rd_logs rd' = rd_logs rd"
  by (auto simp: place_dispatch_def Let_def split: option.splits if_splits)

lemma received_logs: "receive_dispatch sha d t rd = (rd', r) \<Longrightarrow> rd_logs rd' = rd_logs rd"
  by (auto simp: receive_dispatch_def split: sum.splits if_splits prod.splits dest!: cached_logs placed_logs)

lemma example_logs: "rd_logs example_received = (\<lambda>_. None)"
  using received_logs [OF example_receives] by (simp add: idle_machine_def)

lemma example_rows:
  "row_of example_received ''c1'' = Some (fresh_row example_dispatch)" "rd_node example_received = ''m''"
  by code_simp+

lemma example_claims:
  "start_execution example_view example_dispatch example_received = Inr (example_claimed, Some (report_pending example_dispatch))"
  using example_rows(1)
  by (simp add: start_execution_def claim_execution_def revoked_def fresh_row_def live_report_def report_pending_def example_facts
      example_claimed_def example_view_def)

definition example_executor :: "phase \<Rightarrow> report \<Rightarrow> executor" where
  "example_executor ph p = \<lparr>ex_dispatch = example_dispatch, ex_report = p, ex_phase = ph\<rparr>"

lemma example_launches: "launch None (8, ''boot'') (example_executor Claimed (report_pending example_dispatch)) example_claimed =
    (example_claimed, example_executor Launched (report_pending example_dispatch))"
  by (simp add: launch_def example_executor_def example_facts report_pending_def)

lemma example_marks: "mark (Some (8, ''boot'')) (example_executor Cleared p) example_claimed = (example_marked, example_executor Marked p)"
  by (simp add: mark_def mark_submitted_def example_executor_def example_facts example_claimed_def example_marked_def fresh_row_def)

definition example_running :: runner_db where
  "example_running = put_row ''c1'' ((the (row_of example_marked ''c1''))\<lparr>lr_report := example_begun, lr_acknowledged := False\<rparr>) example_marked"

definition example_over :: runner_db where
  "example_over = put_row ''c1'' ((the (row_of example_running ''c1''))\<lparr>lr_report := example_success, lr_acknowledged := False\<rparr>) example_running"

lemma example_begins: "begin_turn None 9 (example_executor Marked (report_pending example_dispatch)) example_marked =
    Inr (example_running, example_executor Begun example_begun)"
  by (simp add: begin_turn_def Let_def begun_report_def save_report_def example_executor_def example_facts example_marked_def example_running_def
      example_begun_def report_pending_def fresh_row_def)

lemma example_finishes: "handle_event 10 (Script_Exited True [] (Some 0)) (example_executor Prompted example_begun) example_running =
    Inr (example_over, None)"
  by (simp add: handle_event_def Let_def event_outcome_def event_report_def exit_result_def finish_def finished_report_def save_report_def read_log_def
      example_executor_def example_facts example_marked_def example_running_def example_over_def example_claimed_def example_logs
      example_begun_def example_success_def report_pending_def fresh_row_def)

lemma example_reports: "example_success \<in> set (pending_reports example_over)"
  by code_simp

definition finished_jobs :: jobs_db where
  "finished_jobs = fst (projr (accept_job_report ''m'' example_success assigned_jobs))"

lemma example_accepted: "accept_job_report ''m'' example_success assigned_jobs = Inr (finished_jobs, True)"
proof -
  have "(case accept_job_report ''m'' example_success assigned_jobs of Inl _ \<Rightarrow> False | Inr (_, b) \<Rightarrow> b)" by code_simp
  then show ?thesis by (auto simp: finished_jobs_def split: sum.splits prod.splits)
qed

definition example_settled :: runner_db where
  "example_settled = projr (acknowledge_report example_success example_over)"

lemma example_acknowledges: "acknowledge_report example_success example_over = Inr example_settled"
proof -
  have "is_ok (acknowledge_report example_success example_over)" by code_simp
  then show ?thesis by (auto simp: example_settled_def is_ok_def split: sum.splits)
qed

lemma example_settled_row: "map_option lr_acknowledged (row_of example_settled ''c1'') = Some True"
    "map_option lr_generation (row_of example_settled ''c1'') = Some 1"
  by code_simp+

definition example_at where
  "example_at db rd ex gs ds qs acc = \<lparr>fl_db = db, fl_machines = idle_machine(''m'' := rd),
     fl_executors = (\<lambda>_ _. None)(''m'' := (\<lambda>_. None)(''c1'' := ex)), fl_prompts = (\<lambda>_ _. [])(''m'' := (\<lambda>_. [])(''c1'' := gs)),
     fl_dispatches = ds, fl_reports = qs, fl_accepted = acc\<rparr>"

lemma example_start: "example_at example_jobs (idle_machine ''m'') None [] [] [] [] = example_fleet"
  by (simp add: example_at_def example_fleet_def fun_eq_iff)

lemma at_supervisor:
  assumes "fleet_steps p f0 (example_at db rd ex gs ds qs acc)" and "supervisor_step p db db'"
  shows "fleet_steps p f0 (example_at db' rd ex gs ds qs acc)"
  using fleet_steps.step [OF assms(1) fleet_step.supervisor [of p "example_at db rd ex gs ds qs acc" db']] assms(2)
  by (simp add: example_at_def)

lemma at_machine:
  assumes "fleet_steps p f0 (example_at db rd ex gs ds qs acc)"
    and "machine_step (jp_sha p) (set ds) {q. (''m'', q) \<in> set acc} ''c1'' (rd, ex, gs) (rd', ex', gs')"
  shows "fleet_steps p f0 (example_at db rd' ex' gs' ds qs acc)"
  using fleet_steps.step [OF assms(1) fleet_step.machine [of p "example_at db rd ex gs ds qs acc" "''m''" "''c1''" rd' ex' gs']] assms(2)
  by (simp add: example_at_def)

lemma example_prompted:
  "fleet_steps example_ports example_fleet
     (example_at assigned_jobs example_running (Some (example_executor Prompted example_begun)) [1] [example_dispatch] [] [])"
proof -
  let ?p = "report_pending example_dispatch"
  let ?at = "\<lambda>rd ex gs. example_at assigned_jobs rd ex gs [example_dispatch] [] []"
  have "fleet_steps example_ports example_fleet (example_at example_jobs (idle_machine ''m'') None [] [] [] [])"
    unfolding example_start by (rule fleet_steps.none)
  then have "fleet_steps example_ports example_fleet (example_at published_jobs (idle_machine ''m'') None [] [] [] [])"
    by (rule at_supervisor) (rule supervisor_step.enqueue [OF example_published])
  then have "fleet_steps example_ports example_fleet (example_at expanded_jobs (idle_machine ''m'') None [] [] [] [])"
    by (rule at_supervisor) (rule supervisor_step.expand [OF example_expanded])
  then have 1: "fleet_steps example_ports example_fleet (example_at assigned_jobs (idle_machine ''m'') None [] [] [] [])"
    by (rule at_supervisor) (rule supervisor_step.assign [OF example_assigned],
      simp add: expanded_jobs_def is_group_def example_root_def new_run_def example_child_def child_run_def)
  have "fleet_steps example_ports example_fleet (?at (idle_machine ''m'') None [])"
    using fleet_steps.step [OF 1 fleet_step.dispatch [of "''m''" _ "[example_dispatch]" example_dispatch]] example_dispatched
    by (simp add: example_at_def)
  then have "fleet_steps example_ports example_fleet (?at example_received None [])"
    by (rule at_machine) (rule machine_step.receive [OF _ _ example_receives], simp_all add: example_facts)
  then have "fleet_steps example_ports example_fleet (?at example_claimed (Some (example_executor Claimed ?p)) [])"
    by (rule at_machine) (use machine_step.execute [OF _ _ _ example_claims] in
      \<open>simp add: example_facts example_rows claimed_def example_executor_def\<close>)
  then have "fleet_steps example_ports example_fleet (?at example_claimed (Some (example_executor Launched ?p)) [])"
    by (rule at_machine) (rule machine_step.launch [OF _ example_launches], simp add: example_executor_def)
  then have "fleet_steps example_ports example_fleet (?at example_claimed (Some (example_executor Cleared ?p)) [])"
    by (rule at_machine) (use machine_step.clear [of "example_executor Launched ?p" example_view example_claimed] in
      \<open>simp add: example_executor_def interrupted_def revoked_def example_facts example_claimed_def fresh_row_def example_view_def\<close>)
  then have "fleet_steps example_ports example_fleet (?at example_marked (Some (example_executor Marked ?p)) [])"
    by (rule at_machine) (rule machine_step.mark [OF _ example_marks], simp add: example_executor_def)
  then have "fleet_steps example_ports example_fleet (?at example_running (Some (example_executor Begun example_begun)) [])"
    by (rule at_machine) (rule machine_step.begin_turn [OF _ example_begins], simp add: example_executor_def)
  then show ?thesis
    by (rule at_machine) (use machine_step.prompt [of "example_executor Begun example_begun"] in \<open>simp add: example_executor_def example_facts\<close>)
qed

lemma example_completed:
  "fleet_steps example_ports example_fleet
     (example_at finished_jobs example_settled None [1] [example_dispatch] [(''m'', example_success)] [(''m'', example_success)])"
proof -
  have 1: "fleet_steps example_ports example_fleet (example_at assigned_jobs example_over None [1] [example_dispatch] [] [])"
    using example_prompted
    by (rule at_machine) (rule machine_step.event [OF _ example_finishes], simp add: example_executor_def)
  have 2: "fleet_steps example_ports example_fleet
      (example_at assigned_jobs example_over None [1] [example_dispatch] [(''m'', example_success)] [])"
    using fleet_steps.step [OF 1 fleet_step.report [of example_success _ "''m''"]] example_reports by (simp add: example_at_def)
  have "fleet_steps example_ports example_fleet
      (example_at finished_jobs example_over None [1] [example_dispatch] [(''m'', example_success)] [(''m'', example_success)])"
    using fleet_steps.step [OF 2 fleet_step.accept [of "''m''" example_success _ finished_jobs True]] example_accepted
    by (simp add: example_at_def)
  then show ?thesis
    by (rule at_machine) (rule machine_step.acknowledge [OF _ _ example_acknowledges], simp,
      simp add: example_success_def example_begun_def report_pending_def example_facts)
qed

section \<open>Properties\<close>

text \<open>
  C6. However the messages between the supervisor and the machines are delayed, lost,
  repeated or reordered, and wherever executors die, the instructions of a run are written
  to a process at most once, on one machine of the fleet at most, and under the generation
  by which that machine holds the run.
\<close>

theorem instructions_are_written_at_most_once:
  assumes "idle_fleet f0" and "fleet_steps p f0 f"
  shows "length (fl_prompts f n i) \<le> 1 \<and> (fl_prompts f n i \<noteq> [] \<longrightarrow> fl_prompts f m i \<noteq> [] \<longrightarrow> n = m) \<and>
    (\<forall>g \<in> set (fl_prompts f n i). \<exists>w \<in> set (js_owners (fl_db f)). ow_run w = i \<and> ow_node w = Some n \<and> ow_generation w = g)"
proof (cases "fl_prompts f n i")
  case (Cons g gs)
  have ok: "fleet_ok f" by (rule fleet_reached [OF assms])
  with prompted_holder [OF ok, of n i] one_holder [OF ok, of n i m] Cons show ?thesis by auto
qed simp

lemma instructions_are_written_at_most_once_witness:
  "\<exists>f. f = example_at finished_jobs example_settled None [1] [example_dispatch] [(''m'', example_success)] [(''m'', example_success)] \<and>
     fl_prompts f ''m'' ''c1'' = [1] \<and> fl_prompts f ''n'' ''c1'' = []"
  using instructions_are_written_at_most_once [OF example_idle example_completed, of "''m''" "''c1''" "''n''"]
  by (simp add: example_at_def)

text \<open>
  C17. A run that the supervisor shows as succeeded, and that is no group of runs, had its
  instructions written exactly once in the whole fleet.
\<close>

theorem succeeded_runs_were_told:
  assumes "idle_fleet f0" and "fleet_steps p f0 f" and "r \<in> set (js_runs (fl_db f))" and "rn_state r = Succeeded" and "\<not> is_group r"
  shows "\<exists>!n. length (fl_prompts f n (rn_id r)) = 1"
proof -
  have ok: "fleet_ok f" by (rule fleet_reached [OF assms(1,2)])
  with assms(3-5) obtain n where n: "fl_prompts f n (rn_id r) \<noteq> []" by (auto simp: fleet_ok_def successes_ok_def)
  show ?thesis
  proof
    show "length (fl_prompts f n (rn_id r)) = 1" using prompted_holder [OF ok n] by auto
  next
    fix m assume "length (fl_prompts f m (rn_id r)) = 1"
    then have "fl_prompts f m (rn_id r) \<noteq> []" by auto
    then show "m = n" using one_holder [OF ok _ n] by blast
  qed
qed

definition finished_child :: job_run where
  "finished_child = the (find_run finished_jobs ''c1'')"

lemma example_finished: "find_run finished_jobs ''c1'' = Some finished_child" "rn_id finished_child = ''c1''"
    "rn_state finished_child = Succeeded" "is_group finished_child = False"
  by code_simp+

lemma succeeded_runs_were_told_witness:
  "\<exists>!n. length (fl_prompts (example_at finished_jobs example_settled None [1] [example_dispatch]
     [(''m'', example_success)] [(''m'', example_success)]) n ''c1'') = 1"
  using succeeded_runs_were_told [OF example_idle example_completed, of finished_child] example_finished
  by (auto simp: example_at_def find_run_def find_Some_iff)

text \<open>
  C30. An outcome that a machine holds as acknowledged, and no longer sends, is settled at
  the supervisor: the run has ended there, or was given back under a later generation.
\<close>

theorem acknowledged_outcomes_are_settled:
  assumes "idle_fleet f0" and "fleet_steps p f0 f" and "row_of (fl_machines f n) i = Some l" and "lr_acknowledged l"
  shows "(\<exists>r \<in> set (js_runs (fl_db f)). rn_id r = i \<and> \<not> run_active r) \<or>
    (\<exists>w \<in> set (js_owners (fl_db f)). ow_run w = i \<and> lr_generation l < ow_generation w)"
proof -
  have "settled_ok f" using fleet_reached [OF assms(1,2)] by (simp add: fleet_ok_def)
  then have "settled (fl_db f) i (lr_generation l)" using assms(3,4) unfolding settled_ok_def row_at_def by blast
  then show ?thesis unfolding settled_def by blast
qed

lemma acknowledged_outcomes_are_settled_witness:
  "\<exists>l. row_of example_settled ''c1'' = Some l \<and>
    ((\<exists>r \<in> set (js_runs finished_jobs). rn_id r = ''c1'' \<and> \<not> run_active r) \<or>
     (\<exists>w \<in> set (js_owners finished_jobs). ow_run w = ''c1'' \<and> 1 < ow_generation w))"
  using acknowledged_outcomes_are_settled [OF example_idle example_completed, of "''m''" "''c1''" "the (row_of example_settled ''c1'')"]
    example_settled_row
  by (auto simp: example_at_def)

end
