(* ===== verification/Issue_Graph.thy ===== *)
theory Issue_Graph
  imports Json
begin

text \<open>
  The dependencies of the issues of a project (\<open>src/src/issues/blockers.rs\<close>): declared
  blockers and subtasks. An issue is unfinished until it is closed or deleted, or ready with
  nothing it depends on unfinished. The code computes this by a recursion that remembers its
  results and takes an issue it is still computing as unfinished; the lemmas show that the
  result does not depend on the order of the questions, even on cyclic data.
\<close>

section \<open>Graphs\<close>

datatype issue_state = State_Open | State_Blocked | State_Ready | State_Closed

record dep_issue =
  di_title :: string
  di_state :: issue_state
  di_deleted :: bool
  di_manual :: bool
  di_creator :: string
  di_draft :: bool
  di_assignee :: "string option"
  di_reserved :: bool
  di_version :: int

text \<open>
  The ordered maps of the code are association lists in the order of their keys. The
  dependents of an issue are those that link it and its parents.
\<close>

datatype dep_source = Subtask | Linked

record dep_graph =
  dg_prs :: bool
  dg_issues :: "(int \<times> dep_issue) list"
  dg_children :: "(int \<times> int list) list"
  dg_links :: "(int \<times> int list) list"
  dg_dependents :: "(int \<times> (int \<times> dep_source) list) list"

definition dep_targets :: "(int \<times> int list) list \<Rightarrow> int \<Rightarrow> int list" where
  "dep_targets m n = (case map_of m n of None \<Rightarrow> [] | Some ns \<Rightarrow> ns)"

type_synonym memo = "int \<Rightarrow> bool option"
type_synonym actives = "int \<Rightarrow> (int \<times> dep_source) list option"

section \<open>Unfinished issues\<close>

text \<open>
  The search for an unfinished subtask: the head of the list is the top of the stack, and
  the search goes through closed subtasks only. \<open>u\<close> answers whether an issue is unfinished.
\<close>

lemma card_unseen: "map_of xs c = Some i \<Longrightarrow> c \<notin> seen \<Longrightarrow> card (fst ` set xs - insert c seen) < card (fst ` set xs - seen)"
proof (rule psubset_card_mono)
  assume "map_of xs c = Some i" "c \<notin> seen"
  then have "c \<in> fst ` set xs - seen" by (force dest: map_of_SomeD)
  then show "fst ` set xs - insert c seen \<subset> fst ` set xs - seen" by blast
qed simp

function active_child ::
  "dep_graph \<Rightarrow> (int \<Rightarrow> memo \<Rightarrow> bool \<times> memo) \<Rightarrow> int list \<Rightarrow> int set \<Rightarrow> memo \<Rightarrow> bool \<times> memo" where
  "active_child g u [] seen m = (False, m)"
| "active_child g u (c # todo) seen m =
     (case map_of (dg_issues g) c of
        None \<Rightarrow> active_child g u todo seen m
      | Some i \<Rightarrow>
          if di_deleted i \<or> c \<in> seen then active_child g u todo seen m
          else case u c m of
            (r, m) \<Rightarrow>
              if r then (True, m)
              else active_child g u (if di_state i = State_Closed then rev (dep_targets (dg_children g) c) @ todo else todo)
                     (insert c seen) m)"
  by pat_completeness auto

termination
  by (relation "inv_image (less_than <*lex*> less_than)
      (\<lambda>(g, u, todo, seen, m). (card (fst ` set (dg_issues g) - seen), length todo))")
    (auto simp: card_unseen)

fun any_unfinished :: "(int \<Rightarrow> memo \<Rightarrow> bool \<times> memo) \<Rightarrow> int list \<Rightarrow> memo \<Rightarrow> bool \<times> memo" where
  "any_unfinished u [] m = (False, m)"
| "any_unfinished u (b # bs) m = (case u b m of (r, m) \<Rightarrow> if r then (True, m) else any_unfinished u bs m)"

definition active_with :: "dep_graph \<Rightarrow> actives \<Rightarrow> (int \<Rightarrow> memo \<Rightarrow> bool \<times> memo) \<Rightarrow> int \<Rightarrow> memo \<Rightarrow> bool \<times> memo" where
  "active_with g ac u n m =
     (case ac n of
        Some xs \<Rightarrow> (xs \<noteq> [], m)
      | None \<Rightarrow>
          (case active_child g u (rev (dep_targets (dg_children g) n)) {} m of
             (r, m) \<Rightarrow> if r then (True, m) else any_unfinished u (dep_targets (dg_links g) n) m))"

text \<open>
  The recursion is at most as deep as there are issues, since each of its calls that goes
  on adds an issue to the memo; the number bounds its depth.
\<close>

fun unfinished_in :: "dep_graph \<Rightarrow> actives \<Rightarrow> nat \<Rightarrow> int \<Rightarrow> memo \<Rightarrow> bool \<times> memo" where
  "unfinished_in g ac 0 n m = (True, m)"
| "unfinished_in g ac (Suc k) n m =
     (case m n of
        Some finished \<Rightarrow> (\<not> finished, m)
      | None \<Rightarrow>
          (case (case map_of (dg_issues g) n of
                   None \<Rightarrow> (True, m(n \<mapsto> False))
                 | Some i \<Rightarrow>
                     if di_deleted i \<or> di_state i = State_Closed then (False, m(n \<mapsto> False))
                     else if di_state i \<noteq> State_Ready then (True, m(n \<mapsto> False))
                     else active_with g ac (unfinished_in g ac k) n (m(n \<mapsto> False))) of
             (r, m) \<Rightarrow> (r, m(n \<mapsto> \<not> r))))"

definition unfinished :: "dep_graph \<Rightarrow> actives \<Rightarrow> int \<Rightarrow> memo \<Rightarrow> bool \<times> memo" where
  "unfinished g ac = unfinished_in g ac (Suc (length (dg_issues g)))"

definition has_active :: "dep_graph \<Rightarrow> actives \<Rightarrow> int \<Rightarrow> memo \<Rightarrow> bool \<times> memo" where
  "has_active g ac = active_with g ac (unfinished g ac)"

section \<open>What unfinished means\<close>

definition alive :: "dep_graph \<Rightarrow> int \<Rightarrow> bool" where
  "alive g n \<longleftrightarrow> (case map_of (dg_issues g) n of None \<Rightarrow> False | Some i \<Rightarrow> \<not> di_deleted i)"

definition in_state :: "dep_graph \<Rightarrow> issue_state \<Rightarrow> int \<Rightarrow> bool" where
  "in_state g st n \<longleftrightarrow> (case map_of (dg_issues g) n of None \<Rightarrow> False | Some i \<Rightarrow> \<not> di_deleted i \<and> di_state i = st)"

definition deleted_in :: "dep_graph \<Rightarrow> int \<Rightarrow> bool" where
  "deleted_in g n \<longleftrightarrow> (case map_of (dg_issues g) n of None \<Rightarrow> False | Some i \<Rightarrow> di_deleted i)"

text \<open>Subtasks reached through closed ones, and all that an issue depends on.\<close>

inductive subtask_of :: "dep_graph \<Rightarrow> int \<Rightarrow> int \<Rightarrow> bool" for g n where
  child: "c \<in> set (dep_targets (dg_children g) n) \<Longrightarrow> alive g c \<Longrightarrow> subtask_of g n c"
| below: "subtask_of g n c \<Longrightarrow> in_state g State_Closed c \<Longrightarrow> d \<in> set (dep_targets (dg_children g) c) \<Longrightarrow> alive g d \<Longrightarrow> subtask_of g n d"

definition depends :: "dep_graph \<Rightarrow> int \<Rightarrow> int \<Rightarrow> bool" where
  "depends g n c \<longleftrightarrow> subtask_of g n c \<or> c \<in> set (dep_targets (dg_links g) n)"

inductive satisfied :: "dep_graph \<Rightarrow> int \<Rightarrow> bool" for g where
  deleted: "deleted_in g n \<Longrightarrow> satisfied g n"
| closed: "in_state g State_Closed n \<Longrightarrow> satisfied g n"
| ready: "in_state g State_Ready n \<Longrightarrow> \<forall>c. depends g n c \<longrightarrow> satisfied g c \<Longrightarrow> satisfied g n"

definition waits :: "dep_graph \<Rightarrow> int \<Rightarrow> bool" where
  "waits g n \<longleftrightarrow> (\<exists>c. depends g n c \<and> \<not> satisfied g c)"

definition needs :: "dep_graph \<Rightarrow> int \<Rightarrow> int \<Rightarrow> bool" where
  "needs g n c \<longleftrightarrow> in_state g State_Ready n \<and> depends g n c"

lemma one_state: "in_state g a n \<Longrightarrow> in_state g b n \<Longrightarrow> a = b"
  by (auto simp: in_state_def split: option.splits)

lemma alive_state: "in_state g a n \<Longrightarrow> \<not> deleted_in g n"
  by (auto simp: in_state_def deleted_in_def split: option.splits)

lemma satisfied_needs: "satisfied g n \<Longrightarrow> needs g n c \<Longrightarrow> satisfied g c"
  by (cases rule: satisfied.cases) (auto simp: needs_def dest: one_state alive_state)

lemma satisfied_acyclic: "satisfied g n \<Longrightarrow> \<not> (needs g)\<^sup>+\<^sup>+ n n"
proof (induction rule: satisfied.induct)
  case (ready n)
  show ?case
  proof
    assume "(needs g)\<^sup>+\<^sup>+ n n"
    then obtain c where c: "needs g n c" "(needs g)\<^sup>*\<^sup>* c n" by (auto dest: tranclpD)
    then have "(needs g)\<^sup>+\<^sup>+ c c" by (meson rtranclp_into_tranclp1)
    moreover have "depends g n c" using c(1) by (simp add: needs_def)
    with ready(2) have "\<not> (needs g)\<^sup>+\<^sup>+ c c" by blast
    ultimately show False by blast
  qed
qed (auto simp: needs_def dest!: tranclpD dest: one_state alive_state)

lemma satisfied_ready: "in_state g State_Ready n \<Longrightarrow> satisfied g n \<longleftrightarrow> \<not> waits g n"
  by (auto simp: waits_def intro: satisfied.ready elim: satisfied.cases dest: one_state alive_state)

section \<open>The recursion\<close>

text \<open>
  What a memo may hold while the issues of \<open>p\<close> are being computed, and what the answer to a
  question about an issue that all of them need must be.
\<close>

definition memo_ok :: "dep_graph \<Rightarrow> int set \<Rightarrow> memo \<Rightarrow> bool" where
  "memo_ok g p m \<longleftrightarrow> (\<forall>x. (m x = Some True \<longrightarrow> satisfied g x) \<and> (m x = Some False \<longrightarrow> x \<in> p \<or> \<not> satisfied g x))"

definition room :: "dep_graph \<Rightarrow> memo \<Rightarrow> nat" where
  "room g m = card (fst ` set (dg_issues g) - dom m)"

definition answer_ok :: "dep_graph \<Rightarrow> int set \<Rightarrow> memo \<Rightarrow> bool \<Rightarrow> bool \<times> memo \<Rightarrow> bool" where
  "answer_ok g p m q = (\<lambda>(r, m'). (r \<longleftrightarrow> q) \<and> memo_ok g p m' \<and> dom m \<subseteq> dom m')"

definition answers :: "dep_graph \<Rightarrow> int set \<Rightarrow> nat \<Rightarrow> (int \<Rightarrow> memo \<Rightarrow> bool \<times> memo) \<Rightarrow> (int \<Rightarrow> bool) \<Rightarrow> bool" where
  "answers g p k u q \<longleftrightarrow> (\<forall>c m. q c \<longrightarrow> memo_ok g p m \<longrightarrow> room g m < k \<longrightarrow> answer_ok g p m (\<not> satisfied g c) (u c m))"

lemma room_mono: "dom m \<subseteq> dom m' \<Longrightarrow> room g m' \<le> room g m"
  unfolding room_def by (intro card_mono) auto

lemma answer_trans: "dom m \<subseteq> dom m1 \<Longrightarrow> answer_ok g p m1 q x \<Longrightarrow> answer_ok g p m q x"
  by (auto simp: answer_ok_def)

lemma alive_cases: "map_of (dg_issues g) c = Some i \<Longrightarrow> alive g c \<longleftrightarrow> \<not> di_deleted i"
  by (simp add: alive_def)

lemma answersD:
  assumes "answers g p k u q" and "q c" and "memo_ok g p m" and "room g m < k" and "u c m = (r, m1)"
  shows "r \<longleftrightarrow> \<not> satisfied g c" and "memo_ok g p m1" and "dom m \<subseteq> dom m1"
proof -
  have "answer_ok g p m (\<not> satisfied g c) (u c m)" using assms(1-4) by (simp add: answers_def)
  then show "r \<longleftrightarrow> \<not> satisfied g c" "memo_ok g p m1" "dom m \<subseteq> dom m1" using assms(5) by (simp_all add: answer_ok_def)
qed

text \<open>The stack and the set of the search: what is left to look at.\<close>

definition search_inv :: "dep_graph \<Rightarrow> int \<Rightarrow> int list \<Rightarrow> int set \<Rightarrow> bool" where
  "search_inv g n todo seen \<longleftrightarrow>
     (\<forall>c \<in> set todo. alive g c \<longrightarrow> subtask_of g n c) \<and> (\<forall>c \<in> seen. satisfied g c) \<and>
     (\<forall>c \<in> set (dep_targets (dg_children g) n). alive g c \<longrightarrow> c \<in> seen \<union> set todo) \<and>
     (\<forall>c \<in> seen. in_state g State_Closed c \<longrightarrow> (\<forall>d \<in> set (dep_targets (dg_children g) c). alive g d \<longrightarrow> d \<in> seen \<union> set todo))"

lemma search_start: "search_inv g n (rev (dep_targets (dg_children g) n)) {}"
  by (auto simp: search_inv_def intro: subtask_of.child)

lemma search_end:
  assumes "search_inv g n [] seen" and "subtask_of g n c"
  shows "satisfied g c"
proof -
  have "c \<in> seen" using assms(2) by induction (use assms(1) in \<open>auto simp: search_inv_def\<close>)
  with assms(1) show ?thesis by (simp add: search_inv_def)
qed

lemma search_skip: "search_inv g n (c # todo) seen \<Longrightarrow> \<not> alive g c \<or> c \<in> seen \<Longrightarrow> search_inv g n todo seen"
  unfolding search_inv_def by auto

lemma search_step:
  assumes "search_inv g n (c # todo) seen" and "satisfied g c" and "alive g c"
  shows "search_inv g n (if in_state g State_Closed c then rev (dep_targets (dg_children g) c) @ todo else todo) (insert c seen)"
proof -
  have "subtask_of g n c" using assms(1,3) by (simp add: search_inv_def)
  then show ?thesis using assms(1,2) unfolding search_inv_def by (auto intro: subtask_of.below)
qed

lemma active_child_correct:
  assumes "answers g p k u (subtask_of g n)" and "search_inv g n todo seen" and "memo_ok g p m" and "room g m < k"
  shows "answer_ok g p m (\<exists>c. subtask_of g n c \<and> \<not> satisfied g c) (active_child g u todo seen m)"
  using assms
proof (induction g u todo seen m rule: active_child.induct)
  case (1 g u seen m)
  then show ?case using search_end by (auto simp: answer_ok_def)
next
  case (2 g u c todo seen m)
  show ?case
  proof (cases "map_of (dg_issues g) c")
    case None
    then have "\<not> alive g c" by (simp add: alive_def)
    with None 2 search_skip show ?thesis by simp
  next
    case (Some i)
    show ?thesis
    proof (cases "di_deleted i \<or> c \<in> seen")
      case True
      with Some have "\<not> alive g c \<or> c \<in> seen" by (simp add: alive_cases)
      with Some True 2 search_skip show ?thesis by simp
    next
      case False
      then have alive: "alive g c" and closed: "di_state i = State_Closed \<longleftrightarrow> in_state g State_Closed c"
        using Some by (simp_all add: alive_cases in_state_def)
      have sub: "subtask_of g n c" using 2(5) alive by (simp add: search_inv_def)
      obtain r m1 where u: "u c m = (r, m1)" by fastforce
      have ok: "r \<longleftrightarrow> \<not> satisfied g c" "memo_ok g p m1" "dom m \<subseteq> dom m1"
        using answersD [OF 2(4) sub 2(6,7) u] by blast+
      show ?thesis
      proof (cases r)
        case True
        with Some False u ok sub show ?thesis by (auto simp: answer_ok_def)
      next
        case no: False
        have "answer_ok g p m1 (\<exists>c. subtask_of g n c \<and> \<not> satisfied g c)
            (active_child g u (if di_state i = State_Closed then rev (dep_targets (dg_children g) c) @ todo else todo) (insert c seen) m1)"
          using 2(3) [OF Some False u [symmetric] no 2(4) _ ok(2)] search_step [OF 2(5) _ alive] ok no room_mono [OF ok(3), of g] 2(7)
          unfolding closed by simp
        with Some False u no answer_trans [OF ok(3)] show ?thesis by simp
      qed
    qed
  qed
qed

lemma any_unfinished_correct:
  assumes "answers g p k u q" and "\<forall>b \<in> set bs. q b" and "memo_ok g p m" and "room g m < k"
  shows "answer_ok g p m (\<exists>b \<in> set bs. \<not> satisfied g b) (any_unfinished u bs m)"
  using assms(2-)
proof (induction bs arbitrary: m)
  case Nil
  then show ?case by (simp add: answer_ok_def)
next
  case (Cons b bs)
  obtain r m1 where u: "u b m = (r, m1)" by fastforce
  have ok: "r \<longleftrightarrow> \<not> satisfied g b" "memo_ok g p m1" "dom m \<subseteq> dom m1"
    using answersD [OF assms(1) _ Cons.prems(2,3) u] Cons.prems(1) by simp_all
  show ?case
  proof (cases r)
    case True
    with u ok show ?thesis by (simp add: answer_ok_def)
  next
    case False
    have "answer_ok g p m1 (\<exists>b \<in> set bs. \<not> satisfied g b) (any_unfinished u bs m1)"
      using Cons.IH [OF _ ok(2)] Cons.prems room_mono [OF ok(3), of g] by simp
    with answer_trans [OF ok(3)] u False ok(1) show ?thesis by simp
  qed
qed

definition actives_ok :: "dep_graph \<Rightarrow> actives \<Rightarrow> bool" where
  "actives_ok g ac \<longleftrightarrow> (\<forall>n xs. ac n = Some xs \<longrightarrow> (xs \<noteq> [] \<longleftrightarrow> waits g n))"

lemma answers_weaken: "answers g p k u q \<Longrightarrow> \<forall>c. q' c \<longrightarrow> q c \<Longrightarrow> answers g p k u q'"
  by (simp add: answers_def)

lemma active_with_correct:
  assumes "actives_ok g ac" and "answers g p k u (depends g n)" and "memo_ok g p m" and "room g m < k"
  shows "answer_ok g p m (waits g n) (active_with g ac u n m)"
proof (cases "ac n")
  case (Some xs)
  with assms(1,3) show ?thesis by (simp add: active_with_def actives_ok_def answer_ok_def)
next
  case None
  obtain r m1 where c: "active_child g u (rev (dep_targets (dg_children g) n)) {} m = (r, m1)" by fastforce
  have "answers g p k u (subtask_of g n)" by (rule answers_weaken [OF assms(2)]) (simp add: depends_def)
  then have "answer_ok g p m (\<exists>c. subtask_of g n c \<and> \<not> satisfied g c) (r, m1)"
    using active_child_correct [OF _ search_start assms(3,4)] c by metis
  then have ok: "r \<longleftrightarrow> (\<exists>c. subtask_of g n c \<and> \<not> satisfied g c)" "memo_ok g p m1" "dom m \<subseteq> dom m1"
    by (simp_all add: answer_ok_def)
  show ?thesis
  proof (cases r)
    case True
    with ok have "waits g n" by (auto simp: waits_def depends_def)
    with None c True ok show ?thesis by (simp add: active_with_def answer_ok_def)
  next
    case False
    have "answer_ok g p m1 (\<exists>b \<in> set (dep_targets (dg_links g) n). \<not> satisfied g b) (any_unfinished u (dep_targets (dg_links g) n) m1)"
      using room_mono [OF ok(3), of g] assms(4)
      by (intro any_unfinished_correct [OF assms(2) _ ok(2)]) (simp_all add: depends_def)
    moreover have "(\<exists>b \<in> set (dep_targets (dg_links g) n). \<not> satisfied g b) \<longleftrightarrow> waits g n"
      using False ok(1) by (auto simp: waits_def depends_def)
    ultimately show ?thesis using None c False answer_trans [OF ok(3)] by (simp add: active_with_def)
  qed
qed

lemma room_mark:
  assumes "map_of (dg_issues g) n = Some i" and "m n = None"
  shows "room g (m(n \<mapsto> b)) < room g m"
  unfolding room_def
proof (rule psubset_card_mono)
  have "n \<in> fst ` set (dg_issues g) - dom m" using assms by (force dest: map_of_SomeD)
  moreover have "n \<notin> fst ` set (dg_issues g) - dom (m(n \<mapsto> b))" by simp
  ultimately show "fst ` set (dg_issues g) - dom (m(n \<mapsto> b)) \<subset> fst ` set (dg_issues g) - dom m" by auto
qed simp

lemma memo_mark: "memo_ok g p m \<Longrightarrow> memo_ok g (insert n p) (m(n \<mapsto> False))"
  by (simp add: memo_ok_def)

lemma memo_close: "memo_ok g (insert n p) m \<Longrightarrow> b = satisfied g n \<Longrightarrow> memo_ok g p (m(n \<mapsto> b))"
  by (auto simp: memo_ok_def)

lemma satisfied_unknown: "map_of (dg_issues g) n = None \<Longrightarrow> \<not> satisfied g n"
  by (auto simp: deleted_in_def in_state_def elim: satisfied.cases)

lemma satisfied_other:
  "map_of (dg_issues g) n = Some i \<Longrightarrow> \<not> di_deleted i \<Longrightarrow> di_state i \<noteq> State_Closed \<Longrightarrow> di_state i \<noteq> State_Ready \<Longrightarrow> \<not> satisfied g n"
  by (auto simp: deleted_in_def in_state_def elim: satisfied.cases)

lemma unfinished_in_correct:
  assumes "actives_ok g ac"
  shows "answers g p k (unfinished_in g ac k) (\<lambda>c. \<forall>x \<in> p. (needs g)\<^sup>+\<^sup>+ x c)"
proof (induction k arbitrary: p)
  case 0
  show ?case by (simp add: answers_def)
next
  case (Suc k)
  show ?case
    unfolding answers_def
  proof (intro allI impI)
    fix c m
    assume path: "\<forall>x \<in> p. (needs g)\<^sup>+\<^sup>+ x c" and memo: "memo_ok g p m" and room: "room g m < Suc k"
    have close: "memo_ok g p (m(c \<mapsto> b))" if "b = satisfied g c" for b
      using memo_close [OF memo_mark [OF memo] that] by simp
    show "answer_ok g p m (\<not> satisfied g c) (unfinished_in g ac (Suc k) c m)"
    proof (cases "m c")
      case (Some f)
      have "\<not> satisfied g c" if "c \<in> p" using satisfied_acyclic path that by blast
      with memo Some have "f = satisfied g c" unfolding memo_ok_def by (cases f) auto
      with Some memo show ?thesis by (simp add: answer_ok_def)
    next
      case new: None
      show ?thesis
      proof (cases "map_of (dg_issues g) c")
        case None
        with new close satisfied_unknown [OF None] show ?thesis by (auto simp: answer_ok_def)
      next
        case (Some i)
        consider "di_deleted i \<or> di_state i = State_Closed" | "\<not> di_deleted i" "di_state i \<noteq> State_Closed" "di_state i \<noteq> State_Ready"
          | "\<not> di_deleted i" "di_state i = State_Ready" by blast
        then show ?thesis
        proof cases
          case 1
          with Some have "satisfied g c"
            by (cases "di_deleted i") (auto intro: satisfied.deleted satisfied.closed simp: deleted_in_def in_state_def)
          with new Some 1 close show ?thesis by (auto simp: answer_ok_def)
        next
          case 2
          with new Some close satisfied_other [OF Some 2] show ?thesis by (auto simp: answer_ok_def)
        next
          case 3
          then have ready: "in_state g State_Ready c" using Some by (simp add: in_state_def)
          have "answers g (insert c p) k (unfinished_in g ac k) (depends g c)"
          proof (rule answers_weaken [OF Suc.IH], intro allI impI ballI)
            fix d x assume "depends g c d" "x \<in> insert c p"
            with ready have "needs g c d" by (simp add: needs_def)
            then show "(needs g)\<^sup>+\<^sup>+ x d" using path \<open>x \<in> insert c p\<close> by (auto intro: tranclp.trancl_into_trancl)
          qed
          moreover have "room g (m(c \<mapsto> False)) < k" using room_mark [of g c i m False, OF Some new] room by simp
          ultimately have ok: "answer_ok g (insert c p) (m(c \<mapsto> False)) (waits g c)
              (active_with g ac (unfinished_in g ac k) c (m(c \<mapsto> False)))"
            using active_with_correct [OF assms _ memo_mark [OF memo]] by blast
          obtain r m1 where a: "active_with g ac (unfinished_in g ac k) c (m(c \<mapsto> False)) = (r, m1)" by fastforce
          with ok have b: "r \<longleftrightarrow> waits g c" "memo_ok g (insert c p) m1" "dom (m(c \<mapsto> False)) \<subseteq> dom m1"
            by (simp_all add: answer_ok_def)
          have "(\<not> r) = satisfied g c" using b(1) satisfied_ready [OF ready] by simp
          with new Some 3 a b memo_close [OF b(2)] show ?thesis by (auto simp: answer_ok_def)
        qed
      qed
    qed
  qed
qed

lemma room_bound: "room g m < Suc (length (dg_issues g))"
proof -
  have "room g m \<le> card (fst ` set (dg_issues g))" unfolding room_def by (intro card_mono) auto
  also have "\<dots> \<le> length (dg_issues g)" by (metis card_length length_map list.set_map)
  finally show ?thesis by simp
qed

lemma unfinished_correct:
  assumes "actives_ok g ac" and "memo_ok g {} m" and "unfinished g ac n m = (r, m')"
  shows "r \<longleftrightarrow> \<not> satisfied g n" and "memo_ok g {} m'"
proof -
  have "answers g {} (Suc (length (dg_issues g))) (unfinished g ac) (\<lambda>c. \<forall>x \<in> {}. (needs g)\<^sup>+\<^sup>+ x c)"
    unfolding unfinished_def by (rule unfinished_in_correct [OF assms(1)])
  from answersD [OF this _ assms(2) room_bound assms(3)] show "r \<longleftrightarrow> \<not> satisfied g n" "memo_ok g {} m'" by simp_all
qed

lemma has_active_correct:
  assumes "actives_ok g ac" and "memo_ok g {} m" and "has_active g ac n m = (r, m')"
  shows "r \<longleftrightarrow> waits g n" and "memo_ok g {} m'"
proof -
  have "answers g {} (Suc (length (dg_issues g))) (unfinished g ac) (depends g n)"
    unfolding unfinished_def by (rule answers_weaken [OF unfinished_in_correct [OF assms(1)]]) simp
  from active_with_correct [OF assms(1) this assms(2) room_bound] assms(3)
  show "r \<longleftrightarrow> waits g n" "memo_ok g {} m'" by (simp_all add: has_active_def answer_ok_def)
qed

section \<open>All unfinished dependencies\<close>

function descend :: "dep_graph \<Rightarrow> int list \<Rightarrow> int set \<Rightarrow> int set" where
  "descend g [] found = found"
| "descend g (c # todo) found =
     (case map_of (dg_issues g) c of
        None \<Rightarrow> descend g todo found
      | Some i \<Rightarrow>
          if di_deleted i \<or> c \<in> found then descend g todo found
          else descend g (rev (dep_targets (dg_children g) c) @ todo) (insert c found))"
  by pat_completeness auto

termination
  by (relation "inv_image (less_than <*lex*> less_than)
      (\<lambda>(g, todo, found). (card (fst ` set (dg_issues g) - found), length todo))")
    (auto simp: card_unseen)

definition descendants :: "dep_graph \<Rightarrow> int \<Rightarrow> int set" where
  "descendants g n = descend g (rev (dep_targets (dg_children g) n)) {}"

fun collect :: "(int \<Rightarrow> memo \<Rightarrow> bool \<times> memo) \<Rightarrow> dep_source \<Rightarrow> int list \<Rightarrow> (int \<times> dep_source) list \<Rightarrow> memo \<Rightarrow> (int \<times> dep_source) list \<times> memo" where
  "collect u src [] xs m = (xs, m)"
| "collect u src (c # cs) xs m = (case u c m of (r, m) \<Rightarrow> collect u src cs (if r then assoc_put c src xs else xs) m)"

text \<open>The caches of a graph: of \<open>unfinished\<close> and of \<open>active\<close>.\<close>

type_synonym caches = "memo \<times> actives"

definition active_of :: "dep_graph \<Rightarrow> int \<Rightarrow> caches \<Rightarrow> (int \<times> dep_source) list \<times> caches" where
  "active_of g n = (\<lambda>(m, ac).
     case ac n of
       Some xs \<Rightarrow> (xs, m, ac)
     | None \<Rightarrow>
         (case collect (unfinished g ac) Subtask (sorted_list_of_set (descendants g n)) [] m of
            (xs, m) \<Rightarrow>
              (case collect (unfinished g ac) Linked (dep_targets (dg_links g) n) xs m of
                 (xs, m) \<Rightarrow> (xs, m, ac(n \<mapsto> xs)))))"

inductive descendant :: "dep_graph \<Rightarrow> int \<Rightarrow> int \<Rightarrow> bool" for g n where
  child: "c \<in> set (dep_targets (dg_children g) n) \<Longrightarrow> alive g c \<Longrightarrow> descendant g n c"
| below: "descendant g n c \<Longrightarrow> d \<in> set (dep_targets (dg_children g) c) \<Longrightarrow> alive g d \<Longrightarrow> descendant g n d"

lemma finite_descend: "finite found \<Longrightarrow> finite (descend g todo found)"
  by (induction g todo found rule: descend.induct) (auto split: option.splits)

lemma descend_sound:
  assumes "\<forall>c \<in> set todo. alive g c \<longrightarrow> descendant g n c" and "\<forall>c \<in> found. descendant g n c"
  shows "\<forall>c \<in> descend g todo found. descendant g n c"
  using assms
proof (induction g todo found rule: descend.induct)
  case (2 g c todo found)
  show ?case
  proof (cases "alive g c \<and> c \<notin> found")
    case True
    then obtain i where i: "map_of (dg_issues g) c = Some i" "\<not> di_deleted i" "c \<notin> found"
      by (auto simp: alive_def split: option.splits)
    have "descendant g n c" using 2(4) True by simp
    then show ?thesis using 2(3) [OF i(1)] i 2(4,5) by (auto intro: descendant.below)
  next
    case False
    then show ?thesis using 2(1,2,4,5) by (auto simp: alive_def split: option.splits)
  qed
qed simp

lemma descend_complete:
  assumes "\<forall>c \<in> set (dep_targets (dg_children g) n). alive g c \<longrightarrow> c \<in> found \<union> set todo"
    and "\<forall>c \<in> found. \<forall>d \<in> set (dep_targets (dg_children g) c). alive g d \<longrightarrow> d \<in> found \<union> set todo"
  shows "descendant g n c \<Longrightarrow> c \<in> descend g todo found"
  using assms
proof (induction g todo found rule: descend.induct)
  case (1 g found)
  from 1(1) show ?case by induction (use 1(2,3) in auto)
next
  case (2 g x todo found)
  show ?case
  proof (cases "alive g x \<and> x \<notin> found")
    case True
    then obtain i where i: "map_of (dg_issues g) x = Some i" "\<not> di_deleted i" "x \<notin> found"
      by (auto simp: alive_def split: option.splits)
    show ?thesis using 2(3) [OF i(1) _ 2(4)] i 2(5,6) by auto
  next
    case False
    then have "\<forall>c \<in> set (dep_targets (dg_children g) n). alive g c \<longrightarrow> c \<in> found \<union> set todo"
      "\<forall>c \<in> found. \<forall>d \<in> set (dep_targets (dg_children g) c). alive g d \<longrightarrow> d \<in> found \<union> set todo"
      using 2(5,6) by auto
    with False 2(1,2,4) show ?thesis by (auto simp: alive_def split: option.splits)
  qed
qed

lemma descendants_iff: "c \<in> descendants g n \<longleftrightarrow> descendant g n c"
  using descend_sound [of "rev (dep_targets (dg_children g) n)" g n "{}"]
    descend_complete [of g n "{}" "rev (dep_targets (dg_children g) n)" c]
  by (auto simp: descendants_def intro: descendant.child)

text \<open>An issue with an unfinished descendant waits, since the search goes through satisfied ones.\<close>

lemma subtask_descendant: "subtask_of g n c \<Longrightarrow> descendant g n c"
  by (induction rule: subtask_of.induct) (auto intro: descendant.intros)

lemma satisfied_alive: "satisfied g c \<Longrightarrow> alive g c \<Longrightarrow> in_state g State_Closed c \<or> (in_state g State_Ready c \<and> \<not> waits g c)"
  by (auto simp: alive_def deleted_in_def waits_def elim!: satisfied.cases split: option.splits)

lemma subtask_alive: "subtask_of g n c \<Longrightarrow> alive g c"
  by (induction rule: subtask_of.induct)

lemma descendant_under:
  assumes "descendant g n c" and "\<not> waits g n"
  shows "\<exists>x. \<not> waits g x \<and> subtask_of g x c"
  using assms
proof induction
  case (child c)
  then show ?case by (auto intro: subtask_of.child)
next
  case (below c d)
  then obtain x where x: "\<not> waits g x" "subtask_of g x c" by blast
  then have "satisfied g c" by (auto simp: waits_def depends_def)
  from satisfied_alive [OF this subtask_alive [OF x(2)]] x below(2,3) show ?case
    by (auto intro: subtask_of.child subtask_of.below)
qed

lemma descendant_waits: "descendant g n c \<Longrightarrow> \<not> satisfied g c \<Longrightarrow> waits g n"
  using descendant_under [of g n c] by (auto simp: waits_def depends_def)

text \<open>A map of unfinished issues, by number.\<close>

lemma collect_correct:
  assumes "actives_ok g ac" and "memo_ok g {} m" and "collect (unfinished g ac) src cs xs m = (ys, m')"
  shows "fst ` set ys = fst ` set xs \<union> {c \<in> set cs. \<not> satisfied g c}" and "memo_ok g {} m'"
    and "sorted_wrt (<) (List.map fst xs) \<Longrightarrow> sorted_wrt (<) (List.map fst ys)"
proof -
  have "fst ` set ys = fst ` set xs \<union> {c \<in> set cs. \<not> satisfied g c} \<and> memo_ok g {} m' \<and>
      (sorted_wrt (<) (List.map fst xs) \<longrightarrow> sorted_wrt (<) (List.map fst ys))"
    using assms(2,3)
  proof (induction cs arbitrary: xs m)
    case (Cons c cs)
    obtain r m1 where u: "unfinished g ac c m = (r, m1)" by fastforce
    note ok = unfinished_correct [OF assms(1) Cons.prems(1) u]
    have "collect (unfinished g ac) src cs (if r then assoc_put c src xs else xs) m1 = (ys, m')"
      using Cons.prems(2) u by simp
    from Cons.IH [OF ok(2) this] ok(1) show ?case
      by (auto intro: strict_sorted_assoc_put split: if_splits)
  qed simp
  then show "fst ` set ys = fst ` set xs \<union> {c \<in> set cs. \<not> satisfied g c}" "memo_ok g {} m'"
    "sorted_wrt (<) (List.map fst xs) \<Longrightarrow> sorted_wrt (<) (List.map fst ys)" by simp_all
qed

definition waiting_on :: "dep_graph \<Rightarrow> int \<Rightarrow> int set" where
  "waiting_on g n = {c. (descendant g n c \<or> c \<in> set (dep_targets (dg_links g) n)) \<and> \<not> satisfied g c}"

lemma waiting_on_waits: "waiting_on g n \<noteq> {} \<longleftrightarrow> waits g n"
  using descendant_waits [of g n] subtask_descendant [of g n] unfolding waiting_on_def waits_def depends_def by blast

definition caches_ok :: "dep_graph \<Rightarrow> caches \<Rightarrow> bool" where
  "caches_ok g = (\<lambda>(m, ac). memo_ok g {} m \<and>
     (\<forall>n xs. ac n = Some xs \<longrightarrow> fst ` set xs = waiting_on g n \<and> sorted_wrt (<) (List.map fst xs)))"

lemma caches_actives: "caches_ok g (m, ac) \<Longrightarrow> actives_ok g ac"
  unfolding caches_ok_def actives_ok_def using waiting_on_waits by fastforce

lemma caches_memo: "caches_ok g (m, ac) \<Longrightarrow> memo_ok g {} m' \<Longrightarrow> caches_ok g (m', ac)"
  by (simp add: caches_ok_def)

lemma no_caches: "caches_ok g (Map.empty, Map.empty)"
  by (simp add: caches_ok_def memo_ok_def)

lemma active_of_correct:
  assumes "caches_ok g c" and "active_of g n c = (xs, c')"
  shows "fst ` set xs = waiting_on g n" and "sorted_wrt (<) (List.map fst xs)" and "caches_ok g c'"
proof -
  obtain m ac where c: "c = (m, ac)" by fastforce
  have *: "fst ` set xs = waiting_on g n \<and> sorted_wrt (<) (List.map fst xs) \<and> caches_ok g c'"
  proof (cases "ac n")
    case (Some ys)
    with assms c show ?thesis by (auto simp: active_of_def caches_ok_def)
  next
    case None
    obtain ys m1 where 1: "collect (unfinished g ac) Subtask (sorted_list_of_set (descendants g n)) [] m = (ys, m1)" by fastforce
    obtain zs m2 where 2: "collect (unfinished g ac) Linked (dep_targets (dg_links g) n) ys m1 = (zs, m2)" by fastforce
    have ac: "actives_ok g ac" and m: "memo_ok g {} m" using assms(1) c caches_actives by (auto simp: caches_ok_def)
    note ys = collect_correct [OF ac m 1]
    note zs = collect_correct [OF ac ys(2) 2]
    have "finite (descendants g n)" by (simp add: descendants_def finite_descend)
    then have keys: "fst ` set zs = waiting_on g n" using ys(1) zs(1) by (auto simp: waiting_on_def descendants_iff)
    have sorted: "sorted_wrt (<) (List.map fst zs)" using ys(3) zs(3) by simp
    have "xs = zs" "c' = (m2, ac(n \<mapsto> zs))" using assms(2) None 1 2 by (auto simp: c active_of_def)
    then show ?thesis using keys sorted assms(1) zs(2) by (simp add: c caches_ok_def)
  qed
  then show "fst ` set xs = waiting_on g n" "sorted_wrt (<) (List.map fst xs)" "caches_ok g c'" by simp_all
qed

section \<open>Properties\<close>

text \<open>
  C18. Whether an issue is unfinished, has unfinished dependencies, and which, does not depend
  on what the caches of the graph already hold, so not on the order of the questions, and on
  cyclic data neither: an issue is finished if it is closed, deleted, or ready with all it
  depends on finished, and only then. The list of its unfinished dependencies is in order,
  complete, and empty exactly when the quick check finds none.
\<close>

theorem dependencies_are_well_defined:
  assumes "caches_ok g (m, ac)"
  shows "(fst (unfinished g ac n m) \<longleftrightarrow> \<not> satisfied g n) \<and>
    (fst (has_active g ac n m) \<longleftrightarrow> fst (active_of g n (m, ac)) \<noteq> []) \<and>
    fst ` set (fst (active_of g n (m, ac))) = {c. (descendant g n c \<or> c \<in> set (dep_targets (dg_links g) n)) \<and> \<not> satisfied g c} \<and>
    sorted_wrt (<) (List.map fst (fst (active_of g n (m, ac)))) \<and>
    caches_ok g (snd (unfinished g ac n m), ac) \<and> caches_ok g (snd (has_active g ac n m), ac) \<and>
    caches_ok g (snd (active_of g n (m, ac)))"
proof -
  note ac = caches_actives [OF assms]
  have m: "memo_ok g {} m" using assms by (simp add: caches_ok_def)
  note u = unfinished_correct [OF ac m surjective_pairing]
  note h = has_active_correct [OF ac m surjective_pairing]
  note a = active_of_correct [OF assms surjective_pairing]
  have "fst (has_active g ac n m) \<longleftrightarrow> fst (active_of g n (m, ac)) \<noteq> []"
    using h(1) [of n] a(1) [of n] waiting_on_waits [of g n] by auto
  with u [of n] h(2) [of n] a [of n] caches_memo [OF assms] show ?thesis by (simp add: waiting_on_def)
qed

definition ready_issue :: dep_issue where
  "ready_issue = \<lparr>di_title = ''Task'', di_state = State_Ready, di_deleted = False, di_manual = False, di_creator = ''human:boss'', di_draft = False,
     di_assignee = None, di_reserved = False, di_version = 1\<rparr>"

text \<open>Issues 1 and 2 wait for each other; 3 waits for 4, which is closed, with an open subtask 5; 6 waits for the deleted 7.\<close>

definition example_graph :: dep_graph where
  "example_graph = \<lparr>dg_prs = False,
     dg_issues = [(1, ready_issue), (2, ready_issue), (3, ready_issue), (4, ready_issue\<lparr>di_state := State_Closed\<rparr>),
       (5, ready_issue\<lparr>di_state := State_Open\<rparr>), (6, ready_issue), (7, ready_issue\<lparr>di_deleted := True\<rparr>)],
     dg_children = [(3, [4]), (4, [5])], dg_links = [(1, [2]), (2, [1]), (6, [7])],
     dg_dependents = [(1, [(2, Linked)]), (2, [(1, Linked)]), (4, [(3, Subtask)]), (5, [(4, Subtask)])]\<rparr>"

lemma dependencies_are_well_defined_witness:
  "\<not> satisfied example_graph 1 \<and> \<not> satisfied example_graph 3 \<and> satisfied example_graph 6 \<and>
   fst (active_of example_graph 3 (Map.empty, Map.empty)) = [(5, Subtask)]"
proof -
  have "fst (unfinished example_graph Map.empty 1 Map.empty)" "fst (unfinished example_graph Map.empty 3 Map.empty)"
    "\<not> fst (unfinished example_graph Map.empty 6 Map.empty)" "fst (active_of example_graph 3 (Map.empty, Map.empty)) = [(5, Subtask)]"
    by code_simp+
  then show ?thesis using dependencies_are_well_defined [OF no_caches, of example_graph] by blast
qed

end
