(* ===== verification/Issue_Cycles.thy ===== *)
theory Issue_Cycles
  imports Issue_Graph
begin

text \<open>
  Cycles of dependencies (\<open>src/src/issues/blockers.rs\<close>): the check of one new dependency, and
  the check of all of them, which finds the strongly connected components of the graph in
  two passes instead of searching from each dependency.
\<close>

section \<open>One dependency\<close>

definition nexts :: "dep_graph \<Rightarrow> int \<Rightarrow> int list" where
  "nexts g n = dep_targets (dg_children g) n @ dep_targets (dg_links g) n"

definition sources :: "dep_graph \<Rightarrow> int set" where
  "sources g = fst ` set (dg_children g) \<union> fst ` set (dg_links g)"

lemma no_nexts: "n \<notin> sources g \<Longrightarrow> nexts g n = []"
  by (simp add: sources_def nexts_def dep_targets_def map_of_eq_None_iff [THEN iffD2])

lemma card_new_source: "n \<in> sources g \<Longrightarrow> n \<notin> seen \<Longrightarrow> card (sources g - insert n seen) < card (sources g - seen)"
  by (rule psubset_card_mono) (auto simp: sources_def)

lemma old_source: "n \<notin> sources g \<Longrightarrow> sources g - insert n seen = sources g - seen"
  by auto

text \<open>Whether an issue is reached from a stack of issues; the head is the top of the stack.\<close>

function edge_search :: "dep_graph \<Rightarrow> int \<Rightarrow> int list \<Rightarrow> int set \<Rightarrow> bool" where
  "edge_search g source [] seen = False"
| "edge_search g source (n # todo) seen =
     (if n = source then True
      else if n \<in> seen then edge_search g source todo seen
      else edge_search g source (rev (nexts g n) @ todo) (insert n seen))"
  by pat_completeness auto

termination
proof (relation "inv_image (less_than <*lex*> less_than)
    (\<lambda>(g, source, todo, seen). (card (sources g - seen), length todo))", goal_cases)
  case (3 g source n todo seen)
  then show ?case by (cases "n \<in> sources g") (simp_all add: card_new_source old_source no_nexts del: card_Diff_insert)
qed auto

definition validate_edge :: "dep_graph \<Rightarrow> int \<Rightarrow> int \<Rightarrow> unit result" where
  "validate_edge g source target =
     (if source = target then Inl ''An issue cannot block itself''
      else if edge_search g source [target] {} then Inl ''This dependency would create a cycle'' else Inr ())"

section \<open>All dependencies\<close>

text \<open>
  The first pass: a depth-first search that lists the issues as it leaves them. An entry of
  the stack is marked once its issue was entered.
\<close>

function leave_order :: "dep_graph \<Rightarrow> (int \<times> bool) list \<Rightarrow> int set \<Rightarrow> int list \<Rightarrow> int set \<times> int list" where
  "leave_order g [] seen order = (seen, order)"
| "leave_order g ((n, True) # todo) seen order = leave_order g todo seen (order @ [n])"
| "leave_order g ((n, False) # todo) seen order =
     (if n \<in> seen then leave_order g todo seen order
      else leave_order g (List.map (\<lambda>t. (t, False)) (rev (nexts g n)) @ (n, True) # todo) (insert n seen) order)"
  by pat_completeness auto

termination
proof (relation "inv_image (less_than <*lex*> less_than)
    (\<lambda>(g, todo, seen, order). (card (sources g - seen), sum_list (List.map (\<lambda>(n, b). if b then 1 else 2) todo)))", goal_cases)
  case (4 g n todo seen order)
  then show ?case by (cases "n \<in> sources g") (simp_all add: card_new_source old_source no_nexts del: card_Diff_insert)
qed auto

fun leave_roots :: "dep_graph \<Rightarrow> int list \<Rightarrow> int set \<Rightarrow> int list \<Rightarrow> int list" where
  "leave_roots g [] seen order = order"
| "leave_roots g (r # rs) seen order =
     (if r \<in> seen then leave_roots g rs seen order
      else case leave_order g [(r, False)] seen order of (seen, order) \<Rightarrow> leave_roots g rs seen order)"

definition edge_list :: "dep_graph \<Rightarrow> (int \<times> int) list" where
  "edge_list g = concat (List.map (\<lambda>(s, ts). List.map (Pair s) ts) (dg_children g @ dg_links g))"

definition predecessors :: "(int \<times> int) list \<Rightarrow> int \<Rightarrow> int list" where
  "predecessors es n = List.map fst (filter (\<lambda>(s, t). t = n) es)"

lemma no_predecessors: "n \<notin> snd ` set es \<Longrightarrow> predecessors es n = []"
  by (auto simp: predecessors_def filter_empty_conv image_iff)

text \<open>The second pass: from the issues left last, against the direction of the dependencies.\<close>

function paint :: "(int \<times> int) list \<Rightarrow> int \<Rightarrow> int list \<Rightarrow> (int \<Rightarrow> int option) \<Rightarrow> (int \<Rightarrow> int option)" where
  "paint es root [] comps = comps"
| "paint es root (n # todo) comps =
     (if comps n \<noteq> None then paint es root todo comps
      else paint es root (rev (predecessors es n) @ todo) (comps(n \<mapsto> root)))"
  by pat_completeness auto

termination
proof (relation "inv_image (less_than <*lex*> less_than)
    (\<lambda>(es, root, todo, comps). (card (snd ` set es - dom comps), length todo))", goal_cases)
  case (3 es root n todo comps)
  show ?case
  proof (cases "n \<in> snd ` set es")
    case True
    then have "card (snd ` set es - insert n (dom comps)) < card (snd ` set es - dom comps)"
      using 3 by (intro psubset_card_mono) auto
    then show ?thesis by simp
  next
    case False
    then have "snd ` set es - insert n (dom comps) = snd ` set es - dom comps" by auto
    with no_predecessors [OF False] show ?thesis by simp
  qed
qed auto

fun paint_roots :: "(int \<times> int) list \<Rightarrow> int list \<Rightarrow> (int \<Rightarrow> int option) \<Rightarrow> (int \<Rightarrow> int option)" where
  "paint_roots es [] comps = comps"
| "paint_roots es (r # rs) comps =
     (if comps r \<noteq> None then paint_roots es rs comps else paint_roots es rs (paint es r [r] comps))"

definition components :: "dep_graph \<Rightarrow> int \<Rightarrow> int option" where
  "components g =
     (let order = leave_roots g (List.map fst (dg_children g) @ List.map fst (dg_links g)) {} [] in
      paint_roots (edge_list g) (rev order) Map.empty)"

definition link_list :: "dep_graph \<Rightarrow> (int \<times> int) list" where
  "link_list g = concat (List.map (\<lambda>(s, ts). List.map (Pair s) ts) (dg_links g))"

definition validate_edges :: "dep_graph \<Rightarrow> unit result" where
  "validate_edges g =
     (if list_all (\<lambda>(n, ts). ts = []) (dg_links g) then Inr ()
      else
        let comps = components g in
        case find (\<lambda>(n, t). comps n = comps t) (link_list g) of
          None \<Rightarrow> Inr ()
        | Some (n, t) \<Rightarrow> validate_edge g n t)"

section \<open>Reachability\<close>

definition arcs :: "dep_graph \<Rightarrow> (int \<times> int) set" where
  "arcs g = {(n, t). t \<in> set (nexts g n)}"

definition leads :: "dep_graph \<Rightarrow> int \<Rightarrow> int \<Rightarrow> bool" where
  "leads g n t \<longleftrightarrow> (n, t) \<in> (arcs g)\<^sup>*"

definition mutual :: "dep_graph \<Rightarrow> int \<Rightarrow> int \<Rightarrow> bool" where
  "mutual g n t \<longleftrightarrow> leads g n t \<and> leads g t n"

lemma leads_refl [simp]: "leads g n n"
  by (simp add: leads_def)

lemma leads_trans: "leads g a b \<Longrightarrow> leads g b c \<Longrightarrow> leads g a c"
  by (simp add: leads_def)

lemma leads_arc: "t \<in> set (nexts g n) \<Longrightarrow> leads g n t"
  by (auto simp: leads_def arcs_def)

lemma leads_induct [consumes 1, case_names refl step]:
  assumes "leads g n t" and "P n" and "\<And>a b. leads g n a \<Longrightarrow> b \<in> set (nexts g a) \<Longrightarrow> P a \<Longrightarrow> P b"
  shows "P t"
  using assms(1) unfolding leads_def
  by (induction rule: rtrancl_induct) (use assms(2,3) in \<open>auto simp: leads_def arcs_def\<close>)

lemma leads_back [consumes 1, case_names refl step]:
  assumes "leads g n t" and "P t" and "\<And>a b. b \<in> set (nexts g a) \<Longrightarrow> leads g b t \<Longrightarrow> P b \<Longrightarrow> P a"
  shows "P n"
  using assms(1) unfolding leads_def
  by (induction rule: converse_rtrancl_induct) (use assms(2,3) in \<open>auto simp: leads_def arcs_def\<close>)

lemma mutual_refl [simp]: "mutual g n n"
  by (simp add: mutual_def)

lemma mutual_sym: "mutual g a b \<Longrightarrow> mutual g b a"
  by (simp add: mutual_def)

lemma mutual_trans: "mutual g a b \<Longrightarrow> mutual g b c \<Longrightarrow> mutual g a c"
  unfolding mutual_def using leads_trans by blast

lemma edge_search_sound: "edge_search g source todo seen \<Longrightarrow> \<exists>t \<in> set todo. leads g t source"
proof (induction g source todo seen rule: edge_search.induct)
  case (2 g source n todo seen)
  then show ?case using leads_arc [of _ g n] leads_trans by (auto split: if_splits) blast+
qed simp

lemma edge_search_complete:
  "\<not> edge_search g source todo seen \<Longrightarrow> source \<notin> seen \<Longrightarrow> \<forall>x \<in> seen. set (nexts g x) \<subseteq> seen \<union> set todo \<Longrightarrow>
   \<exists>c. seen \<union> set todo \<subseteq> c \<and> (\<forall>x \<in> c. set (nexts g x) \<subseteq> c) \<and> source \<notin> c"
proof (induction g source todo seen rule: edge_search.induct)
  case (1 g source seen)
  then show ?case by (intro exI [of _ seen]) simp
next
  case (2 g source n todo seen)
  show ?case
  proof (cases "n \<in> seen")
    case True
    with 2 have "\<exists>c. seen \<union> set todo \<subseteq> c \<and> (\<forall>x \<in> c. set (nexts g x) \<subseteq> c) \<and> source \<notin> c" by (auto split: if_splits)
    then obtain c where c: "seen \<union> set todo \<subseteq> c" "\<forall>x \<in> c. set (nexts g x) \<subseteq> c" "source \<notin> c" by blast
    show ?thesis by (rule exI [of _ c]) (use c True in \<open>auto\<close>)
  next
    case False
    have "n \<noteq> source" "\<not> edge_search g source (rev (nexts g n) @ todo) (insert n seen)"
      using 2(3) False by (simp_all split: if_splits)
    moreover have "\<forall>x \<in> insert n seen. set (nexts g x) \<subseteq> insert n seen \<union> set (rev (nexts g n) @ todo)"
      using 2(5) by auto
    ultimately have "\<exists>c. insert n seen \<union> set (rev (nexts g n) @ todo) \<subseteq> c \<and> (\<forall>x \<in> c. set (nexts g x) \<subseteq> c) \<and> source \<notin> c"
      using 2(2) [OF _ False] 2(4) by simp
    then obtain c where c: "insert n seen \<union> set (rev (nexts g n) @ todo) \<subseteq> c" "\<forall>x \<in> c. set (nexts g x) \<subseteq> c" "source \<notin> c"
      by blast
    show ?thesis by (rule exI [of _ c]) (use c in \<open>auto\<close>)
  qed
qed

lemma edge_search_iff: "edge_search g source [t] {} \<longleftrightarrow> leads g t source"
proof
  assume l: "leads g t source"
  show "edge_search g source [t] {}"
  proof (rule ccontr)
    assume "\<not> edge_search g source [t] {}"
    then obtain c where "t \<in> c" "\<forall>x \<in> c. set (nexts g x) \<subseteq> c" "source \<notin> c"
      using edge_search_complete [of g source "[t]" "{}"] by auto
    with l show False by (induction rule: leads_induct) auto
  qed
qed (use edge_search_sound [of g source "[t]" "{}"] in simp)

lemma validate_edge_iff: "is_ok (validate_edge g n t) \<longleftrightarrow> \<not> leads g t n"
  by (simp add: validate_edge_def edge_search_iff is_ok_def del: edge_search.simps)

section \<open>The first pass\<close>

definition entered :: "(int \<times> bool) list \<Rightarrow> int set" where
  "entered todo = {n. (n, True) \<in> set todo}"

text \<open>
  The stack from its top, with the entries above: an issue that was entered leads to all that
  is above it, where also its nexts are that were not seen.
\<close>

fun stack_ok :: "dep_graph \<Rightarrow> int set \<Rightarrow> (int \<times> bool) set \<Rightarrow> (int \<times> bool) list \<Rightarrow> bool" where
  "stack_ok g seen upper [] = True"
| "stack_ok g seen upper ((n, b) # todo) \<longleftrightarrow>
     (b \<longrightarrow> (\<forall>t \<in> set (nexts g n). t \<in> seen \<or> (t, False) \<in> upper) \<and> (\<forall>e \<in> upper. leads g n (fst e))) \<and>
     stack_ok g seen (insert (n, b) upper) todo"

lemma stack_mono:
  "stack_ok g seen upper todo \<Longrightarrow> seen \<subseteq> seen' \<Longrightarrow> \<forall>t. (t, False) \<in> upper \<longrightarrow> (t, False) \<in> upper' \<or> t \<in> seen' \<Longrightarrow>
   \<forall>e \<in> upper'. \<exists>d \<in> upper. leads g (fst d) (fst e) \<Longrightarrow> stack_ok g seen' upper' todo"
proof (induction g seen upper todo arbitrary: upper' rule: stack_ok.induct)
  case (2 g seen upper n b todo)
  have "stack_ok g seen' (insert (n, b) upper') todo"
    using 2(2-5) by (intro 2(1)) auto
  moreover have "\<forall>e \<in> upper'. leads g n (fst e)" if b
  proof
    fix e assume "e \<in> upper'"
    then obtain d where "d \<in> upper" "leads g (fst d) (fst e)" using 2(5) by blast
    moreover have "leads g n (fst d)" using 2(2) that \<open>d \<in> upper\<close> by simp
    ultimately show "leads g n (fst e)" using leads_trans by blast
  qed
  ultimately show ?case using 2(2-4) by auto
qed simp

lemma stack_entered: "stack_ok g seen upper todo \<Longrightarrow> (h, True) \<in> set todo \<Longrightarrow> e \<in> upper \<Longrightarrow> leads g h (fst e)"
  by (induction g seen upper todo rule: stack_ok.induct) auto

lemma stack_unmarked:
  "stack_ok g seen upper (List.map (\<lambda>t. (t, False)) ts @ todo) \<longleftrightarrow> stack_ok g seen ((\<lambda>t. (t, False)) ` set ts \<union> upper) todo"
  by (induction ts arbitrary: upper) (simp_all add: insert_commute Un_commute)

text \<open>An issue that was left is on a cycle with one still entered, or all it leads to was left.\<close>

definition after :: "int list \<Rightarrow> int \<Rightarrow> int \<Rightarrow> bool" where
  "after order y z \<longleftrightarrow> (\<exists>us vs. order = us @ z # vs \<and> y \<in> set us)"

definition left_well :: "dep_graph \<Rightarrow> int list \<Rightarrow> int set \<Rightarrow> int \<Rightarrow> bool" where
  "left_well g order hs x \<longleftrightarrow> (\<exists>h \<in> hs. mutual g h x) \<or>
     (\<forall>y. leads g x y \<longrightarrow> y \<in> set order \<and> (mutual g x y \<or> (\<exists>z. mutual g z x \<and> after order y z)))"

definition pass_ok :: "dep_graph \<Rightarrow> (int \<times> bool) list \<Rightarrow> int set \<Rightarrow> int list \<Rightarrow> bool" where
  "pass_ok g todo seen order \<longleftrightarrow> seen = set order \<union> entered todo \<and> distinct (order @ List.map fst (filter snd todo)) \<and>
     (\<forall>x \<in> set order. set (nexts g x) \<subseteq> seen) \<and> stack_ok g seen {} todo \<and>
     (\<forall>x \<in> set order. left_well g order (entered todo) x)"

lemma entered_simps [simp]:
  "entered [] = {}" "entered ((n, True) # todo) = insert n (entered todo)" "entered ((n, False) # todo) = entered todo"
  "entered (List.map (\<lambda>t. (t, False)) ts @ todo) = entered todo"
  by (auto simp: entered_def)

lemma entered_set: "fst ` set (filter snd todo) = entered todo"
  by (auto simp: entered_def image_iff)

lemma passD:
  assumes "pass_ok g todo seen order"
  shows "seen = set order \<union> entered todo" and "distinct order" and "distinct (List.map fst (filter snd todo))"
    and "set order \<inter> entered todo = {}" and "\<And>x. x \<in> set order \<Longrightarrow> set (nexts g x) \<subseteq> seen" and "stack_ok g seen {} todo"
    and "\<And>x. x \<in> set order \<Longrightarrow> left_well g order (entered todo) x"
  using assms unfolding pass_ok_def distinct_append set_map entered_set by blast+

lemma passI:
  assumes "seen = set order \<union> entered todo" and "distinct order" and "distinct (List.map fst (filter snd todo))"
    and "set order \<inter> entered todo = {}" and "\<And>x. x \<in> set order \<Longrightarrow> set (nexts g x) \<subseteq> seen" and "stack_ok g seen {} todo"
    and "\<And>x. x \<in> set order \<Longrightarrow> left_well g order (entered todo) x"
  shows "pass_ok g todo seen order"
  unfolding pass_ok_def distinct_append set_map entered_set using assms by blast

lemma after_append: "after order y z \<Longrightarrow> after (order @ xs) y z"
  unfolding after_def by (metis append.assoc append_Cons)

lemma after_last: "y \<in> set order \<Longrightarrow> after (order @ [n]) y n"
  unfolding after_def by blast

lemma left_well_append:
  assumes "left_well g order hs x" and "hs \<subseteq> hs'"
  shows "left_well g (order @ xs) hs' x"
proof (cases "\<exists>h \<in> hs. mutual g h x")
  case True
  with assms(2) show ?thesis by (auto simp: left_well_def)
next
  case False
  with assms(1) have "\<forall>y. leads g x y \<longrightarrow> y \<in> set order \<and> (mutual g x y \<or> (\<exists>z. mutual g z x \<and> after order y z))"
    by (simp add: left_well_def)
  then have "\<forall>y. leads g x y \<longrightarrow> y \<in> set (order @ xs) \<and> (mutual g x y \<or> (\<exists>z. mutual g z x \<and> after (order @ xs) y z))"
    using after_append by (metis Un_iff set_append)
  then show ?thesis by (simp add: left_well_def)
qed

lemma pass_leave:
  assumes "pass_ok g ((n, True) # todo) seen order"
  shows "pass_ok g todo seen (order @ [n])"
proof -
  note parts = passD [OF assms]
  have seen: "seen = set order \<union> insert n (entered todo)" using parts(1) by simp
  have distinct: "n \<notin> set order" "n \<notin> entered todo" "distinct (List.map fst (filter snd todo))"
    using parts(3,4) by (auto simp: entered_set [symmetric])
  have succ: "\<forall>t \<in> set (nexts g n). t \<in> seen" and stack: "stack_ok g seen {(n, True)} todo"
    using parts(6) by simp_all
  note old = parts(5) parts(7) [simplified]
  have lower: "leads g h n" if "h \<in> entered todo" for h
    using stack_entered [OF stack, of h "(n, True)"] that by (simp add: entered_def)
  have new: "left_well g (order @ [n]) (entered todo) x" if x: "mutual g n x" for x
  proof (cases "\<exists>h \<in> entered todo. mutual g h n")
    case True
    with x mutual_trans show ?thesis unfolding left_well_def by blast
  next
    case False
    have reach: "y \<in> set (order @ [n])" if "leads g n y" for y
      using that
    proof (induction rule: leads_induct)
      case (step a b)
      then have "b \<in> seen" using old(1) succ by auto
      moreover have "b \<notin> entered todo"
      proof
        assume b: "b \<in> entered todo"
        have "leads g n b" using step(1,2) leads_arc leads_trans by blast
        with lower [OF b] have "mutual g b n" by (simp add: mutual_def)
        with False b show False by blast
      qed
      ultimately show ?case using seen by auto
    qed simp
    have "y \<in> set (order @ [n]) \<and> (mutual g x y \<or> (\<exists>z. mutual g z x \<and> after (order @ [n]) y z))" if y: "leads g x y" for y
    proof -
      have "leads g n y" using x y leads_trans unfolding mutual_def by blast
      then have in_order: "y \<in> set (order @ [n])" by (rule reach)
      show ?thesis
      proof (cases "y = n")
        case True
        with x in_order mutual_sym show ?thesis by blast
      next
        case False
        with in_order have "after (order @ [n]) y n" by (intro after_last) simp
        with x in_order show ?thesis by blast
      qed
    qed
    then show ?thesis by (simp add: left_well_def)
  qed
  have "left_well g (order @ [n]) (entered todo) x" if "x \<in> set (order @ [n])" for x
  proof (cases "mutual g n x")
    case False
    with that have "x \<in> set order" by auto
    with old(2) False have "left_well g order (entered todo) x" by (auto simp: left_well_def)
    then show ?thesis by (rule left_well_append) simp
  qed (rule new)
  moreover have "stack_ok g seen {} todo" by (rule stack_mono [OF stack]) auto
  moreover have "seen = set (order @ [n]) \<union> entered todo" using seen by auto
  moreover have "set (nexts g x) \<subseteq> seen" if "x \<in> set (order @ [n])" for x using that succ old(1) by auto
  ultimately show ?thesis using distinct parts(2,4) by (intro passI) auto
qed

lemma pass_skip:
  assumes "pass_ok g ((n, False) # todo) seen order" and "n \<in> seen"
  shows "pass_ok g todo seen order"
proof (rule passI)
  note parts = passD [OF assms(1)]
  have "stack_ok g seen {(n, False)} todo" using parts(6) by simp
  then show "stack_ok g seen {} todo" by (rule stack_mono) (use assms(2) in auto)
qed (use passD [OF assms(1)] in simp_all)

lemma pass_enter:
  assumes "pass_ok g ((n, False) # todo) seen order" and "n \<notin> seen"
  shows "pass_ok g (List.map (\<lambda>t. (t, False)) (rev (nexts g n)) @ (n, True) # todo) (insert n seen) order"
proof (rule passI)
  note parts = passD [OF assms(1)]
  have "stack_ok g seen {(n, False)} todo" using parts(6) by simp
  then have "stack_ok g (insert n seen) (insert (n, True) ((\<lambda>t. (t, False)) ` set (rev (nexts g n)))) todo"
    by (rule stack_mono) (auto dest: leads_arc)
  then show "stack_ok g (insert n seen) {} (List.map (\<lambda>t. (t, False)) (rev (nexts g n)) @ (n, True) # todo)"
    by (auto simp: stack_unmarked dest: leads_arc)
  have fresh: "n \<notin> set order" "n \<notin> entered todo" using parts(1) assms(2) by simp_all
  show "distinct (List.map fst (filter snd (List.map (\<lambda>t. (t, False)) (rev (nexts g n)) @ (n, True) # todo)))"
    using parts(3) fresh(2) by (simp add: entered_set [symmetric])
  show "set order \<inter> entered (List.map (\<lambda>t. (t, False)) (rev (nexts g n)) @ (n, True) # todo) = {}"
    using parts(4) fresh by simp
  show "left_well g order (entered (List.map (\<lambda>t. (t, False)) (rev (nexts g n)) @ (n, True) # todo)) x" if "x \<in> set order" for x
    using left_well_append [of g order "entered todo" x _ "[]"] parts(7) [OF that] by auto
  show "insert n seen = set order \<union> entered (List.map (\<lambda>t. (t, False)) (rev (nexts g n)) @ (n, True) # todo)"
    using parts(1) by simp
  show "set (nexts g x) \<subseteq> insert n seen" if "x \<in> set order" for x using parts(5) [OF that] by blast
qed (use passD [OF assms(1)] in simp)

lemma leave_order_ok:
  "leave_order g todo seen order = (seen', order') \<Longrightarrow> pass_ok g todo seen order \<Longrightarrow>
   pass_ok g [] seen' order' \<and> seen \<union> fst ` set todo \<subseteq> seen'"
proof (induction g todo seen order rule: leave_order.induct)
  case (2 g n todo seen order)
  have "n \<in> seen" using passD(1) [OF 2(3)] by simp
  with 2 pass_leave show ?case by auto
next
  case (3 g n todo seen order)
  show ?case
  proof (cases "n \<in> seen")
    case True
    with 3 pass_skip show ?thesis by auto
  next
    case False
    with 3(2) [OF False _ pass_enter [OF 3(4) False]] 3(3) show ?thesis by auto
  qed
qed simp

lemma leave_roots_ok:
  "pass_ok g [] seen order \<Longrightarrow> \<exists>seen'. pass_ok g [] seen' (leave_roots g rs seen order) \<and> seen \<union> set rs \<subseteq> seen'"
proof (induction rs arbitrary: seen order)
  case (Cons r rs)
  show ?case
  proof (cases "r \<in> seen")
    case True
    with Cons show ?thesis by fastforce
  next
    case False
    obtain seen' order' where l: "leave_order g [(r, False)] seen order = (seen', order')" by fastforce
    have "pass_ok g [(r, False)] seen order"
      by (rule passI) (use passD [OF Cons.prems] in simp_all)
    from leave_order_ok [OF l this] have ok: "pass_ok g [] seen' order'" "insert r seen \<subseteq> seen'" by auto
    from Cons.IH [OF ok(1)] ok(2) l False show ?thesis by fastforce
  qed
qed auto

section \<open>The second pass\<close>

definition keys_ok :: "dep_graph \<Rightarrow> bool" where
  "keys_ok g \<longleftrightarrow> distinct (List.map fst (dg_children g)) \<and> distinct (List.map fst (dg_links g))"

lemma targets_iff: "distinct (List.map fst m) \<Longrightarrow> t \<in> set (dep_targets m n) \<longleftrightarrow> (\<exists>ts. (n, ts) \<in> set m \<and> t \<in> set ts)"
  by (auto simp: dep_targets_def split: option.splits dest: map_of_SomeD map_of_is_SomeI)

lemma pairs_iff: "(n, t) \<in> set (concat (List.map (\<lambda>(s, ts). List.map (Pair s) ts) m)) \<longleftrightarrow> (\<exists>ts. (n, ts) \<in> set m \<and> t \<in> set ts)"
  by force

lemma edge_list_iff: "keys_ok g \<Longrightarrow> (n, t) \<in> set (edge_list g) \<longleftrightarrow> t \<in> set (nexts g n)"
  unfolding edge_list_def pairs_iff by (auto simp: nexts_def keys_ok_def targets_iff)

definition paint_result ::
  "(int \<times> int) list \<Rightarrow> int \<Rightarrow> int list \<Rightarrow> (int \<Rightarrow> int option) \<Rightarrow> (int \<Rightarrow> int option) \<Rightarrow> bool" where
  "paint_result es root todo comps comps' \<longleftrightarrow> (\<forall>x \<in> dom comps. comps' x = comps x) \<and> set todo \<subseteq> dom comps' \<and>
     (\<forall>x \<in> dom comps' - dom comps. comps' x = Some root \<and> set (predecessors es x) \<subseteq> dom comps' \<and>
        (\<exists>t \<in> set todo. (x, t) \<in> (set es)\<^sup>*))"

lemma paint_skip: "paint_result es root todo comps comps' \<Longrightarrow> n \<in> dom comps \<Longrightarrow> paint_result es root (n # todo) comps comps'"
  unfolding paint_result_def by (intro conjI ballI) (simp_all add: domIff)

lemma paint_new:
  assumes result: "paint_result es root (rev (predecessors es n) @ todo) (comps(n \<mapsto> root)) comps'" and fresh: "comps n = None"
  shows "paint_result es root (n # todo) comps comps'"
proof -
  have old: "\<forall>x \<in> dom (comps(n \<mapsto> root)). comps' x = (comps(n \<mapsto> root)) x"
    and todo: "set (rev (predecessors es n) @ todo) \<subseteq> dom comps'"
    and new: "\<forall>x \<in> dom comps' - dom (comps(n \<mapsto> root)). comps' x = Some root \<and> set (predecessors es x) \<subseteq> dom comps' \<and>
        (\<exists>t \<in> set (rev (predecessors es n) @ todo). (x, t) \<in> (set es)\<^sup>*)"
    using result unfolding paint_result_def by blast+
  have n: "comps' n = Some root" using old by simp
  have "comps' x = Some root \<and> set (predecessors es x) \<subseteq> dom comps' \<and> (\<exists>t \<in> set (n # todo). (x, t) \<in> (set es)\<^sup>*)"
    if x: "x \<in> dom comps' - dom comps" for x
  proof (cases "x = n")
    case True
    with n todo show ?thesis by simp
  next
    case False
    with x have "x \<in> dom comps' - dom (comps(n \<mapsto> root))" by simp
    with new obtain t where t: "t \<in> set (rev (predecessors es n) @ todo)" "(x, t) \<in> (set es)\<^sup>*"
      and "comps' x = Some root" "set (predecessors es x) \<subseteq> dom comps'" by blast
    moreover have "(x, n) \<in> (set es)\<^sup>*" if "t \<in> set (predecessors es n)"
    proof -
      have "(t, n) \<in> set es" using that by (auto simp: predecessors_def)
      with t(2) show ?thesis by simp
    qed
    ultimately show ?thesis by auto
  qed
  moreover have "comps' x = comps x" if "x \<in> dom comps" for x using old that fresh by (auto split: if_splits)
  moreover have "set (n # todo) \<subseteq> dom comps'" using n todo by auto
  ultimately show ?thesis unfolding paint_result_def by blast
qed

lemma paint_ok: "paint es root todo comps = comps' \<Longrightarrow> paint_result es root todo comps comps'"
proof (induction es root todo comps rule: paint.induct)
  case (2 es root n todo comps)
  show ?case
  proof (cases "comps n = None")
    case False
    with 2 have "paint_result es root todo comps comps'" by simp
    then show ?thesis by (rule paint_skip) (use False in auto)
  next
    case True
    have "paint es root (rev (predecessors es n) @ todo) (comps(n \<mapsto> root)) = comps'" using 2(3) True by simp
    with 2(2) True have "paint_result es root (rev (predecessors es n) @ todo) (comps(n \<mapsto> root)) comps'" by blast
    then show ?thesis using True by (rule paint_new)
  qed
qed (simp add: paint_result_def)

lemma edge_leads: "keys_ok g \<Longrightarrow> (x, t) \<in> (set (edge_list g))\<^sup>* \<longleftrightarrow> leads g x t"
proof -
  assume "keys_ok g"
  then have "set (edge_list g) = arcs g" by (auto simp: edge_list_iff arcs_def)
  then show ?thesis by (simp add: leads_def)
qed

text \<open>What was painted: whole components, each in one colour, and colours of different components differ.\<close>

definition painted :: "dep_graph \<Rightarrow> (int \<Rightarrow> int option) \<Rightarrow> bool" where
  "painted g comps \<longleftrightarrow> (\<forall>x y. x \<in> dom comps \<longrightarrow> mutual g x y \<longrightarrow> comps y = comps x) \<and> (\<forall>x r. comps x = Some r \<longrightarrow> mutual g r x)"

lemma paintedD:
  assumes "painted g comps"
  shows "x \<in> dom comps \<Longrightarrow> mutual g x y \<Longrightarrow> comps y = comps x" and "comps x = Some r \<Longrightarrow> mutual g r x"
  using assms unfolding painted_def by blast+

lemma painted_whole: "painted g comps \<Longrightarrow> mutual g x y \<Longrightarrow> x \<notin> dom comps \<Longrightarrow> y \<notin> dom comps"
proof
  assume "painted g comps" "mutual g x y" "x \<notin> dom comps" "y \<in> dom comps"
  then have "comps x = comps y" using paintedD(1) mutual_sym by blast
  with \<open>x \<notin> dom comps\<close> \<open>y \<in> dom comps\<close> show False by (auto simp: dom_def)
qed

lemma painted_same:
  assumes "painted g comps" and "x \<in> dom comps" and "y \<in> dom comps"
  shows "comps x = comps y \<longleftrightarrow> mutual g x y"
proof
  assume same: "comps x = comps y"
  obtain r where "comps x = Some r" using assms(2) by blast
  then have "mutual g r x" "mutual g r y" using paintedD(2) [OF assms(1)] same by auto
  then show "mutual g x y" using mutual_sym mutual_trans by blast
next
  assume "mutual g x y"
  then show "comps x = comps y" by (rule paintedD(1) [OF assms(1,2), symmetric])
qed

lemma after_rest:
  assumes "after order r z" and "order = older @ r # younger" and "distinct order"
  shows "z \<in> set younger"
proof -
  obtain us vs where o: "order = us @ z # vs" "r \<in> set us" using assms(1) by (auto simp: after_def)
  then obtain u1 u2 where "us = u1 @ r # u2" by (meson split_list)
  with o have split: "older @ r # younger = u1 @ r # (u2 @ z # vs)" using assms(2) by simp
  have "r \<notin> set older" "r \<notin> set younger" using assms(2,3) by auto
  with split have "younger = u2 @ z # vs" by (simp add: append_Cons_eq_iff)
  then show ?thesis by simp
qed

lemma paint_component:
  assumes keys: "keys_ok g" and pass: "pass_ok g [] seen order" and order: "order = older @ r # younger" and all: "sources g \<subseteq> set order"
    and comps: "painted g comps" "set younger \<subseteq> dom comps" "comps r = None" and result: "paint (edge_list g) r [r] comps = comps'"
  shows "painted g comps' \<and> insert r (set younger) \<subseteq> dom comps' \<and> dom comps \<subseteq> dom comps'"
proof -
  from paint_ok [OF result] have old: "\<forall>x \<in> dom comps. comps' x = comps x" and r: "r \<in> dom comps'"
    and new: "\<forall>x \<in> dom comps' - dom comps. comps' x = Some r \<and> set (predecessors (edge_list g) x) \<subseteq> dom comps' \<and> leads g x r"
    by (auto simp: edge_leads [OF keys] paint_result_def)
  have rnew: "r \<notin> dom comps" using comps(3) by auto
  have in_order: "x \<in> set order" if "leads g x r" for x
    using that
  proof (induction rule: leads_back)
    case (step a b)
    then have "a \<in> sources g" using no_nexts by fastforce
    with all show ?case by blast
  qed (simp add: order)
  have same: "mutual g r x" if x: "x \<in> dom comps' - dom comps" for x
  proof (rule ccontr)
    assume no: "\<not> mutual g r x"
    have l: "leads g x r" using new x by blast
    have "left_well g order {} x" using passD(7) [OF pass in_order [OF l]] by simp
    with l no obtain z where z: "mutual g z x" "after order r z" by (auto simp: left_well_def mutual_def)
    have "z \<in> dom comps" using after_rest [OF z(2) order passD(2) [OF pass]] comps(2) by blast
    with painted_whole [OF comps(1) mutual_sym [OF z(1)]] x show False by blast
  qed
  have whole: "y \<in> dom comps' - dom comps" if "mutual g r y" for y
  proof -
    have "y \<notin> dom comps" by (rule painted_whole [OF comps(1) that rnew])
    moreover have "y \<in> dom comps'" if "leads g y r" "leads g r y" for y
      using that
    proof (induction rule: leads_back)
      case (step a b)
      have "leads g r b" using step(1,4) leads_arc leads_trans by blast
      then have "b \<in> dom comps'" "mutual g r b" using step(2,3) by (simp_all add: mutual_def)
      then have "b \<in> dom comps' - dom comps" using painted_whole [OF comps(1) _ rnew] by blast
      moreover have "a \<in> set (predecessors (edge_list g) b)"
        using step(1) edge_list_iff [OF keys, of a b] by (force simp: predecessors_def)
      ultimately show ?case using new by blast
    qed (rule r)
    ultimately show ?thesis using that by (simp add: mutual_def)
  qed
  have "comps' y = comps' x" if x: "x \<in> dom comps'" and m: "mutual g x y" for x y
  proof (cases "x \<in> dom comps")
    case True
    then have "comps y = comps x" using paintedD(1) [OF comps(1)] m by blast
    moreover from this True have "y \<in> dom comps" by (auto simp: dom_def)
    ultimately show ?thesis using old True by simp
  next
    case False
    then have "mutual g r x" using same x by blast
    then have "y \<in> dom comps' - dom comps" using whole m mutual_trans by blast
    with new False x show ?thesis by auto
  qed
  moreover have "mutual g c x" if "comps' x = Some c" for x c
  proof (cases "x \<in> dom comps")
    case True
    with old that have "comps x = Some c" by simp
    then show ?thesis using paintedD(2) [OF comps(1)] by blast
  next
    case False
    then have "x \<in> dom comps' - dom comps" using that by auto
    with new same that show ?thesis by auto
  qed
  moreover have "dom comps \<subseteq> dom comps'" using old by (auto simp: dom_def)
  ultimately show ?thesis using r comps(2) unfolding painted_def by blast
qed

lemma paint_roots_ok:
  assumes keys: "keys_ok g" and pass: "pass_ok g [] seen order" and all: "sources g \<subseteq> set order"
  shows "rev order = rev younger @ rs \<Longrightarrow> painted g comps \<Longrightarrow> set younger \<subseteq> dom comps \<Longrightarrow>
    painted g (paint_roots (edge_list g) rs comps) \<and> set order \<subseteq> dom (paint_roots (edge_list g) rs comps)"
proof (induction rs arbitrary: younger comps)
  case Nil
  then have "order = younger" by simp
  with Nil show ?case by simp
next
  case (Cons r rs)
  have order: "order = rev rs @ r # younger" using arg_cong [OF Cons.prems(1), of rev] by simp
  have next_rev: "rev order = rev (r # younger) @ rs" using Cons.prems(1) by simp
  show ?case
  proof (cases "comps r = None")
    case False
    then have "set (r # younger) \<subseteq> dom comps" using Cons.prems(3) by auto
    from Cons.IH [OF next_rev Cons.prems(2) this] False show ?thesis by simp
  next
    case True
    have "painted g (paint (edge_list g) r [r] comps) \<and> insert r (set younger) \<subseteq> dom (paint (edge_list g) r [r] comps)"
      using paint_component [OF keys pass order all Cons.prems(2,3) True refl] by blast
    with Cons.IH [OF next_rev, of "paint (edge_list g) r [r] comps"] True show ?thesis by (simp del: paint.simps)
  qed
qed

text \<open>Two dependent issues are in one component exactly when each leads to the other.\<close>

lemma components_correct:
  assumes "keys_ok g" and "n \<in> sources g" and "t \<in> set (nexts g n)"
  shows "components g n = components g t \<longleftrightarrow> leads g t n"
proof -
  let ?roots = "List.map fst (dg_children g) @ List.map fst (dg_links g)"
  have "pass_ok g [] {} []" by (rule passI) simp_all
  then obtain seen where pass: "pass_ok g [] seen (leave_roots g ?roots {} [])" and roots: "set ?roots \<subseteq> seen"
    using leave_roots_ok by blast
  define order where "order = leave_roots g ?roots {} []"
  have seen: "seen = set order" using passD(1) [OF pass] by (simp add: order_def)
  have all: "sources g \<subseteq> set order" using roots by (auto simp: seen sources_def)
  have "painted g Map.empty" by (simp add: painted_def)
  then have ok: "painted g (components g)" "set order \<subseteq> dom (components g)"
    using paint_roots_ok [OF assms(1) pass [folded order_def] all, of "[]" "rev order" Map.empty]
    by (simp_all add: components_def order_def [symmetric])
  have "n \<in> set order" using all assms(2) by blast
  moreover from this have "t \<in> set order" using passD(5) [OF pass [folded order_def]] assms(3) by (auto simp: seen)
  ultimately have "components g n = components g t \<longleftrightarrow> mutual g n t" using painted_same [OF ok(1)] ok(2) by blast
  then show ?thesis using leads_arc [OF assms(3)] by (simp add: mutual_def)
qed

text \<open>The check of each dependency on its own, in order.\<close>

fun validate_each :: "dep_graph \<Rightarrow> (int \<times> int) list \<Rightarrow> unit result" where
  "validate_each g [] = Inr ()"
| "validate_each g ((n, t) # es) = and_then (validate_edge g n t) (\<lambda>_. validate_each g es)"

lemma link_next: "keys_ok g \<Longrightarrow> (n, t) \<in> set (link_list g) \<Longrightarrow> n \<in> sources g \<and> t \<in> set (nexts g n)"
  unfolding link_list_def pairs_iff by (auto simp: sources_def nexts_def keys_ok_def targets_iff image_iff) force

lemma validate_found:
  "\<forall>(n, t) \<in> set es. components g n = components g t \<longleftrightarrow> leads g t n \<Longrightarrow>
   (case find (\<lambda>(n, t). components g n = components g t) es of None \<Rightarrow> Inr () | Some (n, t) \<Rightarrow> validate_edge g n t) = validate_each g es"
proof (induction es)
  case (Cons e es)
  obtain n t where e: "e = (n, t)" by fastforce
  have same: "components g n = components g t \<longleftrightarrow> \<not> is_ok (validate_edge g n t)"
    using Cons.prems e by (simp add: validate_edge_iff)
  show ?case
  proof (cases "components g n = components g t")
    case True
    then have "\<not> is_ok (validate_edge g n t)" using same by simp
    then show ?thesis using True e by (auto simp: is_ok_def and_then_def split: sum.splits)
  next
    case False
    then have "validate_edge g n t = Inr ()" using same by (auto simp: is_ok_def split: sum.splits)
    then show ?thesis using Cons False e by simp
  qed
qed simp

section \<open>Properties\<close>

text \<open>
  C22. The check of all declared dependencies by strongly connected components gives what the
  check of each of them in turn gives, with the same error; it succeeds exactly when no
  issue depends, through subtasks and blockers, on one that it blocks.
\<close>

theorem edges_are_validated_by_components:
  assumes "keys_ok g"
  shows "validate_edges g = validate_each g (link_list g) \<and>
    (is_ok (validate_edges g) \<longleftrightarrow> (\<forall>n. \<forall>t \<in> set (dep_targets (dg_links g) n). \<not> leads g t n))"
proof -
  have each: "is_ok (validate_each g es) \<longleftrightarrow> (\<forall>(n, t) \<in> set es. \<not> leads g t n)" for es
  proof (induction es)
    case (Cons e es)
    obtain n t where "e = (n, t)" by fastforce
    with Cons validate_edge_iff [of g n t] show ?case by (auto simp: and_then_def is_ok_iff split: sum.splits)
  qed simp
  have same: "\<forall>(n, t) \<in> set (link_list g). components g n = components g t \<longleftrightarrow> leads g t n"
    using components_correct [OF assms] link_next [OF assms] by blast
  have none: "link_list g = []" if "list_all (\<lambda>(n, ts). ts = []) (dg_links g)"
    using that by (force simp: link_list_def list_all_iff)
  have eq: "validate_edges g = validate_each g (link_list g)"
    using validate_found [OF same] none by (simp add: validate_edges_def Let_def)
  have "(n, t) \<in> set (link_list g) \<longleftrightarrow> t \<in> set (dep_targets (dg_links g) n)" for n t
    using assms unfolding link_list_def pairs_iff by (simp add: keys_ok_def targets_iff)
  with each eq show ?thesis by auto
qed

definition example_cycle :: dep_graph where
  "example_cycle = \<lparr>dg_prs = False, dg_issues = [], dg_children = [(1, [2])], dg_links = [(2, [3]), (3, [4, 1])], dg_dependents = []\<rparr>"

lemma edges_are_validated_by_components_witness:
  "validate_edges example_cycle = Inl ''This dependency would create a cycle'' \<and>
   validate_edges (example_cycle\<lparr>dg_links := [(2, [3]), (3, [4])]\<rparr>) = Inr ()"
proof -
  have "keys_ok example_cycle" "keys_ok (example_cycle\<lparr>dg_links := [(2, [3]), (3, [4])]\<rparr>)"
    by (simp_all add: keys_ok_def example_cycle_def)
  note eq = edges_are_validated_by_components [OF this(1)] edges_are_validated_by_components [OF this(2)]
  have "validate_each example_cycle (link_list example_cycle) = Inl ''This dependency would create a cycle''"
    "validate_each (example_cycle\<lparr>dg_links := [(2, [3]), (3, [4])]\<rparr>) (link_list (example_cycle\<lparr>dg_links := [(2, [3]), (3, [4])]\<rparr>)) = Inr ()"
    by code_simp+
  with eq show ?thesis by simp
qed

end
