(* ===== verification/Issue_Tables.thy ===== *)
theory Issue_Tables
  imports Issue_Cycles
begin

text \<open>
  The tables of one project (\<open>src/src/issues/store.rs\<close>, \<open>subtasks.sql\<close>, \<open>fleet.rs\<close>) and the
  loading of its dependency graph (\<open>blockers.rs\<close>): the whole graph, or the part that a
  request needs, with the views of dependencies that a response shows (\<open>enrich\<close>). The lemmas
  show that the part answers as the whole does.
\<close>

section \<open>Tables\<close>

record issue_row =
  ir_number :: int
  ir_title :: string
  ir_body :: string
  ir_state :: issue_state
  ir_assignee :: "string option"
  ir_created_by :: string
  ir_closed_by :: "string option"
  ir_created_at :: int
  ir_updated_at :: int
  ir_closed_at :: "int option"
  ir_deleted_at :: "int option"
  ir_version :: int
  ir_labels :: "string list"
  ir_sort :: int
  ir_draft :: bool
  ir_manual :: bool
  ir_blockers :: "int list"

record comment_row =
  cm_id :: int
  cm_issue :: int
  cm_author :: string
  cm_body :: string
  cm_at :: int

record event_row =
  ev_id :: int
  ev_issue :: int
  ev_actor :: string
  ev_action :: string
  ev_at :: int
  ev_data :: json

record worker_run =
  wr_id :: string
  wr_issue :: int
  wr_actor :: string
  wr_machine :: "string option"
  wr_finished :: "int option"

text \<open>
  Subtasks are pairs of parent and child. The resets are the comment and the event up to which
  the notices of an issue no longer count; the models are those of the agents. Tables and
  columns that dependencies do not touch are left out.
\<close>

record issue_db =
  db_issues :: "issue_row list"
  db_subtasks :: "(int \<times> int) list"
  db_comments :: "comment_row list"
  db_events :: "event_row list"
  db_runs :: "worker_run list"
  db_comment_resets :: "int \<Rightarrow> int option"
  db_event_resets :: "int \<Rightarrow> int option"
  db_models :: "string \<Rightarrow> string option"
  db_prs :: bool

definition issue_at :: "issue_db \<Rightarrow> int \<Rightarrow> issue_row option" where
  "issue_at db n = find (\<lambda>r. ir_number r = n) (db_issues db)"

definition running :: "worker_run \<Rightarrow> bool" where
  "running w \<longleftrightarrow> wr_finished w = None"

lemma find_member: "find P xs = Some x \<Longrightarrow> x \<in> set xs \<and> P x"
  by (induction xs) (auto split: if_splits)

section \<open>Recursive queries\<close>

text \<open>
  The rows of a recursive query: everything that the steps lead to from the first rows, each
  once. Only the rows of \<open>src\<close> have steps, which bounds the search.
\<close>

function query_rows :: "('a \<Rightarrow> 'a list) \<Rightarrow> 'a list \<Rightarrow> 'a list \<Rightarrow> 'a list \<Rightarrow> 'a list" where
  "query_rows step src [] found = found"
| "query_rows step src (n # todo) found =
     (if n \<in> set found then query_rows step src todo found
      else query_rows step src (todo @ (if n \<in> set src then step n else [])) (found @ [n]))"
  by pat_completeness auto

termination
proof (relation "inv_image (less_than <*lex*> less_than)
    (\<lambda>(step, src, todo, found). (card (set src - set found), length todo))", goal_cases)
  case (3 step src n todo found)
  show ?case
  proof (cases "n \<in> set src")
    case True
    then have "card (set src - insert n (set found)) < card (set src - set found)"
      using 3 by (intro psubset_card_mono) auto
    then show ?thesis by simp
  next
    case False
    then have "set src - insert n (set found) = set src - set found" by auto
    with False show ?thesis by simp
  qed
qed auto

lemma query_closed:
  assumes "\<forall>n \<in> set found. n \<in> set src \<longrightarrow> set (step n) \<subseteq> set found \<union> set todo"
  shows "set found \<union> set todo \<subseteq> set (query_rows step src todo found) \<and>
    (\<forall>n \<in> set (query_rows step src todo found). n \<in> set src \<longrightarrow> set (step n) \<subseteq> set (query_rows step src todo found))"
  using assms
proof (induction step src todo found rule: query_rows.induct)
  case (2 step src n todo found)
  show ?case
  proof (cases "n \<in> set found")
    case True
    with 2 show ?thesis by auto
  next
    case False
    let ?todo = "todo @ (if n \<in> set src then step n else [])"
    have "\<forall>m \<in> set (found @ [n]). m \<in> set src \<longrightarrow> set (step m) \<subseteq> set (found @ [n]) \<union> set ?todo" using 2(3) by auto
    from 2(2) [OF False this] False show ?thesis by auto
  qed
qed simp

lemma query_sound:
  assumes "\<forall>n \<in> set found \<union> set todo. P n" and "\<And>n m. P n \<Longrightarrow> n \<in> set src \<Longrightarrow> m \<in> set (step n) \<Longrightarrow> P m"
  shows "\<forall>n \<in> set (query_rows step src todo found). P n"
  using assms
proof (induction step src todo found rule: query_rows.induct)
  case (2 step src n todo found)
  show ?case
  proof (cases "n \<in> set found")
    case True
    with 2(1) [OF True _ 2(4)] 2(3) show ?thesis by simp
  next
    case False
    have "\<forall>m \<in> set (found @ [n]) \<union> set (todo @ (if n \<in> set src then step n else [])). P m"
      using 2(3) 2(4) [of n] by auto
    from 2(2) [OF False this 2(4)] False show ?thesis by simp
  qed
qed simp

section \<open>Loading the graph\<close>

definition ordered_rows :: "issue_db \<Rightarrow> issue_row list" where
  "ordered_rows db = sort_key ir_sort (sort_key ir_number (db_issues db))"

definition dep_of :: "issue_db \<Rightarrow> issue_row \<Rightarrow> dep_issue" where
  "dep_of db r = \<lparr>di_title = ir_title r, di_state = ir_state r, di_deleted = ir_deleted_at r \<noteq> None, di_manual = ir_manual r, di_creator = ir_created_by r,
     di_draft = ir_draft r, di_assignee = ir_assignee r,
     di_reserved = list_ex (\<lambda>w. wr_issue w = ir_number r \<and> running w) (db_runs db), di_version = ir_version r\<rparr>"

text \<open>The rows of the second query: subtasks, in the order of the children.\<close>

definition child_pairs :: "issue_db \<Rightarrow> (int \<Rightarrow> bool) \<Rightarrow> (int \<times> int) list" where
  "child_pairs db sel = concat (List.map (\<lambda>r. filter (\<lambda>(p, c). c = ir_number r \<and> sel p) (db_subtasks db)) (ordered_rows db))"

definition in_selection :: "int list option \<Rightarrow> int \<Rightarrow> bool" where
  "in_selection numbers n \<longleftrightarrow> (case numbers of None \<Rightarrow> True | Some ns \<Rightarrow> n \<in> set ns)"

definition push :: "int \<times> int \<Rightarrow> (int \<times> int list) list \<Rightarrow> (int \<times> int list) list" where
  "push = (\<lambda>(p, c) m. assoc_put p (dep_targets m p @ [c]) m)"

text \<open>The dependents of an issue: what links it, in the order of the rows, then its parents.\<close>

definition linked_pairs :: "issue_row list \<Rightarrow> (int \<times> int \<times> dep_source) list" where
  "linked_pairs rows = concat (List.map (\<lambda>r.
     if ir_deleted_at r = None then List.map (\<lambda>t. (t, ir_number r, Linked)) (ir_blockers r) else []) rows)"

definition parent_pairs :: "(int \<Rightarrow> dep_issue option) \<Rightarrow> (int \<times> int) list \<Rightarrow> (int \<times> int \<times> dep_source) list" where
  "parent_pairs issues pairs =
     (let alive = (\<lambda>n. case issues n of None \<Rightarrow> False | Some i \<Rightarrow> \<not> di_deleted i)
      in List.map (\<lambda>(p, c). (c, p, Subtask)) (filter (\<lambda>(p, c). alive p \<and> alive c) pairs))"

definition dependents_in :: "(int \<times> (int \<times> dep_source) list) list \<Rightarrow> int \<Rightarrow> (int \<times> dep_source) list" where
  "dependents_in m n = (case map_of m n of None \<Rightarrow> [] | Some ds \<Rightarrow> ds)"

definition push_dependent ::
    "int \<times> int \<times> dep_source \<Rightarrow> (int \<times> (int \<times> dep_source) list) list \<Rightarrow> (int \<times> (int \<times> dep_source) list) list" where
  "push_dependent = (\<lambda>(t, d) m. assoc_put t (dependents_in m t @ [d]) m)"

definition load_selected :: "issue_db \<Rightarrow> int list option \<Rightarrow> dep_graph" where
  "load_selected db numbers =
     (let rows = filter (\<lambda>r. in_selection numbers (ir_number r)) (ordered_rows db);
          issues = fold (\<lambda>r. assoc_put (ir_number r) (dep_of db r)) rows [];
          pairs = child_pairs db (in_selection numbers) in
      \<lparr>dg_prs = rows \<noteq> [] \<and> db_prs db,
       dg_issues = issues,
       dg_children = fold push pairs [],
       dg_links = fold (\<lambda>r. assoc_put (ir_number r) (ir_blockers r)) rows [],
       dg_dependents = fold push_dependent (linked_pairs rows @ parent_pairs (map_of issues) pairs) []\<rparr>)"

definition load :: "issue_db \<Rightarrow> dep_graph" where
  "load db = load_selected db None"

text \<open>The issues of a request: it, what depends on it directly, and all that these lead to.\<close>

definition refs :: "issue_db \<Rightarrow> int \<Rightarrow> int list" where
  "refs db n = (case issue_at db n of None \<Rightarrow> [] | Some r \<Rightarrow> ir_blockers r) @
     List.map snd (filter (\<lambda>(p, c). p = n) (db_subtasks db))"

definition roots :: "issue_db \<Rightarrow> int list \<Rightarrow> int list" where
  "roots db ns = ns @
     List.map ir_number (filter (\<lambda>r. ir_deleted_at r = None \<and> list_ex (\<lambda>b. b \<in> set ns) (ir_blockers r)) (db_issues db)) @
     List.map fst (filter (\<lambda>(p, c). c \<in> set ns) (db_subtasks db))"

definition ref_sources :: "issue_db \<Rightarrow> int list" where
  "ref_sources db = List.map ir_number (db_issues db) @ List.map fst (db_subtasks db)"

definition reachable :: "issue_db \<Rightarrow> int list \<Rightarrow> int list" where
  "reachable db todo = query_rows (refs db) (ref_sources db) todo []"

definition load_for :: "issue_db \<Rightarrow> int list \<Rightarrow> dep_graph" where
  "load_for db ns = load_selected db (Some (reachable db (roots db ns)))"

definition load_active :: "issue_db \<Rightarrow> dep_graph" where
  "load_active db = load_for db (List.map ir_number (filter (\<lambda>r. ir_state r \<noteq> State_Closed \<and> ir_deleted_at r = None) (db_issues db)))"

section \<open>What the graph holds\<close>

definition numbers_ok :: "issue_db \<Rightarrow> bool" where
  "numbers_ok db \<longleftrightarrow> distinct (List.map ir_number (db_issues db))"

lemma issue_at_iff: "numbers_ok db \<Longrightarrow> issue_at db n = Some r \<longleftrightarrow> r \<in> set (db_issues db) \<and> ir_number r = n"
  unfolding issue_at_def numbers_ok_def
proof (induction "db_issues db" arbitrary: db)
  case (Cons x xs)
  from Cons(1) [of "db\<lparr>db_issues := xs\<rparr>"] Cons(2) [symmetric] Cons(3) show ?case
    by (auto simp: image_iff)
qed simp

lemma set_ordered [simp]: "set (ordered_rows db) = set (db_issues db)"
  by (simp add: ordered_rows_def)

lemma fold_put_sorted: "sorted_wrt (<) (List.map fst m) \<Longrightarrow> sorted_wrt (<) (List.map fst (fold (\<lambda>r. assoc_put (f r) (h r)) rs m))"
  by (induction rs arbitrary: m) (auto intro: strict_sorted_assoc_put)

lemma fold_put_map:
  "\<forall>r \<in> set rs. \<forall>r' \<in> set rs. f r = f r' \<longrightarrow> h r = h r' \<Longrightarrow>
   map_of (fold (\<lambda>r. assoc_put (f r) (h r)) rs m) n =
     (case find (\<lambda>r. f r = n) rs of None \<Rightarrow> map_of m n | Some r \<Rightarrow> Some (h r))"
proof (induction rs arbitrary: m)
  case (Cons r rs)
  have same: "h x = h r" if "find (\<lambda>r. f r = n) rs = Some x" "f r = n" for x
  proof -
    from that(1) have "x \<in> set rs \<and> f x = n" by (rule find_member)
    with Cons.prems that(2) show ?thesis by (metis list.set_intros)
  qed
  have "\<forall>r \<in> set rs. \<forall>r' \<in> set rs. f r = f r' \<longrightarrow> h r = h r'"
    using Cons.prems by (meson list.set_intros(2))
  note IH = Cons.IH [OF this, of "assoc_put (f r) (h r) m"]
  show ?case
  proof (cases "find (\<lambda>r. f r = n) rs")
    case None
    then show ?thesis using IH by simp
  next
    case (Some x)
    then show ?thesis using IH same [OF Some] by simp
  qed
qed simp

lemma fold_rows:
  assumes "numbers_ok db"
  shows "map_of (fold (\<lambda>r. assoc_put (ir_number r) (h r)) (filter (\<lambda>r. sel (ir_number r)) (ordered_rows db)) []) n =
    (if sel n then map_option h (issue_at db n) else None)"
proof -
  let ?rs = "filter (\<lambda>r. sel (ir_number r)) (ordered_rows db)"
  have same: "\<forall>r \<in> set ?rs. \<forall>r' \<in> set ?rs. ir_number r = ir_number r' \<longrightarrow> h r = h r'"
    using assms by (auto simp: numbers_ok_def distinct_map inj_on_def)
  have "find (\<lambda>r. ir_number r = n) ?rs = (if sel n then issue_at db n else None)"
  proof (cases "find (\<lambda>r. ir_number r = n) ?rs")
    case None
    then have "sel n \<Longrightarrow> issue_at db n = None"
      using issue_at_iff [OF assms, of n] by (cases "issue_at db n") (force simp: find_None_iff)+
    then show ?thesis unfolding None by simp
  next
    case (Some r)
    then have "r \<in> set (db_issues db) \<and> ir_number r = n \<and> sel n" using find_member [OF Some] by auto
    then show ?thesis using Some issue_at_iff [OF assms, of n r] by simp
  qed
  with fold_put_map [OF same, of "[]" n] show ?thesis by (simp split: option.splits)
qed

lemma push_targets: "dep_targets (fold push ps m) n = dep_targets m n @ List.map snd (filter (\<lambda>(p, c). p = n) ps)"
  by (induction ps arbitrary: m) (auto simp: push_def dep_targets_def split: option.splits)

lemma push_sorted: "sorted_wrt (<) (List.map fst m) \<Longrightarrow> sorted_wrt (<) (List.map fst (fold push ps m))"
  by (induction ps arbitrary: m) (auto simp: push_def intro: strict_sorted_assoc_put)

definition child_list :: "issue_db \<Rightarrow> int \<Rightarrow> int list" where
  "child_list db p = List.map snd (filter (\<lambda>(q, c). q = p) (child_pairs db (\<lambda>_. True)))"

lemma filter_pairs: "sel p \<Longrightarrow> filter (\<lambda>(q, c). q = p) (child_pairs db sel) = filter (\<lambda>(q, c). q = p) (child_pairs db (\<lambda>_. True))"
  unfolding child_pairs_def filter_concat map_map
  by (intro arg_cong [where f = concat] map_cong refl) (auto intro!: filter_cong)

lemma no_pairs: "\<not> sel p \<Longrightarrow> filter (\<lambda>(q, c). q = p) (child_pairs db sel) = []"
  by (auto simp: child_pairs_def filter_concat filter_empty_conv)

lemma children_iff: "c \<in> set (child_list db p) \<longleftrightarrow> (p, c) \<in> set (db_subtasks db) \<and> (\<exists>r \<in> set (db_issues db). ir_number r = c)"
  by (auto simp: child_list_def child_pairs_def image_iff)

lemma selected_issues: "numbers_ok db \<Longrightarrow> map_of (dg_issues (load_selected db ns)) n = (if in_selection ns n then map_option (dep_of db) (issue_at db n) else None)"
  by (simp add: load_selected_def Let_def fold_rows)

lemma selected_links:
  "numbers_ok db \<Longrightarrow> dep_targets (dg_links (load_selected db ns)) n =
   (if in_selection ns n then (case issue_at db n of None \<Rightarrow> [] | Some r \<Rightarrow> ir_blockers r) else [])"
  by (simp add: load_selected_def Let_def dep_targets_def fold_rows split: option.splits)

lemma selected_children: "dep_targets (dg_children (load_selected db ns)) n = (if in_selection ns n then child_list db n else [])"
  using push_targets [of "child_pairs db (in_selection ns)" "[]" n] filter_pairs [of "in_selection ns" n db] no_pairs [of "in_selection ns" n db]
  by (simp add: load_selected_def Let_def child_list_def) (simp add: dep_targets_def)

lemma sorted_distinct: "sorted_wrt (<) xs \<Longrightarrow> distinct (xs :: int list)"
  by (simp add: strict_sorted_iff)

lemma selected_keys: "keys_ok (load_selected db ns)"
  unfolding keys_ok_def load_selected_def Let_def
  by (auto intro!: sorted_distinct fold_put_sorted push_sorted)

lemma load_issues: "numbers_ok db \<Longrightarrow> map_of (dg_issues (load db)) n = map_option (dep_of db) (issue_at db n)"
  by (simp add: load_def selected_issues in_selection_def)

lemma load_links: "numbers_ok db \<Longrightarrow> dep_targets (dg_links (load db)) n = (case issue_at db n of None \<Rightarrow> [] | Some r \<Rightarrow> ir_blockers r)"
  by (simp add: load_def selected_links in_selection_def)

lemma load_children: "dep_targets (dg_children (load db)) n = child_list db n"
  by (simp add: load_def selected_children in_selection_def)

section \<open>Part of a graph\<close>

text \<open>Two graphs that agree on a set of issues that no dependency leaves.\<close>

definition agree :: "dep_graph \<Rightarrow> dep_graph \<Rightarrow> int set \<Rightarrow> bool" where
  "agree g h s \<longleftrightarrow> (\<forall>n \<in> s. map_of (dg_issues h) n = map_of (dg_issues g) n \<and>
     dep_targets (dg_children h) n = dep_targets (dg_children g) n \<and> dep_targets (dg_links h) n = dep_targets (dg_links g) n \<and> set (nexts g n) \<subseteq> s)"

lemma agree_sym: "agree g h s \<Longrightarrow> agree h g s"
  by (simp add: agree_def nexts_def)

lemma agree_nexts: "agree g h s \<Longrightarrow> n \<in> s \<Longrightarrow> set (nexts h n) = set (nexts g n) \<and> set (nexts g n) \<subseteq> s"
  by (simp add: agree_def nexts_def)

lemma agree_state:
  assumes "agree g h s" and "n \<in> s"
  shows "alive h n \<longleftrightarrow> alive g n" and "in_state h st n \<longleftrightarrow> in_state g st n" and "deleted_in h n \<longleftrightarrow> deleted_in g n"
  using assms by (simp_all add: agree_def alive_def in_state_def deleted_in_def)

lemma agree_child: "agree g h s \<Longrightarrow> n \<in> s \<Longrightarrow> c \<in> set (dep_targets (dg_children g) n) \<Longrightarrow> c \<in> s \<and> c \<in> set (dep_targets (dg_children h) n)"
  by (auto simp: agree_def nexts_def)

lemma agree_link: "agree g h s \<Longrightarrow> n \<in> s \<Longrightarrow> c \<in> set (dep_targets (dg_links g) n) \<Longrightarrow> c \<in> s \<and> c \<in> set (dep_targets (dg_links h) n)"
  by (auto simp: agree_def nexts_def)

lemma agree_subtask:
  assumes "agree g h s" and "n \<in> s"
  shows "subtask_of g n c \<Longrightarrow> subtask_of h n c \<and> c \<in> s"
proof (induction rule: subtask_of.induct)
  case (child c)
  then show ?case using agree_child [OF assms] agree_state [OF assms(1)] by (auto intro: subtask_of.child)
next
  case (below c d)
  then have "c \<in> s" by simp
  note d = agree_child [OF assms(1) this below(3)]
  show ?case using below d agree_state [OF assms(1) \<open>c \<in> s\<close>] agree_state [OF assms(1), of d]
    by (auto intro: subtask_of.below)
qed

lemma agree_descendant:
  assumes "agree g h s" and "n \<in> s"
  shows "descendant g n c \<Longrightarrow> descendant h n c \<and> c \<in> s"
proof (induction rule: descendant.induct)
  case (child c)
  then show ?case using agree_child [OF assms] agree_state [OF assms(1)] by (auto intro: descendant.child)
next
  case (below c d)
  then have "c \<in> s" by simp
  note d = agree_child [OF assms(1) this below(2)]
  show ?case using below d agree_state [OF assms(1), of d] by (auto intro: descendant.below)
qed

lemma agree_depends: "agree g h s \<Longrightarrow> n \<in> s \<Longrightarrow> depends g n c \<Longrightarrow> depends h n c \<and> c \<in> s"
  unfolding depends_def using agree_subtask agree_link by blast

lemma agree_satisfied: "satisfied g n \<Longrightarrow> agree g h s \<Longrightarrow> n \<in> s \<Longrightarrow> satisfied h n"
proof (induction rule: satisfied.induct)
  case (ready n)
  have "satisfied h c" if "depends h n c" for c
    using agree_depends [OF agree_sym [OF ready.prems(1)] ready.prems(2) that] ready.IH ready.prems(1) by blast
  then show ?case using ready.hyps(1) agree_state [OF ready.prems] by (auto intro: satisfied.ready)
qed (auto intro: satisfied.intros dest: agree_state)

lemma agree_facts:
  assumes "agree g h s" and "n \<in> s"
  shows "satisfied h n \<longleftrightarrow> satisfied g n" and "depends h n c \<longleftrightarrow> depends g n c"
    and "descendant h n c \<longleftrightarrow> descendant g n c" and "waits h n \<longleftrightarrow> waits g n" and "waiting_on h n = waiting_on g n"
proof -
  note sym = agree_sym [OF assms(1)]
  have sat: "satisfied h n \<longleftrightarrow> satisfied g n" if "n \<in> s" for n
    using agree_satisfied [OF _ assms(1) that] agree_satisfied [OF _ sym that] by blast
  have dep: "depends h n c \<longleftrightarrow> depends g n c" for c
    using agree_depends [OF assms] agree_depends [OF sym assms(2)] by blast
  have desc: "descendant h n c \<longleftrightarrow> descendant g n c" for c
    using agree_descendant [OF assms] agree_descendant [OF sym assms(2)] by blast
  show "satisfied h n \<longleftrightarrow> satisfied g n" "depends h n c \<longleftrightarrow> depends g n c" "descendant h n c \<longleftrightarrow> descendant g n c"
    using sat [OF assms(2)] dep desc by simp_all
  show "waits h n \<longleftrightarrow> waits g n" unfolding waits_def using dep sat agree_depends [OF assms] by blast
  have "dep_targets (dg_links h) n = dep_targets (dg_links g) n" using assms by (simp add: agree_def)
  then show "waiting_on h n = waiting_on g n"
    unfolding waiting_on_def using desc sat agree_descendant [OF assms] agree_link [OF assms] by auto
qed

lemma agree_leads: "leads g t n \<Longrightarrow> agree g h s \<Longrightarrow> t \<in> s \<Longrightarrow> leads h t n \<and> n \<in> s"
proof (induction rule: leads_induct)
  case (step a b)
  then have "a \<in> s" "leads h t a" by auto
  from agree_nexts [OF step.prems(1) this(1)] step.hyps(2) have "b \<in> set (nexts h a)" "b \<in> s" by auto
  then show ?case using leads_arc [of b h a] leads_trans [OF \<open>leads h t a\<close>] by simp
qed simp

lemma agree_leads_iff: "agree g h s \<Longrightarrow> t \<in> s \<Longrightarrow> leads h t n \<longleftrightarrow> leads g t n"
  using agree_leads agree_sym by blast

lemma agree_edge: "agree g h s \<Longrightarrow> t \<in> s \<Longrightarrow> validate_edge h n t = validate_edge g n t"
  unfolding validate_edge_def by (simp only: edge_search_iff agree_leads_iff)

section \<open>The list of dependencies\<close>

text \<open>Without caches the list of unfinished dependencies is a function of what it means.\<close>

definition sourced :: "dep_graph \<Rightarrow> int \<Rightarrow> (int \<times> dep_source) list" where
  "sourced g n = List.map (\<lambda>c. (c, if c \<in> set (dep_targets (dg_links g) n) then Linked else Subtask)) (sorted_list_of_set (waiting_on g n))"

lemma collect_values:
  assumes "actives_ok g ac" and "memo_ok g {} m" and "collect (unfinished g ac) src cs xs m = (ys, m')"
  shows "map_of ys c = (if c \<in> set cs \<and> \<not> satisfied g c then Some src else map_of xs c)"
  using assms(2,3)
proof (induction cs arbitrary: xs m)
  case (Cons d cs)
  obtain r m1 where u: "unfinished g ac d m = (r, m1)" by fastforce
  note ok = unfinished_correct [OF assms(1) Cons.prems(1) u]
  have "collect (unfinished g ac) src cs (if r then assoc_put d src xs else xs) m1 = (ys, m')"
    using Cons.prems(2) u by simp
  from Cons.IH [OF ok(2) this] ok(1) show ?case by auto
qed simp

lemma sorted_assoc_eq:
  assumes "sorted_wrt (<) (List.map fst xs)" and "sorted_wrt (<) (List.map fst ys)" and "map_of xs = map_of (ys :: (int \<times> 'a) list)"
  shows "xs = ys"
proof -
  have self: "List.map (\<lambda>k. (k, the (map_of zs k))) (List.map fst zs) = zs" if "distinct (List.map fst zs)" for zs :: "(int \<times> 'a) list"
    using that unfolding map_map by (intro map_idI) (auto simp: map_of_is_SomeI)
  have "set (List.map fst xs) = set (List.map fst ys)" using assms(3) by (metis dom_map_of_conv_image_fst list.set_map)
  then have "List.map fst xs = List.map fst ys" using assms(1,2) strict_sorted_equal by blast
  with self [of xs] self [of ys] assms sorted_distinct show ?thesis by metis
qed

lemma finite_waiting: "finite (waiting_on g n)"
  using active_of_correct(1) [OF no_caches [of g] surjective_pairing, of n]
  by (metis List.finite_set finite_imageI)

lemma sourced_keys: "fst ` set (sourced g n) = waiting_on g n" "sorted_wrt (<) (List.map fst (sourced g n))"
  using finite_waiting [of g n] by (simp_all add: sourced_def image_image comp_def)

lemma collected_sourced:
  assumes ac: "actives_ok g ac" and m: "memo_ok g {} m"
    and 1: "collect (unfinished g ac) Subtask (sorted_list_of_set (descendants g n)) [] m = (ys, m1)"
    and 2: "collect (unfinished g ac) Linked (dep_targets (dg_links g) n) ys m1 = (zs, m2)"
  shows "zs = sourced g n \<and> memo_ok g {} m2"
proof -
  note ys = collect_correct [OF ac m 1] and zs = collect_correct [OF ac collect_correct(2) [OF ac m 1] 2]
  have fin: "finite (descendants g n)" by (simp add: descendants_def finite_descend)
  have "map_of zs c = (if c \<in> waiting_on g n then Some (if c \<in> set (dep_targets (dg_links g) n) then Linked else Subtask) else None)" for c
    using collect_values [OF ac ys(2) 2, of c] collect_values [OF ac m 1, of c] fin
    by (auto simp: waiting_on_def descendants_iff)
  then have "map_of zs = map_of (sourced g n)"
    unfolding sourced_def using finite_waiting by (auto simp: fun_eq_iff map_of_map_restrict restrict_map_def)
  moreover have "sorted_wrt (<) (List.map fst zs)" using ys(3) zs(3) by simp
  ultimately show ?thesis using sorted_assoc_eq sourced_keys(2) zs(2) by blast
qed

text \<open>Caches that hold exact answers.\<close>

definition exact_caches :: "dep_graph \<Rightarrow> caches \<Rightarrow> bool" where
  "exact_caches g = (\<lambda>(m, ac). memo_ok g {} m \<and> (\<forall>n xs. ac n = Some xs \<longrightarrow> xs = sourced g n))"

lemma exact_none: "exact_caches g (Map.empty, Map.empty)"
  using no_caches [of g] by (simp add: exact_caches_def caches_ok_def)

lemma exact_actives: "exact_caches g (m, ac) \<Longrightarrow> actives_ok g ac \<and> memo_ok g {} m"
proof -
  assume "exact_caches g (m, ac)"
  then have xs: "xs = sourced g n" if "ac n = Some xs" for n xs
    using that by (auto simp: exact_caches_def)
  have "fst ` set xs = waiting_on g n \<and> sorted_wrt (<) (List.map fst xs)" if "ac n = Some xs" for n xs
    unfolding xs [OF that] using sourced_keys by blast
  with \<open>exact_caches g (m, ac)\<close> have "caches_ok g (m, ac)" by (auto simp: exact_caches_def caches_ok_def)
  then show ?thesis using caches_actives by (auto simp: caches_ok_def)
qed

lemma active_of_exact:
  assumes "exact_caches g c" and "active_of g n c = (xs, c')"
  shows "xs = sourced g n \<and> exact_caches g c'"
proof -
  obtain m ac where c: "c = (m, ac)" by fastforce
  show ?thesis
  proof (cases "ac n")
    case (Some ys)
    with assms show ?thesis by (auto simp: c active_of_def exact_caches_def)
  next
    case None
    obtain ys m1 where 1: "collect (unfinished g ac) Subtask (sorted_list_of_set (descendants g n)) [] m = (ys, m1)" by fastforce
    obtain zs m2 where 2: "collect (unfinished g ac) Linked (dep_targets (dg_links g) n) ys m1 = (zs, m2)" by fastforce
    have "zs = sourced g n \<and> memo_ok g {} m2"
      using collected_sourced [OF _ _ 1 2] exact_actives assms(1) c by blast
    moreover have "xs = zs" "c' = (m2, ac(n \<mapsto> zs))" using assms(2) None 1 2 by (auto simp: c active_of_def)
    ultimately show ?thesis using assms(1) by (auto simp: c exact_caches_def)
  qed
qed

lemma active_of_sourced: "fst (active_of g n (Map.empty, Map.empty)) = sourced g n"
  using active_of_exact [OF exact_none surjective_pairing] by blast

section \<open>The selected part\<close>

definition selection :: "issue_db \<Rightarrow> int list \<Rightarrow> int set" where
  "selection db ns = set (reachable db (roots db ns))"

lemma no_refs: "n \<notin> set (ref_sources db) \<Longrightarrow> refs db n = []"
  by (auto simp: refs_def ref_sources_def issue_at_def filter_empty_conv image_iff dest: find_member split: option.splits)

lemma selection_closed: "set ns \<subseteq> selection db ns" "n \<in> selection db ns \<Longrightarrow> set (refs db n) \<subseteq> selection db ns"
proof -
  note closed = query_closed [of "[]" "ref_sources db" "refs db" "roots db ns"]
  show "set ns \<subseteq> selection db ns" using closed by (auto simp: selection_def reachable_def roots_def)
  show "n \<in> selection db ns \<Longrightarrow> set (refs db n) \<subseteq> selection db ns"
    using closed no_refs [of n db] by (cases "n \<in> set (ref_sources db)") (auto simp: selection_def reachable_def)
qed

lemma nexts_load: "numbers_ok db \<Longrightarrow> nexts (load db) n = child_list db n @ (case issue_at db n of None \<Rightarrow> [] | Some r \<Rightarrow> ir_blockers r)"
  by (simp add: nexts_def load_children load_links)

lemma nexts_refs: "numbers_ok db \<Longrightarrow> set (nexts (load db) n) \<subseteq> set (refs db n)"
  by (auto simp: nexts_load children_iff refs_def image_iff split: option.splits)

lemma selection_agrees: "numbers_ok db \<Longrightarrow> agree (load db) (load_for db ns) (selection db ns)"
  unfolding agree_def load_for_def
  using order_trans [OF nexts_refs selection_closed(2)]
  by (auto simp: selected_issues selected_children selected_links load_issues load_children load_links in_selection_def selection_def)

lemma plain_waits: "fst (has_active g Map.empty n Map.empty) \<longleftrightarrow> waits g n"
proof -
  have "memo_ok g {} Map.empty" using no_caches [of g] by (simp add: caches_ok_def)
  from has_active_correct(1) [OF caches_actives [OF no_caches] this surjective_pairing] show ?thesis by simp
qed

lemma plain_satisfied: "fst (unfinished g Map.empty n Map.empty) \<longleftrightarrow> \<not> satisfied g n"
proof -
  have "memo_ok g {} Map.empty" using no_caches [of g] by (simp add: caches_ok_def)
  from unfinished_correct(1) [OF caches_actives [OF no_caches] this surjective_pairing] show ?thesis by simp
qed

lemma selected_waits: "numbers_ok db \<Longrightarrow> n \<in> selection db ns \<Longrightarrow> fst (has_active (load_for db ns) Map.empty n Map.empty) \<longleftrightarrow> waits (load db) n"
  by (simp add: plain_waits agree_facts(4) [OF selection_agrees])

lemma selected_satisfied: "numbers_ok db \<Longrightarrow> n \<in> selection db ns \<Longrightarrow> fst (unfinished (load_for db ns) Map.empty n Map.empty) \<longleftrightarrow> \<not> satisfied (load db) n"
  by (simp add: plain_satisfied agree_facts(1) [OF selection_agrees])

lemma selected_sourced:
  assumes "numbers_ok db" and "n \<in> selection db ns"
  shows "fst (active_of (load_for db ns) n (Map.empty, Map.empty)) = sourced (load db) n"
proof -
  have "dep_targets (dg_links (load_for db ns)) n = dep_targets (dg_links (load db)) n"
    using selection_agrees [OF assms(1), of ns] assms(2) by (simp add: agree_def)
  with agree_facts(5) [OF selection_agrees [OF assms(1)] assms(2)] show ?thesis
    by (simp add: active_of_sourced sourced_def)
qed

section \<open>Checks of new dependencies\<close>

definition links_valid :: "int list \<Rightarrow> bool" where
  "links_valid links \<longleftrightarrow> length links \<le> 100 \<and> list_all (\<lambda>n. 1 \<le> n) links \<and> distinct links"

definition bad_links :: string where
  "bad_links = ''Use up to 100 different positive blocker issue numbers''"

definition missing :: "dep_graph \<Rightarrow> int \<Rightarrow> bool" where
  "missing g n \<longleftrightarrow> (case map_of (dg_issues g) n of None \<Rightarrow> True | Some i \<Rightarrow> di_deleted i)"

definition no_blocker :: "int \<Rightarrow> string" where
  "no_blocker n = ''Blocker issue #'' @ show_int n @ '' was not found in this project''"

definition validate_new_links :: "issue_db \<Rightarrow> int list \<Rightarrow> bool result" where
  "validate_new_links db links =
     (if links = [] then Inr False
      else and_then (ensure (links_valid links) bad_links) (\<lambda>_.
        let g = load_for db links in
        and_then (fold_result (\<lambda>t (any, m). and_then (ensure (\<not> missing g t) (no_blocker t)) (\<lambda>_.
          case unfinished g Map.empty t m of (r, m) \<Rightarrow> Inr (any \<or> r, m))) links (False, Map.empty))
        (\<lambda>(any, m). Inr any)))"

definition validate_links :: "issue_db \<Rightarrow> int \<Rightarrow> int list \<Rightarrow> unit result" where
  "validate_links db n links =
     and_then (ensure (links_valid links) bad_links) (\<lambda>_.
       let g = load_for db (links @ [n]) in
       fold_result (\<lambda>t _. and_then (ensure (\<not> missing g t) (no_blocker t)) (\<lambda>_. validate_edge g n t)) links ())"

definition validate_subtask :: "issue_db \<Rightarrow> int \<Rightarrow> int \<Rightarrow> unit result" where
  "validate_subtask db parent child = validate_edge (load_for db [parent, child]) parent child"

definition has_dependencies :: "issue_db \<Rightarrow> int \<Rightarrow> bool" where
  "has_dependencies db n = fst (has_active (load_for db [n]) Map.empty n Map.empty)"

definition reopen_blockers :: "issue_db \<Rightarrow> int \<Rightarrow> (int \<times> dep_source) list" where
  "reopen_blockers db n = fst (active_of (load_for db [n]) n (Map.empty, Map.empty))"

lemma self_selected: "n \<in> set ns \<Longrightarrow> n \<in> selection db ns"
  using selection_closed(1) by blast

lemma has_dependencies_iff: "numbers_ok db \<Longrightarrow> has_dependencies db n \<longleftrightarrow> waits (load db) n"
  unfolding has_dependencies_def by (rule selected_waits) (simp_all add: self_selected)

lemma reopen_blockers_eq: "numbers_ok db \<Longrightarrow> reopen_blockers db n = sourced (load db) n"
  unfolding reopen_blockers_def by (rule selected_sourced) (simp_all add: self_selected)

lemma fold_unit_ok: "fold_result (\<lambda>x _. f x) xs () = Inr () \<longleftrightarrow> (\<forall>x \<in> set xs. f x = Inr ())"
  by (induction xs) (auto simp: and_then_def split: sum.splits)

lemma agree_missing: "agree g h s \<Longrightarrow> n \<in> s \<Longrightarrow> missing h n \<longleftrightarrow> missing g n"
  by (simp add: agree_def missing_def)

lemma validate_edge_ok: "validate_edge g n t = Inr () \<longleftrightarrow> \<not> leads g t n"
  using validate_edge_iff [of g n t] by (auto simp: is_ok_iff)

lemma validate_links_iff:
  assumes "numbers_ok db"
  shows "validate_links db n links = Inr () \<longleftrightarrow>
    links_valid links \<and> (\<forall>t \<in> set links. \<not> missing (load db) t \<and> \<not> leads (load db) t n)"
proof -
  have "t \<in> set links \<Longrightarrow> validate_edge (load_for db (links @ [n])) n t = validate_edge (load db) n t \<and>
      missing (load_for db (links @ [n])) t = missing (load db) t" for t
    using agree_edge [OF selection_agrees [OF assms]] agree_missing [OF selection_agrees [OF assms]] self_selected by simp
  then have each: "(\<forall>t \<in> set links. \<not> missing (load_for db (links @ [n])) t \<and> validate_edge (load_for db (links @ [n])) n t = Inr ()) \<longleftrightarrow>
      (\<forall>t \<in> set links. \<not> missing (load db) t \<and> \<not> leads (load db) t n)"
    by (simp add: validate_edge_ok)
  then show ?thesis by (simp add: validate_links_def Let_def fold_unit_ok)
qed

lemma validate_subtask_iff: "numbers_ok db \<Longrightarrow> validate_subtask db parent child = Inr () \<longleftrightarrow> \<not> leads (load db) child parent"
  unfolding validate_subtask_def
  using agree_edge [OF selection_agrees self_selected, of db child "[parent, child]" parent]
  by (simp add: validate_edge_ok)

section \<open>Views of dependencies\<close>

text \<open>
  What a response shows of an issue's dependencies (\<open>enrich\<close>). The code asks the graph, with
  its caches, first for the issues whose pull requests it reads, then for each view. Of a
  referenced issue the title, state, deletion and draft flag are kept.
\<close>

record dep_ref =
  rf_number :: int
  rf_title :: string
  rf_state :: issue_state
  rf_deleted :: bool
  rf_draft :: "bool option"
  rf_source :: dep_source

record dep_view =
  dv_context :: "dep_ref list"
  dv_ready :: issue_state
  dv_blocked_by :: "dep_ref list"
  dv_links :: "(dep_ref \<times> bool) list" \<comment> \<open>with: is it satisfied\<close>
  dv_blocking :: "(dep_ref \<times> bool \<times> bool \<times> nat) list"
    \<comment> \<open>with: does it wait for the issue, would its release free it, how many it waits for\<close>

definition reference :: "dep_graph \<Rightarrow> int \<times> dep_source \<Rightarrow> dep_ref" where
  "reference g = (\<lambda>(n, source).
     case map_of (dg_issues g) n of
       None \<Rightarrow> \<lparr>rf_number = n, rf_title = ''Issue unavailable'', rf_state = State_Blocked,
                rf_deleted = False, rf_draft = None, rf_source = source\<rparr>
     | Some i \<Rightarrow> \<lparr>rf_number = n, rf_title = di_title i, rf_state = di_state i,
                  rf_deleted = di_deleted i, rf_draft = Some (di_draft i), rf_source = source\<rparr>)"

definition dependents :: "dep_graph \<Rightarrow> int \<Rightarrow> (int \<times> dep_source) list" where
  "dependents g = dependents_in (dg_dependents g)"

fun link_views :: "dep_graph \<Rightarrow> int list \<Rightarrow> caches \<Rightarrow> (dep_ref \<times> bool) list \<times> caches" where
  "link_views g [] c = ([], c)"
| "link_views g (b # bs) (m, ac) =
     (case unfinished g ac b m of (r, m) \<Rightarrow>
        (case link_views g bs (m, ac) of (vs, c) \<Rightarrow> ((reference g (b, Linked), \<not> r) # vs, c)))"

fun blocking_views ::
    "dep_graph \<Rightarrow> int \<Rightarrow> (int \<times> dep_source) list \<Rightarrow> caches \<Rightarrow> (dep_ref \<times> bool \<times> bool \<times> nat) list \<times> caches" where
  "blocking_views g n [] c = ([], c)"
| "blocking_views g n ((d, source) # ds) c =
     (case active_of g d c of (act, c) \<Rightarrow>
        let waiting = map_of act n \<noteq> None;
            frees = waiting \<and> length act = 1 \<and>
              (case map_of (dg_issues g) d of None \<Rightarrow> False | Some i \<Rightarrow> \<not> di_manual i \<and> \<not> di_draft i)
        in (case blocking_views g n ds c of (vs, c) \<Rightarrow>
              ((reference g (d, source), waiting, frees, length act) # vs, c)))"

definition attach :: "dep_graph \<Rightarrow> int \<Rightarrow> caches \<Rightarrow> dep_view \<times> caches" where
  "attach g n c =
     (let links = dep_targets (dg_links g) n in
      case active_of g n c of (act, c) \<Rightarrow>
      case link_views g links c of (lv, c) \<Rightarrow>
      case blocking_views g n (dependents g n) c of (bv, c) \<Rightarrow>
        (\<lparr>dv_context = List.map (\<lambda>l. reference g (l, Linked)) (sorted_list_of_set (set links)),
          dv_ready = (if dg_prs g then State_Ready else State_Closed),
          dv_blocked_by = List.map (reference g) act, dv_links = lv, dv_blocking = bv\<rparr>, c))"

fun attach_all :: "dep_graph \<Rightarrow> int list \<Rightarrow> caches \<Rightarrow> dep_view list" where
  "attach_all g [] c = []"
| "attach_all g (n # ns) c = (case attach g n c of (v, c) \<Rightarrow> v # attach_all g ns c)"

fun referenced :: "dep_graph \<Rightarrow> int list \<Rightarrow> int set \<Rightarrow> caches \<Rightarrow> int set \<times> caches" where
  "referenced g [] found c = (found, c)"
| "referenced g (n # ns) found c =
     (case active_of g n c of (act, c) \<Rightarrow>
        referenced g ns (found \<union> set (dep_targets (dg_links g) n) \<union> fst ` set act \<union> fst ` set (dependents g n)) c)"

text \<open>The issues whose pull requests are read, and the view of each issue of the response.\<close>

definition enrich :: "dep_graph \<Rightarrow> int list \<Rightarrow> int set \<times> dep_view list" where
  "enrich g ns =
     (case referenced g ns {} (Map.empty, Map.empty) of (read, c) \<Rightarrow> (read, attach_all g ns c))"

text \<open>What the views are, without caches.\<close>

definition link_view :: "dep_graph \<Rightarrow> int \<Rightarrow> dep_ref \<times> bool" where
  "link_view g b = (reference g (b, Linked), satisfied g b)"

definition blocking_view :: "dep_graph \<Rightarrow> int \<Rightarrow> int \<times> dep_source \<Rightarrow> dep_ref \<times> bool \<times> bool \<times> nat" where
  "blocking_view g n = (\<lambda>(d, source).
     let act = sourced g d; waiting = map_of act n \<noteq> None
     in (reference g (d, source), waiting, waiting \<and> length act = 1 \<and>
          (case map_of (dg_issues g) d of None \<Rightarrow> False | Some i \<Rightarrow> \<not> di_manual i \<and> \<not> di_draft i), length act))"

definition view_of :: "dep_graph \<Rightarrow> int \<Rightarrow> dep_view" where
  "view_of g n =
     (let links = dep_targets (dg_links g) n in
      \<lparr>dv_context = List.map (\<lambda>l. reference g (l, Linked)) (sorted_list_of_set (set links)),
       dv_ready = (if dg_prs g then State_Ready else State_Closed),
       dv_blocked_by = List.map (reference g) (sourced g n),
       dv_links = List.map (link_view g) links,
       dv_blocking = List.map (blocking_view g n) (dependents g n)\<rparr>)"

definition references_of :: "dep_graph \<Rightarrow> int \<Rightarrow> int set" where
  "references_of g n = set (dep_targets (dg_links g) n) \<union> fst ` set (sourced g n) \<union> fst ` set (dependents g n)"

lemma link_views_exact:
  "exact_caches g c \<Longrightarrow> link_views g bs c = (vs, c') \<Longrightarrow> vs = List.map (link_view g) bs \<and> exact_caches g c'"
proof (induction bs arbitrary: c vs c')
  case Nil
  then show ?case by simp
next
  case (Cons b bs)
  obtain m ac where c: "c = (m, ac)" by (rule prod.exhaust)
  obtain r m1 where u: "unfinished g ac b m = (r, m1)" by (rule prod.exhaust)
  obtain ws d where ws: "link_views g bs (m1, ac) = (ws, d)" by (rule prod.exhaust)
  have ok: "actives_ok g ac \<and> memo_ok g {} m" using exact_actives Cons.prems(1) c by blast
  from unfinished_correct [OF _ _ u] ok have r: "r = (\<not> satisfied g b)" "memo_ok g {} m1" by auto
  then have "exact_caches g (m1, ac)" using Cons.prems(1) by (simp add: c exact_caches_def)
  from Cons.IH [OF this ws] Cons.prems(2) r(1) show ?case by (auto simp: c u ws link_view_def)
qed

lemma blocking_views_exact:
  "exact_caches g c \<Longrightarrow> blocking_views g n ds c = (vs, c') \<Longrightarrow>
     vs = List.map (blocking_view g n) ds \<and> exact_caches g c'"
proof (induction ds arbitrary: c vs c')
  case Nil
  then show ?case by simp
next
  case (Cons x ds)
  obtain d source where x: "x = (d, source)" by (rule prod.exhaust)
  obtain act c1 where a: "active_of g d c = (act, c1)" by (rule prod.exhaust)
  obtain ws c2 where ws: "blocking_views g n ds c1 = (ws, c2)" by (rule prod.exhaust)
  from active_of_exact [OF Cons.prems(1) a] have "act = sourced g d" "exact_caches g c1" by auto
  with Cons.IH [OF _ ws] Cons.prems(2) show ?case by (auto simp: x a ws blocking_view_def Let_def)
qed

lemma attach_exact:
  assumes "exact_caches g c" and "attach g n c = (v, c')"
  shows "v = view_of g n \<and> exact_caches g c'"
proof -
  obtain act c1 where a: "active_of g n c = (act, c1)" by (rule prod.exhaust)
  obtain lv c2 where l: "link_views g (dep_targets (dg_links g) n) c1 = (lv, c2)" by (rule prod.exhaust)
  obtain bv c3 where b: "blocking_views g n (dependents g n) c2 = (bv, c3)" by (rule prod.exhaust)
  from active_of_exact [OF assms(1) a] have 1: "act = sourced g n" "exact_caches g c1" by auto
  from link_views_exact [OF 1(2) l] have 2: "lv = List.map (link_view g) (dep_targets (dg_links g) n)" "exact_caches g c2" by auto
  from blocking_views_exact [OF 2(2) b] 1 2 assms(2) show ?thesis
    by (auto simp: attach_def view_of_def Let_def a l b)
qed

lemma attach_all_exact: "exact_caches g c \<Longrightarrow> attach_all g ns c = List.map (view_of g) ns"
proof (induction ns arbitrary: c)
  case (Cons n ns)
  obtain v d where v: "attach g n c = (v, d)" by (rule prod.exhaust)
  from attach_exact [OF Cons.prems v] Cons.IH show ?case by (simp add: v)
qed simp

lemma referenced_exact:
  "exact_caches g c \<Longrightarrow> referenced g ns found c = (found', c') \<Longrightarrow>
     found' = found \<union> (\<Union>n \<in> set ns. references_of g n) \<and> exact_caches g c'"
proof (induction ns arbitrary: c found)
  case (Cons n ns)
  obtain act d where a: "active_of g n c = (act, d)" by (rule prod.exhaust)
  from active_of_exact [OF Cons.prems(1) a] have "act = sourced g n" "exact_caches g d" by auto
  moreover from this Cons.prems(2) have
    "referenced g ns (found \<union> references_of g n) d = (found', c')" by (simp add: a references_of_def Un_assoc)
  ultimately have "exact_caches g d" "referenced g ns (found \<union> references_of g n) d = (found', c')" by simp_all
  from Cons.IH [OF this] show ?case by auto
qed simp

lemma enrich_views: "enrich g ns = (\<Union>n \<in> set ns. references_of g n, List.map (view_of g) ns)"
proof -
  obtain read c where r: "referenced g ns {} (Map.empty, Map.empty) = (read, c)" by (rule prod.exhaust)
  from referenced_exact [OF exact_none r] show ?thesis by (simp add: enrich_def r attach_all_exact)
qed

section \<open>The part that a response needs\<close>

lemma pushed_dependents:
  "dependents_in (fold push_dependent ds m) n = dependents_in m n @ List.map snd (filter (\<lambda>(t, d). t = n) ds)"
  by (induction ds arbitrary: m) (auto simp: push_dependent_def dependents_in_def split: option.splits)

lemma dependents_loaded:
  "dependents (load_selected db numbers) n =
     (let sel = in_selection numbers; g = load_selected db numbers
      in List.map snd (filter (\<lambda>(t, d). t = n) (linked_pairs (filter (\<lambda>r. sel (ir_number r)) (ordered_rows db)))) @
         List.map (\<lambda>(p, c). (p, Subtask)) (filter (\<lambda>(p, c). c = n \<and> alive g p \<and> alive g c) (child_pairs db sel)))"
proof -
  let ?a = "\<lambda>n. alive (load_selected db numbers) n"
  have "List.map snd (filter (\<lambda>(t, d). t = n) (parent_pairs (map_of (dg_issues (load_selected db numbers))) ps)) =
      List.map (\<lambda>(p, c). (p, Subtask)) (filter (\<lambda>(p, c). c = n \<and> ?a p \<and> ?a c) ps)" for ps
    by (induction ps) (auto simp: parent_pairs_def alive_def split: option.splits)
  then show ?thesis
    by (simp add: dependents_def load_selected_def Let_def pushed_dependents) (simp add: dependents_in_def)
qed

lemma child_pairs_filter: "child_pairs db sel = filter (\<lambda>(p, c). sel p) (child_pairs db (\<lambda>_. True))"
  unfolding child_pairs_def filter_concat map_map
  by (intro arg_cong [where f = concat] map_cong refl) (auto intro!: filter_cong)

lemma concat_filter: "(\<And>x. x \<in> set xs \<Longrightarrow> \<not> P x \<Longrightarrow> f x = []) \<Longrightarrow>
    concat (List.map f (filter P xs)) = concat (List.map f xs)"
  by (induction xs) auto

definition links_to :: "int \<Rightarrow> issue_row \<Rightarrow> (int \<times> dep_source) list" where
  "links_to n r = (if ir_deleted_at r = None
     then List.map (\<lambda>_. (ir_number r, Linked)) (filter (\<lambda>t. t = n) (ir_blockers r)) else [])"

lemma linked_to: "List.map snd (filter (\<lambda>(t, d). t = n) (linked_pairs rows)) = concat (List.map (links_to n) rows)"
proof -
  have "List.map snd (filter (\<lambda>(t, d). t = n) (List.map (\<lambda>t. (t, m, Linked)) bs)) =
      List.map (\<lambda>_. (m, Linked)) (filter (\<lambda>t. t = n) bs)" for m :: int and bs
    by (induction bs) auto
  then show ?thesis
    by (induction rows) (simp_all add: linked_pairs_def links_to_def)
qed

lemma roots_selected: "set (roots db ns) \<subseteq> selection db ns"
  using query_closed [of "[]" "ref_sources db" "refs db" "roots db ns"]
  by (auto simp: selection_def reachable_def)

lemma linking_selected:
  assumes "n \<in> set ns" and "r \<in> set (db_issues db)" and "links_to n r \<noteq> []"
  shows "ir_number r \<in> selection db ns"
proof -
  have "ir_deleted_at r = None" "n \<in> set (ir_blockers r)"
    using assms(3) by (auto simp: links_to_def filter_empty_conv split: if_splits)
  with assms(1,2) have "ir_number r \<in> set (roots db ns)"
    by (auto simp: roots_def list_ex_iff)
  then show ?thesis using roots_selected by blast
qed

lemma parent_selected:
  assumes "n \<in> set ns" and "(p, n) \<in> set (child_pairs db (\<lambda>_. True))"
  shows "p \<in> selection db ns"
proof -
  have "(p, n) \<in> set (db_subtasks db)" using assms(2) by (auto simp: child_pairs_def)
  with assms(1) have "p \<in> set (roots db ns)" by (force simp: roots_def)
  then show ?thesis using roots_selected by blast
qed

lemma dependents_selected:
  assumes "numbers_ok db" and "n \<in> set ns"
  shows "dependents (load_for db ns) n = dependents (load db) n"
    and "fst ` set (dependents (load db) n) \<subseteq> selection db ns"
proof -
  let ?sel = "in_selection (Some (reachable db (roots db ns)))" and ?all = "child_pairs db (\<lambda>_. True)"
  have sel: "?sel m \<longleftrightarrow> m \<in> selection db ns" for m by (simp add: in_selection_def selection_def)
  have all: "in_selection None = (\<lambda>_. True)" by (simp add: in_selection_def fun_eq_iff)
  have "concat (List.map (links_to n) (filter (\<lambda>r. ?sel (ir_number r)) (ordered_rows db))) =
      concat (List.map (links_to n) (ordered_rows db))"
    using linking_selected [OF assms(2)] by (intro concat_filter) (auto simp: sel)
  moreover have "filter (\<lambda>(p, c). c = n \<and> alive (load_for db ns) p \<and> alive (load_for db ns) c) (child_pairs db ?sel) =
      filter (\<lambda>(p, c). c = n \<and> alive (load db) p \<and> alive (load db) c) ?all"
    unfolding child_pairs_filter [of db ?sel] filter_filter
    using parent_selected [OF assms(2), of _ db] agree_state(1) [OF selection_agrees [OF assms(1)], of _ ns]
      self_selected [OF assms(2)]
    by (intro filter_cong) (auto simp: sel)
  ultimately show "dependents (load_for db ns) n = dependents (load db) n"
    unfolding load_for_def load_def dependents_loaded
    by (simp add: Let_def linked_to all)
  show "fst ` set (dependents (load db) n) \<subseteq> selection db ns"
  proof
    fix d
    assume "d \<in> fst ` set (dependents (load db) n)"
    then obtain source where "(d, source) \<in> set (dependents (load db) n)" by auto
    moreover have "set (dependents (load db) n) \<subseteq>
        (\<Union>r \<in> set (db_issues db). set (links_to n r)) \<union> {(p, Subtask) | p. (p, n) \<in> set ?all}"
      unfolding load_def dependents_loaded by (auto simp: Let_def linked_to all)
    ultimately consider r where "r \<in> set (db_issues db)" "(d, source) \<in> set (links_to n r)" | "(d, n) \<in> set ?all"
      by blast
    then consider r where "r \<in> set (db_issues db)" "links_to n r \<noteq> []" "d = ir_number r" | "(d, n) \<in> set ?all"
    proof cases
      case 1
      then have "d = ir_number r" "links_to n r \<noteq> []" by (auto simp: links_to_def filter_empty_conv split: if_splits)
      with 1 that show ?thesis by blast
    qed (use that in blast)
    then show "d \<in> selection db ns"
      using linking_selected [OF assms(2)] parent_selected [OF assms(2)] by cases blast+
  qed
qed

lemma agree_reference: "agree g h s \<Longrightarrow> n \<in> s \<Longrightarrow> reference h (n, source) = reference g (n, source)"
  by (simp add: agree_def reference_def)

lemma agree_sourced: "agree g h s \<Longrightarrow> n \<in> s \<Longrightarrow> sourced h n = sourced g n"
  using agree_facts(5) by (simp add: agree_def sourced_def)

lemma sourced_selected:
  assumes "agree g h s" and "n \<in> s"
  shows "fst ` set (sourced g n) \<subseteq> s"
proof
  fix c
  assume "c \<in> fst ` set (sourced g n)"
  then have "descendant g n c \<or> c \<in> set (dep_targets (dg_links g) n)"
    unfolding sourced_keys waiting_on_def by blast
  then show "c \<in> s" using agree_descendant [OF assms, of c] agree_link [OF assms, of c] by blast
qed

lemma agree_view:
  assumes ag: "agree g h s" and n: "n \<in> s" and prs: "dg_prs h = dg_prs g"
    and ds: "dependents h n = dependents g n" "fst ` set (dependents g n) \<subseteq> s"
  shows "view_of h n = view_of g n \<and> references_of h n = references_of g n"
proof -
  have links: "dep_targets (dg_links h) n = dep_targets (dg_links g) n"
    using ag n by (simp add: agree_def)
  have in_s: "l \<in> s" if "l \<in> set (dep_targets (dg_links g) n)" for l
    using agree_link [OF ag n that] by simp
  have act: "sourced h n = sourced g n" by (rule agree_sourced [OF ag n])
  have "List.map (reference h) (sourced g n) = List.map (reference g) (sourced g n)"
    using sourced_selected [OF ag n] agree_reference [OF ag] by (intro map_cong refl) force
  moreover have "List.map (link_view h) (dep_targets (dg_links g) n) = List.map (link_view g) (dep_targets (dg_links g) n)"
    using in_s agree_reference [OF ag] agree_facts(1) [OF ag] by (intro map_cong refl) (simp add: link_view_def)
  moreover have "List.map (\<lambda>l. reference h (l, Linked)) (sorted_list_of_set (set (dep_targets (dg_links g) n))) =
      List.map (\<lambda>l. reference g (l, Linked)) (sorted_list_of_set (set (dep_targets (dg_links g) n)))"
    using in_s agree_reference [OF ag] by (intro map_cong refl) simp
  moreover have "blocking_view h n (d, source) = blocking_view g n (d, source)" if "d \<in> s" for d source
  proof -
    have "map_of (dg_issues h) d = map_of (dg_issues g) d" using ag that by (simp add: agree_def)
    with agree_sourced [OF ag that] agree_reference [OF ag that] show ?thesis by (simp add: blocking_view_def)
  qed
  then have "List.map (blocking_view h n) (dependents g n) = List.map (blocking_view g n) (dependents g n)"
    using ds(2) by (intro map_cong refl) force
  ultimately show ?thesis by (simp add: view_of_def references_of_def links act ds(1) prs Let_def)
qed

lemma enrich_selected:
  assumes ok: "numbers_ok db" and some: "m \<in> set ns" "issue_at db m \<noteq> None"
  shows "enrich (load_for db ns) ns = enrich (load db) ns"
proof -
  obtain r where r: "r \<in> set (db_issues db)" "ir_number r = m"
    using some(2) issue_at_iff [OF ok] by blast
  have "in_selection (Some (reachable db (roots db ns))) m"
    using self_selected [OF some(1), of db] by (simp add: in_selection_def selection_def)
  with r have "filter (\<lambda>r. in_selection (Some (reachable db (roots db ns))) (ir_number r)) (ordered_rows db) \<noteq> []"
    "ordered_rows db \<noteq> []" using set_ordered [of db] by (auto simp: filter_empty_conv simp del: set_ordered)
  then have prs: "dg_prs (load_for db ns) = dg_prs (load db)"
    by (simp add: load_for_def load_def load_selected_def Let_def in_selection_def)
  have "view_of (load_for db ns) n = view_of (load db) n \<and> references_of (load_for db ns) n = references_of (load db) n"
    if "n \<in> set ns" for n
    by (rule agree_view [OF selection_agrees [OF ok] self_selected [OF that] prs dependents_selected [OF ok that]])
  then show ?thesis by (simp add: enrich_views)
qed

section \<open>Properties\<close>

text \<open>
  C35. The part of the graph that is loaded for a request answers as the whole graph does. For
  every issue of the request: whether it is known and unfinished, whether it waits and for
  what, in the same order, which issues depend on it, and whether a dependency on it closes
  a cycle. And the views that a response shows of the dependencies of its issues, blockers
  and dependents with their states, are those of the whole graph.
\<close>

theorem selections_answer_as_the_whole:
  assumes "numbers_ok db" and "n \<in> set ns"
  shows "missing (load_for db ns) n = missing (load db) n \<and>
    fst (unfinished (load_for db ns) Map.empty n Map.empty) = fst (unfinished (load db) Map.empty n Map.empty) \<and>
    fst (has_active (load_for db ns) Map.empty n Map.empty) = fst (has_active (load db) Map.empty n Map.empty) \<and>
    fst (active_of (load_for db ns) n (Map.empty, Map.empty)) = fst (active_of (load db) n (Map.empty, Map.empty)) \<and>
    dependents (load_for db ns) n = dependents (load db) n \<and>
    validate_edge (load_for db ns) source n = validate_edge (load db) source n \<and>
    (issue_at db n \<noteq> None \<longrightarrow> enrich (load_for db ns) ns = enrich (load db) ns)"
proof -
  note sel = self_selected [OF assms(2), of db]
  have "validate_edge (load_for db ns) source n = validate_edge (load db) source n"
    by (rule agree_edge [OF selection_agrees [OF assms(1)] sel])
  then show ?thesis
    using selected_satisfied [OF assms(1) sel] selected_waits [OF assms(1) sel] selected_sourced [OF assms(1) sel]
      agree_missing [OF selection_agrees [OF assms(1)] sel] dependents_selected(1) [OF assms]
      enrich_selected [OF assms]
    by (simp add: plain_satisfied plain_waits active_of_sourced)
qed

definition plain_row :: "int \<Rightarrow> issue_state \<Rightarrow> int list \<Rightarrow> issue_row" where
  "plain_row n st links = \<lparr>ir_number = n, ir_title = ''Task'', ir_body = [], ir_state = st, ir_assignee = None, ir_created_by = ''human:boss'',
     ir_closed_by = None, ir_created_at = 0, ir_updated_at = 0, ir_closed_at = None, ir_deleted_at = None, ir_version = 1, ir_labels = [],
     ir_sort = n, ir_draft = False, ir_manual = False, ir_blockers = links\<rparr>"

definition plain_db :: "issue_row list \<Rightarrow> (int \<times> int) list \<Rightarrow> issue_db" where
  "plain_db rows subs = \<lparr>db_issues = rows, db_subtasks = subs, db_comments = [], db_events = [], db_runs = [],
     db_comment_resets = Map.empty, db_event_resets = Map.empty, db_models = Map.empty, db_prs = False\<rparr>"

text \<open>Issue 1 is ready and linked to 2, which is ready with an open subtask 3; 4 stands alone.\<close>

definition example_db :: issue_db where
  "example_db = plain_db [plain_row 1 State_Ready [2], plain_row 2 State_Ready [], plain_row 3 State_Open [], plain_row 4 State_Open []] [(2, 3)]"

lemma selections_answer_as_the_whole_witness:
  "fst (active_of (load_for example_db [1]) 1 (Map.empty, Map.empty)) = [(2, Linked)] \<and>
   map_of (dg_issues (load_for example_db [1])) 4 = None \<and> validate_edge (load_for example_db [1]) 3 1 \<noteq> Inr () \<and>
   dependents (load_for example_db [2]) 2 = [(1, Linked)] \<and> dependents (load_for example_db [3]) 3 = [(2, Subtask)] \<and>
   List.map (List.map (\<lambda>(r, v). (rf_number r, v)) \<circ> dv_blocking) (snd (enrich (load_for example_db [2]) [2])) =
     [[(1, True, True, 1)]]"
proof -
  have ok: "numbers_ok example_db" by (simp add: numbers_ok_def example_db_def plain_db_def plain_row_def)
  note same = selections_answer_as_the_whole [OF ok]
  have "fst (active_of (load_for example_db [1]) 1 (Map.empty, Map.empty)) = fst (active_of (load example_db) 1 (Map.empty, Map.empty))"
    "validate_edge (load_for example_db [1]) 3 1 = validate_edge (load example_db) 3 1" using same [of 1 "[1]" 3] by simp_all
  moreover have "dependents (load_for example_db [2]) 2 = dependents (load example_db) 2"
    "dependents (load_for example_db [3]) 3 = dependents (load example_db) 3"
    using same [of 2 "[2]"] same [of 3 "[3]"] by simp_all
  moreover have "enrich (load_for example_db [2]) [2] = enrich (load example_db) [2]"
    using same [of 2 "[2]"] by (simp add: issue_at_def example_db_def plain_db_def plain_row_def)
  moreover have "fst (active_of (load example_db) 1 (Map.empty, Map.empty)) = [(2, Linked)]"
    "map_of (dg_issues (load_for example_db [1])) 4 = None" "validate_edge (load example_db) 3 1 \<noteq> Inr ()"
    "dependents (load example_db) 2 = [(1, Linked)]" "dependents (load example_db) 3 = [(2, Subtask)]"
    "List.map (List.map (\<lambda>(r, v). (rf_number r, v)) \<circ> dv_blocking) (snd (enrich (load example_db) [2])) =
       [[(1, True, True, 1)]]" by code_simp+
  ultimately show ?thesis by simp
qed

end
