(* ===== verification/Issue_Writes.thy ===== *)
theory Issue_Writes
  imports Issue_Tables Text_Ops
begin

text \<open>
  The statements that change the tables of a project, with the triggers of the database
  (\<open>src/src/issues/dependency_notices.rs\<close>): rows of issues, events and comments. A trigger of \<open>dependency_notices.rs\<close> drops a write without an error.
\<close>

section \<open>What a request sees outside the tables\<close>

text \<open>
  The JSON parser of SQLite, and the row that \<open>last_insert_rowid\<close> names after a dropped insert.
\<close>

record issue_view =
  iv_parse :: "string \<Rightarrow> json option"
  iv_rowid :: "issue_db \<Rightarrow> int"

section \<open>Notices of dependencies\<close>

definition NOTICE_PREFIX :: string where
  "NOTICE_PREFIX = ''Dependency rework: upstream tasks ''"

definition NOTICE_SUFFIX :: string where
  "NOTICE_SUFFIX = '' need work. Read their latest changes and update/rebase the stacked PR before marking this task Ready. Running worker claims are preserved; new pickups wait for the dependencies.''"

text \<open>The list in a comment of exactly the generated form; any other text has none.\<close>

definition notice_numbers :: "issue_view \<Rightarrow> string \<Rightarrow> json list" where
  "notice_numbers v text =
     (case strip_prefix NOTICE_PREFIX text of
        None \<Rightarrow> []
      | Some rest \<Rightarrow>
          (case strip_suffix NOTICE_SUFFIX rest of
             None \<Rightarrow> []
           | Some list \<Rightarrow> (case iv_parse v list of Some (JArray xs) \<Rightarrow> xs | _ \<Rightarrow> [])))"

text \<open>\<open>{:?}\<close> of a vector of numbers.\<close>

fun show_rest :: "int list \<Rightarrow> string" where
  "show_rest [] = '']''"
| "show_rest (n # ns) = '', '' @ show_int n @ show_rest ns"

definition show_numbers :: "int list \<Rightarrow> string" where
  "show_numbers ns = (case ns of [] \<Rightarrow> ''[]'' | n # ns \<Rightarrow> ''['' @ show_int n @ show_rest ns)"

definition notice_body :: "int list \<Rightarrow> string" where
  "notice_body ns = NOTICE_PREFIX @ show_numbers ns @ NOTICE_SUFFIX"

text \<open>The value of an element in SQL, where a boolean is a number.\<close>

definition sql_value :: "json \<Rightarrow> json" where
  "sql_value x = (case x of JBool b \<Rightarrow> JInt (if b then 1 else 0) | _ \<Rightarrow> x)"

definition first_entry :: "json \<Rightarrow> json" where
  "first_entry x = (case x of JArray (y # ys) \<Rightarrow> y | _ \<Rightarrow> JNull)"

definition sql_list :: "json \<Rightarrow> json list" where
  "sql_list x = (case x of JArray xs \<Rightarrow> xs | JNull \<Rightarrow> [] | _ \<Rightarrow> [x])"

definition row_alive :: "issue_db \<Rightarrow> int \<Rightarrow> bool" where
  "row_alive db n \<longleftrightarrow> (case issue_at db n of None \<Rightarrow> False | Some r \<Rightarrow> ir_deleted_at r = None)"

definition alive_children :: "issue_db \<Rightarrow> int \<Rightarrow> int list" where
  "alive_children db n = filter (row_alive db) (List.map snd (filter (\<lambda>(p, c). p = n) (db_subtasks db)))"

definition alive_descendants :: "issue_db \<Rightarrow> int \<Rightarrow> int list" where
  "alive_descendants db n = query_rows (alive_children db) (List.map fst (db_subtasks db)) (alive_children db n) []"

text \<open>A list that names something which the issue does not depend on.\<close>

definition obsolete :: "issue_db \<Rightarrow> int \<Rightarrow> json list \<Rightarrow> bool" where
  "obsolete db n xs \<longleftrightarrow>
     (case issue_at db n of
        None \<Rightarrow> False
      | Some r \<Rightarrow> list_ex (\<lambda>x. sql_value x \<notin> JInt ` set (ir_blockers r) \<and> sql_value x \<notin> JInt ` set (alive_descendants db n)) xs)"

definition notice_set :: "json list \<Rightarrow> json set" where
  "notice_set xs = set (List.map sql_value xs)"

definition latest_notice :: "issue_view \<Rightarrow> issue_db \<Rightarrow> int \<Rightarrow> comment_row option" where
  "latest_notice v db n = find (\<lambda>c. cm_issue c = n \<and> notice_numbers v (cm_body c) \<noteq> []) (rev (db_comments db))"

definition at_least_zero :: "int option \<Rightarrow> int" where
  "at_least_zero x = (case x of None \<Rightarrow> 0 | Some i \<Rightarrow> i)"

definition duplicate_comment :: "issue_view \<Rightarrow> issue_db \<Rightarrow> int \<Rightarrow> string \<Rightarrow> bool" where
  "duplicate_comment v db n body \<longleftrightarrow>
     (case latest_notice v db n of
        None \<Rightarrow> False
      | Some c \<Rightarrow> at_least_zero (db_comment_resets db n) < cm_id c \<and> notice_numbers v body \<noteq> [] \<and>
          notice_set (notice_numbers v body) = notice_set (notice_numbers v (cm_body c)))"

definition latest_rework :: "issue_db \<Rightarrow> int \<Rightarrow> event_row option" where
  "latest_rework db n = find (\<lambda>e. ev_issue e = n \<and> ev_action e = ''dependency_rework'') (rev (db_events db))"

definition duplicate_rework :: "issue_db \<Rightarrow> int \<Rightarrow> json list \<Rightarrow> bool" where
  "duplicate_rework db n xs \<longleftrightarrow>
     (case latest_rework db n of
        None \<Rightarrow> False
      | Some e \<Rightarrow> at_least_zero (db_event_resets db n) < ev_id e \<and> xs \<noteq> [] \<and>
          notice_set xs = notice_set (List.map first_entry (sql_list (json_index (ev_data e) ''dependencies''))))"

text \<open>A \<open>commented\<close> event that is not of a comment just written, or is the second of its comment.\<close>

definition invalid_commented :: "issue_db \<Rightarrow> int \<Rightarrow> string \<Rightarrow> int \<Rightarrow> json \<Rightarrow> bool" where
  "invalid_commented db n actor now data \<longleftrightarrow>
     \<not> list_ex (\<lambda>c. JInt (cm_id c) = json_index data ''comment_id'' \<and> cm_issue c = n \<and> cm_author c = actor \<and> cm_at c = now \<and>
          JString (cm_body c) = json_index data ''body'') (db_comments db) \<or>
     list_ex (\<lambda>e. ev_issue e = n \<and> ev_action e = ''commented'' \<and> json_index data ''comment_id'' \<noteq> JNull \<and>
          json_index (ev_data e) ''comment_id'' = json_index data ''comment_id'') (db_events db)"

definition event_dropped :: "issue_view \<Rightarrow> issue_db \<Rightarrow> int \<Rightarrow> string \<Rightarrow> string \<Rightarrow> int \<Rightarrow> json \<Rightarrow> bool" where
  "event_dropped v db n actor action now data =
     (if action = ''commented'' then
        (let xs = (case json_index data ''body'' of JString s \<Rightarrow> notice_numbers v s | _ \<Rightarrow> []) in
         obsolete db n xs \<or> duplicate_rework db n xs \<or> (xs \<noteq> [] \<and> invalid_commented db n actor now data))
      else if action = ''dependency_rework'' then
        (let xs = List.map first_entry (sql_list (json_index data ''dependencies'')) in obsolete db n xs \<or> duplicate_rework db n xs)
      else if action = ''blocked'' then obsolete db n (sql_list (json_index data ''blocked_by''))
      else False)"

section \<open>Events and comments\<close>

definition next_event :: "issue_db \<Rightarrow> int" where
  "next_event db = 1 + fold (\<lambda>e m. max (ev_id e) m) (db_events db) 0"

definition next_comment :: "issue_db \<Rightarrow> int" where
  "next_comment db = 1 + fold (\<lambda>c m. max (cm_id c) m) (db_comments db) 0"

text \<open>An event of an agent also names the model it runs.\<close>

definition agent_id :: "string \<Rightarrow> bool" where
  "agent_id s \<longleftrightarrow> begins_with ''codex:'' s \<or> begins_with ''claude:'' s \<or> begins_with ''worker:'' s \<or> begins_with ''agent:'' s"

definition with_model :: "issue_db \<Rightarrow> string \<Rightarrow> json \<Rightarrow> json" where
  "with_model db actor data =
     (case (if agent_id actor then db_models db actor else None) of
        None \<Rightarrow> data
      | Some m \<Rightarrow> json_put data ''actor_model'' (JString m))"

definition log_event :: "issue_view \<Rightarrow> int \<Rightarrow> string \<Rightarrow> string \<Rightarrow> int \<Rightarrow> json \<Rightarrow> issue_db \<Rightarrow> issue_db" where
  "log_event v n actor action now data db =
     (let data = with_model db actor data in
      if event_dropped v db n actor action now data then db
      else db\<lparr>db_events := db_events db @ [\<lparr>ev_id = next_event db, ev_issue = n, ev_actor = actor, ev_action = action, ev_at = now, ev_data = data\<rparr>]\<rparr>)"

definition insert_comment :: "issue_view \<Rightarrow> int \<Rightarrow> string \<Rightarrow> string \<Rightarrow> int \<Rightarrow> issue_db \<Rightarrow> int option \<times> issue_db" where
  "insert_comment v n author body now db =
     (if obsolete db n (notice_numbers v body) \<or> duplicate_comment v db n body then (None, db)
      else (Some (next_comment db),
        db\<lparr>db_comments := db_comments db @ [\<lparr>cm_id = next_comment db, cm_issue = n, cm_author = author, cm_body = body, cm_at = now\<rparr>]\<rparr>))"

definition add_comment :: "issue_view \<Rightarrow> int \<Rightarrow> string \<Rightarrow> string \<Rightarrow> int \<Rightarrow> issue_db \<Rightarrow> int \<times> issue_db" where
  "add_comment v n author body now db =
     (case insert_comment v n author body now db of
        (made, db') \<Rightarrow>
          let i = (case made of Some i \<Rightarrow> i | None \<Rightarrow> iv_rowid v db) in
          (i, log_event v n author ''commented'' now (JObject [(''body'', JString body), (''comment_id'', JInt i)]) db'))"

section \<open>Rows of issues\<close>

definition put_issue :: "issue_row \<Rightarrow> issue_db \<Rightarrow> issue_db" where
  "put_issue r db = db\<lparr>db_issues := List.map (\<lambda>x. if ir_number x = ir_number r then r else x) (db_issues db)\<rparr>"

text \<open>
  The recursive query of the trigger on states: dependencies, marked when they are subtasks,
  below which it goes through every issue that is not deleted.
\<close>

definition guard_step :: "issue_db \<Rightarrow> int \<times> bool \<Rightarrow> (int \<times> bool) list" where
  "guard_step db = (\<lambda>(n, down).
     case issue_at db n of
       None \<Rightarrow> []
     | Some r \<Rightarrow>
         if ir_deleted_at r \<noteq> None then []
         else (if down \<or> ir_state r = State_Ready then List.map (\<lambda>c. (c, True)) (alive_children db n) else []) @
           (if ir_state r = State_Ready then List.map (\<lambda>b. (b, False)) (ir_blockers r) else []))"

definition guard_rows :: "issue_db \<Rightarrow> issue_row \<Rightarrow> (int \<times> bool) list" where
  "guard_rows db r =
     query_rows (guard_step db) (concat (List.map (\<lambda>x. [(ir_number x, True), (ir_number x, False)]) (db_issues db)))
       (List.map (\<lambda>b. (b, False)) (ir_blockers r) @ List.map (\<lambda>c. (c, True)) (alive_children db (ir_number r))) []"

definition pending_row :: "issue_db \<Rightarrow> int \<Rightarrow> bool" where
  "pending_row db n \<longleftrightarrow>
     (case issue_at db n of
        None \<Rightarrow> True
      | Some r \<Rightarrow> ir_deleted_at r = None \<and> ir_state r \<noteq> State_Closed \<and> ir_state r \<noteq> State_Ready)"

definition guard_drops :: "issue_db \<Rightarrow> issue_row \<Rightarrow> issue_row \<Rightarrow> bool" where
  "guard_drops db old new \<longleftrightarrow> ir_state new = State_Blocked \<and> ir_state old \<noteq> State_Blocked \<and> \<not> ir_manual new \<and>
     \<not> list_ex (\<lambda>(n, _). pending_row db n) (guard_rows db new)"

text \<open>An update of a row that sets its state.\<close>

definition update_state :: "(issue_row \<Rightarrow> issue_row) \<Rightarrow> int \<Rightarrow> issue_db \<Rightarrow> issue_db" where
  "update_state f n db =
     (case issue_at db n of
        None \<Rightarrow> db
      | Some r \<Rightarrow> if guard_drops db r (f r) then db else put_issue (f r) db)"

end
