(* ===== verification/Issue_Guard.thy ===== *)
theory Issue_Guard
  imports Issue_Writes
begin

text \<open>
  The trigger that drops automatic transitions (\<open>src/src/issues/dependency_notices.rs\<close>) against
  the graph of \<open>blockers.rs\<close>: two computations of the same question, one in SQL and one in
  Rust. They agree unless dependencies form a cycle.
\<close>

section \<open>The tables as a graph\<close>

lemma alive_load: "numbers_ok db \<Longrightarrow> alive (load db) n \<longleftrightarrow> row_alive db n"
  by (simp add: alive_def row_alive_def load_issues dep_of_def split: option.splits)

lemma state_load:
  "numbers_ok db \<Longrightarrow> in_state (load db) st n \<longleftrightarrow> (\<exists>r. issue_at db n = Some r \<and> ir_deleted_at r = None \<and> ir_state r = st)"
  by (auto simp: in_state_def load_issues dep_of_def split: option.splits)

lemma deleted_load: "numbers_ok db \<Longrightarrow> deleted_in (load db) n \<longleftrightarrow> (\<exists>r. issue_at db n = Some r \<and> ir_deleted_at r \<noteq> None)"
  by (auto simp: deleted_in_def load_issues dep_of_def split: option.splits)

lemma child_load:
  "numbers_ok db \<Longrightarrow> c \<in> set (alive_children db n) \<longleftrightarrow> c \<in> set (dep_targets (dg_children (load db)) n) \<and> alive (load db) c"
  using issue_at_iff [of db c]
  by (fastforce simp: alive_children_def load_children children_iff alive_load row_alive_def image_iff split: option.splits)

lemma pending_load:
  "numbers_ok db \<Longrightarrow> pending_row db n \<longleftrightarrow>
   \<not> deleted_in (load db) n \<and> \<not> in_state (load db) State_Closed n \<and> \<not> in_state (load db) State_Ready n"
  by (auto simp: pending_row_def deleted_load state_load split: option.splits)

lemma pending_unsatisfied: "numbers_ok db \<Longrightarrow> pending_row db n \<Longrightarrow> \<not> satisfied (load db) n"
  by (auto simp: pending_load elim: satisfied.cases)

lemma descendant_trans: "descendant g c d \<Longrightarrow> descendant g n c \<Longrightarrow> descendant g n d"
  by (induction rule: descendant.induct) (auto intro: descendant.below)

section \<open>The rows of the trigger\<close>

lemma guard_start:
  "set (List.map (\<lambda>b. (b, False)) (ir_blockers r) @ List.map (\<lambda>c. (c, True)) (alive_children db (ir_number r))) \<subseteq> set (guard_rows db r)"
proof -
  have "set todo \<subseteq> set (query_rows step src todo [])" for step src and todo :: "(int \<times> bool) list"
    using query_closed [of "[]" src step todo] by simp
  then show ?thesis unfolding guard_rows_def .
qed

lemma guard_closed:
  assumes "x \<in> set (guard_rows db r)"
  shows "set (guard_step db x) \<subseteq> set (guard_rows db r)"
proof (cases "issue_at db (fst x)")
  case None
  then have "guard_step db x = []" by (cases x) (simp add: guard_step_def)
  then show ?thesis by simp
next
  case (Some i)
  then have "i \<in> set (db_issues db) \<and> ir_number i = fst x" unfolding issue_at_def by (rule find_member)
  then have "fst x \<in> ir_number ` set (db_issues db)" by force
  then have "x \<in> set (concat (List.map (\<lambda>i. [(ir_number i, True), (ir_number i, False)]) (db_issues db)))"
    by (cases x) auto
  then show ?thesis
    using assms query_closed [of "[]" "concat (List.map (\<lambda>i. [(ir_number i, True), (ir_number i, False)]) (db_issues db))" "guard_step db"]
    unfolding guard_rows_def by (simp del: set_concat set_map)
qed

lemma guard_subtask:
  assumes "numbers_ok db" and "subtask_of (load db) n c"
    and "\<And>c. c \<in> set (alive_children db n) \<Longrightarrow> (c, True) \<in> set (guard_rows db r)"
  shows "(c, True) \<in> set (guard_rows db r)"
  using assms(2)
proof induction
  case (child c)
  then show ?case using assms(3) child_load [OF assms(1)] by blast
next
  case (below c d)
  then obtain i where "issue_at db c = Some i" "ir_deleted_at i = None" by (auto simp: state_load [OF assms(1)])
  moreover have "d \<in> set (alive_children db c)" using below child_load [OF assms(1)] by blast
  ultimately have "(d, True) \<in> set (guard_step db (c, True))" by (simp add: guard_step_def)
  with guard_closed [OF below.IH] show ?case by blast
qed

lemma guard_sound:
  assumes "numbers_ok db" and "issue_at db n = Some r0" and "ir_number r = n" and "ir_blockers r = ir_blockers r0"
  shows "\<forall>x \<in> set (guard_rows db r).
    (\<not> satisfied (load db) (fst x) \<longrightarrow> waits (load db) n) \<and>
    (snd x \<longrightarrow> (\<forall>c. descendant (load db) (fst x) c \<longrightarrow> \<not> satisfied (load db) c \<longrightarrow> waits (load db) n))"
  unfolding guard_rows_def
proof (rule query_sound, goal_cases)
  case 1
  have link: "depends (load db) n b" if "b \<in> set (ir_blockers r)" for b
    using that assms by (simp add: depends_def load_links)
  have child: "descendant (load db) n c" if "c \<in> set (alive_children db n)" for c
    using that child_load [OF assms(1)] by (auto intro: descendant.child)
  have down: "waits (load db) n" if "descendant (load db) n c" "descendant (load db) c d" "\<not> satisfied (load db) d" for c d
    using descendant_waits [OF descendant_trans [OF that(2,1)] that(3)] .
  have stuck: "waits (load db) n" if "b \<in> set (ir_blockers r)" "\<not> satisfied (load db) b" for b
    using link that unfolding waits_def by blast
  have subtask: "(\<not> satisfied (load db) c \<longrightarrow> waits (load db) n) \<and> (\<forall>d. descendant (load db) c d \<longrightarrow> \<not> satisfied (load db) d \<longrightarrow> waits (load db) n)"
    if "c \<in> set (alive_children db n)" for c
    using child [OF that] down descendant_waits by blast
  show ?case using stuck subtask assms(3) by auto
next
  case (2 x y)
  obtain d down where x: "x = (d, down)" by fastforce
  have "\<exists>i. issue_at db d = Some i \<and> ir_deleted_at i = None"
    using 2(3) by (cases "issue_at db d") (auto simp: x guard_step_def split: if_splits)
  then obtain i where i: "issue_at db d = Some i" "ir_deleted_at i = None" by blast
  have waiting: "waits (load db) n" if "ir_state i = State_Ready" "waits (load db) d"
    using 2(1) that satisfied_ready [of "load db" d] i by (auto simp: x state_load [OF assms(1)])
  have child: "descendant (load db) d c" if "c \<in> set (alive_children db d)" for c
    using that child_load [OF assms(1)] by (auto intro: descendant.child)
  have below: "waits (load db) n" if "down \<or> ir_state i = State_Ready" "descendant (load db) d c" "\<not> satisfied (load db) c" for c
    using that 2(1) waiting descendant_waits [OF that(2,3)] by (auto simp: x)
  have link: "waits (load db) d" if "b \<in> set (ir_blockers i)" "\<not> satisfied (load db) b" for b
    using that i assms(1) by (auto simp: waits_def depends_def load_links)
  show ?case
  proof (cases "snd y")
    case True
    then have y: "fst y \<in> set (alive_children db d)" "down \<or> ir_state i = State_Ready"
      using 2(3) i by (auto simp: x guard_step_def split: if_splits)
    then show ?thesis using below child descendant_trans by blast
  next
    case False
    then have "fst y \<in> set (ir_blockers i)" "ir_state i = State_Ready"
      using 2(3) i by (auto simp: x guard_step_def split: if_splits)
    then show ?thesis using link waiting False by blast
  qed
qed

definition acyclic_graph :: "dep_graph \<Rightarrow> bool" where
  "acyclic_graph g \<longleftrightarrow> (\<forall>n. \<forall>t \<in> set (nexts g n). \<not> leads g t n)"

lemma acyclic_arcs: "acyclic_graph g \<longleftrightarrow> acyclic (arcs g)"
  by (auto simp: acyclic_graph_def acyclic_def leads_def arcs_def dest: tranclD intro: rtrancl_into_trancl2)

lemma finite_arcs: "finite (arcs g)"
proof (rule finite_subset)
  show "arcs g \<subseteq> set (edge_list g) \<union> (\<Union>n \<in> sources g. Pair n ` set (nexts g n))"
    using no_nexts by (fastforce simp: arcs_def)
  show "finite (set (edge_list g) \<union> (\<Union>n \<in> sources g. Pair n ` set (nexts g n)))" by (simp add: sources_def)
qed

lemma depends_arcs: "depends g n c \<Longrightarrow> (n, c) \<in> (arcs g)\<^sup>+"
proof -
  have "subtask_of g n c \<Longrightarrow> (n, c) \<in> (arcs g)\<^sup>+"
  proof (induction rule: subtask_of.induct)
    case (child c)
    then show ?case by (auto simp: arcs_def nexts_def)
  next
    case (below c d)
    then have "(c, d) \<in> arcs g" by (auto simp: arcs_def nexts_def)
    with below.IH show ?case by (rule trancl_into_trancl)
  qed
  then show "depends g n c \<Longrightarrow> (n, c) \<in> (arcs g)\<^sup>+" by (auto simp: depends_def arcs_def nexts_def)
qed

lemma guard_complete:
  assumes "numbers_ok db" and "acyclic_graph (load db)" and none: "\<forall>x \<in> set (guard_rows db r). \<not> pending_row db (fst x)"
  shows "(d, down) \<in> set (guard_rows db r) \<Longrightarrow> satisfied (load db) d"
proof -
  have "wf (((arcs (load db))\<^sup>+)\<inverse>)"
    using finite_acyclic_wf_converse [OF finite_arcs] assms(2) wf_trancl unfolding acyclic_arcs
    by (metis trancl_converse)
  then show "(d, down) \<in> set (guard_rows db r) \<Longrightarrow> satisfied (load db) d"
  proof (induction d arbitrary: down rule: wf_induct_rule)
    case (less d)
    from none less.prems have "\<not> pending_row db d" by fastforce
    then consider "deleted_in (load db) d" | "in_state (load db) State_Closed d" | "in_state (load db) State_Ready d"
      by (auto simp: pending_load [OF assms(1)])
    then show ?case
    proof cases
      case 3
      then obtain i where i: "issue_at db d = Some i" "ir_deleted_at i = None" "ir_state i = State_Ready"
        by (auto simp: state_load [OF assms(1)])
      have "satisfied (load db) c" if c: "depends (load db) d c" for c
      proof -
        have "\<exists>down. (c, down) \<in> set (guard_rows db r)"
        proof (cases "subtask_of (load db) d c")
          case True
          have "(c, True) \<in> set (guard_rows db r)" if "c \<in> set (alive_children db d)" for c
            using guard_closed [OF less.prems] that i by (auto simp: guard_step_def)
          then show ?thesis using guard_subtask [OF assms(1) True] by blast
        next
          case False
          then have "c \<in> set (ir_blockers i)" using c i assms(1) by (simp add: depends_def load_links)
          then show ?thesis using guard_closed [OF less.prems] i by (auto simp: guard_step_def)
        qed
        with less.IH depends_arcs [OF c] show ?thesis by blast
      qed
      with 3 show ?thesis by (blast intro: satisfied.ready)
    qed (auto intro: satisfied.intros)
  qed
qed

lemma guard_agrees_with_graph':
  assumes "numbers_ok db" and "issue_at db n = Some r"
  shows "list_ex (\<lambda>(d, _). pending_row db d) (guard_rows db r) \<Longrightarrow> waits (load db) n"
    and "acyclic_graph (load db) \<Longrightarrow> waits (load db) n \<Longrightarrow> list_ex (\<lambda>(d, _). pending_row db d) (guard_rows db r)"
proof -
  have num: "ir_number r = n" using assms issue_at_iff by blast
  let ?found = "list_ex (\<lambda>(d, _). pending_row db d) (guard_rows db r)"
  have "waits (load db) n" if ?found
    using that guard_sound [OF assms num refl] pending_unsatisfied [OF assms(1)] by (fastforce simp: list_ex_iff)
  moreover have ?found if acyclic: "acyclic_graph (load db)" and waits: "waits (load db) n"
  proof (rule ccontr)
    assume "\<not> ?found"
    then have none: "\<forall>x \<in> set (guard_rows db r). \<not> pending_row db (fst x)" by (auto simp: list_ex_iff)
    obtain c where c: "depends (load db) n c" "\<not> satisfied (load db) c" using waits by (auto simp: waits_def)
    have start: "(c, True) \<in> set (guard_rows db r)" if "c \<in> set (alive_children db n)" for c
      using guard_start [of r db] that num by auto
    have "\<exists>down. (c, down) \<in> set (guard_rows db r)"
    proof (cases "subtask_of (load db) n c")
      case True
      then show ?thesis using guard_subtask [OF assms(1) True start] by blast
    next
      case False
      then have "c \<in> set (ir_blockers r)" using c assms by (simp add: depends_def load_links)
      then show ?thesis using guard_start [of r db] by auto
    qed
    with guard_complete [OF assms(1) acyclic none] c(2) show False by blast
  qed
  ultimately show "list_ex (\<lambda>(d, _). pending_row db d) (guard_rows db r) \<Longrightarrow> waits (load db) n"
    "acyclic_graph (load db) \<Longrightarrow> waits (load db) n \<Longrightarrow> list_ex (\<lambda>(d, _). pending_row db d) (guard_rows db r)" by blast+
qed

section \<open>Properties\<close>

text \<open>
  C26. The trigger and the graph agree: without cycles of dependencies the trigger finds an
  unfinished prerequisite of an issue exactly when the graph says that the issue waits, so
  it never drops a transition that the graph calls for; and in any data, what the trigger
  finds the graph finds.
\<close>

theorem guard_agrees_with_graph:
  assumes "numbers_ok db" and "issue_at db n = Some r"
  shows "(list_ex (\<lambda>(d, _). pending_row db d) (guard_rows db r) \<longrightarrow> fst (has_active (load db) Map.empty n Map.empty)) \<and>
    (acyclic_graph (load db) \<longrightarrow> fst (has_active (load db) Map.empty n Map.empty) \<longrightarrow>
      list_ex (\<lambda>(d, _). pending_row db d) (guard_rows db r))"
  using guard_agrees_with_graph' [OF assms] by (auto simp: plain_waits)

lemma guard_agrees_with_graph_witness:
  "fst (has_active (load example_db) Map.empty 1 Map.empty) \<and>
   list_ex (\<lambda>(d, _). pending_row example_db d) (guard_rows example_db (plain_row 1 State_Ready [2]))"
proof -
  have ok: "numbers_ok example_db" by (simp add: numbers_ok_def example_db_def plain_db_def plain_row_def)
  have "issue_at example_db 1 = Some (plain_row 1 State_Ready [2])" by (simp add: issue_at_def example_db_def plain_db_def plain_row_def)
  note agrees = guard_agrees_with_graph [OF ok this]
  have "list_ex (\<lambda>(d, _). pending_row example_db d) (guard_rows example_db (plain_row 1 State_Ready [2]))" by code_simp
  with agrees show ?thesis by blast
qed

text \<open>Two ready issues that block each other: the graph makes both wait, the trigger finds nothing.\<close>

definition ready_cycle :: issue_db where
  "ready_cycle = plain_db [plain_row 1 State_Ready [2], plain_row 2 State_Ready [1]] []"

lemma guard_disagrees_on_cycles:
  "fst (has_active (load ready_cycle) Map.empty 1 Map.empty) \<and>
   guard_drops ready_cycle (plain_row 1 State_Ready [2]) (plain_row 1 State_Blocked [2])"
  by code_simp

text \<open>An open issue that is blocked by a finished one: the whole update of its row is dropped.\<close>

definition finished_link :: issue_db where
  "finished_link = plain_db [plain_row 1 State_Open [], plain_row 2 State_Closed []] []"

lemma finished_links_are_lost:
  "validate_links finished_link 1 [2] = Inr () \<and>
   update_state (\<lambda>r. r\<lparr>ir_state := State_Blocked, ir_blockers := [2], ir_version := 2\<rparr>) 1 finished_link = finished_link"
proof -
  have "validate_links finished_link 1 [2] = Inr ()" by code_simp
  moreover have "issue_at finished_link 1 = Some (plain_row 1 State_Open [])"
    by (simp add: issue_at_def finished_link_def plain_db_def plain_row_def)
  moreover have "guard_drops finished_link (plain_row 1 State_Open []) ((plain_row 1 State_Open [])\<lparr>ir_state := State_Blocked, ir_blockers := [2], ir_version := 2\<rparr>)"
    by code_simp
  ultimately show ?thesis by (simp add: update_state_def)
qed

end
