(* ===== verification/Issue_Reconcile.thy ===== *)
theory Issue_Reconcile
  imports Issue_Guard
begin

text \<open>
  Reconciliation (\<open>src/src/issues/blockers.rs\<close>): after a change every issue that is neither
  closed nor deleted is set to blocked, open or ready by its dependencies, with notices to the
  issues whose work is affected. The lemmas follow the loop over the graph that was loaded
  before it, while the tables change under it.
\<close>

section \<open>Transitions\<close>

definition expected_state :: "dep_issue \<Rightarrow> bool \<Rightarrow> issue_state" where
  "expected_state i waiting =
     (if di_manual i \<or> (\<not> di_draft i \<and> waiting) then State_Blocked
      else if di_state i = State_Ready then State_Ready else State_Open)"

definition has_claim :: "dep_issue \<Rightarrow> bool" where
  "has_claim i \<longleftrightarrow> di_assignee i \<noteq> None \<or> di_reserved i"

definition jnumbers :: "int list \<Rightarrow> json" where
  "jnumbers ns = JArray (List.map JInt ns)"

definition jversion :: "dep_graph \<Rightarrow> int \<Rightarrow> json" where
  "jversion g n = JArray [JInt n, case map_of (dg_issues g) n of None \<Rightarrow> JNull | Some i \<Rightarrow> JInt (di_version i)]"

text \<open>A notice, with its two events; none when the trigger drops the comment.\<close>

definition post_notice :: "issue_view \<Rightarrow> dep_graph \<Rightarrow> int \<Rightarrow> string \<Rightarrow> int \<Rightarrow> int list \<Rightarrow> issue_db \<Rightarrow> issue_db option" where
  "post_notice v g n author now ns db =
     (case insert_comment v n author (notice_body ns) now db of
        (None, _) \<Rightarrow> None
      | (Some i, db) \<Rightarrow>
          Some (log_event v n author ''dependency_rework'' now (JObject [(''dependencies'', JArray (List.map (jversion g) ns))])
            (log_event v n author ''commented'' now (JObject [(''body'', JString (notice_body ns)), (''comment_id'', JInt i)]) db)))"

definition set_state :: "issue_state \<Rightarrow> int \<Rightarrow> issue_row \<Rightarrow> issue_row" where
  "set_state st now r = r\<lparr>ir_state := st, ir_assignee := None, ir_version := ir_version r + 1, ir_updated_at := now\<rparr>"

definition change_state ::
  "issue_view \<Rightarrow> string option \<Rightarrow> int \<Rightarrow> bool \<Rightarrow> bool \<Rightarrow> dep_graph \<Rightarrow> int set \<Rightarrow> int \<Rightarrow> dep_issue \<Rightarrow> issue_state \<Rightarrow> int list \<Rightarrow> issue_db \<Rightarrow> issue_db" where
  "change_state v actor now upgrading rework g notified n i st ns db =
     (let author = (case actor of None \<Rightarrow> di_creator i | Some a \<Rightarrow> a);
          notice = (rework \<or> dg_prs g) \<and> st = State_Blocked \<and> ns \<noteq> [] \<and> (di_state i = State_Ready \<or> has_claim i) \<and> n \<notin> notified in
      case (if notice then post_notice v g n author now ns db else Some db) of
        None \<Rightarrow> db
      | Some db \<Rightarrow>
          if di_state i \<noteq> State_Ready \<and> has_claim i \<and> (upgrading \<or> rework \<or> dg_prs g) then db
          else log_event v n author (if st = State_Blocked then ''blocked'' else ''reopened'') now (JObject [(''blocked_by'', jnumbers ns)])
            (update_state (set_state st now) n db))"

definition transition ::
  "issue_view \<Rightarrow> string option \<Rightarrow> int \<Rightarrow> bool \<Rightarrow> bool \<Rightarrow> dep_graph \<Rightarrow> int set \<Rightarrow> int \<times> dep_issue \<Rightarrow> caches \<times> issue_db \<Rightarrow> caches \<times> issue_db" where
  "transition v actor now upgrading rework g notified = (\<lambda>(n, i) ((m, ac), db).
     if di_deleted i \<or> di_state i = State_Closed then ((m, ac), db)
     else case has_active g ac n m of (waiting, m) \<Rightarrow>
       let st = expected_state i waiting in
       if di_state i = st then ((m, ac), db)
       else case active_of g n (m, ac) of
         (blockers, caches) \<Rightarrow> (caches, change_state v actor now upgrading rework g notified n i st (List.map fst blockers) db))"

section \<open>Notices that still hold\<close>

definition fresh_notices :: "issue_view \<Rightarrow> dep_graph \<Rightarrow> issue_db \<Rightarrow> (int \<times> int \<times> json list) list" where
  "fresh_notices v g db = concat (List.map (\<lambda>n.
     case latest_notice v db n of
       None \<Rightarrow> []
     | Some c \<Rightarrow> if at_least_zero (db_comment_resets db n) < cm_id c then [(n, cm_id c, notice_numbers v (cm_body c))] else [])
     (List.map fst (dg_issues g)))"

definition check_notice :: "dep_graph \<Rightarrow> int \<times> int \<times> json list \<Rightarrow> caches \<times> int set \<times> issue_db \<Rightarrow> caches \<times> int set \<times> issue_db" where
  "check_notice g = (\<lambda>(n, i, xs) (caches, notified, db).
     case active_of g n caches of (blockers, caches) \<Rightarrow>
       if blockers \<noteq> [] \<and> set (List.map fst blockers) = set (List.map_filter as_i64 xs) then (caches, insert n notified, db)
       else (caches, notified,
         db\<lparr>db_event_resets := (db_event_resets db)(n \<mapsto> (case latest_rework db n of None \<Rightarrow> 0 | Some e \<Rightarrow> ev_id e)),
            db_comment_resets := (db_comment_resets db)(n \<mapsto> i)\<rparr>))"

definition reconcile_graph :: "issue_view \<Rightarrow> string option \<Rightarrow> int \<Rightarrow> bool \<Rightarrow> bool \<Rightarrow> issue_db \<Rightarrow> issue_db" where
  "reconcile_graph v actor now upgrading rework db =
     (let g = load_active db in
      case fold (check_notice g) (fresh_notices v g db) ((Map.empty, Map.empty), {}, db) of
        (caches, notified, db) \<Rightarrow>
          snd (fold (transition v actor now upgrading rework g notified) (dg_issues g) (caches, db)))"

definition reconcile :: "issue_view \<Rightarrow> string option \<Rightarrow> int \<Rightarrow> issue_db \<Rightarrow> issue_db" where
  "reconcile v actor now = reconcile_graph v actor now False False"

definition reconcile_rework :: "issue_view \<Rightarrow> string option \<Rightarrow> int \<Rightarrow> issue_db \<Rightarrow> issue_db" where
  "reconcile_rework v actor now = reconcile_graph v actor now False True"

definition reconcile_upgrade :: "issue_view \<Rightarrow> int \<Rightarrow> issue_db \<Rightarrow> issue_db" where
  "reconcile_upgrade v now = reconcile_graph v None now True False"

section \<open>Claims and replication\<close>

definition claim_conflict :: "int \<Rightarrow> string" where
  "claim_conflict n = ''Cannot change subtasks: issue #'' @ show_int n @ '' has an existing claim that this change would release. Have the owner explicitly unassign the affected issue first.''"

definition check_subtask_claim :: "dep_graph \<Rightarrow> int \<times> dep_issue \<Rightarrow> memo \<Rightarrow> memo result" where
  "check_subtask_claim g = (\<lambda>(n, i) m.
     if di_assignee i = None \<or> di_deleted i \<or> di_state i = State_Closed then Inr m
     else case (if di_manual i then (True, m) else if di_draft i then (False, m) else has_active g Map.empty n m) of
       (blocked, m) \<Rightarrow> if (di_state i = State_Blocked) \<noteq> blocked then Inl (claim_conflict n) else Inr m)"

definition validate_subtask_claims :: "dep_graph \<Rightarrow> unit result" where
  "validate_subtask_claims g = and_then (fold_result (check_subtask_claim g) (dg_issues g) Map.empty) (\<lambda>_. Inr ())"

definition reconcile_subtasks :: "issue_view \<Rightarrow> string option \<Rightarrow> int \<Rightarrow> issue_db \<Rightarrow> issue_db result" where
  "reconcile_subtasks v actor now db =
     and_then (validate_edges (load db)) (\<lambda>_.
     and_then (validate_subtask_claims (load db)) (\<lambda>_. Inr (reconcile v actor now db)))"

definition replicate_state :: "dep_graph \<Rightarrow> int \<times> dep_issue \<Rightarrow> memo \<times> issue_db \<Rightarrow> memo \<times> issue_db" where
  "replicate_state g = (\<lambda>(n, i) (m, db).
     if di_deleted i \<or> di_state i = State_Closed \<or> di_assignee i \<noteq> None \<or> di_reserved i then (m, db)
     else case (if di_manual i \<or> di_draft i then (False, m) else has_active g Map.empty n m) of
       (waiting, m) \<Rightarrow>
         let st = expected_state i waiting in
         if di_state i = st then (m, db)
         else (m, update_state (\<lambda>r. r\<lparr>ir_state := st, ir_version := ir_version r + 1\<rparr>) n db))"

definition reconcile_replication :: "issue_db \<Rightarrow> issue_db" where
  "reconcile_replication db =
     (let g = load_active db in snd (fold (replicate_state g) (dg_issues g) (Map.empty, db)))"

section \<open>What a reconciliation makes of a row\<close>

definition row_after :: "issue_db \<Rightarrow> bool \<Rightarrow> int \<Rightarrow> issue_row \<Rightarrow> issue_row" where
  "row_after db hold now r =
     (let i = dep_of db r;
          st = expected_state i (fst (has_active (load db) Map.empty (ir_number r) Map.empty)) in
      if ir_deleted_at r \<noteq> None \<or> ir_state r = State_Closed \<or> ir_state r = st \<or> (ir_state r \<noteq> State_Ready \<and> has_claim i \<and> hold) then r
      else set_state st now r)"

lemma dep_of_sel [simp]:
  "di_state (dep_of db r) = ir_state r" "di_deleted (dep_of db r) \<longleftrightarrow> ir_deleted_at r \<noteq> None"
  "di_manual (dep_of db r) = ir_manual r" "di_draft (dep_of db r) = ir_draft r" "di_assignee (dep_of db r) = ir_assignee r"
  by (simp_all add: dep_of_def)

lemma set_state_sel [simp]:
  "ir_number (set_state st now r) = ir_number r" "ir_deleted_at (set_state st now r) = ir_deleted_at r"
  "ir_blockers (set_state st now r) = ir_blockers r" "ir_state (set_state st now r) = st" "ir_manual (set_state st now r) = ir_manual r"
  "ir_draft (set_state st now r) = ir_draft r" "ir_assignee (set_state st now r) = None"
  by (simp_all add: set_state_def)

lemma set_state_neq: "set_state st now r \<noteq> r"
proof
  assume "set_state st now r = r"
  then have "ir_version (set_state st now r) = ir_version r" by simp
  then show False by (simp add: set_state_def)
qed

lemma row_after_sel [simp]:
  "ir_number (row_after db hold now r) = ir_number r" "ir_deleted_at (row_after db hold now r) = ir_deleted_at r"
  "ir_blockers (row_after db hold now r) = ir_blockers r" "ir_manual (row_after db hold now r) = ir_manual r"
  "ir_draft (row_after db hold now r) = ir_draft r"
  by (simp_all add: row_after_def Let_def)

lemma expected_cases: "expected_state i w \<noteq> State_Closed" "expected_state i w = State_Ready \<Longrightarrow> di_state i = State_Ready"
  by (auto simp: expected_state_def split: if_splits)

section \<open>Graphs that answer alike\<close>

text \<open>
  A graph whose issues differ from another's only in states that are not finished in either.
\<close>

definition steady :: "dep_graph \<Rightarrow> dep_graph \<Rightarrow> bool" where
  "steady g h \<longleftrightarrow> (\<forall>n.
     set (dep_targets (dg_children h) n) = set (dep_targets (dg_children g) n) \<and> set (dep_targets (dg_links h) n) = set (dep_targets (dg_links g) n) \<and>
     alive h n = alive g n \<and> deleted_in h n = deleted_in g n \<and>
     ((\<forall>st. in_state h st n = in_state g st n) \<or>
      (\<not> satisfied g n \<and> \<not> in_state h State_Closed n \<and> \<not> in_state h State_Ready n)))"

lemma steady_closed: "steady g h \<Longrightarrow> in_state h State_Closed n = in_state g State_Closed n"
  using satisfied.closed [of g n] by (auto simp: steady_def)

lemma steady_subtask: "steady g h \<Longrightarrow> subtask_of h n c \<longleftrightarrow> subtask_of g n c"
proof
  assume s: "steady g h"
  note closed = steady_closed [OF s]
  have child: "set (dep_targets (dg_children h) n) = set (dep_targets (dg_children g) n)" "alive h n = alive g n" for n
    using s by (simp_all add: steady_def)
  show "subtask_of h n c \<Longrightarrow> subtask_of g n c"
    by (induction rule: subtask_of.induct) (auto simp: child closed intro: subtask_of.intros)
  show "subtask_of g n c \<Longrightarrow> subtask_of h n c"
    by (induction rule: subtask_of.induct) (auto simp: child [symmetric] closed [symmetric] intro: subtask_of.intros)
qed

lemma steady_descendant: "steady g h \<Longrightarrow> descendant h n c \<longleftrightarrow> descendant g n c"
proof
  assume s: "steady g h"
  have child: "set (dep_targets (dg_children h) n) = set (dep_targets (dg_children g) n)" "alive h n = alive g n" for n
    using s by (simp_all add: steady_def)
  show "descendant h n c \<Longrightarrow> descendant g n c"
    by (induction rule: descendant.induct) (auto simp: child intro: descendant.intros)
  show "descendant g n c \<Longrightarrow> descendant h n c"
    by (induction rule: descendant.induct) (auto simp: child [symmetric] intro: descendant.intros)
qed

lemma steady_depends: "steady g h \<Longrightarrow> depends h n c \<longleftrightarrow> depends g n c"
  by (simp add: depends_def steady_subtask) (simp add: steady_def)

lemma steady_satisfied:
  assumes "steady g h"
  shows "satisfied h n \<longleftrightarrow> satisfied g n"
proof
  show "satisfied g n" if "satisfied h n"
    using that
  proof (induction rule: satisfied.induct)
    case (ready n)
    then have "in_state g State_Ready n" using assms by (auto simp: steady_def)
    moreover have "\<forall>c. depends g n c \<longrightarrow> satisfied g c" using ready by (simp add: steady_depends [OF assms])
    ultimately show ?case by (rule satisfied.ready)
  qed (use assms steady_closed [OF assms] in \<open>auto simp: steady_def intro: satisfied.intros\<close>)
  show "satisfied h n" if "satisfied g n"
    using that
  proof (induction rule: satisfied.induct)
    case (ready n)
    have "satisfied g n" using ready.hyps(1) ready.IH by (auto intro: satisfied.ready)
    then have "in_state h State_Ready n" using ready.hyps(1) assms by (auto simp: steady_def)
    moreover have "\<forall>c. depends h n c \<longrightarrow> satisfied h c" using ready.IH by (simp add: steady_depends [OF assms])
    ultimately show ?case by (rule satisfied.ready)
  qed (use assms steady_closed [OF assms] in \<open>auto simp: steady_def intro: satisfied.intros\<close>)
qed

lemma steady_waits: "steady g h \<Longrightarrow> waits h n \<longleftrightarrow> waits g n"
  by (simp add: waits_def steady_depends steady_satisfied)

lemma steady_waiting: "steady g h \<Longrightarrow> waiting_on h n = waiting_on g n"
  unfolding waiting_on_def by (simp add: steady_descendant steady_satisfied) (simp add: steady_def)

lemma steady_acyclic: "steady g h \<Longrightarrow> acyclic_graph h \<longleftrightarrow> acyclic_graph g"
proof -
  assume "steady g h"
  then have "arcs h = arcs g" by (auto simp: arcs_def nexts_def steady_def)
  then show ?thesis by (simp add: acyclic_arcs)
qed

section \<open>Tables in the middle of a reconciliation\<close>

text \<open>The issues of \<open>done\<close> have been set, the others are as before.\<close>

definition partway :: "issue_db \<Rightarrow> bool \<Rightarrow> int \<Rightarrow> int set \<Rightarrow> issue_db \<Rightarrow> bool" where
  "partway db hold now done cur \<longleftrightarrow> db_subtasks cur = db_subtasks db \<and> db_runs cur = db_runs db \<and> db_prs cur = db_prs db \<and>
     db_issues cur = List.map (\<lambda>r. if ir_number r \<in> done then row_after db hold now r else r) (db_issues db)"

definition unheld :: "issue_db \<Rightarrow> bool" where
  "unheld db \<longleftrightarrow> (\<forall>r \<in> set (db_issues db). ir_state r = State_Ready \<longrightarrow> \<not> ir_manual r)"

lemma find_map: "(\<And>x. P (f x) = P x) \<Longrightarrow> find P (List.map f xs) = map_option f (find P xs)"
  by (induction xs) auto

lemma partway_same: "partway db hold now done cur \<Longrightarrow> List.map ir_number (db_issues cur) = List.map ir_number (db_issues db)"
  by (simp add: partway_def comp_def if_distrib [of ir_number] cong: if_cong)

lemma partway_numbers: "partway db hold now done cur \<Longrightarrow> numbers_ok cur \<longleftrightarrow> numbers_ok db"
  by (simp add: numbers_ok_def partway_same)

lemma partway_at:
  assumes "partway db hold now done cur"
  shows "issue_at cur n = map_option (\<lambda>r. if n \<in> done then row_after db hold now r else r) (issue_at db n)"
proof -
  have "issue_at cur n = map_option (\<lambda>r. if ir_number r \<in> done then row_after db hold now r else r) (issue_at db n)"
    using assms by (simp add: partway_def issue_at_def find_map)
  moreover have "ir_number r = n" if "issue_at db n = Some r" for r
    using that by (auto simp: issue_at_def dest: find_member)
  ultimately show ?thesis by (cases "issue_at db n") simp_all
qed

lemma row_after_unsatisfied:
  assumes "numbers_ok db" and "unheld db" and "issue_at db n = Some r" and "row_after db hold now r \<noteq> r"
  shows "\<not> satisfied (load db) n" and "ir_state (row_after db hold now r) \<noteq> State_Closed" and "ir_state (row_after db hold now r) \<noteq> State_Ready"
proof -
  have r: "r \<in> set (db_issues db)" "ir_number r = n" using assms(1,3) by (simp_all add: issue_at_iff)
  define st where "st = expected_state (dep_of db r) (waits (load db) n)"
  have d: "ir_deleted_at r = None" "ir_state r \<noteq> State_Closed" "ir_state r \<noteq> st"
    and after: "row_after db hold now r = set_state st now r"
    using assms(4) r by (auto simp: row_after_def Let_def plain_waits st_def split: if_splits)
  show "\<not> satisfied (load db) n"
  proof (cases "ir_state r = State_Ready")
    case True
    then have "waits (load db) n" using d(3) assms(2) r by (auto simp: st_def expected_state_def unheld_def split: if_splits)
    moreover have "in_state (load db) State_Ready n" using True d assms by (simp add: state_load)
    ultimately show ?thesis by (simp add: satisfied_ready)
  next
    case False
    then show ?thesis using d assms by (auto simp: state_load deleted_load elim: satisfied.cases)
  qed
  show "ir_state (row_after db hold now r) \<noteq> State_Closed" "ir_state (row_after db hold now r) \<noteq> State_Ready"
    unfolding after using d expected_cases [of "dep_of db r" "waits (load db) n"] by (auto simp: st_def)
qed

lemma partway_steady:
  assumes "numbers_ok db" and "unheld db" and "partway db hold now done cur"
  shows "steady (load db) (load cur)"
  unfolding steady_def
proof (intro allI conjI, goal_cases)
  case (1 n)
  note cur = partway_numbers [OF assms(3)] partway_at [OF assms(3)]
  have "(\<exists>r \<in> set (db_issues cur). ir_number r = c) \<longleftrightarrow> (\<exists>r \<in> set (db_issues db). ir_number r = c)" for c
    using partway_same [OF assms(3)] by (metis (no_types, lifting) image_iff list.set_map)
  then show ?case using assms(3) by (auto simp: load_children children_iff partway_def)
next
  case (2 n)
  show ?case using assms(1) partway_numbers [OF assms(3)] partway_at [OF assms(3), of n]
    by (simp add: load_links split: option.splits)
next
  case (3 n)
  show ?case using assms(1) partway_numbers [OF assms(3)] partway_at [OF assms(3), of n]
    by (auto simp: alive_load row_alive_def split: option.splits)
next
  case (4 n)
  show ?case using assms(1) partway_numbers [OF assms(3)] partway_at [OF assms(3), of n]
    by (cases "issue_at db n") (auto simp: deleted_load)
next
  case (5 n)
  have num: "numbers_ok cur" using assms(1) partway_numbers [OF assms(3)] by simp
  show ?case
  proof (cases "\<exists>r. issue_at db n = Some r \<and> n \<in> done \<and> row_after db hold now r \<noteq> r")
    case True
    then obtain r where "issue_at db n = Some r" "n \<in> done" "row_after db hold now r \<noteq> r" by blast
    with row_after_unsatisfied [OF assms(1,2) this(1,3)] show ?thesis
      by (simp add: state_load [OF num] partway_at [OF assms(3)])
  next
    case False
    then have "issue_at cur n = issue_at db n" using partway_at [OF assms(3), of n] by (cases "issue_at db n") auto
    then show ?thesis by (simp add: state_load [OF num] state_load [OF assms(1)])
  qed
qed

section \<open>Notices are not dropped\<close>

text \<open>The parser of SQLite reads the lists of the notices.\<close>

definition reads_numbers :: "issue_view \<Rightarrow> bool" where
  "reads_numbers v \<longleftrightarrow> (\<forall>ns. iv_parse v (show_numbers ns) = Some (jnumbers ns))"

lemma notice_numbers_body: "reads_numbers v \<Longrightarrow> notice_numbers v (notice_body ns) = List.map JInt ns"
  by (simp add: notice_numbers_def notice_body_def strip_prefix_def strip_suffix_def reads_numbers_def jnumbers_def)

lemma descendants_of_tables:
  assumes "numbers_ok db" and "descendant (load db) n c"
  shows "c \<in> set (alive_descendants db n)"
proof -
  note closed = query_closed [of "[]" "List.map fst (db_subtasks db)" "alive_children db" "alive_children db n", simplified]
  have step: "set (alive_children db m) \<subseteq> set (alive_descendants db n)" if "m \<in> set (alive_descendants db n)" for m
  proof (cases "m \<in> set (List.map fst (db_subtasks db))")
    case True
    then show ?thesis using closed that unfolding alive_descendants_def by auto
  next
    case False
    then have "alive_children db m = []" by (auto simp: alive_children_def filter_empty_conv image_iff)
    then show ?thesis by simp
  qed
  from assms(2) show ?thesis
  proof induction
    case (child c)
    then have "c \<in> set (alive_children db n)" using child_load [OF assms(1)] by blast
    then show ?case using closed unfolding alive_descendants_def by auto
  next
    case (below c d)
    then have "d \<in> set (alive_children db c)" using child_load [OF assms(1)] by blast
    with step [OF below.IH] show ?case by blast
  qed
qed

lemma own_notice_current:
  assumes "numbers_ok db" and "issue_at db n = Some r" and "set ns \<subseteq> waiting_on (load db) n"
  shows "\<not> obsolete db n (List.map JInt ns)"
proof -
  have "b \<in> set (ir_blockers r) \<or> b \<in> set (alive_descendants db n)" if "b \<in> set ns" for b
    using that assms descendants_of_tables [OF assms(1)] by (auto simp: waiting_on_def load_links)
  then show ?thesis using assms(2) by (auto simp: obsolete_def list_ex_iff sql_value_def)
qed

section \<open>What an event or a notice changes\<close>

lemma log_event_fields [simp]:
  "db_issues (log_event v n a act now d db) = db_issues db" "db_subtasks (log_event v n a act now d db) = db_subtasks db"
  "db_comments (log_event v n a act now d db) = db_comments db" "db_runs (log_event v n a act now d db) = db_runs db"
  "db_comment_resets (log_event v n a act now d db) = db_comment_resets db" "db_prs (log_event v n a act now d db) = db_prs db"
  by (simp_all add: log_event_def Let_def)

lemma update_state_fields [simp]:
  "db_subtasks (update_state f n db) = db_subtasks db" "db_comments (update_state f n db) = db_comments db"
  "db_runs (update_state f n db) = db_runs db" "db_comment_resets (update_state f n db) = db_comment_resets db"
  "db_prs (update_state f n db) = db_prs db"
  by (simp_all add: update_state_def put_issue_def split: option.splits)

lemma post_notice_fields:
  "post_notice v g n author now ns db = Some db' \<Longrightarrow>
   db_issues db' = db_issues db \<and> db_subtasks db' = db_subtasks db \<and> db_runs db' = db_runs db \<and> db_prs db' = db_prs db \<and>
   db_comment_resets db' = db_comment_resets db \<and> (\<exists>c. cm_issue c = n \<and> db_comments db' = db_comments db @ [c])"
  by (auto simp: post_notice_def insert_comment_def split: if_splits)

definition quiet :: "issue_view \<Rightarrow> int \<Rightarrow> issue_db \<Rightarrow> bool" where
  "quiet v n db \<longleftrightarrow> (case latest_notice v db n of None \<Rightarrow> True | Some c \<Rightarrow> cm_id c \<le> at_least_zero (db_comment_resets db n))"

lemma quiet_other:
  "db_comments db' = db_comments db @ [c] \<Longrightarrow> db_comment_resets db' = db_comment_resets db \<Longrightarrow> cm_issue c \<noteq> n \<Longrightarrow> quiet v n db' = quiet v n db"
  by (simp add: quiet_def latest_notice_def split: option.splits)

lemma quiet_same:
  "db_comments db' = db_comments db \<Longrightarrow> db_comment_resets db' = db_comment_resets db \<Longrightarrow> quiet v n db' = quiet v n db"
  by (simp add: quiet_def latest_notice_def split: option.splits)

lemma post_notice_some:
  assumes "numbers_ok db" and "issue_at db n = Some r" and "set ns \<subseteq> waiting_on (load db) n" and "quiet v n db" and "reads_numbers v"
  shows "post_notice v g n author now ns db \<noteq> None"
proof -
  have "\<not> obsolete db n (notice_numbers v (notice_body ns))"
    using own_notice_current [OF assms(1-3)] notice_numbers_body [OF assms(5)] by simp
  moreover have "\<not> duplicate_comment v db n (notice_body ns)"
    using assms(4) by (auto simp: duplicate_comment_def quiet_def split: option.splits)
  ultimately show ?thesis by (simp add: post_notice_def insert_comment_def)
qed

section \<open>One issue of the loop\<close>

definition loop_inv :: "issue_view \<Rightarrow> dep_graph \<Rightarrow> int set \<Rightarrow> issue_db \<Rightarrow> bool \<Rightarrow> int \<Rightarrow> int set \<Rightarrow> caches \<times> issue_db \<Rightarrow> bool" where
  "loop_inv v g notified db hold now done = (\<lambda>(caches, cur).
     caches_ok g caches \<and> partway db hold now done cur \<and>
     (\<forall>n. n \<in> fst ` set (dg_issues g) - done - notified \<longrightarrow> quiet v n cur))"

lemma partway_insert:
  assumes "numbers_ok db" and "issue_at db n = Some r" and "n \<notin> done" and "partway db hold now done cur"
    and "db_issues cur' = (if row_after db hold now r = r then db_issues cur else db_issues (put_issue (row_after db hold now r) cur))"
    and "db_subtasks cur' = db_subtasks cur" and "db_runs cur' = db_runs cur" and "db_prs cur' = db_prs cur"
  shows "partway db hold now (insert n done) cur'"
proof -
  have r: "r \<in> set (db_issues db)" "ir_number r = n" using assms(1,2) by (simp_all add: issue_at_iff)
  have same: "x = r" if "x \<in> set (db_issues db)" "ir_number x = n" for x
    using that assms(1) r by (auto simp: numbers_ok_def distinct_map inj_on_def)
  have "db_issues cur' = List.map (\<lambda>r. if ir_number r \<in> insert n done then row_after db hold now r else r) (db_issues db)"
  proof (cases "row_after db hold now r = r")
    case True
    then have "db_issues cur' = List.map (\<lambda>r. if ir_number r \<in> done then row_after db hold now r else r) (db_issues db)"
      using assms(4,5) by (simp add: partway_def)
    also have "\<dots> = List.map (\<lambda>r. if ir_number r \<in> insert n done then row_after db hold now r else r) (db_issues db)"
      using True same by (intro map_cong) auto
    finally show ?thesis .
  next
    case False
    then have "db_issues cur' = List.map (\<lambda>x. if ir_number x = n then row_after db hold now r else x)
        (List.map (\<lambda>r. if ir_number r \<in> done then row_after db hold now r else r) (db_issues db))"
      using assms(4,5) r by (simp add: partway_def put_issue_def)
    also have "\<dots> = List.map (\<lambda>r. if ir_number r \<in> insert n done then row_after db hold now r else r) (db_issues db)"
      using same by (auto simp: comp_def intro!: map_cong)
    finally show ?thesis .
  qed
  with assms(4,6-8) show ?thesis by (simp add: partway_def)
qed

lemma active_item:
  assumes "numbers_ok db" and "(n, i) \<in> set (dg_issues (load_active db))"
  obtains r where "issue_at db n = Some r" "i = dep_of db r" "waits (load_active db) n \<longleftrightarrow> waits (load db) n"
    "waiting_on (load_active db) n = waiting_on (load db) n" "dg_prs (load_active db) = db_prs db"
proof -
  define ns where "ns = List.map ir_number (filter (\<lambda>r. ir_state r \<noteq> State_Closed \<and> ir_deleted_at r = None) (db_issues db))"
  have g: "load_active db = load_for db ns" by (simp add: load_active_def ns_def)
  have "sorted_wrt (<) (List.map fst (dg_issues (load_for db ns)))"
    by (simp add: load_for_def load_selected_def Let_def fold_put_sorted)
  then have "map_of (dg_issues (load_for db ns)) n = Some i" using assms(2) sorted_distinct by (auto simp: g)
  then have sel: "n \<in> selection db ns" and r: "map_option (dep_of db) (issue_at db n) = Some i"
    using assms(1) by (auto simp: load_for_def selected_issues in_selection_def selection_def split: if_splits)
  have "dg_prs (load_for db ns) = db_prs db"
    using assms(2) by (auto simp: g load_for_def load_selected_def Let_def)
  with r agree_facts(4,5) [OF selection_agrees [OF assms(1)] sel] that show thesis by (auto simp: g)
qed

lemma guard_allows:
  assumes "numbers_ok cur" and "acyclic_graph (load cur)" and "issue_at cur n = Some r" and "\<not> ir_manual r \<Longrightarrow> waits (load cur) n"
  shows "\<not> guard_drops cur r (set_state State_Blocked now r)"
proof -
  have same: "guard_rows cur (set_state st now r) = guard_rows cur r" for st by (simp add: guard_rows_def)
  show ?thesis
    using guard_agrees_with_graph' [OF assms(1,3)] assms(2,4) by (auto simp: guard_drops_def same)
qed

lemma update_state_put:
  "issue_at cur n = Some r \<Longrightarrow> \<not> guard_drops cur r (set_state st now r) \<Longrightarrow> update_state (set_state st now) n cur = put_issue (set_state st now r) cur"
  by (simp add: update_state_def)

lemma transition_keeps:
  assumes ok: "numbers_ok db" "unheld db" "acyclic_graph (load db)" "reads_numbers v"
    and g: "g = load_active db" and hold: "hold \<longleftrightarrow> upgrading \<or> rework \<or> db_prs db"
    and item: "(n, i) \<in> set (dg_issues g)" "n \<notin> done" and inv: "loop_inv v g notified db hold now done s"
  shows "loop_inv v g notified db hold now (insert n done) (transition v actor now upgrading rework g notified (n, i) s)"
proof -
  obtain m ac cur where s: "s = ((m, ac), cur)" by (metis surj_pair)
  obtain r where r: "issue_at db n = Some r" and i: "i = dep_of db r" and waits: "waits g n \<longleftrightarrow> waits (load db) n"
    and waiting: "waiting_on g n = waiting_on (load db) n" and prs: "dg_prs g = db_prs db"
    using active_item [OF ok(1)] item g by metis
  have num: "ir_number r = n" using r ok(1) by (simp add: issue_at_iff)
  have caches: "caches_ok g (m, ac)" and part: "partway db hold now done cur"
    and quiet: "\<And>n. n \<in> fst ` set (dg_issues g) - done - notified \<Longrightarrow> quiet v n cur"
    using inv by (auto simp: loop_inv_def s)
  define st where "st = expected_state i (waits (load db) n)"
  have after: "row_after db hold now r = (if ir_deleted_at r \<noteq> None \<or> ir_state r = State_Closed \<or> ir_state r = st \<or>
      (ir_state r \<noteq> State_Ready \<and> has_claim i \<and> hold) then r else set_state st now r)"
    by (simp add: row_after_def Let_def plain_waits num st_def i)
  have keep: "loop_inv v g notified db hold now (insert n done) (caches', cur')"
    if "caches_ok g caches'" "row_after db hold now r = r \<and> db_issues cur' = db_issues cur \<or> db_issues cur' = db_issues (put_issue (row_after db hold now r) cur) \<and> row_after db hold now r \<noteq> r"
      "db_subtasks cur' = db_subtasks cur" "db_runs cur' = db_runs cur" "db_prs cur' = db_prs cur" "db_comment_resets cur' = db_comment_resets cur"
      "db_comments cur' = db_comments cur \<or> (\<exists>c. cm_issue c = n \<and> db_comments cur' = db_comments cur @ [c])" for caches' cur'
  proof -
    have "partway db hold now (insert n done) cur'"
      using partway_insert [OF ok(1) r item(2) part _ that(3-5)] that(2) by auto
    moreover have "quiet v k cur'" if "k \<in> fst ` set (dg_issues g) - insert n done - notified" for k
    proof -
      have "quiet v k cur" using quiet that by blast
      moreover have "k \<noteq> n" using that by blast
      ultimately show ?thesis using quiet_same [of cur' cur] quiet_other [of cur' cur]
        \<open>db_comment_resets cur' = db_comment_resets cur\<close>
        \<open>db_comments cur' = db_comments cur \<or> (\<exists>c. cm_issue c = n \<and> db_comments cur' = db_comments cur @ [c])\<close> by metis
    qed
    ultimately show ?thesis using that(1) by (simp add: loop_inv_def)
  qed
  have stay: "loop_inv v g notified db hold now (insert n done) (caches', cur)" if "row_after db hold now r = r" "caches_ok g caches'" for caches'
    using keep [of caches' cur] that by simp
  show ?thesis
  proof (cases "di_deleted i \<or> di_state i = State_Closed")
    case True
    then have "row_after db hold now r = r" by (auto simp: after i)
    with True stay caches show ?thesis by (simp add: transition_def s)
  next
    case False
    obtain w m1 where h: "has_active g ac n m = (w, m1)" by fastforce
    have "memo_ok g {} m" using caches by (simp add: caches_ok_def)
    note hc = has_active_correct [OF caches_actives [OF caches] this h]
    then have w: "w = waits (load db) n" using waits by simp
    note caches1 = caches_memo [OF caches hc(2)]
    show ?thesis
    proof (cases "di_state i = st")
      case True
      then have "row_after db hold now r = r" by (simp add: after i)
      with True False stay [OF _ caches1] show ?thesis by (simp add: transition_def s h w st_def)
    next
      case change: False
      obtain blockers caches2 where a: "active_of g n (m1, ac) = (blockers, caches2)"
        by (rule prod.exhaust)
      note ac = active_of_correct [OF caches1 a]
      define ns where "ns = List.map fst blockers"
      have ns: "set ns = waiting_on (load db) n" using ac(1) waiting by (simp add: ns_def)
      note st_cur = partway_steady [OF ok(1,2) part]
      have cur: "numbers_ok cur" "issue_at cur n = Some r" "acyclic_graph (load cur)" "waits (load cur) n \<longleftrightarrow> waits (load db) n"
          "waiting_on (load cur) n = waiting_on (load db) n"
        using ok part item(2) r steady_acyclic [OF st_cur] steady_waits [OF st_cur] steady_waiting [OF st_cur]
        by (simp_all add: partway_numbers partway_at)
      define author where "author = (case actor of None \<Rightarrow> di_creator i | Some a \<Rightarrow> a)"
      define notice where "notice \<longleftrightarrow> (rework \<or> dg_prs g) \<and> st = State_Blocked \<and> ns \<noteq> [] \<and> (di_state i = State_Ready \<or> has_claim i) \<and> n \<notin> notified"
      have "(if notice then post_notice v g n author now ns cur else Some cur) \<noteq> None"
      proof (cases notice)
        case True
        then have "quiet v n cur" using quiet item by (force simp: notice_def)
        with True post_notice_some [OF cur(1,2) _ this ok(4)] ns cur(5) show ?thesis by simp
      qed simp
      then obtain cur1 where cur1: "(if notice then post_notice v g n author now ns cur else Some cur) = Some cur1" by blast
      have same: "db_issues cur1 = db_issues cur" "db_subtasks cur1 = db_subtasks cur" "db_runs cur1 = db_runs cur" "db_prs cur1 = db_prs cur"
          "db_comment_resets cur1 = db_comment_resets cur"
          "db_comments cur1 = db_comments cur \<or> (\<exists>c. cm_issue c = n \<and> db_comments cur1 = db_comments cur @ [c])"
        using cur1 post_notice_fields [of v g n author now ns cur cur1] by (auto split: if_splits)
      have "change_state v actor now upgrading rework g notified n i st ns cur =
          (if di_state i \<noteq> State_Ready \<and> has_claim i \<and> (upgrading \<or> rework \<or> dg_prs g) then cur1
           else log_event v n author (if st = State_Blocked then ''blocked'' else ''reopened'') now (JObject [(''blocked_by'', jnumbers ns)])
             (update_state (set_state st now) n cur1))"
        unfolding change_state_def Let_def author_def [symmetric] notice_def [symmetric] cur1 by simp
      then have step: "transition v actor now upgrading rework g notified (n, i) s =
          (if di_state i \<noteq> State_Ready \<and> has_claim i \<and> hold then (caches2, cur1)
           else (caches2, log_event v n author (if st = State_Blocked then ''blocked'' else ''reopened'') now (JObject [(''blocked_by'', jnumbers ns)])
             (update_state (set_state st now) n cur1)))"
        using False change by (auto simp: transition_def s h a w st_def [symmetric] ns_def [symmetric] hold prs)
      show ?thesis
      proof (cases "di_state i \<noteq> State_Ready \<and> has_claim i \<and> hold")
        case True
        then have "row_after db hold now r = r" unfolding after by (auto simp: i)
        then show ?thesis unfolding step using True keep [OF ac(3), of cur1] same by simp
      next
        case moved: False
        then have row: "row_after db hold now r = set_state st now r" using False change by (auto simp: after i)
        have part1: "partway db hold now done cur1" using part same by (simp add: partway_def)
        note st_cur1 = partway_steady [OF ok(1,2) part1]
        have c1: "numbers_ok cur1" "issue_at cur1 n = Some r" "acyclic_graph (load cur1)" "waits (load cur1) n \<longleftrightarrow> waits (load db) n"
          using ok part1 item(2) r steady_acyclic [OF st_cur1] steady_waits [OF st_cur1] by (simp_all add: partway_numbers partway_at)
        have "\<not> guard_drops cur1 r (set_state st now r)"
        proof (cases "st = State_Blocked")
          case True
          then have "\<not> ir_manual r \<Longrightarrow> waits (load db) n" by (auto simp: st_def expected_state_def i split: if_splits)
          with guard_allows [OF c1(1,3,2)] c1(4) True show ?thesis by simp
        qed (simp add: guard_drops_def)
        from update_state_put [OF c1(2) this] have put: "update_state (set_state st now) n cur1 = put_issue (row_after db hold now r) cur1" by (simp add: row)
        have ne: "row_after db hold now r \<noteq> r"
          using row change by (metis dep_of_sel(1) i set_state_sel(4))
        show ?thesis unfolding step if_not_P [OF moved]
          by (rule keep) (use ac(3) same ne in \<open>simp_all add: put put_issue_def\<close>)
      qed
    qed
  qed
qed

section \<open>The whole loop\<close>

lemma transitions_keep:
  assumes ok: "numbers_ok db" "unheld db" "acyclic_graph (load db)" "reads_numbers v"
    and g: "g = load_active db" and hold: "hold \<longleftrightarrow> upgrading \<or> rework \<or> db_prs db"
  shows "set items \<subseteq> set (dg_issues g) \<Longrightarrow> distinct (List.map fst items) \<Longrightarrow> fst ` set items \<inter> done = {} \<Longrightarrow>
    loop_inv v g notified db hold now done s \<Longrightarrow>
    loop_inv v g notified db hold now (done \<union> fst ` set items) (fold (transition v actor now upgrading rework g notified) items s)"
proof (induction items arbitrary: "done" s)
  case (Cons item items)
  obtain n i where item: "item = (n, i)" by fastforce
  have "loop_inv v g notified db hold now (insert n done) (transition v actor now upgrading rework g notified (n, i) s)"
    using transition_keeps [OF ok g hold _ _ Cons.prems(4)] Cons.prems(1,3) item by auto
  from Cons.IH [OF _ _ _ this] Cons.prems show ?case by (auto simp: item)
qed simp

definition noticed :: "issue_view \<Rightarrow> dep_graph \<Rightarrow> issue_db \<Rightarrow> caches \<times> int set \<times> issue_db \<Rightarrow> bool" where
  "noticed v g db = (\<lambda>(caches, notified, cur). caches_ok g caches \<and> db_issues cur = db_issues db \<and> db_subtasks cur = db_subtasks db \<and>
     db_runs cur = db_runs db \<and> db_prs cur = db_prs db \<and> db_comments cur = db_comments db \<and>
     (\<forall>n. n \<notin> notified \<longrightarrow> db_comment_resets cur n = db_comment_resets db n \<or>
        (\<exists>c. latest_notice v db n = Some c \<and> db_comment_resets cur n = Some (cm_id c))))"

lemma latest_same: "db_comments cur = db_comments db \<Longrightarrow> latest_notice v cur n = latest_notice v db n"
  by (simp add: latest_notice_def)

lemma check_notice_keeps:
  assumes "noticed v g db s" and "latest_notice v db n = Some c"
  shows "noticed v g db (check_notice g (n, cm_id c, xs) s)"
    and "\<And>caches notified cur. check_notice g (n, cm_id c, xs) s = (caches, notified, cur) \<Longrightarrow> n \<in> notified \<or> db_comment_resets cur n = Some (cm_id c)"
    and "\<And>caches notified cur k. check_notice g (n, cm_id c, xs) s = (caches, notified, cur) \<Longrightarrow> k \<noteq> n \<Longrightarrow>
      k \<in> notified \<longleftrightarrow> k \<in> fst (snd s)"
    and "\<And>caches notified cur k. check_notice g (n, cm_id c, xs) s = (caches, notified, cur) \<Longrightarrow> k \<noteq> n \<Longrightarrow>
      db_comment_resets cur k = db_comment_resets (snd (snd s)) k"
proof -
  obtain caches notified cur where s: "s = (caches, notified, cur)" by (rule prod_cases3)
  obtain blockers caches' where a: "active_of g n caches = (blockers, caches')" by (rule prod.exhaust)
  have ok: "caches_ok g caches'" using assms(1) active_of_correct(3) [OF _ a] by (simp add: noticed_def s)
  show "noticed v g db (check_notice g (n, cm_id c, xs) s)"
    using assms ok by (auto simp: noticed_def s check_notice_def a)
  show "n \<in> notified' \<or> db_comment_resets cur' n = Some (cm_id c)" if "check_notice g (n, cm_id c, xs) s = (caches'', notified', cur')" for caches'' notified' cur'
    using that by (auto simp: s check_notice_def a split: if_splits)
  show "k \<in> notified' \<longleftrightarrow> k \<in> fst (snd s)" if "check_notice g (n, cm_id c, xs) s = (caches'', notified', cur')" "k \<noteq> n" for caches'' notified' cur' k
    using that by (auto simp: s check_notice_def a split: if_splits)
  show "db_comment_resets cur' k = db_comment_resets (snd (snd s)) k" if "check_notice g (n, cm_id c, xs) s = (caches'', notified', cur')" "k \<noteq> n" for caches'' notified' cur' k
    using that by (auto simp: s check_notice_def a split: if_splits)
qed

definition checked :: "int \<Rightarrow> int \<Rightarrow> caches \<times> int set \<times> issue_db \<Rightarrow> bool" where
  "checked n i = (\<lambda>(caches, notified, cur). n \<in> notified \<or> db_comment_resets cur n = Some i)"

lemma check_notices:
  assumes "\<forall>(n, i, xs) \<in> set items. \<exists>c. latest_notice v db n = Some c \<and> i = cm_id c"
  shows "noticed v g db s \<Longrightarrow> noticed v g db (fold (check_notice g) items s) \<and> (\<forall>n i. checked n i s \<longrightarrow> (\<exists>c. latest_notice v db n = Some c \<and> i = cm_id c) \<longrightarrow> checked n i (fold (check_notice g) items s)) \<and>
    (\<forall>(n, i, xs) \<in> set items. checked n i (fold (check_notice g) items s))"
  using assms
proof (induction items arbitrary: s)
  case (Cons item items)
  obtain n i xs where item: "item = (n, i, xs)" by (rule prod_cases3)
  obtain c where c: "latest_notice v db n = Some c" "i = cm_id c" using Cons.prems(2) by (auto simp: item)
  note keep = check_notice_keeps [OF Cons.prems(1) c(1), of xs]
  let ?s = "check_notice g (n, i, xs) s"
  have here: "checked n i ?s" using keep(2) c(2) by (auto simp: checked_def split: prod.splits)
  have others: "checked k j ?s" if "checked k j s" "\<exists>c. latest_notice v db k = Some c \<and> j = cm_id c" for k j
  proof (cases "k = n")
    case True
    then show ?thesis using here that(2) c by simp
  next
    case False
    obtain caches' notified' cur' where s': "?s = (caches', notified', cur')" by (rule prod_cases3)
    from keep(3,4) [OF s' [unfolded c(2)] False] that(1) show ?thesis by (auto simp: checked_def s' split: prod.splits)
  qed
  have "noticed v g db ?s" using keep(1) c(2) by simp
  from Cons.IH [OF this] Cons.prems(2) here others c show ?case by (fastforce simp: item)
qed simp

lemma notices_checked:
  assumes "fold (check_notice g) (fresh_notices v g db) ((Map.empty, Map.empty), {}, db) = (caches, notified, cur)"
  shows "caches_ok g caches" and "partway db hold now {} cur"
    and "n \<in> fst ` set (dg_issues g) \<Longrightarrow> n \<notin> notified \<Longrightarrow> quiet v n cur"
proof -
  let ?s = "((Map.empty, Map.empty), {}, db)"
  have items: "\<forall>(n, i, xs) \<in> set (fresh_notices v g db). \<exists>c. latest_notice v db n = Some c \<and> i = cm_id c"
    by (auto simp: fresh_notices_def split: option.splits if_splits) (metis option.inject)
  have "noticed v g db ?s" using no_caches by (simp add: noticed_def)
  note res = check_notices [OF items this, unfolded assms]
  then show "caches_ok g caches" "partway db hold now {} cur" by (simp_all add: noticed_def partway_def)
  show "quiet v n cur" if n: "n \<in> fst ` set (dg_issues g)" "n \<notin> notified"
  proof (cases "latest_notice v db n")
    case None
    then show ?thesis using res latest_same [of cur db v n] by (simp add: noticed_def quiet_def)
  next
    case (Some c)
    have same: "latest_notice v cur n = Some c" using res latest_same [of cur db v n] Some by (simp add: noticed_def)
    show ?thesis
    proof (cases "at_least_zero (db_comment_resets db n) < cm_id c")
      case True
      then have "(n, cm_id c, notice_numbers v (cm_body c)) \<in> set (fresh_notices v g db)"
        using n(1) Some by (force simp: fresh_notices_def)
      then have "checked n (cm_id c) (caches, notified, cur)" using res by fastforce
      then show ?thesis using n(2) same by (simp add: checked_def quiet_def at_least_zero_def)
    next
      case False
      have "db_comment_resets cur n = db_comment_resets db n \<or> db_comment_resets cur n = Some (cm_id c)"
        using res n(2) Some by (auto simp: noticed_def)
      with False same show ?thesis by (auto simp: quiet_def at_least_zero_def)
    qed
  qed
qed

lemma row_after_inactive: "ir_deleted_at r \<noteq> None \<or> ir_state r = State_Closed \<Longrightarrow> row_after db hold now r = r"
  by (auto simp: row_after_def Let_def)

lemma reconcile_rows:
  assumes ok: "numbers_ok db" "unheld db" "acyclic_graph (load db)" "reads_numbers v"
    and hold: "hold \<longleftrightarrow> upgrading \<or> rework \<or> db_prs db"
  shows "partway db hold now (ir_number ` set (db_issues db)) (reconcile_graph v actor now upgrading rework db)"
proof -
  define g where "g = load_active db"
  obtain caches notified cur where n: "fold (check_notice g) (fresh_notices v g db) ((Map.empty, Map.empty), {}, db) = (caches, notified, cur)"
    by (rule prod_cases3)
  have start: "loop_inv v g notified db hold now {} (caches, cur)"
    using notices_checked [OF n] by (simp add: loop_inv_def)
  have "sorted_wrt (<) (List.map fst (dg_issues g))"
    by (simp add: g_def load_active_def load_for_def load_selected_def Let_def fold_put_sorted)
  then have "distinct (List.map fst (dg_issues g))" by (rule sorted_distinct)
  from transitions_keep [OF ok g_def hold subset_refl this _ start]
  have "loop_inv v g notified db hold now (fst ` set (dg_issues g)) (fold (transition v actor now upgrading rework g notified) (dg_issues g) (caches, cur))"
    by simp
  then have part: "partway db hold now (fst ` set (dg_issues g)) (reconcile_graph v actor now upgrading rework db)"
    by (auto simp: loop_inv_def reconcile_graph_def g_def [symmetric] n split: prod.splits)
  have "row_after db hold now r = r" if r: "r \<in> set (db_issues db)" "ir_number r \<notin> fst ` set (dg_issues g)" for r
  proof (rule row_after_inactive, rule ccontr)
    define ns where "ns = List.map ir_number (filter (\<lambda>r. ir_state r \<noteq> State_Closed \<and> ir_deleted_at r = None) (db_issues db))"
    assume "\<not> (ir_deleted_at r \<noteq> None \<or> ir_state r = State_Closed)"
    then have "ir_number r \<in> set ns" using r(1) by (auto simp: ns_def)
    then have "ir_number r \<in> selection db ns" by (rule self_selected)
    moreover have "issue_at db (ir_number r) = Some r" using r(1) ok(1) by (simp add: issue_at_iff)
    ultimately have "map_of (dg_issues g) (ir_number r) = Some (dep_of db r)"
      using ok(1) by (simp add: g_def load_active_def ns_def [symmetric] load_for_def selected_issues in_selection_def selection_def)
    then show False using r(2) by (force dest: map_of_SomeD)
  qed
  then have "List.map (\<lambda>r. if ir_number r \<in> fst ` set (dg_issues g) then row_after db hold now r else r) (db_issues db) =
      List.map (\<lambda>r. if ir_number r \<in> ir_number ` set (db_issues db) then row_after db hold now r else r) (db_issues db)"
    by (intro map_cong) auto
  with part show ?thesis by (simp add: partway_def)
qed

lemma reconcile_issues:
  assumes "numbers_ok db" and "unheld db" and "acyclic_graph (load db)" and "reads_numbers v"
  shows "db_issues (reconcile_graph v actor now upgrading rework db) =
    List.map (row_after db (upgrading \<or> rework \<or> db_prs db) now) (db_issues db)"
proof -
  have "partway db (upgrading \<or> rework \<or> db_prs db) now (ir_number ` set (db_issues db)) (reconcile_graph v actor now upgrading rework db)"
    by (rule reconcile_rows [OF assms]) (rule refl)
  then show ?thesis by (auto simp: partway_def intro!: map_cong)
qed

lemma row_after_twice:
  assumes ok: "numbers_ok db" "unheld db" and part: "partway db hold now (ir_number ` set (db_issues db)) db'" and r: "r \<in> set (db_issues db)"
  shows "row_after db' hold now' (row_after db hold now r) = row_after db hold now r"
proof -
  have waits: "waits (load db') n \<longleftrightarrow> waits (load db) n" for n by (rule steady_waits [OF partway_steady [OF ok part]])
  have runs: "db_runs db' = db_runs db" using part by (simp add: partway_def)
  show ?thesis
  proof (cases "row_after db hold now r = r")
    case True
    have "expected_state (dep_of db' r) w = expected_state (dep_of db r) w" "has_claim (dep_of db' r) = has_claim (dep_of db r)" for w
      using runs by (simp_all add: dep_of_def expected_state_def has_claim_def)
    then have "row_after db' hold now' r = r"
      using True waits set_state_neq by (auto simp: row_after_def Let_def plain_waits split: if_splits)
    with True show ?thesis by simp
  next
    case False
    define st where "st = expected_state (dep_of db r) (waits (load db) (ir_number r))"
    have d: "ir_state r \<noteq> st" and after: "row_after db hold now r = set_state st now r"
      using False by (auto simp: row_after_def Let_def plain_waits st_def split: if_splits)
    have "expected_state (dep_of db' (set_state st now r)) (waits (load db') (ir_number r)) = st"
      using d by (auto simp: waits st_def expected_state_def split: if_splits)
    then show ?thesis unfolding after by (simp add: row_after_def Let_def plain_waits)
  qed
qed

lemma unheld_after:
  assumes "unheld db" and "partway db hold now (ir_number ` set (db_issues db)) db'"
  shows "unheld db'"
proof -
  have "\<not> ir_manual r" if "r \<in> set (db_issues db)" "ir_state (row_after db hold now r) = State_Ready" for r
  proof (cases "row_after db hold now r = r")
    case True
    then show ?thesis using that assms(1) by (simp add: unheld_def)
  next
    case False
    then have "ir_state (row_after db hold now r) = expected_state (dep_of db r) (waits (load db) (ir_number r))"
      by (auto simp: row_after_def Let_def plain_waits split: if_splits)
    with that(2) show ?thesis by (auto simp: expected_state_def split: if_splits)
  qed
  then show ?thesis using assms by (auto simp: unheld_def partway_def)
qed

section \<open>Claims under changes of subtasks\<close>

lemma claims_checked:
  assumes "fold_result (check_subtask_claim g) items m = Inr m'" and "memo_ok g {} m" and "(n, i) \<in> set items"
    and "di_assignee i \<noteq> None" and "\<not> di_deleted i" and "di_state i \<noteq> State_Closed"
  shows "di_state i = State_Blocked \<longleftrightarrow> di_manual i \<or> (\<not> di_draft i \<and> waits g n)"
  using assms(1-3)
proof (induction items arbitrary: m)
  case (Cons item items)
  obtain k j where item: "item = (k, j)" by fastforce
  obtain m1 where m1: "check_subtask_claim g (k, j) m = Inr m1" "fold_result (check_subtask_claim g) items m1 = Inr m'"
    using Cons.prems(1) by (auto simp: item)
  obtain w mw where h: "has_active g Map.empty k m = (w, mw)" by fastforce
  note active = has_active_correct [OF caches_actives [OF no_caches] Cons.prems(2) h]
  have "memo_ok g {} m1"
    using m1(1) Cons.prems(2) active(2) by (auto simp: check_subtask_claim_def h split: if_splits prod.splits)
  note rest = Cons.IH [OF m1(2) this]
  show ?case
  proof (cases "(n, i) = (k, j)")
    case True
    then show ?thesis using m1(1) assms(4-6) active(1) by (auto simp: check_subtask_claim_def h split: if_splits)
  next
    case False
    then show ?thesis using rest Cons.prems(3) by (auto simp: item)
  qed
qed simp

lemma expected_of_claim:
  assumes "di_state i = State_Blocked \<longleftrightarrow> di_manual i \<or> (\<not> di_draft i \<and> w)" and "di_state i \<noteq> State_Closed"
  shows "expected_state i w = di_state i"
  using assms by (cases "di_state i") (auto simp: expected_state_def)

section \<open>Replicated dependencies\<close>

lemma find_replaced:
  "find (\<lambda>r. ir_number r = n) rs = Some r \<Longrightarrow> ir_number x \<noteq> n \<Longrightarrow>
   find (\<lambda>r. ir_number r = n) (List.map (\<lambda>y. if ir_number y = ir_number x then x else y) rs) = Some r"
  by (induction rs) (auto split: if_splits)

lemma put_issue_at: "issue_at db n = Some r \<Longrightarrow> ir_number x \<noteq> n \<Longrightarrow> issue_at (put_issue x db) n = Some r"
  by (simp add: issue_at_def put_issue_def find_replaced)

lemma replication_keeps:
  assumes "numbers_ok db"
  shows "db_comments (reconcile_replication db) = db_comments db \<and> db_events (reconcile_replication db) = db_events db \<and>
    (\<forall>n r. issue_at db n = Some r \<longrightarrow> ir_assignee r \<noteq> None \<longrightarrow> issue_at (reconcile_replication db) n = Some r)"
proof -
  define g where "g = load_active db"
  have item: "db_comments cur' = db_comments cur \<and> db_events cur' = db_events cur \<and>
      (\<forall>n r. issue_at db n = Some r \<longrightarrow> ir_assignee r \<noteq> None \<longrightarrow> issue_at cur n = Some r \<longrightarrow> issue_at cur' n = Some r)"
    if "(k, i) \<in> set (dg_issues g)" "replicate_state g (k, i) (m, cur) = (m', cur')" for k i m cur m' cur'
  proof (cases "cur' = cur")
    case False
    have "(k, i) \<in> set (dg_issues (load_active db))" using that(1) by (simp add: g_def)
    then obtain r where r: "issue_at db k = Some r" "i = dep_of db r" by (rule active_item [OF assms])
    obtain w mw where h: "has_active g Map.empty k m = (w, mw)" by fastforce
    define w' where "w' = (if di_manual i \<or> di_draft i then False else w)"
    have "cur' = update_state (\<lambda>r. r\<lparr>ir_state := expected_state i w', ir_version := ir_version r + 1\<rparr>) k cur \<and> di_assignee i = None"
      using that(2) False by (auto simp: replicate_state_def Let_def h w'_def split: if_splits)
    then obtain st where cur': "cur' = update_state (\<lambda>r. r\<lparr>ir_state := st, ir_version := ir_version r + 1\<rparr>) k cur" and free: "di_assignee i = None"
      by blast
    have "issue_at cur' n = Some x" if "issue_at db n = Some x" "ir_assignee x \<noteq> None" "issue_at cur n = Some x" for n x
    proof -
      have "n \<noteq> k" using that r free by auto
      moreover have "ir_number y = k" if "issue_at cur k = Some y" for y using find_member that by (fastforce simp: issue_at_def)
      ultimately show ?thesis using that(3) by (auto simp: cur' update_state_def put_issue_at split: option.splits)
    qed
    then show ?thesis by (simp add: cur' update_state_def put_issue_def split: option.splits)
  qed simp
  have "db_comments (snd s') = db_comments (snd s) \<and> db_events (snd s') = db_events (snd s) \<and>
      (\<forall>n r. issue_at db n = Some r \<longrightarrow> ir_assignee r \<noteq> None \<longrightarrow> issue_at (snd s) n = Some r \<longrightarrow> issue_at (snd s') n = Some r)"
    if "set items \<subseteq> set (dg_issues g)" "s' = fold (replicate_state g) items s" for items s s'
    using that
  proof (induction items arbitrary: s)
    case (Cons x items)
    obtain k i m cur m' cur' where x: "x = (k, i)" "s = (m, cur)" "replicate_state g x s = (m', cur')" by (metis surj_pair)
    have "(k, i) \<in> set (dg_issues g)" using Cons.prems(1) x by simp
    from item [OF this] x have one: "db_comments cur' = db_comments cur \<and> db_events cur' = db_events cur \<and>
      (\<forall>n r. issue_at db n = Some r \<longrightarrow> ir_assignee r \<noteq> None \<longrightarrow> issue_at cur n = Some r \<longrightarrow> issue_at cur' n = Some r)" by simp
    have "s' = fold (replicate_state g) items (m', cur')" using Cons.prems(2) x by simp
    from Cons.IH [OF _ this] Cons.prems(1) one x(2) show ?case by auto
  qed simp
  from this [OF subset_refl refl, of "(Map.empty, db)"] show ?thesis by (simp add: reconcile_replication_def g_def Let_def)
qed

section \<open>Properties\<close>

text \<open>
  C13. In a project without a cycle of dependencies, and without a ready issue on manual hold,
  a reconciliation sets every issue to the state that the dependencies before it call for, in
  one pass although it changes the rows it decides by; it drops no transition, leaves other
  columns of issues, and closed and deleted issues, alone, keeps the claims of work in
  progress where pull requests are in use or rework asks for it, and a second one changes no
  issue. Both premises are needed. A request that would close a cycle is refused, but merged
  replicas can hold one of links and subtasks together, since the reduction of blockers looks
  at links only; there the trigger drops transitions that the graph calls for
  (\<open>guard_disagrees_on_cycles\<close>), and nothing is claimed of it here.
\<close>

theorem reconciliation_settles:
  assumes "numbers_ok db" and "\<forall>r \<in> set (db_issues db). ir_state r = State_Ready \<longrightarrow> \<not> ir_manual r"
    and "acyclic_graph (load db)" and "\<forall>ns. iv_parse v (show_numbers ns) = Some (jnumbers ns)"
  shows "db_issues (reconcile_graph v actor now upgrading rework db) =
      List.map (row_after db (upgrading \<or> rework \<or> db_prs db) now) (db_issues db) \<and>
    db_issues (reconcile_graph v actor' later upgrading rework (reconcile_graph v actor now upgrading rework db)) =
      db_issues (reconcile_graph v actor now upgrading rework db)"
proof -
  have unheld: "unheld db" and reads: "reads_numbers v" using assms(2,4) by (simp_all add: unheld_def reads_numbers_def)
  define hold where "hold \<longleftrightarrow> upgrading \<or> rework \<or> db_prs db"
  define db' where "db' = reconcile_graph v actor now upgrading rework db"
  have part: "partway db hold now (ir_number ` set (db_issues db)) db'"
    unfolding db'_def by (rule reconcile_rows [OF assms(1) unheld assms(3) reads hold_def])
  have first: "db_issues db' = List.map (row_after db hold now) (db_issues db)"
    unfolding db'_def hold_def by (rule reconcile_issues [OF assms(1) unheld assms(3) reads])
  have "numbers_ok db'" "acyclic_graph (load db')"
    using assms(1,3) partway_numbers [OF part] steady_acyclic [OF partway_steady [OF assms(1) unheld part]] by simp_all
  then have "db_issues (reconcile_graph v actor' later upgrading rework db') = List.map (row_after db' hold later) (db_issues db')"
    using reconcile_issues [OF _ unheld_after [OF unheld part] _ reads] part by (simp add: hold_def partway_def)
  also have "\<dots> = db_issues db'"
    unfolding first using row_after_twice [OF assms(1) unheld part] by simp
  finally show ?thesis using first by (simp add: db'_def hold_def)
qed

text \<open>
  C38. A change of subtasks never costs a claim: it is refused, with the issue named, when its
  reconciliation would release one, and otherwise no issue that is claimed changes at all.
\<close>

theorem subtask_changes_keep_claims:
  assumes "numbers_ok db" and "\<forall>r \<in> set (db_issues db). ir_state r = State_Ready \<longrightarrow> \<not> ir_manual r"
    and "acyclic_graph (load db)" and "\<forall>ns. iv_parse v (show_numbers ns) = Some (jnumbers ns)"
    and "reconcile_subtasks v actor now db = Inr db'" and "issue_at db n = Some r" and "ir_assignee r \<noteq> None"
  shows "issue_at db' n = Some r"
proof -
  have unheld: "unheld db" and reads: "reads_numbers v" using assms(2,4) by (simp_all add: unheld_def reads_numbers_def)
  obtain m where checked: "fold_result (check_subtask_claim (load db)) (dg_issues (load db)) Map.empty = Inr m"
    and db': "db' = reconcile v actor now db"
    using assms(5) by (auto simp: reconcile_subtasks_def validate_subtask_claims_def)
  have num: "ir_number r = n" "r \<in> set (db_issues db)" using assms(1,6) by (simp_all add: issue_at_iff)
  have part: "partway db (db_prs db) now (ir_number ` set (db_issues db)) db'"
    unfolding db' reconcile_def by (rule reconcile_rows [OF assms(1) unheld assms(3) reads]) simp
  have "row_after db (db_prs db) now r = r"
  proof (cases "ir_deleted_at r \<noteq> None \<or> ir_state r = State_Closed")
    case False
    have "map_of (dg_issues (load db)) n = Some (dep_of db r)" using assms(1,6) by (simp add: load_issues)
    then have "(n, dep_of db r) \<in> set (dg_issues (load db))" by (rule map_of_SomeD)
    from claims_checked [OF checked _ this] False assms(7)
    have "expected_state (dep_of db r) (waits (load db) n) = ir_state r"
      using expected_of_claim [of "dep_of db r" "waits (load db) n"] no_caches [of "load db"] by (simp add: caches_ok_def)
    then show ?thesis by (simp add: row_after_def Let_def plain_waits num)
  qed (rule row_after_inactive)
  with partway_at [OF part, of n] assms(6) num show ?thesis by force
qed

text \<open>A parser of lists of integers.\<close>

definition read_number :: "string \<Rightarrow> json" where
  "read_number s = JInt (case s of c # t \<Rightarrow> if c = CHR ''-'' then - int (read_nat t) else int (read_nat s) | [] \<Rightarrow> 0)"

definition read_list :: "string \<Rightarrow> json option" where
  "read_list s = (if s = ''[]'' then Some (JArray [])
     else Some (JArray (List.map (\<lambda>p. read_number (dropWhile (\<lambda>c. c = CHR '' '') p)) (split_char (CHR '','') (butlast (tl s))))))"

lemma show_digits: "c \<in> set (show_nat n) \<Longrightarrow> ascii_digit c"
  by (induction n rule: show_nat.induct) (subst (asm) (2) show_nat.simps, auto simp: ascii_digit_char split: if_splits)

lemma show_nat_cons: "\<exists>c t. show_nat n = c # t \<and> ascii_digit c"
  using show_digits [of _ n] by (cases "show_nat n") (auto simp: show_nat.simps [of n] split: if_splits)

lemma read_number_show: "read_number (show_int i) = JInt i"
proof -
  have "c \<noteq> CHR ''-''" if "ascii_digit c" for c using that by (auto simp: ascii_digit_def)
  moreover obtain d t where d: "show_nat (nat i) = d # t" "ascii_digit d" using show_nat_cons by blast
  moreover have "read_nat (d # t) = nat i" using read_show_nat [of "nat i"] d(1) by simp
  ultimately show ?thesis by (auto simp: read_number_def show_int_def)
qed

lemma show_int_chars: "c \<in> set (show_int i) \<Longrightarrow> c \<noteq> CHR '','' \<and> c \<noteq> CHR '' ''"
  using show_digits [of c] by (auto simp: show_int_def ascii_digit_def split: if_splits)

lemma show_int_trim: "dropWhile (\<lambda>c. c = CHR '' '') (show_int i) = show_int i"
  using show_int_chars [of _ i] by (cases "show_int i") auto

lemma split_one: "CHR '','' \<notin> set s \<Longrightarrow> split_char (CHR '','') s = [s]"
  by (induction s) auto

lemma split_more: "CHR '','' \<notin> set s \<Longrightarrow> split_char (CHR '','') (s @ CHR '','' # t) = s # split_char (CHR '','') t"
  by (induction s) auto

lemma read_rest:
  "List.map (\<lambda>p. read_number (dropWhile (\<lambda>c. c = CHR '' '') p)) (split_char (CHR '','') (show_int n @ butlast (show_rest ns))) = List.map JInt (n # ns)"
proof (induction ns arbitrary: n)
  case Nil
  have "CHR '','' \<notin> set (show_int n)" using show_int_chars [of "CHR '',''" n] by blast
  then show ?case by (simp add: split_one show_int_trim read_number_show)
next
  case (Cons m ns)
  have ne: "show_rest ns \<noteq> []" by (cases ns) simp_all
  have no: "CHR '','' \<notin> set (show_int n)" using show_int_chars [of "CHR '',''" n] by blast
  have cons: "split_char (CHR '','') (CHR '' '' # s) = (case split_char (CHR '','') s of [] \<Rightarrow> ['' ''] | p # ps \<Rightarrow> (CHR '' '' # p) # ps)" for s by simp
  have "butlast (show_rest (m # ns)) = CHR '','' # CHR '' '' # show_int m @ butlast (show_rest ns)"
    using ne by (simp add: butlast_append)
  moreover have "split_char (CHR '','') (show_int m @ butlast (show_rest ns)) \<noteq> []" using Cons.IH [of m] by auto
  ultimately show ?case using Cons.IH [of m] no
    by (auto simp: split_more show_int_trim read_number_show simp del: show_rest.simps split: list.splits)
qed

lemma read_list_show: "read_list (show_numbers ns) = Some (jnumbers ns)"
proof (cases ns)
  case Nil
  then show ?thesis by (simp add: read_list_def show_numbers_def jnumbers_def)
next
  case (Cons n ms)
  have ne: "show_rest ms \<noteq> []" by (cases ms) simp_all
  have "show_numbers ns \<noteq> ''[]''" using show_nat_cons [of "nat n"] show_nat_cons [of "nat (- n)"]
    by (auto simp: Cons show_numbers_def show_int_def ascii_digit_def)
  moreover have "butlast (tl (show_numbers ns)) = show_int n @ butlast (show_rest ms)" using ne by (simp add: Cons show_numbers_def butlast_append)
  ultimately show ?thesis using read_rest [of n ms] by (simp add: read_list_def jnumbers_def Cons)
qed

definition notice_view :: issue_view where
  "notice_view = \<lparr>iv_parse = read_list, iv_rowid = (\<lambda>_. 0)\<rparr>"

text \<open>Ready issues above an open one become blocked, and their dependents are told.\<close>

lemma reconciliation_settles_witness:
  "List.map (\<lambda>r. (ir_number r, ir_state r, ir_version r)) (db_issues (reconcile_graph notice_view None 7 False True example_db)) =
     [(1, State_Blocked, 2), (2, State_Blocked, 2), (3, State_Open, 1), (4, State_Open, 1)]"
proof -
  have "numbers_ok example_db" "\<forall>r \<in> set (db_issues example_db). ir_state r = State_Ready \<longrightarrow> \<not> ir_manual r"
    by (simp_all add: numbers_ok_def example_db_def plain_db_def plain_row_def)
  moreover have "acyclic_graph (load example_db)"
  proof -
    have subs: "db_subtasks example_db = [(2, 3)]" by (simp add: example_db_def plain_db_def)
    have links: "\<forall>r \<in> set (db_issues example_db). \<forall>t \<in> set (ir_blockers r). ir_number r < t"
      by (simp add: example_db_def plain_db_def plain_row_def)
    have "n < t" if "t \<in> set (nexts (load example_db) n)" for n t
    proof (cases "issue_at example_db n")
      case None
      with that subs show ?thesis by (auto simp: nexts_load [OF \<open>numbers_ok example_db\<close>] children_iff)
    next
      case (Some r)
      then have "r \<in> set (db_issues example_db)" "ir_number r = n" by (simp_all add: issue_at_iff [OF \<open>numbers_ok example_db\<close>])
      with that subs links Some show ?thesis by (auto simp: nexts_load [OF \<open>numbers_ok example_db\<close>] children_iff)
    qed
    then show ?thesis unfolding acyclic_arcs by (intro acyclicI_order [where f = uminus]) (auto simp: arcs_def)
  qed
  moreover have "\<forall>ns. iv_parse notice_view (show_numbers ns) = Some (jnumbers ns)" by (simp add: notice_view_def read_list_show)
  ultimately have "db_issues (reconcile_graph notice_view None 7 False True example_db) = List.map (row_after example_db True 7) (db_issues example_db)"
    using reconciliation_settles [of example_db notice_view None 7 False True None 8] by simp
  moreover have "List.map (\<lambda>r. (ir_number r, ir_state r, ir_version r)) (List.map (row_after example_db True 7) (db_issues example_db)) =
     [(1, State_Blocked, 2), (2, State_Blocked, 2), (3, State_Open, 1), (4, State_Open, 1)]" by code_simp
  ultimately show ?thesis by simp
qed

text \<open>A claimed issue above an open subtask: the change is refused; without the subtask it is kept.\<close>

definition claimed_db :: "(int \<times> int) list \<Rightarrow> issue_db" where
  "claimed_db subs = plain_db [(plain_row 1 State_Open [])\<lparr>ir_assignee := Some ''human:boss''\<rparr>, plain_row 2 State_Open []] subs"

lemma subtask_changes_keep_claims_witness:
  "reconcile_subtasks notice_view None 7 (claimed_db [(1, 2)]) = Inl (claim_conflict 1) \<and>
   (\<exists>db'. reconcile_subtasks notice_view None 7 (claimed_db []) = Inr db' \<and>
     issue_at db' 1 = Some ((plain_row 1 State_Open [])\<lparr>ir_assignee := Some ''human:boss''\<rparr>))"
proof -
  let ?db = "claimed_db []"
  have "validate_edges (load (claimed_db [(1, 2)])) = Inr ()" "validate_subtask_claims (load (claimed_db [(1, 2)])) = Inl (claim_conflict 1)"
    by code_simp+
  then have refused: "reconcile_subtasks notice_view None 7 (claimed_db [(1, 2)]) = Inl (claim_conflict 1)" by (simp add: reconcile_subtasks_def)
  have "is_ok (validate_edges (load ?db))" "is_ok (validate_subtask_claims (load ?db))" by code_simp+
  then obtain db' where db': "reconcile_subtasks notice_view None 7 ?db = Inr db'"
    by (auto simp: reconcile_subtasks_def is_ok_iff)
  have ok: "numbers_ok ?db" and held: "\<forall>r \<in> set (db_issues ?db). ir_state r = State_Ready \<longrightarrow> \<not> ir_manual r"
    by (simp_all add: numbers_ok_def claimed_db_def plain_db_def plain_row_def)
  have row: "issue_at ?db 1 = Some ((plain_row 1 State_Open [])\<lparr>ir_assignee := Some ''human:boss''\<rparr>)"
    by (simp add: issue_at_def claimed_db_def plain_db_def plain_row_def)
  have "nexts (load ?db) n = []" for n
  proof -
    have "\<forall>r \<in> set (db_issues ?db). ir_blockers r = []" "db_subtasks ?db = []" by (simp_all add: claimed_db_def plain_db_def plain_row_def)
    then show ?thesis using issue_at_iff [OF ok, of n]
      by (cases "issue_at ?db n") (auto simp: nexts_load [OF ok] child_list_def child_pairs_def)
  qed
  then have acyclic: "acyclic_graph (load ?db)" by (simp add: acyclic_graph_def)
  have reads: "\<forall>ns. iv_parse notice_view (show_numbers ns) = Some (jnumbers ns)" by (simp add: notice_view_def read_list_show)
  have "issue_at db' 1 = Some ((plain_row 1 State_Open [])\<lparr>ir_assignee := Some ''human:boss''\<rparr>)"
    by (rule subtask_changes_keep_claims [OF ok held acyclic reads db' row]) simp
  with refused db' show ?thesis by blast
qed

end
