(* ===== verification/Spec2Isabelle.thy ===== *)
theory Spec2Isabelle
  imports Projection Graph Session Quota Capacity Occurrences Job_Protocol Issue_Reconcile
begin

text \<open>
  Verification of the core of hey-boss: the replication of issue data between machines,
  the scheduling of GitHub requests, and the decisions of the model proxy. This theory
  collects the development and documents it; the definitions and theorems stand in the
  theories it imports. Paths below are under \<open>src/\<close>.

  \<^bold>\<open>The program.\<close> Machines of a fleet each keep a SQLite database. Every local change is
  captured as an immutable \<open>revision\<close> and appended to a journal; machines exchange
  journals over SSH in sessions of framed messages; each machine reduces the revisions
  it holds, in whatever order they arrive, to the rows that the application reads. A
  second program reads GitHub for all of them under its rate limits, and a third
  forwards model requests to providers, with accounts, routes, aliases and fallbacks.

  \<^bold>\<open>Shared theories.\<close> \<open>Prelude\<close>: results of fallible operations (a Rust \<open>Result\<close> is
  \<open>string + 'a\<close>, \<open>and_then\<close> the question mark, \<open>fold_result\<close> a loop that may return
  early), decimal printing, lists. \<open>Json\<close>: \<open>serde_json::Value\<close>. \<open>Text_Ops\<close>: the string
  operations of the standard library on UTF-8 bytes. \<open>Delivery\<close>: the locale \<open>replica\<close>,
  the contract of a table derived from a log whose facts arrive in any order and number,
  interpreted by the queue (\<open>Ordering\<close>) and by the merged cells (\<open>Projection\<close>).

  \<^bold>\<open>Replication.\<close>
  \<^item> \<open>Revision\<close>: the facts, tables and columns (\<open>src/fleet/native/distributed.rs\<close>,
    \<open>capture.rs\<close>, \<open>resources.rs\<close>) and the validation of pages (\<open>src/pages.rs\<close>).
  \<^item> \<open>Wire\<close>: frames (\<open>packages/hey-boss-sync/src/wire.rs\<close>) and stored payloads
    (\<open>compression.rs\<close>). Every message that is written is read back.
  \<^item> \<open>Engine\<close>: the journal (\<open>packages/hey-boss-sync/src/lib.rs\<close>): records, delivery log,
    receipts, acknowledgments, and every operation on them. The state of the SQLite file
    is the record \<open>engine\<close>; the cr-sqlite merge is the parameter \<open>extension\<close>.
  \<^item> \<open>Network\<close>: journals that exchange batches which may be lost, repeated or reordered,
    as the step relation \<open>net_step\<close>; a receipt proves possession in every reachable state.
  \<^item> \<open>Session\<close>: both sides of a session (\<open>session.rs\<close>) as state machines joined by two byte
    streams that may end anywhere; an interrupted session is sound, a complete one makes
    progress, and enough of them reach agreement.
  \<^item> \<open>Pages\<close>, \<open>Projection\<close>, \<open>Ordering\<close>, \<open>Graph\<close>: the reduction of revisions
    (\<open>distributed/projection.rs\<close>, \<open>ordering.rs\<close>, \<open>graph.rs\<close>, \<open>src/pages/storage.rs\<close>). A
    revision is validated, split into fields, merged field by field by stamp, and read
    back as rows; the queue replays rotations in stamp order; blockers that would close a
    cycle are dropped. Replicas that hold the same revisions read the same rows.

  \<^bold>\<open>GitHub scheduler.\<close> \<open>Pacing\<close> (\<open>packages/hey-gh/src/scheduler/pacing.rs\<close>): the queue of
  dispatch slots of a quota, shown to refine the history of its reservations. \<open>Quota\<close>
  (\<open>scheduler.rs\<close>, \<open>scheduler/inflight.rs\<close>, \<open>scheduler/waiters.rs\<close>): windows, reserve,
  borrowed turns, lanes, rotation, back-off and deadlines. Times are integers of the unit
  the code compares (milliseconds or seconds); the clock, and the rounding of the
  floating-point spacing, are parameters.

  \<^bold>\<open>Model proxy\<close> (\<open>packages/hey-proxy/src\<close>).
  \<^item> \<open>Event_Stream\<close>: the decoder of server-sent events (\<open>proxy/sse.rs\<close>).
  \<^item> \<open>Fallback\<close>: fallback rules and the policy that decides when a failed request may be
    repeated (\<open>fallback.rs\<close>). Accepted rules have bounded chains when no name carries the
    prefix of the provider twice; with such names validation accepts a cycle.
  \<^item> \<open>Accounts\<close>, \<open>Proxy_Config\<close>, \<open>Routing\<close>: the blocks of providers, the configuration, its
    file form, its validation, named accounts, and the resolution of routes
    (\<open>config.rs\<close>, \<open>config/accounts.rs\<close>, \<open>config/routes.rs\<close>, \<open>proxy/codex.rs\<close>,
    \<open>proxy/claude.rs\<close>, \<open>claude_auth/wif.rs\<close>, \<open>credentials.rs\<close>).
  \<^item> \<open>Rewriting\<close>: what is changed in a request (\<open>proxy/guidance.rs\<close>, \<open>rewrite_value\<close> and
    \<open>prepare_body\<close> in \<open>proxy.rs\<close>, \<open>proxy/replay.rs\<close>): the alias decides the model and the
    project, a reminder is added once, and anything else is forwarded as it came.
  \<^item> \<open>Forwarding\<close>: the candidates of a request, the inspection of answers, and retries
    (\<open>proxy/fallback.rs\<close>, \<open>proxy/recovery.rs\<close>): plans and retries are bounded, an answer is
    given up only before output, and the one that is kept is passed on unchanged.
  \<^item> \<open>Capacity\<close>: capacity failures and their translation (\<open>proxy/capacity.rs\<close>).

  \<^bold>\<open>Parameters.\<close> Code outside the repository is an argument: JSON parsing and printing,
  gzip, SHA-256, the cr-sqlite merge, URL parsing, clocks and random draws. What is
  relied on is stated as a hypothesis (\<open>good_codec\<close>: decompression inverts compression,
  and the like), and every theorem with such a hypothesis has a witness over a concrete
  instance.

  \<^bold>\<open>Bounds and recursion.\<close> The limits of the code (frames of 16 MiB, batches of 128 records,
  chains of 16 models, preludes of 256 KiB) are definitions with the code's names. Loops
  are total functions: the depth-first search of \<open>Fallback\<close> ends because its path never
  exceeds 16 names, those of \<open>Graph\<close>, \<open>Issue_Graph\<close> and \<open>Issue_Cycles\<close> because their sets of seen nodes
  grow. Only \<open>unfinished\<close> has a bound on its depth, the number of issues and one: each call
  that recurs adds an issue to its memo, and the answer is proved right at that bound.

  \<^bold>\<open>Jobs.\<close>
  \<^item> \<open>Cron\<close>: schedules (\<open>src/jobs/schedule.rs\<close>): parsing of cron expressions, \<open>preview\<close>,
    \<open>next\<close> and \<open>latest\<close>. The calendar and the time zones are the library's and are
    parameters. An accepted schedule has values in range and some date.
  \<^item> \<open>Occurrences\<close>: the laws of a zone (\<open>zone_ok\<close>) and the correctness of the searches:
    they return exactly the occurrences, a preview those whose date is not after that of its
    end. Clocks may go back: where they do so across midnight before the end of a preview, it
    leaves out an occurrence (\<open>repeated_midnight_is_left_out\<close>). The bound of their loops, nine
    years and two days of dates, is enough by the last law.
  \<^item> \<open>Jobs\<close>: definitions of jobs and their validation (\<open>src/jobs/mod.rs\<close>, \<open>command.rs\<close>), the
    files of instructions by digest (\<open>files.rs\<close>), the tables of the supervisor (\<open>jobs_db\<close>:
    \<open>src/jobs/store.rs\<close>), the changes of jobs with receipts and revisions, the occurrences
    that are due and the publication of runs with their events (\<open>event_log/producers.rs\<close>).
    The hash, the encoding of a request, the calendar and the zones are the parameter
    \<open>job_ports\<close>; a file that exists is the text it holds.
  \<^item> \<open>Job_Runs\<close>: ownership of runs, stopping, reports of machines and groups of machines
    (\<open>src/jobs/runner_store.rs\<close>, \<open>execution.rs\<close>). A run with an issue number, which no
    operation makes any more, is not modelled; nor is the limit on the size of an event.
  \<^item> \<open>Job_Store\<close>: the invariant of the tables (\<open>job_inv\<close>) and what a statement may change;
    \<open>Job_Steps\<close>: every operation keeps the invariant and moves runs forward
    (\<open>good\<close>), and the relation \<open>job_step\<close> of all of them.
  \<^item> \<open>Job_Requests\<close>: the reachable states: one run per occurrence, one active run per job,
    finished runs that never change, events that tell every run, requests answered again
    the same, stale edits refused, groups that end as their machines did.
  \<^item> \<open>Job_Log\<close>: the log of a script, any bytes, its transfer in pages and the lossy decoding
    of each (\<open>src/fleet/native/job_script.rs\<close>): the pages join to the decoding of the whole.
  \<^item> \<open>Runner\<close>: the tables of a machine and what a worker does with a run
    (\<open>src/fleet/native/jobs.rs\<close>): receipt of a dispatch, claim, recovery, the phases of a
    session, reports, acknowledgements. Processes, their groups and the clock are the
    parameter \<open>machine_view\<close>. Not modelled: the loop of the worker and its threads, sessions
    to resume, worktrees, the files of commands, the choice of a machine for a run.
  \<^item> \<open>Job_Custody\<close>: which machine holds a run under which generation, and that only an
    accepted release changes it.
  \<^item> \<open>Job_Machine\<close>, \<open>Job_Protocol\<close>: the steps of a machine (\<open>machine_step\<close>, each phase of an
    executor a step of its own, with its death) and of a fleet (\<open>fleet_step\<close>). Messages are
    never removed from the fleet, so each may arrive late, often, in any order, or not at
    all. Instructions are written at most once, a run that succeeded was told exactly
    once, an acknowledged outcome is settled. A machine does not lose its tables.

  \<^bold>\<open>Issues.\<close>
  \<^item> \<open>Issue_Graph\<close>: the dependencies of the issues of a project, declared blockers and
    subtasks (\<open>src/issues/blockers.rs\<close>): whether an issue is unfinished, whether it waits and
    for what. The recursion with its memo computes the least fixed point \<open>satisfied\<close>.
  \<^item> \<open>Issue_Cycles\<close>: the check of one dependency, and of all of them by strongly connected
    components.
  \<^item> \<open>Issue_Tables\<close>: the tables of a project (\<open>issue_db\<close>: \<open>src/issues/store.rs\<close>,
    \<open>worker_store.rs\<close>, \<open>fleet.rs\<close>), the loading of the graph or of the part that a request
    needs, which answers as the whole does, the views of dependencies in a response
    (\<open>enrich\<close>), and the checks of new dependencies.
  \<^item> \<open>Issue_Writes\<close>: events, comments, rows of issues, with the triggers of
    \<open>src/issues/dependency_notices.rs\<close> that drop writes. The JSON parser of SQLite is a parameter.
  \<^item> \<open>Issue_Guard\<close>: the trigger on states, a recursive query, agrees with the graph in Rust
    unless dependencies form a cycle; two examples where it drops what a request asked for.
  \<^item> \<open>Issue_Reconcile\<close>: reconciliation, the loop that sets every issue to the state its
    dependencies call for, with its notices, its variants for rework, upgrades, replication
    and changes of subtasks. Without cycles, and without a ready issue on
    manual hold, it settles in one pass; it keeps the claims it must keep.
  The operations of requests on issues, workers and watchers of pull requests are not modelled.

  \<^bold>\<open>Not modelled.\<close> Input and output: HTTP servers and clients, SQL statements other than
  those translated here, files, processes, SSH and the terminal; cryptography; the
  conversion between provider formats; the Swift applications; vendored code. The
  components are listed, with the reason for each, beside the development.
\<close>

end
